(* ===== verification/Raeen_Prelude.thy ===== *)
theory Raeen_Prelude
  imports Main "HOL-Library.Word"
begin

text \<open>
  Shared vocabulary of the development: the machine types of the Rust sources,
  the integer operations of the Rust standard library the sources call
  (wrapping, checked and saturating arithmetic, the sign-reinterpreting casts
  \<open>as i32\<close> and \<open>as u64\<close>), and the named collections of rewrite rules the
  component theories extend.

  A \<open>u64\<close>/\<open>usize\<close> is a \<open>64 word\<close>. The release profile of the workspace does
  not turn overflow checks on, so \<open>+\<close>, \<open>-\<close> and \<open>*\<close> on words (which wrap) are
  the operators of the shipped program.
\<close>

named_theorems tiling_simps \<open>structure of the address-space tilings\<close>
named_theorems sync_simps \<open>unfolding of the synchronisation handlers\<close>
named_theorems mem_simps \<open>guest memory and allocator rules\<close>

section \<open>Machine types\<close>

type_synonym u64 = "64 word"
type_synonym u32 = "32 word"
type_synonym u16 = "16 word"
type_synonym byte = "8 word"

abbreviation U64_MAX :: u64 where
  "U64_MAX \<equiv> 0xFFFFFFFFFFFFFFFF"

lemma u64_max_eq: "(U64_MAX :: u64) = - 1"
  by simp

lemma unat_u64_lt: "unat (x :: u64) < 18446744073709551616"
  using unsigned_less [of x] by simp

lemma unat_u64_max: "unat (U64_MAX :: u64) = 18446744073709551615"
  by simp

section \<open>Checked and saturating arithmetic\<close>

definition checked_add :: "u64 \<Rightarrow> u64 \<Rightarrow> u64 option" where
  "checked_add a b = (if a + b < a then None else Some (a + b))"

definition saturating_add :: "u64 \<Rightarrow> u64 \<Rightarrow> u64" where
  "saturating_add a b = (if a + b < a then U64_MAX else a + b)"

definition saturating_sub :: "u64 \<Rightarrow> u64 \<Rightarrow> u64" where
  "saturating_sub a b = (if a < b then 0 else a - b)"

lemma unat_add_no_wrap:
  fixes a b :: u64
  assumes "unat a + unat b < 18446744073709551616"
  shows "unat (a + b) = unat a + unat b"
  using assms by (simp add: unat_word_ariths)

lemma unat_sub_le: "b \<le> a \<Longrightarrow> unat (a - b :: u64) = unat a - unat b"
  by (simp add: unat_sub)

lemma word_add_less_iff:
  fixes a b :: u64
  shows "a + b < a \<longleftrightarrow> 18446744073709551616 \<le> unat a + unat b"
proof (cases "unat a + unat b < 18446744073709551616")
  case True
  then show ?thesis by (simp add: word_less_nat_alt unat_add_no_wrap)
next
  case False
  have "unat (a + b) = unat a + unat b - 18446744073709551616"
    using False unat_u64_lt [of a] unat_u64_lt [of b]
    by (simp add: unat_word_ariths mod_if)
  then show ?thesis
    using False unat_u64_lt [of a] unat_u64_lt [of b] by (simp add: word_less_nat_alt)
qed

lemma checked_add_Some_iff:
  "checked_add a b = Some c \<longleftrightarrow> unat a + unat b < 18446744073709551616 \<and> c = a + b"
  by (auto simp: checked_add_def word_add_less_iff)

lemma checked_add_None_iff:
  "checked_add a b = None \<longleftrightarrow> 18446744073709551616 \<le> unat a + unat b"
  by (auto simp: checked_add_def word_add_less_iff)

lemma checked_add_unat:
  "checked_add a b = Some c \<Longrightarrow> unat c = unat a + unat b"
  by (auto simp: checked_add_Some_iff unat_add_no_wrap)

lemma saturating_add_unat:
  "unat (saturating_add a b) = min (unat a + unat b) 18446744073709551615"
  using unat_u64_lt [of "a + b"]
  by (auto simp: saturating_add_def word_add_less_iff unat_add_no_wrap min_def)

lemma saturating_sub_unat: "unat (saturating_sub a b) = unat a - unat b"
  by (auto simp: saturating_sub_def word_less_nat_alt unat_sub word_le_nat_alt)

text \<open>Comparisons with a saturating sum, away from the saturation value.\<close>

lemma saturating_add_le_iff:
  assumes "unat c < 18446744073709551615"
  shows "saturating_add a b \<le> c \<longleftrightarrow> unat a + unat b \<le> unat c"
  using assms by (auto simp: word_le_nat_alt saturating_add_unat)

section \<open>Casts\<close>

text \<open>\<open>x as i32\<close> and \<open>n as u64\<close>: the low 32 bits read as a signed number, and
  the two's-complement image of a signed number.\<close>

definition as_i32 :: "u64 \<Rightarrow> int" where
  "as_i32 x = signed_take_bit 31 (uint x)"

definition as_u32 :: "u64 \<Rightarrow> u32" where
  "as_u32 x = ucast x"

definition i32_to_u64 :: "int \<Rightarrow> u64" where
  "i32_to_u64 n = word_of_int n"

definition u32_to_u64 :: "u32 \<Rightarrow> u64" where
  "u32_to_u64 x = ucast x"

definition i32_range :: "int \<Rightarrow> bool" where
  "i32_range n \<longleftrightarrow> - 2147483648 \<le> n \<and> n < 2147483648"

lemma as_i32_range: "i32_range (as_i32 x)"
proof -
  have "as_i32 x < 2 ^ 31"
    unfolding as_i32_def by (rule signed_take_bit_int_less_exp)
  moreover have "- (2 ^ 31) \<le> as_i32 x"
    unfolding as_i32_def by (rule signed_take_bit_int_greater_eq_minus_exp)
  ultimately show ?thesis by (simp add: i32_range_def)
qed

text \<open>\<open>i32\<close> arithmetic wraps at 32 bits in the release profile.\<close>

definition i32_add :: "int \<Rightarrow> int \<Rightarrow> int" where
  "i32_add a b = signed_take_bit 31 (a + b)"

definition i32_sub :: "int \<Rightarrow> int \<Rightarrow> int" where
  "i32_sub a b = signed_take_bit 31 (a - b)"

lemma i32_wrap_id: "i32_range n \<Longrightarrow> signed_take_bit 31 n = n"
  by (simp add: i32_range_def signed_take_bit_int_eq_self)

lemma i32_add_id: "i32_range (a + b) \<Longrightarrow> i32_add a b = a + b"
  by (simp add: i32_add_def i32_wrap_id)

lemma i32_sub_id: "i32_range (a - b) \<Longrightarrow> i32_sub a b = a - b"
  by (simp add: i32_sub_def i32_wrap_id)

lemma as_i32_of_int [simp]: "i32_range n \<Longrightarrow> as_i32 (i32_to_u64 n) = n"
proof -
  assume r: "i32_range n"
  have "signed_take_bit 31 (uint (word_of_int n :: u64)) = signed_take_bit 31 n"
    by (simp add: unsigned_of_int signed_take_bit_take_bit)
  then show "as_i32 (i32_to_u64 n) = n"
    using i32_wrap_id [OF r] by (simp add: as_i32_def i32_to_u64_def)
qed

lemma as_u32_to_u64 [simp]: "as_u32 (u32_to_u64 x) = x"
  by (rule bit_word_eqI) (auto simp: as_u32_def u32_to_u64_def bit_simps)

section \<open>Result codes\<close>

text \<open>SCE kernel results: \<open>0x8002_0000 | errno\<close>.\<close>

abbreviation (input) SCE_OK :: u64 where "SCE_OK \<equiv> 0"
abbreviation (input) SCE_EPERM :: u64 where "SCE_EPERM \<equiv> 0x80020001"
abbreviation (input) SCE_ESRCH :: u64 where "SCE_ESRCH \<equiv> 0x80020003"
abbreviation (input) SCE_ENOMEM :: u64 where "SCE_ENOMEM \<equiv> 0x8002000C"
abbreviation (input) SCE_EFAULT :: u64 where "SCE_EFAULT \<equiv> 0x8002000E"
abbreviation (input) SCE_EBUSY :: u64 where "SCE_EBUSY \<equiv> 0x80020010"
abbreviation (input) SCE_EINVAL :: u64 where "SCE_EINVAL \<equiv> 0x80020016"
abbreviation (input) SCE_EAGAIN :: u64 where "SCE_EAGAIN \<equiv> 0x80020023"
abbreviation (input) SCE_ETIMEDOUT :: u64 where "SCE_ETIMEDOUT \<equiv> 0x8002003C"

section \<open>Guest calls\<close>

text \<open>The integer arguments of a guest call: a missing argument reads as 0
  (\<open>args.first().copied().unwrap_or(0)\<close>, \<open>args.get(i).copied().unwrap_or(0)\<close>).\<close>

definition arg :: "u64 list \<Rightarrow> nat \<Rightarrow> u64" where
  "arg args i = (if i < length args then args ! i else 0)"

lemma arg_simps [simp]:
  "arg [] i = 0"
  "arg (a # as) 0 = a"
  "arg (a # as) (Suc i) = arg as i"
  by (simp_all add: arg_def)

lemma arg_numerals [simp]:
  "arg (a # as) 1 = arg as 0"
  "arg (a # as) (numeral n) = arg as (pred_numeral n)"
  by (simp_all add: arg_def numeral_eq_Suc)

end
