(* ===== verification/Ordered_Map.thy ===== *)
theory Ordered_Map
  imports Raeen_Prelude
begin

text \<open>
  The ordered map of the Rust standard library (\<open>std::collections::BTreeMap\<close>)
  as an association list with strictly increasing keys, with the operations the
  sources use: \<open>get\<close>, \<open>insert\<close>, \<open>remove\<close>, \<open>range(..=k).next_back()\<close>,
  \<open>range(..k).next_back()\<close>, \<open>range(k..).next()\<close> and \<open>range(a..b)\<close>.
  The locale \<open>ordered_map\<close> is the contract the clients rely on; its
  interpretation on the association lists is at the end of the theory.
\<close>

type_synonym ('k, 'v) btree = "('k \<times> 'v) list"

definition bt_keys :: "('k, 'v) btree \<Rightarrow> 'k set" where
  "bt_keys m = fst ` set m"

definition bt_ok :: "('k::linorder, 'v) btree \<Rightarrow> bool" where
  "bt_ok m \<longleftrightarrow> sorted_wrt (<) (List.map fst m)"

definition bt_get :: "('k, 'v) btree \<Rightarrow> 'k \<Rightarrow> 'v option" where
  "bt_get m k = map_of m k"

fun bt_insert :: "'k::linorder \<Rightarrow> 'v \<Rightarrow> ('k, 'v) btree \<Rightarrow> ('k, 'v) btree" where
  "bt_insert k v [] = [(k, v)]"
| "bt_insert k v ((a, w) # m) =
     (if a < k then (a, w) # bt_insert k v m
      else if a = k then (k, v) # m
      else (k, v) # (a, w) # m)"

definition bt_remove :: "'k \<Rightarrow> ('k, 'v) btree \<Rightarrow> ('k, 'v) btree" where
  "bt_remove k m = filter (\<lambda>e. fst e \<noteq> k) m"

definition bt_floor :: "('k::linorder, 'v) btree \<Rightarrow> 'k \<Rightarrow> ('k \<times> 'v) option" where
  "bt_floor m k = (let es = filter (\<lambda>e. fst e \<le> k) m in
     if es = [] then None else Some (last es))"

definition bt_below :: "('k::linorder, 'v) btree \<Rightarrow> 'k \<Rightarrow> ('k \<times> 'v) option" where
  "bt_below m k = (let es = filter (\<lambda>e. fst e < k) m in
     if es = [] then None else Some (last es))"

definition bt_from :: "('k::linorder, 'v) btree \<Rightarrow> 'k \<Rightarrow> ('k, 'v) btree" where
  "bt_from m k = filter (\<lambda>e. k \<le> fst e) m"

definition bt_ceil :: "('k::linorder, 'v) btree \<Rightarrow> 'k \<Rightarrow> ('k \<times> 'v) option" where
  "bt_ceil m k = (case bt_from m k of [] \<Rightarrow> None | e # es \<Rightarrow> Some e)"

text \<open>\<open>BTreeMap::range(a..b)\<close> panics when \<open>a > b\<close>.\<close>

definition bt_range :: "('k::linorder, 'v) btree \<Rightarrow> 'k \<Rightarrow> 'k \<Rightarrow> ('k, 'v) btree option" where
  "bt_range m a b = (if b < a then None
     else Some (filter (\<lambda>e. a \<le> fst e \<and> fst e < b) m))"

section \<open>Positional lemmas\<close>

text \<open>Clients that know where a key sits describe the map as
  \<open>P @ (k, v) # S\<close>; these lemmas say what each operation does there.\<close>

lemma bt_ok_Nil [simp]: "bt_ok []"
  by (simp add: bt_ok_def)

lemma bt_ok_Cons [simp]:
  "bt_ok ((k, v) # m) \<longleftrightarrow> (\<forall>e\<in>set m. k < fst e) \<and> bt_ok m"
  by (auto simp: bt_ok_def)

lemma bt_ok_append:
  "bt_ok (xs @ ys) \<longleftrightarrow>
     bt_ok xs \<and> bt_ok ys \<and> (\<forall>x\<in>set xs. \<forall>y\<in>set ys. fst x < fst y)"
  by (auto simp: bt_ok_def sorted_wrt_append)

lemma bt_insert_between:
  assumes "\<forall>e\<in>set P. fst e < k" and "\<forall>e\<in>set S. k < fst e"
  shows "bt_insert k v (P @ S) = P @ (k, v) # S"
  using assms
proof (induction P)
  case Nil
  then show ?case by (cases S) auto
next
  case (Cons e P)
  then show ?case by (cases e) auto
qed

lemma bt_insert_at:
  assumes "\<forall>e\<in>set P. fst e < k"
  shows "bt_insert k v (P @ (k, w) # S) = P @ (k, v) # S"
  using assms
proof (induction P)
  case (Cons e P)
  then show ?case by (cases e) auto
qed simp

lemma bt_remove_at:
  assumes "bt_ok (P @ (k, w) # S)"
  shows "bt_remove k (P @ (k, w) # S) = P @ S"
proof -
  have "filter (\<lambda>e. fst e \<noteq> k) P = P"
    using assms by (auto simp: bt_ok_append intro!: filter_True)
  moreover have "filter (\<lambda>e. fst e \<noteq> k) S = S"
    using assms by (auto simp: bt_ok_append intro!: filter_True)
  ultimately show ?thesis by (simp add: bt_remove_def)
qed

lemma bt_get_at:
  assumes "bt_ok (P @ (k, w) # S)"
  shows "bt_get (P @ (k, w) # S) k = Some w"
proof -
  have "map_of P k = None"
    using assms by (force simp: bt_ok_append map_of_eq_None_iff)
  then show ?thesis by (simp add: bt_get_def map_add_def)
qed

lemma bt_floor_at:
  assumes "\<forall>e\<in>set S. k < fst e" and "a \<le> k"
  shows "bt_floor (P @ (a, v) # S) k = Some (a, v)"
proof -
  have "filter (\<lambda>e. fst e \<le> k) S = []"
    using assms(1) by (auto simp: filter_empty_conv)
  then show ?thesis using assms(2) by (simp add: bt_floor_def Let_def)
qed

lemma bt_below_at:
  assumes "\<forall>e\<in>set S. k \<le> fst e"
  shows "bt_below (P @ S) k = bt_below P k"
proof -
  have "filter (\<lambda>e. fst e < k) S = []"
    using assms by (auto simp: filter_empty_conv)
  then show ?thesis by (simp add: bt_below_def)
qed

lemma bt_below_last:
  assumes "a < k"
  shows "bt_below (P @ [(a, v)]) k = Some (a, v)"
  using assms by (simp add: bt_below_def Let_def)

lemma bt_below_Nil [simp]: "bt_below [] k = None"
  by (simp add: bt_below_def)

lemma bt_from_at:
  assumes "\<forall>e\<in>set P. fst e < k" and "\<forall>e\<in>set S. k \<le> fst e"
  shows "bt_from (P @ S) k = S"
proof -
  have "filter (\<lambda>e. k \<le> fst e) P = []"
    using assms(1) by (auto simp: filter_empty_conv)
  moreover have "filter (\<lambda>e. k \<le> fst e) S = S"
    using assms(2) by (auto intro!: filter_True)
  ultimately show ?thesis by (simp add: bt_from_def)
qed

lemma bt_ceil_at:
  assumes "\<forall>e\<in>set P. fst e < k" and "\<forall>e\<in>set S. k \<le> fst e"
  shows "bt_ceil (P @ S) k = (case S of [] \<Rightarrow> None | e # es \<Rightarrow> Some e)"
  by (simp add: bt_ceil_def bt_from_at [OF assms])

lemma bt_range_at:
  assumes "\<forall>e\<in>set P. fst e < a"
    and "\<forall>e\<in>set M. a \<le> fst e \<and> fst e < b"
    and "\<forall>e\<in>set S. b \<le> fst e" and "a \<le> b"
  shows "bt_range (P @ M @ S) a b = Some M"
proof -
  have "filter (\<lambda>e. a \<le> fst e \<and> fst e < b) P = []"
    using assms(1) by (auto simp: filter_empty_conv)
  moreover have "filter (\<lambda>e. a \<le> fst e \<and> fst e < b) M = M"
    using assms(2) by (auto intro!: filter_True)
  moreover have "filter (\<lambda>e. a \<le> fst e \<and> fst e < b) S = []"
    using assms(3) by (auto simp: filter_empty_conv)
  ultimately show ?thesis using assms(4) by (simp add: bt_range_def)
qed

lemma bt_remove_all:
  "foldl (\<lambda>m k. bt_remove k m) m ks = filter (\<lambda>e. fst e \<notin> set ks) m"
  by (induction ks arbitrary: m) (auto simp: bt_remove_def intro: filter_cong)

section \<open>The contract of an ordered map\<close>

lemma bt_insert_set:
  "bt_ok m \<Longrightarrow> set (bt_insert k v m) = insert (k, v) {e \<in> set m. fst e \<noteq> k}"
proof (induction m)
  case (Cons e m)
  then show ?case by (cases e) force
qed simp

lemma bt_insert_ok: "bt_ok m \<Longrightarrow> bt_ok (bt_insert k v m)"
proof (induction m)
  case (Cons e m)
  then show ?case by (cases e) (auto simp: bt_insert_set)
qed simp

lemma bt_remove_ok: "bt_ok m \<Longrightarrow> bt_ok (bt_remove k m)"
  unfolding bt_ok_def bt_remove_def by (induction m) auto

lemma bt_get_insert:
  "bt_ok m \<Longrightarrow> bt_get (bt_insert k v m) q = (if q = k then Some v else bt_get m q)"
proof (induction m)
  case (Cons e m)
  then show ?case by (cases e) (auto simp: bt_get_def)
qed (simp add: bt_get_def)

lemma bt_get_remove:
  "bt_get (bt_remove k m) q = (if q = k then None else bt_get m q)"
  by (induction m) (auto simp: bt_get_def bt_remove_def)

lemma bt_get_in: "bt_ok m \<Longrightarrow> bt_get m k = Some v \<longleftrightarrow> (k, v) \<in> set m"
proof (induction m)
  case (Cons e m)
  then show ?case by (cases e) (force simp: bt_get_def)
qed (simp add: bt_get_def)

lemma bt_floor_Some:
  assumes "bt_floor m k = Some (a, v)"
  shows "(a, v) \<in> set m" and "a \<le> k"
proof -
  let ?es = "filter (\<lambda>e. fst e \<le> k) m"
  have "?es \<noteq> []" and "last ?es = (a, v)"
    using assms by (auto simp: bt_floor_def Let_def split: if_splits)
  then have "(a, v) \<in> set ?es" using last_in_set by metis
  then show "(a, v) \<in> set m" and "a \<le> k" by auto
qed

lemma sorted_last_max:
  "bt_ok es \<Longrightarrow> e \<in> set es \<Longrightarrow> fst e \<le> fst (last es)"
proof (induction es)
  case (Cons x es)
  show ?case
  proof (cases "es = []")
    case False
    then have x: "fst x < fst (last es)" using Cons.prems(1) by (cases x) auto
    have "bt_ok es" using Cons.prems(1) by (cases x) auto
    then show ?thesis using Cons.IH Cons.prems(2) False x by (cases "e = x") auto
  qed (use Cons in auto)
qed simp

lemma bt_ok_filter: "bt_ok m \<Longrightarrow> bt_ok (filter p m)"
  unfolding bt_ok_def by (induction m) auto

lemma bt_floor_max:
  assumes "bt_ok m" and "bt_floor m k = Some (a, v)" and "(b, w) \<in> set m" and "b \<le> k"
  shows "b \<le> a"
proof -
  let ?es = "filter (\<lambda>e. fst e \<le> k) m"
  have "last ?es = (a, v)"
    using assms(2) by (auto simp: bt_floor_def Let_def split: if_splits)
  moreover have "(b, w) \<in> set ?es" using assms by auto
  ultimately show ?thesis
    using sorted_last_max [OF bt_ok_filter [OF assms(1)], of "(b, w)" "\<lambda>e. fst e \<le> k"]
    by simp
qed

lemma bt_floor_None: "bt_floor m k = None \<longleftrightarrow> (\<forall>e\<in>set m. k < fst e)"
  by (auto simp: bt_floor_def Let_def filter_empty_conv not_le)

locale ordered_map =
  fixes ok :: "'m \<Rightarrow> bool"
    and get :: "'m \<Rightarrow> 'k::linorder \<Rightarrow> 'v option"
    and ins :: "'k \<Rightarrow> 'v \<Rightarrow> 'm \<Rightarrow> 'm"
    and del :: "'k \<Rightarrow> 'm \<Rightarrow> 'm"
    and floor_entry :: "'m \<Rightarrow> 'k \<Rightarrow> ('k \<times> 'v) option"
  assumes ok_ins: "ok m \<Longrightarrow> ok (ins k v m)"
    and ok_del: "ok m \<Longrightarrow> ok (del k m)"
    and get_ins: "ok m \<Longrightarrow> get (ins k v m) q = (if q = k then Some v else get m q)"
    and get_del: "ok m \<Longrightarrow> get (del k m) q = (if q = k then None else get m q)"
    and floor_get: "ok m \<Longrightarrow> floor_entry m k = Some (a, v) \<Longrightarrow> get m a = Some v \<and> a \<le> k"
    and floor_greatest:
      "ok m \<Longrightarrow> floor_entry m k = Some (a, v) \<Longrightarrow> get m b = Some w \<Longrightarrow> b \<le> k \<Longrightarrow> b \<le> a"
    and floor_none: "ok m \<Longrightarrow> floor_entry m k = None \<Longrightarrow> get m b = Some w \<Longrightarrow> k < b"
begin

lemma floor_exact:
  assumes "ok m" and "get m k = Some v"
  shows "floor_entry m k = Some (k, v)"
proof (cases "floor_entry m k")
  case None
  then show ?thesis using floor_none [OF assms(1) None assms(2)] by simp
next
  case (Some e)
  obtain a w where e: "e = (a, w)" by (cases e)
  have "k \<le> a" using floor_greatest [OF assms(1) Some [unfolded e] assms(2)] by simp
  then show ?thesis using floor_get [OF assms(1) Some [unfolded e]] Some e assms(2) by auto
qed

text \<open>The entry found for an address in a map of intervals: the greatest base
  not above it, accepted only when the address is below the interval's end.
  When the intervals are disjoint this is the interval that contains it.\<close>

lemma floor_of_interval:
  assumes ok: "ok m"
    and here: "get m a = Some v" "a \<le> x" "x < hi a v"
    and disj: "\<And>b w. get m b = Some w \<Longrightarrow> a < b \<Longrightarrow> hi a v \<le> b"
  shows "floor_entry m x = Some (a, v)"
proof (cases "floor_entry m x")
  case None
  then show ?thesis using floor_none [OF ok None here(1)] here(2) by simp
next
  case (Some e)
  obtain b w where e: "e = (b, w)" by (cases e)
  have b: "get m b = Some w" "b \<le> x" "a \<le> b"
    using floor_get [OF ok Some [unfolded e]] floor_greatest [OF ok Some [unfolded e] here(1,2)]
    by auto
  have "b = a"
  proof (rule ccontr)
    assume "b \<noteq> a"
    then have "hi a v \<le> b" using disj [OF b(1)] b(3) by simp
    then show False using here(3) b(2) by simp
  qed
  then show ?thesis using Some e b(1) here(1) by simp
qed

end

interpretation bt: ordered_map bt_ok bt_get bt_insert bt_remove bt_floor
proof unfold_locales
  fix m :: "('a, 'b) btree" and k v a b w q
  show "bt_ok m \<Longrightarrow> bt_ok (bt_insert k v m)" by (rule bt_insert_ok)
  show "bt_ok m \<Longrightarrow> bt_ok (bt_remove k m)" by (rule bt_remove_ok)
  show "bt_ok m \<Longrightarrow> bt_get (bt_insert k v m) q = (if q = k then Some v else bt_get m q)"
    by (rule bt_get_insert)
  show "bt_ok m \<Longrightarrow> bt_get (bt_remove k m) q = (if q = k then None else bt_get m q)"
    by (rule bt_get_remove)
  show "bt_ok m \<Longrightarrow> bt_floor m k = Some (a, v) \<Longrightarrow> bt_get m a = Some v \<and> a \<le> k"
    by (simp add: bt_get_in bt_floor_Some)
  show "bt_ok m \<Longrightarrow> bt_floor m k = Some (a, v) \<Longrightarrow> bt_get m b = Some w \<Longrightarrow> b \<le> k \<Longrightarrow> b \<le> a"
    by (simp add: bt_get_in bt_floor_max)
  show "bt_ok m \<Longrightarrow> bt_floor m k = None \<Longrightarrow> bt_get m b = Some w \<Longrightarrow> k < b"
    by (force simp: bt_get_in bt_floor_None)
qed

end
