(* ===== verification/Vma_Map.thy ===== *)
theory Vma_Map
  imports Ordered_Map
begin

text \<open>
  The guest address-space map of \<open>crates/raeen-runtime/src/vmm.rs\<close>: the kinds
  of a range, one range (\<open>Vma\<close>) and the interval map (\<open>VmaMap\<close>) that tiles
  \<open>[min, max)\<close>, with the operations carve, merge, map, unmap, the free test
  and the search for free space.  \<open>vm_wf\<close> is the tiling invariant; \<open>vm_at\<close>
  reads off, per address, what the map says about it, and is the abstract
  state the operations are specified against.
\<close>

section \<open>Kinds of a range\<close>

datatype vma_type = Free | Reserved | ReservedBacked | Direct | Flexible | Pooled
  | PoolReserved | Stack | Code | System | Foreign

fun is_free :: "vma_type \<Rightarrow> bool" where
  "is_free Free = True"
| "is_free _ = False"

fun is_host_backed :: "vma_type \<Rightarrow> bool" where
  "is_host_backed Free = False"
| "is_host_backed Reserved = False"
| "is_host_backed PoolReserved = False"
| "is_host_backed Foreign = False"
| "is_host_backed _ = True"

fun is_guest_releasable :: "vma_type \<Rightarrow> bool" where
  "is_guest_releasable Direct = True"
| "is_guest_releasable Flexible = True"
| "is_guest_releasable Pooled = True"
| "is_guest_releasable PoolReserved = True"
| "is_guest_releasable Reserved = True"
| "is_guest_releasable ReservedBacked = True"
| "is_guest_releasable _ = False"

definition NO_ACCESS :: u32 where "NO_ACCESS = 0"

section \<open>One range\<close>

record vma =
  vma_base :: u64
  vma_size :: u64
  vma_kind :: vma_type
  vma_prot :: u32
  vma_phys_base :: "u64 option"
  vma_name :: string
  vma_disallow_merge :: bool

definition vma_free :: "u64 \<Rightarrow> u64 \<Rightarrow> vma" where
  "vma_free base sz = \<lparr>vma_base = base, vma_size = sz, vma_kind = Free,
     vma_prot = NO_ACCESS, vma_phys_base = None, vma_name = '''',
     vma_disallow_merge = False\<rparr>"

definition vma_end :: "vma \<Rightarrow> u64" where
  "vma_end v = vma_base v + vma_size v"

definition vma_contains :: "vma \<Rightarrow> u64 \<Rightarrow> u64 \<Rightarrow> bool" where
  "vma_contains v addr sz \<longleftrightarrow>
     vma_base v \<le> addr \<and> saturating_add addr sz \<le> vma_end v"

definition vma_overlaps :: "vma \<Rightarrow> u64 \<Rightarrow> u64 \<Rightarrow> bool" where
  "vma_overlaps v addr sz \<longleftrightarrow>
     addr < vma_end v \<and> vma_base v < saturating_add addr sz"

definition mergeable_with :: "vma \<Rightarrow> vma \<Rightarrow> bool" where
  "mergeable_with v nx =
     (if vma_disallow_merge v \<or> vma_disallow_merge nx then False
      else if vma_kind v \<noteq> vma_kind nx \<or> vma_prot v \<noteq> vma_prot nx
              \<or> vma_name v \<noteq> vma_name nx then False
      else (case (vma_phys_base v, vma_phys_base nx) of
              (None, None) \<Rightarrow> True
            | (Some a, Some b) \<Rightarrow> a + vma_size v = b
            | _ \<Rightarrow> False))"

section \<open>The interval map\<close>

record vma_map =
  vm_map :: "(u64, vma) btree"
  vm_min :: u64
  vm_max :: u64

text \<open>\<open>VmaMap::new\<close> panics (\<open>None\<close>) on an empty address space.\<close>

definition vm_new :: "u64 \<Rightarrow> u64 \<Rightarrow> vma_map option" where
  "vm_new mn mx = (if mn < mx
     then Some \<lparr>vm_map = bt_insert mn (vma_free mn (mx - mn)) [], vm_min = mn, vm_max = mx\<rparr>
     else None)"

definition vm_find :: "vma_map \<Rightarrow> u64 \<Rightarrow> vma option" where
  "vm_find m addr =
     (if addr < vm_min m \<or> vm_max m \<le> addr then None
      else map_option snd (bt_floor (vm_map m) addr))"

definition split_at :: "u64 \<Rightarrow> vma_map \<Rightarrow> vma_map" where
  "split_at at m =
     (if at \<le> vm_min m \<or> vm_max m \<le> at then m
      else (case bt_floor (vm_map m) at of
          None \<Rightarrow> m
        | Some (base, v) \<Rightarrow>
            if base = at then m
            else let left_size = at - base;
                     left = v\<lparr>vma_size := left_size\<rparr>;
                     right = v\<lparr>vma_base := at, vma_size := vma_size v - left_size,
                       vma_phys_base := map_option (\<lambda>p. p + left_size) (vma_phys_base v)\<rparr>
                 in m\<lparr>vm_map := bt_insert at right (bt_insert base left (vm_map m))\<rparr>))"

definition carve :: "u64 \<Rightarrow> u64 \<Rightarrow> vma_map \<Rightarrow> vma_map" where
  "carve addr sz m = split_at (addr + sz) (split_at addr m)"

definition merge_forward :: "u64 \<Rightarrow> (u64, vma) btree \<Rightarrow> (u64, vma) btree" where
  "merge_forward addr m =
     (case bt_ceil m (addr + 1) of
        None \<Rightarrow> m
      | Some (next_base, _) \<Rightarrow>
          (case (bt_get m addr, bt_get m next_base) of
             (Some cur, Some nx) \<Rightarrow>
               if vma_end cur = vma_base nx \<and> mergeable_with cur nx
               then bt_insert addr (cur\<lparr>vma_size := vma_size cur + vma_size nx\<rparr>)
                      (bt_remove next_base m)
               else m
           | _ \<Rightarrow> m))"

definition merge_backward :: "u64 \<Rightarrow> (u64, vma) btree \<Rightarrow> (u64, vma) btree" where
  "merge_backward addr m =
     (case bt_below m addr of
        None \<Rightarrow> m
      | Some (prev_base, _) \<Rightarrow>
          (case (bt_get m prev_base, bt_get m addr) of
             (Some prev, Some cur) \<Rightarrow>
               if vma_end prev = vma_base cur \<and> mergeable_with prev cur
               then bt_insert prev_base (prev\<lparr>vma_size := vma_size prev + vma_size cur\<rparr>)
                      (bt_remove addr m)
               else m
           | _ \<Rightarrow> m))"

definition merge_adjacent :: "u64 \<Rightarrow> vma_map \<Rightarrow> vma_map" where
  "merge_adjacent addr m =
     m\<lparr>vm_map := merge_backward addr (merge_forward addr (vm_map m))\<rparr>"

text \<open>\<open>None\<close> is the panic of \<open>BTreeMap::range\<close> when \<open>addr + size\<close> wraps.\<close>

definition map_range ::
  "u64 \<Rightarrow> u64 \<Rightarrow> vma_type \<Rightarrow> u32 \<Rightarrow> u64 option \<Rightarrow> string \<Rightarrow> bool \<Rightarrow> vma_map \<Rightarrow> vma_map option"
where
  "map_range addr sz kind prt phys name dis m =
     (let m1 = carve addr sz m in
      case bt_range (vm_map m1) addr (addr + sz) of
        None \<Rightarrow> None
      | Some covered \<Rightarrow>
          let cleared = foldl (\<lambda>t b. bt_remove b t) (vm_map m1) (List.map fst covered);
              new = \<lparr>vma_base = addr, vma_size = sz, vma_kind = kind, vma_prot = prt,
                     vma_phys_base = phys, vma_name = name, vma_disallow_merge = dis\<rparr>
          in Some (merge_adjacent addr (m1\<lparr>vm_map := bt_insert addr new cleared\<rparr>)))"

definition unmap_range :: "u64 \<Rightarrow> u64 \<Rightarrow> vma_map \<Rightarrow> vma_map option" where
  "unmap_range addr sz m = map_range addr sz Free NO_ACCESS None '''' False m"

text \<open>The cursor loop of \<open>range_is_free\<close>; \<open>None\<close> would be a loop that does not
  end.\<close>

partial_function (option) free_cursor :: "vma_map \<Rightarrow> u64 \<Rightarrow> u64 \<Rightarrow> bool option" where
  "free_cursor m lim cursor =
     (if lim \<le> cursor then Some True
      else (case vm_find m cursor of
              None \<Rightarrow> Some False
            | Some v \<Rightarrow>
                if \<not> is_free (vma_kind v) then Some False
                else free_cursor m lim (vma_end v)))"

definition range_is_free :: "u64 \<Rightarrow> u64 \<Rightarrow> vma_map \<Rightarrow> bool option" where
  "range_is_free addr sz m =
     (if sz = 0 \<or> addr < vm_min m \<or> vm_max m < saturating_add addr sz then Some False
      else free_cursor m (addr + sz) addr)"

definition vmm_align_up :: "u64 \<Rightarrow> u64 \<Rightarrow> u64 option" where
  "vmm_align_up val align =
     (if align \<le> 1 then Some val
      else let rm = val mod align in
        if rm = 0 then Some val else checked_add val (align - rm))"

fun first_fit :: "u64 \<Rightarrow> u64 \<Rightarrow> u64 \<Rightarrow> (u64 \<times> vma) list \<Rightarrow> u64 option" where
  "first_fit aligned sz align [] = None"
| "first_fit aligned sz align ((b, v) # vs) =
     (if \<not> is_free (vma_kind v) then first_fit aligned sz align vs
      else (case vmm_align_up (max (vma_base v) aligned) align of
              None \<Rightarrow> first_fit aligned sz align vs
            | Some candidate \<Rightarrow>
                if vma_contains v candidate sz then Some candidate
                else first_fit aligned sz align vs))"

definition search_free :: "u64 \<Rightarrow> u64 \<Rightarrow> u64 \<Rightarrow> vma_map \<Rightarrow> u64 option" where
  "search_free hint sz align0 m =
     (if sz = 0 then None
      else let align = max align0 1; start = max hint (vm_min m) in
        if vm_max m \<le> start then None
        else (case vmm_align_up start align of
            None \<Rightarrow> None
          | Some aligned \<Rightarrow>
              (case vm_find m aligned of
                 Some v \<Rightarrow>
                   if is_free (vma_kind v) \<and> vma_contains v aligned sz then Some aligned
                   else first_fit aligned sz align (bt_from (vm_map m) aligned)
               | None \<Rightarrow> first_fit aligned sz align (bt_from (vm_map m) aligned))))"

section \<open>The tiling invariant and the abstract view\<close>

fun tiles :: "nat \<Rightarrow> nat \<Rightarrow> (u64 \<times> vma) list \<Rightarrow> bool" where
  "tiles lo hi [] \<longleftrightarrow> lo = hi"
| "tiles lo hi ((b, v) # vs) \<longleftrightarrow>
     vma_base v = b \<and> unat b = lo \<and> 0 < vma_size v
     \<and> tiles (lo + unat (vma_size v)) hi vs"

definition vm_wf :: "vma_map \<Rightarrow> bool" where
  "vm_wf m \<longleftrightarrow> vm_min m < vm_max m \<and> tiles (unat (vm_min m)) (unat (vm_max m)) (vm_map m)"

text \<open>What a range says about one of its addresses: kind, protection, the
  direct-memory offset of that very address, name and merge policy.\<close>

type_synonym attrs = "vma_type \<times> u32 \<times> u64 option \<times> string \<times> bool"

definition vma_attrs :: "vma \<Rightarrow> u64 \<Rightarrow> attrs" where
  "vma_attrs v a = (vma_kind v, vma_prot v,
     map_option (\<lambda>p. p + (a - vma_base v)) (vma_phys_base v), vma_name v,
     vma_disallow_merge v)"

definition covers :: "vma \<Rightarrow> nat \<Rightarrow> bool" where
  "covers v n \<longleftrightarrow> unat (vma_base v) \<le> n \<and> n < unat (vma_base v) + unat (vma_size v)"

fun view :: "(u64 \<times> vma) list \<Rightarrow> u64 \<Rightarrow> attrs option" where
  "view [] a = None"
| "view ((b, v) # vs) a = (if covers v (unat a) then Some (vma_attrs v a) else view vs a)"

definition vm_at :: "vma_map \<Rightarrow> u64 \<Rightarrow> attrs option" where
  "vm_at m a = view (vm_map m) a"

definition free_attrs :: attrs where
  "free_attrs = (Free, NO_ACCESS, None, '''', False)"

section \<open>Structure of tilings\<close>

lemma tiles_le [tiling_simps]: "tiles lo hi vs \<Longrightarrow> lo \<le> hi"
  by (induction vs arbitrary: lo) fastforce+

lemma tiles_append:
  "tiles lo hi (xs @ ys) \<longleftrightarrow> (\<exists>mid. tiles lo mid xs \<and> tiles mid hi ys)"
  by (induction xs arbitrary: lo) auto

lemma tiles_appendI: "tiles lo mid xs \<Longrightarrow> tiles mid hi ys \<Longrightarrow> tiles lo hi (xs @ ys)"
  by (auto simp: tiles_append)

lemma unat_pos: "0 < (x :: u64) \<longleftrightarrow> 0 < unat x"
  by (simp add: word_less_nat_alt)

lemma tiles_elem:
  assumes "tiles lo hi vs" and "(b, v) \<in> set vs"
  shows "vma_base v = b \<and> lo \<le> unat b \<and> 0 < vma_size v
    \<and> unat b + unat (vma_size v) \<le> hi"
  using assms
proof (induction vs arbitrary: lo)
  case (Cons e vs)
  obtain c w where e: "e = (c, w)" by (cases e)
  show ?case
  proof (cases "(b, v) = e")
    case True
    then show ?thesis using Cons.prems e tiles_le by fastforce
  next
    case False
    then show ?thesis using Cons e by fastforce
  qed
qed simp

lemma tiles_keys:
  assumes "tiles lo hi vs" and "e \<in> set vs"
  shows "lo \<le> unat (fst e)" and "unat (fst e) < hi"
  using tiles_elem [OF assms(1), of "fst e" "snd e"] assms(2)
  by (auto simp: unat_pos)

lemma tiles_ok: "tiles lo hi vs \<Longrightarrow> bt_ok vs"
proof (induction vs arbitrary: lo)
  case (Cons e vs)
  obtain b v where e: "e = (b, v)" by (cases e)
  have t: "tiles (lo + unat (vma_size v)) hi vs" and lo: "unat b = lo" "0 < vma_size v"
    using Cons.prems e by auto
  have "\<forall>x\<in>set vs. b < fst x"
    using tiles_keys(1) [OF t] lo by (fastforce simp: word_less_nat_alt)
  then show ?case using Cons.IH [OF t] e by simp
qed simp

lemma tiles_cover:
  assumes "tiles lo hi vs" and "lo \<le> n" and "n < hi"
  shows "\<exists>P b v S. vs = P @ (b, v) # S \<and> covers v n"
  using assms
proof (induction vs arbitrary: lo)
  case (Cons e vs)
  obtain b v where e: "e = (b, v)" by (cases e)
  show ?case
  proof (cases "n < lo + unat (vma_size v)")
    case True
    then have "e # vs = [] @ (b, v) # vs \<and> covers v n"
      using Cons.prems e by (auto simp: covers_def)
    then show ?thesis by blast
  next
    case False
    have "tiles (lo + unat (vma_size v)) hi vs" using Cons.prems e by auto
    from Cons.IH [OF this] False Cons.prems(3) obtain P c w S
      where "vs = P @ (c, w) # S" "covers w n" by auto
    then have "e # vs = (e # P) @ (c, w) # S \<and> covers w n" by simp
    then show ?thesis by blast
  qed
qed simp

lemma tiles_mid:
  assumes "tiles lo hi (P @ (b, v) # S)"
  shows "tiles lo (unat b) P" and "vma_base v = b" and "0 < vma_size v"
    and "tiles (unat b + unat (vma_size v)) hi S"
    and "unat b + unat (vma_size v) \<le> hi"
  using assms tiles_le by (auto simp: tiles_append)

lemma tiles_before: "tiles lo (unat k) P \<Longrightarrow> \<forall>e\<in>set P. fst e < k"
  using tiles_keys by (fastforce simp: word_less_nat_alt)

lemma tiles_after: "tiles n hi S \<Longrightarrow> unat k \<le> n \<Longrightarrow> \<forall>e\<in>set S. k \<le> fst e"
  using tiles_keys by (fastforce simp: word_le_nat_alt)

lemma tiles_after_strict: "tiles n hi S \<Longrightarrow> unat k < n \<Longrightarrow> \<forall>e\<in>set S. k < fst e"
  using tiles_keys by (fastforce simp: word_less_nat_alt)

lemma floor_tile:
  assumes "tiles lo hi (P @ (b, v) # S)" and "covers v (unat k)"
  shows "bt_floor (P @ (b, v) # S) k = Some (b, v)"
proof (rule bt_floor_at)
  note m = tiles_mid [OF assms(1)]
  show "b \<le> k" using assms(2) m(2) by (simp add: covers_def word_le_nat_alt)
  show "\<forall>e\<in>set S. k < fst e"
    using tiles_after_strict [OF m(4)] assms(2) m(2) by (simp add: covers_def)
qed

lemma view_append: "view (xs @ ys) a = (case view xs a of None \<Rightarrow> view ys a | Some r \<Rightarrow> Some r)"
  by (induction xs a rule: view.induct) auto

lemma view_outside:
  assumes "tiles lo hi vs" and "unat a < lo \<or> hi \<le> unat a"
  shows "view vs a = None"
  using assms
proof (induction vs arbitrary: lo)
  case (Cons e vs)
  obtain b v where e: "e = (b, v)" by (cases e)
  have t: "tiles (lo + unat (vma_size v)) hi vs" using Cons.prems e by auto
  have "\<not> covers v (unat a)"
    using Cons.prems e tiles_le [OF t] by (auto simp: covers_def)
  then show ?case using Cons.IH [OF t] Cons.prems(2) e by auto
qed simp

lemma view_tile:
  assumes "tiles lo hi (P @ (b, v) # S)" and "covers v (unat a)"
  shows "view (P @ (b, v) # S) a = Some (vma_attrs v a)"
proof -
  have "view P a = None"
    using view_outside [OF tiles_mid(1) [OF assms(1)]] assms(2) tiles_mid(2) [OF assms(1)]
    by (simp add: covers_def)
  then show ?thesis using assms(2) by (simp add: view_append)
qed

section \<open>Splitting\<close>

definition split_left :: "u64 \<Rightarrow> vma \<Rightarrow> vma" where
  "split_left at v = v\<lparr>vma_size := at - vma_base v\<rparr>"

definition split_right :: "u64 \<Rightarrow> vma \<Rightarrow> vma" where
  "split_right at v = v\<lparr>vma_base := at, vma_size := vma_size v - (at - vma_base v),
     vma_phys_base := map_option (\<lambda>p. p + (at - vma_base v)) (vma_phys_base v)\<rparr>"

lemma split_unats:
  assumes "covers v (unat at)"
  shows "unat (vma_size (split_left at v)) = unat at - unat (vma_base v)"
    and "unat (vma_size (split_right at v)) = unat (vma_base v) + unat (vma_size v) - unat at"
    and "unat (vma_base v) \<le> unat at"
proof -
  have le: "vma_base v \<le> at" and lt: "at - vma_base v \<le> vma_size v"
    using assms by (auto simp: covers_def word_le_nat_alt unat_sub)
  show "unat (vma_base v) \<le> unat at" using le by (simp add: word_le_nat_alt)
  show "unat (vma_size (split_left at v)) = unat at - unat (vma_base v)"
    using le by (simp add: split_left_def unat_sub)
  show "unat (vma_size (split_right at v)) = unat (vma_base v) + unat (vma_size v) - unat at"
    using le lt by (simp add: split_right_def unat_sub word_le_nat_alt)
qed

lemma split_tiles:
  assumes "tiles lo hi (P @ (b, v) # S)" and "covers v (unat at)" and "b \<noteq> at"
  shows "tiles lo (unat at) (P @ [(b, split_left at v)])"
    and "tiles (unat at) hi ((at, split_right at v) # S)"
proof -
  note m = tiles_mid [OF assms(1)] and u = split_unats [OF assms(2)]
  have "unat (vma_base v) \<noteq> unat at" using assms(3) m(2) by (simp add: word_unat_eq_iff)
  then have lt: "unat (vma_base v) < unat at" using u(3) by simp
  have "tiles (unat b) (unat at) [(b, split_left at v)]"
    using m(2) lt u(1) by (simp add: unat_pos) (simp add: split_left_def)
  then show "tiles lo (unat at) (P @ [(b, split_left at v)])"
    using m(1) tiles_appendI by blast
  have "unat at < unat (vma_base v) + unat (vma_size v)"
    using assms(2) by (simp add: covers_def)
  then show "tiles (unat at) hi ((at, split_right at v) # S)"
    using m(2,4) u(2) by (simp add: unat_pos) (simp add: split_right_def)
qed

lemma split_attrs:
  "vma_attrs (split_left at v) a = vma_attrs v a"
  "vma_attrs (split_right at v) a = vma_attrs v a"
  by (simp_all add: vma_attrs_def split_left_def split_right_def option.map_comp comp_def
      add.assoc)

lemma split_covers:
  assumes "covers v (unat at)"
  shows "covers v n \<longleftrightarrow> covers (split_left at v) n \<or> covers (split_right at v) n"
  using assms split_unats [OF assms]
  by (auto simp: covers_def) (auto simp: split_left_def split_right_def)

lemma split_view:
  assumes "covers v (unat at)"
  shows "view (P @ (b, split_left at v) # (c, split_right at v) # S) a = view (P @ (b, v) # S) a"
  using split_covers [OF assms, of "unat a"] by (auto simp: view_append split_attrs split: option.split)

lemma split_at_tile:
  assumes "vm_wf m" and eq: "vm_map m = P @ (b, v) # S" and cov: "covers v (unat at)"
    and "b \<noteq> at"
  shows "split_at at m = m\<lparr>vm_map := P @ (b, split_left at v) # (at, split_right at v) # S\<rparr>"
proof -
  have t: "tiles (unat (vm_min m)) (unat (vm_max m)) (P @ (b, v) # S)"
    using assms(1) eq by (simp add: vm_wf_def)
  note s = split_tiles [OF t cov assms(4)]
  have b: "vma_base v = b" using tiles_mid(2) [OF t] .
  have fl: "bt_floor (vm_map m) at = Some (b, v)" using floor_tile [OF t cov] eq by simp
  have before: "\<forall>e\<in>set (P @ [(b, split_left at v)]). fst e < at"
    using tiles_before [OF s(1)] .
  have after: "\<forall>e\<in>set S. at < fst e"
    using tiles_ok [OF s(2)] by simp
  have "vm_min m < at" "at < vm_max m"
    using before tiles_keys [OF t, of "(b, v)"] tiles_mid(5) [OF t] cov b
    by (auto simp: word_less_nat_alt covers_def)
  moreover have "bt_insert b (split_left at v) (P @ (b, v) # S) = P @ (b, split_left at v) # S"
    using tiles_before tiles_mid(1) [OF t] by (intro bt_insert_at) blast
  moreover have "bt_insert at (split_right at v) (P @ (b, split_left at v) # S)
      = P @ (b, split_left at v) # (at, split_right at v) # S"
    using bt_insert_between [OF before after] by simp
  ultimately show ?thesis
    using fl eq assms(4) b
    by (simp add: split_at_def Let_def not_le split_left_def split_right_def)
qed

text \<open>The canonical form the operations keep: a free range carries no
  attributes, and two free ranges are never neighbours.\<close>

definition free_clean :: "vma \<Rightarrow> bool" where
  "free_clean v \<longleftrightarrow> (is_free (vma_kind v) \<longrightarrow>
     vma_prot v = NO_ACCESS \<and> vma_phys_base v = None \<and> vma_name v = ''''
     \<and> \<not> vma_disallow_merge v)"

definition canon :: "(u64 \<times> vma) list \<Rightarrow> bool" where
  "canon vs \<longleftrightarrow> (\<forall>e\<in>set vs. free_clean (snd e)) \<and>
     successively (\<lambda>x y. \<not> (is_free (vma_kind (snd x)) \<and> is_free (vma_kind (snd y)))) vs"

lemma free_clean_split:
  "free_clean v \<Longrightarrow> free_clean (split_left at v) \<and> free_clean (split_right at v)"
  by (auto simp: free_clean_def split_left_def split_right_def)

lemma split_kind [simp]:
  "vma_kind (split_left at v) = vma_kind v" "vma_kind (split_right at v) = vma_kind v"
  by (simp_all add: split_left_def split_right_def)

lemma canon_append:
  "canon (xs @ ys) \<longleftrightarrow> canon xs \<and> canon ys \<and>
     (xs = [] \<or> ys = [] \<or> \<not> (is_free (vma_kind (snd (last xs))) \<and> is_free (vma_kind (snd (hd ys)))))"
  by (auto simp: canon_def successively_append_iff)

lemma canon_Cons:
  "canon (e # ys) \<longleftrightarrow> free_clean (snd e) \<and> canon ys \<and>
     (ys = [] \<or> \<not> (is_free (vma_kind (snd e)) \<and> is_free (vma_kind (snd (hd ys)))))"
  by (cases ys) (auto simp: canon_def)

lemma canon_Nil [simp]: "canon []"
  by (simp add: canon_def)

text \<open>Splitting inside the second part of a map leaves the first part alone
  and puts a boundary at the split address.\<close>

lemma split_at_boundary:
  assumes wf: "vm_wf m" and eq: "vm_map m = xs @ ys"
    and tx: "tiles (unat (vm_min m)) mid xs" and ty: "tiles mid (unat (vm_max m)) ys"
    and le: "mid \<le> unat at" "unat at \<le> unat (vm_max m)"
  shows "\<exists>us ws. split_at at m = m\<lparr>vm_map := xs @ us @ ws\<rparr>
    \<and> tiles mid (unat at) us \<and> tiles (unat at) (unat (vm_max m)) ws
    \<and> (\<forall>a. view (xs @ us @ ws) a = view (xs @ ys) a) \<and> (canon ys \<longrightarrow> canon us \<and> canon ws)"
proof (cases "unat at = unat (vm_max m)")
  case True
  then have "split_at at m = m\<lparr>vm_map := xs @ ys @ []\<rparr>"
    using eq by (simp add: split_at_def word_le_nat_alt)
  moreover have "tiles mid (unat at) ys" using ty True by simp
  ultimately show ?thesis using True
    by (intro exI [of _ ys] exI [of _ "[]"]) simp
next
  case False
  then have "unat at < unat (vm_max m)" using le by simp
  from tiles_cover [OF ty le(1) this] obtain P b v S
    where ys: "ys = P @ (b, v) # S" and cov: "covers v (unat at)" by auto
  have t: "tiles (unat (vm_min m)) (unat (vm_max m)) ((xs @ P) @ (b, v) # S)"
    using wf eq ys by (simp add: vm_wf_def)
  note tm = tiles_mid [OF ty [unfolded ys]]
  show ?thesis
  proof (cases "b = at")
    case True
    have "bt_floor (vm_map m) at = Some (b, v)"
      using floor_tile [OF t cov] eq ys by simp
    then have "split_at at m = m\<lparr>vm_map := xs @ P @ (b, v) # S\<rparr>"
      using True eq ys by (simp add: split_at_def)
    then show ?thesis using tm True ys
      by (intro exI [of _ P] exI [of _ "(b, v) # S"])
        (simp add: canon_append)
  next
    case False
    have "split_at at m
        = m\<lparr>vm_map := xs @ (P @ [(b, split_left at v)]) @ (at, split_right at v) # S\<rparr>"
      using split_at_tile [OF wf _ cov False, of "xs @ P" S] eq ys by simp
    moreover have "\<forall>a. view (xs @ (P @ [(b, split_left at v)]) @ (at, split_right at v) # S) a
        = view (xs @ ys) a"
      using split_view [OF cov, of "xs @ P" b at S] ys by simp
    moreover have "canon ys \<longrightarrow>
        canon (P @ [(b, split_left at v)]) \<and> canon ((at, split_right at v) # S)"
      using free_clean_split ys by (auto simp: canon_append canon_Cons)
    ultimately show ?thesis using split_tiles [OF ty [unfolded ys] cov False]
      by blast
  qed
qed

lemma split_at_wf_bounds:
  assumes "vm_wf m" and "split_at at m = m\<lparr>vm_map := xs @ us\<rparr>"
    and "tiles (unat (vm_min m)) mid xs" and "tiles mid (unat (vm_max m)) us"
  shows "vm_wf (split_at at m)"
  using assms tiles_appendI by (auto simp: vm_wf_def)

lemma carve_split:
  assumes wf: "vm_wf m" and lo: "vm_min m \<le> addr"
    and hi: "unat addr + unat sz \<le> unat (vm_max m)"
  shows "\<exists>xs ms ys. carve addr sz m = m\<lparr>vm_map := xs @ ms @ ys\<rparr>
    \<and> tiles (unat (vm_min m)) (unat addr) xs
    \<and> tiles (unat addr) (unat addr + unat sz) ms
    \<and> tiles (unat addr + unat sz) (unat (vm_max m)) ys
    \<and> (\<forall>a. view (xs @ ms @ ys) a = vm_at m a)
    \<and> (canon (vm_map m) \<longrightarrow> canon xs \<and> canon ms \<and> canon ys)"
proof -
  have e: "unat (addr + sz) = unat addr + unat sz"
    using hi unat_u64_lt [of "vm_max m"] by (intro unat_add_no_wrap) simp
  have t: "tiles (unat (vm_min m)) (unat (vm_max m)) (vm_map m)" using wf by (simp add: vm_wf_def)
  obtain xs rs where s1: "split_at addr m = m\<lparr>vm_map := xs @ rs\<rparr>"
    and tx: "tiles (unat (vm_min m)) (unat addr) xs"
    and tr: "tiles (unat addr) (unat (vm_max m)) rs"
    and v1: "\<forall>a. view (xs @ rs) a = view (vm_map m) a"
    and c1: "canon (vm_map m) \<longrightarrow> canon xs \<and> canon rs"
    using split_at_boundary [OF wf, of "[]" "vm_map m" "unat (vm_min m)" addr] t lo hi
    by (auto simp: word_le_nat_alt)
  let ?m1 = "split_at addr m"
  have wf1: "vm_wf ?m1" using split_at_wf_bounds [OF wf s1 tx tr] .
  obtain ms ys where s2: "split_at (addr + sz) ?m1 = ?m1\<lparr>vm_map := xs @ ms @ ys\<rparr>"
    and tm: "tiles (unat addr) (unat (addr + sz)) ms"
    and ty: "tiles (unat (addr + sz)) (unat (vm_max m)) ys"
    and v2: "\<forall>a. view (xs @ ms @ ys) a = view (xs @ rs) a"
    and c2: "canon rs \<longrightarrow> canon ms \<and> canon ys"
    using split_at_boundary [OF wf1, of xs rs "unat addr" "addr + sz"] s1 tx tr hi e
    by auto
  have "carve addr sz m = m\<lparr>vm_map := xs @ ms @ ys\<rparr>"
    using s1 s2 by (simp add: carve_def)
  then show ?thesis using tx tm ty v1 v2 c1 c2 e by (auto simp: vm_at_def)
qed

section \<open>Merging\<close>

definition fuse :: "vma \<Rightarrow> vma \<Rightarrow> vma" where
  "fuse v w = v\<lparr>vma_size := vma_size v + vma_size w\<rparr>"

lemma fuse_simps [simp]:
  "vma_kind (fuse v w) = vma_kind v" "vma_base (fuse v w) = vma_base v"
  by (simp_all add: fuse_def)

lemma tiles_adjacent:
  assumes "tiles lo hi (P @ (b, v) # (c, w) # S)" and "hi < 18446744073709551616"
  shows "vma_end v = vma_base w" and "unat (vma_size v + vma_size w) = unat (vma_size v) + unat (vma_size w)"
    and "unat c = unat b + unat (vma_size v)" and "vma_base v = b" and "vma_base w = c"
proof -
  have t: "unat c = unat b + unat (vma_size v)" "vma_base v = b" "vma_base w = c"
      "tiles (unat c + unat (vma_size w)) hi S"
    using assms(1) by (auto simp: tiles_append)
  show "unat c = unat b + unat (vma_size v)" "vma_base v = b" "vma_base w = c" using t by auto
  have le: "unat c + unat (vma_size w) \<le> hi" using tiles_le [OF t(4)] .
  have "unat (vma_base v + vma_size v) = unat c"
    using t le assms(2) by (subst unat_add_no_wrap) auto
  then have "vma_base v + vma_size v = c" by (rule word_unat_eq_iff [THEN iffD2])
  then show "vma_end v = vma_base w" using t(3) by (simp add: vma_end_def)
  show "unat (vma_size v + vma_size w) = unat (vma_size v) + unat (vma_size w)"
    using t le assms(2) by (intro unat_add_no_wrap) auto
qed

lemma fuse_tiles:
  assumes "tiles lo hi (P @ (b, v) # (c, w) # S)" and "hi < 18446744073709551616"
  shows "tiles lo hi (P @ (b, fuse v w) # S)"
  using assms(1) tiles_adjacent [OF assms]
  by (auto simp: tiles_append fuse_def unat_pos add.assoc)

lemma fuse_covers:
  assumes "tiles lo hi (P @ (b, v) # (c, w) # S)" and "hi < 18446744073709551616"
  shows "covers (fuse v w) n \<longleftrightarrow> covers v n \<or> covers w n"
  using tiles_adjacent [OF assms] by (auto simp: covers_def) (auto simp: fuse_def)

lemma mergeable_attrs:
  assumes "mergeable_with v w" and "vma_end v = vma_base w"
  shows "vma_attrs w a = vma_attrs v a" and "vma_attrs (fuse v w) a = vma_attrs v a"
proof -
  show "vma_attrs (fuse v w) a = vma_attrs v a" by (simp add: vma_attrs_def fuse_def)
  have "vma_kind v = vma_kind w" "vma_prot v = vma_prot w" "vma_name v = vma_name w"
      "vma_disallow_merge v = vma_disallow_merge w"
    using assms(1) by (auto simp: mergeable_with_def split: if_splits)
  moreover have "map_option (\<lambda>p. p + (a - vma_base w)) (vma_phys_base w)
      = map_option (\<lambda>p. p + (a - vma_base v)) (vma_phys_base v)"
    using assms by (auto simp: mergeable_with_def vma_end_def algebra_simps
        split: if_splits option.splits)
  ultimately show "vma_attrs w a = vma_attrs v a" by (simp add: vma_attrs_def)
qed

lemma fuse_view:
  assumes "tiles lo hi (P @ (b, v) # (c, w) # S)" and "hi < 18446744073709551616"
    and "mergeable_with v w"
  shows "view (P @ (b, fuse v w) # S) a = view (P @ (b, v) # (c, w) # S) a"
  using fuse_covers [OF assms(1,2), of "unat a"]
    mergeable_attrs [OF assms(3) tiles_adjacent(1) [OF assms(1,2)], of a]
  by (auto simp: view_append split: option.split)

lemma free_clean_mergeable:
  assumes "free_clean v" "free_clean w" "is_free (vma_kind v)" "is_free (vma_kind w)"
  shows "mergeable_with v w"
proof -
  have "vma_kind v = Free" "vma_kind w = Free"
    using assms(3,4) by (cases "vma_kind v"; cases "vma_kind w"; simp)+
  then show ?thesis using assms by (auto simp: mergeable_with_def free_clean_def)
qed

lemma mergeable_kind: "mergeable_with v w \<Longrightarrow> vma_kind v = vma_kind w"
  by (auto simp: mergeable_with_def split: if_splits)

lemma merge_forward_at:
  assumes t: "tiles lo hi (P @ (k, v) # S)" and hi: "hi < 18446744073709551616"
  shows "merge_forward k (P @ (k, v) # S) =
    (case S of [] \<Rightarrow> P @ [(k, v)]
     | (c, w) # R \<Rightarrow> if mergeable_with v w then P @ (k, fuse v w) # R else P @ (k, v) # S)"
proof -
  note m = tiles_mid [OF t]
  have k1: "unat (k + 1) = unat k + 1"
    using m(3,5) hi by (subst unat_add_no_wrap) (auto simp: unat_pos)
  have before: "\<forall>e\<in>set (P @ [(k, v)]). fst e < k + 1"
    using tiles_before [OF m(1)] k1 by (auto simp: word_less_nat_alt)
  have after: "\<forall>e\<in>set S. k + 1 \<le> fst e"
    using tiles_after [OF m(4)] k1 m(3) by (simp add: unat_pos)
  have ceil: "bt_ceil (P @ (k, v) # S) (k + 1) = (case S of [] \<Rightarrow> None | e # es \<Rightarrow> Some e)"
    using bt_ceil_at [OF before after] by simp
  show ?thesis
  proof (cases S)
    case Nil
    then show ?thesis using ceil by (simp add: merge_forward_def)
  next
    case (Cons e R)
    obtain c w where e: "e = (c, w)" by (cases e)
    have t2: "tiles lo hi ((P @ [(k, v)]) @ (c, w) # R)" using t Cons e by simp
    have g1: "bt_get (P @ (k, v) # (c, w) # R) k = Some v"
      using bt_get_at tiles_ok [OF t] Cons e by metis
    have g2: "bt_get (P @ (k, v) # (c, w) # R) c = Some w"
      using bt_get_at [OF tiles_ok [OF t2]] by simp
    have rm: "bt_remove c (P @ (k, v) # (c, w) # R) = P @ (k, v) # R"
      using bt_remove_at [OF tiles_ok [OF t2]] by simp
    have ins: "bt_insert k (fuse v w) (P @ (k, v) # R) = P @ (k, fuse v w) # R"
      using tiles_before [OF m(1)] by (rule bt_insert_at)
    have adj: "vma_end v = vma_base w"
      using tiles_adjacent(1) [of lo hi P k v c w R] t Cons e hi by simp
    show ?thesis using Cons e ceil g1 g2 rm ins adj
      by (simp add: merge_forward_def fuse_def)
  qed
qed

lemma merge_backward_at:
  assumes t: "tiles lo hi (P @ (k, v) # S)" and hi: "hi < 18446744073709551616"
  shows "merge_backward k (P @ (k, v) # S) =
    (if P = [] then P @ (k, v) # S
     else let (c, w) = last P in
       if mergeable_with w v then butlast P @ (c, fuse w v) # S else P @ (k, v) # S)"
proof -
  note m = tiles_mid [OF t]
  have after: "\<forall>e\<in>set ((k, v) # S). k \<le> fst e"
    using tiles_ok [of "unat k" hi "(k, v) # S"] m by auto
  have below: "bt_below (P @ (k, v) # S) k = bt_below P k"
    using bt_below_at [OF after] .
  show ?thesis
  proof (cases P rule: rev_cases)
    case Nil
    then show ?thesis using below by (simp add: merge_backward_def)
  next
    case (snoc Q e)
    obtain c w where e: "e = (c, w)" by (cases e)
    have t2: "tiles lo hi (Q @ (c, w) # (k, v) # S)" using t snoc e by simp
    have ck: "c < k" using tiles_before [OF m(1)] snoc e by simp
    have bl: "bt_below (Q @ (c, w) # (k, v) # S) k = Some (c, w)"
      using below snoc e bt_below_last [OF ck] by simp
    have g1: "bt_get (Q @ (c, w) # (k, v) # S) c = Some w"
      using bt_get_at [OF tiles_ok [OF t2]] .
    have g2: "bt_get (Q @ (c, w) # (k, v) # S) k = Some v"
      using bt_get_at [of "Q @ [(c, w)]" k v S] tiles_ok [OF t2] by simp
    have rm: "bt_remove k (Q @ (c, w) # (k, v) # S) = Q @ (c, w) # S"
      using bt_remove_at [of "Q @ [(c, w)]" k v S] tiles_ok [OF t2] by simp
    have ins: "bt_insert c (fuse w v) (Q @ (c, w) # S) = Q @ (c, fuse w v) # S"
      using tiles_before [OF tiles_mid(1) [OF t2]] by (rule bt_insert_at)
    have adj: "vma_end w = vma_base v" using tiles_adjacent(1) [OF t2 hi] .
    show ?thesis using snoc e bl g1 g2 rm ins adj
      by (simp add: merge_backward_def fuse_def)
  qed
qed

text \<open>Both merges keep the tiling, the per-address view and the canonical form.\<close>

definition merge_keeps ::
  "nat \<Rightarrow> nat \<Rightarrow> (u64 \<times> vma) list \<Rightarrow> (u64 \<times> vma) list \<Rightarrow> bool" where
  "merge_keeps lo hi vs rs \<longleftrightarrow> tiles lo hi rs \<and> (\<forall>a. view rs a = view vs a)"

lemma merge_forward_keeps:
  assumes t: "tiles lo hi (P @ (k, v) # S)" and hi: "hi < 18446744073709551616"
  shows "\<exists>v' S'. merge_forward k (P @ (k, v) # S) = P @ (k, v') # S'
    \<and> merge_keeps lo hi (P @ (k, v) # S) (P @ (k, v') # S')
    \<and> (canon S \<and> free_clean v \<longrightarrow> canon ((k, v') # S') \<and> free_clean v')"
proof (cases S)
  case Nil
  then show ?thesis using merge_forward_at [OF t hi] t by (auto simp: canon_Cons merge_keeps_def)
next
  case (Cons e R)
  obtain c w where e: "e = (c, w)" by (cases e)
  note t' = t [unfolded Cons e]
  show ?thesis
  proof (cases "mergeable_with v w")
    case True
    have "canon S \<and> free_clean v \<longrightarrow> canon ((k, fuse v w) # R) \<and> free_clean (fuse v w)"
      using mergeable_kind [OF True] Cons e
      by (auto simp: canon_Cons) (auto simp: free_clean_def fuse_def)
    then show ?thesis using merge_forward_at [OF t hi] True Cons e
        fuse_tiles [OF t' hi] fuse_view [OF t' hi True] by (simp add: merge_keeps_def)
  next
    case False
    have "canon S \<and> free_clean v \<longrightarrow> canon ((k, v) # S) \<and> free_clean v"
      using False Cons e free_clean_mergeable [of v w] by (auto simp: canon_Cons)
    then show ?thesis using merge_forward_at [OF t hi] False Cons e t
      by (simp add: merge_keeps_def)
  qed
qed

lemma merge_backward_keeps:
  assumes t: "tiles lo hi (P @ (k, v) # S)" and hi: "hi < 18446744073709551616"
  shows "merge_keeps lo hi (P @ (k, v) # S) (merge_backward k (P @ (k, v) # S))"
    and "canon P \<Longrightarrow> canon ((k, v) # S) \<Longrightarrow> canon (merge_backward k (P @ (k, v) # S))"
proof -
  have "merge_keeps lo hi (P @ (k, v) # S) (merge_backward k (P @ (k, v) # S))
    \<and> (canon P \<and> canon ((k, v) # S) \<longrightarrow> canon (merge_backward k (P @ (k, v) # S)))"
  proof (cases P rule: rev_cases)
    case Nil
    then show ?thesis using merge_backward_at [OF t hi] t by (simp add: merge_keeps_def)
  next
    case (snoc Q e)
    obtain c w where e: "e = (c, w)" by (cases e)
    have t2: "tiles lo hi (Q @ (c, w) # (k, v) # S)" using t snoc e by simp
    show ?thesis
    proof (cases "mergeable_with w v")
      case True
      have "canon P \<and> canon ((k, v) # S) \<longrightarrow> canon (Q @ (c, fuse w v) # S)"
        using mergeable_kind [OF True] snoc e
        by (auto simp: canon_append canon_Cons) (auto simp: free_clean_def fuse_def)
      then show ?thesis using merge_backward_at [OF t hi] snoc e True
          fuse_tiles [OF t2 hi] fuse_view [OF t2 hi True] by (simp add: merge_keeps_def)
    next
      case False
      have "canon P \<and> canon ((k, v) # S) \<longrightarrow> canon (P @ (k, v) # S)"
        using False snoc e free_clean_mergeable [of w v] by (auto simp: canon_append canon_Cons)
      then show ?thesis using merge_backward_at [OF t hi] snoc e False t
        by (simp add: merge_keeps_def)
    qed
  qed
  then show "merge_keeps lo hi (P @ (k, v) # S) (merge_backward k (P @ (k, v) # S))"
    and "canon P \<Longrightarrow> canon ((k, v) # S) \<Longrightarrow> canon (merge_backward k (P @ (k, v) # S))" by auto
qed

section \<open>Mapping and unmapping\<close>

definition in_span :: "u64 \<Rightarrow> u64 \<Rightarrow> u64 \<Rightarrow> bool" where
  "in_span addr sz a \<longleftrightarrow> unat addr \<le> unat a \<and> unat a < unat addr + unat sz"

definition vm_inv :: "vma_map \<Rightarrow> bool" where
  "vm_inv m \<longleftrightarrow> vm_wf m \<and> canon (vm_map m)"

lemma vm_hi: "unat (vm_max m) < 18446744073709551616"
  by (rule unat_u64_lt)

lemma carve_clear:
  assumes tm: "tiles (unat addr) (unat (addr + sz)) ms"
    and tx: "tiles lo (unat addr) xs" and ty: "tiles (unat (addr + sz)) hi ys"
    and le: "addr \<le> addr + sz"
  shows "bt_range (xs @ ms @ ys) addr (addr + sz) = Some ms"
    and "foldl (\<lambda>t b. bt_remove b t) (xs @ ms @ ys) (List.map fst ms) = xs @ ys"
proof -
  have bx: "\<forall>e\<in>set xs. fst e < addr" using tiles_before [OF tx] .
  have bm: "\<forall>e\<in>set ms. addr \<le> fst e" "\<forall>e\<in>set ms. fst e < addr + sz"
    using tiles_after [OF tm] tiles_before [OF tm] by auto
  have by': "\<forall>e\<in>set ys. addr + sz \<le> fst e" using tiles_after [OF ty] by auto
  show "bt_range (xs @ ms @ ys) addr (addr + sz) = Some ms"
    using bt_range_at [OF bx _ by' le] bm by blast
  have "filter (\<lambda>e. fst e \<notin> fst ` set ms) xs = xs"
    using bx bm(1) by (intro filter_True) fastforce
  moreover have "filter (\<lambda>e. fst e \<notin> fst ` set ms) ys = ys"
    using by' bm(2) by (intro filter_True) fastforce
  moreover have "filter (\<lambda>e. fst e \<notin> fst ` set ms) ms = []"
    by (auto simp: filter_empty_conv)
  ultimately show "foldl (\<lambda>t b. bt_remove b t) (xs @ ms @ ys) (List.map fst ms) = xs @ ys"
    by (simp add: bt_remove_all)
qed

lemma view_replaced:
  assumes tx: "tiles lo (unat addr) xs" and tm: "tiles (unat addr) (unat addr + unat sz) ms"
    and ty: "tiles (unat addr + unat sz) hi ys"
    and new: "vma_base new = addr" "vma_size new = sz"
  shows "view (xs @ (addr, new) # ys) a
    = (if in_span addr sz a then Some (vma_attrs new a) else view (xs @ ms @ ys) a)"
proof (cases "in_span addr sz a")
  case True
  then have "view xs a = None" using view_outside [OF tx] by (simp add: in_span_def)
  then show ?thesis using True new by (simp add: view_append covers_def in_span_def)
next
  case False
  then have "view ms a = None" using view_outside [OF tm] by (auto simp: in_span_def)
  then show ?thesis using False new by (auto simp: view_append covers_def in_span_def split: option.split)
qed

lemma map_range_full:
  assumes wf: "vm_wf m" and sz: "0 < sz" and lo: "vm_min m \<le> addr"
    and hi: "unat addr + unat sz \<le> unat (vm_max m)"
  shows "\<exists>m'. map_range addr sz kind prt phys name dis m = Some m' \<and> vm_wf m'
    \<and> vm_min m' = vm_min m \<and> vm_max m' = vm_max m
    \<and> (\<forall>a. vm_at m' a = (if in_span addr sz a
          then Some (kind, prt, map_option (\<lambda>p. p + (a - addr)) phys, name, dis)
          else vm_at m a))
    \<and> (canon (vm_map m) \<and>
        (is_free kind \<longrightarrow> prt = NO_ACCESS \<and> phys = None \<and> name = '''' \<and> \<not> dis)
        \<longrightarrow> canon (vm_map m'))"
proof -
  have e: "unat (addr + sz) = unat addr + unat sz"
    using hi vm_hi [of m] by (intro unat_add_no_wrap) simp
  have le: "addr \<le> addr + sz" using e by (simp add: word_le_nat_alt)
  obtain xs ms ys where c: "carve addr sz m = m\<lparr>vm_map := xs @ ms @ ys\<rparr>"
    and tx: "tiles (unat (vm_min m)) (unat addr) xs"
    and tm: "tiles (unat addr) (unat addr + unat sz) ms"
    and ty: "tiles (unat addr + unat sz) (unat (vm_max m)) ys"
    and v: "\<And>a. view (xs @ ms @ ys) a = vm_at m a"
    and cc: "canon (vm_map m) \<Longrightarrow> canon xs \<and> canon ys"
    using carve_split [OF wf lo hi] by auto
  let ?new = "\<lparr>vma_base = addr, vma_size = sz, vma_kind = kind, vma_prot = prt,
      vma_phys_base = phys, vma_name = name, vma_disallow_merge = dis\<rparr>"
  let ?vs = "xs @ (addr, ?new) # ys" and ?lo = "unat (vm_min m)" and ?hi = "unat (vm_max m)"
  note cl = carve_clear [OF tm [folded e] tx ty [folded e] le]
  have ins: "bt_insert addr ?new (xs @ ys) = ?vs"
    using tiles_before [OF tx] tiles_after_strict [OF ty, of addr] sz
    by (intro bt_insert_between) (simp_all add: unat_pos)
  have tv: "tiles ?lo ?hi ?vs" using tx ty sz by (auto simp: tiles_append)
  obtain v' S' where f: "merge_forward addr ?vs = xs @ (addr, v') # S'"
    and kf: "merge_keeps ?lo ?hi ?vs (xs @ (addr, v') # S')"
    and cf: "canon ys \<and> free_clean ?new \<longrightarrow> canon ((addr, v') # S')"
    using merge_forward_keeps [OF tv vm_hi] by auto
  let ?r = "merge_backward addr (xs @ (addr, v') # S')"
  have t3: "tiles ?lo ?hi (xs @ (addr, v') # S')" using kf by (simp add: merge_keeps_def)
  have kb: "merge_keeps ?lo ?hi (xs @ (addr, v') # S') ?r"
    by (rule merge_backward_keeps(1) [OF t3 vm_hi])
  have cb: "canon xs \<and> canon ((addr, v') # S') \<longrightarrow> canon ?r"
    using merge_backward_keeps(2) [OF t3 vm_hi] by blast
  let ?m' = "m\<lparr>vm_map := ?r\<rparr>"
  have "map_range addr sz kind prt phys name dis m = Some ?m'"
    using c cl ins f by (simp add: map_range_def Let_def merge_adjacent_def)
  moreover have "vm_wf ?m'" using kb wf by (simp add: vm_wf_def merge_keeps_def)
  moreover have "vm_at ?m' a = (if in_span addr sz a
      then Some (kind, prt, map_option (\<lambda>p. p + (a - addr)) phys, name, dis) else vm_at m a)" for a
    using kb kf view_replaced [OF tx tm ty, of ?new a] v
    by (simp add: vm_at_def merge_keeps_def vma_attrs_def)
  moreover have "canon (vm_map m) \<and>
      (is_free kind \<longrightarrow> prt = NO_ACCESS \<and> phys = None \<and> name = '''' \<and> \<not> dis)
      \<longrightarrow> canon (vm_map ?m')"
    using cc cf cb by (auto simp: free_clean_def)
  ultimately show ?thesis by (intro exI [of _ ?m']) auto
qed

section \<open>Lookup and the free test\<close>

definition kind_at :: "vma_map \<Rightarrow> u64 \<Rightarrow> vma_type option" where
  "kind_at m a = map_option fst (vm_at m a)"

lemma find_tile:
  assumes "vm_wf m" and "vm_min m \<le> a" and "a < vm_max m"
  shows "\<exists>P b v S. vm_map m = P @ (b, v) # S \<and> covers v (unat a) \<and> vm_find m a = Some v"
proof -
  have t: "tiles (unat (vm_min m)) (unat (vm_max m)) (vm_map m)" using assms(1) by (simp add: vm_wf_def)
  obtain P b v S where eq: "vm_map m = P @ (b, v) # S" and cov: "covers v (unat a)"
    using tiles_cover [OF t, of "unat a"] assms by (auto simp: word_le_nat_alt word_less_nat_alt)
  have "bt_floor (vm_map m) a = Some (b, v)" using floor_tile t cov eq by simp
  then show ?thesis using eq cov assms by (auto simp: vm_find_def not_less not_le)
qed

lemma tile_in_map:
  assumes "vm_wf m" and "(b, v) \<in> set (vm_map m)"
  shows "vma_base v = b" and "unat (vm_min m) \<le> unat b" and "0 < unat (vma_size v)"
    and "unat b + unat (vma_size v) \<le> unat (vm_max m)"
    and "unat (vma_end v) = unat b + unat (vma_size v)"
proof -
  note e = tiles_elem [OF _ assms(2), of "unat (vm_min m)" "unat (vm_max m)"]
  show "vma_base v = b" "unat (vm_min m) \<le> unat b" "0 < unat (vma_size v)"
      "unat b + unat (vma_size v) \<le> unat (vm_max m)"
    using e assms(1) by (auto simp: vm_wf_def unat_pos)
  then show "unat (vma_end v) = unat b + unat (vma_size v)"
    using vm_hi [of m] by (simp add: vma_end_def unat_add_no_wrap)
qed

lemma kind_at_tile:
  assumes "vm_wf m" and "(b, v) \<in> set (vm_map m)" and "covers v (unat a)"
  shows "kind_at m a = Some (vma_kind v)"
proof -
  obtain P S where "vm_map m = P @ (b, v) # S" using assms(2) by (auto dest: split_list)
  then show ?thesis using view_tile assms
    by (auto simp: kind_at_def vm_at_def vm_wf_def vma_attrs_def)
qed

lemma is_free_iff: "is_free k \<longleftrightarrow> k = Free"
  by (cases k) auto

definition all_free :: "vma_map \<Rightarrow> nat \<Rightarrow> nat \<Rightarrow> bool" where
  "all_free m lo hi \<longleftrightarrow> (\<forall>a. lo \<le> unat a \<and> unat a < hi \<longrightarrow> kind_at m a = Some Free)"

lemma free_cursor_total:
  assumes "vm_wf m" and "vm_min m \<le> cur" and "cur \<le> vm_max m" and "lim \<le> vm_max m"
  shows "free_cursor m lim cur = Some (all_free m (unat cur) (unat lim))"
  using assms(2,3)
proof (induction "unat lim - unat cur" arbitrary: cur rule: less_induct)
  case less
  show ?case
  proof (cases "lim \<le> cur")
    case True
    then show ?thesis
      by (subst free_cursor.simps) (auto simp: all_free_def word_le_nat_alt)
  next
    case False
    then have lt: "cur < lim" and "cur < vm_max m" using assms(4) by auto
    from find_tile [OF assms(1) less.prems(1) this(2)] obtain P b v S
      where eq: "vm_map m = P @ (b, v) # S" and cov: "covers v (unat cur)"
        and f: "vm_find m cur = Some v" by auto
    have mem: "(b, v) \<in> set (vm_map m)" using eq by simp
    note t = tile_in_map [OF assms(1) mem]
    have k: "kind_at m a = Some (vma_kind v)" if "covers v (unat a)" for a
      using kind_at_tile [OF assms(1) mem that] .
    show ?thesis
    proof (cases "is_free (vma_kind v)")
      case free: True
      have e: "unat cur < unat (vma_end v)" "vm_min m \<le> vma_end v" "vma_end v \<le> vm_max m"
        using cov t less.prems by (auto simp: covers_def word_le_nat_alt)
      have "unat lim - unat (vma_end v) < unat lim - unat cur"
        using e(1) lt by (simp add: word_less_nat_alt)
      then have "free_cursor m lim (vma_end v) = Some (all_free m (unat (vma_end v)) (unat lim))"
        using less.hyps e by blast
      moreover have "all_free m (unat cur) (unat lim) = all_free m (unat (vma_end v)) (unat lim)"
      proof -
        have "kind_at m a = Some Free"
          if "unat cur \<le> unat a" "unat a < unat (vma_end v)" for a
          using k [of a] that cov free t(1,5) by (simp add: covers_def is_free_iff)
        then show ?thesis unfolding all_free_def
          using e(1) by (meson le_less_trans less_imp_le not_le)
      qed
      ultimately show ?thesis using f free False
        by (subst free_cursor.simps) simp
    next
      case notfree: False
      have "\<not> all_free m (unat cur) (unat lim)"
        using k [OF cov] notfree lt by (auto simp: all_free_def word_less_nat_alt is_free_iff intro!: exI [of _ cur])
      then show ?thesis using f notfree False
        by (subst free_cursor.simps) simp
    qed
  qed
qed

lemma range_is_free_iff:
  assumes wf: "vm_wf m" and mx: "vm_max m < U64_MAX"
  shows "range_is_free addr sz m = Some (0 < sz \<and> vm_min m \<le> addr
    \<and> unat addr + unat sz \<le> unat (vm_max m) \<and> all_free m (unat addr) (unat addr + unat sz))"
proof -
  have mx': "unat (vm_max m) < 18446744073709551615" using mx by (simp add: word_less_nat_alt)
  show ?thesis
  proof (cases "0 < sz \<and> vm_min m \<le> addr \<and> unat addr + unat sz \<le> unat (vm_max m)")
    case True
    have e: "unat (addr + sz) = unat addr + unat sz"
      using True mx' by (intro unat_add_no_wrap) simp
    have "addr \<le> vm_max m" "addr + sz \<le> vm_max m" using True e by (auto simp: word_le_nat_alt)
    then show ?thesis
      using True free_cursor_total [OF wf, of addr "addr + sz"] e
        saturating_add_le_iff [OF mx', of addr sz]
      by (simp add: range_is_free_def not_less [symmetric] word_gt_0)
  next
    case False
    then show ?thesis using saturating_add_le_iff [OF mx', of addr sz]
      by (auto simp: range_is_free_def not_less [symmetric] word_gt_0)
  qed
qed

section \<open>The search for free space\<close>

lemma align_up_least:
  assumes "1 \<le> al"
  shows "case vmm_align_up x al of
      None \<Rightarrow> \<forall>y. x \<le> y \<longrightarrow> y mod al \<noteq> 0
    | Some r \<Rightarrow> x \<le> r \<and> r mod al = 0 \<and> (\<forall>y. x \<le> y \<and> y mod al = 0 \<longrightarrow> r \<le> y)"
proof (cases "al \<le> 1 \<or> x mod al = 0")
  case True
  moreover have "al = 1 \<Longrightarrow> y mod al = 0" for y by simp
  ultimately show ?thesis using assms by (auto simp: vmm_align_up_def Let_def)
next
  case False
  let ?a = "unat al" and ?x = "unat x"
  have a: "1 < ?a" and rm: "unat (x mod al) = ?x mod ?a" "0 < ?x mod ?a"
    using False by (auto simp: word_le_nat_alt unat_mod word_unat_eq_iff)
  have d: "unat (al - x mod al) = ?a - ?x mod ?a"
    using a rm by (subst unat_sub) (auto simp: word_le_nat_alt intro: less_imp_le)
  have up: "?x + (?a - ?x mod ?a) = (?x div ?a + 1) * ?a"
  proof -
    have "?x mod ?a < ?a" using a by simp
    then have "?x + (?a - ?x mod ?a) = ?x - ?x mod ?a + ?a" by simp
    also have "?x - ?x mod ?a = ?x div ?a * ?a" by (simp add: minus_mod_eq_div_mult)
    finally show ?thesis by simp
  qed
  have least: "(?x div ?a + 1) * ?a \<le> unat y" if "x \<le> y" "y mod al = 0" for y
  proof -
    have y: "unat y mod ?a = 0" using that(2) by (metis unat_mod unat_0)
    then obtain k where k: "unat y = ?a * k" by auto

    have "?x div ?a < k"
    proof (rule ccontr)
      assume "\<not> ?x div ?a < k"
      then have "?a * k \<le> ?a * (?x div ?a)" by simp
      moreover have "?a * (?x div ?a) < ?x" using rm(2) by (metis mult_div_mod_eq less_add_same_cancel1)
      moreover have "?x \<le> ?a * k" using that(1) k by (simp add: word_le_nat_alt)
      ultimately show False by linarith
    qed
    then show ?thesis using k by (metis Suc_eq_plus1 Suc_leI mult.commute mult_le_mono2)
  qed
  have eq: "vmm_align_up x al = checked_add x (al - x mod al)"
    using False by (simp add: vmm_align_up_def Let_def)
  show ?thesis
  proof (cases "checked_add x (al - x mod al)")
    case None
    then have "18446744073709551616 \<le> (?x div ?a + 1) * ?a"
      using up d by (simp add: checked_add_None_iff)
    then have "\<not> (x \<le> y \<and> y mod al = 0)" for y
      using least [of y] unat_u64_lt [of y] by linarith
    then show ?thesis using eq None by auto
  next
    case (Some r)
    then have r: "unat r = (?x div ?a + 1) * ?a"
      using checked_add_unat [OF Some] d up by simp
    then have "unat r mod ?a = 0" by (metis mod_mult_self2_is_0)
    then have "r mod al = 0" by (metis unat_mod unat_eq_zero)
    moreover have "x \<le> r"
    proof -
      have "?x \<le> ?x + (?a - ?x mod ?a)" by simp
      then show ?thesis using r up by (simp only: word_le_nat_alt)
    qed
    ultimately show ?thesis using eq Some least r by (auto simp: word_le_nat_alt)
  qed
qed

definition fit_in :: "u64 \<Rightarrow> u64 \<Rightarrow> vma \<Rightarrow> u64 \<Rightarrow> bool" where
  "fit_in sz al v c \<longleftrightarrow> is_free (vma_kind v) \<and> c mod al = 0 \<and> unat (vma_base v) \<le> unat c
     \<and> unat c + unat sz \<le> unat (vma_base v) + unat (vma_size v)"

text \<open>What a search may return: an aligned address at or after the hint and
  inside the map whose whole span is free.\<close>

definition fits :: "vma_map \<Rightarrow> u64 \<Rightarrow> u64 \<Rightarrow> u64 \<Rightarrow> u64 \<Rightarrow> bool" where
  "fits m hint sz al c \<longleftrightarrow> hint \<le> c \<and> vm_min m \<le> c \<and> c mod al = 0
     \<and> unat c + unat sz \<le> unat (vm_max m) \<and> all_free m (unat c) (unat c + unat sz)"

definition apart :: "(u64 \<times> vma) list \<Rightarrow> bool" where
  "apart vs \<longleftrightarrow> sorted_wrt (\<lambda>x y. unat (vma_base (snd x)) + unat (vma_size (snd x))
      \<le> unat (vma_base (snd y))) vs"

lemma tiles_apart: "tiles lo hi vs \<Longrightarrow> apart vs"
proof (induction vs arbitrary: lo)
  case (Cons e vs)
  obtain b v where e: "e = (b, v)" by (cases e)
  have t: "tiles (lo + unat (vma_size v)) hi vs" using Cons.prems e by auto
  have "\<forall>y\<in>set vs. lo + unat (vma_size v) \<le> unat (vma_base (snd y))"
    using tiles_elem [OF t] by force
  then show ?case using Cons.IH [OF t] Cons.prems e by (simp add: apart_def)
qed (simp add: apart_def)

lemma contains_iff:
  assumes "unat (vma_end v) = unat (vma_base v) + unat (vma_size v)"
    and "unat (vma_end v) < 18446744073709551615"
  shows "vma_contains v c sz \<longleftrightarrow> unat (vma_base v) \<le> unat c
     \<and> unat c + unat sz \<le> unat (vma_base v) + unat (vma_size v)"
  using saturating_add_le_iff [OF assms(2), of c sz] assms(1)
  by (simp add: vma_contains_def word_le_nat_alt)

definition least_fit :: "(u64 \<Rightarrow> bool) \<Rightarrow> u64 option \<Rightarrow> bool" where
  "least_fit P r \<longleftrightarrow> (case r of None \<Rightarrow> \<forall>c. \<not> P c | Some c \<Rightarrow> P c \<and> (\<forall>d. P d \<longrightarrow> c \<le> d))"

lemma first_fit_least:
  assumes "apart vs" and "1 \<le> al" and "0 < sz"
    and "\<forall>e\<in>set vs. aligned \<le> vma_base (snd e)
      \<and> unat (vma_end (snd e)) = unat (vma_base (snd e)) + unat (vma_size (snd e))
      \<and> unat (vma_end (snd e)) < 18446744073709551615"
  shows "least_fit (\<lambda>c. \<exists>e\<in>set vs. fit_in sz al (snd e) c) (first_fit aligned sz al vs)"
  using assms(1,4)
proof (induction vs)
  case Nil
  then show ?case by (simp add: least_fit_def)
next
  case (Cons e vs)
  obtain b v where e: "e = (b, v)" by (cases e)
  have IH: "least_fit (\<lambda>c. \<exists>e\<in>set vs. fit_in sz al (snd e) c) (first_fit aligned sz al vs)"
    using Cons.prems by (intro Cons.IH) (auto simp: apart_def)
  have "max (vma_base v) aligned = vma_base v"
    using Cons.prems(2) e by (auto simp: max_def)
  note al = align_up_least [OF assms(2), of "vma_base v"] and mx = this
  have co: "vma_contains v c sz \<longleftrightarrow> unat (vma_base v) \<le> unat c
     \<and> unat c + unat sz \<le> unat (vma_base v) + unat (vma_size v)" for c
    using contains_iff Cons.prems(2) e by simp
  show ?case
  proof (cases "\<exists>c. fit_in sz al v c")
    case False
    have "first_fit aligned sz al (e # vs) = first_fit aligned sz al vs"
    proof (cases "vmm_align_up (vma_base v) al")
      case None
      then show ?thesis using e mx by simp
    next
      case (Some r)
      then have "\<not> fit_in sz al v r" and "vma_base v \<le> r" "r mod al = 0" using False al by simp_all
      then have "\<not> (is_free (vma_kind v) \<and> vma_contains v r sz)"
        using co [of r] by (simp only: fit_in_def) simp
      then show ?thesis using e mx Some by simp
    qed
    then show ?thesis using IH False e by simp
  next
    case True
    then obtain c where c: "fit_in sz al v c" by auto
    then obtain r where r: "vmm_align_up (vma_base v) al = Some r" "vma_base v \<le> r" "r mod al = 0"
      and least: "\<And>y. vma_base v \<le> y \<Longrightarrow> y mod al = 0 \<Longrightarrow> r \<le> y"
      using al by (auto simp: fit_in_def word_le_nat_alt split: option.splits)
    have rc: "r \<le> d" if "fit_in sz al v d" for d
      using least [of d] that by (simp add: fit_in_def word_le_nat_alt)
    have fr: "fit_in sz al v r" using c rc [OF c] r
      by (simp add: fit_in_def word_le_nat_alt)
    then have "first_fit aligned sz al (e # vs) = Some r"
      using e mx r co by (simp add: fit_in_def)
    moreover have "r \<le> d" if d: "x \<in> set vs" "fit_in sz al (snd x) d" for x d
    proof -
      have "unat (vma_base v) + unat (vma_size v) \<le> unat (vma_base (snd x))"
        using Cons.prems(1) d(1) e by (simp add: apart_def)
      then show ?thesis using fr d(2) by (simp add: fit_in_def word_le_nat_alt)
    qed
    ultimately show ?thesis using fr rc e by (auto simp: least_fit_def)
  qed
qed

text \<open>In canonical form a free span lies inside one range.\<close>

lemma free_span_in_tile:
  fixes c sz :: u64
  assumes inv: "vm_inv m" and cov: "covers v (unat c)" and mem: "(b, v) \<in> set (vm_map m)"
    and free: "all_free m (unat c) (unat c + unat sz)" and sz: "0 < sz"
    and hi: "unat c + unat sz \<le> unat (vm_max m)"
  shows "is_free (vma_kind v) \<and> unat c + unat sz \<le> unat (vma_base v) + unat (vma_size v)"
proof -
  have wf: "vm_wf m" using inv by (simp add: vm_inv_def)
  obtain P S where eq: "vm_map m = P @ (b, v) # S" using mem by (auto dest: split_list)
  have fv: "is_free (vma_kind v)"
  proof -
    have "0 < unat sz" using sz unat_pos by blast
    then show ?thesis
      using kind_at_tile [OF wf mem cov] free [unfolded all_free_def, rule_format, of c]
      by (simp add: is_free_iff)
  qed
  have "unat c + unat sz \<le> unat (vma_base v) + unat (vma_size v)"
  proof (rule ccontr)
    assume gt: "\<not> ?thesis"
    have t: "tiles (unat (vm_min m)) (unat (vm_max m)) (P @ (b, v) # S)"
      using wf eq by (simp add: vm_wf_def)
    note tm = tiles_mid [OF t]
    obtain d w R where S: "S = (d, w) # R"
      using tm(2,4) gt hi by (cases S) auto
    have d: "vma_base w = d" "unat d = unat b + unat (vma_size v)" "0 < vma_size w"
      using tm(4) S by auto
    have memw: "(d, w) \<in> set (vm_map m)" using eq S by simp
    have "covers w (unat d)" using d by (simp add: covers_def unat_pos)
    then have "vma_kind w = Free"
      using kind_at_tile [OF wf memw, of d] free d(2) gt cov tm(2)
      by (auto simp: all_free_def covers_def)
    then show False using inv fv eq S by (auto simp: vm_inv_def canon_append canon_Cons)
  qed
  then show ?thesis using fv by simp
qed

lemma fits_iff_tile:
  assumes inv: "vm_inv m" and sz: "0 < sz"
  shows "fits m hint sz al c \<longleftrightarrow> hint \<le> c \<and> (\<exists>e\<in>set (vm_map m). fit_in sz al (snd e) c)"
proof
  have wf: "vm_wf m" using inv by (simp add: vm_inv_def)
  assume f: "fits m hint sz al c"
  then have "c < vm_max m" using sz by (auto simp: fits_def word_less_nat_alt unat_pos)
  with find_tile [OF wf, of c] f obtain P b v S
    where eq: "vm_map m = P @ (b, v) # S" and cov: "covers v (unat c)" by (auto simp: fits_def)
  have mem: "(b, v) \<in> set (vm_map m)" using eq by simp
  have "fit_in sz al v c"
    using free_span_in_tile [OF inv cov mem _ sz] f cov
    by (simp add: fits_def fit_in_def covers_def)
  then show "hint \<le> c \<and> (\<exists>e\<in>set (vm_map m). fit_in sz al (snd e) c)"
    using mem f by (intro conjI bexI [of _ "(b, v)"]) (simp_all add: fits_def)
next
  have wf: "vm_wf m" using inv by (simp add: vm_inv_def)
  assume r: "hint \<le> c \<and> (\<exists>e\<in>set (vm_map m). fit_in sz al (snd e) c)"
  then obtain b v where mem: "(b, v) \<in> set (vm_map m)" and f: "fit_in sz al v c" by auto
  note t = tile_in_map [OF wf mem]
  have "kind_at m a = Some Free" if "unat c \<le> unat a" "unat a < unat c + unat sz" for a
    using kind_at_tile [OF wf mem, of a] f that by (auto simp: fit_in_def covers_def is_free_iff)
  then show "fits m hint sz al c"
    using r f t by (auto simp: fits_def fit_in_def all_free_def word_le_nat_alt)
qed

lemma search_free_is_least:
  assumes inv: "vm_inv m" and mx: "vm_max m < U64_MAX" and sz: "0 < sz"
  shows "least_fit (fits m hint sz (max al 1)) (search_free hint sz al m)"
proof -
  let ?al = "max al 1" and ?st = "max hint (vm_min m)"
  have wf: "vm_wf m" using inv by (simp add: vm_inv_def)
  have mx': "unat (vm_max m) < 18446744073709551615" using mx by (simp add: word_less_nat_alt)
  have a1: "1 \<le> ?al" and nz: "sz \<noteq> 0" using sz by auto
  have tile: "unat (vma_end v) = unat (vma_base v) + unat (vma_size v)"
      "unat (vma_end v) < 18446744073709551615" "vma_base v = b"
    if "(b, v) \<in> set (vm_map m)" for b v
    using tile_in_map [OF wf that] mx' by auto
  have lo: "?st \<le> c" and hi: "c < vm_max m" if "fits m hint sz ?al c" for c
    using that sz by (auto simp: fits_def word_less_nat_alt word_le_nat_alt unat_pos)
  have md: "c mod ?al = 0" if "fits m hint sz ?al c" for c
    using that by (simp add: fits_def)
  note al = align_up_least [OF a1, of ?st]
  show ?thesis
  proof (cases "vm_max m \<le> ?st")
    case True
    then have "\<not> fits m hint sz ?al c" for c using lo hi by (meson leD order.strict_trans1 order.trans)
    then show ?thesis using True nz by (simp add: search_free_def Let_def least_fit_def)
  next
    case False
    show ?thesis
    proof (cases "vmm_align_up ?st ?al")
      case None
      then have "\<forall>y. ?st \<le> y \<longrightarrow> y mod ?al \<noteq> 0" using al by simp
      then have "\<not> fits m hint sz ?al c" for c using lo md by blast
      then show ?thesis using None False nz by (simp add: search_free_def Let_def least_fit_def)
    next
      case (Some x)
      have x: "?st \<le> x" "x mod ?al = 0"
        and xs: "\<forall>y. ?st \<le> y \<and> y mod ?al = 0 \<longrightarrow> x \<le> y"
        using al Some by auto
      have xl: "x \<le> c" if "fits m hint sz ?al c" for c
        by (rule xs [rule_format, OF conjI [OF lo [OF that] md [OF that]]])
      let ?ys = "bt_from (vm_map m) x"
      let ?here = "\<exists>v. vm_find m x = Some v \<and> is_free (vma_kind v) \<and> vma_contains v x sz"
      show ?thesis
      proof (cases ?here)
        case True
        then obtain v where v: "vm_find m x = Some v" "is_free (vma_kind v)" "vma_contains v x sz" by auto
        then have "x < vm_max m" "vm_min m \<le> x" by (auto simp: vm_find_def split: if_splits)
        with find_tile [OF wf] v(1) obtain P b S where eq: "vm_map m = P @ (b, v) # S" by fastforce
        have mem: "(b, v) \<in> set (vm_map m)" using eq by simp
        have "fit_in sz ?al v x"
          using v x contains_iff [OF tile(1,2) [OF mem]] by (simp add: fit_in_def)
        then have "fits m hint sz ?al x" using fits_iff_tile [OF inv sz] mem x(1) by force
        moreover have "search_free hint sz al m = Some x"
          using v Some False nz by (simp add: search_free_def Let_def)
        ultimately show ?thesis using xl by (simp add: least_fit_def)
      next
        case nohere: False
        have sf: "search_free hint sz al m = first_fit x sz ?al ?ys"
          using nohere Some False nz
          by (auto simp: search_free_def Let_def split: option.splits)
        have "apart ?ys" using tiles_apart wf
          by (auto simp: apart_def bt_from_def vm_wf_def intro!: sorted_wrt_filter)
        moreover have "\<forall>e\<in>set ?ys. x \<le> vma_base (snd e)
            \<and> unat (vma_end (snd e)) = unat (vma_base (snd e)) + unat (vma_size (snd e))
            \<and> unat (vma_end (snd e)) < 18446744073709551615"
          using tile by (fastforce simp: bt_from_def)
        ultimately have ff: "least_fit (\<lambda>c. \<exists>e\<in>set ?ys. fit_in sz ?al (snd e) c) (first_fit x sz ?al ?ys)"
          using first_fit_least [OF _ a1 sz] by blast
        have "fits m hint sz ?al c \<longleftrightarrow> (\<exists>e\<in>set ?ys. fit_in sz ?al (snd e) c)" for c
        proof
          assume f: "fits m hint sz ?al c"
          then obtain b v where mem: "(b, v) \<in> set (vm_map m)" and fi: "fit_in sz ?al v c"
            using fits_iff_tile [OF inv sz] by auto
          have "x \<le> b"
          proof (rule ccontr)
            assume "\<not> x \<le> b"
            then have "unat (vma_base v) \<le> unat x" "unat x \<le> unat c"
              using tile(3) [OF mem] xl [OF f] by (auto simp: word_le_nat_alt)
            then have cov: "covers v (unat x)" and con: "vma_contains v x sz"
              using fi sz contains_iff [OF tile(1,2) [OF mem]]
              by (auto simp: fit_in_def covers_def unat_pos)
            obtain P S where eq: "vm_map m = P @ (b, v) # S" using mem by (auto dest: split_list)
            have "tiles (unat (vm_min m)) (unat (vm_max m)) (P @ (b, v) # S)"
              using wf eq by (simp add: vm_wf_def)
            then have "bt_floor (vm_map m) x = Some (b, v)"
              using floor_tile cov eq by simp
            moreover have "vm_min m \<le> x" "x < vm_max m" using x(1) xl [OF f] hi [OF f] by auto
            ultimately have "vm_find m x = Some v" by (simp add: vm_find_def not_less not_le)
            then show False using nohere con fi by (simp add: fit_in_def)
          qed
          then show "\<exists>e\<in>set ?ys. fit_in sz ?al (snd e) c"
            using mem fi by (force simp: bt_from_def)
        next
          assume "\<exists>e\<in>set ?ys. fit_in sz ?al (snd e) c"
          then obtain b v where mem: "(b, v) \<in> set (vm_map m)" "x \<le> b" and fi: "fit_in sz ?al v c"
            by (auto simp: bt_from_def)
          have "hint \<le> x" "b \<le> c" using x(1) fi tile(3) [OF mem(1)]
            by (auto simp: fit_in_def word_le_nat_alt [symmetric])
          then have "hint \<le> c" using mem(2) by simp
          then show "fits m hint sz ?al c" using fits_iff_tile [OF inv sz] mem(1) fi by force
        qed
        then have "fits m hint sz ?al = (\<lambda>c. \<exists>e\<in>set ?ys. fit_in sz ?al (snd e) c)"
          by (intro ext)
        then show ?thesis using ff sf by simp
      qed
    qed
  qed
qed

lemma new_inv:
  assumes "vm_new mn mx = Some m"
  shows "vm_inv m" and "vm_min m = mn" and "vm_max m = mx"
    and "vm_at m a = (if mn \<le> a \<and> a < mx then Some free_attrs else None)"
proof -
  have lt: "mn < mx" and m: "m = \<lparr>vm_map = [(mn, vma_free mn (mx - mn))], vm_min = mn, vm_max = mx\<rparr>"
    using assms by (auto simp: vm_new_def split: if_splits)
  have sz: "unat (mx - mn) = unat mx - unat mn" "unat mn < unat mx"
    using lt unat_sub [OF less_imp_le [OF lt]] by (auto simp: word_less_nat_alt)
  show "vm_min m = mn" "vm_max m = mx" using m by auto
  show "vm_inv m" using lt sz m
    by (simp add: vm_inv_def vm_wf_def vma_free_def unat_pos canon_Cons free_clean_def)
  show "vm_at m a = (if mn \<le> a \<and> a < mx then Some free_attrs else None)"
    using m sz by (auto simp: vm_at_def vma_free_def covers_def vma_attrs_def free_attrs_def
        word_le_nat_alt word_less_nat_alt)
qed

section \<open>Properties\<close>

text \<open>C1: \<open>VmaMap::map_range\<close> meets its abstract specification: on a map
  that tiles its address space, claiming a non-empty range inside it succeeds,
  keeps the tiling, gives exactly the addresses of the range the requested kind,
  protection, name and merge policy with the direct-memory offset advanced to
  each address, and leaves what every other address says unchanged, in spite of
  the splits and merges it performs.\<close>

theorem map_range_spec:
  assumes "vm_wf m" and "0 < sz" and "vm_min m \<le> addr"
    and "unat addr + unat sz \<le> unat (vm_max m)"
  shows "\<exists>m'. map_range addr sz kind prt phys name dis m = Some m' \<and> vm_wf m'
    \<and> vm_min m' = vm_min m \<and> vm_max m' = vm_max m
    \<and> (\<forall>a. vm_at m' a = (if in_span addr sz a
          then Some (kind, prt, map_option (\<lambda>p. p + (a - addr)) phys, name, dis)
          else vm_at m a))"
  using map_range_full [OF assms] by blast

definition demo_map :: vma_map where
  "demo_map = \<lparr>vm_map = [(0x1000, \<lparr>vma_base = 0x1000, vma_size = 0x2000, vma_kind = Direct,
      vma_prot = 3, vma_phys_base = Some 0x40000, vma_name = ''heap'', vma_disallow_merge = False\<rparr>),
     (0x3000, vma_free 0x3000 0x5000)], vm_min = 0x1000, vm_max = 0x8000\<rparr>"

lemma demo_inv: "vm_inv demo_map"
  by (simp add: vm_inv_def vm_wf_def demo_map_def vma_free_def canon_Cons free_clean_def)

lemma demo_bounds: "vm_min demo_map = 0x1000" "vm_max demo_map = 0x8000"
  by (simp_all add: demo_map_def)

theorem map_range_spec_witness:
  "\<exists>m'. map_range 0x2000 0x2000 Stack 3 None ''stack'' True demo_map = Some m' \<and> vm_wf m'
     \<and> vm_at m' 0x1FFF = vm_at demo_map 0x1FFF"
  using map_range_spec [of demo_map "0x2000" "0x2000" Stack 3 None "''stack''" True]
    demo_inv demo_bounds
  by (auto simp: vm_inv_def in_span_def)

text \<open>\<open>VmaMap::map_range\<close> and \<open>unmap_range\<close> keep the map in its
  canonical form: free ranges carry no attributes and two free ranges are never
  neighbours, so a map and unmap cycle cannot shred the free space.\<close>

theorem map_range_canonical:
  assumes "vm_inv m" and "0 < sz" and "vm_min m \<le> addr"
    and "unat addr + unat sz \<le> unat (vm_max m)"
  shows "(case map_range addr sz kind prt phys name dis m of
      Some m' \<Rightarrow> kind = Free \<or> vm_inv m' | None \<Rightarrow> False)
    \<and> (case unmap_range addr sz m of
      Some m' \<Rightarrow> vm_inv m' | None \<Rightarrow> False)"
  using map_range_full [OF _ assms(2-4), of kind prt phys name dis]
    map_range_full [OF _ assms(2-4), of Free NO_ACCESS None "''''" False] assms(1)
  by (auto simp: vm_inv_def unmap_range_def is_free_iff)

theorem map_range_canonical_witness:
  "case unmap_range 0x1800 0x800 demo_map of Some m' \<Rightarrow> vm_inv m' | None \<Rightarrow> False"
  using map_range_canonical [of demo_map "0x800" "0x1800" Stack 3 None "''''" True]
    demo_inv demo_bounds
  by simp

text \<open>C2: \<open>VmaMap::search_free\<close> returns the least address at or after the
  hint that is a multiple of the alignment and whose whole span is free, and
  \<open>None\<close> exactly when no such address exists: running dry means the address
  space is full.\<close>

theorem search_free_least:
  assumes "vm_inv m" and "vm_max m < U64_MAX" and "0 < sz"
  shows "case search_free hint sz align m of
      None \<Rightarrow> \<forall>c. \<not> fits m hint sz (max align 1) c
    | Some c \<Rightarrow> fits m hint sz (max align 1) c \<and> (\<forall>d. fits m hint sz (max align 1) d \<longrightarrow> c \<le> d)"
  using search_free_is_least [OF assms, of hint align] by (simp add: least_fit_def)

theorem search_free_least_witness:
  "search_free 0 0x1000 0x4000 demo_map = Some 0x4000 \<and> fits demo_map 0 0x1000 0x4000 0x4000"
proof -
  have s: "search_free 0 0x1000 0x4000 demo_map = Some 0x4000" by code_simp
  have "(max 0x4000 1 :: u64) = 0x4000" by simp
  then show ?thesis
    using search_free_least [of demo_map "0x1000" 0 "0x4000"] s demo_inv demo_bounds
    by simp
qed

text \<open>C3: \<open>VmaMap::range_is_free\<close> terminates on every tiled map and answers
  exactly whether the range is non-empty, inside the map and free at each of
  its addresses.\<close>

theorem range_is_free_exact:
  assumes "vm_wf m" and "vm_max m < U64_MAX"
  shows "range_is_free addr sz m = Some (0 < sz \<and> vm_min m \<le> addr
    \<and> unat addr + unat sz \<le> unat (vm_max m)
    \<and> (\<forall>a. in_span addr sz a \<longrightarrow> kind_at m a = Some Free))"
  using range_is_free_iff [OF assms, of addr sz]
  by (simp add: all_free_def in_span_def)

theorem range_is_free_exact_witness:
  "\<exists>r. range_is_free 0x3000 0x5000 demo_map = Some r \<and> range_is_free 0x2000 0x2000 demo_map \<noteq> None"
  using range_is_free_exact [of demo_map "0x3000" "0x5000"]
    range_is_free_exact [of demo_map "0x2000" "0x2000"] demo_inv demo_bounds
  by (simp add: vm_inv_def)

text \<open>Space released with \<open>unmap_range\<close> is handed out again: a later
  \<open>search_free\<close> for the same aligned address and size returns that address.\<close>

theorem unmap_then_search:
  assumes "vm_inv m" and "vm_max m < U64_MAX" and "0 < sz" and "vm_min m \<le> addr"
    and "unat addr + unat sz \<le> unat (vm_max m)" and "addr mod max align 1 = 0"
    and "unmap_range addr sz m = Some m'"
  shows "search_free addr sz align m' = Some addr"
proof -
  obtain m'' where m'': "map_range addr sz Free NO_ACCESS None '''' False m = Some m''"
      "vm_inv m''" "vm_max m'' = vm_max m" "vm_min m'' = vm_min m"
    and at: "\<And>a. in_span addr sz a \<Longrightarrow> vm_at m'' a = Some free_attrs"
    using map_range_full [OF _ assms(3-5), of Free NO_ACCESS None "''''" False] assms(1)
    by (auto simp: vm_inv_def free_attrs_def)
  have eq: "m'' = m'" using m''(1) assms(7) by (simp add: unmap_range_def)
  have f: "fits m' addr sz (max align 1) addr"
    using assms(4-6) m''(2-4) at eq
    by (auto simp: fits_def all_free_def in_span_def kind_at_def free_attrs_def)
  have "least_fit (fits m' addr sz (max align 1)) (search_free addr sz align m')"
    using search_free_is_least m'' eq assms(2,3) by simp
  then obtain c where c: "search_free addr sz align m' = Some c"
      "fits m' addr sz (max align 1) c" "c \<le> addr"
    using f by (auto simp: least_fit_def split: option.splits)
  have "addr \<le> c" using c(2) by (simp add: fits_def)
  then show ?thesis using c by simp
qed

theorem unmap_then_search_witness:
  "\<exists>m'. unmap_range 0x1000 0x1000 demo_map = Some m' \<and> search_free 0x1000 0x1000 0x1000 m' = Some 0x1000"
proof -
  obtain m' where "unmap_range 0x1000 0x1000 demo_map = Some m'"
    using map_range_full [of demo_map "0x1000" "0x1000" Free NO_ACCESS None "''''" False]
      demo_inv demo_bounds by (auto simp: vm_inv_def unmap_range_def)
  then show ?thesis
    using unmap_then_search [of demo_map "0x1000" "0x1000" "0x1000" m'] demo_inv demo_bounds
    by simp
qed

end
