(* ===== verification/Guest_Memory.thy ===== *)
theory Guest_Memory
  imports Raeen_Prelude
begin

text \<open>
  The guest memory interface of \<open>crates/raeen-hle/src/lib.rs\<close>
  (\<open>trait GuestMemory\<close>): the two operations every handler uses, \<open>read\<close> and
  \<open>write\<close>, over an arbitrary memory state, the laws a backend promises (locale
  \<open>guest_memory\<close>), the little-endian encodings of the Rust integer types, and
  the flat \<open>TestMemory\<close> backend of the crate, on which the locale is
  interpreted.
\<close>

section \<open>Little-endian encodings\<close>

text \<open>\<open>to_le_bytes\<close> and \<open>from_le_bytes\<close>: the number of bytes is 4 for a
  \<open>u32\<close> and 8 for a \<open>u64\<close>.\<close>

primrec le_bytes :: "nat \<Rightarrow> 'a::len word \<Rightarrow> byte list" where
  "le_bytes 0 x = []"
| "le_bytes (Suc n) x = ucast x # le_bytes n (drop_bit 8 x)"

primrec le_word :: "byte list \<Rightarrow> 'a::len word" where
  "le_word [] = 0"
| "le_word (b # bs) = ucast b + push_bit 8 (le_word bs)"

abbreviation u32_bytes :: "u32 \<Rightarrow> byte list" where "u32_bytes x \<equiv> le_bytes 4 x"
abbreviation u64_bytes :: "u64 \<Rightarrow> byte list" where "u64_bytes x \<equiv> le_bytes 8 x"

lemma length_le_bytes [simp]: "length (le_bytes n x) = n"
  by (induction n arbitrary: x) auto

lemma le_word_le_bytes:
  "(le_word (le_bytes n x) :: 'a::len word) = take_bit (8 * n) (x :: 'a word)"
proof (induction n arbitrary: x)
  case (Suc n)
  have "(ucast (ucast x :: byte) :: 'a word) = take_bit 8 x"
    by (rule bit_word_eqI) (auto simp: bit_simps)
  then have "le_word (le_bytes (Suc n) x) = take_bit 8 x + push_bit 8 (take_bit (8 * n) (drop_bit 8 x))"
    using Suc.IH [of "drop_bit 8 x"] by simp
  also have "\<dots> = or (take_bit 8 x) (push_bit 8 (take_bit (8 * n) (drop_bit 8 x)))"
    by (rule disjunctive_add) (auto simp: bit_simps)
  also have "\<dots> = take_bit (8 * Suc n) x"
    by (rule bit_word_eqI) (auto simp: bit_simps)
  finally show ?case .
qed simp

lemma u32_bytes_inverse [simp]: "le_word (u32_bytes x) = x"
  by (simp only: le_word_le_bytes) (simp add: take_bit_word_eq_self)

lemma u64_bytes_inverse [simp]: "le_word (u64_bytes x) = x"
  by (simp only: le_word_le_bytes) (simp add: take_bit_word_eq_self)

section \<open>The interface\<close>

text \<open>\<open>gm_read a n m\<close> is the filled buffer, or \<open>None\<close> for the result
  \<open>false\<close>; \<open>gm_write\<close> returns the flag and the memory afterwards.\<close>

record 'm mem_ops =
  gm_read :: "u64 \<Rightarrow> nat \<Rightarrow> 'm \<Rightarrow> byte list option"
  gm_write :: "u64 \<Rightarrow> byte list \<Rightarrow> 'm \<Rightarrow> bool \<times> 'm"

text \<open>The environment of a handler that also allocates
  (\<open>trait GuestAllocator\<close>).\<close>

record 'm host_env = "'m mem_ops" +
  ga_alloc :: "u64 \<Rightarrow> u64 \<Rightarrow> 'm \<Rightarrow> u64 option \<times> 'm"
  ga_free :: "u64 \<Rightarrow> 'm \<Rightarrow> 'm"

definition disjoint_spans :: "u64 \<Rightarrow> nat \<Rightarrow> u64 \<Rightarrow> nat \<Rightarrow> bool" where
  "disjoint_spans a n b k \<longleftrightarrow> unat a + n \<le> unat b \<or> unat b + k \<le> unat a"

locale guest_memory =
  fixes E :: "('m, 'x) mem_ops_scheme" and ok :: "'m \<Rightarrow> bool"
  assumes read_length: "ok m \<Longrightarrow> gm_read E a n m = Some bs \<Longrightarrow> length bs = n"
    and write_refused: "ok m \<Longrightarrow> gm_write E a bs m = (False, m') \<Longrightarrow> m' = m"
    and write_ok: "ok m \<Longrightarrow> gm_write E a bs m = (True, m') \<Longrightarrow> ok m'"
    and read_back: "ok m \<Longrightarrow> gm_write E a bs m = (True, m') \<Longrightarrow>
      gm_read E a (length bs) m' = Some bs"
    and read_other: "ok m \<Longrightarrow> gm_write E a bs m = (True, m') \<Longrightarrow>
      disjoint_spans a (length bs) b n \<Longrightarrow> gm_read E b n m' = gm_read E b n m"
begin

lemma write_keeps_ok:
  assumes "ok m" shows "ok (snd (gm_write E a bs m))"
proof (cases "fst (gm_write E a bs m)")
  case True
  then show ?thesis using write_ok [OF assms, of a bs "snd (gm_write E a bs m)"]
    by (simp add: prod_eq_iff)
next
  case False
  then show ?thesis using write_refused [OF assms, of a bs "snd (gm_write E a bs m)"] assms
    by (simp add: prod_eq_iff)
qed

lemma read_back_u64:
  assumes "ok m" and "gm_write E a (u64_bytes x) m = (True, m')"
  shows "map_option le_word (gm_read E a 8 m') = Some x"
  using read_back [OF assms] by simp

lemma read_back_u32:
  assumes "ok m" and "gm_write E a (u32_bytes x) m = (True, m')"
  shows "map_option le_word (gm_read E a 4 m') = Some x"
  using read_back [OF assms] by simp

end

section \<open>The flat backend\<close>

text \<open>\<open>TestMemory\<close>: one byte vector, bounds-checked with
  \<open>usize::checked_add\<close>.\<close>

definition tm_read :: "u64 \<Rightarrow> nat \<Rightarrow> byte list \<Rightarrow> byte list option" where
  "tm_read guest_addr n buf =
     (let addr = unat guest_addr in
      if 18446744073709551616 \<le> addr + n then None
      else if length buf < addr + n then None
      else Some (take n (drop addr buf)))"

definition tm_write :: "u64 \<Rightarrow> byte list \<Rightarrow> byte list \<Rightarrow> bool \<times> byte list" where
  "tm_write guest_addr bs buf =
     (let addr = unat guest_addr in
      if 18446744073709551616 \<le> addr + length bs then (False, buf)
      else if length buf < addr + length bs then (False, buf)
      else (True, take addr buf @ bs @ drop (addr + length bs) buf))"

definition test_memory :: "byte list mem_ops" where
  "test_memory = \<lparr>gm_read = tm_read, gm_write = tm_write\<rparr>"

lemma tm_read_other:
  assumes "tm_write a bs m = (True, m')" and "disjoint_spans a (length bs) b n"
  shows "tm_read b n m' = tm_read b n m"
proof -
  let ?a = "unat a" and ?b = "unat b"
  have le: "?a + length bs \<le> length m" and m': "m' = take ?a m @ bs @ drop (?a + length bs) m"
    using assms(1) by (auto simp: tm_write_def Let_def split: if_splits)
  have len: "length m' = length m" using le m' by simp
  have "take n (drop ?b m') = take n (drop ?b m)" if "?b + n \<le> length m"
  proof (rule nth_equalityI)
    show "length (take n (drop ?b m')) = length (take n (drop ?b m))" using len by simp
    fix i assume "i < length (take n (drop ?b m'))"
    then have i: "i < n" "?b + i < length m" using that len by auto
    have "m' ! (?b + i) = m ! (?b + i)"
      using assms(2) i le m' by (auto simp: disjoint_spans_def nth_append)
    then show "take n (drop ?b m') ! i = take n (drop ?b m) ! i" using i len that by simp
  qed
  then show ?thesis using len by (simp add: tm_read_def Let_def)
qed

interpretation tm: guest_memory test_memory "\<lambda>m. True"
proof unfold_locales
  fix m m' :: "byte list" and a b :: u64 and n bs
  show "gm_read test_memory a n m = Some bs \<Longrightarrow> length bs = n"
    by (auto simp: test_memory_def tm_read_def Let_def split: if_splits)
  show "gm_write test_memory a bs m = (False, m') \<Longrightarrow> m' = m"
    by (auto simp: test_memory_def tm_write_def Let_def split: if_splits)
  show "gm_write test_memory a bs m = (True, m') \<Longrightarrow> gm_read test_memory a (length bs) m' = Some bs"
    by (auto simp: test_memory_def tm_write_def tm_read_def Let_def split: if_splits)
  show "gm_write test_memory a bs m = (True, m') \<Longrightarrow> disjoint_spans a (length bs) b n \<Longrightarrow>
      gm_read test_memory b n m' = gm_read test_memory b n m"
    using tm_read_other by (simp add: test_memory_def)
qed simp

text \<open>A backend whose reads agree byte by byte: what handlers that scan a string rely
  on.\<close>

locale byte_memory = guest_memory E ok for E :: "('m, 'x) mem_ops_scheme" and ok :: "'m \<Rightarrow> bool" +
  assumes read_byte: "ok m \<Longrightarrow> gm_read E a n m = Some bs \<Longrightarrow> i < n \<Longrightarrow>
    gm_read E (a + of_nat i) 1 m = Some [bs ! i]"
begin

lemma written_byte:
  assumes "ok m" "gm_write E a bs m = (True, m')" "i < length bs"
  shows "gm_read E (a + of_nat i) 1 m' = Some [bs ! i]"
  using read_byte [OF write_ok [OF assms(1,2)] read_back [OF assms(1,2)] assms(3)] .

end

lemma tm_read_byte:
  assumes "tm_read a n m = Some bs" "i < n" shows "tm_read (a + of_nat i) 1 m = Some [bs ! i]"
proof -
  have le: "unat a + n < 18446744073709551616" "unat a + n \<le> length m" "bs = take n (drop (unat a) m)"
    using assms(1) by (auto simp: tm_read_def Let_def split: if_splits)
  have "unat (of_nat i :: u64) = i" using assms(2) le(1) by (simp add: unat_of_nat take_bit_nat_def)
  then have "unat (a + of_nat i) = unat a + i" using assms(2) le(1) by (subst unat_add_no_wrap) simp_all
  moreover have "take 1 (drop (unat a + i) m) = [m ! (unat a + i)]"
    using assms(2) le(2) by (simp add: take_Suc_conv_app_nth take_Suc hd_drop_conv_nth)
  ultimately show ?thesis using assms(2) le by (simp add: tm_read_def Let_def)
qed

interpretation tmb: byte_memory test_memory "\<lambda>m. True"
proof unfold_locales
  show "gm_read test_memory a n m = Some bs \<Longrightarrow> i < n \<Longrightarrow>
    gm_read test_memory (a + of_nat i) 1 m = Some [bs ! i]" for m :: "byte list" and a n bs i
    using tm_read_byte [of a n m bs i] by (simp add: test_memory_def)
qed

section \<open>The allocator\<close>

text \<open>What a handler may rely on about \<open>alloc\<close> and \<open>free\<close>: they keep the backend
  usable, and a block that is returned has a non-null address.\<close>

locale guest_host = guest_memory E ok for E :: "'m host_env" and ok :: "'m \<Rightarrow> bool" +
  assumes alloc_ok: "ok m \<Longrightarrow> ga_alloc E n al m = (r, m') \<Longrightarrow> ok m'"
    and alloc_nonnull: "ok m \<Longrightarrow> ga_alloc E n al m = (Some h, m') \<Longrightarrow> h \<noteq> 0"
    and free_ok: "ok m \<Longrightarrow> ok (ga_free E h m)"
begin

text \<open>Allocate a block and publish its address in a slot.\<close>

lemma alloc_publish:
  assumes "ok m" and "ga_alloc E n al m = (Some h, m1)" and "gm_write E a (u64_bytes h) m1 = (True, m2)"
  shows "h \<noteq> 0" "ok m2" "map_option le_word (gm_read E a 8 m2) = Some h"
  using alloc_nonnull [OF assms(1,2)] alloc_ok [OF assms(1,2)] write_ok [OF _ assms(3)]
    read_back_u64 [OF _ assms(3)] by auto

end

text \<open>\<open>TestAllocator\<close>: a bump pointer; \<open>free\<close> does nothing.\<close>

definition ta_bump :: "u64 \<Rightarrow> u64 \<Rightarrow> byte list \<times> u64 \<Rightarrow> u64 option \<times> byte list \<times> u64" where
  "ta_bump sz align = (\<lambda>(buf, cur).
     let align = max align 1 in
     case checked_add cur (align - 1) of
       None \<Rightarrow> (None, (buf, cur))
     | Some x \<Rightarrow>
         let aligned = and x (not (align - 1)) in
         case checked_add aligned sz of
           None \<Rightarrow> (None, (buf, cur))
         | Some nxt \<Rightarrow> (Some aligned, (buf, nxt)))"

definition test_env :: "(byte list \<times> u64) host_env" where
  "test_env = \<lparr>gm_read = (\<lambda>a n m. tm_read a n (fst m)),
     gm_write = (\<lambda>a bs m. let (r, buf) = tm_write a bs (fst m) in (r, (buf, snd m))),
     ga_alloc = ta_bump, ga_free = (\<lambda>a m. m)\<rparr>"

lemma masked_nonzero:
  fixes x a :: u64
  assumes "a < x" shows "and x (not a) \<noteq> 0"
proof
  assume "and x (not a) = 0"
  then have "and x a = x" by (metis and.right_neutral bit.conj_disj_distrib bit.disj_cancel_right or.right_neutral)
  then have "x \<le> a" by (metis word_and_le2 word_and_le1)
  then show False using assms by simp
qed

lemma ta_bump_nonzero:
  assumes "0 < snd m" and "ta_bump sz align m = (r, m')"
  shows "0 < snd m'" and "r = Some h \<Longrightarrow> h \<noteq> 0"
proof -
  obtain buf cur where m: "m = (buf, cur)" by (cases m)
  let ?a = "max align 1 - 1"
  have nz: "and x (not ?a) \<noteq> 0" if "checked_add cur ?a = Some x" for x
  proof (rule masked_nonzero)
    have "unat x = unat cur + unat ?a" using checked_add_unat [OF that] .
    moreover have "0 < unat cur" using assms(1) m by (simp add: unat_gt_0)
    ultimately show "?a < x" by (simp add: word_less_nat_alt)
  qed
  have up: "0 < y" if "checked_add z sz = Some y" "z \<noteq> 0" for y z :: u64
    using checked_add_unat [OF that(1)] that(2) by (simp add: word_less_nat_alt unat_gt_0)
  show "0 < snd m'" "r = Some h \<Longrightarrow> h \<noteq> 0"
    using assms m nz up by (auto simp: ta_bump_def Let_def split: option.splits)
qed

interpretation te: guest_host test_env "\<lambda>m. 0 < snd m"
proof unfold_locales
  fix m m' :: "byte list \<times> u64" and a b h :: u64 and n bs and sz al :: u64 and r
  assume ok: "0 < snd m"
  show "gm_read test_env a n m = Some bs \<Longrightarrow> length bs = n"
    using tm.read_length [of a n "fst m" bs] by (simp add: test_env_def test_memory_def)
  show "gm_write test_env a bs m = (False, m') \<Longrightarrow> m' = m"
    using tm.write_refused [of a bs "fst m" "fst m'"]
    by (auto simp: test_env_def test_memory_def split: prod.splits)
  show "gm_write test_env a bs m = (True, m') \<Longrightarrow> 0 < snd m'"
    using ok by (auto simp: test_env_def split: prod.splits)
  show "gm_write test_env a bs m = (True, m') \<Longrightarrow> gm_read test_env a (length bs) m' = Some bs"
    using tm.read_back [of a bs "fst m" "fst m'"]
    by (auto simp: test_env_def test_memory_def split: prod.splits)
  show "gm_write test_env a bs m = (True, m') \<Longrightarrow> disjoint_spans a (length bs) b n \<Longrightarrow>
      gm_read test_env b n m' = gm_read test_env b n m"
    using tm.read_other [of a bs "fst m" "fst m'" b n]
    by (auto simp: test_env_def test_memory_def split: prod.splits)
  show "ga_alloc test_env sz al m = (r, m') \<Longrightarrow> 0 < snd m'"
    using ta_bump_nonzero(1) [OF ok] by (simp add: test_env_def)
  show "ga_alloc test_env sz al m = (Some h, m') \<Longrightarrow> h \<noteq> 0"
    using ta_bump_nonzero(2) [OF ok] by (simp add: test_env_def)
  show "0 < snd (ga_free test_env h m)" using ok by (simp add: test_env_def)
qed

end
