(* ===== verification/Wait_Slices.thy ===== *)
theory Wait_Slices
  imports Guest_Memory
begin

text \<open>
  Blocking guest waits (\<open>crates/raeen-core/src/subsystems.rs\<close>).  Every blocking
  primitive parks in bounded slices: one turn of its loop looks at teardown, runs
  a pending guest exception handler, re-checks its condition and tests the
  guest's deadline.  What a turn meets is a value of type \<open>slice\<close>: what the other
  threads did since the last turn, whether teardown or an exception is
  pending, what the delivered handler does, and the clock.  \<open>run_slices\<close> is the
  loop over the turns that happen; \<open>None\<close> is a thread still parked after them.
\<close>

section \<open>Deadlines\<close>

text \<open>Instants and durations are nanoseconds.\<close>

definition park_slice :: "nat option \<Rightarrow> nat \<Rightarrow> nat \<Rightarrow> nat" where
  "park_slice deadline now slc = (case deadline of None \<Rightarrow> slc | Some dl \<Rightarrow> min (dl - now) slc)"

definition guest_deadline_reached :: "nat option \<Rightarrow> nat \<Rightarrow> bool" where
  "guest_deadline_reached deadline now = (case deadline of None \<Rightarrow> False | Some dl \<Rightarrow> dl \<le> now)"

definition from_micros :: "u64 \<Rightarrow> nat" where
  "from_micros us = unat us * 1000"

text \<open>\<open>SceKernelUseconds*\<close>: \<open>NULL\<close> is no deadline, otherwise four bytes are
  read; the outer \<open>None\<close> is an unreadable pointer.\<close>

definition read_deadline :: "'m mem_ops \<Rightarrow> u64 \<Rightarrow> nat \<Rightarrow> 'm \<Rightarrow> nat option option" where
  "read_deadline E timeout_ptr now m =
     (if timeout_ptr = 0 then Some None
      else (case gm_read E timeout_ptr 4 m of
              None \<Rightarrow> None
            | Some raw \<Rightarrow> Some (Some (now + from_micros (u32_to_u64 (le_word raw))))))"

section \<open>Turns of a waiting loop\<close>

record 's slice =
  sl_others :: "'s \<Rightarrow> 's"
  sl_terminating :: bool
  sl_pending :: bool
  sl_deliver :: "'s \<Rightarrow> 's"
  sl_now :: nat

text \<open>A turn returns to the guest, ends its slice with the condition still
  unmet, or has not come back from the host wait yet.\<close>

datatype ('r, 's) turn_result = Returned 'r 's | Slice_over 's | Still_parked

fun run_slices :: "('o \<Rightarrow> 's \<Rightarrow> ('r, 's) turn_result) \<Rightarrow> 'o list \<Rightarrow> 's \<Rightarrow> ('r \<times> 's) option" where
  "run_slices turn [] s = None"
| "run_slices turn (t # ts) s =
     (case turn t s of
        Returned r s' \<Rightarrow> Some (r, s')
      | Slice_over s' \<Rightarrow> run_slices turn ts s'
      | Still_parked \<Rightarrow> None)"

text \<open>The handler of a pending exception runs before the condition is checked;
  a slice without a pending one leaves the state to the other threads.\<close>

definition deliver_at_wait_slice :: "('s, 'x) slice_scheme \<Rightarrow> 's \<Rightarrow> 's" where
  "deliver_at_wait_slice t s = (if sl_pending t then sl_deliver t s else s)"

definition slice_entry :: "('s, 'x) slice_scheme \<Rightarrow> 's \<Rightarrow> 's" where
  "slice_entry t s = deliver_at_wait_slice t (sl_others t s)"

text \<open>The other threads and the handlers of a list of turns keep a predicate.\<close>

definition slices_keep :: "('s \<Rightarrow> bool) \<Rightarrow> ('s, 'x) slice_scheme list \<Rightarrow> bool" where
  "slices_keep I ts \<longleftrightarrow>
     (\<forall>t\<in>set ts. \<forall>s. I s \<longrightarrow> I (sl_others t s) \<and> I (sl_deliver t s))"

lemma slice_entry_keeps: "slices_keep I ts \<Longrightarrow> t \<in> set ts \<Longrightarrow> I s \<Longrightarrow> I (slice_entry t s)"
  by (auto simp: slices_keep_def slice_entry_def deliver_at_wait_slice_def)

text \<open>A turn at which the wait has to end: the deadline or teardown.\<close>

definition due_now :: "nat option \<Rightarrow> ('s, 'x) slice_scheme \<Rightarrow> bool" where
  "due_now dl t \<longleftrightarrow> guest_deadline_reached dl (sl_now t) \<or> sl_terminating t"

text \<open>A slice in which nothing happens but the clock.\<close>

definition idle_slice :: "nat \<Rightarrow> 's slice" where
  "idle_slice now = \<lparr>sl_others = id, sl_terminating = False, sl_pending = False,
     sl_deliver = id, sl_now = now\<rparr>"

lemma run_slices_invariant:
  assumes "\<And>t s r s'. t \<in> set ts \<Longrightarrow> I s \<Longrightarrow> turn t s = Returned r s' \<Longrightarrow> I s'"
    and "\<And>t s s'. t \<in> set ts \<Longrightarrow> I s \<Longrightarrow> turn t s = Slice_over s' \<Longrightarrow> I s'"
    and "I s" and "run_slices turn ts s = Some (r, s')"
  shows "I s'"
  using assms
proof (induction ts arbitrary: s)
  case (Cons t ts)
  show ?case
  proof (cases "turn t s")
    case (Returned q s1)
    then show ?thesis using Cons.prems(1) [of t s q s1] Cons.prems(3,4) by simp
  next
    case (Slice_over s1)
    have "I s1" using Cons.prems(2) [OF _ Cons.prems(3) Slice_over] by simp
    moreover have "run_slices turn ts s1 = Some (r, s')" using Cons.prems(4) Slice_over by simp
    ultimately show ?thesis
      using Cons.IH [of s1] Cons.prems(1,2) by (meson list.set_intros(2))
  next
    case Still_parked
    then show ?thesis using Cons.prems(4) by simp
  qed
qed simp

text \<open>What a wait that returned returned: the turn that did, and the state it
  was entered in.\<close>

lemma run_slices_returned:
  "run_slices turn ts s = Some (r, s') \<Longrightarrow> \<exists>t\<in>set ts. \<exists>s0. turn t s0 = Returned r s'"
  by (induction ts arbitrary: s) (auto split: turn_result.splits)

section \<open>The contract of a sliced wait\<close>

text \<open>One turn reports a timeout only when the guest's deadline was reached at
  that turn, and goes round again only when the turn was not due: \<open>due\<close> is what
  the primitive promises to notice at the turn.\<close>

locale sliced_wait =
  fixes turn :: "nat option \<Rightarrow> ('s, 'x) slice_scheme \<Rightarrow> 's \<Rightarrow> ('r, 's) turn_result"
    and timed_out :: 'r
    and due :: "nat option \<Rightarrow> ('s, 'x) slice_scheme \<Rightarrow> bool"
  assumes timeout_only: "turn dl t s = Returned timed_out s' \<Longrightarrow>
      guest_deadline_reached dl (sl_now t)"
    and again_before: "turn dl t s = Slice_over s' \<Longrightarrow> \<not> due dl t"
begin

lemma timeout_at_deadline:
  assumes "run_slices (turn dl) ts s = Some (timed_out, s')"
  shows "\<exists>d. dl = Some d \<and> (\<exists>t\<in>set ts. d \<le> sl_now t)"
proof -
  obtain t s0 where "t \<in> set ts" "turn dl t s0 = Returned timed_out s'"
    using run_slices_returned [OF assms] by auto
  then have "guest_deadline_reached dl (sl_now t)" using timeout_only by blast
  then show ?thesis using \<open>t \<in> set ts\<close>
    by (auto simp: guest_deadline_reached_def split: option.splits)
qed

lemma null_timeout_never_times_out:
  "run_slices (turn None) ts s = Some (r, s') \<Longrightarrow> r \<noteq> timed_out"
  using timeout_at_deadline [of None ts s s'] by auto

lemma returns_when_due:
  assumes "t \<in> set ts" and "due dl t"
    and "\<forall>u\<in>set ts. \<forall>s. turn dl u s \<noteq> Still_parked"
  shows "run_slices (turn dl) ts s \<noteq> None"
  using assms
proof (induction ts arbitrary: s)
  case (Cons u us)
  show ?case
  proof (cases "turn dl u s")
    case (Slice_over s1)
    then have "u \<noteq> t" using again_before [OF Slice_over] Cons.prems(2) by auto
    then show ?thesis using Cons Slice_over by simp
  qed (use Cons.prems in auto)
qed simp

end

section \<open>The kernel's condition wait\<close>

text \<open>\<open>WaitSubsystem::wait_until\<close> of \<open>OrbisKernel\<close>: one entry of the list per
  time the condition is evaluated, with what the other threads did before it.
  The predicate returns whether it is ready and the cells its closure set.\<close>

datatype wait_outcome = Ready | Terminating | TimedOut

record 's wakeup =
  wk_others :: "'s \<Rightarrow> 's"
  wk_terminating :: bool
  wk_now :: nat

fun wait_until_loop ::
  "nat \<Rightarrow> ('s \<Rightarrow> (bool \<times> 'c) \<times> 's) \<Rightarrow> 's wakeup list \<Rightarrow> 's \<Rightarrow> (wait_outcome \<times> 'c \<times> 's) option" where
  "wait_until_loop deadline ready [] s = None"
| "wait_until_loop deadline ready (w # ws) s =
     (let ((r, c), s1) = ready (wk_others w s) in
      if r then Some (Ready, c, s1)
      else if wk_terminating w then Some (Terminating, c, s1)
      else if deadline - wk_now w = 0 then Some (TimedOut, c, s1)
      else wait_until_loop deadline ready ws s1)"

definition wait_until ::
  "nat \<Rightarrow> nat \<Rightarrow> ('s \<Rightarrow> (bool \<times> 'c) \<times> 's) \<Rightarrow> 's wakeup list \<Rightarrow> 's
     \<Rightarrow> (wait_outcome \<times> 'c \<times> 's) option" where
  "wait_until now timeout ready ws s = wait_until_loop (now + timeout) ready ws s"

lemma wait_until_invariant:
  assumes "\<And>w s. w \<in> set ws \<Longrightarrow> I s \<Longrightarrow> I (wk_others w s)"
    and "\<And>s r s'. I s \<Longrightarrow> ready s = (r, s') \<Longrightarrow> I s'"
    and "I s" and "wait_until now timeout ready ws s = Some (r, c, s')"
  shows "I s'"
  using assms unfolding wait_until_def
proof (induction ws arbitrary: s)
  case (Cons w ws)
  obtain p q s1 where e: "ready (wk_others w s) = ((p, q), s1)"
    by (cases "ready (wk_others w s)") (metis surj_pair)
  have "I (wk_others w s)" using Cons.prems(1) [of w s] Cons.prems(3) by simp
  then have s1: "I s1" using Cons.prems(2) e by blast
  show ?case
  proof (cases "p \<or> wk_terminating w \<or> now + timeout - wk_now w = 0")
    case True
    then show ?thesis using Cons.prems(4) e s1 by (auto split: if_splits)
  next
    case False
    then have "wait_until_loop (now + timeout) ready ws s1 = Some (r, c, s')"
      using Cons.prems(4) e by simp
    then show ?thesis using Cons.IH [of s1] Cons.prems(1,2) s1 by simp
  qed
qed simp

text \<open>A wait that reports \<open>Ready\<close> saw its predicate hold.\<close>

lemma wait_until_ready:
  assumes "wait_until now timeout ready ws s = Some (Ready, c, s')"
  shows "\<exists>s0. ready s0 = ((True, c), s')"
  using assms unfolding wait_until_def
  by (induction ws arbitrary: s) (auto split: prod.splits if_splits)

end
