(* ===== verification/Counting_Semaphore.thy ===== *)
theory Counting_Semaphore
  imports Wait_Slices
begin

text \<open>
  The contract the two counting semaphores of the emulator share, as a locale:
  a count per handle, a take that succeeds only when the count covers it and a
  give that adds to it.  The conservation law proved here from the contract is
  used by the libkernel and the POSIX semaphores through interpretations.
\<close>

datatype sem_op = Take int | Give int

fun sem_delta :: "sem_op \<Rightarrow> int" where
  "sem_delta (Take n) = - n"
| "sem_delta (Give n) = n"

text \<open>A run of operations on one handle, with the units that went in and out:
  only the operations that succeeded count.\<close>

fun sem_run ::
  "('h \<Rightarrow> int \<Rightarrow> 's \<Rightarrow> bool \<times> 's) \<Rightarrow> ('h \<Rightarrow> int \<Rightarrow> 's \<Rightarrow> bool \<times> 's) \<Rightarrow> 'h
     \<Rightarrow> sem_op list \<Rightarrow> 's \<Rightarrow> int \<times> 's" where
  "sem_run tk gv h [] s = (0, s)"
| "sem_run tk gv h (x # xs) s =
     (let (r, s1) = (case x of Take n \<Rightarrow> tk h n s | Give n \<Rightarrow> gv h n s);
          (d, s2) = sem_run tk gv h xs s1 in
      ((if r then sem_delta x else 0) + d, s2))"

locale counting_semaphore =
  fixes ok :: "'s \<Rightarrow> bool"
    and count :: "'h \<Rightarrow> 's \<Rightarrow> int option"
    and take_op :: "'h \<Rightarrow> int \<Rightarrow> 's \<Rightarrow> bool \<times> 's"
    and give_op :: "'h \<Rightarrow> int \<Rightarrow> 's \<Rightarrow> bool \<times> 's"
  assumes count_nonneg: "ok s \<Longrightarrow> count h s = Some c \<Longrightarrow> 0 \<le> c"
    and take_ok: "ok s \<Longrightarrow> take_op h n s = (r, s') \<Longrightarrow> ok s'"
    and give_ok: "ok s \<Longrightarrow> give_op h n s = (r, s') \<Longrightarrow> ok s'"
    and take_yes: "ok s \<Longrightarrow> count h s = Some c \<Longrightarrow> take_op h n s = (True, s') \<Longrightarrow>
      count h s' = Some (c - n)"
    and take_no: "ok s \<Longrightarrow> take_op h n s = (False, s') \<Longrightarrow> count g s' = count g s"
    and give_yes: "ok s \<Longrightarrow> count h s = Some c \<Longrightarrow> give_op h n s = (True, s') \<Longrightarrow>
      count h s' = Some (c + n)"
    and give_no: "ok s \<Longrightarrow> give_op h n s = (False, s') \<Longrightarrow> count g s' = count g s"
begin

lemma op_step:
  assumes "ok s" and "count h s = Some c"
    and "(case x of Take n \<Rightarrow> take_op h n s | Give n \<Rightarrow> give_op h n s) = (r, s')"
  shows "ok s' \<and> count h s' = Some (c + (if r then sem_delta x else 0))"
proof (cases x)
  case (Take n)
  then have e: "take_op h n s = (r, s')" using assms(3) by simp
  show ?thesis
  proof (cases r)
    case True
    then show ?thesis using take_ok [OF assms(1) e] take_yes [OF assms(1,2)] e Take by simp
  next
    case False
    then show ?thesis using take_ok [OF assms(1) e] take_no [OF assms(1)] e assms(2) by simp
  qed
next
  case (Give n)
  then have e: "give_op h n s = (r, s')" using assms(3) by simp
  show ?thesis
  proof (cases r)
    case True
    then show ?thesis using give_ok [OF assms(1) e] give_yes [OF assms(1,2)] e Give by simp
  next
    case False
    then show ?thesis using give_ok [OF assms(1) e] give_no [OF assms(1)] e assms(2) by simp
  qed
qed

lemma conservation:
  assumes "ok s" and "count h s = Some c" and "sem_run take_op give_op h xs s = (d, s')"
  shows "ok s' \<and> count h s' = Some (c + d) \<and> 0 \<le> c + d"
  using assms
proof (induction xs arbitrary: s c d)
  case Nil
  then show ?case using count_nonneg by auto
next
  case (Cons x xs)
  obtain r s1 where 1: "(case x of Take n \<Rightarrow> take_op h n s | Give n \<Rightarrow> give_op h n s) = (r, s1)"
    by (cases "case x of Take n \<Rightarrow> take_op h n s | Give n \<Rightarrow> give_op h n s")
  obtain e s2 where 2: "sem_run take_op give_op h xs s1 = (e, s2)"
    by (cases "sem_run take_op give_op h xs s1")
  have s2: "s2 = s'" "d = (if r then sem_delta x else 0) + e" using Cons.prems(3) 1 2 by auto
  have "ok s1" "count h s1 = Some (c + (if r then sem_delta x else 0))"
    using op_step [OF Cons.prems(1,2) 1] by auto
  from Cons.IH [OF this] 2 s2 show ?case by (simp add: add.assoc)
qed

end

end
