(* ===== verification/Kernel_Semaphore.thy ===== *)
theory Kernel_Semaphore
  imports Counting_Semaphore
begin

text \<open>
  The libkernel counting semaphores
  (\<open>crates/raeen-hle/src/kernel_semaphore.rs\<close> over
  \<open>OrbisKernel::create_semaphore\<close> and \<open>wake_semaphore_waiters\<close> of
  \<open>crates/raeen-kernel/src/lib.rs\<close>): create, delete, signal, poll, wait and
  cancel, with the table of semaphores, the handle counter and the number of
  wakes issued as state.
\<close>

section \<open>State\<close>

record semaphore =
  sem_count :: int
  sem_max_count :: int

record 'm sema_state =
  sema_mem :: 'm
  kernel_semaphores :: "u32 \<rightharpoonup> semaphore"
  kernel_semaphore_next :: u32
  semaphore_wakes :: u64

definition create_semaphore :: "int \<Rightarrow> int \<Rightarrow> 'm sema_state \<Rightarrow> u32 \<times> 'm sema_state" where
  "create_semaphore initial mx s =
     (let handle = kernel_semaphore_next s in
      (handle, s\<lparr>kernel_semaphore_next := handle + 1,
         kernel_semaphores := (kernel_semaphores s)
           (handle \<mapsto> \<lparr>sem_count = initial, sem_max_count = mx\<rparr>)\<rparr>))"

definition wake_semaphore_waiters :: "'m sema_state \<Rightarrow> 'm sema_state" where
  "wake_semaphore_waiters s = s\<lparr>semaphore_wakes := semaphore_wakes s + 1\<rparr>"

section \<open>Handlers\<close>

definition hle_create_sema :: "'m mem_ops \<Rightarrow> u64 list \<Rightarrow> 'm sema_state \<Rightarrow> u64 \<times> 'm sema_state" where
  "hle_create_sema E args s =
     (let out = arg args 0; name_ptr = arg args 1; attr = arg args 2;
          initial = as_i32 (arg args 3); mx = as_i32 (arg args 4); opt = arg args 5 in
      if out = 0 \<or> name_ptr = 0 \<or> 2 < attr \<or> initial < 0 \<or> mx \<le> 0 \<or> mx < initial \<or> opt \<noteq> 0
      then (SCE_EINVAL, s)
      else (case gm_read E name_ptr 33 (sema_mem s) of
          None \<Rightarrow> (SCE_EFAULT, s)
        | Some name_buf \<Rightarrow>
            let (handle, s1) = create_semaphore initial mx s;
                (ok, m') = gm_write E out (u32_bytes handle) (sema_mem s1);
                s2 = s1\<lparr>sema_mem := m'\<rparr> in
            if \<not> ok
            then (SCE_EFAULT, s2\<lparr>kernel_semaphores := (kernel_semaphores s2)(handle := None)\<rparr>)
            else (SCE_OK, s2)))"

definition hle_delete_sema :: "u64 list \<Rightarrow> 'm sema_state \<Rightarrow> u64 \<times> 'm sema_state" where
  "hle_delete_sema args s =
     (let handle = as_u32 (arg args 0) in
      case kernel_semaphores s handle of
        None \<Rightarrow> (SCE_ESRCH, s)
      | Some _ \<Rightarrow> (SCE_OK, wake_semaphore_waiters
          (s\<lparr>kernel_semaphores := (kernel_semaphores s)(handle := None)\<rparr>)))"

definition hle_signal_sema :: "u64 list \<Rightarrow> 'm sema_state \<Rightarrow> u64 \<times> 'm sema_state" where
  "hle_signal_sema args s =
     (let handle = as_u32 (arg args 0); signal = as_i32 (arg args 1) in
      case kernel_semaphores s handle of
        None \<Rightarrow> (SCE_ESRCH, s)
      | Some sem \<Rightarrow>
          if signal < 1 \<or> i32_sub (sem_max_count sem) signal < sem_count sem
          then (SCE_EINVAL, s)
          else (SCE_OK, wake_semaphore_waiters
            (s\<lparr>kernel_semaphores := (kernel_semaphores s)
               (handle \<mapsto> sem\<lparr>sem_count := i32_add (sem_count sem) signal\<rparr>)\<rparr>)))"

definition try_consume :: "u32 \<Rightarrow> int \<Rightarrow> u64 \<Rightarrow> 'm sema_state \<Rightarrow> u64 \<times> 'm sema_state" where
  "try_consume handle need unavailable_err s =
     (case kernel_semaphores s handle of
        None \<Rightarrow> (SCE_ESRCH, s)
      | Some sem \<Rightarrow>
          if need < 1 \<or> sem_max_count sem < need then (SCE_EINVAL, s)
          else if sem_count sem < need then (unavailable_err, s)
          else (SCE_OK, s\<lparr>kernel_semaphores := (kernel_semaphores s)
                 (handle \<mapsto> sem\<lparr>sem_count := i32_sub (sem_count sem) need\<rparr>)\<rparr>))"

definition hle_poll_sema :: "u64 list \<Rightarrow> 'm sema_state \<Rightarrow> u64 \<times> 'm sema_state" where
  "hle_poll_sema args s = try_consume (as_u32 (arg args 0)) (as_i32 (arg args 1)) SCE_EBUSY s"

text \<open>One turn of the loop of \<open>hle_wait\<close>.\<close>

definition sema_wait_turn ::
  "u32 \<Rightarrow> int \<Rightarrow> nat option \<Rightarrow> 'm sema_state slice \<Rightarrow> 'm sema_state
     \<Rightarrow> (u64, 'm sema_state) turn_result" where
  "sema_wait_turn handle need deadline t s =
     (if sl_terminating t then Returned SCE_OK s
      else let (attempt, s1) = try_consume handle need SCE_EBUSY (slice_entry t s) in
        if attempt \<noteq> SCE_EBUSY then Returned attempt s1
        else if guest_deadline_reached deadline (sl_now t) then Returned SCE_ETIMEDOUT s1
        else Slice_over s1)"

text \<open>\<open>now\<close> is the instant the deadline is computed from.\<close>

definition hle_wait_sema ::
  "'m mem_ops \<Rightarrow> nat \<Rightarrow> 'm sema_state slice list \<Rightarrow> u64 list \<Rightarrow> 'm sema_state
     \<Rightarrow> (u64 \<times> 'm sema_state) option" where
  "hle_wait_sema E now ts args s =
     (let handle = as_u32 (arg args 0); need = as_i32 (arg args 1); timeout_ptr = arg args 2;
          (fast, s1) = try_consume handle need SCE_EBUSY s in
      if fast \<noteq> SCE_EBUSY then Some (fast, s1)
      else (case read_deadline E timeout_ptr now (sema_mem s1) of
          None \<Rightarrow> Some (SCE_EFAULT, s1)
        | Some deadline \<Rightarrow> run_slices (sema_wait_turn handle need deadline) ts s1))"

definition clamp_i32 :: "int \<Rightarrow> int \<Rightarrow> int \<Rightarrow> int" where
  "clamp_i32 x lo hi = (if x < lo then lo else if hi < x then hi else x)"

definition hle_cancel_sema :: "'m mem_ops \<Rightarrow> u64 list \<Rightarrow> 'm sema_state \<Rightarrow> u64 \<times> 'm sema_state" where
  "hle_cancel_sema E args s =
     (let handle = as_u32 (arg args 0); set_count = as_i32 (arg args 1); waiter_out = arg args 2 in
      case kernel_semaphores s handle of
        None \<Rightarrow> (SCE_ESRCH, s)
      | Some sem \<Rightarrow>
          let (ok, m') = (if waiter_out = 0 then (True, sema_mem s)
                          else gm_write E waiter_out (u32_bytes 0) (sema_mem s));
              s1 = s\<lparr>sema_mem := m'\<rparr> in
          if \<not> ok then (SCE_EFAULT, s1)
          else (SCE_OK, wake_semaphore_waiters
            (s1\<lparr>kernel_semaphores := (kernel_semaphores s1)
               (handle \<mapsto> sem\<lparr>sem_count := clamp_i32 set_count 0 (sem_max_count sem)\<rparr>)\<rparr>)))"

section \<open>Bounds\<close>

definition semaphore_ok :: "semaphore \<Rightarrow> bool" where
  "semaphore_ok sem \<longleftrightarrow> 0 \<le> sem_count sem \<and> sem_count sem \<le> sem_max_count sem
     \<and> 0 < sem_max_count sem \<and> sem_max_count sem < 2147483648"

definition semas_ok :: "(u32 \<rightharpoonup> semaphore) \<Rightarrow> bool" where
  "semas_ok tbl \<longleftrightarrow> (\<forall>h sem. tbl h = Some sem \<longrightarrow> semaphore_ok sem)"

abbreviation sema_ok :: "'m sema_state \<Rightarrow> bool" where
  "sema_ok s \<equiv> semas_ok (kernel_semaphores s)"

lemma sema_okD: "semas_ok tbl \<Longrightarrow> tbl h = Some sem \<Longrightarrow> semaphore_ok sem"
  by (simp add: semas_ok_def)

lemma semas_ok_insert [simp]: "semas_ok tbl \<Longrightarrow> semaphore_ok sem \<Longrightarrow> semas_ok (tbl(h \<mapsto> sem))"
  by (simp add: semas_ok_def)

lemma semas_ok_delete [simp]: "semas_ok tbl \<Longrightarrow> semas_ok (tbl(h := None))"
  by (simp add: semas_ok_def)

lemma wake_semaphores [simp]: "kernel_semaphores (wake_semaphore_waiters s) = kernel_semaphores s"
  by (simp add: wake_semaphore_waiters_def)

lemma create_semaphore_ok:
  "sema_ok s \<Longrightarrow> 0 \<le> i \<Longrightarrow> i \<le> mx \<Longrightarrow> 0 < mx \<Longrightarrow> mx < 2147483648 \<Longrightarrow>
     sema_ok (snd (create_semaphore i mx s))"
  by (simp add: create_semaphore_def Let_def semaphore_ok_def)

lemma hle_create_sema_ok:
  assumes "sema_ok s" shows "sema_ok (snd (hle_create_sema E args s))"
proof -
  let ?i = "as_i32 (arg args 3)" and ?mx = "as_i32 (arg args 4)"
  have "?mx < 2147483648" using as_i32_range [of "arg args 4"] by (simp add: i32_range_def)
  then have "\<not> (?i < 0 \<or> ?mx \<le> 0 \<or> ?mx < ?i) \<Longrightarrow> sema_ok (snd (create_semaphore ?i ?mx s))"
    using create_semaphore_ok [OF assms] by auto
  then show ?thesis using assms
    by (auto simp: hle_create_sema_def Let_def split: option.splits prod.splits)
qed

lemma hle_delete_sema_ok: "sema_ok s \<Longrightarrow> sema_ok (snd (hle_delete_sema args s))"
  by (auto simp: hle_delete_sema_def Let_def split: option.splits)

text \<open>Inside the bounds no \<open>i32\<close> operation of the handlers wraps.\<close>

lemma signal_cases:
  assumes "sema_ok s"
  shows "hle_signal_sema args s =
     (case kernel_semaphores s (as_u32 (arg args 0)) of
        None \<Rightarrow> (SCE_ESRCH, s)
      | Some sem \<Rightarrow>
          if as_i32 (arg args 1) < 1 \<or> sem_max_count sem < sem_count sem + as_i32 (arg args 1)
          then (SCE_EINVAL, s)
          else (SCE_OK, wake_semaphore_waiters (s\<lparr>kernel_semaphores := (kernel_semaphores s)
             (as_u32 (arg args 0) \<mapsto>
                sem\<lparr>sem_count := sem_count sem + as_i32 (arg args 1)\<rparr>)\<rparr>)))"
proof (cases "kernel_semaphores s (as_u32 (arg args 0))")
  case (Some sem)
  let ?n = "as_i32 (arg args 1)"
  have b: "semaphore_ok sem" using sema_okD [OF assms Some] .
  have n: "?n < 2147483648" using as_i32_range [of "arg args 1"] by (simp add: i32_range_def)
  show ?thesis
  proof (cases "?n < 1")
    case False
    have "i32_sub (sem_max_count sem) ?n = sem_max_count sem - ?n"
      using b n False by (intro i32_sub_id) (auto simp: i32_range_def semaphore_ok_def)
    moreover have "sem_count sem + ?n \<le> sem_max_count sem \<Longrightarrow>
        i32_add (sem_count sem) ?n = sem_count sem + ?n"
      using b n False by (intro i32_add_id) (auto simp: i32_range_def semaphore_ok_def)
    ultimately show ?thesis using Some by (auto simp: hle_signal_sema_def Let_def)
  qed (simp add: hle_signal_sema_def Let_def Some)
qed (simp add: hle_signal_sema_def Let_def)

lemma hle_signal_sema_ok: "sema_ok s \<Longrightarrow> sema_ok (snd (hle_signal_sema args s))"
  using sema_okD [of "kernel_semaphores s" "as_u32 (arg args 0)"]
  by (auto simp: signal_cases semaphore_ok_def split: option.splits intro!: semas_ok_insert)

lemma consume_cases:
  assumes "sema_ok s"
  shows "try_consume h need err s =
     (case kernel_semaphores s h of
        None \<Rightarrow> (SCE_ESRCH, s)
      | Some sem \<Rightarrow>
          if need < 1 \<or> sem_max_count sem < need then (SCE_EINVAL, s)
          else if sem_count sem < need then (err, s)
          else (SCE_OK, s\<lparr>kernel_semaphores := (kernel_semaphores s)
                 (h \<mapsto> sem\<lparr>sem_count := sem_count sem - need\<rparr>)\<rparr>))"
proof (cases "kernel_semaphores s h")
  case (Some sem)
  have b: "semaphore_ok sem" using sema_okD [OF assms Some] .
  have "\<not> (need < 1 \<or> sem_max_count sem < need) \<Longrightarrow> \<not> sem_count sem < need \<Longrightarrow>
      i32_sub (sem_count sem) need = sem_count sem - need"
    using b by (intro i32_sub_id) (auto simp: i32_range_def semaphore_ok_def)
  then show ?thesis using Some by (auto simp: try_consume_def)
qed (simp add: try_consume_def)

lemma try_consume_ok: "sema_ok s \<Longrightarrow> sema_ok (snd (try_consume h need err s))"
  using sema_okD [of "kernel_semaphores s" h]
  by (auto simp: consume_cases semaphore_ok_def split: option.splits intro!: semas_ok_insert)

lemma hle_cancel_sema_ok: "sema_ok s \<Longrightarrow> sema_ok (snd (hle_cancel_sema E args s))"
  using sema_okD [of "kernel_semaphores s" "as_u32 (arg args 0)"]
  by (auto simp: hle_cancel_sema_def Let_def semaphore_ok_def clamp_i32_def
      split: option.splits prod.splits intro!: semas_ok_insert)

lemma sema_turn_ok:
  assumes "slices_keep sema_ok ts" and "t \<in> set ts" and "sema_ok s"
  shows "sema_wait_turn h need dl t s = Returned r s' \<Longrightarrow> sema_ok s'"
    and "sema_wait_turn h need dl t s = Slice_over s' \<Longrightarrow> sema_ok s'"
  using try_consume_ok [OF slice_entry_keeps [OF assms], of h need SCE_EBUSY] assms(3)
  by (auto simp: sema_wait_turn_def split: if_splits prod.splits)

lemma hle_wait_sema_ok:
  assumes "slices_keep sema_ok ts" and "sema_ok s"
    and "hle_wait_sema E now ts args s = Some (r, s')"
  shows "sema_ok s'"
proof -
  let ?h = "as_u32 (arg args 0)" and ?n = "as_i32 (arg args 1)"
  obtain fast s1 where f: "try_consume ?h ?n SCE_EBUSY s = (fast, s1)" by fastforce
  have s1: "sema_ok s1" using try_consume_ok [OF assms(2), of ?h ?n SCE_EBUSY] f by simp
  have "run_slices (sema_wait_turn ?h ?n dl) ts s1 = Some (r, s') \<Longrightarrow> sema_ok s'" for dl
    by (erule run_slices_invariant [rotated 3]) (use sema_turn_ok [OF assms(1)] s1 in blast)+
  then show ?thesis using assms(3) f s1
    by (auto simp: hle_wait_sema_def split: if_splits option.splits)
qed

section \<open>Instances of the contracts\<close>

definition sema_count :: "u32 \<Rightarrow> 'm sema_state \<Rightarrow> int option" where
  "sema_count h s = map_option sem_count (kernel_semaphores s h)"

definition sema_take :: "u32 \<Rightarrow> int \<Rightarrow> 'm sema_state \<Rightarrow> bool \<times> 'm sema_state" where
  "sema_take h n s = (if i32_range n
     then let (r, s') = hle_poll_sema [u32_to_u64 h, i32_to_u64 n] s in (r = SCE_OK, s')
     else (False, s))"

definition sema_give :: "u32 \<Rightarrow> int \<Rightarrow> 'm sema_state \<Rightarrow> bool \<times> 'm sema_state" where
  "sema_give h n s = (if i32_range n
     then let (r, s') = hle_signal_sema [u32_to_u64 h, i32_to_u64 n] s in (r = SCE_OK, s')
     else (False, s))"

interpretation ksem: counting_semaphore sema_ok sema_count sema_take sema_give
proof unfold_locales
  fix s s' :: "'m sema_state" and h g :: u32 and c n :: int and r :: bool
  assume ok: "sema_ok s"
  show "sema_count h s = Some c \<Longrightarrow> 0 \<le> c"
    using sema_okD [OF ok] by (auto simp: sema_count_def semaphore_ok_def)
  show "sema_take h n s = (r, s') \<Longrightarrow> sema_ok s'"
    using try_consume_ok [OF ok, of h n SCE_EBUSY] ok
    by (auto simp: sema_take_def hle_poll_sema_def split: if_splits prod.splits)
  show "sema_give h n s = (r, s') \<Longrightarrow> sema_ok s'"
    using hle_signal_sema_ok [OF ok, of "[u32_to_u64 h, i32_to_u64 n]"] ok
    by (auto simp: sema_give_def split: if_splits prod.splits)
  show "sema_count h s = Some c \<Longrightarrow> sema_take h n s = (True, s') \<Longrightarrow> sema_count h s' = Some (c - n)"
    by (auto simp: sema_take_def sema_count_def hle_poll_sema_def consume_cases [OF ok]
        split: if_splits prod.splits option.splits)
  show "sema_take h n s = (False, s') \<Longrightarrow> sema_count g s' = sema_count g s"
    by (auto simp: sema_take_def hle_poll_sema_def consume_cases [OF ok]
        split: if_splits prod.splits option.splits)
  show "sema_count h s = Some c \<Longrightarrow> sema_give h n s = (True, s') \<Longrightarrow> sema_count h s' = Some (c + n)"
    by (auto simp: sema_give_def sema_count_def signal_cases [OF ok] wake_semaphore_waiters_def
        split: if_splits prod.splits option.splits)
  show "sema_give h n s = (False, s') \<Longrightarrow> sema_count g s' = sema_count g s"
    by (auto simp: sema_give_def signal_cases [OF ok] split: if_splits prod.splits option.splits)
qed

lemma try_consume_results:
  "try_consume h n SCE_EBUSY s = (r, s') \<Longrightarrow> r \<in> {SCE_OK, SCE_ESRCH, SCE_EINVAL, SCE_EBUSY}"
  by (auto simp: try_consume_def split: option.splits if_splits)

interpretation ksem_wait: sliced_wait "sema_wait_turn h need" SCE_ETIMEDOUT due_now
proof unfold_locales
  fix dl and t :: "'m sema_state slice" and s s'
  have "try_consume h need SCE_EBUSY x \<noteq> (SCE_ETIMEDOUT, y)" for x y :: "'m sema_state"
    using try_consume_results [of h need x SCE_ETIMEDOUT y] by auto
  then show "sema_wait_turn h need dl t s = Returned SCE_ETIMEDOUT s' \<Longrightarrow>
      guest_deadline_reached dl (sl_now t)"
    by (auto simp: sema_wait_turn_def split: if_splits prod.splits)
  show "sema_wait_turn h need dl t s = Slice_over s' \<Longrightarrow> \<not> due_now dl t"
    by (auto simp: sema_wait_turn_def due_now_def split: if_splits prod.splits)
qed

section \<open>Properties\<close>

text \<open>C4: conservation: over any run of \<open>sceKernelPollSema\<close> and
  \<open>sceKernelSignalSema\<close> calls on one semaphore, the final count is the initial
  count plus the units of the successful signals minus the units of the
  successful takes, never negative, and every semaphore stays within
  \<open>0..max_count\<close>.\<close>

theorem sema_conservation:
  assumes "sema_ok s" and "sema_count h s = Some c" and "sem_run sema_take sema_give h xs s = (d, s')"
  shows "sema_ok s' \<and> sema_count h s' = Some (c + d) \<and> 0 \<le> c + d"
  using assms by (rule ksem.conservation)

definition demo_sema :: "byte list sema_state" where
  "demo_sema = \<lparr>sema_mem = replicate 64 0,
     kernel_semaphores = [1 \<mapsto> \<lparr>sem_count = 2, sem_max_count = 5\<rparr>],
     kernel_semaphore_next = 2, semaphore_wakes = 0\<rparr>"

lemma demo_sema_ok: "sema_ok demo_sema" "sema_count 1 demo_sema = Some 2"
  by (auto simp: demo_sema_def semas_ok_def semaphore_ok_def sema_count_def split: if_splits)

theorem sema_conservation_witness:
  "sema_count 1 (snd (sem_run sema_take sema_give 1 [Take 2, Take 1, Give 4, Give 4, Take 3] demo_sema))
     = Some (2 + fst (sem_run sema_take sema_give 1 [Take 2, Take 1, Give 4, Give 4, Take 3] demo_sema))"
  using sema_conservation [OF demo_sema_ok surjective_pairing] by blast

text \<open>Every semaphore call, on any arguments, keeps all counts within
  \<open>0 \<le> count \<le> max_count < 2^31\<close>; the blocking wait keeps it whenever the
  other threads and the delivered exception handlers do.\<close>

theorem sema_calls_keep_bounds:
  assumes "sema_ok s"
  shows "sema_ok (snd (hle_create_sema E args s)) \<and> sema_ok (snd (hle_delete_sema args s))
    \<and> sema_ok (snd (hle_signal_sema args s)) \<and> sema_ok (snd (hle_poll_sema args s))
    \<and> sema_ok (snd (hle_cancel_sema E args s))
    \<and> (\<forall>ts now r s'. slices_keep (\<lambda>s. sema_ok s) ts \<longrightarrow> hle_wait_sema E now ts args s = Some (r, s')
        \<longrightarrow> sema_ok s')"
  using hle_create_sema_ok [OF assms] hle_delete_sema_ok [OF assms] hle_signal_sema_ok [OF assms]
    try_consume_ok [OF assms] hle_cancel_sema_ok [OF assms] hle_wait_sema_ok [OF _ assms]
  by (simp add: hle_poll_sema_def)

theorem sema_calls_keep_bounds_witness:
  "sema_ok (snd (hle_signal_sema [1, 3] demo_sema)) \<and> sema_ok (snd (hle_poll_sema [1, 9] demo_sema))"
  using sema_calls_keep_bounds [OF demo_sema_ok(1), of test_memory] by blast

text \<open>The timeout of \<open>sceKernelWaitSema\<close> is the guest's: a \<open>NULL\<close> timeout
  never yields \<open>ETIMEDOUT\<close> however many slices expire, a finite one yields it
  only at a turn whose clock has reached the deadline, and the wait does return
  once a turn sees the deadline or teardown.\<close>

theorem sema_wait_timeout:
  assumes "try_consume (as_u32 (arg args 0)) (as_i32 (arg args 1)) SCE_EBUSY s = (SCE_EBUSY, s)"
    and "read_deadline E (arg args 2) now (sema_mem s) = Some dl"
  shows "(\<forall>s'. hle_wait_sema E now ts args s = Some (SCE_ETIMEDOUT, s') \<longrightarrow>
      (\<exists>d. dl = Some d \<and> (\<exists>t\<in>set ts. d \<le> sl_now t)))
    \<and> ((\<exists>t\<in>set ts. guest_deadline_reached dl (sl_now t) \<or> sl_terminating t) \<longrightarrow>
        hle_wait_sema E now ts args s \<noteq> None)
    \<and> (arg args 2 = 0 \<longrightarrow> (\<forall>s'. hle_wait_sema E now ts args s \<noteq> Some (SCE_ETIMEDOUT, s')))"
proof -
  let ?h = "as_u32 (arg args 0)" and ?n = "as_i32 (arg args 1)"
  have w: "hle_wait_sema E now ts args s = run_slices (sema_wait_turn ?h ?n dl) ts s"
    using assms by (simp add: hle_wait_sema_def)
  have "sema_wait_turn ?h ?n dl t x \<noteq> Still_parked" for t and x :: "'a sema_state"
    by (simp add: sema_wait_turn_def split: prod.splits)
  then have "run_slices (sema_wait_turn ?h ?n dl) ts s \<noteq> None"
    if "\<exists>t\<in>set ts. guest_deadline_reached dl (sl_now t) \<or> sl_terminating t"
    using that ksem_wait.returns_when_due [unfolded due_now_def] by blast
  moreover have "dl = None" if "arg args 2 = 0" using assms(2) that by (simp add: read_deadline_def)
  ultimately show ?thesis
    using w ksem_wait.timeout_at_deadline [of ?h ?n dl ts s] by (metis option.distinct(1))
qed

theorem sema_wait_timeout_witness:
  "hle_wait_sema test_memory 0 [idle_slice 100000000, idle_slice 200000000] [1, 4, 0] demo_sema
     \<noteq> Some (SCE_ETIMEDOUT, demo_sema)"
proof -
  have "try_consume (as_u32 (arg [1, 4, 0] 0)) (as_i32 (arg [1, 4, 0] 1)) SCE_EBUSY demo_sema
      = (SCE_EBUSY, demo_sema)"
    by (simp add: try_consume_def demo_sema_def as_u32_def as_i32_def)
  moreover have "read_deadline test_memory (arg [1, 4, 0] 2) 0 (sema_mem demo_sema) = Some None"
    by (simp add: read_deadline_def)
  ultimately show ?thesis
    using sema_wait_timeout [of "[1, 4, 0]" demo_sema test_memory 0 None] by simp
qed

text \<open>C5: a parked \<open>sceKernelWaitSema\<close> is satisfied by the signal it waits for
  and never leaves a deleted semaphore hanging: if during a slice another thread
  signals enough units the wait returns \<open>OK\<close> at that turn having taken exactly
  its units, even when the deadline has passed too; if another thread deletes
  the semaphore it returns \<open>ESRCH\<close>.\<close>

theorem sema_signal_unblocks:
  assumes "sema_ok s" and "kernel_semaphores s h = Some sem"
    and "sem_count sem < need" and "need \<le> sem_count sem + n"
    and "1 \<le> n" and "sem_count sem + n \<le> sem_max_count sem"
  shows "run_slices (sema_wait_turn h need dl)
      (\<lparr>sl_others = \<lambda>s. snd (hle_signal_sema [u32_to_u64 h, i32_to_u64 n] s),
        sl_terminating = False, sl_pending = False, sl_deliver = f, sl_now = now\<rparr> # ts) s
    = Some (SCE_OK, wake_semaphore_waiters (s\<lparr>kernel_semaphores := (kernel_semaphores s)
        (h \<mapsto> sem\<lparr>sem_count := sem_count sem + n - need\<rparr>)\<rparr>))
   \<and> fst (hle_delete_sema [u32_to_u64 h] s) = SCE_OK
   \<and> fst (the (run_slices (sema_wait_turn h need dl)
      (\<lparr>sl_others = \<lambda>s. snd (hle_delete_sema [u32_to_u64 h] s),
        sl_terminating = False, sl_pending = False, sl_deliver = f, sl_now = now\<rparr> # ts) s)) = SCE_ESRCH"
proof -
  have b: "semaphore_ok sem" using sema_okD [OF assms(1,2)] .
  have n: "i32_range n" using b assms(5,6) by (auto simp: i32_range_def semaphore_ok_def)
  let ?s1 = "wake_semaphore_waiters (s\<lparr>kernel_semaphores := (kernel_semaphores s)
      (h \<mapsto> sem\<lparr>sem_count := sem_count sem + n\<rparr>)\<rparr>)"
  have sig: "hle_signal_sema [u32_to_u64 h, i32_to_u64 n] s = (SCE_OK, ?s1)"
    using assms n by (simp add: signal_cases)
  have "sema_ok ?s1" using hle_signal_sema_ok [OF assms(1)] sig by (metis snd_conv)
  then have "try_consume h need SCE_EBUSY ?s1 = (SCE_OK, wake_semaphore_waiters (s\<lparr>kernel_semaphores :=
      (kernel_semaphores s)(h \<mapsto> sem\<lparr>sem_count := sem_count sem + n - need\<rparr>)\<rparr>))"
    using assms b by (simp add: consume_cases semaphore_ok_def) (simp add: wake_semaphore_waiters_def)
  then show ?thesis using sig assms(2)
    by (simp add: sema_wait_turn_def slice_entry_def deliver_at_wait_slice_def hle_delete_sema_def
        try_consume_def)
qed

theorem sema_signal_unblocks_witness:
  "\<exists>s'. run_slices (sema_wait_turn 1 4 None)
     [\<lparr>sl_others = \<lambda>s. snd (hle_signal_sema [u32_to_u64 1, i32_to_u64 3] s),
       sl_terminating = False, sl_pending = False, sl_deliver = id, sl_now = 0\<rparr>] demo_sema
     = Some (SCE_OK, s')"
  using sema_signal_unblocks [OF demo_sema_ok(1), of 1 "\<lparr>sem_count = 2, sem_max_count = 5\<rparr>" 4 3 None id 0 "[]"]
  by (simp add: demo_sema_def)

text \<open>No lost wake: whenever signal, delete or cancel changes the table of
  semaphores it issues a wake, and when one of them fails it changes no
  semaphore.\<close>

theorem sema_changes_wake:
  "\<forall>r s'. (r, s') \<in> {hle_signal_sema args s, hle_delete_sema args s, hle_cancel_sema E args s} \<longrightarrow>
     (if r = SCE_OK then semaphore_wakes s' = semaphore_wakes s + 1
      else kernel_semaphores s' = kernel_semaphores s \<and> semaphore_wakes s' = semaphore_wakes s)"
  by (auto simp: hle_signal_sema_def hle_delete_sema_def hle_cancel_sema_def Let_def
      wake_semaphore_waiters_def split: option.splits if_splits prod.splits)

theorem sema_changes_wake_witness:
  "hle_delete_sema [1] demo_sema = (SCE_OK, snd (hle_delete_sema [1] demo_sema))
    \<and> semaphore_wakes (snd (hle_delete_sema [1] demo_sema)) = semaphore_wakes demo_sema + 1"
proof -
  have "hle_delete_sema [1] demo_sema = (SCE_OK, snd (hle_delete_sema [1] demo_sema))"
    by (simp add: hle_delete_sema_def demo_sema_def as_u32_def)
  then show ?thesis
    using sema_changes_wake [of "[1]" demo_sema test_memory, rule_format,
        of SCE_OK "snd (hle_delete_sema [1] demo_sema)"] by simp
qed

end
