(* ===== verification/Event_Flag.thy ===== *)
theory Event_Flag
  imports Wait_Slices
begin

text \<open>
  The libkernel event flags (\<open>crates/raeen-hle/src/kernel_eventflag.rs\<close> over
  the \<open>EventSubsystem\<close> and \<open>WaitSubsystem\<close> of
  \<open>crates/raeen-kernel/src/lib.rs\<close>): 64 condition bits per flag that are set,
  kept, replaced, polled and waited for, with a bounded table of flags.
\<close>

section \<open>State\<close>

record event_flag =
  ef_bits :: u64
  ef_attributes :: u32

text \<open>\<open>flag_notifies\<close> counts the \<open>notify_all\<close> calls on the shared condition
  variable \<open>event_flag_signal\<close>.\<close>

record 'm flag_state =
  flag_mem :: 'm
  kernel_event_flags :: "u64 \<rightharpoonup> event_flag"
  kernel_event_flag_next :: u64
  kernel_event_flag_live :: u32
  flag_notifies :: nat

datatype event_update = Set_bits u64 | Keep_bits u64 | Replace_bits u64

section \<open>The kernel's event table\<close>

abbreviation MAX_EVENT_FLAGS :: u32 where "MAX_EVENT_FLAGS \<equiv> 4096"

definition try_claim_slot :: "u32 \<Rightarrow> u32 \<Rightarrow> u32 option" where
  "try_claim_slot live limit = (if live < limit then Some (live + 1) else None)"

definition create_event_flag ::
  "u32 \<Rightarrow> u64 \<Rightarrow> 'm flag_state \<Rightarrow> u64 option \<times> 'm flag_state" where
  "create_event_flag attributes initial_bits s =
     (case try_claim_slot (kernel_event_flag_live s) MAX_EVENT_FLAGS of
        None \<Rightarrow> (None, s)
      | Some live \<Rightarrow>
          let handle = kernel_event_flag_next s in
          (Some handle, s\<lparr>kernel_event_flag_live := live,
             kernel_event_flag_next := handle + 1,
             kernel_event_flags := (kernel_event_flags s)
               (handle \<mapsto> \<lparr>ef_bits = initial_bits, ef_attributes = attributes\<rparr>)\<rparr>))"

definition delete_event :: "u64 \<Rightarrow> 'm flag_state \<Rightarrow> bool \<times> 'm flag_state" where
  "delete_event handle s =
     (case kernel_event_flags s handle of
        None \<Rightarrow> (False, s)
      | Some _ \<Rightarrow> (True, s\<lparr>kernel_event_flags := (kernel_event_flags s)(handle := None),
          kernel_event_flag_live := kernel_event_flag_live s - 1\<rparr>))"

fun updated_bits :: "event_update \<Rightarrow> u64 \<Rightarrow> u64" where
  "updated_bits (Set_bits pattern) bits = or bits pattern"
| "updated_bits (Keep_bits pattern) bits = and bits pattern"
| "updated_bits (Replace_bits pattern) bits = pattern"

definition update_event :: "u64 \<Rightarrow> event_update \<Rightarrow> 'm flag_state \<Rightarrow> u64 option \<times> 'm flag_state" where
  "update_event handle u s =
     (case kernel_event_flags s handle of
        None \<Rightarrow> (None, s)
      | Some ef \<Rightarrow>
          let bits = updated_bits u (ef_bits ef) in
          (Some bits, s\<lparr>kernel_event_flags := (kernel_event_flags s)
             (handle \<mapsto> ef\<lparr>ef_bits := bits\<rparr>)\<rparr>))"

definition event_bits :: "u64 \<Rightarrow> 'm flag_state \<Rightarrow> u64 option" where
  "event_bits handle s = map_option ef_bits (kernel_event_flags s handle)"

definition flag_wake :: "'m flag_state \<Rightarrow> 'm flag_state" where
  "flag_wake s = s\<lparr>flag_notifies := flag_notifies s + 1\<rparr>"

section \<open>Attribute and mode checks\<close>

definition valid_attributes :: "u32 \<Rightarrow> bool" where
  "valid_attributes attr \<longleftrightarrow>
     (let queue = and attr 0x0F; thread = and attr 0xF0 in
      queue \<le> 2 \<and> (thread = 0 \<or> thread = 0x10 \<or> thread = 0x20) \<and> and attr (not 0x33) = 0)"

abbreviation WAIT_AND :: u64 where "WAIT_AND \<equiv> 0x01"
abbreviation WAIT_OR :: u64 where "WAIT_OR \<equiv> 0x02"
abbreviation CLEAR_ALL :: u64 where "CLEAR_ALL \<equiv> 0x10"
abbreviation CLEAR_PATTERN :: u64 where "CLEAR_PATTERN \<equiv> 0x20"

definition valid_wait_mode :: "u64 \<Rightarrow> bool" where
  "valid_wait_mode mode \<longleftrightarrow>
     (let cond = and mode 0x0F; clear = and mode 0xF0 in
      (cond = WAIT_AND \<or> cond = WAIT_OR)
      \<and> (clear = 0 \<or> clear = CLEAR_ALL \<or> clear = CLEAR_PATTERN) \<and> and mode (not 0x33) = 0)"

definition is_satisfied :: "u64 \<Rightarrow> u64 \<Rightarrow> u64 \<Rightarrow> bool" where
  "is_satisfied bits pattern mode =
     (if and mode 0x0F = WAIT_AND then and bits pattern = pattern else and bits pattern \<noteq> 0)"

definition apply_clear :: "u64 \<Rightarrow> u64 \<Rightarrow> u64 \<Rightarrow> u64" where
  "apply_clear bits pattern mode =
     (if and mode 0xF0 = CLEAR_ALL then 0
      else if and mode 0xF0 = CLEAR_PATTERN then and bits (not pattern)
      else bits)"

section \<open>Handlers\<close>

definition hle_create_flag :: "'m mem_ops \<Rightarrow> u64 list \<Rightarrow> 'm flag_state \<Rightarrow> u64 \<times> 'm flag_state" where
  "hle_create_flag E args s =
     (let out = arg args 0; name_ptr = arg args 1; attr = as_u32 (arg args 2);
          initial = arg args 3; opt = arg args 4 in
      if out = 0 \<or> name_ptr = 0 \<or> opt \<noteq> 0 \<or> \<not> valid_attributes attr then (SCE_EINVAL, s)
      else (case gm_read E name_ptr 33 (flag_mem s) of
          None \<Rightarrow> (SCE_EFAULT, s)
        | Some name_buf \<Rightarrow>
            if 0 \<notin> set name_buf then (SCE_EINVAL, s)
            else (case create_event_flag attr initial s of
                (None, s1) \<Rightarrow> (SCE_ENOMEM, s1)
              | (Some handle, s1) \<Rightarrow>
                  let (ok, m') = gm_write E out (u64_bytes handle) (flag_mem s1);
                      s2 = s1\<lparr>flag_mem := m'\<rparr> in
                  if \<not> ok then (SCE_EFAULT, snd (delete_event handle s2))
                  else (SCE_OK, s2))))"

definition hle_delete_flag :: "u64 list \<Rightarrow> 'm flag_state \<Rightarrow> u64 \<times> 'm flag_state" where
  "hle_delete_flag args s =
     (let (removed, s1) = delete_event (arg args 0) s in
      if \<not> removed then (SCE_ESRCH, s1) else (SCE_OK, flag_wake s1))"

definition hle_set_flag :: "u64 list \<Rightarrow> 'm flag_state \<Rightarrow> u64 \<times> 'm flag_state" where
  "hle_set_flag args s =
     (case update_event (arg args 0) (Set_bits (arg args 1)) s of
        (None, s1) \<Rightarrow> (SCE_ESRCH, s1)
      | (Some _, s1) \<Rightarrow> (SCE_OK, flag_wake s1))"

definition hle_clear_flag :: "u64 list \<Rightarrow> 'm flag_state \<Rightarrow> u64 \<times> 'm flag_state" where
  "hle_clear_flag args s =
     (case update_event (arg args 0) (Keep_bits (arg args 1)) s of
        (None, s1) \<Rightarrow> (SCE_ESRCH, s1)
      | (Some _, s1) \<Rightarrow> (SCE_OK, flag_wake s1))"

definition poll_or_wait ::
  "'m mem_ops \<Rightarrow> u64 list \<Rightarrow> u64 \<Rightarrow> 'm flag_state \<Rightarrow> u64 \<times> 'm flag_state" where
  "poll_or_wait E args unsatisfied_err s =
     (let handle = arg args 0; pattern = arg args 1; mode = arg args 2; result_ptr = arg args 3 in
      case kernel_event_flags s handle of
        None \<Rightarrow> (SCE_ESRCH, s)
      | Some ef \<Rightarrow>
          if pattern = 0 \<or> \<not> valid_wait_mode mode then (SCE_EINVAL, s)
          else let (ok, m') = (if result_ptr = 0 then (True, flag_mem s)
                     else gm_write E result_ptr (u64_bytes (ef_bits ef)) (flag_mem s));
                   s1 = s\<lparr>flag_mem := m'\<rparr> in
            if \<not> ok then (SCE_EFAULT, s1)
            else if \<not> is_satisfied (ef_bits ef) pattern mode then (unsatisfied_err, s1)
            else (SCE_OK, s1\<lparr>kernel_event_flags := (kernel_event_flags s1)
                    (handle \<mapsto> ef\<lparr>ef_bits := apply_clear (ef_bits ef) pattern mode\<rparr>)\<rparr>))"

definition hle_poll_flag :: "'m mem_ops \<Rightarrow> u64 list \<Rightarrow> 'm flag_state \<Rightarrow> u64 \<times> 'm flag_state" where
  "hle_poll_flag E args s = poll_or_wait E args SCE_EBUSY s"

text \<open>The \<open>ready\<close> closure of \<open>hle_wait\<close>; the cells are \<open>write_failed\<close> and
  \<open>deleted\<close>.\<close>

definition flag_ready ::
  "'m mem_ops \<Rightarrow> u64 \<Rightarrow> u64 \<Rightarrow> u64 \<Rightarrow> u64 \<Rightarrow> 'm flag_state \<Rightarrow> (bool \<times> bool \<times> bool) \<times> 'm flag_state" where
  "flag_ready E handle pattern mode result_ptr s =
     (case kernel_event_flags s handle of
        None \<Rightarrow> ((True, False, True), s)
      | Some ef \<Rightarrow>
          let (ok, m') = (if result_ptr = 0 then (True, flag_mem s)
                 else gm_write E result_ptr (u64_bytes (ef_bits ef)) (flag_mem s));
              s1 = s\<lparr>flag_mem := m'\<rparr> in
          if \<not> ok then ((True, True, False), s1)
          else if is_satisfied (ef_bits ef) pattern mode
          then ((True, False, False), s1\<lparr>kernel_event_flags := (kernel_event_flags s1)
                 (handle \<mapsto> ef\<lparr>ef_bits := apply_clear (ef_bits ef) pattern mode\<rparr>)\<rparr>)
          else ((False, False, False), s1))"

record 's flag_slice = "'s slice" +
  fs_wakes :: "'s wakeup list"

definition flag_slice_ns :: nat where "flag_slice_ns = 50000000"

definition flag_wait_turn ::
  "'m mem_ops \<Rightarrow> u64 \<Rightarrow> u64 \<Rightarrow> u64 \<Rightarrow> u64 \<Rightarrow> nat option \<Rightarrow> 'm flag_state flag_slice \<Rightarrow> 'm flag_state
     \<Rightarrow> (u64, 'm flag_state) turn_result" where
  "flag_wait_turn E handle pattern mode result_ptr deadline t s =
     (if sl_terminating t then Returned SCE_OK s
      else let s1 = slice_entry t s; now = sl_now t in
        if guest_deadline_reached deadline now then Returned SCE_ETIMEDOUT s1
        else (case wait_until now (park_slice deadline now flag_slice_ns)
                     (flag_ready E handle pattern mode result_ptr) (fs_wakes t) s1 of
            None \<Rightarrow> Still_parked
          | Some (outcome, (write_failed, deleted), s2) \<Rightarrow>
              if write_failed then Returned SCE_EFAULT s2
              else if deleted then Returned SCE_ESRCH s2
              else if outcome = Ready then Returned SCE_OK s2
              else Slice_over s2))"

definition hle_wait_flag ::
  "'m mem_ops \<Rightarrow> nat \<Rightarrow> 'm flag_state flag_slice list \<Rightarrow> u64 list \<Rightarrow> 'm flag_state
     \<Rightarrow> (u64 \<times> 'm flag_state) option" where
  "hle_wait_flag E now ts args s =
     (let handle = arg args 0; pattern = arg args 1; mode = arg args 2; result_ptr = arg args 3;
          timeout_ptr = arg args 4 in
      if pattern = 0 \<or> \<not> valid_wait_mode mode then Some (SCE_EINVAL, s)
      else if kernel_event_flags s handle = None then Some (SCE_ESRCH, s)
      else (case read_deadline E timeout_ptr now (flag_mem s) of
          None \<Rightarrow> Some (SCE_EFAULT, s)
        | Some deadline \<Rightarrow>
            run_slices (flag_wait_turn E handle pattern mode result_ptr deadline) ts s))"

definition hle_cancel_flag :: "'m mem_ops \<Rightarrow> u64 list \<Rightarrow> 'm flag_state \<Rightarrow> u64 \<times> 'm flag_state" where
  "hle_cancel_flag E args s =
     (let handle = arg args 0; set_pattern = arg args 1; waiter_out = arg args 2 in
      if event_bits handle s = None then (SCE_ESRCH, s)
      else let (ok, m') = (if waiter_out = 0 then (True, flag_mem s)
                 else gm_write E waiter_out (u32_bytes 0) (flag_mem s));
               s1 = s\<lparr>flag_mem := m'\<rparr> in
        if \<not> ok then (SCE_EFAULT, s1)
        else (SCE_OK, flag_wake (snd (update_event handle (Replace_bits set_pattern) s1))))"

section \<open>The table of flags\<close>

definition flags_ok :: "'m flag_state \<Rightarrow> bool" where
  "flags_ok s \<longleftrightarrow> finite (dom (kernel_event_flags s))
     \<and> unat (kernel_event_flag_live s) = card (dom (kernel_event_flags s))
     \<and> kernel_event_flag_live s \<le> MAX_EVENT_FLAGS
     \<and> (\<forall>h\<in>dom (kernel_event_flags s). h < kernel_event_flag_next s)"

lemma flags_ok_upd [simp]:
  "flags_ok (s\<lparr>flag_mem := m\<rparr>) = flags_ok s"
  "flags_ok (s\<lparr>flag_notifies := n\<rparr>) = flags_ok s"
  "flags_ok (flag_wake s) = flags_ok s"
  by (simp_all add: flags_ok_def flag_wake_def)

lemma flags_ok_update:
  "flags_ok s \<Longrightarrow> kernel_event_flags s h = Some ef \<Longrightarrow>
     flags_ok (s\<lparr>kernel_event_flags := (kernel_event_flags s)(h \<mapsto> g)\<rparr>)"
  by (auto simp: flags_ok_def insert_absorb domIff)

lemma create_event_flag_ok:
  assumes "flags_ok s" and "kernel_event_flag_next s < U64_MAX"
  shows "flags_ok (snd (create_event_flag a b s))"
proof (cases "kernel_event_flag_live s < MAX_EVENT_FLAGS")
  case True
  let ?h = "kernel_event_flag_next s" and ?D = "dom (kernel_event_flags s)"
  have fresh: "?h \<notin> ?D" using assms(1) by (auto simp: flags_ok_def)
  have l: "unat (kernel_event_flag_live s + 1) = unat (kernel_event_flag_live s) + 1"
    using True by (subst unat_plus_if') (simp add: word_less_nat_alt)
  have n: "?h < ?h + 1"
    using assms(2) by (simp add: word_less_nat_alt unat_add_no_wrap)
  have "\<forall>h\<in>insert ?h ?D. h < ?h + 1"
    using n assms(1) by (auto simp: flags_ok_def intro: order.strict_trans)
  moreover have "kernel_event_flag_live s + 1 \<le> MAX_EVENT_FLAGS"
    using True l by (simp add: word_le_nat_alt word_less_nat_alt)
  ultimately show ?thesis using assms(1) True fresh l
    by (simp add: create_event_flag_def try_claim_slot_def Let_def flags_ok_def)
qed (simp add: create_event_flag_def try_claim_slot_def assms(1))

lemma delete_event_ok:
  assumes "flags_ok s" shows "flags_ok (snd (delete_event h s))"
proof (cases "kernel_event_flags s h")
  case (Some ef)
  let ?D = "dom (kernel_event_flags s)"
  have D: "h \<in> ?D" "finite ?D" "unat (kernel_event_flag_live s) = card ?D"
    using assms Some by (auto simp: flags_ok_def)
  then have "0 < card ?D" by (auto simp: card_gt_0_iff)
  then have "1 \<le> kernel_event_flag_live s" using D(3) by (simp add: word_le_nat_alt)
  then have l: "unat (kernel_event_flag_live s - 1) = card ?D - 1"
    using D(3) by (simp add: unat_sub)
  moreover have "kernel_event_flag_live s - 1 \<le> MAX_EVENT_FLAGS"
    using l assms D(3) by (auto simp: flags_ok_def word_le_nat_alt intro: order.trans diff_le_self)
  ultimately show ?thesis using assms Some D
    by (auto simp: delete_event_def flags_ok_def)
qed (simp add: delete_event_def assms)

lemma update_event_ok: "flags_ok s \<Longrightarrow> flags_ok (snd (update_event h u s))"
  by (auto simp: update_event_def Let_def intro: flags_ok_update split: option.splits)

lemma hle_create_flag_ok:
  assumes "flags_ok s" and "kernel_event_flag_next s < U64_MAX"
  shows "flags_ok (snd (hle_create_flag E args s))"
proof -
  have "flags_ok s1" if "create_event_flag a b s = (r, s1)" for a b r s1
    using create_event_flag_ok [OF assms, of a b] that by simp
  then show ?thesis using assms(1)
    by (auto simp: hle_create_flag_def Let_def delete_event_ok split: option.splits prod.splits)
qed

lemma flag_entry_ok:
  assumes "flags_ok s" and "kernel_event_flags s h = Some ef"
  shows "flags_ok (s\<lparr>flag_mem := m, kernel_event_flags := (kernel_event_flags s)(h \<mapsto> g)\<rparr>)"
  using flags_ok_update [of "s\<lparr>flag_mem := m\<rparr>" h ef g] assms by simp

lemma poll_or_wait_ok: "flags_ok s \<Longrightarrow> flags_ok (snd (poll_or_wait E args err s))"
  by (auto simp: poll_or_wait_def Let_def intro: flag_entry_ok flags_ok_update
      split: option.splits prod.splits)

lemma flag_ready_ok: "flags_ok s \<Longrightarrow> flag_ready E h p md rp s = (r, s') \<Longrightarrow> flags_ok s'"
  by (auto simp: flag_ready_def Let_def intro: flag_entry_ok flags_ok_update
      split: option.splits prod.splits if_splits)

definition flag_slices_keep :: "('s \<Rightarrow> bool) \<Rightarrow> 's flag_slice list \<Rightarrow> bool" where
  "flag_slices_keep I ts \<longleftrightarrow> slices_keep I ts \<and>
     (\<forall>t\<in>set ts. \<forall>w\<in>set (fs_wakes t). \<forall>s. I s \<longrightarrow> I (wk_others w s))"

lemma flag_turn_ok:
  assumes k: "flag_slices_keep flags_ok ts" and t: "t \<in> set ts" and s: "flags_ok s"
  shows "flag_wait_turn E h p md rp dl t s = Returned r s' \<Longrightarrow> flags_ok s'"
    and "flag_wait_turn E h p md rp dl t s = Slice_over s' \<Longrightarrow> flags_ok s'"
proof -
  have "slices_keep flags_ok ts" using k by (simp add: flag_slices_keep_def)
  then have e: "flags_ok (slice_entry t s)" using t s by (rule slice_entry_keeps)
  have "flags_ok s2" if "wait_until now n (flag_ready E h p md rp) (fs_wakes t) (slice_entry t s)
      = Some (oc, c, s2)" for now n oc c s2
  proof (rule wait_until_invariant [OF _ _ _ that])
    show "flags_ok (slice_entry t s)" by (rule e)
    show "w \<in> set (fs_wakes t) \<Longrightarrow> flags_ok x \<Longrightarrow> flags_ok (wk_others w x)" for w x
      using k t by (auto simp: flag_slices_keep_def)
    show "flags_ok x \<Longrightarrow> flag_ready E h p md rp x = (r, y) \<Longrightarrow> flags_ok y" for x r y
      by (rule flag_ready_ok)
  qed
  then show "flag_wait_turn E h p md rp dl t s = Returned r s' \<Longrightarrow> flags_ok s'"
    and "flag_wait_turn E h p md rp dl t s = Slice_over s' \<Longrightarrow> flags_ok s'"
    using e s by (auto simp: flag_wait_turn_def Let_def split: if_splits option.splits prod.splits)
qed

lemma hle_wait_flag_ok:
  assumes "flag_slices_keep flags_ok ts" and "flags_ok s"
    and "hle_wait_flag E now ts args s = Some (r, s')"
  shows "flags_ok s'"
proof -
  have "run_slices (flag_wait_turn E h p md rp dl) ts s = Some (r, s') \<Longrightarrow> flags_ok s'" for h p md rp dl
    by (erule run_slices_invariant [rotated 3]) (use flag_turn_ok [OF assms(1)] assms(2) in blast)+
  then show ?thesis using assms(2,3)
    by (auto simp: hle_wait_flag_def Let_def split: if_splits option.splits)
qed

section \<open>Flags as sets of conditions\<close>

definition bitset :: "'a::len word \<Rightarrow> nat set" where
  "bitset w = {i. bit w i}"

lemma bitset_ops:
  "bitset (or a b) = bitset a \<union> bitset b"
  "bitset (and a b) = bitset a \<inter> bitset b"
  "bitset (0 :: 'a::len word) = {}"
  by (auto simp: bitset_def bit_simps)

lemma bitset_diff: "bitset (and a (not b)) = bitset a - bitset b"
  by (auto simp: bitset_def bit_simps bit_imp_le_length)

lemma bitset_eq: "bitset a = bitset b \<longleftrightarrow> a = b"
  by (auto simp: bitset_def intro!: bit_word_eqI)

lemma satisfied_bitset:
  "is_satisfied bits p md \<longleftrightarrow>
     (if and md 0x0F = WAIT_AND then bitset p \<subseteq> bitset bits else bitset p \<inter> bitset bits \<noteq> {})"
proof -
  have "and bits p = p \<longleftrightarrow> bitset p \<subseteq> bitset bits"
    by (simp only: bitset_eq [symmetric] bitset_ops) blast
  moreover have "and bits p = 0 \<longleftrightarrow> bitset p \<inter> bitset bits = {}"
    by (simp only: bitset_eq [symmetric] bitset_ops) blast
  ultimately show ?thesis by (simp add: is_satisfied_def)
qed

definition flag_sets :: "'m flag_state \<Rightarrow> u64 \<Rightarrow> nat set option" where
  "flag_sets s h = map_option (\<lambda>ef. bitset (ef_bits ef)) (kernel_event_flags s h)"

text \<open>The bits a satisfied wait leaves in the flag.\<close>

definition cleared :: "u64 \<Rightarrow> u64 \<Rightarrow> nat set \<Rightarrow> nat set" where
  "cleared md p B = (if and md 0xF0 = CLEAR_ALL then {}
     else if and md 0xF0 = CLEAR_PATTERN then B - bitset p else B)"

lemma apply_clear_bitset: "bitset (apply_clear b p md) = cleared md p (bitset b)"
  by (simp add: apply_clear_def cleared_def bitset_ops(3) bitset_diff)

lemma and_mask_split:
  assumes "and x (not m) = (0 :: 'a::len word)" shows "x = and x m"
proof -
  have "x = or (and x m) (and x (not m))"
    by (rule bit_word_eqI) (auto simp: bit_simps)
  then show ?thesis using assms by simp
qed

lemma small_word:
  fixes x :: "'a::len word"
  assumes "x \<le> word_of_nat n" and "n < 2 ^ LENGTH('a)"
  shows "\<exists>k\<in>set [0..<Suc n]. x = word_of_nat k"
proof -
  have "unat x \<le> n"
    using assms by (metis of_nat_inverse unat_mono word_less_nat_alt not_le)
  then show ?thesis by (intro bexI [of _ "unat x"]) auto
qed

lemma valid_attributes_table:
  "list_all (\<lambda>a. valid_attributes a \<longleftrightarrow> a \<in> {0, 1, 2, 0x10, 0x11, 0x12, 0x20, 0x21, 0x22})
     (List.map word_of_nat [0..<52])"
  by code_simp

lemma valid_wait_mode_table:
  "list_all (\<lambda>md. valid_wait_mode md \<longleftrightarrow> md \<in> {1, 2, 0x11, 0x12, 0x21, 0x22})
     (List.map word_of_nat [0..<52])"
  by code_simp

interpretation flag_wait: sliced_wait "flag_wait_turn E handle pattern mode result_ptr" SCE_ETIMEDOUT due_now
  for E :: "'m mem_ops" and handle pattern mode result_ptr
proof unfold_locales
  fix dl and t :: "'m flag_state flag_slice" and s s'
  show "flag_wait_turn E handle pattern mode result_ptr dl t s = Returned SCE_ETIMEDOUT s' \<Longrightarrow>
      guest_deadline_reached dl (sl_now t)"
    by (auto simp: flag_wait_turn_def Let_def split: if_splits prod.splits option.splits)
  show "flag_wait_turn E handle pattern mode result_ptr dl t s = Slice_over s' \<Longrightarrow> \<not> due_now dl t"
    by (auto simp: flag_wait_turn_def due_now_def Let_def split: if_splits prod.splits option.splits)
qed

lemma flag_sets_upd:
  "flag_sets (s\<lparr>kernel_event_flags := (kernel_event_flags s)(h \<mapsto> ef)\<rparr>)
     = (flag_sets s)(h \<mapsto> bitset (ef_bits ef))"
  "flag_sets (s\<lparr>flag_mem := m\<rparr>) = flag_sets s"
  "flag_sets (flag_wake s) = flag_sets s"
  by (auto simp: flag_sets_def flag_wake_def)

lemma update_event_sets:
  "flag_sets (snd (update_event h u s)) = (case kernel_event_flags s h of
      None \<Rightarrow> flag_sets s
    | Some ef \<Rightarrow> (flag_sets s)(h \<mapsto> bitset (updated_bits u (ef_bits ef))))"
  by (simp add: update_event_def Let_def flag_sets_upd split: option.splits)

lemma update_handlers:
  "hle_set_flag [h, p] s = (if kernel_event_flags s h = None then (SCE_ESRCH, s)
     else (SCE_OK, flag_wake (snd (update_event h (Set_bits p) s))))"
  "hle_clear_flag [h, p] s = (if kernel_event_flags s h = None then (SCE_ESRCH, s)
     else (SCE_OK, flag_wake (snd (update_event h (Keep_bits p) s))))"
  "hle_cancel_flag E [h, p, 0] s = (if kernel_event_flags s h = None then (SCE_ESRCH, s)
     else (SCE_OK, flag_wake (snd (update_event h (Replace_bits p) s))))"
  by (auto simp: hle_set_flag_def hle_clear_flag_def hle_cancel_flag_def update_event_def
      event_bits_def Let_def split: option.splits)

lemma poll_no_result:
  assumes "p \<noteq> 0" and "valid_wait_mode md"
  shows "poll_or_wait E [h, p, md, 0] err s = (case kernel_event_flags s h of
      None \<Rightarrow> (SCE_ESRCH, s)
    | Some ef \<Rightarrow> if is_satisfied (ef_bits ef) p md
        then (SCE_OK, s\<lparr>kernel_event_flags := (kernel_event_flags s)
               (h \<mapsto> ef\<lparr>ef_bits := apply_clear (ef_bits ef) p md\<rparr>)\<rparr>)
        else (err, s))"
  using assms by (auto simp: poll_or_wait_def Let_def split: option.splits)

section \<open>Histories of calls\<close>

text \<open>A call, or the critical section in which a blocked wait looks at its flag;
  between them the guest may write its memory.\<close>

inductive flag_call :: "'m mem_ops \<Rightarrow> 'm flag_state \<Rightarrow> 'm flag_state \<Rightarrow> bool" for E where
  call_create: "flag_call E s (snd (hle_create_flag E args s))" if "kernel_event_flag_next s < U64_MAX"
| call_delete: "flag_call E s (snd (hle_delete_flag args s))"
| call_set: "flag_call E s (snd (hle_set_flag args s))"
| call_clear: "flag_call E s (snd (hle_clear_flag args s))"
| call_poll: "flag_call E s (snd (hle_poll_flag E args s))"
| call_cancel: "flag_call E s (snd (hle_cancel_flag E args s))"
| call_ready: "flag_call E s (snd (flag_ready E h p md rp s))"
| call_guest: "flag_call E s (s\<lparr>flag_mem := m, flag_notifies := n\<rparr>)"

definition flag_start :: "'m \<Rightarrow> 'm flag_state" where
  "flag_start m = \<lparr>flag_mem = m, kernel_event_flags = Map.empty, kernel_event_flag_next = 1,
     kernel_event_flag_live = 0, flag_notifies = 0\<rparr>"

text \<open>A history lists every handle at the moment it becomes live, newest first.\<close>

inductive flag_history :: "'m mem_ops \<Rightarrow> u64 list \<Rightarrow> 'm flag_state \<Rightarrow> bool" for E where
  history_start: "flag_history E [] (flag_start m)"
| history_call: "flag_history E (new @ hs) s'"
    if "flag_history E hs s" "flag_call E s s'" "distinct new"
      "set new = dom (kernel_event_flags s') - dom (kernel_event_flags s)"

inductive_cases flag_historyE: "flag_history E hs s"

text \<open>What a call can do to the handles: the counter never goes back, and a handle
  that becomes live was not below it.\<close>

definition handles_grow :: "'m flag_state \<Rightarrow> 'm flag_state \<Rightarrow> bool" where
  "handles_grow s s' \<longleftrightarrow> kernel_event_flag_next s \<le> kernel_event_flag_next s' \<and>
     (\<forall>h. h \<in> dom (kernel_event_flags s') - dom (kernel_event_flags s) \<longrightarrow> kernel_event_flag_next s \<le> h)"

lemma handles_kept:
  "kernel_event_flag_next s' = kernel_event_flag_next s \<Longrightarrow>
   dom (kernel_event_flags s') \<subseteq> dom (kernel_event_flags s) \<Longrightarrow> handles_grow s s'"
  by (auto simp: handles_grow_def)

lemma create_grows:
  assumes "kernel_event_flag_next s < U64_MAX"
  shows "handles_grow s (snd (hle_create_flag E args s))"
proof -
  have n: "kernel_event_flag_next s \<le> kernel_event_flag_next s + 1"
    using assms by (simp add: word_le_nat_alt word_less_nat_alt unat_add_no_wrap)
  show ?thesis using n
    by (auto simp: hle_create_flag_def create_event_flag_def delete_event_def handles_grow_def Let_def
        split: option.splits prod.splits if_splits)
qed

lemma update_event_domain:
  "dom (kernel_event_flags (snd (update_event h u s))) = dom (kernel_event_flags s)"
  "kernel_event_flag_next (snd (update_event h u s)) = kernel_event_flag_next s"
  by (auto simp: update_event_def Let_def split: option.splits)

lemma call_grows:
  assumes "flag_call E s s'" shows "handles_grow s s'"
  using assms
proof (induction rule: flag_call.induct)
  case (call_create s args)
  then show ?case by (rule create_grows)
next
  case (call_delete s args)
  show ?case
    by (rule handles_kept) (auto simp: hle_delete_flag_def delete_event_def flag_wake_def split: option.splits)
next
  case (call_set s args)
  show ?case using update_event_domain [of "arg args 0" "Set_bits (arg args 1)" s]
    by (intro handles_kept) (auto simp: hle_set_flag_def flag_wake_def split: prod.splits option.splits)
next
  case (call_clear s args)
  show ?case using update_event_domain [of "arg args 0" "Keep_bits (arg args 1)" s]
    by (intro handles_kept) (auto simp: hle_clear_flag_def flag_wake_def split: prod.splits option.splits)
next
  case (call_poll s args)
  show ?case
    by (rule handles_kept)
      (auto simp: hle_poll_flag_def poll_or_wait_def Let_def split: prod.splits option.splits if_splits)
next
  case (call_cancel s args)
  show ?case
    by (rule handles_kept)
      (auto simp: hle_cancel_flag_def update_event_def flag_wake_def Let_def split: prod.splits option.splits if_splits)
next
  case (call_ready s h p md rp)
  show ?case
    by (rule handles_kept) (auto simp: flag_ready_def Let_def split: prod.splits option.splits if_splits)
qed (simp add: handles_grow_def)

lemma handler_ok:
  assumes "flags_ok s"
  shows "flags_ok (snd (hle_delete_flag args s))" "flags_ok (snd (hle_set_flag args s))"
    "flags_ok (snd (hle_clear_flag args s))" "flags_ok (snd (hle_cancel_flag E args s))"
    "flags_ok (snd (hle_poll_flag E args s))"
proof -
  have u: "flags_ok s1" if "update_event h u s = (r, s1)" for h u r s1
    using update_event_ok [OF assms, of h u] that by simp
  show "flags_ok (snd (hle_delete_flag args s))"
    using delete_event_ok [OF assms, of "arg args 0"]
    by (auto simp: hle_delete_flag_def split: prod.splits)
  show "flags_ok (snd (hle_set_flag args s))" "flags_ok (snd (hle_clear_flag args s))"
    by (auto simp: hle_set_flag_def hle_clear_flag_def u split: prod.splits option.splits)
  show "flags_ok (snd (hle_cancel_flag E args s))"
    using assms by (auto simp: hle_cancel_flag_def Let_def update_event_ok split: prod.splits)
  show "flags_ok (snd (hle_poll_flag E args s))" using poll_or_wait_ok [OF assms] by (simp add: hle_poll_flag_def)
qed

lemma call_ok: "flag_call E s s' \<Longrightarrow> flags_ok s \<Longrightarrow> flags_ok s'"
proof (induction rule: flag_call.induct)
  case (call_create s args)
  then show ?case using hle_create_flag_ok by blast
next
  case (call_ready s h p md rp)
  then show ?case using flag_ready_ok [of s E h p md rp] by (cases "flag_ready E h p md rp s") auto
next
  case (call_guest s m n)
  then show ?case by (simp add: flags_ok_def)
qed (auto intro: handler_ok)

definition issued_ok :: "u64 list \<Rightarrow> 'm flag_state \<Rightarrow> bool" where
  "issued_ok hs s \<longleftrightarrow> flags_ok s \<and> distinct hs \<and> dom (kernel_event_flags s) \<subseteq> set hs \<and>
     (\<forall>h\<in>set hs. h < kernel_event_flag_next s)"

lemma history_issued: "flag_history E hs s \<Longrightarrow> issued_ok hs s"
proof (induction rule: flag_history.induct)
  case (history_start m)
  then show ?case by (simp add: issued_ok_def flags_ok_def flag_start_def)
next
  case (history_call hs s s' new)
  note g = call_grows [OF history_call(2), unfolded handles_grow_def]
  have ok: "flags_ok s'" using call_ok [OF history_call(2)] history_call(5) by (simp add: issued_ok_def)
  have old: "h < kernel_event_flag_next s" if "h \<in> set hs" for h
    using history_call(5) that by (simp add: issued_ok_def)
  have "set new \<inter> set hs = {}" using g history_call(4) old by (auto simp: not_less [symmetric])
  moreover have "\<forall>h\<in>set new. h < kernel_event_flag_next s'" using ok history_call(4) by (auto simp: flags_ok_def)
  moreover have "\<forall>h\<in>set hs. h < kernel_event_flag_next s'" using g old by (auto intro: order.strict_trans2)
  moreover have "dom (kernel_event_flags s') \<subseteq> set (new @ hs)"
    using history_call(4,5) by (auto simp: issued_ok_def)
  ultimately show ?case using ok history_call(3,5) by (auto simp: issued_ok_def)
qed

section \<open>Properties\<close>

text \<open>C6: Over every history of calls, with the critical sections of blocked waits in
  between: at most 4096 flags are live and the slot counter is exactly their number,
  failed creations and their rollback included; no handle becomes live twice, even
  after its flag was deleted; the handle the next successful creation stores for the
  guest has never been live; and a wait keeps the counter exact through whatever other
  threads do that keeps it.  The handle counter is assumed not to have reached the end
  of its 64 bits.\<close>

theorem flag_table_bounded:
  assumes "flag_history E hs s"
  shows "flags_ok s \<and> card (dom (kernel_event_flags s)) \<le> 4096 \<and>
    distinct hs \<and> dom (kernel_event_flags s) \<subseteq> set hs \<and>
    (\<forall>args s'. hle_create_flag E args s = (SCE_OK, s') \<longrightarrow>
       (\<exists>h. h \<notin> set hs \<and> kernel_event_flags s' h \<noteq> None \<and>
          gm_write E (arg args 0) (u64_bytes h) (flag_mem s) = (True, flag_mem s'))) \<and>
    (\<forall>ts now args r s'. flag_slices_keep flags_ok ts \<longrightarrow> hle_wait_flag E now ts args s = Some (r, s')
       \<longrightarrow> flags_ok s')"
proof (intro conjI allI impI)
  note i = history_issued [OF assms]
  then show ok: "flags_ok s" and "distinct hs" "dom (kernel_event_flags s) \<subseteq> set hs" by (auto simp: issued_ok_def)
  then show "card (dom (kernel_event_flags s)) \<le> 4096"
    by (auto simp: flags_ok_def word_le_nat_alt)
  show "flags_ok s'" if "flag_slices_keep flags_ok ts" "hle_wait_flag E now ts args s = Some (r, s')" for ts now args r s'
    by (rule hle_wait_flag_ok [OF that(1) ok that(2)])
  fix args s' assume c: "hle_create_flag E args s = (SCE_OK, s')"
  have "kernel_event_flag_next s \<notin> set hs" using i by (auto simp: issued_ok_def)
  then show "\<exists>h. h \<notin> set hs \<and> kernel_event_flags s' h \<noteq> None \<and>
      gm_write E (arg args 0) (u64_bytes h) (flag_mem s) = (True, flag_mem s')"
    using c by (intro exI [of _ "kernel_event_flag_next s"])
      (auto simp: hle_create_flag_def create_event_flag_def Let_def split: option.splits prod.splits if_splits)
qed

definition demo_flags :: "byte list flag_state" where
  "demo_flags = \<lparr>flag_mem = replicate 64 0,
     kernel_event_flags = [1 \<mapsto> \<lparr>ef_bits = 5, ef_attributes = 0x11\<rparr>],
     kernel_event_flag_next = 2, kernel_event_flag_live = 1, flag_notifies = 0\<rparr>"

lemma demo_flags_ok: "flags_ok demo_flags" "kernel_event_flag_next demo_flags < U64_MAX"
  by (auto simp: demo_flags_def flags_ok_def split: if_splits)

text \<open>Two creations with a deletion between them.\<close>

definition demo_create :: "byte list flag_state \<Rightarrow> byte list flag_state" where
  "demo_create s = snd (hle_create_flag test_memory [8, 16, 0x21, 3, 0] s)"

definition demo_recreated :: "byte list flag_state" where
  "demo_recreated = demo_create (snd (hle_delete_flag [1] (demo_create (flag_start (replicate 64 0)))))"

lemma demo_create_flags:
  assumes "length (flag_mem s) = 64" "0 \<in> set (take 33 (drop 16 (flag_mem s)))" "kernel_event_flag_live s < 4096"
  shows "kernel_event_flags (demo_create s) = (kernel_event_flags s)
      (kernel_event_flag_next s \<mapsto> \<lparr>ef_bits = 3, ef_attributes = 0x21\<rparr>)"
    "kernel_event_flag_next (demo_create s) = kernel_event_flag_next s + 1"
    "kernel_event_flag_live (demo_create s) = kernel_event_flag_live s + 1"
    "flag_mem (demo_create s) = take 8 (flag_mem s) @ u64_bytes (kernel_event_flag_next s) @ drop 16 (flag_mem s)"
proof -
  have "valid_attributes (as_u32 0x21)" by code_simp
  moreover have "as_u32 0x21 = 0x21" by (simp add: as_u32_def)
  ultimately show "kernel_event_flags (demo_create s) = (kernel_event_flags s)
      (kernel_event_flag_next s \<mapsto> \<lparr>ef_bits = 3, ef_attributes = 0x21\<rparr>)"
    "kernel_event_flag_next (demo_create s) = kernel_event_flag_next s + 1"
    "kernel_event_flag_live (demo_create s) = kernel_event_flag_live s + 1"
    "flag_mem (demo_create s) = take 8 (flag_mem s) @ u64_bytes (kernel_event_flag_next s) @ drop 16 (flag_mem s)"
    using assms
    by (simp_all add: demo_create_def hle_create_flag_def create_event_flag_def try_claim_slot_def test_memory_def
        tm_read_def tm_write_def Let_def)
qed

theorem flag_table_bounded_witness:
  "dom (kernel_event_flags demo_recreated) = {2} \<and> distinct [2, 1 :: u64] \<and>
   card (dom (kernel_event_flags demo_recreated)) \<le> 4096"
proof -
  let ?s0 = "flag_start (replicate 64 0) :: byte list flag_state"
  let ?s1 = "demo_create ?s0" and ?s2 = "snd (hle_delete_flag [1] (demo_create ?s0))"
  have m: "length (flag_mem ?s0) = 64" "0 \<in> set (take 33 (drop 16 (flag_mem ?s0)))" "kernel_event_flag_live ?s0 < 4096"
    by (simp_all add: flag_start_def)
  note one = demo_create_flags [OF m]
  have s2: "kernel_event_flags ?s2 = Map.empty" "kernel_event_flag_next ?s2 = 2" "kernel_event_flag_live ?s2 = 0"
    "flag_mem ?s2 = flag_mem ?s1"
    using one by (simp_all add: hle_delete_flag_def delete_event_def flag_wake_def flag_start_def)
  have "length (flag_mem ?s2) = 64" "0 \<in> set (take 33 (drop 16 (flag_mem ?s2)))" "kernel_event_flag_live ?s2 < 4096"
    using one(4) s2 by (simp_all add: flag_start_def)
  note two = demo_create_flags [OF this]
  have h1: "flag_history test_memory ([1] @ []) ?s1"
    by (rule history_call [OF history_start]) (use one in \<open>auto simp: demo_create_def flag_start_def intro!: call_create\<close>)
  have h2: "flag_history test_memory ([] @ [1]) ?s2"
    by (rule history_call [OF h1 [simplified]]) (use s2 in \<open>auto intro: call_delete\<close>)
  have h3: "flag_history test_memory ([2] @ [1]) demo_recreated"
    unfolding demo_recreated_def
    by (rule history_call [OF h2 [simplified]])
      (use two s2 in \<open>auto simp: demo_create_def [of ?s2] intro!: call_create\<close>)
  have "dom (kernel_event_flags demo_recreated) = {2}" using two s2 by (simp add: demo_recreated_def)
  then show ?thesis using flag_table_bounded [OF h3] by simp
qed

text \<open>C7: event flags are sets of conditions: \<open>Set\<close> is union, \<open>Clear\<close>
  intersection and \<open>Cancel\<close> replacement on the named flag only; a poll succeeds
  exactly when the pattern is included in the set (AND mode) or meets it (OR
  mode), consumes conditions as its clear mode says when it succeeds, and
  changes no flag when it does not.\<close>

theorem flag_ops_refine:
  assumes "p \<noteq> 0" and "valid_wait_mode md"
  shows "flag_sets (snd (hle_set_flag [h, p] s)) = (case flag_sets s h of
        None \<Rightarrow> flag_sets s | Some B \<Rightarrow> (flag_sets s)(h \<mapsto> B \<union> bitset p))
    \<and> flag_sets (snd (hle_clear_flag [h, p] s)) = (case flag_sets s h of
        None \<Rightarrow> flag_sets s | Some B \<Rightarrow> (flag_sets s)(h \<mapsto> B \<inter> bitset p))
    \<and> flag_sets (snd (hle_cancel_flag E [h, p, 0] s)) = (case flag_sets s h of
        None \<Rightarrow> flag_sets s | Some B \<Rightarrow> (flag_sets s)(h \<mapsto> bitset p))
    \<and> (case flag_sets s h of
        None \<Rightarrow> hle_poll_flag E [h, p, md, 0] s = (SCE_ESRCH, s)
      | Some B \<Rightarrow>
          let sat = (if and md 0x0F = WAIT_AND then bitset p \<subseteq> B else bitset p \<inter> B \<noteq> {}) in
          fst (hle_poll_flag E [h, p, md, 0] s) = (if sat then SCE_OK else SCE_EBUSY)
          \<and> flag_sets (snd (hle_poll_flag E [h, p, md, 0] s))
            = (if sat then (flag_sets s)(h \<mapsto> cleared md p B) else flag_sets s))"
proof (cases "kernel_event_flags s h")
  case None
  then have "flag_sets s h = None" by (simp add: flag_sets_def)
  then show ?thesis using None assms
    by (simp add: update_handlers hle_poll_flag_def poll_no_result)
next
  case (Some ef)
  then have f: "flag_sets s h = Some (bitset (ef_bits ef))" by (simp add: flag_sets_def)
  show ?thesis using Some f assms
    by (simp add: update_handlers update_event_sets flag_sets_upd bitset_ops hle_poll_flag_def
        poll_no_result satisfied_bitset apply_clear_bitset Let_def)
qed

theorem flag_ops_refine_witness:
  "flag_sets (snd (hle_set_flag [1, 2] demo_flags)) 1 = Some (bitset (5 :: u64) \<union> bitset (2 :: u64))"
proof -
  have "valid_wait_mode 0x21" by code_simp
  moreover have "flag_sets demo_flags 1 = Some (bitset (5 :: u64))"
    by (simp add: flag_sets_def demo_flags_def)
  ultimately show ?thesis using flag_ops_refine [of 2 "0x21" 1 demo_flags test_memory] by simp
qed

text \<open>Attribute and wait-mode checks accept exactly the documented
  combinations: a queue mode of none, FIFO or priority with a thread mode of
  none, single or multi, and AND or OR with no clear, clear-all or
  clear-pattern.\<close>

theorem valid_modes_exact:
  "(valid_attributes a \<longleftrightarrow> a \<in> {0, 1, 2, 0x10, 0x11, 0x12, 0x20, 0x21, 0x22})
   \<and> (valid_wait_mode md \<longleftrightarrow> md \<in> {1, 2, 0x11, 0x12, 0x21, 0x22})"
proof
  show "valid_attributes a \<longleftrightarrow> a \<in> {0, 1, 2, 0x10, 0x11, 0x12, 0x20, 0x21, 0x22}"
  proof (cases "and a (not 0x33) = 0")
    case True
    then have "a \<le> word_of_nat 51" using and_mask_split [OF True] word_and_le1 [of a "0x33"] by simp
    then have "a \<in> set (List.map word_of_nat [0..<52])"
      using small_word [of a 51] by auto
    then show ?thesis using valid_attributes_table unfolding list_all_iff by blast
  next
    case False
    then have "a \<notin> {0, 1, 2, 0x10, 0x11, 0x12, 0x20, 0x21, 0x22}" by auto
    then show ?thesis using False by (simp add: valid_attributes_def Let_def)
  qed
next
  show "valid_wait_mode md \<longleftrightarrow> md \<in> {1, 2, 0x11, 0x12, 0x21, 0x22}"
  proof (cases "and md (not 0x33) = 0")
    case True
    then have "md \<le> word_of_nat 51" using and_mask_split [OF True] word_and_le1 [of md "0x33"] by simp
    then have "md \<in> set (List.map word_of_nat [0..<52])"
      using small_word [of md 51] by auto
    then show ?thesis using valid_wait_mode_table unfolding list_all_iff by blast
  next
    case False
    then have "md \<notin> {1, 2, 0x11, 0x12, 0x21, 0x22}" by auto
    then show ?thesis using False by (simp add: valid_wait_mode_def Let_def)
  qed
qed

text \<open>A successful or unsatisfied poll reports the bits it observed: over any
  guest memory that obeys the interface laws, whenever the poll returns \<open>OK\<close> or
  \<open>EBUSY\<close> with a result pointer, the guest word behind it reads back as the
  flag's bits before any clearing.\<close>

theorem flag_poll_reports_bits:
  assumes "guest_memory E ok" and "ok (flag_mem s)"
    and "hle_poll_flag E [h, p, md, rp] s = (r, s')" and "rp \<noteq> 0" and "r = SCE_OK \<or> r = SCE_EBUSY"
  shows "\<exists>ef. kernel_event_flags s h = Some ef \<and> ok (flag_mem s')
    \<and> map_option le_word (gm_read E rp 8 (flag_mem s')) = Some (ef_bits ef)"
proof -
  obtain ef m' where ef: "kernel_event_flags s h = Some ef"
    and w: "gm_write E rp (u64_bytes (ef_bits ef)) (flag_mem s) = (True, m')"
    and s': "flag_mem s' = m'"
    using assms(3-5)
    by (auto simp: hle_poll_flag_def poll_or_wait_def Let_def split: option.splits if_splits prod.splits)
  show ?thesis using ef s' guest_memory.write_ok [OF assms(1,2) w] guest_memory.read_back_u64 [OF assms(1,2) w] by simp
qed

theorem flag_poll_reports_bits_witness:
  "\<exists>r s' ef. hle_poll_flag test_memory [1, 2, 1, 16] demo_flags = (r, s')
     \<and> kernel_event_flags demo_flags 1 = Some ef
     \<and> map_option le_word (gm_read test_memory 16 8 (flag_mem s')) = Some (ef_bits ef)"
proof -
  have m: "valid_wait_mode 1" by code_simp
  have "gm_write test_memory 16 (u64_bytes 5) (replicate 64 0)
      = (True, snd (gm_write test_memory 16 (u64_bytes 5) (replicate 64 0)))"
    by (simp add: test_memory_def tm_write_def)
  then obtain m' where w: "gm_write test_memory 16 (u64_bytes 5) (replicate 64 0) = (True, m')" by blast
  let ?p = "hle_poll_flag test_memory [1, 2, 1, 16] demo_flags"
  have r: "fst ?p = SCE_EBUSY"
    using m w by (simp add: hle_poll_flag_def poll_or_wait_def demo_flags_def is_satisfied_def)
  obtain s' where s': "?p = (SCE_EBUSY, s')" using r by (cases ?p) simp
  show ?thesis
    using flag_poll_reports_bits [OF tm.guest_memory_axioms _ s'] s' by simp
qed

text \<open>C8: \<open>sceKernelWaitEventFlag\<close> honours the guest's timeout and no other (the
  module's header still describes an older wait that reports a timeout at once): a
  \<open>NULL\<close> timeout never yields \<open>ETIMEDOUT\<close>, a finite one only at a turn whose
  clock reached the deadline; and a parked wait is satisfied as soon as another
  thread sets the missing bits, consuming what its clear mode says.\<close>

theorem flag_wait_contract:
  assumes "p \<noteq> 0" and "valid_wait_mode md" and "kernel_event_flags s h = Some ef"
  shows "(\<forall>ts s'. hle_wait_flag E now ts [h, p, md, rp, 0] s \<noteq> Some (SCE_ETIMEDOUT, s'))
    \<and> (\<forall>ts s' d. read_deadline E tp now (flag_mem s) = Some (Some d) \<longrightarrow>
          hle_wait_flag E now ts [h, p, md, rp, tp] s = Some (SCE_ETIMEDOUT, s') \<longrightarrow>
          (\<exists>t\<in>set ts. d \<le> sl_now t))
    \<and> (\<forall>q w wt n ts. is_satisfied (or (ef_bits ef) q) p md \<longrightarrow> \<not> is_satisfied (ef_bits ef) p md \<longrightarrow>
        hle_wait_flag E now
          (\<lparr>sl_others = id, sl_terminating = False, sl_pending = False, sl_deliver = id, sl_now = n,
            fs_wakes = [\<lparr>wk_others = \<lambda>s. snd (hle_set_flag [h, q] s),
              wk_terminating = wt, wk_now = w\<rparr>]\<rparr> # ts) [h, p, md, 0, 0] s
        = Some (SCE_OK, flag_wake (s\<lparr>kernel_event_flags := (kernel_event_flags s)
            (h \<mapsto> ef\<lparr>ef_bits := apply_clear (or (ef_bits ef) q) p md\<rparr>)\<rparr>)))"
proof (intro conjI allI impI)
  fix ts s'
  have "hle_wait_flag E now ts [h, p, md, rp, 0] s
      = run_slices (flag_wait_turn E h p md rp None) ts s"
    using assms by (simp add: hle_wait_flag_def read_deadline_def)
  then show "hle_wait_flag E now ts [h, p, md, rp, 0] s \<noteq> Some (SCE_ETIMEDOUT, s')"
    using flag_wait.null_timeout_never_times_out [of E h p md rp ts s SCE_ETIMEDOUT s'] by auto
next
  fix ts s' d
  assume "read_deadline E tp now (flag_mem s) = Some (Some d)"
    and "hle_wait_flag E now ts [h, p, md, rp, tp] s = Some (SCE_ETIMEDOUT, s')"
  then have "run_slices (flag_wait_turn E h p md rp (Some d)) ts s = Some (SCE_ETIMEDOUT, s')"
    using assms by (simp add: hle_wait_flag_def)
  from flag_wait.timeout_at_deadline [OF this] show "\<exists>t\<in>set ts. d \<le> sl_now t" by simp
next
  fix q w wt n ts
  assume "is_satisfied (or (ef_bits ef) q) p md" and "\<not> is_satisfied (ef_bits ef) p md"
  then show "hle_wait_flag E now
      (\<lparr>sl_others = id, sl_terminating = False, sl_pending = False, sl_deliver = id, sl_now = n,
        fs_wakes = [\<lparr>wk_others = \<lambda>s. snd (hle_set_flag [h, q] s),
          wk_terminating = wt, wk_now = w\<rparr>]\<rparr> # ts) [h, p, md, 0, 0] s
    = Some (SCE_OK, flag_wake (s\<lparr>kernel_event_flags := (kernel_event_flags s)
        (h \<mapsto> ef\<lparr>ef_bits := apply_clear (or (ef_bits ef) q) p md\<rparr>)\<rparr>))"
    using assms
    by (simp add: hle_wait_flag_def read_deadline_def flag_wait_turn_def slice_entry_def
        deliver_at_wait_slice_def guest_deadline_reached_def wait_until_def flag_ready_def
        update_handlers update_event_def flag_wake_def Let_def)
qed

theorem flag_wait_contract_witness:
  "\<exists>s'. hle_wait_flag test_memory 0
     [\<lparr>sl_others = id, sl_terminating = False, sl_pending = False, sl_deliver = id, sl_now = 0,
       fs_wakes = [\<lparr>wk_others = \<lambda>s. snd (hle_set_flag [1, 2] s), wk_terminating = False,
         wk_now = 10\<rparr>]\<rparr>] [1, 2, 1, 0, 0] demo_flags = Some (SCE_OK, s')"
proof -
  have "valid_wait_mode 1" by code_simp
  then show ?thesis
    using flag_wait_contract [of 2 1 demo_flags 1 "\<lparr>ef_bits = 5, ef_attributes = 0x11\<rparr>"]
    by (simp add: demo_flags_def is_satisfied_def)
qed

text \<open>A zero timeout is never satisfied: although the module's header says a
  wait completes immediately when its pattern already holds, a
  \<open>sceKernelWaitEventFlag\<close> whose timeout is zero microseconds returns
  \<open>ETIMEDOUT\<close> on its first turn without looking at the flag, because the
  deadline is tested before the condition.\<close>

theorem flag_zero_timeout_ignores_bits:
  assumes "kernel_event_flags s h = Some ef" and "is_satisfied (ef_bits ef) p md"
    and "p \<noteq> 0" and "valid_wait_mode md" and "tp \<noteq> 0"
    and "gm_read E tp 4 (flag_mem s) = Some [0, 0, 0, 0]"
    and "now \<le> n"
  shows "hle_wait_flag E now (\<lparr>sl_others = id, sl_terminating = False, sl_pending = False,
      sl_deliver = id, sl_now = n, fs_wakes = ws\<rparr> # ts) [h, p, md, rp, tp] s = Some (SCE_ETIMEDOUT, s)"
  using assms
  by (simp add: hle_wait_flag_def read_deadline_def flag_wait_turn_def slice_entry_def
      deliver_at_wait_slice_def guest_deadline_reached_def from_micros_def u32_to_u64_def Let_def)

theorem flag_zero_timeout_ignores_bits_witness:
  "hle_wait_flag test_memory 7 [\<lparr>sl_others = id, sl_terminating = False, sl_pending = False,
      sl_deliver = id, sl_now = 7, fs_wakes = []\<rparr>] [1, 4, 1, 0, 32] demo_flags
    = Some (SCE_ETIMEDOUT, demo_flags)"
proof -
  have "valid_wait_mode 1" by code_simp
  moreover have "gm_read test_memory 32 4 (flag_mem demo_flags) = Some [0, 0, 0, 0]"
    by (simp add: test_memory_def tm_read_def demo_flags_def) (simp add: numeral_eq_Suc)
  ultimately show ?thesis
    using flag_zero_timeout_ignores_bits [of demo_flags 1 "\<lparr>ef_bits = 5, ef_attributes = 0x11\<rparr>" 4 1 32
        test_memory 7 7 "[]" "[]" 0]
    by (simp add: demo_flags_def is_satisfied_def)
qed

end
