(* ===== verification/Guest_Errno.thy ===== *)
theory Guest_Errno
  imports Guest_Memory
begin

text \<open>
  The per-thread POSIX \<open>errno\<close> slot of \<open>crates/raeen-hle/src/libkernel.rs\<close>:
  \<open>__error()\<close> allocates it lazily from the guest heap, and a failing POSIX call
  stores its error number there and returns -1.
\<close>

record 'm errno_state =
  es_mem :: 'm
  errno_slots :: "u64 \<rightharpoonup> u64"

definition hle_error_addr ::
  "'m host_env \<Rightarrow> u64 \<Rightarrow> ('m, 'x) errno_state_scheme \<Rightarrow> u64 \<times> ('m, 'x) errno_state_scheme" where
  "hle_error_addr E thread s =
     (case errno_slots s thread of
        Some existing \<Rightarrow> (existing, s)
      | None \<Rightarrow>
          (case ga_alloc E 8 8 (es_mem s) of
             (None, m1) \<Rightarrow> (0, s\<lparr>es_mem := m1\<rparr>)
           | (Some slot, m1) \<Rightarrow>
               let m2 = snd (gm_write E slot (u64_bytes 0) m1) in
               (slot, s\<lparr>es_mem := m2, errno_slots := (errno_slots s)(thread \<mapsto> slot)\<rparr>)))"

definition set_guest_errno ::
  "'m host_env \<Rightarrow> u64 \<Rightarrow> u32 \<Rightarrow> ('m, 'x) errno_state_scheme \<Rightarrow> ('m, 'x) errno_state_scheme" where
  "set_guest_errno E thread errno s =
     (let (slot, s1) = hle_error_addr E thread s in
      if slot \<noteq> 0 then s1\<lparr>es_mem := snd (gm_write E slot (u32_bytes errno) (es_mem s1))\<rparr> else s1)"

text \<open>A failing POSIX call (\<open>fail\<close> of \<open>posix_sem.rs\<close>).\<close>

definition fail ::
  "'m host_env \<Rightarrow> u64 \<Rightarrow> u32 \<Rightarrow> ('m, 'x) errno_state_scheme \<Rightarrow> u64 \<times> ('m, 'x) errno_state_scheme" where
  "fail E thread errno s = (U64_MAX, set_guest_errno E thread errno s)"

lemma fail_result [simp]: "fst (fail E thread errno s) = U64_MAX"
  by (simp add: fail_def)

text \<open>\<open>errno\<close> never touches the rest of the state.\<close>

lemma errno_more [simp]:
  "errno_state.more (snd (hle_error_addr E thread s)) = errno_state.more s"
  "errno_state.more (set_guest_errno E thread errno s) = errno_state.more s"
  "errno_state.more (snd (fail E thread errno s)) = errno_state.more s"
proof -
  show h: "errno_state.more (snd (hle_error_addr E thread s)) = errno_state.more s"
    by (auto simp: hle_error_addr_def Let_def split: option.splits prod.splits)
  show "errno_state.more (set_guest_errno E thread errno s) = errno_state.more s"
    using h [THEN sym] by (auto simp: set_guest_errno_def Let_def split: prod.splits)
  then show "errno_state.more (snd (fail E thread errno s)) = errno_state.more s"
    by (simp add: fail_def)
qed

text \<open>Whenever the store succeeds the slot reads back as the error number.\<close>

lemma errno_reads_back:
  assumes "guest_memory E ok" and "ok (es_mem s)" and "errno_slots s thread = Some slot"
    and "slot \<noteq> 0" and "gm_write E slot (u32_bytes errno) (es_mem s) = (True, m')"
  shows "map_option le_word (gm_read E slot 4 (es_mem (set_guest_errno E thread errno s))) = Some errno"
  using assms(3-5) guest_memory.read_back_u32 [OF assms(1,2,5)]
  by (simp add: set_guest_errno_def hle_error_addr_def)

end
