(* ===== verification/Posix_Sem.thy ===== *)
theory Posix_Sem
  imports Counting_Semaphore Guest_Errno
begin

text \<open>
  The address-based semaphores of \<open>crates/raeen-hle/src/posix_sem.rs\<close>: the POSIX
  \<open>sem_*\<close> calls and Sony's \<open>scePthreadSem*\<close> spelling over one table.  The table
  maps a guest address to a shared host object (\<open>Arc<PosixSem>\<close>): objects are
  references into a heap of counts, because a parked waiter keeps its object
  when the address is destroyed or initialised again.
\<close>

section \<open>State\<close>

record 'm psem_state = "'m errno_state" +
  posix_semaphores :: "u64 \<rightharpoonup> nat"
  psem_count :: "nat \<Rightarrow> int"
  psem_fresh :: nat

abbreviation I64_MAX :: int where "I64_MAX \<equiv> 9223372036854775807"

abbreviation MINUS_ONE :: u64 where "MINUS_ONE \<equiv> U64_MAX"
abbreviation EINTR :: u32 where "EINTR \<equiv> 4"
abbreviation EINVAL :: u32 where "EINVAL \<equiv> 22"
abbreviation EAGAIN :: u32 where "EAGAIN \<equiv> 35"
abbreviation ETIMEDOUT :: u32 where "ETIMEDOUT \<equiv> 60"
abbreviation SCE_EINTR :: u64 where "SCE_EINTR \<equiv> 0x80020004"

text \<open>\<open>posix_semaphores.insert(sem, Arc::new(..))\<close> with the given count.\<close>

definition psem_insert :: "u64 \<Rightarrow> int \<Rightarrow> 'm psem_state \<Rightarrow> 'm psem_state" where
  "psem_insert sem val s = s\<lparr>
     posix_semaphores := (posix_semaphores s)(sem \<mapsto> psem_fresh s),
     psem_count := (psem_count s)(psem_fresh s := val),
     psem_fresh := psem_fresh s + 1\<rparr>"

definition psem_object :: "u64 \<Rightarrow> 'm psem_state \<Rightarrow> nat \<times> 'm psem_state" where
  "psem_object sem s = (case posix_semaphores s sem of
      Some r \<Rightarrow> (r, s)
    | None \<Rightarrow> (psem_fresh s, psem_insert sem 0 s))"

definition psem_add :: "nat \<Rightarrow> int \<Rightarrow> 'm psem_state \<Rightarrow> 'm psem_state" where
  "psem_add r d s = s\<lparr>psem_count := (psem_count s)(r := psem_count s r + d)\<rparr>"

section \<open>The blocking acquire\<close>

datatype acquire = Acq_Ok | Acq_Interrupted | Acq_TimedOut | Acq_Invalid

definition acquire_turn ::
  "nat \<Rightarrow> nat option \<Rightarrow> 'm psem_state slice \<Rightarrow> 'm psem_state \<Rightarrow> (acquire, 'm psem_state) turn_result" where
  "acquire_turn r deadline t s0 =
     (let s = sl_others t s0 in
      if 0 < psem_count s r then Returned Acq_Ok (psem_add r (- 1) s)
      else if sl_terminating t then Returned Acq_Interrupted s
      else if sl_pending t then Slice_over (sl_deliver t s)
      else (case deadline of
              Some dl \<Rightarrow> if dl < sl_now t then Returned Acq_TimedOut s else Slice_over s
            | None \<Rightarrow> Slice_over s))"

definition acquire_sem ::
  "u64 \<Rightarrow> nat option \<Rightarrow> 'm psem_state slice list \<Rightarrow> 'm psem_state \<Rightarrow> (acquire \<times> 'm psem_state) option" where
  "acquire_sem sem deadline ts s =
     (if sem = 0 then Some (Acq_Invalid, s)
      else let (r, s1) = psem_object sem s in run_slices (acquire_turn r deadline) ts s1)"

section \<open>The SCE spelling\<close>

definition hle_pthread_sem_init :: "u64 list \<Rightarrow> 'm psem_state \<Rightarrow> u64 \<times> 'm psem_state" where
  "hle_pthread_sem_init args s =
     (let sem = arg args 0; flag = arg args 1; val = arg args 2 in
      if flag \<noteq> 0 \<or> sem = 0 \<or> I64_MAX < uint val then (SCE_EINVAL, s)
      else (SCE_OK, psem_insert sem (uint val) s))"

definition hle_pthread_sem_wait ::
  "'m psem_state slice list \<Rightarrow> u64 list \<Rightarrow> 'm psem_state \<Rightarrow> (u64 \<times> 'm psem_state) option" where
  "hle_pthread_sem_wait ts args s =
     map_option (\<lambda>(a, s'). ((case a of
         Acq_Ok \<Rightarrow> SCE_OK | Acq_Interrupted \<Rightarrow> SCE_EINTR
       | Acq_Invalid \<Rightarrow> SCE_EINVAL | Acq_TimedOut \<Rightarrow> SCE_EINVAL), s'))
       (acquire_sem (arg args 0) None ts s)"

definition hle_pthread_sem_trywait :: "u64 list \<Rightarrow> 'm psem_state \<Rightarrow> u64 \<times> 'm psem_state" where
  "hle_pthread_sem_trywait args s =
     (if arg args 0 = 0 then (SCE_EINVAL, s)
      else let (r, s1) = psem_object (arg args 0) s in
        if 0 < psem_count s1 r then (SCE_OK, psem_add r (- 1) s1) else (SCE_EAGAIN, s1))"

definition hle_pthread_sem_post :: "u64 list \<Rightarrow> 'm psem_state \<Rightarrow> u64 \<times> 'm psem_state" where
  "hle_pthread_sem_post args s =
     (if arg args 0 = 0 then (SCE_EINVAL, s)
      else let (r, s1) = psem_object (arg args 0) s in
        if psem_count s1 r = I64_MAX then (SCE_EINVAL, s1) else (SCE_OK, psem_add r 1 s1))"

definition hle_pthread_sem_destroy :: "u64 list \<Rightarrow> 'm psem_state \<Rightarrow> u64 \<times> 'm psem_state" where
  "hle_pthread_sem_destroy args s =
     (let sem = arg args 0 in
      if sem = 0 \<or> posix_semaphores s sem = None then (SCE_EINVAL, s)
      else (SCE_OK, s\<lparr>posix_semaphores := (posix_semaphores s)(sem := None)\<rparr>))"

section \<open>The POSIX spelling\<close>

definition hle_sem_init :: "'m host_env \<Rightarrow> u64 \<Rightarrow> u64 list \<Rightarrow> 'm psem_state \<Rightarrow> u64 \<times> 'm psem_state" where
  "hle_sem_init E thread args s =
     (let sem = arg args 0; val = arg args 2 in
      if sem = 0 \<or> I64_MAX < uint val then fail E thread EINVAL s
      else (SCE_OK, psem_insert sem (uint val) s))"

definition hle_sem_destroy :: "'m host_env \<Rightarrow> u64 \<Rightarrow> u64 list \<Rightarrow> 'm psem_state \<Rightarrow> u64 \<times> 'm psem_state" where
  "hle_sem_destroy E thread args s =
     (let sem = arg args 0 in
      if sem = 0 \<or> posix_semaphores s sem = None then fail E thread EINVAL s
      else (SCE_OK, s\<lparr>posix_semaphores := (posix_semaphores s)(sem := None)\<rparr>))"

definition sem_wait_core ::
  "'m host_env \<Rightarrow> u64 \<Rightarrow> u64 \<Rightarrow> nat option \<Rightarrow> 'm psem_state slice list \<Rightarrow> 'm psem_state
     \<Rightarrow> (u64 \<times> 'm psem_state) option" where
  "sem_wait_core E thread sem deadline ts s =
     map_option (\<lambda>(a, s'). case a of
         Acq_Ok \<Rightarrow> (SCE_OK, s')
       | Acq_Interrupted \<Rightarrow> fail E thread EINTR s'
       | Acq_TimedOut \<Rightarrow> fail E thread ETIMEDOUT s'
       | Acq_Invalid \<Rightarrow> fail E thread EINVAL s')
       (acquire_sem sem deadline ts s)"

definition hle_sem_wait ::
  "'m host_env \<Rightarrow> u64 \<Rightarrow> 'm psem_state slice list \<Rightarrow> u64 list \<Rightarrow> 'm psem_state
     \<Rightarrow> (u64 \<times> 'm psem_state) option" where
  "hle_sem_wait E thread ts args s = sem_wait_core E thread (arg args 0) None ts s"

definition hle_sem_trywait :: "'m host_env \<Rightarrow> u64 \<Rightarrow> u64 list \<Rightarrow> 'm psem_state \<Rightarrow> u64 \<times> 'm psem_state" where
  "hle_sem_trywait E thread args s =
     (if arg args 0 = 0 then fail E thread EINVAL s
      else let (r, s1) = psem_object (arg args 0) s in
        if 0 < psem_count s1 r then (SCE_OK, psem_add r (- 1) s1) else fail E thread EAGAIN s1)"

text \<open>Instants are nanoseconds since the epoch.\<close>

definition hle_sem_timedwait ::
  "'m host_env \<Rightarrow> u64 \<Rightarrow> 'm psem_state slice list \<Rightarrow> u64 list \<Rightarrow> 'm psem_state
     \<Rightarrow> (u64 \<times> 'm psem_state) option" where
  "hle_sem_timedwait E thread ts args s =
     (let sem = arg args 0; abstime = arg args 1 in
      case (if abstime = 0 then None else gm_read E abstime 16 (es_mem s)) of
        None \<Rightarrow> Some (fail E thread EINVAL s)
      | Some raw \<Rightarrow>
          let secs = sint (le_word (take 8 raw) :: u64); nanos = sint (le_word (drop 8 raw) :: u64) in
          if \<not> (0 \<le> nanos \<and> nanos < 1000000000) then Some (fail E thread EINVAL s)
          else sem_wait_core E thread sem (Some (nat (max secs 0) * 1000000000 + nat nanos)) ts s)"

definition hle_sem_post :: "'m host_env \<Rightarrow> u64 \<Rightarrow> u64 list \<Rightarrow> 'm psem_state \<Rightarrow> u64 \<times> 'm psem_state" where
  "hle_sem_post E thread args s =
     (if arg args 0 = 0 then fail E thread EINVAL s
      else let (r, s1) = psem_object (arg args 0) s in
        if psem_count s1 r = I64_MAX then fail E thread EINVAL s1 else (SCE_OK, psem_add r 1 s1))"

definition hle_sem_getvalue ::
  "'m host_env \<Rightarrow> u64 \<Rightarrow> u64 list \<Rightarrow> 'm psem_state \<Rightarrow> u64 \<times> 'm psem_state" where
  "hle_sem_getvalue E thread args s =
     (let sem = arg args 0; sval = arg args 1 in
      if sem = 0 \<or> sval = 0 then fail E thread EINVAL s
      else let (r, s1) = psem_object sem s;
               clamped = max (- 2147483648) (min (psem_count s1 r) 2147483647);
               (ok, m') = gm_write E sval (u32_bytes (word_of_int clamped)) (es_mem s1);
               s2 = s1\<lparr>es_mem := m'\<rparr> in
        if \<not> ok then fail E thread EINVAL s2 else (SCE_OK, s2))"

section \<open>Well-formedness\<close>

definition psem_ok :: "'m psem_state \<Rightarrow> bool" where
  "psem_ok s \<longleftrightarrow> inj_on (posix_semaphores s) (dom (posix_semaphores s))
     \<and> (\<forall>r\<in>ran (posix_semaphores s). r < psem_fresh s)
     \<and> (\<forall>r. 0 \<le> psem_count s r \<and> psem_count s r \<le> I64_MAX)"

lemma psem_ok_distinct:
  "psem_ok s \<Longrightarrow> posix_semaphores s a = Some r \<Longrightarrow> posix_semaphores s b = Some r \<Longrightarrow> a = b"
  unfolding psem_ok_def by (metis domI inj_onD)

lemma psem_ok_fresh: "psem_ok s \<Longrightarrow> posix_semaphores s a = Some r \<Longrightarrow> r < psem_fresh s"
  unfolding psem_ok_def by (metis ranI)

lemma psem_ok_range: "psem_ok s \<Longrightarrow> 0 \<le> psem_count s r \<and> psem_count s r \<le> I64_MAX"
  by (simp add: psem_ok_def)

lemma psem_insert_ok:
  assumes "psem_ok s" and "0 \<le> v" and "v \<le> I64_MAX"
  shows "psem_ok (psem_insert a v s)"
proof -
  have "\<And>x y. posix_semaphores s x = Some r \<Longrightarrow> posix_semaphores s y = Some r \<Longrightarrow> x = y" for r
    using psem_ok_distinct [OF assms(1)] by blast
  moreover have "posix_semaphores s x \<noteq> Some (psem_fresh s)" for x
    using psem_ok_fresh [OF assms(1), of x] by auto
  ultimately have "inj_on ((posix_semaphores s)(a \<mapsto> psem_fresh s)) (dom ((posix_semaphores s)(a \<mapsto> psem_fresh s)))"
    by (auto simp: inj_on_def dom_def split: if_splits)
  moreover have "\<forall>r\<in>ran ((posix_semaphores s)(a \<mapsto> psem_fresh s)). r < psem_fresh s + 1"
    using psem_ok_fresh [OF assms(1)] by (auto simp: ran_def split: if_splits intro: less_SucI)
  ultimately show ?thesis using assms by (simp add: psem_ok_def psem_insert_def)
qed

lemma psem_object_ok:
  assumes "psem_ok s" and "psem_object a s = (r, s')"
  shows "psem_ok s'" and "posix_semaphores s' a = Some r"
    and "psem_count s' r = (case posix_semaphores s a of None \<Rightarrow> 0 | Some q \<Rightarrow> psem_count s q)"
    and "\<And>q. q < psem_fresh s \<Longrightarrow> psem_count s' q = psem_count s q"
    and "\<And>b. b \<noteq> a \<Longrightarrow> posix_semaphores s' b = posix_semaphores s b"
  using assms psem_insert_ok [OF assms(1), of 0 a]
  by (auto simp: psem_object_def psem_insert_def split: option.splits)

lemma psem_add_ok:
  "psem_ok s \<Longrightarrow> 0 \<le> psem_count s r + d \<Longrightarrow> psem_count s r + d \<le> I64_MAX \<Longrightarrow> psem_ok (psem_add r d s)"
  by (simp add: psem_ok_def psem_add_def)

section \<open>Instances of the contracts\<close>

text \<open>The count a guest sees at an address; an untouched address reads as an
  empty semaphore.\<close>

definition psem_at :: "u64 \<Rightarrow> 'm psem_state \<Rightarrow> int" where
  "psem_at a s = (case posix_semaphores s a of None \<Rightarrow> 0 | Some r \<Rightarrow> psem_count s r)"

lemma psem_object_at:
  assumes "psem_ok s" and "psem_object a s = (r, s')"
  shows "psem_at b s' = psem_at b s"
proof (cases "b = a")
  case True
  then show ?thesis using psem_object_ok(2,3) [OF assms] by (simp add: psem_at_def)
next
  case False
  have "posix_semaphores s' b = posix_semaphores s b" using psem_object_ok(5) [OF assms False] .
  moreover have "psem_count s' q = psem_count s q" if "posix_semaphores s b = Some q" for q
    using psem_object_ok(4) [OF assms] psem_ok_fresh [OF assms(1) that] by simp
  ultimately show ?thesis by (simp add: psem_at_def split: option.splits)
qed

lemma psem_add_at:
  assumes "psem_ok s" and "posix_semaphores s a = Some r"
  shows "psem_at b (psem_add r d s) = psem_at b s + (if b = a then d else 0)"
  using assms psem_ok_distinct [OF assms(1)]
  by (auto simp: psem_at_def psem_add_def split: option.splits)

definition psem_take :: "u64 \<Rightarrow> int \<Rightarrow> 'm psem_state \<Rightarrow> bool \<times> 'm psem_state" where
  "psem_take a n s = (if n = 1
     then let (r, s') = hle_pthread_sem_trywait [a] s in (r = SCE_OK, s') else (False, s))"

definition psem_give :: "u64 \<Rightarrow> int \<Rightarrow> 'm psem_state \<Rightarrow> bool \<times> 'm psem_state" where
  "psem_give a n s = (if n = 1
     then let (r, s') = hle_pthread_sem_post [a] s in (r = SCE_OK, s') else (False, s))"

lemma trywait_effect:
  assumes "psem_ok s" and "hle_pthread_sem_trywait [a] s = (r, s')"
  shows "psem_ok s' \<and> r \<in> {SCE_OK, SCE_EINVAL, SCE_EAGAIN}
    \<and> psem_at b s' = psem_at b s - (if r = SCE_OK \<and> b = a then 1 else 0)"
proof (cases "a = 0")
  case False
  obtain o1 s1 where e: "psem_object a s = (o1, s1)" by (cases "psem_object a s")
  note ok = psem_object_ok [OF assms(1) e]
  have "psem_ok (psem_add o1 (- 1) s1)" if "0 < psem_count s1 o1"
    using psem_add_ok [OF ok(1), of o1 "-1"] psem_ok_range [OF ok(1), of o1] that by simp
  then show ?thesis
    using assms(2) e False ok(1) psem_object_at [OF assms(1) e] psem_add_at [OF ok(1,2), of b "-1"]
    by (auto simp: hle_pthread_sem_trywait_def split: if_splits)
qed (use assms in \<open>auto simp: hle_pthread_sem_trywait_def\<close>)

lemma post_effect:
  assumes "psem_ok s" and "hle_pthread_sem_post [a] s = (r, s')"
  shows "psem_ok s' \<and> r \<in> {SCE_OK, SCE_EINVAL}
    \<and> psem_at b s' = psem_at b s + (if r = SCE_OK \<and> b = a then 1 else 0)"
proof (cases "a = 0")
  case False
  obtain o1 s1 where e: "psem_object a s = (o1, s1)" by (cases "psem_object a s")
  note ok = psem_object_ok [OF assms(1) e]
  have "psem_ok (psem_add o1 1 s1)" if "psem_count s1 o1 \<noteq> I64_MAX"
    using psem_add_ok [OF ok(1), of o1 1] psem_ok_range [OF ok(1), of o1] that by simp
  then show ?thesis
    using assms(2) e False ok(1) psem_object_at [OF assms(1) e] psem_add_at [OF ok(1,2), of b 1]
    by (auto simp: hle_pthread_sem_post_def split: if_splits)
qed (use assms in \<open>auto simp: hle_pthread_sem_post_def\<close>)

lemma psem_at_nonneg: "psem_ok s \<Longrightarrow> 0 \<le> psem_at a s"
  using psem_ok_range by (auto simp: psem_at_def split: option.splits)

interpretation psem: counting_semaphore psem_ok "\<lambda>a s. Some (psem_at a s)" psem_take psem_give
proof unfold_locales
  fix s s' :: "'m psem_state" and a b :: u64 and c n :: int and r :: bool
  assume ok: "psem_ok s"
  show "Some (psem_at a s) = Some c \<Longrightarrow> 0 \<le> c" using psem_at_nonneg [OF ok] by auto
  show "psem_take a n s = (r, s') \<Longrightarrow> psem_ok s'"
    using trywait_effect [OF ok] ok by (auto simp: psem_take_def split: if_splits prod.splits)
  show "psem_give a n s = (r, s') \<Longrightarrow> psem_ok s'"
    using post_effect [OF ok] ok by (auto simp: psem_give_def split: if_splits prod.splits)
  show "Some (psem_at a s) = Some c \<Longrightarrow> psem_take a n s = (True, s') \<Longrightarrow>
      Some (psem_at a s') = Some (c - n)"
    using trywait_effect [OF ok, of a SCE_OK] by (auto simp: psem_take_def split: if_splits prod.splits)
  show "psem_take a n s = (False, s') \<Longrightarrow> Some (psem_at b s') = Some (psem_at b s)"
    using trywait_effect [OF ok, of a] by (auto simp: psem_take_def split: if_splits prod.splits)
  show "Some (psem_at a s) = Some c \<Longrightarrow> psem_give a n s = (True, s') \<Longrightarrow>
      Some (psem_at a s') = Some (c + n)"
    using post_effect [OF ok, of a SCE_OK] by (auto simp: psem_give_def split: if_splits prod.splits)
  show "psem_give a n s = (False, s') \<Longrightarrow> Some (psem_at b s') = Some (psem_at b s)"
    using post_effect [OF ok, of a] by (auto simp: psem_give_def split: if_splits prod.splits)
qed

text \<open>A turn of the acquire is due at teardown, and past the deadline unless an
  exception was delivered at that very turn.\<close>

definition acquire_due :: "nat option \<Rightarrow> 's slice \<Rightarrow> bool" where
  "acquire_due dl t \<longleftrightarrow> sl_terminating t
     \<or> (\<not> sl_pending t \<and> (\<exists>d. dl = Some d \<and> d < sl_now t))"

interpretation psem_wait: sliced_wait "acquire_turn r" Acq_TimedOut acquire_due
proof unfold_locales
  fix dl and t :: "'m psem_state slice" and s s'
  show "acquire_turn r dl t s = Returned Acq_TimedOut s' \<Longrightarrow>
      guest_deadline_reached dl (sl_now t)"
    by (auto simp: acquire_turn_def Let_def guest_deadline_reached_def split: if_splits option.splits)
  show "acquire_turn r dl t s = Slice_over s' \<Longrightarrow> \<not> acquire_due dl t"
    by (auto simp: acquire_turn_def acquire_due_def Let_def split: if_splits option.splits)
qed

section \<open>Properties\<close>

text \<open>Conservation for the address-based semaphores: over any run of
  \<open>scePthreadSemTrywait\<close> and \<open>scePthreadSemPost\<close> on one address, the count
  ends at its initial value plus the successful posts minus the successful
  takes, is never negative and never overflows an \<open>i64\<close>; implicit creation on
  first touch counts as an empty semaphore.\<close>

theorem psem_conservation:
  assumes "psem_ok s" and "sem_run psem_take psem_give a xs s = (d, s')"
  shows "psem_ok s' \<and> psem_at a s' = psem_at a s + d \<and> 0 \<le> psem_at a s'"
  using psem.conservation [OF assms(1) refl assms(2)] by simp

definition demo_psem :: "byte list psem_state" where
  "demo_psem = \<lparr>es_mem = replicate 64 0, errno_slots = Map.empty,
     posix_semaphores = [0x800 \<mapsto> 0], psem_count = (\<lambda>r. if r = 0 then 2 else 0), psem_fresh = 1\<rparr>"

lemma demo_psem_ok: "psem_ok demo_psem"
  by (simp add: psem_ok_def demo_psem_def)

theorem psem_conservation_witness:
  "psem_at 0x800 (snd (sem_run psem_take psem_give 0x800 [Take 1, Give 1, Take 1, Take 1, Take 1] demo_psem))
     = 2 + fst (sem_run psem_take psem_give 0x800 [Take 1, Give 1, Take 1, Take 1, Take 1] demo_psem)"
proof -
  have "psem_at 0x800 demo_psem = 2" by (simp add: psem_at_def demo_psem_def)
  then show ?thesis
    using psem_conservation [where a = "0x800" and xs = "[Take 1, Give 1, Take 1, Take 1, Take 1]",
        OF demo_psem_ok surjective_pairing] by simp
qed

text \<open>The POSIX and the SCE spelling share one object: \<open>sem_init\<close> (with the
  private flag), \<open>sem_trywait\<close>, \<open>sem_post\<close> and \<open>sem_destroy\<close> change the table
  and the counts exactly as their \<open>scePthreadSem*\<close> counterparts and succeed on
  the same inputs; only the error convention and \<open>errno\<close> differ.\<close>

theorem spellings_agree:
  fixes E :: "'m host_env"
  shows "errno_state.more (snd (hle_sem_init E th [a, 0, v] s)) = errno_state.more (snd (hle_pthread_sem_init [a, 0, v] s))
     \<and> (fst (hle_sem_init E th [a, 0, v] s) = SCE_OK) = (fst (hle_pthread_sem_init [a, 0, v] s) = SCE_OK)
     \<and> errno_state.more (snd (hle_sem_trywait E th [a] s)) = errno_state.more (snd (hle_pthread_sem_trywait [a] s))
     \<and> (fst (hle_sem_trywait E th [a] s) = SCE_OK) = (fst (hle_pthread_sem_trywait [a] s) = SCE_OK)
     \<and> errno_state.more (snd (hle_sem_post E th [a] s)) = errno_state.more (snd (hle_pthread_sem_post [a] s))
     \<and> (fst (hle_sem_post E th [a] s) = SCE_OK) = (fst (hle_pthread_sem_post [a] s) = SCE_OK)
     \<and> errno_state.more (snd (hle_sem_destroy E th [a] s)) = errno_state.more (snd (hle_pthread_sem_destroy [a] s))
     \<and> (fst (hle_sem_destroy E th [a] s) = SCE_OK) = (fst (hle_pthread_sem_destroy [a] s) = SCE_OK)"
  by (auto simp: hle_sem_init_def hle_pthread_sem_init_def hle_sem_trywait_def
      hle_pthread_sem_trywait_def hle_sem_post_def hle_pthread_sem_post_def hle_sem_destroy_def
      hle_pthread_sem_destroy_def Let_def split: prod.splits)

text \<open>The acquire behind \<open>sem_wait\<close> never times out, and the one behind \<open>sem_timedwait\<close> fails with
  \<open>ETIMEDOUT\<close> only at a turn whose clock is past its absolute deadline; a unit
  that is available is taken even when the deadline has already expired; and
  the wait returns once a turn sees teardown, or the expired deadline with no
  exception to deliver.\<close>

theorem sem_timedwait_contract:
  assumes "a \<noteq> 0" and "psem_object a s = (r, s1)"
  shows "(\<forall>ts s'. acquire_sem a None ts s \<noteq> Some (Acq_TimedOut, s'))
    \<and> (\<forall>ts d s'. acquire_sem a (Some d) ts s = Some (Acq_TimedOut, s') \<longrightarrow> (\<exists>t\<in>set ts. d \<le> sl_now t))
    \<and> (\<forall>t ts dl. 0 < psem_count (sl_others t s1) r \<longrightarrow>
         acquire_sem a dl (t # ts) s = Some (Acq_Ok, psem_add r (- 1) (sl_others t s1)))
    \<and> (\<forall>ts dl. (\<exists>t\<in>set ts. acquire_due dl t) \<longrightarrow> acquire_sem a dl ts s \<noteq> None)"
proof (intro conjI allI impI)
  have w: "acquire_sem a dl ts s = run_slices (acquire_turn r dl) ts s1" for dl ts
    using assms by (simp add: acquire_sem_def)
  fix ts s'
  show "acquire_sem a None ts s \<noteq> Some (Acq_TimedOut, s')"
    using psem_wait.null_timeout_never_times_out [of r ts s1 Acq_TimedOut s'] w by auto
  show "\<exists>t\<in>set ts. d \<le> sl_now t" if "acquire_sem a (Some d) ts s = Some (Acq_TimedOut, s')" for d
    using psem_wait.timeout_at_deadline [of r "Some d" ts s1 s'] that w by simp
  show "acquire_sem a dl (t # ts) s = Some (Acq_Ok, psem_add r (- 1) (sl_others t s1))"
    if "0 < psem_count (sl_others t s1) r" for t dl
    using w that by (simp add: acquire_turn_def Let_def)
  have "acquire_turn r dl t x \<noteq> Still_parked" for dl t and x :: "'a psem_state"
    by (simp add: acquire_turn_def Let_def split: option.splits)
  then show "acquire_sem a dl ts s \<noteq> None" if "\<exists>t\<in>set ts. acquire_due dl t" for dl
    using that psem_wait.returns_when_due w by fastforce
qed

theorem sem_timedwait_contract_witness:
  "acquire_sem 0x800 (Some 5) [idle_slice 9] demo_psem \<noteq> None
   \<and> acquire_sem 0x900 None [idle_slice 9] demo_psem \<noteq> Some (Acq_TimedOut, demo_psem)"
proof -
  have "psem_object 0x800 demo_psem = (0, demo_psem)"
    by (simp add: psem_object_def demo_psem_def)
  from sem_timedwait_contract [OF _ this] have "acquire_sem 0x800 (Some 5) [idle_slice 9] demo_psem \<noteq> None"
    by (simp add: acquire_due_def idle_slice_def)
  moreover have "acquire_sem 0x900 None [idle_slice 9] demo_psem \<noteq> Some (Acq_TimedOut, demo_psem)"
    using sem_timedwait_contract [of "0x900" demo_psem "fst (psem_object 0x900 demo_psem)"
        "snd (psem_object 0x900 demo_psem)"] by simp
  ultimately show ?thesis ..
qed

end
