(* ===== verification/Guest_Waiters.thy ===== *)
theory Guest_Waiters
  imports Wait_Slices
begin

text \<open>
  The waiter primitive shared by every blocking synchronisation object
  (\<open>GuestWaiter\<close>, \<open>GuestWaitQueue\<close> and \<open>SyncAddressTable\<close> of
  \<open>crates/raeen-kernel/src/lib.rs\<close>).  Waiters are shared host objects
  (\<open>Arc<GuestWaiter>\<close>), so they live in an explicit heap and queues hold
  references.  The locale \<open>wait_queue\<close> states the wake-one contract of such a
  queue: first in first out, one waiter per wake, and a cancellation that fails
  only because a wake got there first.
\<close>

section \<open>Waiters\<close>

record guest_waiter =
  gw_thread :: u64
  gw_signaled_fast :: bool
  gw_signaled :: bool

record waiter_heap =
  wh_obj :: "nat \<Rightarrow> guest_waiter"
  wh_next :: nat

definition gw_new :: "u64 \<Rightarrow> waiter_heap \<Rightarrow> nat \<times> waiter_heap" where
  "gw_new thread H = (wh_next H, H\<lparr>
     wh_obj := (wh_obj H)(wh_next H :=
       \<lparr>gw_thread = thread, gw_signaled_fast = False, gw_signaled = False\<rparr>),
     wh_next := wh_next H + 1\<rparr>)"

text \<open>The fast flag is stored before the flag the park path checks.\<close>

definition gw_wake :: "nat \<Rightarrow> waiter_heap \<Rightarrow> waiter_heap" where
  "gw_wake w H =
     (let H1 = H\<lparr>wh_obj := (wh_obj H)(w := (wh_obj H w)\<lparr>gw_signaled_fast := True\<rparr>)\<rparr> in
      H1\<lparr>wh_obj := (wh_obj H1)(w := (wh_obj H1 w)\<lparr>gw_signaled := True\<rparr>)\<rparr>)"

text \<open>Ends a host park without granting anything.\<close>

definition gw_interrupt :: "nat \<Rightarrow> waiter_heap \<Rightarrow> waiter_heap" where
  "gw_interrupt w H = H"

definition thread_of :: "waiter_heap \<Rightarrow> nat \<Rightarrow> u64" where
  "thread_of H w = gw_thread (wh_obj H w)"

definition is_signaled :: "waiter_heap \<Rightarrow> nat \<Rightarrow> bool" where
  "is_signaled H w = gw_signaled (wh_obj H w)"

text \<open>The spin phase polls the fast flag: once per iteration of the budget and
  once more at the end; \<open>hs i\<close> is the heap at the \<open>i\<close>-th load.\<close>

fun spin_from :: "(nat \<Rightarrow> waiter_heap) \<Rightarrow> nat \<Rightarrow> nat \<Rightarrow> nat \<Rightarrow> bool" where
  "spin_from hs w i 0 = gw_signaled_fast (wh_obj (hs i) w)"
| "spin_from hs w i (Suc budget) =
     (if gw_signaled_fast (wh_obj (hs i) w) then True else spin_from hs w (i + 1) budget)"

definition spin_for_signal :: "(nat \<Rightarrow> waiter_heap) \<Rightarrow> nat \<Rightarrow> nat \<Rightarrow> bool" where
  "spin_for_signal hs w budget = spin_from hs w 0 budget"

text \<open>One bounded host park: \<open>others\<close> is what happened until it ended.\<close>

definition wait_for_signal :: "(waiter_heap \<Rightarrow> waiter_heap) \<Rightarrow> nat \<Rightarrow> waiter_heap \<Rightarrow> bool \<times> waiter_heap" where
  "wait_for_signal others w H =
     (if is_signaled H w then (True, H) else let H1 = others H in (is_signaled H1 w, H1))"

section \<open>The wait queue\<close>

type_synonym gqueue = "nat list \<times> waiter_heap"

definition enqueue_waiter :: "u64 \<Rightarrow> gqueue \<Rightarrow> nat \<times> gqueue" where
  "enqueue_waiter thread = (\<lambda>(q, H). let (w, H1) = gw_new thread H in (w, (q @ [w], H1)))"

definition cancel_waiter :: "nat \<Rightarrow> gqueue \<Rightarrow> bool \<times> gqueue" where
  "cancel_waiter w = (\<lambda>(q, H). if w \<in> set q then (True, (remove1 w q, H)) else (False, (q, H)))"

definition signal_one :: "gqueue \<Rightarrow> bool \<times> gqueue" where
  "signal_one = (\<lambda>(q, H). case q of [] \<Rightarrow> (False, (q, H)) | w # ws \<Rightarrow> (True, (ws, gw_wake w H)))"

fun signal_many :: "nat \<Rightarrow> gqueue \<Rightarrow> nat \<times> gqueue" where
  "signal_many 0 (q, H) = (0, (q, H))"
| "signal_many (Suc count) ([], H) = (0, ([], H))"
| "signal_many (Suc count) (w # ws, H) =
     (let (woken, r) = signal_many count (ws, gw_wake w H) in (Suc woken, r))"

definition signal_thread :: "u64 \<Rightarrow> gqueue \<Rightarrow> bool \<times> gqueue" where
  "signal_thread thread = (\<lambda>(q, H).
     case filter (\<lambda>w. thread_of H w = thread) q of
       [] \<Rightarrow> (False, (q, H))
     | w # _ \<Rightarrow> (True, (remove1 w q, gw_wake w H)))"

definition broadcast :: "gqueue \<Rightarrow> nat \<times> gqueue" where
  "broadcast = (\<lambda>(q, H). (length q, ([], fold gw_wake q H)))"

definition interrupt_waiters_of :: "u64 \<Rightarrow> gqueue \<Rightarrow> nat \<times> gqueue" where
  "interrupt_waiters_of thread = (\<lambda>(q, H).
     let ws = filter (\<lambda>w. thread_of H w = thread) q in (length ws, (q, fold gw_interrupt ws H)))"

definition remove_waiters_of :: "u64 \<Rightarrow> gqueue \<Rightarrow> nat \<times> gqueue" where
  "remove_waiters_of thread = (\<lambda>(q, H).
     let q' = filter (\<lambda>w. thread_of H w \<noteq> thread) q in (length q - length q', (q', H)))"

section \<open>The address-keyed parking lot\<close>

record sync_table =
  sa_queues :: "u64 \<rightharpoonup> nat list"
  sa_heap :: waiter_heap

definition sa_queue :: "u64 \<Rightarrow> sync_table \<Rightarrow> nat list" where
  "sa_queue address T = (case sa_queues T address of None \<Rightarrow> [] | Some q \<Rightarrow> q)"

definition sa_store :: "u64 \<Rightarrow> gqueue \<Rightarrow> sync_table \<Rightarrow> sync_table" where
  "sa_store address g T = T\<lparr>sa_queues := (sa_queues T)(address \<mapsto> fst g), sa_heap := snd g\<rparr>"

definition sa_enqueue :: "u64 \<Rightarrow> u64 \<Rightarrow> sync_table \<Rightarrow> nat \<times> sync_table" where
  "sa_enqueue address thread T =
     (let (w, g) = enqueue_waiter thread (sa_queue address T, sa_heap T) in (w, sa_store address g T))"

definition sa_wake :: "u64 \<Rightarrow> nat \<Rightarrow> sync_table \<Rightarrow> nat \<times> sync_table" where
  "sa_wake address count T =
     (case sa_queues T address of
        None \<Rightarrow> (0, T)
      | Some q \<Rightarrow> let (n, g) = signal_many count (q, sa_heap T) in (n, sa_store address g T))"

definition sa_cancel :: "u64 \<Rightarrow> nat \<Rightarrow> sync_table \<Rightarrow> bool \<times> sync_table" where
  "sa_cancel address w T =
     (let (r, g) = cancel_waiter w (sa_queue address T, sa_heap T) in (r, sa_store address g T))"

section \<open>The contract of a wake-one queue\<close>

datatype wq_op = Wq_join u64 | Wq_wake | Wq_cancel nat

text \<open>\<open>can\<close> is what a queue asks of a thread that joins; a join by another
  thread does not happen.\<close>

fun wq_run ::
  "(u64 \<Rightarrow> 's \<Rightarrow> bool) \<Rightarrow> (u64 \<Rightarrow> 's \<Rightarrow> nat \<times> 's) \<Rightarrow> ('s \<Rightarrow> 's) \<Rightarrow> (nat \<Rightarrow> 's \<Rightarrow> bool \<times> 's) \<Rightarrow> wq_op list \<Rightarrow> 's \<Rightarrow> 's" where
  "wq_run can enq wake1 cancel [] s = s"
| "wq_run can enq wake1 cancel (Wq_join t # xs) s =
     wq_run can enq wake1 cancel xs (if can t s then snd (enq t s) else s)"
| "wq_run can enq wake1 cancel (Wq_wake # xs) s = wq_run can enq wake1 cancel xs (wake1 s)"
| "wq_run can enq wake1 cancel (Wq_cancel w # xs) s = wq_run can enq wake1 cancel xs (snd (cancel w s))"

locale wait_queue =
  fixes ok :: "'s \<Rightarrow> bool"
    and pending :: "'s \<Rightarrow> nat list"
    and woken :: "'s \<Rightarrow> nat \<Rightarrow> bool"
    and can :: "u64 \<Rightarrow> 's \<Rightarrow> bool"
    and enq :: "u64 \<Rightarrow> 's \<Rightarrow> nat \<times> 's"
    and wake1 :: "'s \<Rightarrow> 's"
    and cancel :: "nat \<Rightarrow> 's \<Rightarrow> bool \<times> 's"
  assumes pending_distinct: "ok s \<Longrightarrow> distinct (pending s)"
    and pending_asleep: "ok s \<Longrightarrow> w \<in> set (pending s) \<Longrightarrow> \<not> woken s w"
    and enq_ok: "ok s \<Longrightarrow> can t s \<Longrightarrow> enq t s = (w, s') \<Longrightarrow> ok s'"
    and enq_last: "ok s \<Longrightarrow> can t s \<Longrightarrow> enq t s = (w, s') \<Longrightarrow>
      pending s' = pending s @ [w] \<and> w \<notin> set (pending s) \<and> (\<forall>v\<in>set (pending s). woken s' v = woken s v)"
    and enq_keeps_woken: "ok s \<Longrightarrow> can t s \<Longrightarrow> enq t s = (w, s') \<Longrightarrow> woken s v \<Longrightarrow> woken s' v"
    and wake_ok: "ok s \<Longrightarrow> ok (wake1 s)"
    and wake_head: "ok s \<Longrightarrow> pending s = w # ws \<Longrightarrow>
      pending (wake1 s) = ws \<and> (\<forall>v. woken (wake1 s) v = (v = w \<or> woken s v))"
    and wake_none: "ok s \<Longrightarrow> pending s = [] \<Longrightarrow> pending (wake1 s) = [] \<and> woken (wake1 s) = woken s"
    and cancel_ok: "ok s \<Longrightarrow> cancel w s = (r, s') \<Longrightarrow> ok s'"
    and cancel_iff: "ok s \<Longrightarrow> cancel w s = (r, s') \<Longrightarrow>
      r = (w \<in> set (pending s)) \<and> pending s' = remove1 w (pending s) \<and> woken s' = woken s"
begin

text \<open>\<open>k\<close> wakes select exactly the \<open>k\<close> oldest waiters.\<close>

lemma fifo:
  assumes "ok s"
  shows "ok ((wake1 ^^ k) s) \<and> pending ((wake1 ^^ k) s) = drop k (pending s)
    \<and> (\<forall>v. woken ((wake1 ^^ k) s) v = (v \<in> set (take k (pending s)) \<or> woken s v))"
proof (induction k)
  case 0
  then show ?case using assms by simp
next
  case (Suc k)
  let ?t = "(wake1 ^^ k) s"
  have IH: "ok ?t" "pending ?t = drop k (pending s)"
      "\<And>v. woken ?t v = (v \<in> set (take k (pending s)) \<or> woken s v)" using Suc by auto
  show ?case
  proof (cases "drop k (pending s)")
    case Nil
    then show ?thesis using wake_none [OF IH(1)] IH wake_ok [OF IH(1)] by simp
  next
    case (Cons w ws)
    then have k: "k < length (pending s)" by (metis drop_eq_Nil2 list.discI not_le)
    have "w = pending s ! k" "ws = drop (Suc k) (pending s)"
      using Cons k by (simp_all add: Cons_nth_drop_Suc [symmetric])
    then show ?thesis
      using wake_head [OF IH(1), of w ws] IH Cons wake_ok [OF IH(1)] k
      by (auto simp: take_Suc_conv_app_nth)
  qed
qed

text \<open>A waiter that was queued is, until it cancels itself, still queued or has
  been woken: so a cancellation that finds it gone means it was woken.\<close>

lemma queued_or_woken:
  assumes "ok s" and "w \<in> set (pending s) \<or> woken s w" and "Wq_cancel w \<notin> set xs"
  shows "ok (wq_run can enq wake1 cancel xs s)
    \<and> (w \<in> set (pending (wq_run can enq wake1 cancel xs s)) \<or> woken (wq_run can enq wake1 cancel xs s) w)"
  using assms
proof (induction xs arbitrary: s)
  case (Cons x xs)
  have "ok (wq_run can enq wake1 cancel [x] s) \<and> (w \<in> set (pending (wq_run can enq wake1 cancel [x] s))
      \<or> woken (wq_run can enq wake1 cancel [x] s) w)"
  proof (cases x)
    case (Wq_join t)
    obtain v s' where e: "enq t s = (v, s')" by (cases "enq t s")
    show ?thesis
    proof (cases "can t s")
      case True
      then show ?thesis
        using enq_ok [OF Cons.prems(1) _ e] enq_last [OF Cons.prems(1) _ e]
          enq_keeps_woken [OF Cons.prems(1) _ e] Cons.prems(2) e Wq_join by auto
    qed (use Cons.prems Wq_join in simp)
  next
    case Wq_wake
    show ?thesis
    proof (cases "pending s")
      case Nil
      then show ?thesis using wake_none [OF Cons.prems(1)] wake_ok [OF Cons.prems(1)] Cons.prems(2) Wq_wake
        by auto
    next
      case (Cons v vs)
      then show ?thesis using wake_head [OF Cons.prems(1)] wake_ok [OF Cons.prems(1)] Cons.prems(2) Wq_wake
        by auto
    qed
  next
    case (Wq_cancel v)
    obtain r s' where e: "cancel v s = (r, s')" by (cases "cancel v s")
    have "v \<noteq> w" using Cons.prems(3) Wq_cancel by auto
    then show ?thesis
      using cancel_ok [OF Cons.prems(1) e] cancel_iff [OF Cons.prems(1) e] Cons.prems(2) e Wq_cancel
      by auto
  qed
  moreover have "wq_run can enq wake1 cancel (x # xs) s
      = wq_run can enq wake1 cancel xs (wq_run can enq wake1 cancel [x] s)" by (cases x) simp_all
  ultimately show ?case using Cons.IH Cons.prems(3) by simp
qed simp

lemma cancel_false_means_woken:
  assumes "ok s" and "w \<in> set (pending s)" and "Wq_cancel w \<notin> set xs"
    and "cancel w (wq_run can enq wake1 cancel xs s) = (False, s')"
  shows "woken s' w"
proof -
  let ?t = "wq_run can enq wake1 cancel xs s"
  have t: "ok ?t" "w \<in> set (pending ?t) \<or> woken ?t w"
    using queued_or_woken [OF assms(1) _ assms(3)] assms(2) by auto
  show ?thesis using cancel_iff [OF t(1) assms(4)] t(2) by auto
qed

end

section \<open>The wait queue meets the contract\<close>

definition gq_ok :: "gqueue \<Rightarrow> bool" where
  "gq_ok = (\<lambda>(q, H). distinct q \<and> (\<forall>w\<in>set q. w < wh_next H \<and> \<not> is_signaled H w))"

definition gq_pending :: "gqueue \<Rightarrow> nat list" where "gq_pending = fst"

definition gq_woken :: "gqueue \<Rightarrow> nat \<Rightarrow> bool" where
  "gq_woken g w \<longleftrightarrow> w < wh_next (snd g) \<and> is_signaled (snd g) w"

definition gq_wake :: "gqueue \<Rightarrow> gqueue" where "gq_wake g = snd (signal_one g)"

lemma gw_wake_simps [simp]:
  "is_signaled (gw_wake w H) v \<longleftrightarrow> v = w \<or> is_signaled H v"
  "thread_of (gw_wake w H) v = thread_of H v"
  "wh_next (gw_wake w H) = wh_next H"
  by (auto simp: gw_wake_def is_signaled_def thread_of_def)

lemma fold_wake_simps [simp]:
  "is_signaled (fold gw_wake q H) v \<longleftrightarrow> v \<in> set q \<or> is_signaled H v"
  "thread_of (fold gw_wake q H) v = thread_of H v"
  "wh_next (fold gw_wake q H) = wh_next H"
  by (induction q arbitrary: H) auto

lemma gw_new_simps:
  assumes "gw_new t H = (w, H')"
  shows "w = wh_next H" and "wh_next H' = wh_next H + 1" and "thread_of H' w = t" and "\<not> is_signaled H' w"
    and "v \<noteq> w \<Longrightarrow> thread_of H' v = thread_of H v \<and> is_signaled H' v = is_signaled H v"
  using assms by (auto simp: gw_new_def thread_of_def is_signaled_def)

interpretation gq: wait_queue gq_ok gq_pending gq_woken "\<lambda>_ _. True" enqueue_waiter gq_wake cancel_waiter
proof unfold_locales
  fix s s' :: gqueue and w v :: nat and t r ws
  obtain q H where s: "s = (q, H)" by (cases s)
  assume ok: "gq_ok s"
  show "distinct (gq_pending s)" using ok s by (simp add: gq_ok_def gq_pending_def)
  show "w \<in> set (gq_pending s) \<Longrightarrow> \<not> gq_woken s w"
    using ok s by (auto simp: gq_ok_def gq_pending_def gq_woken_def)
  obtain w0 H0 where n: "gw_new t H = (w0, H0)" by (cases "gw_new t H")
  note g = gw_new_simps [OF n]
  { assume e: "enqueue_waiter t s = (w, s')"
    then have s': "w = w0" "s' = (q @ [w0], H0)" using s n by (auto simp: enqueue_waiter_def)
    have "w0 \<notin> set q" using ok s g(1) by (auto simp: gq_ok_def)
    then have old: "is_signaled H0 x = is_signaled H x" if "x \<in> set q" for x
      using g(5) [of x] that by auto
    show "gq_ok s'" using \<open>w0 \<notin> set q\<close> old ok s s' g(1,2,4) by (auto simp: gq_ok_def less_Suc_eq)
    show "gq_pending s' = gq_pending s @ [w] \<and> w \<notin> set (gq_pending s)
        \<and> (\<forall>v\<in>set (gq_pending s). gq_woken s' v = gq_woken s v)"
      using \<open>w0 \<notin> set q\<close> old ok s s' g(2)
      by (auto simp: gq_pending_def gq_woken_def gq_ok_def)
    show "gq_woken s v \<Longrightarrow> gq_woken s' v"
      using s s' g(1,2) g(5) [of v] by (auto simp: gq_woken_def) }
  show "gq_ok (gq_wake s)"
    using ok s by (auto simp: gq_wake_def signal_one_def gq_ok_def split: list.splits)
  show "gq_pending s = w # ws \<Longrightarrow>
      gq_pending (gq_wake s) = ws \<and> (\<forall>v. gq_woken (gq_wake s) v = (v = w \<or> gq_woken s v))"
    using ok s by (auto simp: gq_wake_def signal_one_def gq_pending_def gq_woken_def gq_ok_def)
  show "gq_pending s = [] \<Longrightarrow> gq_pending (gq_wake s) = [] \<and> gq_woken (gq_wake s) = gq_woken s"
    using s by (auto simp: gq_wake_def signal_one_def gq_pending_def)
  { assume e: "cancel_waiter w s = (r, s')"
    show "gq_ok s'" using e ok s
      by (auto simp: cancel_waiter_def gq_ok_def split: if_splits dest: notin_set_remove1 [rotated])
    show "r = (w \<in> set (gq_pending s)) \<and> gq_pending s' = remove1 w (gq_pending s) \<and> gq_woken s' = gq_woken s"
      using e s by (auto simp: cancel_waiter_def gq_pending_def gq_woken_def remove1_idem split: if_splits) }
qed

lemma signal_many_wakes: "signal_many k g = (min k (length (fst g)), (gq_wake ^^ k) g)"
proof (induction k g rule: signal_many.induct)
  case (1 q H)
  then show ?case by simp
next
  case (2 count H)
  have "(gq_wake ^^ n) ([], H) = ([], H)" for n
    by (induction n) (simp_all add: gq_wake_def signal_one_def)
  then show ?case by (simp del: funpow.simps)
next
  case (3 count w ws H)
  have "(gq_wake ^^ Suc count) (w # ws, H) = (gq_wake ^^ count) (ws, gw_wake w H)"
    by (simp only: funpow_Suc_right comp_apply) (simp add: gq_wake_def signal_one_def)
  then show ?case using 3 by (simp del: funpow.simps)
qed

definition sync_ok :: "sync_table \<Rightarrow> bool" where
  "sync_ok T \<longleftrightarrow> (\<forall>a q. sa_queues T a = Some q \<longrightarrow> gq_ok (q, sa_heap T))
     \<and> (\<forall>a b q r. sa_queues T a = Some q \<longrightarrow> sa_queues T b = Some r \<longrightarrow> a \<noteq> b \<longrightarrow> set q \<inter> set r = {})"

section \<open>Properties\<close>

text \<open>C9: wake-one is first in first out and never a delayed broadcast:
  \<open>k\<close> signals, or one \<open>signal_many(k)\<close>, wake exactly the \<open>k\<close> oldest waiters of
  the queue, leave the others queued and asleep in their order, and
  \<open>signal_many\<close> reports how many it woke.\<close>

theorem wait_queue_fifo:
  assumes "gq_ok g"
  shows "gq_ok ((gq_wake ^^ k) g) \<and> gq_pending ((gq_wake ^^ k) g) = drop k (gq_pending g)
    \<and> (\<forall>v. gq_woken ((gq_wake ^^ k) g) v = (v \<in> set (take k (gq_pending g)) \<or> gq_woken g v))
    \<and> signal_many k g = (min k (length (gq_pending g)), (gq_wake ^^ k) g)"
  using gq.fifo [OF assms, of k] signal_many_wakes [of k g] by (simp add: gq_pending_def)

definition demo_queue :: gqueue where
  "demo_queue = snd (enqueue_waiter 33 (snd (enqueue_waiter 22 (snd (enqueue_waiter 11
     ([], \<lparr>wh_obj = \<lambda>n. \<lparr>gw_thread = 0, gw_signaled_fast = False, gw_signaled = False\<rparr>,
       wh_next = 0\<rparr>))))))"

lemma demo_queue_ok: "gq_ok demo_queue" "gq_pending demo_queue = [0, 1, 2]"
  by (simp_all add: demo_queue_def enqueue_waiter_def gw_new_def gq_ok_def gq_pending_def is_signaled_def)

theorem wait_queue_fifo_witness:
  "gq_pending ((gq_wake ^^ 2) demo_queue) = [2] \<and> fst (signal_many 2 demo_queue) = 2"
  using wait_queue_fifo [OF demo_queue_ok(1), of 2] demo_queue_ok(2) by simp

text \<open>The timeout and wake race resolves without a lost wakeup: once a
  waiter is queued, whatever joins, wakes and cancellations of other waiters
  follow, a cancellation of it that returns \<open>false\<close> means its private wake bit
  is already set.\<close>

theorem cancel_false_means_signaled:
  assumes "gq_ok g" and "w \<in> set (gq_pending g)" and "Wq_cancel w \<notin> set xs"
    and "cancel_waiter w (wq_run (\<lambda>_ _. True) enqueue_waiter gq_wake cancel_waiter xs g) = (False, (q, H))"
  shows "is_signaled H w"
  using gq.cancel_false_means_woken [OF assms] by (simp add: gq_woken_def)

theorem cancel_false_means_signaled_witness:
  "is_signaled (snd (snd (cancel_waiter 0 (wq_run (\<lambda>_ _. True) enqueue_waiter gq_wake cancel_waiter
     [Wq_join 44, Wq_wake, Wq_cancel 1] demo_queue)))) 0"
proof -
  let ?r = "cancel_waiter 0 (wq_run (\<lambda>_ _. True) enqueue_waiter gq_wake cancel_waiter
     [Wq_join 44, Wq_wake, Wq_cancel 1] demo_queue)"
  have "fst ?r = False"
    by (simp add: demo_queue_def enqueue_waiter_def gw_new_def gq_wake_def signal_one_def
        cancel_waiter_def)
  then have "?r = (False, (fst (snd ?r), snd (snd ?r)))" by (simp add: prod_eq_iff)
  from cancel_false_means_signaled [OF demo_queue_ok(1) _ _ this] demo_queue_ok(2)
  show ?thesis by simp
qed

text \<open>The spin phase reports a grant exactly when one of its
  \<open>budget + 1\<close> loads saw the fast flag, and cannot report one that was not
  made.\<close>

theorem spin_exact:
  "spin_for_signal hs w budget \<longleftrightarrow> (\<exists>i\<le>budget. gw_signaled_fast (wh_obj (hs i) w))"
proof -
  have "spin_from hs w i b \<longleftrightarrow> (\<exists>j. i \<le> j \<and> j \<le> i + b \<and> gw_signaled_fast (wh_obj (hs j) w))" for i b
  proof (induction b arbitrary: i)
    case 0
    then show ?case by (auto simp: antisym)
  next
    case (Suc b)
    have "(\<exists>j. i \<le> j \<and> j \<le> i + Suc b \<and> P j) \<longleftrightarrow> P i \<or> (\<exists>j. i + 1 \<le> j \<and> j \<le> i + 1 + b \<and> P j)" for P
    proof
      assume "\<exists>j. i \<le> j \<and> j \<le> i + Suc b \<and> P j"
      then obtain j where "i \<le> j" "j \<le> i + Suc b" "P j" by blast
      then show "P i \<or> (\<exists>j. i + 1 \<le> j \<and> j \<le> i + 1 + b \<and> P j)"
        by (cases "j = i") (auto intro: exI [of _ j])
    next
      assume "P i \<or> (\<exists>j. i + 1 \<le> j \<and> j \<le> i + 1 + b \<and> P j)"
      then show "\<exists>j. i \<le> j \<and> j \<le> i + Suc b \<and> P j"
      proof
        assume "\<exists>j. i + 1 \<le> j \<and> j \<le> i + 1 + b \<and> P j"
        then obtain j where "i + 1 \<le> j" "j \<le> i + 1 + b" "P j" by blast
        then show ?thesis by (intro exI [of _ j]) simp
      qed (auto intro: exI [of _ i])
    qed
    then show ?case using Suc by simp
  qed
  then show ?thesis by (simp add: spin_for_signal_def)
qed

text \<open>The address-keyed parking lot keeps addresses apart: a wake on one
  address selects the oldest \<open>count\<close> waiters of that address and changes
  neither the queue nor the wake bits of the waiters of any other address.\<close>

theorem sync_wake_isolated:
  assumes "sync_ok T" and "sa_queues T a = Some q"
  shows "\<exists>T'. sa_wake a n T = (min n (length q), T') \<and> sa_queues T' a = Some (drop n q)
    \<and> (\<forall>w\<in>set (take n q). is_signaled (sa_heap T') w)
    \<and> (\<forall>b r. b \<noteq> a \<longrightarrow> sa_queues T b = Some r \<longrightarrow> sa_queues T' b = Some r
        \<and> (\<forall>w\<in>set r. \<not> is_signaled (sa_heap T') w))
    \<and> sync_ok T'"
proof -
  let ?g = "(q, sa_heap T)" and ?g' = "(gq_wake ^^ n) (q, sa_heap T)"
  have ok: "gq_ok ?g" using assms by (simp add: sync_ok_def)
  note f = gq.fifo [OF ok, of n]
  have f': "gq_ok ?g'" "fst ?g' = drop n q"
      "\<And>v. gq_woken ?g' v = (v \<in> set (take n q) \<or> gq_woken ?g v)"
    using f by (simp_all add: gq_pending_def)
  let ?T = "sa_store a ?g' T"
  have w: "sa_wake a n T = (min n (length q), ?T)"
    using assms(2) signal_many_wakes [of n ?g] by (simp add: sa_wake_def)
  have nx: "wh_next (snd ((gq_wake ^^ k) ?g)) = wh_next (sa_heap T)" for k
    by (induction k) (auto simp: gq_wake_def signal_one_def split: list.splits prod.splits)
  have taken: "is_signaled (snd ?g') v" if "v \<in> set (take n q)" for v
    using f'(3) [of v] that by (simp add: gq_woken_def)
  have others: "v < wh_next (snd ?g') \<and> \<not> is_signaled (snd ?g') v"
    if "b \<noteq> a" "sa_queues T b = Some r" "v \<in> set r" for b r v
  proof -
    have "gq_ok (r, sa_heap T)" and "set q \<inter> set r = {}"
      using assms that unfolding sync_ok_def by blast+
    then have "v < wh_next (sa_heap T)" "\<not> gq_woken ?g v" "v \<notin> set (take n q)"
      using that(3) by (auto simp: gq_ok_def gq_woken_def dest: in_set_takeD)
    then show ?thesis using f'(3) [of v] nx [of n] by (simp add: gq_woken_def)
  qed
  have "sync_ok ?T"
    unfolding sync_ok_def
  proof (intro conjI allI impI)
    fix b r assume b: "sa_queues ?T b = Some r"
    show "gq_ok (r, sa_heap ?T)"
    proof (cases "b = a")
      case True
      then have "r = fst ?g'" using b by (simp add: sa_store_def)
      then show ?thesis using f'(1) by (simp add: sa_store_def)
    next
      case False
      then have r: "sa_queues T b = Some r" using b by (simp add: sa_store_def)
      then have "distinct r" using assms(1) by (auto simp: sync_ok_def gq_ok_def)
      then show ?thesis using others [OF False r] by (simp add: gq_ok_def sa_store_def)
    qed
  next
    fix b c r u assume bc: "sa_queues ?T b = Some r" "sa_queues ?T c = Some u" "b \<noteq> c"
    have sub: "\<exists>r0. sa_queues T x = Some r0 \<and> set r' \<subseteq> set r0" if "sa_queues ?T x = Some r'" for x r'
    proof (cases "x = a")
      case True
      then have "r' = drop n q" using that f'(2) by (simp add: sa_store_def)
      then show ?thesis using True assms(2) set_drop_subset [of n q] by simp
    next
      case False
      then show ?thesis using that by (simp add: sa_store_def)
    qed
    from sub [OF bc(1)] sub [OF bc(2)] obtain r0 u0
      where "sa_queues T b = Some r0" "set r \<subseteq> set r0" "sa_queues T c = Some u0" "set u \<subseteq> set u0" by blast
    moreover have "set r0 \<inter> set u0 = {}"
      using calculation(1,3) bc(3) assms(1) unfolding sync_ok_def by blast
    ultimately show "set r \<inter> set u = {}" by blast
  qed
  then show ?thesis using w f'(2) taken others by (intro exI [of _ ?T]) (auto simp: sa_store_def)
qed

theorem sync_wake_isolated_witness:
  "\<exists>T'. sa_wake 0x40 1 \<lparr>sa_queues = [0x40 \<mapsto> [0, 1], 0x80 \<mapsto> [2]], sa_heap = snd demo_queue\<rparr> = (1, T')
     \<and> sa_queues T' 0x80 = Some [2] \<and> \<not> is_signaled (sa_heap T') 2"
proof -
  have "gq_ok ([0, 1], snd demo_queue)" "gq_ok ([2], snd demo_queue)"
    by (simp_all add: demo_queue_def enqueue_waiter_def gw_new_def gq_ok_def is_signaled_def)
  then have "sync_ok \<lparr>sa_queues = [0x40 \<mapsto> [0, 1], 0x80 \<mapsto> [2]], sa_heap = snd demo_queue\<rparr>"
    by (auto simp: sync_ok_def split: if_splits)
  from sync_wake_isolated [OF this, of "0x40" "[0, 1]" 1] obtain T' where
    T': "sa_wake 0x40 1 \<lparr>sa_queues = [0x40 \<mapsto> [0, 1], 0x80 \<mapsto> [2]], sa_heap = snd demo_queue\<rparr> = (1, T')"
    and o: "\<forall>b r. b \<noteq> 0x40 \<longrightarrow> [0x40 \<mapsto> [0, 1], 0x80 \<mapsto> [2]] b = Some r \<longrightarrow>
      sa_queues T' b = Some r \<and> (\<forall>w\<in>set r. \<not> is_signaled (sa_heap T') w)"
    by auto
  from o [rule_format, of "0x80" "[2]"] have "sa_queues T' 0x80 = Some [2]" "\<not> is_signaled (sa_heap T') 2"
    by simp_all
  then show ?thesis using T' by blast
qed

end
