(* ===== verification/Pthread_Mutex.thy ===== *)
theory Pthread_Mutex
  imports Guest_Waiters Guest_Errno
begin

text \<open>
  Guest pthread mutexes: the lock object of \<open>crates/raeen-kernel/src/lib.rs\<close>
  (\<open>PthreadMutex\<close>) and the calls of \<open>crates/raeen-hle/src/pthread_sync.rs\<close>.
  A mutex is a shared host object reachable under two guest addresses, the
  pointer slot and the opaque handle, so the table maps addresses to references.
  The theory first models the object (owner, recursion, waiters in order of
  arrival, direct handoff), then the calls with their waiting loop, and proves
  mutual exclusion over all interleavings of lock, spin, park, time-out and
  unlock steps.
\<close>

section \<open>The mutex object\<close>

abbreviation (input) MUTEX_ERRORCHECK :: int where "MUTEX_ERRORCHECK \<equiv> 1"
abbreviation (input) MUTEX_RECURSIVE :: int where "MUTEX_RECURSIVE \<equiv> 2"
abbreviation (input) MUTEX_NORMAL :: int where "MUTEX_NORMAL \<equiv> 3"
abbreviation (input) MUTEX_ADAPTIVE :: int where "MUTEX_ADAPTIVE \<equiv> 4"

record mutex_waiter =
  mw_signal :: nat
  mw_acquire_site :: u64
  mw_acquire_rsp :: u64

record pthread_mutex =
  pm_ty :: int
  pm_owner :: u64
  pm_recursion :: int
  pm_acquire_site :: u64
  pm_acquire_rsp :: u64
  pm_waiters :: "mutex_waiter list"

type_synonym mutex_heap = "pthread_mutex \<times> waiter_heap"

definition mutex_shared :: "int \<Rightarrow> pthread_mutex" where
  "mutex_shared ty = \<lparr>pm_ty = ty, pm_owner = 0, pm_recursion = 0, pm_acquire_site = 0,
     pm_acquire_rsp = 0, pm_waiters = []\<rparr>"

definition enqueue_mutex_waiter :: "u64 \<Rightarrow> u64 \<Rightarrow> u64 \<Rightarrow> mutex_heap \<Rightarrow> nat \<times> mutex_heap" where
  "enqueue_mutex_waiter thread site rsp = (\<lambda>(m, H).
     let ws = (if thread \<noteq> 0 then filter (\<lambda>x. thread_of H (mw_signal x) \<noteq> thread) (pm_waiters m)
               else pm_waiters m);
         (w, H1) = gw_new thread H in
     (w, (m\<lparr>pm_waiters := ws @ [\<lparr>mw_signal = w, mw_acquire_site = site, mw_acquire_rsp = rsp\<rparr>]\<rparr>, H1)))"

fun remove_signal :: "nat \<Rightarrow> mutex_waiter list \<Rightarrow> mutex_waiter list option" where
  "remove_signal w [] = None"
| "remove_signal w (x # xs) =
     (if mw_signal x = w then Some xs else map_option (Cons x) (remove_signal w xs))"

definition cancel_mutex_waiter :: "nat \<Rightarrow> mutex_heap \<Rightarrow> bool \<times> mutex_heap" where
  "cancel_mutex_waiter w = (\<lambda>(m, H).
     case remove_signal w (pm_waiters m) of
       None \<Rightarrow> (False, (m, H))
     | Some ws \<Rightarrow> (True, (m\<lparr>pm_waiters := ws\<rparr>, H)))"

definition try_grant_head :: "mutex_heap \<Rightarrow> u64 option \<times> mutex_heap" where
  "try_grant_head = (\<lambda>(m, H).
     if pm_owner m \<noteq> 0 then (None, (m, H))
     else (case pm_waiters m of
         [] \<Rightarrow> (None, (m, H))
       | x # ws \<Rightarrow>
           let t = thread_of H (mw_signal x) in
           (Some t, (m\<lparr>pm_waiters := ws, pm_owner := t, pm_recursion := 1,
              pm_acquire_site := mw_acquire_site x, pm_acquire_rsp := mw_acquire_rsp x\<rparr>,
              gw_wake (mw_signal x) H))))"

section \<open>One acquisition under the state lock\<close>

abbreviation (input) OK :: u64 where "OK \<equiv> 0"
abbreviation (input) EPERM :: u64 where "EPERM \<equiv> 1"
abbreviation (input) EDEADLK :: u64 where "EDEADLK \<equiv> 11"
abbreviation (input) EBUSY :: u64 where "EBUSY \<equiv> 16"
abbreviation (input) EINVAL :: u64 where "EINVAL \<equiv> 22"
abbreviation (input) ETIMEDOUT :: u64 where "ETIMEDOUT \<equiv> 60"

datatype lock_entry = Lock_done u64 | Lock_queued nat

definition relock :: "bool \<Rightarrow> mutex_heap \<Rightarrow> u64 \<times> mutex_heap" where
  "relock try_only = (\<lambda>(m, H).
     if pm_ty m = MUTEX_RECURSIVE then (OK, (m\<lparr>pm_recursion := i32_add (pm_recursion m) 1\<rparr>, H))
     else if pm_ty m = MUTEX_NORMAL \<or> pm_ty m = MUTEX_ADAPTIVE then
       (if try_only then (EBUSY, (m, H))
        else (OK, (m\<lparr>pm_recursion := i32_add (pm_recursion m) 1\<rparr>, H)))
     else if try_only then (EBUSY, (m, H)) else (EDEADLK, (m, H)))"

definition lock_enter ::
  "u64 \<Rightarrow> u64 \<Rightarrow> u64 \<Rightarrow> bool \<Rightarrow> bool \<Rightarrow> bool \<Rightarrow> mutex_heap \<Rightarrow> lock_entry \<times> mutex_heap" where
  "lock_enter current site rsp try_only terminating expired = (\<lambda>(m, H).
     if pm_owner m = current then
       (let (r, mh) = relock try_only (m, H) in (Lock_done r, mh))
     else if pm_owner m = 0 \<and> pm_waiters m = [] then
       (Lock_done OK, (m\<lparr>pm_owner := current, pm_recursion := 1, pm_acquire_site := site,
          pm_acquire_rsp := rsp\<rparr>, H))
     else if try_only \<or> terminating then (Lock_done EBUSY, (m, H))
     else if expired then (Lock_done ETIMEDOUT, (m, H))
     else let (w, mh) = enqueue_mutex_waiter current site rsp (m, H);
              (granted, mh') = try_grant_head mh in
       if granted = Some current then (Lock_done OK, mh') else (Lock_queued w, mh'))"

definition abandon_mutex_wait :: "nat \<Rightarrow> u64 \<Rightarrow> mutex_heap \<Rightarrow> u64 \<times> mutex_heap" where
  "abandon_mutex_wait w give_up mh =
     (let (cancelled, mh1) = cancel_mutex_waiter w mh in
      if \<not> cancelled then (OK, mh1) else (give_up, snd (try_grant_head mh1)))"

definition unlock_object :: "u64 \<Rightarrow> mutex_heap \<Rightarrow> u64 \<times> mutex_heap" where
  "unlock_object current = (\<lambda>(m, H).
     let lenient = (pm_ty m = MUTEX_NORMAL \<or> pm_ty m = MUTEX_ADAPTIVE) in
     if pm_recursion m \<le> 0 then (if lenient then OK else EINVAL, (m, H))
     else if pm_owner m \<noteq> current then (EPERM, (m, H))
     else let m1 = m\<lparr>pm_recursion := i32_sub (pm_recursion m) 1\<rparr> in
       if pm_recursion m1 = 0 then
         (OK, snd (try_grant_head
            (m1\<lparr>pm_owner := 0, pm_acquire_site := 0, pm_acquire_rsp := 0\<rparr>, H)))
       else (OK, (m1, H)))"

section \<open>The table of mutexes and its calls\<close>

record 'm mutex_state =
  mt_mem :: 'm
  mt_heap :: waiter_heap
  pthread_mutexes :: "u64 \<rightharpoonup> nat"
  mutex_objs :: "nat \<Rightarrow> pthread_mutex"
  mutex_next :: nat
  pthread_mutex_attrs :: "u64 \<rightharpoonup> int"

definition on_mutex ::
  "nat \<Rightarrow> (mutex_heap \<Rightarrow> 'r \<times> mutex_heap) \<Rightarrow> ('m, 'x) mutex_state_scheme
     \<Rightarrow> 'r \<times> ('m, 'x) mutex_state_scheme" where
  "on_mutex r f s =
     (let (x, (m, H)) = f (mutex_objs s r, mt_heap s) in
      (x, s\<lparr>mutex_objs := (mutex_objs s)(r := m), mt_heap := H\<rparr>))"

definition normalize_type :: "int \<Rightarrow> int" where
  "normalize_type ty = (if ty = MUTEX_ERRORCHECK \<or> ty = MUTEX_RECURSIVE \<or> ty = MUTEX_NORMAL
     \<or> ty = MUTEX_ADAPTIVE then ty else MUTEX_NORMAL)"

definition posix_to_sce :: "u64 \<Rightarrow> u64" where
  "posix_to_sce err =
     (if err = OK then OK
      else if err = EPERM then SCE_EPERM
      else if err = EDEADLK then 0x80020023
      else if err = EBUSY then SCE_EBUSY
      else if err = EINVAL then SCE_EINVAL
      else if err = ETIMEDOUT then SCE_ETIMEDOUT
      else err)"

definition read_u64 :: "('m, 'y) mem_ops_scheme \<Rightarrow> u64 \<Rightarrow> 'm \<Rightarrow> u64 option" where
  "read_u64 E addr m = map_option le_word (gm_read E addr 8 m)"

definition resolve_mutex ::
  "'m host_env \<Rightarrow> u64 \<Rightarrow> ('m, 'x) mutex_state_scheme \<Rightarrow> (u64 \<times> nat) option" where
  "resolve_mutex E mutex_addr s =
     (case pthread_mutexes s mutex_addr of
        Some r \<Rightarrow> Some (mutex_addr, r)
      | None \<Rightarrow>
          (case read_u64 E mutex_addr (mt_mem s) of
             None \<Rightarrow> None
           | Some handle \<Rightarrow>
               if handle \<noteq> 0 then map_option (\<lambda>r. (handle, r)) (pthread_mutexes s handle) else None))"

definition publish_mutex ::
  "u64 \<Rightarrow> u64 \<Rightarrow> int \<Rightarrow> ('m, 'x) mutex_state_scheme \<Rightarrow> ('m, 'x) mutex_state_scheme" where
  "publish_mutex mutex_addr handle ty s =
     s\<lparr>mutex_objs := (mutex_objs s)(mutex_next s := mutex_shared ty),
       pthread_mutexes := (pthread_mutexes s)(mutex_addr \<mapsto> mutex_next s, handle \<mapsto> mutex_next s),
       mutex_next := mutex_next s + 1\<rparr>"

definition hle_mutex_init ::
  "'m host_env \<Rightarrow> u64 list \<Rightarrow> ('m, 'x) mutex_state_scheme \<Rightarrow> u64 \<times> ('m, 'x) mutex_state_scheme" where
  "hle_mutex_init E args s =
     (let mutex_addr = arg args 0; attr_addr = arg args 1 in
      if mutex_addr = 0 then (EINVAL, s)
      else let ty = (if attr_addr \<noteq> 0 then
                 (case pthread_mutex_attrs s attr_addr of None \<Rightarrow> MUTEX_NORMAL | Some t \<Rightarrow> t)
               else MUTEX_NORMAL) in
        case ga_alloc E 0x100 0x10 (mt_mem s) of
          (None, m1) \<Rightarrow> (EINVAL, s\<lparr>mt_mem := m1\<rparr>)
        | (Some handle, m1) \<Rightarrow>
            let (ok, m2) = gm_write E mutex_addr (u64_bytes handle) m1;
                s2 = s\<lparr>mt_mem := m2\<rparr> in
            if \<not> ok then (EINVAL, s2) else (OK, publish_mutex mutex_addr handle ty s2))"

definition hle_mutex_destroy ::
  "'m host_env \<Rightarrow> u64 list \<Rightarrow> ('m, 'x) mutex_state_scheme \<Rightarrow> u64 \<times> ('m, 'x) mutex_state_scheme" where
  "hle_mutex_destroy E args s =
     (let mutex_addr = arg args 0 in
      if mutex_addr = 0 then (EINVAL, s)
      else let handle = (case read_u64 E mutex_addr (mt_mem s) of
                 None \<Rightarrow> None | Some h \<Rightarrow> if h \<noteq> 0 then Some h else None) in
        case resolve_mutex E mutex_addr s of
          None \<Rightarrow> (EINVAL, s)
        | Some (key, _) \<Rightarrow>
            let s1 = s\<lparr>pthread_mutexes := (pthread_mutexes s)(key := None, mutex_addr := None)\<rparr>;
                s2 = (case handle of
                    None \<Rightarrow> s1
                  | Some h \<Rightarrow> s1\<lparr>pthread_mutexes := (pthread_mutexes s1)(h := None),
                      mt_mem := ga_free E h (mt_mem s1)\<rparr>) in
            (OK, s2\<lparr>mt_mem := snd (gm_write E mutex_addr (u64_bytes 0) (mt_mem s2))\<rparr>))"

text \<open>Implicit creation for a static initialiser: the entry is taken only when it
  is vacant at that moment; what another thread published is used as it is.\<close>

definition implicit_mutex ::
  "'m host_env \<Rightarrow> u64 \<Rightarrow> ('m, 'x) mutex_state_scheme \<Rightarrow> nat option \<times> ('m, 'x) mutex_state_scheme" where
  "implicit_mutex E mutex_addr s =
     (case pthread_mutexes s mutex_addr of
        Some r \<Rightarrow> (Some r, s)
      | None \<Rightarrow>
          (case ga_alloc E 0x100 0x10 (mt_mem s) of
             (None, m1) \<Rightarrow> (None, s\<lparr>mt_mem := m1\<rparr>)
           | (Some handle, m1) \<Rightarrow>
               let (ok, m2) = gm_write E mutex_addr (u64_bytes handle) m1 in
               if \<not> ok then (None, s\<lparr>mt_mem := ga_free E handle m2\<rparr>)
               else (Some (mutex_next s),
                  publish_mutex mutex_addr handle MUTEX_NORMAL (s\<lparr>mt_mem := m2\<rparr>))))"

section \<open>The waiting loop\<close>

text \<open>The calling thread, its call site, and what it meets on the way:
  \<open>lc_race\<close> is what other threads do between the failed lookup and the entry,
  \<open>lc_spin\<close> what they do before each load of the spin phase.\<close>

record 's lock_ctx =
  lc_thread :: u64
  lc_site :: u64
  lc_rsp :: u64
  lc_terminating :: bool
  lc_now :: nat
  lc_race :: "'s \<Rightarrow> 's"
  lc_spin :: "('s \<Rightarrow> 's) list"

fun spin_phase ::
  "nat \<Rightarrow> (('m, 'x) mutex_state_scheme \<Rightarrow> ('m, 'x) mutex_state_scheme) list
     \<Rightarrow> ('m, 'x) mutex_state_scheme \<Rightarrow> bool \<times> ('m, 'x) mutex_state_scheme" where
  "spin_phase w [] s = (False, s)"
| "spin_phase w (f # fs) s =
     (let s1 = f s in if gw_signaled_fast (wh_obj (mt_heap s1) w) then (True, s1) else spin_phase w fs s1)"

text \<open>\<open>ls_gap\<close> is what happens between the park that ended without a signal and
  the state lock taken by the abandon.\<close>

record 's lock_slice = "'s slice" +
  ls_gap :: "'s \<Rightarrow> 's"

definition lock_wait_turn ::
  "nat \<Rightarrow> nat \<Rightarrow> nat option \<Rightarrow> ('m, 'x) mutex_state_scheme lock_slice
     \<Rightarrow> ('m, 'x) mutex_state_scheme \<Rightarrow> (u64, ('m, 'x) mutex_state_scheme) turn_result" where
  "lock_wait_turn r w deadline t s =
     (let s1 = sl_others t s in
      if is_signaled (mt_heap s1) w then Returned OK s1
      else if sl_terminating t then
        (let (c, s2) = on_mutex r (abandon_mutex_wait w EBUSY) (ls_gap t s1) in Returned c s2)
      else if guest_deadline_reached deadline (sl_now t) then
        (let (c, s2) = on_mutex r (abandon_mutex_wait w ETIMEDOUT) (ls_gap t s1) in Returned c s2)
      else Slice_over s1)"

definition lock_core ::
  "'m host_env \<Rightarrow> ('m, 'x) mutex_state_scheme lock_ctx \<Rightarrow> u64 \<Rightarrow> bool \<Rightarrow> nat option
     \<Rightarrow> ('m, 'x) mutex_state_scheme lock_slice list \<Rightarrow> ('m, 'x) mutex_state_scheme
     \<Rightarrow> (u64 \<times> ('m, 'x) mutex_state_scheme) option" where
  "lock_core E c mutex_addr try_only deadline ts s =
     (if mutex_addr = 0 then Some (EINVAL, s)
      else let (found, s1) =
             (case resolve_mutex E mutex_addr s of
                Some (_, r) \<Rightarrow> (Some r, s)
              | None \<Rightarrow> implicit_mutex E mutex_addr (lc_race c s)) in
        case found of
          None \<Rightarrow> Some (EINVAL, s1)
        | Some r \<Rightarrow>
            let (entry, s2) = on_mutex r (lock_enter (lc_thread c) (lc_site c) (lc_rsp c) try_only
                  (lc_terminating c) (guest_deadline_reached deadline (lc_now c))) s1 in
            case entry of
              Lock_done code \<Rightarrow> Some (code, s2)
            | Lock_queued w \<Rightarrow>
                let (granted, s3) = spin_phase w (lc_spin c) s2 in
                if granted then Some (OK, s3)
                else run_slices (lock_wait_turn r w deadline) ts s3)"

definition hle_mutex_lock where
  "hle_mutex_lock E c ts args s = lock_core E c (arg args 0) False None ts s"

definition hle_mutex_trylock where
  "hle_mutex_trylock E c ts args s = lock_core E c (arg args 0) True None ts s"

definition hle_mutex_timedlock where
  "hle_mutex_timedlock E c ts args s =
     lock_core E c (arg args 0) False (Some (lc_now c + from_micros (arg args 1))) ts s"

definition hle_mutex_unlock ::
  "'m host_env \<Rightarrow> u64 \<Rightarrow> u64 list \<Rightarrow> ('m, 'x) mutex_state_scheme \<Rightarrow> u64 \<times> ('m, 'x) mutex_state_scheme" where
  "hle_mutex_unlock E current args s =
     (if arg args 0 = 0 then (EINVAL, s)
      else case resolve_mutex E (arg args 0) s of
          None \<Rightarrow> (EINVAL, s)
        | Some (_, r) \<Rightarrow> on_mutex r (unlock_object current) s)"

definition sce_result :: "(u64 \<times> 's) option \<Rightarrow> (u64 \<times> 's) option" where
  "sce_result = map_option (\<lambda>(c, s). (posix_to_sce c, s))"

definition hle_sce_mutex_lock where
  "hle_sce_mutex_lock E c ts args s = sce_result (hle_mutex_lock E c ts args s)"

definition hle_sce_mutex_trylock where
  "hle_sce_mutex_trylock E c ts args s = sce_result (hle_mutex_trylock E c ts args s)"

definition hle_sce_mutex_timedlock where
  "hle_sce_mutex_timedlock E c ts args s = sce_result (hle_mutex_timedlock E c ts args s)"

definition hle_sce_mutex_unlock where
  "hle_sce_mutex_unlock E current args s =
     (let (c, s1) = hle_mutex_unlock E current args s in (posix_to_sce c, s1))"

section \<open>Attributes\<close>

definition hle_mutexattr_init ::
  "u64 list \<Rightarrow> ('m, 'x) mutex_state_scheme \<Rightarrow> u64 \<times> ('m, 'x) mutex_state_scheme" where
  "hle_mutexattr_init args s = (if arg args 0 = 0 then (EINVAL, s)
     else (OK, s\<lparr>pthread_mutex_attrs := (pthread_mutex_attrs s)(arg args 0 \<mapsto> MUTEX_NORMAL)\<rparr>))"

definition hle_mutexattr_destroy ::
  "u64 list \<Rightarrow> ('m, 'x) mutex_state_scheme \<Rightarrow> u64 \<times> ('m, 'x) mutex_state_scheme" where
  "hle_mutexattr_destroy args s = (if arg args 0 = 0 then (EINVAL, s)
     else (OK, s\<lparr>pthread_mutex_attrs := (pthread_mutex_attrs s)(arg args 0 := None)\<rparr>))"

definition hle_mutexattr_settype ::
  "u64 list \<Rightarrow> ('m, 'x) mutex_state_scheme \<Rightarrow> u64 \<times> ('m, 'x) mutex_state_scheme" where
  "hle_mutexattr_settype args s = (if arg args 0 = 0 then (EINVAL, s)
     else (OK, s\<lparr>pthread_mutex_attrs :=
       (pthread_mutex_attrs s)(arg args 0 \<mapsto> normalize_type (as_i32 (arg args 1)))\<rparr>))"

definition hle_mutexattr_setprotocol :: "u64 list \<Rightarrow> u64" where
  "hle_mutexattr_setprotocol args =
     (let protocol = as_i32 (arg args 1) in
      if arg args 0 = 0 \<or> \<not> (0 \<le> protocol \<and> protocol \<le> 2) then EINVAL else OK)"

text \<open>How a long wait is classified for the diagnostics.\<close>

datatype mutex_wait_diagnostic = LongContention | ProbableDeadlock

definition classify_mutex_wait :: "nat \<Rightarrow> nat \<Rightarrow> bool \<Rightarrow> bool \<Rightarrow> mutex_wait_diagnostic option" where
  "classify_mutex_wait total_wait stable_owner_wait reported_contention reported_deadlock =
     (if \<not> reported_deadlock \<and> 30000000000 \<le> stable_owner_wait then Some ProbableDeadlock
      else if \<not> reported_contention \<and> 3000000000 \<le> total_wait then Some LongContention
      else None)"

section \<open>Interleavings of the object's operations\<close>

text \<open>Where a guest thread stands: outside, parked (or spinning) on its waiter,
  or holding the mutex so many levels deep.  One step is one critical section
  under the state lock, or one observation of the private wake bit; every
  thread may step at any time.  A level beyond \<open>i32::MAX\<close> is left out.\<close>

datatype lock_pc = Idle | Waiting nat | Holding nat

type_synonym mutex_run = "mutex_heap \<times> (u64 \<Rightarrow> lock_pc)"

abbreviation running :: "lock_pc \<Rightarrow> bool" where "running p \<equiv> \<forall>w. p \<noteq> Waiting w"

primrec after_unlock :: "lock_pc \<Rightarrow> lock_pc" where
  "after_unlock Idle = Idle"
| "after_unlock (Waiting w) = Waiting w"
| "after_unlock (Holding n) = (if n \<le> 1 then Idle else Holding (n - 1))"

inductive mutex_step :: "mutex_run \<Rightarrow> mutex_run \<Rightarrow> bool" where
  lock_ok: "t \<noteq> 0 \<Longrightarrow> pc t = Idle \<Longrightarrow>
    lock_enter t site rsp try_only terminating expired mh = (Lock_done OK, mh') \<Longrightarrow>
    mutex_step (mh, pc) (mh', pc(t := Holding 1))"
| relock_ok: "t \<noteq> 0 \<Longrightarrow> pc t = Holding n \<Longrightarrow> n < 2147483647 \<Longrightarrow>
    lock_enter t site rsp try_only terminating expired mh = (Lock_done OK, mh') \<Longrightarrow>
    mutex_step (mh, pc) (mh', pc(t := Holding (Suc n)))"
| lock_refused: "t \<noteq> 0 \<Longrightarrow> running (pc t) \<Longrightarrow> e \<noteq> OK \<Longrightarrow>
    lock_enter t site rsp try_only terminating expired mh = (Lock_done e, mh') \<Longrightarrow>
    mutex_step (mh, pc) (mh', pc)"
| lock_queued: "t \<noteq> 0 \<Longrightarrow> running (pc t) \<Longrightarrow>
    lock_enter t site rsp try_only terminating expired mh = (Lock_queued w, mh') \<Longrightarrow>
    mutex_step (mh, pc) (mh', pc(t := Waiting w))"
| granted: "pc t = Waiting w \<Longrightarrow> gw_signaled_fast (wh_obj H w) \<or> is_signaled H w \<Longrightarrow>
    mutex_step ((m, H), pc) ((m, H), pc(t := Holding 1))"
| gave_up: "pc t = Waiting w \<Longrightarrow> e \<noteq> OK \<Longrightarrow> abandon_mutex_wait w e mh = (r, mh') \<Longrightarrow>
    mutex_step (mh, pc) (mh', pc(t := (if r = OK then Holding 1 else Idle)))"
| unlocked: "t \<noteq> 0 \<Longrightarrow> running (pc t) \<Longrightarrow> unlock_object t mh = (r, mh') \<Longrightarrow>
    mutex_step (mh, pc) (mh', if r = OK then pc(t := after_unlock (pc t)) else pc)"

inductive_cases mutex_stepE: "mutex_step s s'"

definition mutex_start :: "int \<Rightarrow> waiter_heap \<Rightarrow> mutex_run" where
  "mutex_start ty H = ((mutex_shared ty, H), \<lambda>_. Idle)"

definition mutex_reachable :: "int \<Rightarrow> mutex_run \<Rightarrow> bool" where
  "mutex_reachable ty s \<longleftrightarrow> (\<exists>H. mutex_step\<^sup>*\<^sup>* (mutex_start ty H) s)"

section \<open>The invariant\<close>

abbreviation queue_of :: "pthread_mutex \<Rightarrow> nat list" where
  "queue_of m \<equiv> map mw_signal (pm_waiters m)"

definition woken_up :: "waiter_heap \<Rightarrow> nat \<Rightarrow> bool" where
  "woken_up H w \<longleftrightarrow> is_signaled H w \<and> gw_signaled_fast (wh_obj H w)"

definition untouched :: "waiter_heap \<Rightarrow> nat \<Rightarrow> bool" where
  "untouched H w \<longleftrightarrow> \<not> is_signaled H w \<and> \<not> gw_signaled_fast (wh_obj H w)"

text \<open>The queue holds the private waiters of distinct parked threads.\<close>

definition mutex_queue_ok :: "mutex_run \<Rightarrow> bool" where
  "mutex_queue_ok = (\<lambda>((m, H), pc). distinct (queue_of m)
     \<and> (\<forall>w\<in>set (queue_of m). pc (thread_of H w) = Waiting w \<and> untouched H w)
     \<and> (\<forall>t w. pc t = Waiting w \<longrightarrow> t \<noteq> 0 \<and> w < wh_next H \<and> t = thread_of H w))"

text \<open>The owner is the one thread that holds the mutex, or whose wake bit the
  handoff has set; every other parked thread is in the queue.\<close>

primrec owner_state :: "pthread_mutex \<Rightarrow> waiter_heap \<Rightarrow> lock_pc \<Rightarrow> bool" where
  "owner_state m H Idle \<longleftrightarrow> False"
| "owner_state m H (Holding n) \<longleftrightarrow> 0 < n \<and> n \<le> 2147483647 \<and> pm_recursion m = int n"
| "owner_state m H (Waiting w) \<longleftrightarrow> pm_recursion m = 1 \<and> w \<notin> set (queue_of m) \<and> woken_up H w"

definition mutex_owner_ok :: "mutex_run \<Rightarrow> bool" where
  "mutex_owner_ok = (\<lambda>((m, H), pc).
     (pm_owner m = 0 \<longrightarrow> pm_recursion m = 0 \<and> pm_waiters m = [])
     \<and> (pm_owner m \<noteq> 0 \<longrightarrow> owner_state m H (pc (pm_owner m)))
     \<and> (\<forall>t n. pc t = Holding n \<longrightarrow> t \<noteq> 0 \<and> t = pm_owner m)
     \<and> (\<forall>t w. pc t = Waiting w \<longrightarrow> w \<notin> set (queue_of m) \<longrightarrow> t = pm_owner m))"

definition mutex_inv :: "mutex_run \<Rightarrow> bool" where
  "mutex_inv s \<longleftrightarrow> mutex_queue_ok s \<and> mutex_owner_ok s"

lemma mutex_inv_start: "mutex_inv (mutex_start ty H)"
  by (simp add: mutex_inv_def mutex_start_def mutex_queue_ok_def mutex_owner_ok_def mutex_shared_def)

lemma wake_marks [simp]:
  "woken_up (gw_wake w H) v \<longleftrightarrow> v = w \<or> woken_up H v"
  "untouched (gw_wake w H) v \<longleftrightarrow> v \<noteq> w \<and> untouched H v"
  by (auto simp: woken_up_def untouched_def gw_wake_def is_signaled_def)

lemma new_marks:
  assumes "gw_new t H = (w, H')"
  shows "untouched H' w" and "v \<noteq> w \<Longrightarrow> untouched H' v = untouched H v \<and> woken_up H' v = woken_up H v"
  using assms by (auto simp: gw_new_def untouched_def woken_up_def is_signaled_def)

lemma mutex_invD:
  assumes "mutex_inv ((m, H), pc)"
  shows "distinct (queue_of m)"
    and "v \<in> set (queue_of m) \<Longrightarrow> pc (thread_of H v) = Waiting v \<and> untouched H v"
    and "pc t = Waiting v \<Longrightarrow> t \<noteq> 0 \<and> v < wh_next H \<and> t = thread_of H v"
    and "pm_owner m = 0 \<Longrightarrow> pm_recursion m = 0 \<and> pm_waiters m = []"
    and "pm_owner m \<noteq> 0 \<Longrightarrow> owner_state m H (pc (pm_owner m))"
    and "pc t = Holding n \<Longrightarrow> t \<noteq> 0 \<and> t = pm_owner m"
    and "pc t = Waiting v \<Longrightarrow> v \<notin> set (queue_of m) \<Longrightarrow> t = pm_owner m"
  using assms unfolding mutex_inv_def mutex_queue_ok_def mutex_owner_ok_def prod.case by blast+

lemma mutex_invI:
  assumes "distinct (queue_of m)"
    and "\<And>v. v \<in> set (queue_of m) \<Longrightarrow> pc (thread_of H v) = Waiting v \<and> untouched H v"
    and "\<And>t v. pc t = Waiting v \<Longrightarrow> t \<noteq> 0 \<and> v < wh_next H \<and> t = thread_of H v"
    and "pm_owner m = 0 \<Longrightarrow> pm_recursion m = 0 \<and> pm_waiters m = []"
    and "pm_owner m \<noteq> 0 \<Longrightarrow> owner_state m H (pc (pm_owner m))"
    and "\<And>t n. pc t = Holding n \<Longrightarrow> t \<noteq> 0 \<and> t = pm_owner m"
    and "\<And>t v. pc t = Waiting v \<Longrightarrow> v \<notin> set (queue_of m) \<Longrightarrow> t = pm_owner m"
  shows "mutex_inv ((m, H), pc)"
  unfolding mutex_inv_def mutex_queue_ok_def mutex_owner_ok_def prod.case
  using assms by blast

text \<open>What the invariant gives at a queued waiter.\<close>

lemma queued_waiter:
  assumes inv: "mutex_inv ((m, H), pc)" and w: "w \<in> set (queue_of m)"
  shows "pm_owner m \<noteq> 0" "pc (thread_of H w) = Waiting w" "thread_of H w \<noteq> 0" "untouched H w"
    "thread_of H w \<noteq> pm_owner m" "w < wh_next H"
proof -
  show o: "pm_owner m \<noteq> 0" using mutex_invD(4) [OF inv] w by auto
  show p: "pc (thread_of H w) = Waiting w" and "untouched H w" using mutex_invD(2) [OF inv w] by auto
  show "thread_of H w \<noteq> 0" "w < wh_next H" using mutex_invD(3) [OF inv p] by auto
  show "thread_of H w \<noteq> pm_owner m" using mutex_invD(5) [OF inv o] p w by auto
qed

lemma holder_owns:
  assumes inv: "mutex_inv ((m, H), pc)" and h: "pc t = Holding n"
  shows "pm_owner m = t" "t \<noteq> 0" "pm_recursion m = int n" "0 < n"
  using mutex_invD(5,6) [OF inv] h by force+

lemma idle_not_owner:
  assumes "mutex_inv ((m, H), pc)" and "pc t = Idle" and "t \<noteq> 0"
  shows "pm_owner m \<noteq> t"
  using mutex_invD(5) [OF assms(1)] assms(2,3) by auto

text \<open>In a state of the invariant a free mutex has no waiters, so joining never
  grants.\<close>

lemma relock_cases:
  "relock try_only (m, H) = (e, mh') \<Longrightarrow> e \<noteq> OK \<and> mh' = (m, H)
    \<or> e = OK \<and> mh' = (m\<lparr>pm_recursion := i32_add (pm_recursion m) 1\<rparr>, H)"
  by (simp add: relock_def split: if_split_asm)

lemma lock_enter_cases:
  assumes "mutex_inv ((m, H), pc)" and "t \<noteq> 0" and "running (pc t)"
    and "lock_enter t site rsp try_only terminating expired (m, H) = (r, mh')"
  obtains
    (again) "pm_owner m = t" "r = Lock_done OK" "mh' = (m\<lparr>pm_recursion := i32_add (pm_recursion m) 1\<rparr>, H)"
  | (fresh) "pm_owner m = 0" "pm_waiters m = []" "r = Lock_done OK"
      "mh' = (m\<lparr>pm_owner := t, pm_recursion := 1, pm_acquire_site := site, pm_acquire_rsp := rsp\<rparr>, H)"
  | (refused) e where "r = Lock_done e" "e \<noteq> OK" "mh' = (m, H)"
  | (joined) w H' where "pm_owner m \<noteq> 0" "pm_owner m \<noteq> t" "gw_new t H = (w, H')" "r = Lock_queued w"
      "mh' = (m\<lparr>pm_waiters := pm_waiters m @ [\<lparr>mw_signal = w, mw_acquire_site = site, mw_acquire_rsp = rsp\<rparr>]\<rparr>, H')"
proof (cases "pm_owner m = t")
  case True
  then have "(\<exists>e. r = Lock_done e \<and> e \<noteq> OK \<and> mh' = (m, H))
      \<or> r = Lock_done OK \<and> mh' = (m\<lparr>pm_recursion := i32_add (pm_recursion m) 1\<rparr>, H)"
    using assms(4) relock_cases [of try_only m H "fst (relock try_only (m, H))" "snd (relock try_only (m, H))"]
    by (auto simp: lock_enter_def split: prod.splits)
  then show ?thesis using that(1,3) True by blast
next
  case other: False
  show ?thesis
  proof (cases "pm_owner m = 0")
    case True
    then have "pm_waiters m = []" using assms(1) by (auto simp: mutex_inv_def mutex_owner_ok_def)
    then show ?thesis using assms(2,4) True that(2) by (simp add: lock_enter_def)
  next
    case False
    obtain w H' where n: "gw_new t H = (w, H')" by (cases "gw_new t H")
    have "thread_of H (mw_signal x) \<noteq> t" if "x \<in> set (pm_waiters m)" for x
      using queued_waiter(2) [OF assms(1), of "mw_signal x"] that assms(3) by auto
    then have all: "filter (\<lambda>x. thread_of H (mw_signal x) \<noteq> t) (pm_waiters m) = pm_waiters m"
      by (simp add: filter_id_conv)
    show ?thesis
    proof (cases "try_only \<or> terminating \<or> expired")
      case True
      then have "lock_enter t site rsp try_only terminating expired (m, H)
          = (Lock_done (if try_only \<or> terminating then EBUSY else ETIMEDOUT), (m, H))"
        using other False by (auto simp: lock_enter_def)
      then show ?thesis
        using that(3) [of "if try_only \<or> terminating then EBUSY else ETIMEDOUT"] assms(4) by simp
    next
      case go: False
      then have "r = Lock_queued w" "mh' = (m\<lparr>pm_waiters := pm_waiters m
            @ [\<lparr>mw_signal = w, mw_acquire_site = site, mw_acquire_rsp = rsp\<rparr>]\<rparr>, H')"
        using assms(2,4) other False n all
        by (simp_all add: lock_enter_def enqueue_mutex_waiter_def try_grant_head_def Let_def)
      then show ?thesis using that(4) False other n by blast
    qed
  qed
qed

lemma inv_again:
  assumes inv: "mutex_inv ((m, H), pc)" and h: "pc t = Holding n" and n: "n < 2147483647"
  shows "mutex_inv ((m\<lparr>pm_recursion := i32_add (pm_recursion m) 1\<rparr>, H), pc(t := Holding (Suc n)))"
proof -
  note o = holder_owns [OF inv h] and I = mutex_invD [OF inv]
  have "i32_add (pm_recursion m) 1 = int (Suc n)" using o(3) n by (simp add: i32_add_id i32_range_def)
  then show ?thesis
    using o n h I(1) queued_waiter [OF inv]
    by (intro mutex_invI) (auto split: if_splits dest: I(3) I(6) I(7))
qed

lemma inv_fresh:
  assumes inv: "mutex_inv ((m, H), pc)" and o: "pm_owner m = 0" and t: "t \<noteq> 0" "pc t = Idle"
  shows "mutex_inv ((m\<lparr>pm_owner := t, pm_recursion := 1, pm_acquire_site := site, pm_acquire_rsp := rsp\<rparr>, H),
    pc(t := Holding 1))"
proof -
  note I = mutex_invD [OF inv]
  have none: "pc u \<noteq> Waiting v" for u v using I(3,7) [of u v] I(4) o by auto
  show ?thesis using I(4) o t none by (intro mutex_invI) (auto split: if_splits dest: I(6))
qed

lemma inv_joined:
  assumes inv: "mutex_inv ((m, H), pc)" and o: "pm_owner m \<noteq> 0" "pm_owner m \<noteq> t" and t: "t \<noteq> 0" "running (pc t)"
    and n: "gw_new t H = (w, H')"
  shows "mutex_inv ((m\<lparr>pm_waiters := pm_waiters m
    @ [\<lparr>mw_signal = w, mw_acquire_site = site, mw_acquire_rsp = rsp\<rparr>]\<rparr>, H'), pc(t := Waiting w))"
    (is "mutex_inv ((?m, H'), ?pc)")
proof -
  note g = gw_new_simps [OF n] new_marks [OF n] and I = mutex_invD [OF inv]
  have old: "v \<noteq> w \<and> thread_of H' v = thread_of H v \<and> untouched H' v = untouched H v
      \<and> woken_up H' v = woken_up H v" if "v < wh_next H" for v
    using that g(1) g(5) [of v] g(7) [of v] by auto
  have q: "v < wh_next H" "thread_of H v \<noteq> t" "pc (thread_of H v) = Waiting v" "untouched H v"
    if "v \<in> set (queue_of m)" for v
    using queued_waiter [OF inv that] t(2) by auto
  have Q: "set (queue_of ?m) = insert w (set (queue_of m))" by simp
  show ?thesis
  proof (rule mutex_invI)
    show "distinct (queue_of ?m)" using I(1) q(1) g(1) by force
    show "?pc (thread_of H' v) = Waiting v \<and> untouched H' v" if "v \<in> set (queue_of ?m)" for v
      using that q [of v] old [of v] g(3,6) unfolding Q by auto
    show "u \<noteq> 0 \<and> v < wh_next H' \<and> u = thread_of H' v" if "?pc u = Waiting v" for u v
      using that I(3) [of u v] old [of v] t(1) g(1-3) by (auto split: if_splits)
    show "pm_owner ?m = 0 \<Longrightarrow> pm_recursion ?m = 0 \<and> pm_waiters ?m = []" using o by simp
    have "owner_state m H (pc (pm_owner m))" using I(5) o by blast
    then show "owner_state ?m H' (?pc (pm_owner ?m))"
      using o(2) old I(3) [of "pm_owner m"] by (cases "pc (pm_owner m)") auto
    show "u \<noteq> 0 \<and> u = pm_owner ?m" if "?pc u = Holding k" for u k
      using that I(6) by (simp split: if_splits)
    show "u = pm_owner ?m" if "?pc u = Waiting v" "v \<notin> set (queue_of ?m)" for u v
      using that I(7) [of u v] unfolding Q by (simp split: if_splits)
  qed
qed

lemma inv_granted:
  assumes inv: "mutex_inv ((m, H), pc)" and w: "pc t = Waiting w" "gw_signaled_fast (wh_obj H w) \<or> is_signaled H w"
  shows "mutex_inv ((m, H), pc(t := Holding 1))" "pm_owner m = t" "pm_recursion m = 1"
proof -
  note I = mutex_invD [OF inv]
  have q: "w \<notin> set (queue_of m)" using w(2) queued_waiter(4) [OF inv] by (auto simp: untouched_def)
  then show o: "pm_owner m = t" using I(7) w(1) by auto
  then have t: "t \<noteq> 0" "owner_state m H (pc t)" using I(3,5) w(1) by auto
  then show r: "pm_recursion m = 1" using w(1) by simp
  have "thread_of H v \<noteq> t" if "v \<in> set (queue_of m)" for v using queued_waiter(5) [OF inv that] o by simp
  then show "mutex_inv ((m, H), pc(t := Holding 1))"
    using I(1,2) o t r by (intro mutex_invI) (auto split: if_splits dest: I(3) I(6) I(7))
qed

text \<open>Giving up: a waiter still queued leaves the queue and changes nothing else;
  one that is gone owns the mutex.\<close>

lemma remove_signal_spec:
  "distinct (map mw_signal xs) \<Longrightarrow> remove_signal w xs =
     (if w \<in> set (map mw_signal xs) then Some (filter (\<lambda>x. mw_signal x \<noteq> w) xs) else None)"
proof (induction xs)
  case (Cons x xs)
  have "filter (\<lambda>y. mw_signal y \<noteq> w) xs = xs" if "mw_signal x = w"
    using that Cons.prems by (simp add: filter_id_conv) (metis image_eqI)
  then show ?case using Cons by auto
qed simp

lemma cancel_spec:
  assumes "distinct (queue_of m)"
  shows "cancel_mutex_waiter w (m, H) = (if w \<in> set (queue_of m)
    then (True, (m\<lparr>pm_waiters := filter (\<lambda>x. mw_signal x \<noteq> w) (pm_waiters m)\<rparr>, H)) else (False, (m, H)))"
  using remove_signal_spec [OF assms, of w] by (auto simp: cancel_mutex_waiter_def)

lemma abandon_spec:
  assumes inv: "mutex_inv ((m, H), pc)"
  shows "abandon_mutex_wait w e (m, H) = (if w \<in> set (queue_of m)
    then (e, (m\<lparr>pm_waiters := filter (\<lambda>x. mw_signal x \<noteq> w) (pm_waiters m)\<rparr>, H)) else (OK, (m, H)))"
  using queued_waiter(1) [OF inv, of w]
  by (simp only: abandon_mutex_wait_def cancel_spec [OF mutex_invD(1) [OF inv]])
    (auto simp: try_grant_head_def)

lemma inv_gave_up:
  assumes inv: "mutex_inv ((m, H), pc)" and w: "pc t = Waiting w" "e \<noteq> OK"
    and a: "abandon_mutex_wait w e (m, H) = (r, mh')"
  shows "mutex_inv (mh', pc(t := (if r = OK then Holding 1 else Idle)))" "r = OK \<longleftrightarrow> w \<notin> set (queue_of m)"
    "r = OK \<Longrightarrow> pm_owner (fst mh') = t"
proof -
  note I = mutex_invD [OF inv]
  have t: "t \<noteq> 0" "t = thread_of H w" using I(3) w(1) by auto
  let ?m = "m\<lparr>pm_waiters := filter (\<lambda>x. mw_signal x \<noteq> w) (pm_waiters m)\<rparr>"
  show r: "r = OK \<longleftrightarrow> w \<notin> set (queue_of m)" using a w(2) abandon_spec [OF inv, of w e] by (auto split: if_splits)
  show "r = OK \<Longrightarrow> pm_owner (fst mh') = t"
    using a r I(7) [OF w(1)] abandon_spec [OF inv, of w e] by auto
  show "mutex_inv (mh', pc(t := (if r = OK then Holding 1 else Idle)))"
  proof (cases "w \<in> set (queue_of m)")
    case True
    have q: "set (queue_of ?m) = set (queue_of m) - {w}" by auto
    have d: "distinct (queue_of ?m)" using I(1) by (simp add: distinct_map_filter)
    have o: "pm_owner m \<noteq> 0" "pm_owner m \<noteq> t" using queued_waiter(1,5) [OF inv True] t by auto
    have "mutex_inv ((?m, H), pc(t := Idle))"
    proof (rule mutex_invI)
      show "distinct (queue_of ?m)" by (rule d)
      show "(pc(t := Idle)) (thread_of H v) = Waiting v \<and> untouched H v" if "v \<in> set (queue_of ?m)" for v
        using that queued_waiter(2,4) [OF inv, of v] w(1) unfolding q by auto
      show "owner_state ?m H ((pc(t := Idle)) (pm_owner ?m))"
        using I(5) [OF o(1)] o(2) by (cases "pc (pm_owner m)") auto
      show "u = pm_owner ?m" if "(pc(t := Idle)) u = Waiting v" "v \<notin> set (queue_of ?m)" for u v
      proof -
        have u: "u \<noteq> t" "pc u = Waiting v" using that(1) by (auto split: if_splits)
        then have "v \<noteq> w" using I(3) t(2) by blast
        then show ?thesis using that(2) I(7) [OF u(2)] unfolding q by simp
      qed
    qed (use o in \<open>auto split: if_splits dest: I(3) I(6)\<close>)
    then show ?thesis using a True r abandon_spec [OF inv, of w e] by auto
  next
    case False
    have o: "pm_owner m = t" using I(7) [OF w(1) False] by simp
    have "woken_up H w" using I(5) o t(1) w(1) by simp
    then show ?thesis using inv_granted(1) [OF inv w(1)] a False r abandon_spec [OF inv, of w e]
      by (auto simp: woken_up_def)
  qed
qed

text \<open>The release: a free mutex hands itself to the head of the queue.\<close>

definition release_mutex :: "mutex_heap \<Rightarrow> mutex_heap" where
  "release_mutex = (\<lambda>(m, H).
     snd (try_grant_head (m\<lparr>pm_recursion := 0, pm_owner := 0, pm_acquire_site := 0, pm_acquire_rsp := 0\<rparr>, H)))"

lemma release_spec:
  "release_mutex (m, H) = (case pm_waiters m of
      [] \<Rightarrow> (m\<lparr>pm_recursion := 0, pm_owner := 0, pm_acquire_site := 0, pm_acquire_rsp := 0\<rparr>, H)
    | x # ws \<Rightarrow> (m\<lparr>pm_recursion := 1, pm_owner := thread_of H (mw_signal x),
        pm_acquire_site := mw_acquire_site x, pm_acquire_rsp := mw_acquire_rsp x, pm_waiters := ws\<rparr>,
        gw_wake (mw_signal x) H))"
  by (simp add: release_mutex_def try_grant_head_def Let_def split: list.split)

lemma inv_released:
  assumes inv: "mutex_inv ((m, H), pc)" and t: "pc t = Holding n"
  shows "mutex_inv (release_mutex (m, H), pc(t := Idle))"
proof -
  note I = mutex_invD [OF inv] and o = holder_owns [OF inv t]
  have q: "thread_of H v \<noteq> t" "pc (thread_of H v) = Waiting v" "untouched H v" "thread_of H v \<noteq> 0"
    if "v \<in> set (queue_of m)" for v
    using queued_waiter [OF inv that] o(1) by auto
  have other: "v \<in> set (queue_of m) \<and> u = thread_of H v \<and> u \<noteq> t" if "pc u = Waiting v" for u v
  proof -
    have "u \<noteq> t" using that t by auto
    then show ?thesis using o(1) I(3) [OF that] I(7) [OF that] by blast
  qed
  have hold: "u = t" if "pc u = Holding k" for u k using I(6) [OF that] o(1) by simp
  show ?thesis
  proof (cases "pm_waiters m")
    case Nil
    then show ?thesis using other hold
      by (simp add: release_spec) (intro mutex_invI, auto split: if_splits)
  next
    case (Cons x ws)
    let ?w = "mw_signal x" and ?u = "thread_of H (mw_signal x)"
    let ?m = "m\<lparr>pm_recursion := 1, pm_owner := ?u, pm_acquire_site := mw_acquire_site x,
        pm_acquire_rsp := mw_acquire_rsp x, pm_waiters := ws\<rparr>"
    have Q: "set (queue_of m) = insert ?w (set (queue_of ?m))" using Cons by auto
    have d: "distinct (queue_of ?m)" "?w \<notin> set (queue_of ?m)" using I(1) Cons by auto
    have u: "?u \<noteq> t" "pc ?u = Waiting ?w" "?u \<noteq> 0" using q [of ?w] Cons by auto
    have "mutex_inv ((?m, gw_wake ?w H), pc(t := Idle))"
    proof (rule mutex_invI)
      show "distinct (queue_of ?m)" by (rule d(1))
      show "(pc(t := Idle)) (thread_of (gw_wake ?w H) v) = Waiting v \<and> untouched (gw_wake ?w H) v"
        if "v \<in> set (queue_of ?m)" for v
      proof -
        have "v \<noteq> ?w" "v \<in> set (queue_of m)" using that d(2) unfolding Q by blast+
        then show ?thesis using q [of v] by simp
      qed
      show "a \<noteq> 0 \<and> v < wh_next (gw_wake ?w H) \<and> a = thread_of (gw_wake ?w H) v"
        if "(pc(t := Idle)) a = Waiting v" for a v
        using that I(3) [of a v] by (auto split: if_splits)
      show "pm_recursion ?m = 0 \<and> pm_waiters ?m = []" if "pm_owner ?m = 0" using that u(3) by simp
      show "owner_state ?m (gw_wake ?w H) ((pc(t := Idle)) (pm_owner ?m))" using u d(2) by simp
      show "a \<noteq> 0 \<and> a = pm_owner ?m" if "(pc(t := Idle)) a = Holding k" for a k
        using that hold by (auto split: if_splits)
      show "a = pm_owner ?m" if "(pc(t := Idle)) a = Waiting v" "v \<notin> set (queue_of ?m)" for a v
        using that other [of a v] unfolding Q by (auto split: if_splits)
    qed
    then show ?thesis using Cons by (simp add: release_spec)
  qed
qed

lemma unlock_cases:
  assumes inv: "mutex_inv ((m, H), pc)" and t: "t \<noteq> 0" "running (pc t)"
    and u: "unlock_object t (m, H) = (r, mh')"
  obtains (idle) "pc t = Idle" "mh' = (m, H)"
  | (nested) n where "pc t = Holding (Suc (Suc n))" "r = OK"
      "mh' = (m\<lparr>pm_recursion := int (Suc n)\<rparr>, H)"
  | (last) "pc t = Holding 1" "r = OK" "mh' = release_mutex (m, H)"
proof (cases "pc t")
  case Idle
  then have "mh' = (m, H)"
    using u idle_not_owner [OF inv Idle t(1)] by (auto simp: unlock_object_def Let_def split: if_splits)
  then show ?thesis using that(1) Idle by blast
next
  case (Waiting w)
  then show ?thesis using t(2) by simp
next
  case (Holding n)
  note h = holder_owns [OF inv Holding]
  have n: "n \<le> 2147483647" using mutex_invD(5) [OF inv] h Holding by auto
  have e: "i32_sub (pm_recursion m) 1 = int n - 1"
    using h(3,4) n by (simp add: i32_sub_id i32_range_def)
  show ?thesis
  proof (cases "n = 1")
    case True
    then have "r = OK \<and> mh' = release_mutex (m, H)"
      using u h e by (simp add: unlock_object_def release_mutex_def Let_def split: if_splits)
    then show ?thesis using that(3) Holding True by simp
  next
    case False
    then obtain k where k: "n = Suc (Suc k)" using h(4) by (metis One_nat_def Suc_pred less_numeral_extra(3) not_gr_zero)
    then have "r = OK \<and> mh' = (m\<lparr>pm_recursion := int (Suc k)\<rparr>, H)"
      using u h e by (simp add: unlock_object_def Let_def split: if_splits)
    then show ?thesis using that(2) Holding k by simp
  qed
qed

lemma inv_nested:
  assumes inv: "mutex_inv ((m, H), pc)" and t: "pc t = Holding (Suc (Suc n))"
  shows "mutex_inv ((m\<lparr>pm_recursion := int (Suc n)\<rparr>, H), pc(t := Holding (Suc n)))"
proof -
  note o = holder_owns [OF inv t] and I = mutex_invD [OF inv]
  have "Suc (Suc n) \<le> 2147483647" using I(5) o t by auto
  then show ?thesis using o t I(1) queued_waiter [OF inv]
    by (intro mutex_invI) (auto split: if_splits dest: I(3) I(6) I(7))
qed

text \<open>Every step keeps the invariant.\<close>

lemma mutex_step_inv: "mutex_step s s' \<Longrightarrow> mutex_inv s \<Longrightarrow> mutex_inv s'"
proof (induction rule: mutex_step.induct)
  case (lock_ok t pc site rsp try_only terminating expired mh mh')
  obtain m H where mh: "mh = (m, H)" by (cases mh)
  have inv: "mutex_inv ((m, H), pc)" and t: "running (pc t)" using lock_ok mh by auto
  show ?case
    using lock_enter_cases [OF inv lock_ok(1) t lock_ok(3) [unfolded mh]] inv_fresh [OF inv _ lock_ok(1,2)]
      idle_not_owner [OF inv lock_ok(2,1)] by cases auto
next
  case (relock_ok t pc n site rsp try_only terminating expired mh mh')
  obtain m H where mh: "mh = (m, H)" by (cases mh)
  have inv: "mutex_inv ((m, H), pc)" and t: "running (pc t)" using relock_ok mh by auto
  show ?case
    using lock_enter_cases [OF inv relock_ok(1) t relock_ok(4) [unfolded mh]] inv_again [OF inv relock_ok(2,3)]
      holder_owns(1) [OF inv relock_ok(2)] relock_ok(1) by cases auto
next
  case (lock_refused t pc e site rsp try_only terminating expired mh mh')
  obtain m H where mh: "mh = (m, H)" by (cases mh)
  have inv: "mutex_inv ((m, H), pc)" using lock_refused mh by auto
  show ?case
    using lock_enter_cases [OF inv lock_refused(1,2) lock_refused(4) [unfolded mh]] lock_refused(3) inv
    by cases auto
next
  case (lock_queued t pc site rsp try_only terminating expired mh w mh')
  obtain m H where mh: "mh = (m, H)" by (cases mh)
  have inv: "mutex_inv ((m, H), pc)" using lock_queued mh by auto
  show ?case
    using lock_enter_cases [OF inv lock_queued(1,2) lock_queued(3) [unfolded mh]]
      inv_joined [OF inv _ _ lock_queued(1,2)] by cases auto
next
  case (granted pc t w H m)
  then show ?case using inv_granted(1) by blast
next
  case (gave_up pc t w e mh r mh')
  obtain m H where mh: "mh = (m, H)" by (cases mh)
  have inv: "mutex_inv ((m, H), pc)" using gave_up mh by auto
  show ?case using inv_gave_up(1) [OF inv gave_up(1,2) gave_up(3) [unfolded mh]] by simp
next
  case (unlocked t pc mh r mh')
  obtain m H where mh: "mh = (m, H)" by (cases mh)
  have inv: "mutex_inv ((m, H), pc)" using unlocked mh by auto
  have same: "pc(t := Idle) = pc" if "pc t = Idle" using that by (simp add: fun_upd_idem)
  show ?case
    using unlock_cases [OF inv unlocked(1,2) unlocked(3) [unfolded mh]] inv inv_nested [OF inv, of t]
      inv_released [OF inv, of t 1] same by cases auto
qed

lemma mutex_reachable_inv: "mutex_reachable ty s \<Longrightarrow> mutex_inv s"
  unfolding mutex_reachable_def
proof (elim exE)
  fix H assume "mutex_step\<^sup>*\<^sup>* (mutex_start ty H) s"
  then show "mutex_inv s" by (induction rule: rtranclp_induct) (auto intro: mutex_inv_start mutex_step_inv)
qed

section \<open>The mutex meets the wake-one contract\<close>

definition mq_ok :: "mutex_heap \<Rightarrow> bool" where
  "mq_ok = (\<lambda>(m, H). distinct (queue_of m)
     \<and> (\<forall>v\<in>set (queue_of m). v < wh_next H \<and> \<not> is_signaled H v \<and> thread_of H v \<noteq> 0)
     \<and> (pm_owner m = 0 \<longrightarrow> pm_waiters m = []))"

definition mq_pending :: "mutex_heap \<Rightarrow> nat list" where "mq_pending mh = queue_of (fst mh)"

definition mq_woken :: "mutex_heap \<Rightarrow> nat \<Rightarrow> bool" where
  "mq_woken mh w \<longleftrightarrow> w < wh_next (snd mh) \<and> is_signaled (snd mh) w"

text \<open>A thread joins a held mutex it is not already waiting for.\<close>

definition mq_can :: "u64 \<Rightarrow> mutex_heap \<Rightarrow> bool" where
  "mq_can t = (\<lambda>(m, H). t \<noteq> 0 \<and> pm_owner m \<noteq> 0 \<and> (\<forall>v\<in>set (queue_of m). thread_of H v \<noteq> t))"

lemma enqueue_spec:
  assumes "mq_can t (m, H)" and "gw_new t H = (w, H')"
  shows "enqueue_mutex_waiter t site rsp (m, H) = (w, (m\<lparr>pm_waiters := pm_waiters m
    @ [\<lparr>mw_signal = w, mw_acquire_site = site, mw_acquire_rsp = rsp\<rparr>]\<rparr>, H'))"
proof -
  have "filter (\<lambda>x. thread_of H (mw_signal x) \<noteq> t) (pm_waiters m) = pm_waiters m"
    using assms(1) by (simp add: mq_can_def filter_id_conv)
  then show ?thesis using assms by (simp add: enqueue_mutex_waiter_def mq_can_def)
qed

lemma filter_signal: "distinct (map mw_signal xs) \<Longrightarrow>
    map mw_signal (filter (\<lambda>x. mw_signal x \<noteq> w) xs) = remove1 w (map mw_signal xs)"
  by (simp add: distinct_remove1_removeAll removeAll_filter_not_eq filter_map comp_def)
    (metis (mono_tags, lifting))

interpretation mq: wait_queue mq_ok mq_pending mq_woken mq_can
  "\<lambda>t. enqueue_mutex_waiter t site rsp" release_mutex cancel_mutex_waiter
  for site rsp :: u64
proof unfold_locales
  fix s s' :: mutex_heap and w v :: nat and t r ws
  obtain m H where s: "s = (m, H)" by (cases s)
  assume ok: "mq_ok s"
  have q: "v < wh_next H \<and> \<not> is_signaled H v \<and> thread_of H v \<noteq> 0" if "v \<in> set (queue_of m)" for v
    using ok s that by (auto simp: mq_ok_def)
  have d: "distinct (queue_of m)" using ok s by (simp add: mq_ok_def)
  show "distinct (mq_pending s)" using d s by (simp add: mq_pending_def)
  show "w \<in> set (mq_pending s) \<Longrightarrow> \<not> mq_woken s w" using q s by (simp add: mq_pending_def mq_woken_def)
  obtain w0 H0 where n: "gw_new t H = (w0, H0)" by (cases "gw_new t H")
  note g = gw_new_simps [OF n]
  { assume c: "mq_can t s" and e: "enqueue_mutex_waiter t site rsp s = (w, s')"
    have s': "w = w0" "s' = (m\<lparr>pm_waiters := pm_waiters m
        @ [\<lparr>mw_signal = w0, mw_acquire_site = site, mw_acquire_rsp = rsp\<rparr>]\<rparr>, H0)"
      using enqueue_spec [OF c [unfolded s] n] e s by auto
    have new: "w0 \<notin> set (queue_of m)" using q g(1) by blast
    have old: "is_signaled H0 x = is_signaled H x \<and> thread_of H0 x = thread_of H x \<and> x < wh_next H0"
      if "x \<in> set (queue_of m)" for x using g(5) [of x] g(2) q [OF that] new that by fastforce
    have Q: "queue_of (fst s') = queue_of m @ [w0]" using s' by simp
    show "mq_ok s'" unfolding mq_ok_def s'(2) prod.case
      using new old q d g(1-4) c s by (auto simp: mq_can_def)
    show "mq_pending s' = mq_pending s @ [w] \<and> w \<notin> set (mq_pending s)
        \<and> (\<forall>v\<in>set (mq_pending s). mq_woken s' v = mq_woken s v)"
      using new old q s s' by (simp add: mq_pending_def mq_woken_def)
    show "mq_woken s v \<Longrightarrow> mq_woken s' v"
      using s s' g(1,2) g(5) [of v] by (auto simp: mq_woken_def) }
  show "mq_ok (release_mutex s)" unfolding s release_spec
  proof (cases "pm_waiters m")
    case (Cons x xs)
    then have "mw_signal y \<noteq> mw_signal x" if "y \<in> set xs" for y using d that by (force simp: image_iff)
    then show "mq_ok (case pm_waiters m of
        [] \<Rightarrow> (m\<lparr>pm_recursion := 0, pm_owner := 0, pm_acquire_site := 0, pm_acquire_rsp := 0\<rparr>, H)
      | x # ws \<Rightarrow> (m\<lparr>pm_recursion := 1, pm_owner := thread_of H (mw_signal x),
          pm_acquire_site := mw_acquire_site x, pm_acquire_rsp := mw_acquire_rsp x, pm_waiters := ws\<rparr>,
          gw_wake (mw_signal x) H))"
      using Cons d q by (simp add: mq_ok_def)
  qed (simp add: mq_ok_def)
  show "mq_pending s = w # ws \<Longrightarrow>
      mq_pending (release_mutex s) = ws \<and> (\<forall>v. mq_woken (release_mutex s) v = (v = w \<or> mq_woken s v))"
    unfolding s release_spec using q by (auto simp: mq_pending_def mq_woken_def)
  show "mq_pending s = [] \<Longrightarrow> mq_pending (release_mutex s) = [] \<and> mq_woken (release_mutex s) = mq_woken s"
    unfolding s release_spec by (simp add: mq_pending_def mq_woken_def fun_eq_iff)
  { assume e: "cancel_mutex_waiter w s = (r, s')"
    show "mq_ok s'" using e d ok s cancel_spec [OF d, of w]
      by (auto simp: mq_ok_def distinct_map_filter split: if_splits)
    show "r = (w \<in> set (mq_pending s)) \<and> mq_pending s' = remove1 w (mq_pending s) \<and> mq_woken s' = mq_woken s"
      using e d s cancel_spec [OF d, of w] filter_signal [OF d, of w]
      by (auto simp: mq_pending_def mq_woken_def fun_eq_iff remove1_idem split: if_splits) }
qed

lemma mutex_inv_mq_ok: "mutex_inv ((m, H), pc) \<Longrightarrow> mq_ok (m, H)"
  using mutex_invD(1) queued_waiter(3,4,6) mutex_invD(4)
  by (auto simp: mq_ok_def untouched_def)

section \<open>Waiting for the handoff\<close>

text \<open>The abandon reports the code it was given, or \<open>OK\<close> when a handoff came
  first.\<close>

lemma on_mutex_fst: "fst (on_mutex r f s) = fst (f (mutex_objs s r, mt_heap s))"
  by (simp add: on_mutex_def split: prod.splits)

lemma abandon_codes:
  "on_mutex r (abandon_mutex_wait w e) s = (c, s') \<Longrightarrow> c = OK \<or> c = e"
  using on_mutex_fst [of r "abandon_mutex_wait w e" s]
  by (auto simp: abandon_mutex_wait_def split: prod.splits if_splits)

interpretation mutex_wait: sliced_wait "lock_wait_turn r w" ETIMEDOUT due_now
  for r w :: nat
proof unfold_locales
  fix dl and t :: "('m, 'x) mutex_state_scheme lock_slice" and s s'
  show "lock_wait_turn r w dl t s = Returned ETIMEDOUT s' \<Longrightarrow>
      guest_deadline_reached dl (sl_now t)"
    by (auto simp: lock_wait_turn_def Let_def split: if_splits prod.splits dest: abandon_codes)
  show "lock_wait_turn r w dl t s = Slice_over s' \<Longrightarrow> \<not> due_now dl t"
    by (auto simp: lock_wait_turn_def due_now_def Let_def split: if_splits prod.splits)
qed

section \<open>Properties\<close>

definition demo_heap :: waiter_heap where
  "demo_heap = \<lparr>wh_obj = (\<lambda>n. \<lparr>gw_thread = 0, gw_signaled_fast = False, gw_signaled = False\<rparr>), wh_next = 0\<rparr>"

definition demo_contended :: mutex_heap where
  "demo_contended = snd (lock_enter 2 0x300 0x400 False False False
     (snd (lock_enter 1 0x100 0x200 False False False (mutex_shared 3, demo_heap))))"

abbreviation demo_pc :: "u64 \<Rightarrow> lock_pc" where
  "demo_pc \<equiv> (\<lambda>_. Idle)(1 := Holding 1, 2 := Waiting 0)"

lemma demo_contended_eq:
  "demo_contended = (\<lparr>pm_ty = 3, pm_owner = 1, pm_recursion = 1, pm_acquire_site = 0x100, pm_acquire_rsp = 0x200,
      pm_waiters = [\<lparr>mw_signal = 0, mw_acquire_site = 0x300, mw_acquire_rsp = 0x400\<rparr>]\<rparr>, snd (gw_new 2 demo_heap))"
  by (simp add: demo_contended_def lock_enter_def mutex_shared_def enqueue_mutex_waiter_def gw_new_def
      demo_heap_def try_grant_head_def)

lemma demo_contended_reachable: "mutex_reachable 3 (demo_contended, demo_pc)"
proof -
  let ?l = "lock_enter 1 0x100 0x200 False False False (mutex_shared 3, demo_heap)"
  have "mutex_step (mutex_start 3 demo_heap) (snd ?l, (\<lambda>_. Idle)(1 := Holding 1))"
    unfolding mutex_start_def
    by (rule lock_ok [of 1 _ "0x100" "0x200" False False False])
      (simp_all add: lock_enter_def mutex_shared_def)
  moreover have "mutex_step (snd ?l, (\<lambda>_. Idle)(1 := Holding 1)) (demo_contended, demo_pc)"
    unfolding demo_contended_def
    by (rule lock_queued [of 2 _ "0x300" "0x400" False False False])
      (simp_all add: lock_enter_def mutex_shared_def enqueue_mutex_waiter_def gw_new_def demo_heap_def
        try_grant_head_def)
  ultimately show ?thesis
    unfolding mutex_reachable_def by (meson rtranclp.rtrancl_into_rtrancl rtranclp.rtrancl_refl)
qed

text \<open>C10: mutual exclusion over every interleaving of lock, try-lock, timed
  lock, spin, park, time-out, teardown and unlock: at most one thread holds the
  mutex, it is the recorded owner at the recorded depth, and a parked thread's
  private wake bit is set exactly when the mutex has been handed to it, at
  which point nobody else holds it.\<close>

theorem mutex_exclusion:
  assumes "mutex_reachable ty ((m, H), pc)"
  shows "(\<forall>t n. pc t = Holding n \<longrightarrow> pm_owner m = t \<and> pm_recursion m = int n \<and> 0 < n)
    \<and> (\<forall>t u n k. pc t = Holding n \<longrightarrow> pc u = Holding k \<longrightarrow> t = u)
    \<and> (\<forall>t w. pc t = Waiting w \<longrightarrow> (is_signaled H w \<longleftrightarrow> pm_owner m = t))
    \<and> (\<forall>t w u n. pc t = Waiting w \<longrightarrow> is_signaled H w \<longrightarrow> pc u \<noteq> Holding n)"
proof -
  note inv = mutex_reachable_inv [OF assms]
  have h: "pm_owner m = t \<and> pm_recursion m = int n \<and> 0 < n" if "pc t = Holding n" for t n
    using holder_owns [OF inv that] by simp
  have w: "is_signaled H w \<longleftrightarrow> pm_owner m = t" if "pc t = Waiting w" for t w
    using inv_granted(2) [OF inv that] mutex_invD(3) [OF inv that] mutex_invD(5) [OF inv] that
      woken_up_def by auto
  have "pc u \<noteq> Holding n" if "pc t = Waiting v" "is_signaled H v" for t v u n
    using h [of u n] w [of t v] that by auto
  moreover have "t = u" if "pc t = Holding n" "pc u = Holding k" for t u n k
    using h [of t n] h [of u k] that by simp
  ultimately show ?thesis using h w by blast
qed

theorem mutex_exclusion_witness:
  "pm_owner (fst demo_contended) = 1 \<and> \<not> is_signaled (snd demo_contended) 0"
proof -
  have "mutex_reachable 3 ((fst demo_contended, snd demo_contended), demo_pc)"
    using demo_contended_reachable by simp
  note e = mutex_exclusion [OF this]
  have "pm_owner (fst demo_contended) = 1"
    using conjunct1 [OF e, rule_format, of 1 1] by simp
  moreover have "is_signaled (snd demo_contended) 0 \<longleftrightarrow> pm_owner (fst demo_contended) = 2"
    using conjunct1 [OF conjunct2 [OF conjunct2 [OF e]], rule_format, of 2 0] by simp
  ultimately show ?thesis by simp
qed

text \<open>C11: direct handoff without barging: when the holder drops its last level
  with waiters queued, the mutex passes in the same critical section to the
  thread that has waited longest, exactly its wake bit is set, and until that
  thread acts no other thread's lock or try-lock succeeds.\<close>

theorem mutex_handoff:
  assumes "mutex_reachable ty ((m, H), pc)" and "pc t = Holding 1" and "pm_waiters m = x # ws"
    and "unlock_object t (m, H) = (r, (m', H'))"
  shows "r = OK \<and> pm_owner m' = thread_of H (mw_signal x) \<and> pm_recursion m' = 1 \<and> pm_waiters m' = ws
    \<and> pm_owner m' \<noteq> t
    \<and> (\<forall>v. is_signaled H' v \<longleftrightarrow> v = mw_signal x \<or> is_signaled H v)
    \<and> (\<forall>u site rsp tr te ex. u \<noteq> 0 \<longrightarrow> u \<noteq> pm_owner m' \<longrightarrow> pc u = Idle \<or> u = t \<longrightarrow>
         fst (lock_enter u site rsp tr te ex (m', H')) \<noteq> Lock_done OK)"
proof -
  note inv = mutex_reachable_inv [OF assms(1)] and o = holder_owns [OF mutex_reachable_inv [OF assms(1)] assms(2)]
  have q: "mw_signal x \<in> set (queue_of m)" using assms(3) by simp
  note x = queued_waiter [OF inv q]
  have r: "r = OK" "(m', H') = release_mutex (m, H)"
    using unlock_cases [OF inv o(2) _ assms(4)] assms(2) by (cases; simp)+
  then have m': "pm_owner m' = thread_of H (mw_signal x)" "pm_recursion m' = 1" "pm_waiters m' = ws"
      "H' = gw_wake (mw_signal x) H" using assms(3) by (simp_all add: release_spec)
  have inv': "mutex_inv ((m', H'), pc(t := Idle))" using inv_released [OF inv assms(2)] r(2) by simp
  have "fst (lock_enter u site rsp tr te ex (m', H')) \<noteq> Lock_done OK"
    if u: "u \<noteq> 0" "u \<noteq> pm_owner m'" "pc u = Idle \<or> u = t" for u site rsp tr te ex
  proof -
    have run: "running ((pc(t := Idle)) u)" using u(3) by auto
    obtain e mh where l: "lock_enter u site rsp tr te ex (m', H') = (e, mh)"
      by (cases "lock_enter u site rsp tr te ex (m', H')")
    have "pm_owner m' \<noteq> 0" using m'(1) x(3) by simp
    then have "e \<noteq> Lock_done OK" using lock_enter_cases [OF inv' u(1) run l] u(2) by cases auto
    then show ?thesis using l by simp
  qed
  then show ?thesis using r(1) m' x(5) o(1) by simp
qed

theorem mutex_handoff_witness:
  "pm_owner (fst (snd (unlock_object 1 demo_contended))) = 2"
proof -
  have "mutex_reachable 3 ((fst demo_contended, snd demo_contended), demo_pc)"
    using demo_contended_reachable by simp
  moreover have "pm_waiters (fst demo_contended)
      = \<lparr>mw_signal = 0, mw_acquire_site = 0x300, mw_acquire_rsp = 0x400\<rparr> # []"
    by (simp add: demo_contended_eq)
  moreover have "unlock_object 1 (fst demo_contended, snd demo_contended)
      = (fst (unlock_object 1 demo_contended), (fst (snd (unlock_object 1 demo_contended)),
         snd (snd (unlock_object 1 demo_contended))))" by simp
  ultimately have "pm_owner (fst (snd (unlock_object 1 demo_contended)))
      = thread_of (snd demo_contended) 0"
    using mutex_handoff [where t = 1 and pc = demo_pc] by fastforce
  then show ?thesis by (simp add: demo_contended_eq gw_new_def thread_of_def demo_heap_def)
qed

text \<open>One unlock by whoever owns the mutex at that moment.\<close>

definition owner_unlock :: "mutex_heap \<Rightarrow> mutex_heap" where
  "owner_unlock mh = snd (unlock_object (pm_owner (fst mh)) mh)"

lemma owner_unlock_release: "pm_recursion (fst mh) = 1 \<Longrightarrow> owner_unlock mh = release_mutex mh"
  by (cases mh) (simp add: owner_unlock_def unlock_object_def release_mutex_def Let_def
      i32_sub_id i32_range_def)

lemma release_owner:
  assumes "pm_waiters (fst mh) = x # ws"
  shows "pm_recursion (fst (release_mutex mh)) = 1"
    "pm_owner (fst (release_mutex mh)) = thread_of (snd mh) (mw_signal x)"
    "thread_of (snd (release_mutex mh)) v = thread_of (snd mh) v"
  using assms by (cases mh, simp add: release_spec)+

text \<open>A contended mutex is granted strictly in arrival order: as long as only
  the current owners unlock, the \<open>k\<close>-th unlock gives it to the \<open>k\<close>-th thread of
  the queue, the later ones stay queued in their order, and exactly the wake
  bits of the first \<open>k\<close> have been set.\<close>

theorem mutex_fifo:
  assumes "mq_ok mh" and "pm_recursion (fst mh) = 1" and "k \<le> length (queue_of (fst mh))"
  shows "queue_of (fst ((owner_unlock ^^ k) mh)) = drop k (queue_of (fst mh))
    \<and> (0 < k \<longrightarrow> pm_owner (fst ((owner_unlock ^^ k) mh)) = thread_of (snd mh) (queue_of (fst mh) ! (k - 1)))
    \<and> (\<forall>v. mq_woken ((owner_unlock ^^ k) mh) v \<longleftrightarrow> v \<in> set (take k (queue_of (fst mh))) \<or> mq_woken mh v)"
proof -
  have chain: "(owner_unlock ^^ j) mh = (release_mutex ^^ j) mh
      \<and> pm_recursion (fst ((release_mutex ^^ j) mh)) = 1
      \<and> (\<forall>v. thread_of (snd ((release_mutex ^^ j) mh)) v = thread_of (snd mh) v)
      \<and> (0 < j \<longrightarrow> pm_owner (fst ((release_mutex ^^ j) mh)) = thread_of (snd mh) (queue_of (fst mh) ! (j - 1)))"
    if "j \<le> k" for j
    using that
  proof (induction j)
    case (Suc j)
    let ?s = "(release_mutex ^^ j) mh"
    have IH: "(owner_unlock ^^ j) mh = ?s" "pm_recursion (fst ?s) = 1"
        "\<And>v. thread_of (snd ?s) v = thread_of (snd mh) v" using Suc by auto
    have "queue_of (fst ?s) = drop j (queue_of (fst mh))"
      using mq.fifo [OF assms(1), of j] by (simp add: mq_pending_def)
    moreover have j: "j < length (queue_of (fst mh))" using Suc.prems assms(3) by simp
    ultimately have q: "queue_of (fst ?s) = queue_of (fst mh) ! j # drop (Suc j) (queue_of (fst mh))"
      by (metis Cons_nth_drop_Suc)
    then obtain x ws where x: "pm_waiters (fst ?s) = x # ws" "mw_signal x = queue_of (fst mh) ! j" by auto
    show ?case
      using owner_unlock_release [OF IH(2)] release_owner [OF x(1)] IH x(2) by simp
  qed (use assms(2) in simp)
  show ?thesis
    using mq.fifo [OF assms(1), of k] chain [of k] by (simp add: mq_pending_def)
qed

theorem mutex_fifo_witness:
  "pm_owner (fst ((owner_unlock ^^ 1) demo_contended)) = 2"
proof -
  have "mq_ok demo_contended"
    using mutex_inv_mq_ok [of "fst demo_contended" "snd demo_contended" demo_pc]
      mutex_reachable_inv [OF demo_contended_reachable] by simp
  then show ?thesis
    using mutex_fifo [of demo_contended 1]
    by (simp add: demo_contended_eq gw_new_def thread_of_def demo_heap_def)
qed

text \<open>C12: no thread is ever parked on a mutex nobody will release: whenever some
  thread is parked, there is an owner, which either really holds the mutex (its
  unlock is accepted) or has its own wake bit set and only has to look at it.\<close>

theorem mutex_no_lost_wakeup:
  assumes "mutex_reachable ty ((m, H), pc)" and "pc t = Waiting w"
  shows "pm_owner m \<noteq> 0 \<and> (case pc (pm_owner m) of
      Holding n \<Rightarrow> fst (unlock_object (pm_owner m) (m, H)) = OK
    | Waiting v \<Rightarrow> is_signaled H v \<and> v \<notin> set (queue_of m)
    | Idle \<Rightarrow> False)"
proof -
  note inv = mutex_reachable_inv [OF assms(1)]
  note I = mutex_invD [OF inv]
  have o: "pm_owner m \<noteq> 0"
    using I(3) [OF assms(2)] I(7) [OF assms(2)] queued_waiter(1) [OF inv, of w]
    by (cases "w \<in> set (queue_of m)") auto
  show ?thesis
  proof (cases "pc (pm_owner m)")
    case (Holding n)
    have run: "running (pc (pm_owner m))" using Holding by simp
    obtain r mh where u: "unlock_object (pm_owner m) (m, H) = (r, mh)"
      by (cases "unlock_object (pm_owner m) (m, H)")
    have "r = OK" using unlock_cases [OF inv o run u] Holding by cases auto
    then show ?thesis using o Holding u by simp
  qed (use I(5) [OF o] o in \<open>auto simp: woken_up_def\<close>)
qed

theorem mutex_no_lost_wakeup_witness:
  "fst (unlock_object 1 demo_contended) = OK"
proof -
  have "mutex_reachable 3 ((fst demo_contended, snd demo_contended), demo_pc)"
    using demo_contended_reachable by simp
  from mutex_no_lost_wakeup [OF this, of 2 0] show ?thesis
    by (simp add: demo_contended_eq)
qed

text \<open>The code of an uncontended re-entrant use.\<close>

definition lock_once :: "u64 \<Rightarrow> mutex_heap \<Rightarrow> mutex_heap" where
  "lock_once t mh = snd (lock_enter t 0 0 False False False mh)"

definition unlock_once :: "u64 \<Rightarrow> mutex_heap \<Rightarrow> mutex_heap" where
  "unlock_once t mh = snd (unlock_object t mh)"

lemma lock_n:
  assumes "t \<noteq> 0" and "ty = 2 \<or> ty = 3 \<or> ty = 4" and "n < 2147483647"
  shows "(lock_once t ^^ Suc n) (mutex_shared ty, H)
    = ((mutex_shared ty)\<lparr>pm_owner := t, pm_recursion := int (Suc n)\<rparr>, H)"
  using assms
proof (induction n)
  case (Suc n)
  then have "(lock_once t ^^ Suc (Suc n)) (mutex_shared ty, H)
    = lock_once t ((mutex_shared ty)\<lparr>pm_owner := t, pm_recursion := int (Suc n)\<rparr>, H)" by simp
  also have "i32_add (int (Suc n)) 1 = int (Suc (Suc n))"
    using Suc.prems(3) by (simp add: i32_add_id i32_range_def)
  then have "lock_once t ((mutex_shared ty)\<lparr>pm_owner := t, pm_recursion := int (Suc n)\<rparr>, H)
      = ((mutex_shared ty)\<lparr>pm_owner := t, pm_recursion := int (Suc (Suc n))\<rparr>, H)"
    using Suc.prems(2)
    by (auto simp: lock_once_def lock_enter_def relock_def mutex_shared_def)
  finally show ?case .
qed (simp add: lock_once_def lock_enter_def mutex_shared_def)

lemma unlock_k:
  assumes "t \<noteq> 0" and "k \<le> n" and "n < 2147483648"
  shows "(unlock_once t ^^ k) ((mutex_shared ty)\<lparr>pm_owner := t, pm_recursion := int n\<rparr>, H)
    = ((mutex_shared ty)\<lparr>pm_owner := (if k = n \<and> 0 < n then 0 else t), pm_recursion := int (n - k)\<rparr>, H)"
  using assms(2)
proof (induction k)
  case (Suc k)
  then have "(unlock_once t ^^ Suc k) ((mutex_shared ty)\<lparr>pm_owner := t, pm_recursion := int n\<rparr>, H)
    = unlock_once t ((mutex_shared ty)\<lparr>pm_owner := t, pm_recursion := int (n - k)\<rparr>, H)" by simp
  also have "i32_sub (int (n - k)) 1 = int (n - Suc k)"
    using Suc.prems assms(3) by (simp add: i32_sub_id i32_range_def)
  then have "unlock_once t ((mutex_shared ty)\<lparr>pm_owner := t, pm_recursion := int (n - k)\<rparr>, H)
      = ((mutex_shared ty)\<lparr>pm_owner := (if Suc k = n \<and> 0 < n then 0 else t), pm_recursion := int (n - Suc k)\<rparr>, H)"
    using Suc.prems by (simp add: unlock_once_def unlock_object_def mutex_shared_def Let_def try_grant_head_def)
  finally show ?case .
qed auto

text \<open>Re-entrant locking balances: on a recursive, normal or adaptive mutex,
  \<open>n\<close> locks (up to \<open>i32::MAX\<close>) are undone by exactly \<open>n\<close> unlocks, which restore
  the fresh object; before the last one the mutex is still owned, another
  thread's try-lock is refused with \<open>EBUSY\<close> and its unlock with \<open>EPERM\<close>.\<close>

theorem recursive_lock_balances:
  assumes "t \<noteq> 0" and "ty = 2 \<or> ty = 3 \<or> ty = 4" and "0 < n" and "n < 2147483648"
  shows "(unlock_once t ^^ n) ((lock_once t ^^ n) (mutex_shared ty, H)) = (mutex_shared ty, H)
    \<and> (\<forall>k<n. \<forall>u. u \<noteq> 0 \<longrightarrow> u \<noteq> t \<longrightarrow>
        (let mh = (unlock_once t ^^ k) ((lock_once t ^^ n) (mutex_shared ty, H)) in
         unlock_object u mh = (EPERM, mh) \<and> lock_enter u 0 0 True False False mh = (Lock_done EBUSY, mh)))"
proof -
  obtain j where j: "n = Suc j" using assms(3) by (cases n) auto
  have l: "(lock_once t ^^ n) (mutex_shared ty, H)
      = ((mutex_shared ty)\<lparr>pm_owner := t, pm_recursion := int n\<rparr>, H)"
    using lock_n [OF assms(1,2), of j H] assms(4) j by simp
  show ?thesis
    unfolding l using unlock_k [OF assms(1) _ assms(4), of _ ty H] assms(1,3)
    by (auto simp: mutex_shared_def unlock_object_def lock_enter_def Let_def)
qed

theorem recursive_lock_balances_witness:
  "(unlock_once 7 ^^ 3) ((lock_once 7 ^^ 3) (mutex_shared 2, demo_heap)) = (mutex_shared 2, demo_heap)"
  using recursive_lock_balances [of 7 2 3 demo_heap] by simp

section \<open>The calls\<close>

lemma lock_enter_codes:
  assumes "lock_enter t site rsp try_only terminating expired mh = (r, mh')"
  shows "r = Lock_done ETIMEDOUT \<Longrightarrow> expired" and "r = Lock_queued w \<Longrightarrow> \<not> try_only"
  using assms
  by (cases mh, auto simp: lock_enter_def relock_def split: if_splits prod.splits)+

lemma on_mutex_eq:
  "on_mutex r f s = (x, s') \<Longrightarrow> \<exists>mh. f (mutex_objs s r, mt_heap s) = (x, mh)"
  by (auto simp: on_mutex_def split: prod.splits)

lemma on_mutex_same:
  "f (mutex_objs s r, mt_heap s) = (x, (mutex_objs s r, mt_heap s)) \<Longrightarrow> on_mutex r f s = (x, s)"
  by (simp add: on_mutex_def)

text \<open>The ways a call of the lock can end.\<close>

lemma lock_core_cases:
  assumes "lock_core E c a try_only dl ts s = out"
  obtains (bad) s1 where "out = Some (EINVAL, s1)"
  | (now) code s1 where "out = Some (code, s1)"
      "code = ETIMEDOUT \<Longrightarrow> guest_deadline_reached dl (lc_now c)"
  | (parked) r w s1 where "\<not> try_only" "out = run_slices (lock_wait_turn r w dl) ts s1"
proof (cases "a = 0")
  case True
  then show ?thesis using assms that(1) by (auto simp: lock_core_def)
next
  case False
  let ?found = "case resolve_mutex E a s of Some (_, r) \<Rightarrow> (Some r, s) | None \<Rightarrow> implicit_mutex E a (lc_race c s)"
  obtain f s1 where f: "?found = (f, s1)" by (cases ?found)
  show ?thesis
  proof (cases f)
    case None
    then show ?thesis using assms False f that(1) by (auto simp: lock_core_def)
  next
    case (Some r)
    let ?enter = "lock_enter (lc_thread c) (lc_site c) (lc_rsp c) try_only (lc_terminating c)
        (guest_deadline_reached dl (lc_now c))"
    obtain e s2 where e: "on_mutex r ?enter s1 = (e, s2)" by (cases "on_mutex r ?enter s1")
    obtain mh where l: "?enter (mutex_objs s1 r, mt_heap s1) = (e, mh)" using on_mutex_eq [OF e] by blast
    show ?thesis
    proof (cases e)
      case (Lock_done code)
      then have "out = Some (code, s2)" using assms False f Some e by (simp add: lock_core_def)
      then show ?thesis using that(2) lock_enter_codes(1) [OF l] Lock_done by blast
    next
      case (Lock_queued w)
      obtain g s3 where g: "spin_phase w (lc_spin c) s2 = (g, s3)" by (cases "spin_phase w (lc_spin c) s2")
      have "out = (if g then Some (OK, s3) else run_slices (lock_wait_turn r w dl) ts s3)"
        using assms False f Some e Lock_queued g by (simp add: lock_core_def)
      then show ?thesis using that(2) [of OK s3] that(3) [of r w s3] lock_enter_codes(2) [OF l Lock_queued]
        by (auto split: if_splits)
    qed
  qed
qed

lemma mutex_turn_goes_on: "lock_wait_turn r w dl t s \<noteq> Still_parked"
  by (simp add: lock_wait_turn_def Let_def split: prod.splits)

text \<open>Time-outs of a lock: a lock without a deadline never reports
  \<open>ETIMEDOUT\<close>; a timed lock reports it only when its deadline has been reached
  at entry or at one of its turns; a try-lock returns at once; and a parked
  lock returns once a turn sees teardown or the expired deadline.\<close>

theorem mutex_lock_timeouts:
  "lock_core E c a try_only None ts s \<noteq> Some (ETIMEDOUT, s')
    \<and> (lock_core E c a try_only (Some d) ts s = Some (ETIMEDOUT, s')
        \<longrightarrow> d \<le> lc_now c \<or> (\<exists>t\<in>set ts. d \<le> sl_now t))
    \<and> lock_core E c a True dl ts s \<noteq> None
    \<and> ((\<exists>t\<in>set ts. due_now dl t) \<longrightarrow> lock_core E c a try_only dl ts s \<noteq> None)"
proof (intro conjI impI)
  show "lock_core E c a try_only None ts s \<noteq> Some (ETIMEDOUT, s')"
  proof
    assume o: "lock_core E c a try_only None ts s = Some (ETIMEDOUT, s')"
    then show False
      by (cases rule: lock_core_cases)
        (auto simp: guest_deadline_reached_def dest!: sym [of "Some (ETIMEDOUT, s')"]
          dest: mutex_wait.null_timeout_never_times_out)
  qed
  show "d \<le> lc_now c \<or> (\<exists>t\<in>set ts. d \<le> sl_now t)"
    if "lock_core E c a try_only (Some d) ts s = Some (ETIMEDOUT, s')"
    using that by (cases rule: lock_core_cases)
      (auto simp: guest_deadline_reached_def dest!: sym [of "Some (ETIMEDOUT, s')"]
        dest: mutex_wait.timeout_at_deadline)
  show "lock_core E c a True dl ts s \<noteq> None"
    by (cases rule: lock_core_cases [of E c a True dl ts s, OF refl]) auto
  show "lock_core E c a try_only dl ts s \<noteq> None" if due: "\<exists>t\<in>set ts. due_now dl t"
  proof -
    have "run_slices (lock_wait_turn r w dl) ts s1 \<noteq> None" for r w s1
      using due mutex_wait.returns_when_due mutex_turn_goes_on by blast
    then show ?thesis by (cases rule: lock_core_cases [of E c a try_only dl ts s, OF refl]) auto
  qed
qed

definition demo_lock_slice :: "nat \<Rightarrow> 's lock_slice" where
  "demo_lock_slice now = \<lparr>sl_others = id, sl_terminating = False, sl_pending = False,
     sl_deliver = id, sl_now = now, ls_gap = id\<rparr>"

definition demo_lock_ctx :: "u64 \<Rightarrow> 's lock_ctx" where
  "demo_lock_ctx t = \<lparr>lc_thread = t, lc_site = 0, lc_rsp = 0, lc_terminating = False, lc_now = 0,
     lc_race = id, lc_spin = []\<rparr>"

definition demo_mutexes :: "(byte list \<times> u64) mutex_state" where
  "demo_mutexes = \<lparr>mt_mem = (replicate 64 0, 0x1000), mt_heap = demo_heap, pthread_mutexes = Map.empty,
     mutex_objs = (\<lambda>_. mutex_shared 3), mutex_next = 0, pthread_mutex_attrs = Map.empty\<rparr>"

theorem mutex_lock_timeouts_witness:
  "lock_core test_env (demo_lock_ctx 1) 0x10 False (Some 5) [demo_lock_slice 4, demo_lock_slice 9] demo_mutexes \<noteq> None
    \<and> lock_core test_env (demo_lock_ctx 1) 0x10 False (Some 5) [demo_lock_slice 3] demo_mutexes
        \<noteq> Some (ETIMEDOUT, demo_mutexes)"
proof
  show "lock_core test_env (demo_lock_ctx 1) 0x10 False (Some 5) [demo_lock_slice 4, demo_lock_slice 9]
      demo_mutexes \<noteq> None"
    using mutex_lock_timeouts [where E = test_env and c = "demo_lock_ctx 1" and a = "0x10" and s = demo_mutexes
        and s' = demo_mutexes and d = 0 and try_only = False and dl = "Some 5"
        and ts = "[demo_lock_slice 4, demo_lock_slice 9]"]
    by (simp add: due_now_def guest_deadline_reached_def demo_lock_slice_def)
  show "lock_core test_env (demo_lock_ctx 1) 0x10 False (Some 5) [demo_lock_slice 3] demo_mutexes
      \<noteq> Some (ETIMEDOUT, demo_mutexes)"
    using mutex_lock_timeouts [where c = "demo_lock_ctx 1" and d = 5 and ts = "[demo_lock_slice 3]"
        and s = demo_mutexes and s' = demo_mutexes and E = test_env and a = "0x10" and try_only = False]
    by (auto simp: demo_lock_slice_def demo_lock_ctx_def)
qed

text \<open>The two guest names of a mutex: after a successful
  \<open>scePthreadMutexInit\<close> the slot holds a non-null handle, and the slot, the
  handle, and any other word holding the handle resolve to the one fresh
  object of the requested type; \<open>scePthreadMutexDestroy\<close> through the slot
  forgets both names, and neither call touches another mutex.\<close>

theorem mutex_init_destroy:
  assumes "guest_host E ok" and "ok (mt_mem s)" and "hle_mutex_init E [a, attr] s = (OK, s')"
  shows "\<exists>h r s''. h \<noteq> 0 \<and> read_u64 E a (mt_mem s') = Some h
    \<and> resolve_mutex E a s' = Some (a, r) \<and> resolve_mutex E h s' = Some (h, r)
    \<and> (\<forall>b. pthread_mutexes s' b = None \<longrightarrow> read_u64 E b (mt_mem s') = Some h
         \<longrightarrow> resolve_mutex E b s' = Some (h, r))
    \<and> mutex_objs s' r = mutex_shared (if attr \<noteq> 0 \<and> pthread_mutex_attrs s attr \<noteq> None
         then the (pthread_mutex_attrs s attr) else 3)
    \<and> hle_mutex_destroy E [a] s' = (OK, s'') \<and> pthread_mutexes s'' a = None \<and> pthread_mutexes s'' h = None
    \<and> (\<forall>b. b \<noteq> a \<longrightarrow> b \<noteq> h \<longrightarrow> pthread_mutexes s' b = pthread_mutexes s b
         \<and> pthread_mutexes s'' b = pthread_mutexes s b)"
proof -
  obtain h m1 m2 where al: "ga_alloc E 0x100 0x10 (mt_mem s) = (Some h, m1)"
      and w: "gm_write E a (u64_bytes h) m1 = (True, m2)"
      and s': "a \<noteq> 0" "s' = publish_mutex a h (if attr \<noteq> 0 \<and> pthread_mutex_attrs s attr \<noteq> None
         then the (pthread_mutex_attrs s attr) else 3) (s\<lparr>mt_mem := m2\<rparr>)"
    using assms(3)
    by (auto simp: hle_mutex_init_def arg_def Let_def split: if_splits option.splits prod.splits)
  note p = guest_host.alloc_publish [OF assms(1,2) al w]
  have rd: "read_u64 E a (mt_mem s') = Some h" using p(3) s'(2) by (simp add: read_u64_def publish_mutex_def)
  let ?s = "s'\<lparr>pthread_mutexes := (pthread_mutexes s')(a := None, h := None),
      mt_mem := snd (gm_write E a (u64_bytes 0) (ga_free E h (mt_mem s')))\<rparr>"
  have d: "hle_mutex_destroy E [a] s' = (OK, ?s)"
    using rd s' p(1) by (simp add: hle_mutex_destroy_def arg_def resolve_mutex_def publish_mutex_def)
  show ?thesis
    by (rule exI [of _ h], rule exI [of _ "mutex_next s"], rule exI [of _ ?s])
      (use p(1) rd d s' in \<open>auto simp: resolve_mutex_def publish_mutex_def\<close>)
qed

theorem mutex_init_destroy_witness:
  "\<exists>h r. h \<noteq> 0 \<and> resolve_mutex test_env 0x10 (snd (hle_mutex_init test_env [0x10, 0] demo_mutexes)) = Some (0x10, r)
     \<and> resolve_mutex test_env h (snd (hle_mutex_init test_env [0x10, 0] demo_mutexes)) = Some (h, r)"
proof -
  have "fst (hle_mutex_init test_env [0x10, 0] demo_mutexes) = OK"
    by (simp add: hle_mutex_init_def demo_mutexes_def test_env_def ta_bump_def tm_write_def arg_def
        checked_add_def Let_def)
  then have "hle_mutex_init test_env [0x10, 0] demo_mutexes
      = (OK, snd (hle_mutex_init test_env [0x10, 0] demo_mutexes))" by (simp add: prod_eq_iff)
  from mutex_init_destroy [OF te.guest_host_axioms _ this] show ?thesis
    by (simp add: demo_mutexes_def) blast
qed

text \<open>Implicit creation of a static mutex is atomic: when a second thread,
  having missed the table, is overtaken by the complete first lock of another
  thread, its own attempt finds that object, does not reset it, and a try-lock
  reports \<open>EBUSY\<close>.\<close>

theorem implicit_creation_atomic:
  assumes "resolve_mutex E a s = None" and "lock_core E c1 a False None [] s = Some (OK, s1)"
    and "lc_race c1 = id" and "lc_spin c1 = []" and "lc_race c2 s = s1"
    and "lc_thread c1 \<noteq> 0" and "lc_thread c2 \<noteq> lc_thread c1"
  shows "\<exists>r. pthread_mutexes s1 a = Some r \<and> pm_owner (mutex_objs s1 r) = lc_thread c1
    \<and> lock_core E c2 a True None [] s = Some (EBUSY, s1)"
proof -
  have a: "a \<noteq> 0" using assms(2) by (auto simp: lock_core_def)
  have none: "pthread_mutexes s a = None" using assms(1) by (auto simp: resolve_mutex_def split: option.splits)
  obtain f s0 where i: "implicit_mutex E a s = (f, s0)" by (cases "implicit_mutex E a s")
  then obtain r where f: "f = Some r" using assms(1-3) a by (cases f) (auto simp: lock_core_def)
  have o: "mutex_objs s0 r = mutex_shared 3" "pthread_mutexes s0 a = Some r"
    using i f none by (auto simp: implicit_mutex_def publish_mutex_def Let_def split: option.splits prod.splits if_splits)
  let ?m = "(mutex_shared 3)\<lparr>pm_owner := lc_thread c1, pm_recursion := 1,
      pm_acquire_site := lc_site c1, pm_acquire_rsp := lc_rsp c1\<rparr>"
  have s1: "s1 = s0\<lparr>mutex_objs := (mutex_objs s0)(r := ?m)\<rparr>"
    using assms(1-3,6) a i f o(1)
    by (simp add: lock_core_def on_mutex_def lock_enter_def mutex_shared_def guest_deadline_reached_def)
  have r: "pthread_mutexes s1 a = Some r" "mutex_objs s1 r = ?m" using s1 o(2) by simp_all
  have "on_mutex r (lock_enter (lc_thread c2) (lc_site c2) (lc_rsp c2) True (lc_terminating c2) False) s1
      = (Lock_done EBUSY, s1)"
    using assms(6,7) r(2) by (intro on_mutex_same) (simp add: lock_enter_def)
  then have "lock_core E c2 a True None [] s = Some (EBUSY, s1)"
    using assms(1,5) a r(1) by (simp add: lock_core_def implicit_mutex_def guest_deadline_reached_def)
  then show ?thesis using r by simp
qed

theorem implicit_creation_atomic_witness:
  "\<exists>s1. lock_core test_env (demo_lock_ctx 1) 0x10 False None [] demo_mutexes = Some (OK, s1)
     \<and> lock_core test_env ((demo_lock_ctx 2)\<lparr>lc_race := \<lambda>_. s1\<rparr>) 0x10 True None [] demo_mutexes = Some (EBUSY, s1)"
proof -
  have none: "resolve_mutex test_env 0x10 demo_mutexes = None"
    by (simp add: resolve_mutex_def demo_mutexes_def read_u64_def test_env_def tm_read_def Let_def)
  then obtain s1 where s1: "lock_core test_env (demo_lock_ctx 1) 0x10 False None [] demo_mutexes = Some (OK, s1)"
    by (simp add: lock_core_def demo_lock_ctx_def implicit_mutex_def demo_mutexes_def test_env_def
        ta_bump_def tm_write_def publish_mutex_def on_mutex_def lock_enter_def mutex_shared_def
        checked_add_def Let_def guest_deadline_reached_def)
  from implicit_creation_atomic [OF none s1, of "(demo_lock_ctx 2)\<lparr>lc_race := \<lambda>_. s1\<rparr>"] s1
  show ?thesis by (auto simp: demo_lock_ctx_def)
qed

text \<open>The code reports \<open>EDEADLK\<close> with the SCE code of errno 35, not of errno 11 as
  for every other error of the family.\<close>

lemma posix_to_sce_edeadlk:
  "posix_to_sce EDEADLK = SCE_EAGAIN \<and> posix_to_sce EDEADLK \<noteq> 0x80020000 + EDEADLK
   \<and> (\<forall>e\<in>{EPERM, EBUSY, EINVAL, ETIMEDOUT}. posix_to_sce e = 0x80020000 + e)"
  by (simp add: posix_to_sce_def)

end
