(* ===== verification/Pthread_Rwlock.thy ===== *)
theory Pthread_Rwlock
  imports Pthread_Mutex
begin

text \<open>
  Guest read-write locks (\<open>PthreadRwlock\<close> of \<open>crates/raeen-kernel/src/lib.rs\<close>
  and the rwlock calls of \<open>crates/raeen-hle/src/pthread_sync.rs\<close>).  The shared
  object counts readers and names the writer; who holds which read is kept
  beside it, in a map from thread and canonical key to a depth, and the two are
  updated in separate critical sections.  The theory models the calls with
  that window and proves, over all interleavings of the critical sections, that
  a writer excludes every other thread.
\<close>

section \<open>The lock object\<close>

record pthread_rwlock =
  rw_key :: u64
  rw_readers :: int
  rw_writer :: u64
  rw_writer_recursion :: int

definition rwlock_shared :: "u64 \<Rightarrow> pthread_rwlock" where
  "rwlock_shared key = \<lparr>rw_key = key, rw_readers = 0, rw_writer = 0, rw_writer_recursion = 0\<rparr>"

text \<open>The critical sections under the state lock.\<close>

definition read_enter :: "u64 \<Rightarrow> pthread_rwlock \<Rightarrow> pthread_rwlock option" where
  "read_enter current rw =
     (if rw_writer rw = 0 \<or> rw_writer rw = current
      then Some (rw\<lparr>rw_readers := i32_add (rw_readers rw) 1\<rparr>) else None)"

definition write_enter :: "u64 \<Rightarrow> pthread_rwlock \<Rightarrow> pthread_rwlock option" where
  "write_enter current rw =
     (if rw_writer rw = current
      then Some (rw\<lparr>rw_writer_recursion := i32_add (rw_writer_recursion rw) 1\<rparr>)
      else if rw_writer rw = 0 \<and> rw_readers rw = 0
      then Some (rw\<lparr>rw_writer := current, rw_writer_recursion := 1\<rparr>) else None)"

definition drop_reader :: "pthread_rwlock \<Rightarrow> pthread_rwlock" where
  "drop_reader rw = (if 0 < rw_readers rw then rw\<lparr>rw_readers := i32_sub (rw_readers rw) 1\<rparr> else rw)"

definition drop_writer :: "u64 \<Rightarrow> pthread_rwlock \<Rightarrow> pthread_rwlock option" where
  "drop_writer current rw =
     (if rw_writer rw = current \<and> 0 < rw_writer_recursion rw then
        let rw1 = rw\<lparr>rw_writer_recursion := i32_sub (rw_writer_recursion rw) 1\<rparr> in
        Some (if rw_writer_recursion rw1 = 0 then rw1\<lparr>rw_writer := 0\<rparr> else rw1)
      else None)"

text \<open>The depth map: one more hold, and one hold less with the entry dropped at
  zero; \<open>None\<close> when the thread has no entry.\<close>

type_synonym read_holds = "u64 \<times> u64 \<rightharpoonup> u32"

definition record_hold :: "u64 \<Rightarrow> u64 \<Rightarrow> read_holds \<Rightarrow> read_holds" where
  "record_hold current key h =
     h((current, key) \<mapsto> (case h (current, key) of None \<Rightarrow> 0 | Some d \<Rightarrow> d) + 1)"

definition release_hold :: "u64 \<Rightarrow> u64 \<Rightarrow> read_holds \<Rightarrow> read_holds option" where
  "release_hold current key h =
     (case h (current, key) of
        None \<Rightarrow> None
      | Some d \<Rightarrow> Some (if d - 1 = 0 then h((current, key) := None) else h((current, key) \<mapsto> d - 1)))"

section \<open>The table and its calls\<close>

record 'm rwlock_state =
  rt_mem :: 'm
  pthread_rwlocks :: "u64 \<rightharpoonup> nat"
  rwlock_objs :: "nat \<Rightarrow> pthread_rwlock"
  rwlock_next :: nat
  pthread_rwlock_read_holds :: read_holds

definition resolve_rwlock_key :: "'m host_env \<Rightarrow> u64 \<Rightarrow> 'm rwlock_state \<Rightarrow> u64 option" where
  "resolve_rwlock_key E addr s =
     (case pthread_rwlocks s addr of
        Some r \<Rightarrow> Some (rw_key (rwlock_objs s r))
      | None \<Rightarrow>
          (case read_u64 E addr (rt_mem s) of
             None \<Rightarrow> None
           | Some handle \<Rightarrow>
               if handle \<noteq> 0 then map_option (\<lambda>r. rw_key (rwlock_objs s r)) (pthread_rwlocks s handle)
               else None))"

definition hle_rwlock_init :: "'m host_env \<Rightarrow> u64 list \<Rightarrow> 'm rwlock_state \<Rightarrow> u64 \<times> 'm rwlock_state" where
  "hle_rwlock_init E args s =
     (let addr = arg args 0 in
      if addr = 0 then (EINVAL, s)
      else case ga_alloc E 0x100 0x10 (rt_mem s) of
          (None, m1) \<Rightarrow> (EINVAL, s\<lparr>rt_mem := m1\<rparr>)
        | (Some handle, m1) \<Rightarrow>
            let (ok, m2) = gm_write E addr (u64_bytes handle) m1; s2 = s\<lparr>rt_mem := m2\<rparr> in
            if \<not> ok then (EINVAL, s2)
            else (OK, s2\<lparr>rwlock_objs := (rwlock_objs s2)(rwlock_next s2 := rwlock_shared addr),
               pthread_rwlocks := (pthread_rwlocks s2)(addr \<mapsto> rwlock_next s2, handle \<mapsto> rwlock_next s2),
               rwlock_next := rwlock_next s2 + 1\<rparr>))"

definition hle_rwlock_destroy :: "'m host_env \<Rightarrow> u64 list \<Rightarrow> 'm rwlock_state \<Rightarrow> u64 \<times> 'm rwlock_state" where
  "hle_rwlock_destroy E args s =
     (let addr = arg args 0 in
      if addr = 0 then (EINVAL, s)
      else case resolve_rwlock_key E addr s of
          None \<Rightarrow> (EINVAL, s)
        | Some key \<Rightarrow>
            (case pthread_rwlocks s key of
               None \<Rightarrow> (EINVAL, s)
             | Some state \<Rightarrow>
                 let s1 = s\<lparr>pthread_rwlocks :=
                         (\<lambda>a. if pthread_rwlocks s a = Some state then None else pthread_rwlocks s a),
                       pthread_rwlock_read_holds :=
                         (\<lambda>(t, k). if k \<noteq> key then pthread_rwlock_read_holds s (t, k) else None)\<rparr>;
                     handle = (case read_u64 E key (rt_mem s1) of None \<Rightarrow> 0 | Some h \<Rightarrow> h);
                     m1 = (if handle \<noteq> 0 then ga_free E handle (rt_mem s1) else rt_mem s1) in
                 (OK, s1\<lparr>rt_mem := snd (gm_write E key (u64_bytes 0) m1)\<rparr>)))"

text \<open>\<open>race\<close> is what other threads do between the failed lookup and the entry,
  which is filled only when it is vacant at that moment.\<close>

definition resolve_or_create_rwlock ::
  "'m host_env \<Rightarrow> ('m rwlock_state \<Rightarrow> 'm rwlock_state) \<Rightarrow> u64 \<Rightarrow> 'm rwlock_state \<Rightarrow> u64 \<times> 'm rwlock_state" where
  "resolve_or_create_rwlock E race addr s =
     (case resolve_rwlock_key E addr s of
        Some key \<Rightarrow> (key, s)
      | None \<Rightarrow>
          let s1 = race s in
          (addr, case pthread_rwlocks s1 addr of
              Some _ \<Rightarrow> s1
            | None \<Rightarrow> s1\<lparr>rwlock_objs := (rwlock_objs s1)(rwlock_next s1 := rwlock_shared addr),
                pthread_rwlocks := (pthread_rwlocks s1)(addr \<mapsto> rwlock_next s1),
                rwlock_next := rwlock_next s1 + 1\<rparr>))"

record 's rw_ctx =
  rc_thread :: u64
  rc_terminating :: bool
  rc_now :: nat
  rc_race :: "'s \<Rightarrow> 's"
  rc_gap :: "'s \<Rightarrow> 's"

text \<open>One pass of the reader loop; \<open>gap\<close> is what other threads do between the
  reader count and the depth map.\<close>

definition rdlock_pass ::
  "u64 \<Rightarrow> u64 \<Rightarrow> nat \<Rightarrow> bool \<Rightarrow> ('m rwlock_state \<Rightarrow> 'm rwlock_state) \<Rightarrow> nat option \<Rightarrow> bool \<Rightarrow> nat
     \<Rightarrow> 'm rwlock_state \<Rightarrow> (u64, 'm rwlock_state) turn_result" where
  "rdlock_pass current key r try_only gap deadline terminating now s =
     (case read_enter current (rwlock_objs s r) of
        Some rw \<Rightarrow>
          let s1 = gap (s\<lparr>rwlock_objs := (rwlock_objs s)(r := rw)\<rparr>) in
          Returned OK (s1\<lparr>pthread_rwlock_read_holds :=
            record_hold current key (pthread_rwlock_read_holds s1)\<rparr>)
      | None \<Rightarrow>
          if try_only \<or> terminating then Returned EBUSY s
          else if guest_deadline_reached deadline now then Returned ETIMEDOUT s
          else Slice_over s)"

definition rdlock_turn ::
  "u64 \<Rightarrow> u64 \<Rightarrow> nat \<Rightarrow> nat option \<Rightarrow> 'm rwlock_state lock_slice \<Rightarrow> 'm rwlock_state
     \<Rightarrow> (u64, 'm rwlock_state) turn_result" where
  "rdlock_turn current key r deadline t s =
     rdlock_pass current key r False (ls_gap t) deadline (sl_terminating t) (sl_now t) (sl_others t s)"

definition rwlock_rdlock_deadline ::
  "'m host_env \<Rightarrow> 'm rwlock_state rw_ctx \<Rightarrow> u64 \<Rightarrow> bool \<Rightarrow> nat option \<Rightarrow> 'm rwlock_state lock_slice list
     \<Rightarrow> 'm rwlock_state \<Rightarrow> (u64 \<times> 'm rwlock_state) option" where
  "rwlock_rdlock_deadline E c addr try_only deadline ts s =
     (if addr = 0 then Some (EINVAL, s)
      else let (key, s1) = resolve_or_create_rwlock E (rc_race c) addr s in
        case pthread_rwlocks s1 key of
          None \<Rightarrow> Some (EINVAL, s1)
        | Some r \<Rightarrow>
            (case rdlock_pass (rc_thread c) key r try_only (rc_gap c) deadline (rc_terminating c) (rc_now c) s1 of
               Returned code s2 \<Rightarrow> Some (code, s2)
             | Slice_over s2 \<Rightarrow> run_slices (rdlock_turn (rc_thread c) key r deadline) ts s2
             | Still_parked \<Rightarrow> None))"

definition wrlock_pass ::
  "u64 \<Rightarrow> nat \<Rightarrow> bool \<Rightarrow> nat option \<Rightarrow> bool \<Rightarrow> nat \<Rightarrow> 'm rwlock_state \<Rightarrow> (u64, 'm rwlock_state) turn_result" where
  "wrlock_pass current r try_only deadline terminating now s =
     (case write_enter current (rwlock_objs s r) of
        Some rw \<Rightarrow> Returned OK (s\<lparr>rwlock_objs := (rwlock_objs s)(r := rw)\<rparr>)
      | None \<Rightarrow>
          if try_only \<or> terminating then Returned EBUSY s
          else if guest_deadline_reached deadline now then Returned ETIMEDOUT s
          else Slice_over s)"

definition wrlock_turn ::
  "u64 \<Rightarrow> nat \<Rightarrow> nat option \<Rightarrow> 'm rwlock_state lock_slice \<Rightarrow> 'm rwlock_state
     \<Rightarrow> (u64, 'm rwlock_state) turn_result" where
  "wrlock_turn current r deadline t s =
     wrlock_pass current r False deadline (sl_terminating t) (sl_now t) (sl_others t s)"

definition rwlock_wrlock_deadline ::
  "'m host_env \<Rightarrow> 'm rwlock_state rw_ctx \<Rightarrow> u64 \<Rightarrow> bool \<Rightarrow> nat option \<Rightarrow> 'm rwlock_state lock_slice list
     \<Rightarrow> 'm rwlock_state \<Rightarrow> (u64 \<times> 'm rwlock_state) option" where
  "rwlock_wrlock_deadline E c addr try_only deadline ts s =
     (if addr = 0 then Some (EINVAL, s)
      else let (key, s1) = resolve_or_create_rwlock E (rc_race c) addr s in
        case pthread_rwlocks s1 key of
          None \<Rightarrow> Some (EINVAL, s1)
        | Some r \<Rightarrow>
            (case wrlock_pass (rc_thread c) r try_only deadline (rc_terminating c) (rc_now c) s1 of
               Returned code s2 \<Rightarrow> Some (code, s2)
             | Slice_over s2 \<Rightarrow> run_slices (wrlock_turn (rc_thread c) r deadline) ts s2
             | Still_parked \<Rightarrow> None))"

definition hle_rwlock_rdlock where
  "hle_rwlock_rdlock E c ts args s = rwlock_rdlock_deadline E c (arg args 0) False None ts s"

definition hle_rwlock_tryrdlock where
  "hle_rwlock_tryrdlock E c ts args s = rwlock_rdlock_deadline E c (arg args 0) True None ts s"

definition hle_rwlock_wrlock where
  "hle_rwlock_wrlock E c ts args s = rwlock_wrlock_deadline E c (arg args 0) False None ts s"

definition hle_rwlock_trywrlock where
  "hle_rwlock_trywrlock E c ts args s = rwlock_wrlock_deadline E c (arg args 0) True None ts s"

definition hle_sce_rwlock_timedrdlock where
  "hle_sce_rwlock_timedrdlock E c ts args s = sce_result
     (rwlock_rdlock_deadline E c (arg args 0) False (Some (rc_now c + from_micros (arg args 1))) ts s)"

definition hle_sce_rwlock_timedwrlock where
  "hle_sce_rwlock_timedwrlock E c ts args s = sce_result
     (rwlock_wrlock_deadline E c (arg args 0) False (Some (rc_now c + from_micros (arg args 1))) ts s)"


definition hle_rwlockattr_ok :: "u64 list \<Rightarrow> u64" where
  "hle_rwlockattr_ok args = (if arg args 0 = 0 then EINVAL else OK)"

section \<open>Interleavings of the critical sections\<close>

text \<open>Where a thread stands in the two-part updates: admitted as a reader but not
  yet in the depth map, or out of the depth map but not yet uncounted.\<close>

datatype rw_pc = Rw_idle | Rw_admitted | Rw_leaving

type_synonym rw_run = "pthread_rwlock \<times> read_holds \<times> (u64 \<Rightarrow> rw_pc)"

inductive rw_step :: "rw_run \<Rightarrow> rw_run \<Rightarrow> bool" where
  rd_admit: "t \<noteq> 0 \<Longrightarrow> pc t = Rw_idle \<Longrightarrow> rw_readers rw < 2147483647 \<Longrightarrow> read_enter t rw = Some rw' \<Longrightarrow>
    rw_step (rw, h, pc) (rw', h, pc(t := Rw_admitted))"
| rd_record: "pc t = Rw_admitted \<Longrightarrow>
    rw_step (rw, h, pc) (rw, record_hold t (rw_key rw) h, pc(t := Rw_idle))"
| wr_take: "t \<noteq> 0 \<Longrightarrow> pc t = Rw_idle \<Longrightarrow> rw_writer_recursion rw < 2147483647 \<Longrightarrow> write_enter t rw = Some rw' \<Longrightarrow>
    rw_step (rw, h, pc) (rw', h, pc)"
| un_hold: "pc t = Rw_idle \<Longrightarrow> release_hold t (rw_key rw) h = Some h' \<Longrightarrow>
    rw_step (rw, h, pc) (rw, h', pc(t := Rw_leaving))"
| un_reader: "pc t = Rw_leaving \<Longrightarrow> rw_step (rw, h, pc) (drop_reader rw, h, pc(t := Rw_idle))"
| un_write: "t \<noteq> 0 \<Longrightarrow> pc t = Rw_idle \<Longrightarrow> release_hold t (rw_key rw) h = None \<Longrightarrow> drop_writer t rw = Some rw' \<Longrightarrow>
    rw_step (rw, h, pc) (rw', h, pc)"

definition rw_reachable :: "u64 \<Rightarrow> rw_run \<Rightarrow> bool" where
  "rw_reachable key s \<longleftrightarrow> (\<exists>h. (\<forall>t. h (t, key) = None)
     \<and> rw_step\<^sup>*\<^sup>* (rwlock_shared key, h, \<lambda>_. Rw_idle) s)"

text \<open>A thread's share of the reader count.\<close>

definition rw_depth :: "u64 \<Rightarrow> read_holds \<Rightarrow> u64 \<Rightarrow> nat" where
  "rw_depth key h t = (case h (t, key) of None \<Rightarrow> 0 | Some d \<Rightarrow> unat d)"

definition rw_share :: "u64 \<Rightarrow> read_holds \<Rightarrow> (u64 \<Rightarrow> rw_pc) \<Rightarrow> u64 \<Rightarrow> nat" where
  "rw_share key h pc t = rw_depth key h t + (if pc t = Rw_idle then 0 else 1)"

definition rw_inv :: "u64 \<Rightarrow> rw_run \<Rightarrow> bool" where
  "rw_inv key = (\<lambda>(rw, h, pc). rw_key rw = key
     \<and> 0 \<le> rw_readers rw \<and> nat (rw_readers rw) = (\<Sum>t\<in>UNIV. rw_share key h pc t) \<and> rw_readers rw \<le> 2147483647
     \<and> (\<forall>t. h (t, key) \<noteq> Some 0)
     \<and> (rw_writer rw \<noteq> 0 \<longrightarrow> (\<forall>t. t \<noteq> rw_writer rw \<longrightarrow> rw_share key h pc t = 0))
     \<and> (rw_writer rw = 0 \<longleftrightarrow> rw_writer_recursion rw = 0)
     \<and> 0 \<le> rw_writer_recursion rw \<and> rw_writer_recursion rw \<le> 2147483647)"

lemma sum_one_changed:
  fixes f g :: "u64 \<Rightarrow> nat"
  assumes "\<And>u. u \<noteq> t \<Longrightarrow> f u = g u"
  shows "sum f UNIV + g t = sum g UNIV + f t"
proof -
  have "sum f (UNIV - {t}) = sum g (UNIV - {t})" using assms by (intro sum.cong) auto
  moreover have "sum f UNIV = f t + sum f (UNIV - {t})" "sum g UNIV = g t + sum g (UNIV - {t})"
    by (simp_all add: sum.remove)
  ultimately show ?thesis by simp
qed

lemma share_le_readers:
  assumes "rw_inv key (rw, h, pc)"
  shows "int (rw_share key h pc t) \<le> rw_readers rw"
proof -
  have "rw_share key h pc t \<le> (\<Sum>u\<in>UNIV. rw_share key h pc u)" by (simp add: member_le_sum)
  also have "\<dots> = nat (rw_readers rw)" using assms by (simp add: rw_inv_def)
  finally show ?thesis using assms unfolding rw_inv_def prod.case by linarith
qed

lemma rw_invI:
  assumes "rw_key rw = key" and "0 \<le> rw_readers rw \<and> nat (rw_readers rw) = (\<Sum>t\<in>UNIV. rw_share key h pc t)"
    and "rw_readers rw \<le> 2147483647" and "\<And>t. h (t, key) \<noteq> Some 0"
    and "\<And>t. rw_writer rw \<noteq> 0 \<Longrightarrow> t \<noteq> rw_writer rw \<Longrightarrow> rw_share key h pc t = 0"
    and "rw_writer rw = 0 \<longleftrightarrow> rw_writer_recursion rw = 0"
    and "0 \<le> rw_writer_recursion rw" "rw_writer_recursion rw \<le> 2147483647"
  shows "rw_inv key (rw, h, pc)"
  using assms by (simp add: rw_inv_def)

lemma rw_invD:
  assumes "rw_inv key (rw, h, pc)"
  shows "rw_key rw = key" and "0 \<le> rw_readers rw \<and> nat (rw_readers rw) = (\<Sum>t\<in>UNIV. rw_share key h pc t)"
    and "rw_readers rw \<le> 2147483647" and "h (t, key) \<noteq> Some 0"
    and "rw_writer rw \<noteq> 0 \<Longrightarrow> t \<noteq> rw_writer rw \<Longrightarrow> rw_share key h pc t = 0"
    and "rw_writer rw = 0 \<longleftrightarrow> rw_writer_recursion rw = 0"
    and "0 \<le> rw_writer_recursion rw" "rw_writer_recursion rw \<le> 2147483647"
  using assms by (simp_all add: rw_inv_def)

text \<open>A hold moves between the map and the window without changing the share.\<close>

lemma depth_record:
  "rw_depth key h t < 4294967295 \<Longrightarrow> rw_depth key (record_hold t key h) t = rw_depth key h t + 1"
  "u \<noteq> t \<Longrightarrow> record_hold t key h (u, key) = h (u, key)"
  by (auto simp: rw_depth_def record_hold_def unat_word_ariths split: option.split)

lemma depth_release:
  assumes "release_hold t key h = Some h'" and "h (t, key) \<noteq> Some 0"
  shows "rw_depth key h t = Suc (rw_depth key h' t)" "u \<noteq> t \<Longrightarrow> h' (u, key) = h (u, key)" "h' (t, key) \<noteq> Some 0"
proof -
  obtain d where d: "h (t, key) = Some d" using assms(1) by (auto simp: release_hold_def split: option.splits)
  then have "0 < unat d" using assms(2) by (simp add: unat_gt_0)
  then have u: "unat d = Suc (unat (d - 1))" using unat_minus_one [of d] by (cases "d = 0") auto
  show "rw_depth key h t = Suc (rw_depth key h' t)"
    using assms(1) d u by (auto simp: release_hold_def rw_depth_def split: if_splits)
  show "u \<noteq> t \<Longrightarrow> h' (u, key) = h (u, key)" "h' (t, key) \<noteq> Some 0"
    using assms(1) d by (auto simp: release_hold_def split: if_splits)
qed

text \<open>One thread's share moves by \<open>a - b\<close>, and the counter with it.\<close>

lemma inv_share_change:
  assumes inv: "rw_inv key (rw, h, pc)"
    and other: "\<And>u. u \<noteq> t \<Longrightarrow> rw_share key h' pc' u = rw_share key h pc u"
    and cnt: "0 \<le> rw_readers rw'" "rw_readers rw' \<le> 2147483647"
      "rw_readers rw' + int (rw_share key h pc t) = rw_readers rw + int (rw_share key h' pc' t)"
    and same: "rw_key rw' = key" "rw_writer rw' = rw_writer rw" "rw_writer_recursion rw' = rw_writer_recursion rw"
    and nz: "\<And>u. h' (u, key) \<noteq> Some 0"
    and w: "rw_writer rw \<noteq> 0 \<Longrightarrow> t \<noteq> rw_writer rw \<Longrightarrow> rw_share key h' pc' t = 0"
  shows "rw_inv key (rw', h', pc')"
proof (rule rw_invI)
  note I = rw_invD [OF inv]
  have "sum (rw_share key h' pc') UNIV + rw_share key h pc t
      = sum (rw_share key h pc) UNIV + rw_share key h' pc' t"
    by (rule sum_one_changed) (rule other)
  then show "0 \<le> rw_readers rw' \<and> nat (rw_readers rw') = (\<Sum>t\<in>UNIV. rw_share key h' pc' t)"
    using cnt I(2) by linarith
  show "rw_share key h' pc' u = 0" if "rw_writer rw' \<noteq> 0" "u \<noteq> rw_writer rw'" for u
    using that same(2) w other [of u] I(5) [of u] by (cases "u = t") auto
qed (use same nz cnt rw_invD(6-8) [OF inv] in auto)

lemma rw_step_inv: "rw_step s s' \<Longrightarrow> rw_inv key s \<Longrightarrow> rw_inv key s'"
proof (induction rule: rw_step.induct)
  case (rd_admit t pc rw rw' h)
  note inv = rd_admit(5) and I = rw_invD [OF rd_admit(5)]
  have rw': "rw' = rw\<lparr>rw_readers := rw_readers rw + 1\<rparr>" "rw_writer rw = 0 \<or> rw_writer rw = t"
    using rd_admit(3,4) I(2) by (auto simp: read_enter_def i32_add_id i32_range_def split: if_splits)
  show ?case
    by (rule inv_share_change [OF inv, where t = t])
      (use rw' I(1-4) rd_admit(2,3) in \<open>auto simp: rw_share_def\<close>)
next
  case (rd_record pc t rw h)
  note inv = rd_record(2) and I = rw_invD [OF rd_record(2)]
  have "rw_depth key h t < 4294967295" using share_le_readers [OF inv, of t] I(3) by (simp add: rw_share_def)
  note d = depth_record(1) [OF this]
  have sh: "rw_share key (record_hold t key h) (pc(t := Rw_idle)) t = rw_share key h pc t"
    using d rd_record(1) by (simp add: rw_share_def)
  have "record_hold t key h (u, key) \<noteq> Some 0" for u
    using I(4) [of u] d by (cases "u = t") (auto simp: depth_record(2) rw_depth_def split: option.splits)
  then show ?case unfolding I(1)
    by (intro inv_share_change [OF inv, where t = t])
      (use I sh in \<open>auto simp: rw_share_def rw_depth_def depth_record(2)\<close>)
next
  case (wr_take t pc rw rw' h)
  note inv = wr_take(5) and I = rw_invD [OF wr_take(5)]
  consider "rw_writer rw = t" "rw' = rw\<lparr>rw_writer_recursion := rw_writer_recursion rw + 1\<rparr>"
    | "rw_writer rw = 0" "rw_readers rw = 0" "rw' = rw\<lparr>rw_writer := t, rw_writer_recursion := 1\<rparr>"
    using wr_take(3,4) I(7) by (auto simp: write_enter_def i32_add_id i32_range_def split: if_splits)
  then show ?case
  proof cases
    case 1
    then show ?thesis using I wr_take(1,3) by (intro rw_invI) auto
  next
    case 2
    have "rw_share key h pc u = 0" for u using share_le_readers [OF inv, of u] 2(2) by simp
    then show ?thesis using 2 I wr_take(1) by (intro rw_invI) auto
  qed
next
  case (un_hold pc t rw h h')
  note inv = un_hold(3) and I = rw_invD [OF un_hold(3)]
  note d = depth_release [OF un_hold(2) [unfolded I(1)] I(4)]
  have "h' (u, key) \<noteq> Some 0" for u using d(2,3) I(4) [of u] by (cases "u = t") auto
  moreover have sh: "rw_share key h' (pc(t := Rw_leaving)) t = rw_share key h pc t"
    using d(1) un_hold(1) by (simp add: rw_share_def)
  ultimately show ?case
    by (intro inv_share_change [OF inv, where t = t])
      (use I sh d(2) in \<open>auto simp: rw_share_def rw_depth_def\<close>)
next
  case (un_reader pc t rw h)
  note inv = un_reader(2) and I = rw_invD [OF un_reader(2)]
  have "0 < rw_readers rw" using share_le_readers [OF inv, of t] un_reader(1) by (simp add: rw_share_def)
  then have "drop_reader rw = rw\<lparr>rw_readers := rw_readers rw - 1\<rparr>"
    using I(3) by (simp add: drop_reader_def i32_sub_id i32_range_def)
  moreover have "rw_share key h (pc(t := Rw_idle)) t = 0" if "rw_writer rw \<noteq> 0" "t \<noteq> rw_writer rw"
    using I(5) [OF that] by (simp add: rw_share_def)
  ultimately show ?case using \<open>0 < rw_readers rw\<close>
    by (intro inv_share_change [OF inv, where t = t]) (use I un_reader(1) in \<open>auto simp: rw_share_def\<close>)
next
  case (un_write t pc rw h rw')
  note inv = un_write(5) and I = rw_invD [OF un_write(5)]
  have w: "rw_writer rw = t" "0 < rw_writer_recursion rw"
    "rw' = (if rw_writer_recursion rw = 1 then rw\<lparr>rw_writer_recursion := 0, rw_writer := 0\<rparr>
       else rw\<lparr>rw_writer_recursion := rw_writer_recursion rw - 1\<rparr>)"
    using un_write(4) I(8) by (auto simp: drop_writer_def Let_def i32_sub_id i32_range_def split: if_splits)
  then show ?case using I un_write(1) by (intro rw_invI) (auto split: if_splits)
qed

lemma rw_reachable_inv: "rw_reachable key s \<Longrightarrow> rw_inv key s"
  unfolding rw_reachable_def
proof (elim exE conjE)
  fix h assume h: "\<forall>t. h (t, key) = None" and r: "rw_step\<^sup>*\<^sup>* (rwlock_shared key, h, \<lambda>_. Rw_idle) s"
  have "rw_inv key (rwlock_shared key, h, \<lambda>_. Rw_idle)"
    using h by (simp add: rw_inv_def rwlock_shared_def rw_share_def rw_depth_def)
  with r show "rw_inv key s" by (induction rule: rtranclp_induct) (auto intro: rw_step_inv)
qed

section \<open>The waiting loops\<close>

interpretation rdlock_wait: sliced_wait "rdlock_turn current key r" ETIMEDOUT due_now
  for current key :: u64 and r :: nat
proof unfold_locales
  fix dl and t :: "'m rwlock_state lock_slice" and s s'
  show "rdlock_turn current key r dl t s = Returned ETIMEDOUT s' \<Longrightarrow>
      guest_deadline_reached dl (sl_now t)"
    by (auto simp: rdlock_turn_def rdlock_pass_def Let_def split: if_splits option.splits)
  show "rdlock_turn current key r dl t s = Slice_over s' \<Longrightarrow> \<not> due_now dl t"
    by (auto simp: rdlock_turn_def rdlock_pass_def due_now_def Let_def split: if_splits option.splits)
qed

interpretation wrlock_wait: sliced_wait "wrlock_turn current r" ETIMEDOUT due_now
  for current :: u64 and r :: nat
proof unfold_locales
  fix dl and t :: "'m rwlock_state lock_slice" and s s'
  show "wrlock_turn current r dl t s = Returned ETIMEDOUT s' \<Longrightarrow>
      guest_deadline_reached dl (sl_now t)"
    by (auto simp: wrlock_turn_def wrlock_pass_def split: if_splits option.splits)
  show "wrlock_turn current r dl t s = Slice_over s' \<Longrightarrow> \<not> due_now dl t"
    by (auto simp: wrlock_turn_def wrlock_pass_def due_now_def split: if_splits option.splits)
qed

text \<open>An untimed read or write lock never reports a time-out.\<close>

lemma rwlock_untimed:
  "rwlock_rdlock_deadline E c a try_only None ts s \<noteq> Some (ETIMEDOUT, s')"
  "rwlock_wrlock_deadline E c a try_only None ts s \<noteq> Some (ETIMEDOUT, s')"
  by (auto simp: rwlock_rdlock_deadline_def rwlock_wrlock_deadline_def rdlock_pass_def wrlock_pass_def
      guest_deadline_reached_def Let_def split: prod.splits option.splits if_splits
      dest: rdlock_wait.null_timeout_never_times_out wrlock_wait.null_timeout_never_times_out)

text \<open>Destroying forgets every name of the object and every read depth of its key.\<close>

lemma rwlock_destroy_forgets:
  assumes "hle_rwlock_destroy E [a] s = (OK, s')" and "resolve_rwlock_key E a s = Some key"
  shows "\<exists>r. pthread_rwlocks s key = Some r \<and> (\<forall>b. pthread_rwlocks s' b \<noteq> Some r)
    \<and> (\<forall>t. pthread_rwlock_read_holds s' (t, key) = None)"
  using assms
  by (auto simp: hle_rwlock_destroy_def arg_def Let_def split: option.splits if_splits)

section \<open>Properties\<close>

text \<open>C13: reader-writer exclusion over every interleaving of the critical sections,
  the windows between the reader count and the depth map included: while a
  thread owns the write lock no other thread has a read hold and none can read
  or write lock; a recorded read hold keeps every other thread from the write
  lock; and the reader count is exactly the sum of the recorded depths and the
  updates in flight.\<close>

theorem rwlock_exclusion:
  assumes "rw_reachable key (rw, h, pc)"
  shows "(rw_writer rw \<noteq> 0 \<longrightarrow> (\<forall>t. t \<noteq> rw_writer rw \<longrightarrow>
           h (t, key) = None \<and> read_enter t rw = None \<and> write_enter t rw = None))
    \<and> (\<forall>t u. h (t, key) \<noteq> None \<longrightarrow> u \<noteq> t \<longrightarrow> u \<noteq> 0 \<longrightarrow> write_enter u rw = None)
    \<and> rw_readers rw = (\<Sum>t\<in>UNIV. int (rw_depth key h t) + (if pc t = Rw_idle then 0 else 1))"
proof (intro conjI impI allI)
  note inv = rw_reachable_inv [OF assms]
  note I = rw_invD [OF inv]
  have none: "h (t, key) = None" if "rw_share key h pc t = 0" for t
    using that I(4) [of t] by (auto simp: rw_share_def rw_depth_def unat_eq_zero split: option.splits)
  { fix t assume w: "rw_writer rw \<noteq> 0" "t \<noteq> rw_writer rw"
    show "h (t, key) = None" using none I(5) [OF w] by blast
    show "read_enter t rw = None" "write_enter t rw = None"
      using w by (auto simp: read_enter_def write_enter_def) }
  { fix t u assume t: "h (t, key) \<noteq> None" "u \<noteq> t" "u \<noteq> (0::u64)"
    then have "rw_share key h pc t \<noteq> 0" by (metis none)
    then have "0 < rw_readers rw" "rw_writer rw \<noteq> 0 \<longrightarrow> rw_writer rw = t"
      using share_le_readers [OF inv, of t] I(5) [of t] by auto
    then show "write_enter u rw = None" using t(2,3) by (auto simp: write_enter_def) }
  have "rw_readers rw = int (\<Sum>t\<in>UNIV. rw_share key h pc t)" using I(2) by linarith
  also have "\<dots> = (\<Sum>t\<in>UNIV. int (rw_share key h pc t))" by (rule of_nat_sum)
  also have "\<dots> = (\<Sum>t\<in>UNIV. int (rw_depth key h t) + (if pc t = Rw_idle then 0 else 1))"
    by (rule sum.cong) (simp_all add: rw_share_def)
  finally show "rw_readers rw = (\<Sum>t\<in>UNIV. int (rw_depth key h t) + (if pc t = Rw_idle then 0 else 1))" .
qed

text \<open>Thread 1 takes the write lock, then a read, which is recorded.\<close>

definition demo_rwlock :: pthread_rwlock where
  "demo_rwlock = \<lparr>rw_key = 0x10, rw_readers = 1, rw_writer = 1, rw_writer_recursion = 1\<rparr>"

lemma demo_rwlock_reachable:
  "rw_reachable 0x10 (demo_rwlock, record_hold 1 0x10 (\<lambda>_. None), (\<lambda>_. Rw_idle)(1 := Rw_idle))"
proof -
  let ?w = "(rwlock_shared 0x10)\<lparr>rw_writer := 1, rw_writer_recursion := 1\<rparr>"
  have "rw_step (rwlock_shared 0x10, \<lambda>_. None, \<lambda>_. Rw_idle) (?w, \<lambda>_. None, \<lambda>_. Rw_idle)"
    by (rule wr_take [of 1]) (simp_all add: rwlock_shared_def write_enter_def)
  moreover have "rw_step (?w, \<lambda>_. None, \<lambda>_. Rw_idle) (demo_rwlock, \<lambda>_. None, (\<lambda>_. Rw_idle)(1 := Rw_admitted))"
    by (rule rd_admit [of 1])
      (simp_all add: rwlock_shared_def read_enter_def demo_rwlock_def i32_add_id i32_range_def)
  moreover have "rw_step (demo_rwlock, \<lambda>_. None, (\<lambda>_. Rw_idle)(1 := Rw_admitted))
      (demo_rwlock, record_hold 1 0x10 (\<lambda>_. None), (\<lambda>_. Rw_idle)(1 := Rw_idle))"
    using rd_record [of "(\<lambda>_. Rw_idle)(1 := Rw_admitted)" 1 demo_rwlock "\<lambda>_. None"]
    by (simp add: demo_rwlock_def)
  ultimately have "rw_step\<^sup>*\<^sup>* (rwlock_shared 0x10, \<lambda>_. None, \<lambda>_. Rw_idle)
      (demo_rwlock, record_hold 1 0x10 (\<lambda>_. None), (\<lambda>_. Rw_idle)(1 := Rw_idle))"
    by (meson rtranclp.rtrancl_into_rtrancl rtranclp.rtrancl_refl)
  then show ?thesis unfolding rw_reachable_def by (intro exI [of _ "\<lambda>_. None"]) simp
qed

theorem rwlock_exclusion_witness:
  "read_enter 2 demo_rwlock = None \<and> write_enter 2 demo_rwlock = None"
  using rwlock_exclusion [OF demo_rwlock_reachable] by (simp add: demo_rwlock_def)




end
