(* ===== verification/Pthread_Cond.thy ===== *)
theory Pthread_Cond
  imports Pthread_Mutex
begin

text \<open>
  Guest condition variables (\<open>crates/raeen-hle/src/pthread_cond.rs\<close> and
  \<open>PthreadCond\<close> of \<open>crates/raeen-kernel/src/lib.rs\<close>): a queue of waiters of
  theory Guest_Waiters and the clock of the deadlines.  The wait joins the queue,
  releases the guest mutex, parks in slices, and takes the mutex back through
  the lock of theory Pthread_Mutex, whose state record is extended here.
\<close>

section \<open>State\<close>

record cond_obj =
  co_queue :: "nat list"
  co_monotonic :: bool

record 'm cond_state = "'m mutex_state" +
  pthread_conds :: "u64 \<rightharpoonup> nat"
  cond_objs :: "nat \<Rightarrow> cond_obj"
  cond_next :: nat
  pthread_condattr_clocks :: "u64 \<rightharpoonup> u64"

definition cond_default :: cond_obj where
  "cond_default = \<lparr>co_queue = [], co_monotonic = False\<rparr>"

text \<open>An operation of the wait queue of one condition.\<close>

definition on_cond :: "nat \<Rightarrow> (gqueue \<Rightarrow> 'r \<times> gqueue) \<Rightarrow> 'm cond_state \<Rightarrow> 'r \<times> 'm cond_state" where
  "on_cond r f s =
     (let (x, (q, H)) = f (co_queue (cond_objs s r), mt_heap s) in
      (x, s\<lparr>cond_objs := (cond_objs s)(r := (cond_objs s r)\<lparr>co_queue := q\<rparr>), mt_heap := H\<rparr>))"

definition publish_cond :: "u64 \<Rightarrow> u64 \<Rightarrow> bool \<Rightarrow> 'm cond_state \<Rightarrow> 'm cond_state" where
  "publish_cond cond handle monotonic s =
     s\<lparr>cond_objs := (cond_objs s)(cond_next s := cond_default\<lparr>co_monotonic := monotonic\<rparr>),
       pthread_conds := (pthread_conds s)(cond \<mapsto> cond_next s, handle \<mapsto> cond_next s),
       cond_next := cond_next s + 1\<rparr>"

section \<open>Creation and lookup\<close>

definition read_handle :: "'m host_env \<Rightarrow> u64 \<Rightarrow> 'm cond_state \<Rightarrow> u64 option" where
  "read_handle E cond s =
     (case read_u64 E cond (mt_mem s) of
        None \<Rightarrow> None | Some handle \<Rightarrow> if handle \<noteq> 0 then Some handle else None)"

definition hle_cond_init :: "'m host_env \<Rightarrow> u64 list \<Rightarrow> 'm cond_state \<Rightarrow> u64 \<times> 'm cond_state" where
  "hle_cond_init E args s =
     (let cond = arg args 0; attr = arg args 1 in
      if cond = 0 then (EINVAL, s)
      else case ga_alloc E 0x100 0x10 (mt_mem s) of
          (None, m1) \<Rightarrow> (EINVAL, s\<lparr>mt_mem := m1\<rparr>)
        | (Some handle, m1) \<Rightarrow>
            let (ok, m2) = gm_write E cond (u64_bytes handle) m1 in
            if \<not> ok then (EINVAL, s\<lparr>mt_mem := ga_free E handle m2\<rparr>)
            else (OK, publish_cond cond handle (pthread_condattr_clocks s attr = Some 4) (s\<lparr>mt_mem := m2\<rparr>)))"

definition hle_cond_destroy :: "'m host_env \<Rightarrow> u64 list \<Rightarrow> 'm cond_state \<Rightarrow> u64 \<times> 'm cond_state" where
  "hle_cond_destroy E args s =
     (let cond = arg args 0 in
      if cond = 0 then (EINVAL, s)
      else let handle = read_handle E cond s;
               s1 = s\<lparr>pthread_conds := (pthread_conds s)(cond := None)\<rparr>;
               s2 = (case handle of
                   None \<Rightarrow> s1
                 | Some h \<Rightarrow> s1\<lparr>pthread_conds := (pthread_conds s1)(h := None),
                     mt_mem := ga_free E h (mt_mem s1)\<rparr>) in
           (OK, s2\<lparr>mt_mem := snd (gm_write E cond (u64_bytes 0) (mt_mem s2))\<rparr>))"

text \<open>Lookup with implicit creation; \<open>race\<close> is what other threads do between the
  failed lookups and the entry.\<close>

definition condition ::
  "'m host_env \<Rightarrow> ('m cond_state \<Rightarrow> 'm cond_state) \<Rightarrow> u64 \<Rightarrow> 'm cond_state \<Rightarrow> nat option \<times> 'm cond_state" where
  "condition E race cond s =
     (case pthread_conds s cond of
        Some r \<Rightarrow> (Some r, s)
      | None \<Rightarrow>
        (case (case read_handle E cond s of None \<Rightarrow> None | Some h \<Rightarrow> pthread_conds s h) of
           Some r \<Rightarrow> (Some r, s)
         | None \<Rightarrow>
           let s1 = race s in
           (case pthread_conds s1 cond of
              Some r \<Rightarrow> (Some r, s1)
            | None \<Rightarrow>
              (case ga_alloc E 0x100 0x10 (mt_mem s1) of
                 (None, m1) \<Rightarrow> (None, s1\<lparr>mt_mem := m1\<rparr>)
               | (Some handle, m1) \<Rightarrow>
                   let (ok, m2) = gm_write E cond (u64_bytes handle) m1 in
                   if \<not> ok then (None, s1\<lparr>mt_mem := ga_free E handle m2\<rparr>)
                   else (Some (cond_next s1), publish_cond cond handle False (s1\<lparr>mt_mem := m2\<rparr>))))))"

section \<open>Waiting\<close>

text \<open>One turn of the wait loop.  \<open>sl_now\<close> is the time since the wait began and
  \<open>ls_gap\<close> what happens while the thread is parked.  The result tells whether the
  wait timed out.\<close>

definition cond_turn ::
  "nat \<Rightarrow> nat \<Rightarrow> nat option \<Rightarrow> 'm cond_state lock_slice \<Rightarrow> 'm cond_state
     \<Rightarrow> (bool, 'm cond_state) turn_result" where
  "cond_turn r w timeout t s =
     (let s1 = sl_others t s in
      if sl_terminating t then Returned False (snd (on_cond r (cancel_waiter w) s1))
      else let s2 = deliver_at_wait_slice t s1 in
        if guest_deadline_reached timeout (sl_now t) then
          (let (cancelled, s3) = on_cond r (cancel_waiter w) s2 in Returned cancelled s3)
        else if is_signaled (mt_heap s2) w then Returned False s2
        else let s3 = ls_gap t s2 in
          if is_signaled (mt_heap s3) w then Returned False s3 else Slice_over s3)"

record 's wait_ctx =
  wc_thread :: u64
  wc_race :: "'s \<Rightarrow> 's"
  wc_gap :: "'s \<Rightarrow> 's"
  wc_relock :: "'s lock_ctx"

definition wait_core ::
  "'m host_env \<Rightarrow> 'm cond_state wait_ctx \<Rightarrow> u64 list \<Rightarrow> nat option \<Rightarrow> 'm cond_state lock_slice list
     \<Rightarrow> 'm cond_state lock_slice list \<Rightarrow> 'm cond_state \<Rightarrow> (u64 \<times> 'm cond_state) option" where
  "wait_core E c args timeout ts us s =
     (let cond = arg args 0; mutex = arg args 1 in
      if cond = 0 \<or> mutex = 0 then Some (EINVAL, s)
      else case condition E (wc_race c) cond s of
          (None, s1) \<Rightarrow> Some (EINVAL, s1)
        | (Some r, s1) \<Rightarrow>
            let (w, s2) = on_cond r (enqueue_waiter (wc_thread c)) s1;
                (unlock, s3) = hle_mutex_unlock E (wc_thread c) [mutex] (wc_gap c s2) in
            if unlock \<noteq> OK then Some (unlock, snd (on_cond r (cancel_waiter w) s3))
            else (case run_slices (cond_turn r w timeout) ts s3 of
                None \<Rightarrow> None
              | Some (timed_out, s4) \<Rightarrow>
                  (case lock_core E (wc_relock c) mutex False None us s4 of
                     None \<Rightarrow> None
                   | Some (relocked, s5) \<Rightarrow>
                       Some (if relocked \<noteq> OK then relocked else if timed_out then ETIMEDOUT else OK, s5))))"

definition hle_cond_wait where
  "hle_cond_wait E c ts us args s = wait_core E c args None ts us s"

definition hle_sce_cond_timedwait where
  "hle_sce_cond_timedwait E c ts us args s =
     map_option (\<lambda>(code, s'). (if code = ETIMEDOUT then SCE_ETIMEDOUT else code, s'))
       (wait_core E c args (Some (from_micros (arg args 2))) ts us s)"

text \<open>A \<open>timespec\<close> as a number of nanoseconds, negative seconds read as zero and
  the nanoseconds clamped, and how far it is from the clock it is measured on.\<close>

definition timespec_nanos :: "byte list \<Rightarrow> nat" where
  "timespec_nanos buf =
     nat (max 0 (sint (le_word (take 8 buf) :: u64))) * 1000000000
       + nat (min 999999999 (max 0 (sint (le_word (take 8 (drop 8 buf)) :: u64))))"

definition abstime_to_relative ::
  "'m host_env \<Rightarrow> nat \<Rightarrow> nat \<Rightarrow> u64 \<Rightarrow> bool \<Rightarrow> 'm cond_state \<Rightarrow> nat option" where
  "abstime_to_relative E since_start since_epoch abstime monotonic s =
     (if abstime = 0 then None
      else case gm_read E abstime 16 (mt_mem s) of
          None \<Rightarrow> Some 0
        | Some buf \<Rightarrow> Some (timespec_nanos buf - (if monotonic then since_start else since_epoch)))"

definition hle_cond_timedwait ::
  "'m host_env \<Rightarrow> 'm cond_state wait_ctx \<Rightarrow> nat \<Rightarrow> nat \<Rightarrow> 'm cond_state lock_slice list
     \<Rightarrow> 'm cond_state lock_slice list \<Rightarrow> u64 list \<Rightarrow> 'm cond_state \<Rightarrow> (u64 \<times> 'm cond_state) option" where
  "hle_cond_timedwait E c since_start since_epoch ts us args s =
     (let (found, s1) = condition E (wc_race c) (arg args 0) s;
          monotonic = (case found of None \<Rightarrow> False | Some r \<Rightarrow> co_monotonic (cond_objs s1 r));
          timeout = abstime_to_relative E since_start since_epoch (arg args 2) monotonic s1 in
      wait_core E c args timeout ts us s1)"

section \<open>Waking\<close>

definition with_condition ::
  "'m host_env \<Rightarrow> ('m cond_state \<Rightarrow> 'm cond_state) \<Rightarrow> (gqueue \<Rightarrow> 'r \<times> gqueue) \<Rightarrow> u64 \<Rightarrow> 'm cond_state
     \<Rightarrow> u64 \<times> 'm cond_state" where
  "with_condition E race f cond s =
     (case condition E race cond s of
        (None, s1) \<Rightarrow> (EINVAL, s1)
      | (Some r, s1) \<Rightarrow> (OK, snd (on_cond r f s1)))"

definition hle_cond_signal ::
  "'m host_env \<Rightarrow> ('m cond_state \<Rightarrow> 'm cond_state) \<Rightarrow> u64 list \<Rightarrow> 'm cond_state \<Rightarrow> u64 \<times> 'm cond_state" where
  "hle_cond_signal E race args s =
     (if arg args 0 = 0 then (EINVAL, s) else with_condition E race signal_one (arg args 0) s)"

definition hle_cond_signalto ::
  "'m host_env \<Rightarrow> ('m cond_state \<Rightarrow> 'm cond_state) \<Rightarrow> u64 list \<Rightarrow> 'm cond_state \<Rightarrow> u64 \<times> 'm cond_state" where
  "hle_cond_signalto E race args s =
     (if arg args 0 = 0 \<or> arg args 1 = 0 then (EINVAL, s)
      else with_condition E race (signal_thread (arg args 1)) (arg args 0) s)"

definition hle_cond_broadcast ::
  "'m host_env \<Rightarrow> ('m cond_state \<Rightarrow> 'm cond_state) \<Rightarrow> u64 list \<Rightarrow> 'm cond_state \<Rightarrow> u64 \<times> 'm cond_state" where
  "hle_cond_broadcast E race args s =
     (if arg args 0 = 0 then (EINVAL, s) else with_condition E race broadcast (arg args 0) s)"

section \<open>Attributes\<close>

definition hle_condattr_setclock :: "u64 list \<Rightarrow> 'm cond_state \<Rightarrow> u64 \<times> 'm cond_state" where
  "hle_condattr_setclock args s = (if arg args 0 = 0 then (EINVAL, s)
     else (OK, s\<lparr>pthread_condattr_clocks := (pthread_condattr_clocks s)(arg args 0 \<mapsto> arg args 1)\<rparr>))"

definition hle_condattr_init :: "u64 list \<Rightarrow> 'm cond_state \<Rightarrow> u64 \<times> 'm cond_state" where
  "hle_condattr_init args s = (if arg args 0 = 0 then (EINVAL, s)
     else (OK, s\<lparr>pthread_condattr_clocks := (pthread_condattr_clocks s)(arg args 0 := None)\<rparr>))"

definition hle_condattr_destroy :: "u64 list \<Rightarrow> 'm cond_state \<Rightarrow> u64 \<times> 'm cond_state" where
  "hle_condattr_destroy args s = (if arg args 0 = 0 then (EINVAL, s)
     else (OK, s\<lparr>pthread_condattr_clocks := (pthread_condattr_clocks s)(arg args 0 := None)\<rparr>))"

section \<open>The queue of one condition\<close>

definition cond_view :: "nat \<Rightarrow> 'm cond_state \<Rightarrow> gqueue" where
  "cond_view r s = (co_queue (cond_objs s r), mt_heap s)"

lemma on_cond_simps [simp]:
  "fst (on_cond r f s) = fst (f (cond_view r s))"
  "cond_view r (snd (on_cond r f s)) = snd (f (cond_view r s))"
  "pthread_conds (snd (on_cond r f s)) = pthread_conds s"
  by (simp_all add: on_cond_def cond_view_def split: prod.splits)

lemma on_cond_cases:
  assumes "on_cond r f s = (x, s')"
  shows "f (cond_view r s) = (x, cond_view r s')"
  using on_cond_simps(1,2) [of r f s] assms by (simp add: prod_eq_iff)

lemma on_cond_same: "f (cond_view r s) = (x, cond_view r s) \<Longrightarrow> on_cond r f s = (x, s)"
  by (simp add: on_cond_def cond_view_def)

lemma is_signaled_view: "is_signaled (mt_heap s) w = is_signaled (snd (cond_view r s)) w"
  by (simp add: cond_view_def)

text \<open>What the other threads keep of a wait in progress: its waiter is queued, or
  it has been selected and its wake bit is set.\<close>

definition joined :: "nat \<Rightarrow> nat \<Rightarrow> 'm cond_state \<Rightarrow> bool" where
  "joined r w s \<longleftrightarrow> gq_ok (cond_view r s)
     \<and> (w \<in> set (gq_pending (cond_view r s)) \<or> gq_woken (cond_view r s) w)"

definition cond_slices_keep :: "('s \<Rightarrow> bool) \<Rightarrow> 's lock_slice list \<Rightarrow> bool" where
  "cond_slices_keep I ts \<longleftrightarrow> slices_keep I ts \<and> (\<forall>t\<in>set ts. \<forall>s. I s \<longrightarrow> I (ls_gap t s))"

text \<open>A join, the wakes and the cancellation of another waiter keep it.\<close>

lemma joined_kept:
  assumes "joined r w s" and "v \<noteq> w"
  shows "joined r w (snd (on_cond r (enqueue_waiter t) s))"
    and "joined r w (snd (on_cond r signal_one s))"
    and "joined r w (snd (on_cond r (cancel_waiter v) s))"
proof -
  have q: "\<And>xs. Wq_cancel w \<notin> set xs \<Longrightarrow>
      gq_ok (wq_run (\<lambda>_ _. True) enqueue_waiter gq_wake cancel_waiter xs (cond_view r s))
      \<and> (w \<in> set (gq_pending (wq_run (\<lambda>_ _. True) enqueue_waiter gq_wake cancel_waiter xs (cond_view r s)))
         \<or> gq_woken (wq_run (\<lambda>_ _. True) enqueue_waiter gq_wake cancel_waiter xs (cond_view r s)) w)"
    using assms(1) gq.queued_or_woken unfolding joined_def by blast
  show "joined r w (snd (on_cond r (enqueue_waiter t) s))" using q [of "[Wq_join t]"] by (simp add: joined_def)
  show "joined r w (snd (on_cond r signal_one s))" using q [of "[Wq_wake]"] by (simp add: joined_def gq_wake_def)
  show "joined r w (snd (on_cond r (cancel_waiter v) s))"
    using q [of "[Wq_cancel v]"] assms(2) by (simp add: joined_def)
qed

text \<open>A cancellation of the joined waiter: it succeeds and takes it out while it is
  queued, and otherwise changes nothing.\<close>

lemma joined_cancel:
  assumes "joined r w s" and "on_cond r (cancel_waiter w) s = (c, s')"
  shows "if c then w \<notin> set (gq_pending (cond_view r s')) \<and> \<not> is_signaled (mt_heap s') w \<and> gq_ok (cond_view r s')
      else s' = s \<and> is_signaled (mt_heap s) w"
proof (cases c)
  case True
  note k = on_cond_cases [OF assms(2)]
  have g: "gq_ok (cond_view r s)" using assms(1) by (simp add: joined_def)
  note i = gq.cancel_iff [OF g k]
  have p: "w \<in> set (gq_pending (cond_view r s))" using i True by simp
  then have "\<not> is_signaled (mt_heap s) w" "distinct (gq_pending (cond_view r s))"
    using g by (auto simp: gq_ok_def gq_pending_def cond_view_def)
  moreover have "mt_heap s' = mt_heap s"
    using k by (simp add: cond_view_def cancel_waiter_def split: if_splits)
  ultimately show ?thesis using i True gq.cancel_ok [OF g k] by (simp add: set_remove1_eq)
next
  case False
  note k = on_cond_cases [OF assms(2)]
  have "w \<notin> set (fst (cond_view r s))" using k False by (auto simp: cancel_waiter_def split: if_splits prod.splits)
  moreover from this have "s' = s" using assms(2)
    by (simp add: on_cond_def cancel_waiter_def cond_view_def)
  ultimately show ?thesis using assms(1) False
    by (auto simp: joined_def gq_pending_def gq_woken_def cond_view_def)
qed

interpretation cond_wait: sliced_wait "cond_turn r w" True due_now
  for r w :: nat
proof unfold_locales
  fix dl and t :: "'m cond_state lock_slice" and s s'
  show "cond_turn r w dl t s = Returned True s' \<Longrightarrow>
      guest_deadline_reached dl (sl_now t)"
    by (auto simp: cond_turn_def Let_def split: if_splits prod.splits)
  show "cond_turn r w dl t s = Slice_over s' \<Longrightarrow> \<not> due_now dl t"
    by (auto simp: cond_turn_def due_now_def Let_def split: if_splits prod.splits)
qed

lemma cond_turn_outcome:
  assumes "joined r w s" and "cond_slices_keep (joined r w) [t]"
  shows "cond_turn r w dl t s = Returned True s' \<Longrightarrow>
      w \<notin> set (gq_pending (cond_view r s')) \<and> \<not> is_signaled (mt_heap s') w"
    and "cond_turn r w dl t s = Returned False s' \<Longrightarrow> sl_terminating t \<or> is_signaled (mt_heap s') w"
    and "cond_turn r w dl t s = Slice_over s' \<Longrightarrow> joined r w s'"
proof -
  let ?s1 = "sl_others t s" and ?s2 = "deliver_at_wait_slice t (sl_others t s)"
  have j1: "joined r w ?s1" using assms by (simp add: cond_slices_keep_def slices_keep_def)
  then have j2: "joined r w ?s2" using assms(2)
    by (simp add: cond_slices_keep_def slices_keep_def deliver_at_wait_slice_def)
  then have j3: "joined r w (ls_gap t ?s2)" using assms(2) by (simp add: cond_slices_keep_def)
  obtain c s3 where c: "on_cond r (cancel_waiter w) ?s2 = (c, s3)" by (cases "on_cond r (cancel_waiter w) ?s2")
  note k = joined_cancel [OF j2 c]
  show "cond_turn r w dl t s = Returned True s' \<Longrightarrow>
      w \<notin> set (gq_pending (cond_view r s')) \<and> \<not> is_signaled (mt_heap s') w"
    using k c by (auto simp: cond_turn_def Let_def split: if_splits)
  show "cond_turn r w dl t s = Returned False s' \<Longrightarrow> sl_terminating t \<or> is_signaled (mt_heap s') w"
    using k c by (auto simp: cond_turn_def Let_def split: if_splits)
  show "cond_turn r w dl t s = Slice_over s' \<Longrightarrow> joined r w s'"
    using j3 by (auto simp: cond_turn_def Let_def split: if_splits prod.splits)
qed

lemma cond_run_outcome:
  assumes "joined r w s" and "cond_slices_keep (joined r w) ts"
    and "run_slices (cond_turn r w dl) ts s = Some (b, s')"
  shows "if b then w \<notin> set (gq_pending (cond_view r s')) \<and> \<not> is_signaled (mt_heap s') w
    else is_signaled (mt_heap s') w \<or> (\<exists>t\<in>set ts. sl_terminating t)"
  using assms
proof (induction ts arbitrary: s)
  case (Cons t ts)
  have k: "cond_slices_keep (joined r w) [t]" "cond_slices_keep (joined r w) ts"
    using Cons.prems(2) by (simp_all add: cond_slices_keep_def slices_keep_def)
  note o = cond_turn_outcome [OF Cons.prems(1) k(1), of dl]
  show ?case
  proof (cases "cond_turn r w dl t s")
    case (Returned c s1)
    then show ?thesis using Cons.prems(3) o(1,2) [of s1] by (cases c) auto
  next
    case (Slice_over s1)
    then show ?thesis using Cons.IH [OF o(3) [OF Slice_over] k(2)] Cons.prems(3) by auto
  next
    case Still_parked
    then show ?thesis using Cons.prems(3) by simp
  qed
qed simp

text \<open>The unlock of the guest mutex leaves the conditions alone; in the heap it
  sets at most the wake bit of a waiter of that mutex.\<close>

lemma on_mutex_cond [simp]:
  fixes s :: "'m cond_state"
  shows "cond_state.pthread_conds (snd (on_mutex rm f s)) = cond_state.pthread_conds s"
    "cond_objs (snd (on_mutex rm f s)) = cond_objs s"
    "mt_heap (snd (on_mutex rm f s)) = snd (snd (f (mutex_objs s rm, mt_heap s)))"
  by (simp_all add: on_mutex_def split: prod.splits)

lemma unlock_heap:
  "snd (snd (unlock_object t (m, H))) = H
    \<or> (\<exists>v\<in>set (queue_of m). snd (snd (unlock_object t (m, H))) = gw_wake v H)"
  by (auto simp: unlock_object_def try_grant_head_def Let_def split: list.splits)

text \<open>The waiters of a condition and of a mutex are different objects.\<close>

definition apart :: "nat \<Rightarrow> nat \<Rightarrow> 'm cond_state \<Rightarrow> bool" where
  "apart r rm s \<longleftrightarrow> (\<forall>v\<in>set (queue_of (mutex_objs s rm)).
     v < wh_next (mt_heap s) \<and> v \<notin> set (co_queue (cond_objs s r)))"

lemma gq_ok_wake_other: "gq_ok (q, H) \<Longrightarrow> v \<notin> set q \<Longrightarrow> gq_ok (q, gw_wake v H)"
  by (auto simp: gq_ok_def)

lemma unlock_keeps_cond:
  fixes s :: "'m cond_state"
  assumes "gq_ok (cond_view r s)" and "resolve_mutex E mutex s = Some (k, rm)" and "apart r rm s"
    and "hle_mutex_unlock E t [mutex] s = (code, s')"
  shows "pthread_conds s' = pthread_conds s" "gq_ok (cond_view r s')"
    "gq_pending (cond_view r s') = gq_pending (cond_view r s)" "wh_next (mt_heap s') = wh_next (mt_heap s)"
proof -
  have "s' = s \<or> s' = snd (on_mutex rm (unlock_object t) s)"
    using assms(2,4) by (auto simp: hle_mutex_unlock_def split: if_splits)
  then show "pthread_conds s' = pthread_conds s" by auto
  have heap: "cond_objs s' = cond_objs s \<and> (mt_heap s' = mt_heap s
      \<or> (\<exists>v\<in>set (queue_of (mutex_objs s rm)). mt_heap s' = gw_wake v (mt_heap s)))"
    using \<open>s' = s \<or> _\<close> unlock_heap [of t "mutex_objs s rm" "mt_heap s"] by auto
  then show "gq_pending (cond_view r s') = gq_pending (cond_view r s)"
    "wh_next (mt_heap s') = wh_next (mt_heap s)"
    by (auto simp: gq_pending_def cond_view_def)
  show "gq_ok (cond_view r s')"
    using heap assms(1,3) gq_ok_wake_other by (auto simp: cond_view_def apart_def)
qed

lemma wake_keeps_bits: "is_signaled H w \<Longrightarrow> is_signaled (gw_wake v H) w"
  by (simp add: is_signaled_def gw_wake_def)

text \<open>So the release of the mutex keeps a waiter queued or selected.\<close>

lemma unlock_keeps_joined:
  fixes s :: "'m cond_state"
  assumes "joined r w s" and "resolve_mutex E mutex s = Some (k, rm)" and "apart r rm s"
    and "hle_mutex_unlock E t [mutex] s = (code, s')"
  shows "joined r w s'"
proof -
  have g: "gq_ok (cond_view r s)" using assms(1) by (simp add: joined_def)
  note u = unlock_keeps_cond [OF g assms(2-4)]
  have "s' = s \<or> s' = snd (on_mutex rm (unlock_object t) s)"
    using assms(2,4) by (auto simp: hle_mutex_unlock_def split: if_splits)
  then have "is_signaled (mt_heap s) w \<Longrightarrow> is_signaled (mt_heap s') w"
    using unlock_heap [of t "mutex_objs s rm" "mt_heap s"] wake_keeps_bits by auto
  then show ?thesis using assms(1) u(2-4) by (auto simp: joined_def gq_woken_def cond_view_def gq_pending_def)
qed

text \<open>\<open>n\<close> signals on an existing condition.\<close>

definition signals :: "'m host_env \<Rightarrow> u64 \<Rightarrow> nat \<Rightarrow> 'm cond_state \<Rightarrow> 'm cond_state" where
  "signals E cond n = (\<lambda>s. snd (hle_cond_signal E id [cond] s)) ^^ n"

lemma signals_view:
  assumes "cond \<noteq> 0" and "pthread_conds s cond = Some r"
  shows "pthread_conds (signals E cond n s) cond = Some r
    \<and> cond_view r (signals E cond n s) = (gq_wake ^^ n) (cond_view r s)"
  by (induction n)
    (use assms in \<open>auto simp: signals_def hle_cond_signal_def with_condition_def condition_def arg_def gq_wake_def\<close>)

text \<open>Signals keep a waiter queued or selected, and as many of them as there are
  queued waiters select it.\<close>

lemma signals_select:
  assumes "cond \<noteq> 0" and "pthread_conds s cond = Some r" and "joined r w s"
    and "length (gq_pending (cond_view r s)) \<le> n"
  shows "joined r w (signals E cond n s) \<and> is_signaled (mt_heap (signals E cond n s)) w"
proof -
  let ?s = "signals E cond n s"
  have v: "pthread_conds (signals E cond m s) cond = Some r"
    "cond_view r (signals E cond m s) = (gq_wake ^^ m) (cond_view r s)" for m
    using signals_view [OF assms(1,2)] by simp_all
  have j: "joined r w (signals E cond m s)" for m
  proof (induction m)
    case (Suc m)
    have "cond_view r (signals E cond (Suc m) s) = gq_wake (cond_view r (signals E cond m s))"
      using v(2) [of "Suc m"] v(2) [of m] by simp
    then show ?case using joined_kept(2) [OF Suc, of "w + 1"] by (simp add: joined_def gq_wake_def)
  qed (simp add: signals_def assms(3))
  have "gq_ok (cond_view r s)" using assms(3) by (simp add: joined_def)
  then have "gq_pending (cond_view r ?s) = []" using gq.fifo [of "cond_view r s" n] v(2) [of n] assms(4) by simp
  then have "gq_woken (cond_view r ?s) w" using j [of n] by (simp add: joined_def)
  then show ?thesis using j [of n] by (simp add: gq_woken_def cond_view_def)
qed

text \<open>A selected waiter can no longer be cancelled.\<close>

lemma joined_selected:
  assumes "joined r w s" and "is_signaled (mt_heap s) w"
  shows "on_cond r (cancel_waiter w) s = (False, s)"
proof -
  obtain c s' where c: "on_cond r (cancel_waiter w) s = (c, s')" by (cases "on_cond r (cancel_waiter w) s")
  have "mt_heap s' = mt_heap s"
    using on_cond_cases [OF c] by (simp add: cond_view_def cancel_waiter_def split: if_splits)
  then have "\<not> c" using joined_cancel [OF assms(1) c] assms(2) by (auto split: if_splits)
  then show ?thesis using joined_cancel [OF assms(1) c] c by simp
qed

text \<open>What every turn before the wake-up keeps, and what the wake-up does at its
  turn.\<close>

definition wait_kept :: "nat \<Rightarrow> nat \<Rightarrow> ('m cond_state \<Rightarrow> bool) \<Rightarrow> 'm cond_state \<Rightarrow> bool" where
  "wait_kept r w R s \<longleftrightarrow> joined r w s \<and> R s"

definition woken_at :: "'m host_env \<Rightarrow> u64 \<Rightarrow> nat \<Rightarrow> nat \<Rightarrow> ('m cond_state \<Rightarrow> bool) \<Rightarrow> 'm cond_state lock_slice \<Rightarrow> bool" where
  "woken_at E cond r w R t \<longleftrightarrow>
     (\<forall>x. wait_kept r w R x \<longrightarrow> (\<exists>y n. sl_others t x = signals E cond n y \<and> joined r w y \<and>
        pthread_conds y cond = Some r \<and> length (gq_pending (cond_view r y)) \<le> n)) \<and>
     (\<forall>x. joined r w x \<and> is_signaled (mt_heap x) w \<longrightarrow>
        joined r w (sl_deliver t x) \<and> is_signaled (mt_heap (sl_deliver t x)) w)"

lemma woken_turn:
  assumes "cond \<noteq> 0" and "woken_at E cond r w R t" and "wait_kept r w R s" and "\<not> sl_terminating t"
  shows "\<exists>s'. cond_turn r w dl t s = Returned False s' \<and> is_signaled (mt_heap s') w"
proof -
  let ?s1 = "sl_others t s" and ?s2 = "deliver_at_wait_slice t (sl_others t s)"
  obtain y n where "?s1 = signals E cond n y" "joined r w y" "pthread_conds y cond = Some r"
    "length (gq_pending (cond_view r y)) \<le> n"
    using assms(2,3) unfolding woken_at_def by blast
  then have "joined r w ?s1 \<and> is_signaled (mt_heap ?s1) w" using signals_select [OF assms(1)] by metis
  then have s2: "joined r w ?s2" "is_signaled (mt_heap ?s2) w"
    using assms(2) by (auto simp: woken_at_def deliver_at_wait_slice_def)
  show ?thesis using joined_selected [OF s2] s2(2) assms(4) by (auto simp: cond_turn_def Let_def)
qed

lemma early_turn:
  assumes "cond_slices_keep (wait_kept r w R) [t]" and "wait_kept r w R s" and "\<not> sl_terminating t"
  shows "cond_turn r w dl t s = Returned True s' \<Longrightarrow> guest_deadline_reached dl (sl_now t) \<and> \<not> is_signaled (mt_heap s') w"
    and "cond_turn r w dl t s = Returned False s' \<Longrightarrow> is_signaled (mt_heap s') w"
    and "cond_turn r w dl t s = Slice_over s' \<Longrightarrow> wait_kept r w R s'"
    and "cond_turn r w dl t s \<noteq> Still_parked"
proof -
  let ?s2 = "deliver_at_wait_slice t (sl_others t s)"
  have k2: "wait_kept r w R ?s2" "wait_kept r w R (ls_gap t ?s2)"
    using assms(1,2) by (simp_all add: cond_slices_keep_def slices_keep_def deliver_at_wait_slice_def)
  obtain c s3 where c: "on_cond r (cancel_waiter w) ?s2 = (c, s3)" by (cases "on_cond r (cancel_waiter w) ?s2")
  have "joined r w ?s2" using k2(1) by (simp add: wait_kept_def)
  note k = joined_cancel [OF this c]
  show "cond_turn r w dl t s = Returned True s' \<Longrightarrow> guest_deadline_reached dl (sl_now t) \<and> \<not> is_signaled (mt_heap s') w"
    "cond_turn r w dl t s = Returned False s' \<Longrightarrow> is_signaled (mt_heap s') w"
    "cond_turn r w dl t s = Slice_over s' \<Longrightarrow> wait_kept r w R s'" "cond_turn r w dl t s \<noteq> Still_parked"
    using k c k2(2) assms(3) by (auto simp: cond_turn_def Let_def split: if_splits)
qed

lemma run_to_wake:
  assumes "cond \<noteq> 0" and "woken_at E cond r w R t"
  shows "wait_kept r w R s \<Longrightarrow> cond_slices_keep (wait_kept r w R) ps \<Longrightarrow> \<forall>u\<in>set (ps @ [t]). \<not> sl_terminating u \<Longrightarrow>
    \<exists>late s'. run_slices (cond_turn r w dl) (ps @ t # qs) s = Some (late, s') \<and>
      is_signaled (mt_heap s') w = (\<not> late) \<and>
      (late \<longrightarrow> (\<exists>u\<in>set ps. guest_deadline_reached dl (sl_now u)))"
proof (induction ps arbitrary: s)
  case Nil
  then show ?case using woken_turn [OF assms Nil.prems(1), of dl] by auto
next
  case (Cons u ps)
  have k: "cond_slices_keep (wait_kept r w R) [u]" "cond_slices_keep (wait_kept r w R) ps" "\<not> sl_terminating u"
    using Cons.prems(2,3) by (simp_all add: cond_slices_keep_def slices_keep_def)
  note e = early_turn [OF k(1) Cons.prems(1) k(3), of dl]
  show ?case
  proof (cases "cond_turn r w dl u s")
    case (Returned b s1)
    then show ?thesis using e(1,2) [of s1] by (cases b) auto
  next
    case (Slice_over s1)
    then show ?thesis using Cons.IH [OF e(3) [OF Slice_over] k(2)] Cons.prems(3) by auto
  next
    case Still_parked
    then show ?thesis using e(4) by simp
  qed
qed

section \<open>Properties\<close>

text \<open>C15: how the parked part of a condition wait ends, as the code stands (the
  comment on \<open>note_wait_outcome\<close> still describes an earlier version that returned
  from an infinite wait after every slice): a wait that reports a time-out has taken
  its waiter out of the queue unselected, so it consumed no signal; any other end
  means its private wake bit was set by a signaler or the process is
  terminating; without a deadline it never times out, and a time-out is
  reported only at a turn past the deadline.\<close>

theorem cond_wait_outcome:
  assumes "joined r w s" and "cond_slices_keep (joined r w) ts"
    and "run_slices (cond_turn r w dl) ts s = Some (timed_out, s')"
  shows "(timed_out \<longrightarrow> w \<notin> set (gq_pending (cond_view r s')) \<and> \<not> is_signaled (mt_heap s') w
           \<and> (\<exists>d. dl = Some d \<and> (\<exists>t\<in>set ts. d \<le> sl_now t)))
    \<and> (\<not> timed_out \<longrightarrow> is_signaled (mt_heap s') w \<or> (\<exists>t\<in>set ts. sl_terminating t))"
proof -
  have "\<exists>d. dl = Some d \<and> (\<exists>t\<in>set ts. d \<le> sl_now t)" if timed_out
    using cond_wait.timeout_at_deadline [of r w dl ts s s'] assms(3) that by simp
  then show ?thesis using cond_run_outcome [OF assms] by (auto split: if_splits)
qed

definition demo_conds :: "(byte list \<times> u64) cond_state" where
  "demo_conds = mutex_state.extend
     ((mutex_state.truncate demo_mutexes)\<lparr>pthread_mutexes := [0x20 \<mapsto> 0],
        mutex_objs := (\<lambda>_. (mutex_shared 3)\<lparr>pm_owner := 1, pm_recursion := 1\<rparr>)\<rparr>)
     \<lparr>pthread_conds = [0x10 \<mapsto> 0], cond_objs = (\<lambda>_. cond_default), cond_next = 1,
        pthread_condattr_clocks = Map.empty\<rparr>"

text \<open>A turn whose handler signals the condition.\<close>

definition demo_signal_slice :: "u64 \<Rightarrow> (byte list \<times> u64) cond_state lock_slice" where
  "demo_signal_slice cond = (demo_lock_slice 5)\<lparr>sl_others := signals test_env cond 1\<rparr>"

lemma demo_joined: "joined 0 0 (snd (on_cond 0 (enqueue_waiter 1) demo_conds))"
  by (simp add: joined_def on_cond_def gq_woken_def enqueue_waiter_def gw_new_def gq_ok_def gq_pending_def cond_view_def
      demo_conds_def demo_mutexes_def mutex_state.defs demo_heap_def cond_default_def is_signaled_def)

theorem cond_wait_outcome_witness:
  "\<exists>s'. run_slices (cond_turn 0 0 (Some 3)) [demo_lock_slice 2, demo_lock_slice 4]
      (snd (on_cond 0 (enqueue_waiter 1) demo_conds)) = Some (True, s')
    \<and> 0 \<notin> set (gq_pending (cond_view 0 s'))"
proof -
  let ?s = "snd (on_cond 0 (enqueue_waiter 1) demo_conds)"
  have "cond_slices_keep (joined 0 0) [demo_lock_slice 2, demo_lock_slice 4 :: (byte list \<times> u64) cond_state lock_slice]"
    by (simp add: cond_slices_keep_def slices_keep_def demo_lock_slice_def)
  note p = cond_wait_outcome [OF demo_joined this]
  have "\<exists>s'. run_slices (cond_turn 0 0 (Some 3)) [demo_lock_slice 2, demo_lock_slice 4] ?s = Some (True, s')"
    by (simp add: cond_turn_def demo_lock_slice_def deliver_at_wait_slice_def guest_deadline_reached_def
        on_cond_def enqueue_waiter_def gw_new_def cancel_waiter_def demo_conds_def demo_mutexes_def
        mutex_state.defs demo_heap_def cond_default_def is_signaled_def)
  then show ?thesis using p by blast
qed

text \<open>C16: no wakeup is lost between joining the queue and parking.  The waiter joins
  before it releases the mutex, and whatever other threads do in between or at
  later turns (keeping the waiter queued or selected), the wait ends at the first
  turn at which they have sent at least as many signals as waiters were then queued,
  unless it has timed out at an earlier turn past its deadline: even if the deadline
  has passed at that very turn it ends as woken, with the wake bit set, and
  returns what retaking the mutex returns; a wait that did time out earlier has not
  consumed a signal.  (The process is not being torn down, and an exception handler
  delivered at the turn of the signals leaves the waiter selected.)\<close>

theorem cond_no_lost_wakeup:
  assumes "cond \<noteq> 0" and "mutex \<noteq> 0" and "pthread_conds s cond = Some r"
    and "on_cond r (enqueue_waiter (wc_thread c)) s = (w, s2)" and "joined r w (wc_gap c s2)"
    and "resolve_mutex E mutex (wc_gap c s2) = Some (k, rm)" and "apart r rm (wc_gap c s2)"
    and "hle_mutex_unlock E (wc_thread c) [mutex] (wc_gap c s2) = (OK, s3)" and "R s3"
    and "cond_slices_keep (wait_kept r w R) ps" and "woken_at E cond r w R t"
    and "\<forall>u\<in>set (ps @ [t]). \<not> sl_terminating u"
  shows "\<exists>late s4. wait_core E c [cond, mutex] timeout (ps @ t # qs) us s
      = (case lock_core E (wc_relock c) mutex False None us s4 of
           None \<Rightarrow> None
         | Some (relocked, s5) \<Rightarrow> Some (if relocked \<noteq> OK then relocked else if late then ETIMEDOUT else OK, s5))
    \<and> is_signaled (mt_heap s4) w = (\<not> late)
    \<and> (late \<longrightarrow> (\<exists>u\<in>set ps. guest_deadline_reached timeout (sl_now u)))"
proof -
  have "wait_kept r w R s3"
    using unlock_keeps_joined [OF assms(5-8)] assms(9) by (simp add: wait_kept_def)
  then obtain late s4 where s4: "run_slices (cond_turn r w timeout) (ps @ t # qs) s3 = Some (late, s4)"
    "is_signaled (mt_heap s4) w = (\<not> late)" "late \<longrightarrow> (\<exists>u\<in>set ps. guest_deadline_reached timeout (sl_now u))"
    using run_to_wake [OF assms(1,11) _ assms(10,12)] by blast
  have "condition E (wc_race c) cond s = (Some r, s)" using assms(3) by (simp add: condition_def)
  then have "wait_core E c [cond, mutex] timeout (ps @ t # qs) us s
      = (case lock_core E (wc_relock c) mutex False None us s4 of
           None \<Rightarrow> None
         | Some (relocked, s5) \<Rightarrow> Some (if relocked \<noteq> OK then relocked else if late then ETIMEDOUT else OK, s5))"
    using assms(1,2,4,8) s4(1) by (simp add: wait_core_def arg_def)
  then show ?thesis using s4(2,3) by blast
qed

theorem cond_no_lost_wakeup_witness:
  "\<exists>s4. wait_core test_env \<lparr>wc_thread = 1, wc_race = id, wc_gap = id, wc_relock = demo_lock_ctx 1\<rparr>
      [0x10, 0x20] (Some 4) [demo_lock_slice 2, demo_signal_slice 0x10] [] demo_conds
    = lock_core test_env (demo_lock_ctx 1) 0x20 False None [] s4 \<and> is_signaled (mt_heap s4) 0"
proof -
  let ?c = "\<lparr>wc_thread = 1, wc_race = id, wc_gap = id, wc_relock = demo_lock_ctx 1\<rparr>"
  let ?s2 = "snd (on_cond 0 (enqueue_waiter 1) demo_conds)"
  let ?s3 = "snd (hle_mutex_unlock test_env 1 [0x20] ?s2)"
  let ?R = "\<lambda>x. x = ?s3"
  note d = demo_conds_def demo_mutexes_def mutex_state.defs demo_heap_def cond_default_def cond_view_def
  have e: "on_cond 0 (enqueue_waiter (wc_thread ?c)) demo_conds = (0, ?s2)"
    by (simp add: prod_eq_iff) (simp add: on_cond_def enqueue_waiter_def gw_new_def d)
  have r: "resolve_mutex test_env 0x20 ?s2 = Some (0x20, 0)"
    by (simp add: resolve_mutex_def on_cond_def enqueue_waiter_def gw_new_def d)
  have a: "apart 0 0 ?s2"
    by (simp add: apart_def on_cond_def enqueue_waiter_def gw_new_def d mutex_shared_def)
  have u: "hle_mutex_unlock test_env (wc_thread ?c) [0x20] ?s2 = (OK, ?s3)"
    by (simp add: prod_eq_iff) (simp add: hle_mutex_unlock_def arg_def r on_mutex_def unlock_object_def,
      simp add: on_cond_def enqueue_waiter_def gw_new_def d mutex_shared_def try_grant_head_def
        i32_sub_id i32_range_def)
  have g: "gq_ok (cond_view 0 demo_conds)" "pthread_conds demo_conds 0x10 = Some 0"
    by (simp_all add: cond_view_def gq_ok_def d)
  have q: "pthread_conds ?s3 0x10 = Some 0" "length (gq_pending (cond_view 0 ?s3)) \<le> 1"
    using unlock_keeps_cond(1,3) [OF _ r a u] demo_joined g(2)
    by (simp_all add: joined_def gq.enq_last [OF g(1)]) (simp_all add: gq_pending_def on_cond_def enqueue_waiter_def gw_new_def d)
  have keep: "cond_slices_keep (wait_kept 0 0 ?R) [demo_lock_slice 2]"
    by (simp add: cond_slices_keep_def slices_keep_def demo_lock_slice_def)
  have wake: "woken_at test_env 0x10 0 0 ?R (demo_signal_slice 0x10)"
    using q by (auto simp: woken_at_def wait_kept_def demo_signal_slice_def demo_lock_slice_def)
  note t = cond_no_lost_wakeup [where R = ?R and c = ?c and mutex = "0x20" and timeout = "Some 4" and us = "[]" and qs = "[]",
      OF _ _ g(2) e _ _ _ _ _ keep wake]
  obtain late s4 where s4: "wait_core test_env ?c [0x10, 0x20] (Some 4) [demo_lock_slice 2, demo_signal_slice 0x10] [] demo_conds
      = (case lock_core test_env (demo_lock_ctx 1) 0x20 False None [] s4 of
           None \<Rightarrow> None
         | Some (relocked, s5) \<Rightarrow> Some (if relocked \<noteq> OK then relocked else if late then ETIMEDOUT else OK, s5))"
    "is_signaled (mt_heap s4) 0 = (\<not> late)" "\<not> late"
    using t [OF _ _ _ _ _ _ refl] r a u demo_joined
    by (auto simp: demo_signal_slice_def demo_lock_slice_def guest_deadline_reached_def)
  then show ?thesis
    by (intro exI [of _ s4]) (cases "lock_core test_env (demo_lock_ctx 1) 0x20 False None [] s4", auto)
qed

end
