(* ===== verification/Kernel_Equeue.thy ===== *)
theory Kernel_Equeue
  imports Wait_Slices "HOL-Library.AList"
begin

text \<open>
  Event queues (\<open>crates/raeen-hle/src/kernel_equeue.rs\<close>): the table of queues and
  the events registered on them, triggers, and the wait that delivers pending
  events as 32-byte guest structures.  The event table is an association list:
  its order stands for the unspecified iteration order of the source's
  concurrent map, and the theorems hold for every order.
\<close>

section \<open>State\<close>

record equeue_event =
  ev_udata :: u64
  ev_triggered :: bool
  ev_fflags :: u32
  ev_filter :: u16
  ev_data :: u64

definition event_default :: equeue_event where
  "event_default = \<lparr>ev_udata = 0, ev_triggered = False, ev_fflags = 0, ev_filter = - 11, ev_data = 0\<rparr>"

type_synonym event_table = "((u64 \<times> u64) \<times> equeue_event) list"

text \<open>\<open>equeue_wakes\<close> logs the queues woken, newest first; \<open>gpu_pending\<close> tells
  whether the GPU worker has published effects that are not applied yet;
  \<open>open_files\<close> are the descriptors of the filesystem.\<close>

record 'm equeue_state =
  eq_mem :: 'm
  kernel_equeues :: "u64 \<rightharpoonup> u32"
  kernel_equeue_next :: u64
  kernel_equeue_events :: event_table
  kernel_sockets :: "int set"
  open_files :: "int set"
  equeue_wakes :: "u64 list"
  gpu_pending :: bool

definition create_equeue :: "u32 \<Rightarrow> 'm equeue_state \<Rightarrow> u64 \<times> 'm equeue_state" where
  "create_equeue attributes s =
     (let handle = kernel_equeue_next s in
      (handle, s\<lparr>kernel_equeue_next := handle + 1,
         kernel_equeues := (kernel_equeues s)(handle \<mapsto> attributes)\<rparr>))"

definition wake_equeue :: "u64 \<Rightarrow> 'm equeue_state \<Rightarrow> 'm equeue_state" where
  "wake_equeue eq s = s\<lparr>equeue_wakes := eq # equeue_wakes s\<rparr>"

text \<open>The wake of every live queue; \<open>queues\<close> lists the table.\<close>

definition wake_all_equeues :: "u64 list \<Rightarrow> 'm equeue_state \<Rightarrow> nat \<times> 'm equeue_state" where
  "wake_all_equeues queues s = (length queues, fold wake_equeue queues s)"

section \<open>Registration\<close>

definition hle_create_equeue :: "'m mem_ops \<Rightarrow> u64 list \<Rightarrow> 'm equeue_state \<Rightarrow> u64 \<times> 'm equeue_state" where
  "hle_create_equeue E args s =
     (let out = arg args 0 in
      if out = 0 then (SCE_EINVAL, s)
      else let (handle, s1) = create_equeue 0 s;
               (ok, m') = gm_write E out (u64_bytes handle) (eq_mem s1);
               s2 = s1\<lparr>eq_mem := m'\<rparr> in
           if \<not> ok then (SCE_EFAULT, s2\<lparr>kernel_equeues := (kernel_equeues s2)(handle := None)\<rparr>)
           else (SCE_OK, s2))"

definition hle_delete_equeue :: "u64 list \<Rightarrow> 'm equeue_state \<Rightarrow> u64 \<times> 'm equeue_state" where
  "hle_delete_equeue args s =
     (let eq = arg args 0 in
      if kernel_equeues s eq = None then (SCE_ESRCH, s)
      else (SCE_OK, wake_equeue eq (s\<lparr>kernel_equeues := (kernel_equeues s)(eq := None),
        kernel_equeue_events := filter (\<lambda>(k, _). fst k \<noteq> eq) (kernel_equeue_events s)\<rparr>)))"

definition put_event :: "u64 \<Rightarrow> u64 \<Rightarrow> equeue_event \<Rightarrow> 'm equeue_state \<Rightarrow> 'm equeue_state" where
  "put_event eq ident ev s = s\<lparr>kernel_equeue_events := AList.update (eq, ident) ev (kernel_equeue_events s)\<rparr>"

definition hle_add_user_event :: "u64 list \<Rightarrow> 'm equeue_state \<Rightarrow> u64 \<times> 'm equeue_state" where
  "hle_add_user_event args s =
     (let eq = arg args 0; ident = arg args 1 in
      if kernel_equeues s eq = None then (SCE_ESRCH, s)
      else (SCE_OK, put_event eq ident event_default s))"

definition hle_add_ampr_event :: "u64 list \<Rightarrow> 'm equeue_state \<Rightarrow> u64 \<times> 'm equeue_state" where
  "hle_add_ampr_event args s =
     (let eq = arg args 0; ident = arg args 1; data = arg args 2 in
      if kernel_equeues s eq = None then (SCE_ESRCH, s)
      else (SCE_OK, put_event eq ident (event_default\<lparr>ev_udata := data\<rparr>) s))"

text \<open>A descriptor is identified by its \<open>u32\<close> bit pattern.\<close>

definition fd_ident :: "u64 \<Rightarrow> u64" where
  "fd_ident x = u32_to_u64 (as_u32 x)"

definition hle_add_read_event :: "u64 list \<Rightarrow> 'm equeue_state \<Rightarrow> u64 \<times> 'm equeue_state" where
  "hle_add_read_event args s =
     (let eq = arg args 0; fd = as_i32 (arg args 1); udata = arg args 2 in
      if kernel_equeues s eq = None \<or> fd \<notin> kernel_sockets s then (SCE_ESRCH, s)
      else (SCE_OK, put_event eq (fd_ident (arg args 1)) (event_default\<lparr>ev_udata := udata\<rparr>) s))"

definition hle_add_write_event :: "u64 list \<Rightarrow> 'm equeue_state \<Rightarrow> u64 \<times> 'm equeue_state" where
  "hle_add_write_event args s =
     (let eq = arg args 0; fd = as_i32 (arg args 1); udata = arg args 2;
          known_fd = (fd \<in> kernel_sockets s \<or> fd \<in> open_files s) in
      if kernel_equeues s eq = None \<or> \<not> known_fd then (SCE_ESRCH, s)
      else (SCE_OK, put_event eq (fd_ident (arg args 1))
        (event_default\<lparr>ev_udata := udata, ev_filter := - 2\<rparr>) s))"

definition remove_event :: "u64 \<Rightarrow> u64 \<Rightarrow> 'm equeue_state \<Rightarrow> u64 \<times> 'm equeue_state" where
  "remove_event eq ident s =
     (if map_of (kernel_equeue_events s) (eq, ident) = None then (SCE_ESRCH, s)
      else (SCE_OK, s\<lparr>kernel_equeue_events := AList.delete (eq, ident) (kernel_equeue_events s)\<rparr>))"

definition hle_delete_read_event :: "u64 list \<Rightarrow> 'm equeue_state \<Rightarrow> u64 \<times> 'm equeue_state" where
  "hle_delete_read_event args s =
     (let eq = arg args 0 in
      if kernel_equeues s eq = None then (SCE_ESRCH, s)
      else remove_event eq (fd_ident (arg args 1)) s)"

definition hle_delete_user_event :: "u64 list \<Rightarrow> 'm equeue_state \<Rightarrow> u64 \<times> 'm equeue_state" where
  "hle_delete_user_event args s = remove_event (arg args 0) (arg args 1) s"

definition hle_trigger_user_event :: "u64 list \<Rightarrow> 'm equeue_state \<Rightarrow> u64 \<times> 'm equeue_state" where
  "hle_trigger_user_event args s =
     (let eq = arg args 0; ident = arg args 1; udata = arg args 2 in
      case map_of (kernel_equeue_events s) (eq, ident) of
        None \<Rightarrow> (SCE_ESRCH, s)
      | Some ev \<Rightarrow> (SCE_OK, wake_equeue eq (put_event eq ident
          (ev\<lparr>ev_triggered := True, ev_udata := udata, ev_fflags := ev_fflags ev + 1\<rparr>) s)))"

section \<open>Delivery\<close>

definition kernel_event_bytes :: "u64 \<Rightarrow> equeue_event \<Rightarrow> byte list" where
  "kernel_event_bytes ident ev =
     le_bytes 8 ident @ le_bytes 2 (ev_filter ev) @ [0, 0] @ le_bytes 4 (ev_fflags ev)
       @ le_bytes 8 (ev_data ev) @ le_bytes 8 (ev_udata ev)"

definition write_kernel_event ::
  "'m mem_ops \<Rightarrow> u64 \<Rightarrow> u64 \<Rightarrow> equeue_event \<Rightarrow> 'm equeue_state \<Rightarrow> bool \<times> 'm equeue_state" where
  "write_kernel_event E addr ident ev s =
     (let (ok, m') = gm_write E addr (kernel_event_bytes ident ev) (eq_mem s) in (ok, s\<lparr>eq_mem := m'\<rparr>))"

definition clear_trigger :: "u64 \<Rightarrow> u64 \<Rightarrow> 'm equeue_state \<Rightarrow> 'm equeue_state" where
  "clear_trigger eq ident s =
     (case map_of (kernel_equeue_events s) (eq, ident) of
        None \<Rightarrow> s
      | Some ev \<Rightarrow> put_event eq ident (ev\<lparr>ev_triggered := False\<rparr>) s)"

fun deliver_from ::
  "'m mem_ops \<Rightarrow> u64 \<Rightarrow> u64 \<Rightarrow> nat \<Rightarrow> (u64 \<times> equeue_event) list \<Rightarrow> 'm equeue_state \<Rightarrow> bool \<times> 'm equeue_state" where
  "deliver_from E eq events_ptr i [] s = (True, s)"
| "deliver_from E eq events_ptr i ((ident, ev) # ps) s =
     (let (ok, s1) = write_kernel_event E (events_ptr + of_nat i * 0x20) ident ev s in
      if \<not> ok then (False, s1) else deliver_from E eq events_ptr (i + 1) ps (clear_trigger eq ident s1))"

definition deliver_events ::
  "'m mem_ops \<Rightarrow> u64 \<Rightarrow> u64 \<Rightarrow> u64 \<Rightarrow> (u64 \<times> equeue_event) list \<Rightarrow> 'm equeue_state \<Rightarrow> u64 \<times> 'm equeue_state" where
  "deliver_events E eq events_ptr out_count pending s =
     (let (ok, s1) = deliver_from E eq events_ptr 0 pending s in
      if \<not> ok then (SCE_EFAULT, s1)
      else if out_count = 0 then (SCE_OK, s1)
      else let (ok, m') = gm_write E out_count (u32_bytes (of_nat (length pending))) (eq_mem s1);
               s2 = s1\<lparr>eq_mem := m'\<rparr> in
           if \<not> ok then (SCE_EFAULT, s2) else (SCE_OK, s2))"

definition pending_events :: "u64 \<Rightarrow> u64 \<Rightarrow> 'm equeue_state \<Rightarrow> (u64 \<times> equeue_event) list" where
  "pending_events eq num s = take (unat num)
     (map (\<lambda>((q, ident), ev). (ident, ev))
       (filter (\<lambda>((q, ident), ev). q = eq \<and> ev_triggered ev) (kernel_equeue_events s)))"

section \<open>Waiting\<close>

text \<open>The readiness test, which delivers under the notification lock; the cells it
  sets are the delivery's result and whether the queue is gone.\<close>

definition equeue_ready ::
  "'m mem_ops \<Rightarrow> u64 \<Rightarrow> u64 \<Rightarrow> u64 \<Rightarrow> u64 \<Rightarrow> 'm equeue_state \<Rightarrow> (bool \<times> u64 option \<times> bool) \<times> 'm equeue_state" where
  "equeue_ready E eq events_ptr num out_count s =
     (if kernel_equeues s eq = None then ((True, None, True), s)
      else let pending = pending_events eq num s in
        if pending \<noteq> [] then
          (let (code, s1) = deliver_events E eq events_ptr out_count pending s in
           ((True, Some code, False), s1))
        else ((gpu_pending s, None, False), s))"

text \<open>A turn: \<open>sl_others\<close> includes the application of the GPU side effects at its
  start, \<open>et_park\<close> is the clock when the park begins.\<close>

record 's equeue_slice = "'s slice" +
  et_park :: nat
  et_wakes :: "'s wakeup list"

definition equeue_slice_ns :: nat where "equeue_slice_ns = 50000000"

definition equeue_park_slice :: "nat option \<Rightarrow> nat \<Rightarrow> nat \<Rightarrow> nat" where
  "equeue_park_slice deadline now slc = park_slice deadline now slc"

definition equeue_deadline_reached :: "nat option \<Rightarrow> nat \<Rightarrow> bool" where
  "equeue_deadline_reached deadline now = guest_deadline_reached deadline now"

definition equeue_wait_turn ::
  "'m mem_ops \<Rightarrow> u64 \<Rightarrow> u64 \<Rightarrow> u64 \<Rightarrow> u64 \<Rightarrow> nat option \<Rightarrow> 'm equeue_state equeue_slice \<Rightarrow> 'm equeue_state
     \<Rightarrow> (u64, 'm equeue_state) turn_result" where
  "equeue_wait_turn E eq events_ptr num out_count deadline t s =
     (case wait_until (et_park t) (equeue_park_slice deadline (et_park t) equeue_slice_ns)
            (equeue_ready E eq events_ptr num out_count) (et_wakes t) (slice_entry t s) of
        None \<Rightarrow> Still_parked
      | Some (outcome, (delivered, deleted), s1) \<Rightarrow>
          if deleted then Returned SCE_ESRCH s1
          else (case delivered of
              Some code \<Rightarrow> Returned code s1
            | None \<Rightarrow>
                if outcome = Terminating then Returned SCE_OK s1
                else if outcome = TimedOut \<and> equeue_deadline_reached deadline (sl_now t) then
                  Returned SCE_ETIMEDOUT (if out_count = 0 then s1
                    else s1\<lparr>eq_mem := snd (gm_write E out_count (u32_bytes 0) (eq_mem s1))\<rparr>)
                else Slice_over s1))"

definition hle_wait_equeue ::
  "'m mem_ops \<Rightarrow> nat \<Rightarrow> 'm equeue_state equeue_slice list \<Rightarrow> u64 list \<Rightarrow> 'm equeue_state
     \<Rightarrow> (u64 \<times> 'm equeue_state) option" where
  "hle_wait_equeue E now ts args s =
     (let eq = arg args 0; events_ptr = arg args 1; num = arg args 2; out_count = arg args 3;
          timeout_ptr = arg args 4 in
      if kernel_equeues s eq = None then Some (SCE_ESRCH, s)
      else if events_ptr = 0 \<or> num = 0 then Some (SCE_EINVAL, s)
      else (case read_deadline E timeout_ptr now (eq_mem s) of
          None \<Rightarrow> Some (SCE_EFAULT, s)
        | Some deadline \<Rightarrow>
            run_slices (equeue_wait_turn E eq events_ptr num out_count deadline) ts s))"

section \<open>Reading a delivered event\<close>

definition read_event_u64 :: "'m mem_ops \<Rightarrow> u64 \<Rightarrow> u64 \<Rightarrow> 'm equeue_state \<Rightarrow> u64" where
  "read_event_u64 E event_ptr off s =
     (if event_ptr = 0 then 0
      else case gm_read E (event_ptr + off) 8 (eq_mem s) of None \<Rightarrow> 0 | Some b \<Rightarrow> le_word b)"

definition hle_get_event_id :: "'m mem_ops \<Rightarrow> u64 list \<Rightarrow> 'm equeue_state \<Rightarrow> u64" where
  "hle_get_event_id E args s = read_event_u64 E (arg args 0) 0 s"

definition hle_get_event_filter :: "'m mem_ops \<Rightarrow> u64 list \<Rightarrow> 'm equeue_state \<Rightarrow> u64" where
  "hle_get_event_filter E args s =
     (if arg args 0 = 0 then 0
      else case gm_read E (arg args 0 + 8) 2 (eq_mem s) of
          None \<Rightarrow> 0 | Some b \<Rightarrow> scast (le_word b :: u16))"

definition hle_get_event_data :: "'m mem_ops \<Rightarrow> u64 list \<Rightarrow> 'm equeue_state \<Rightarrow> u64" where
  "hle_get_event_data E args s = read_event_u64 E (arg args 0) 0x10 s"

definition hle_get_event_user_data :: "'m mem_ops \<Rightarrow> u64 list \<Rightarrow> 'm equeue_state \<Rightarrow> u64" where
  "hle_get_event_user_data E args s = read_event_u64 E (arg args 0) 0x18 s"

section \<open>The event table\<close>

abbreviation event_at :: "'m equeue_state \<Rightarrow> u64 \<times> u64 \<Rightarrow> equeue_event option" where
  "event_at s \<equiv> map_of (kernel_equeue_events s)"

lemma put_event_simps [simp]:
  "event_at (put_event eq ident ev s) = (event_at s)((eq, ident) \<mapsto> ev)"
  "eq_mem (put_event eq ident ev s) = eq_mem s"
  "kernel_equeues (put_event eq ident ev s) = kernel_equeues s"
  by (simp_all add: put_event_def update_conv')

lemma remove_event_at:
  "fst (remove_event eq ident s) = SCE_OK \<Longrightarrow> event_at (snd (remove_event eq ident s)) = (event_at s)((eq, ident) := None)"
  by (auto simp: remove_event_def delete_conv' split: if_splits)

lemma clear_trigger_simps [simp]:
  "eq_mem (clear_trigger eq ident s) = eq_mem s"
  "kernel_equeues (clear_trigger eq ident s) = kernel_equeues s"
  "event_at (clear_trigger eq ident s) k = (if k = (eq, ident) then
     map_option (\<lambda>ev. ev\<lparr>ev_triggered := False\<rparr>) (event_at s k) else event_at s k)"
  by (auto simp: clear_trigger_def split: option.splits)

lemma write_event_simps [simp]:
  "kernel_equeue_events (snd (write_kernel_event E addr ident ev s)) = kernel_equeue_events s"
  "kernel_equeues (snd (write_kernel_event E addr ident ev s)) = kernel_equeues s"
  by (simp_all add: write_kernel_event_def split: prod.splits)

lemma length_kernel_event_bytes [simp]: "length (kernel_event_bytes ident ev) = 32"
  by (simp add: kernel_event_bytes_def)

text \<open>The effect of a delivery on the table: the delivered events are no longer
  triggered, nothing else changes.\<close>

lemma deliver_from_events:
  "deliver_from E eq ptr i ps s = (True, s') \<Longrightarrow> event_at s' k =
     (if fst k = eq \<and> snd k \<in> fst ` set ps then map_option (\<lambda>ev. ev\<lparr>ev_triggered := False\<rparr>) (event_at s k)
      else event_at s k)"
proof (induction E eq ptr i ps s arbitrary: s' rule: deliver_from.induct)
  case (2 E eq ptr i ident ev ps s)
  obtain b s1 where w: "write_kernel_event E (ptr + of_nat i * 0x20) ident ev s = (b, s1)"
    by (cases "write_kernel_event E (ptr + of_nat i * 0x20) ident ev s")
  then have e: "kernel_equeue_events s1 = kernel_equeue_events s"
    using write_event_simps(1) [of E "ptr + of_nat i * 0x20" ident ev s] by simp
  have b: b and d: "deliver_from E eq ptr (i + 1) ps (clear_trigger eq ident s1) = (True, s')"
    using 2(2) w by (auto split: if_splits)
  have "event_at s' k = (if fst k = eq \<and> snd k \<in> fst ` set ps
      then map_option (\<lambda>ev. ev\<lparr>ev_triggered := False\<rparr>) (event_at (clear_trigger eq ident s1) k)
      else event_at (clear_trigger eq ident s1) k)"
    using 2(1) [OF w [symmetric]] b d by simp
  then show ?case by (cases k) (auto simp: e option.map_comp comp_def)
qed simp

text \<open>Its effect on memory: the \<open>j\<close>-th structure stands at the \<open>j\<close>-th slot.\<close>

lemma slot_address:
  "unat ptr + 32 * n < 18446744073709551616 \<Longrightarrow> j < n \<Longrightarrow> unat (ptr + of_nat j * 0x20 :: u64) = unat ptr + 32 * j"
  by (simp add: unat_word_ariths unat_of_nat)

lemma deliver_from_memory:
  assumes "guest_memory E ok" and "ok (eq_mem s)" and "deliver_from E eq ptr i ps s = (True, s')"
    and "unat ptr + 32 * (i + length ps) < 18446744073709551616"
  shows "ok (eq_mem s')
    \<and> (\<forall>j<length ps. gm_read E (ptr + of_nat (i + j) * 0x20) 32 (eq_mem s')
         = Some (kernel_event_bytes (fst (ps ! j)) (snd (ps ! j))))
    \<and> (\<forall>b n. (\<forall>j<length ps. disjoint_spans (ptr + of_nat (i + j) * 0x20) 32 b n)
         \<longrightarrow> gm_read E b n (eq_mem s') = gm_read E b n (eq_mem s))"
  using assms(2-4)
proof (induction ps arbitrary: i s)
  case (Cons p ps)
  obtain ident ev where p: "p = (ident, ev)" by (cases p)
  let ?a = "ptr + of_nat i * 0x20"
  obtain c m1 where w: "gm_write E ?a (kernel_event_bytes ident ev) (eq_mem s) = (c, m1)"
    by (cases "gm_write E ?a (kernel_event_bytes ident ev) (eq_mem s)")
  let ?s1 = "clear_trigger eq ident (s\<lparr>eq_mem := m1\<rparr>)"
  have c: c and d: "deliver_from E eq ptr (i + 1) ps ?s1 = (True, s')"
    using Cons.prems(2) p w by (auto simp: write_kernel_event_def split: if_splits)
  have wt: "gm_write E ?a (kernel_event_bytes ident ev) (eq_mem s) = (True, m1)" using w c by simp
  have ok1: "ok (eq_mem ?s1)" using guest_memory.write_ok [OF assms(1) Cons.prems(1) wt] by simp
  have bound: "unat ptr + 32 * (i + 1 + length ps) < 18446744073709551616" using Cons.prems(3) by simp
  note IH = Cons.IH [OF ok1 d bound]
  have addr: "unat (ptr + of_nat k * 0x20) = unat ptr + 32 * k" if "k < i + 1 + length ps" for k
    using slot_address [OF bound that] .
  have apart: "disjoint_spans (ptr + of_nat (i + 1 + j) * 0x20) 32 ?a 32" if "j < length ps" for j
    unfolding disjoint_spans_def using addr [of "i + 1 + j"] addr [of i] that by simp
  have first: "gm_read E ?a 32 (eq_mem s') = Some (kernel_event_bytes ident ev)"
    using IH apart guest_memory.read_back [OF assms(1) Cons.prems(1) wt] by simp
  have rest: "gm_read E (ptr + of_nat (i + Suc j) * 0x20) 32 (eq_mem s')
      = Some (kernel_event_bytes (fst (ps ! j)) (snd (ps ! j)))" if "j < length ps" for j
    using IH that by simp
  have frame: "gm_read E b n (eq_mem s') = gm_read E b n (eq_mem s)"
    if f: "\<forall>j<length (p # ps). disjoint_spans (ptr + of_nat (i + j) * 0x20) 32 b n" for b n
  proof -
    have "disjoint_spans ?a 32 b n" using f [rule_format, of 0] by simp
    then have "gm_read E b n m1 = gm_read E b n (eq_mem s)"
      using guest_memory.read_other [OF assms(1) Cons.prems(1) wt] by simp
    moreover have "disjoint_spans (ptr + of_nat (i + 1 + j) * 0x20) 32 b n" if "j < length ps" for j
      using f [rule_format, of "Suc j"] that by simp
    ultimately show ?thesis using IH by simp
  qed
  have "gm_read E (ptr + of_nat (i + j) * 0x20) 32 (eq_mem s')
      = Some (kernel_event_bytes (fst ((p # ps) ! j)) (snd ((p # ps) ! j)))" if "j < length (p # ps)" for j
    using that first rest p by (cases j) simp_all
  then show ?case using IH frame by blast
qed simp

lemma deliver_never_times_out:
  "deliver_events E eq ptr out ps s = (code, s') \<Longrightarrow> code \<noteq> SCE_ETIMEDOUT"
  by (auto simp: deliver_events_def Let_def split: prod.splits if_splits)

lemma ready_never_times_out:
  "equeue_ready E eq ptr num out s = ((r, Some code, del), s') \<Longrightarrow> code \<noteq> SCE_ETIMEDOUT"
  by (auto simp: equeue_ready_def Let_def split: prod.splits if_splits dest: deliver_never_times_out)

lemma wait_until_cells:
  "wait_until now timeout (equeue_ready E eq ptr num out) ws s = Some (r, (Some code, del), s') \<Longrightarrow>
     code \<noteq> SCE_ETIMEDOUT"
  unfolding wait_until_def
  by (induction ws arbitrary: s) (auto split: prod.splits if_splits dest: ready_never_times_out)

interpretation equeue_wait: sliced_wait "equeue_wait_turn E eq ptr num out" SCE_ETIMEDOUT "\<lambda>dl t. False"
  for E :: "'m mem_ops" and eq ptr num out :: u64
proof unfold_locales
  fix dl and t :: "'m equeue_state equeue_slice" and s s'
  show "equeue_wait_turn E eq ptr num out dl t s = Returned SCE_ETIMEDOUT s' \<Longrightarrow>
      guest_deadline_reached dl (sl_now t)"
    by (auto simp: equeue_wait_turn_def equeue_deadline_reached_def dest: wait_until_cells
        split: option.splits prod.splits if_splits)
qed simp

section \<open>Properties\<close>

text \<open>C17: a delivery is exact: when it succeeds, the \<open>j\<close>-th 32-byte structure of
  the guest's array is the \<open>j\<close>-th of the at most \<open>num\<close> pending events of this
  queue, the reported count is their number, precisely these events are no
  longer pending, and no other event, of this queue or another, is changed or
  removed.\<close>

theorem equeue_delivery:
  assumes "guest_memory E ok" and "ok (eq_mem s)" and "ps = pending_events eq num s"
    and "deliver_events E eq ptr out ps s = (SCE_OK, s')"
    and "unat ptr + 32 * length ps < 18446744073709551616"
    and "\<And>j. j < length ps \<Longrightarrow> disjoint_spans out 4 (ptr + of_nat j * 0x20) 32"
  shows "length ps = min (unat num) (length (filter (\<lambda>((q, ident), ev). q = eq \<and> ev_triggered ev)
           (kernel_equeue_events s)))
    \<and> (\<forall>j<length ps. gm_read E (ptr + of_nat j * 0x20) 32 (eq_mem s')
         = Some (kernel_event_bytes (fst (ps ! j)) (snd (ps ! j))))
    \<and> (out \<noteq> 0 \<longrightarrow> map_option le_word (gm_read E out 4 (eq_mem s')) = Some (of_nat (length ps) :: u32))
    \<and> (\<forall>q ident. event_at s' (q, ident) = (if q = eq \<and> ident \<in> fst ` set ps
         then map_option (\<lambda>ev. ev\<lparr>ev_triggered := False\<rparr>) (event_at s (q, ident))
         else event_at s (q, ident)))"
proof -
  obtain b s1 where d: "deliver_from E eq ptr 0 ps s = (b, s1)" by (cases "deliver_from E eq ptr 0 ps s")
  then have b: "b = True" using assms(4) by (auto simp: deliver_events_def split: if_splits)
  note mem = deliver_from_memory [OF assms(1,2) d [unfolded b]]
  have ok1: "ok (eq_mem s1)" and slots: "gm_read E (ptr + of_nat j * 0x20) 32 (eq_mem s1)
      = Some (kernel_event_bytes (fst (ps ! j)) (snd (ps ! j)))" if "j < length ps" for j
    using mem assms(5) that by auto
  have tab: "event_at s1 k = (if fst k = eq \<and> snd k \<in> fst ` set ps
      then map_option (\<lambda>ev. ev\<lparr>ev_triggered := False\<rparr>) (event_at s k) else event_at s k)" for k
    using deliver_from_events [OF d [unfolded b]] .
  have ok1: "ok (eq_mem s1)" using mem assms(5) by simp
  obtain c m' where w: "gm_write E out (u32_bytes (of_nat (length ps))) (eq_mem s1) = (c, m')"
    by (cases "gm_write E out (u32_bytes (of_nat (length ps))) (eq_mem s1)")
  have s': "s' = (if out = 0 then s1 else s1\<lparr>eq_mem := m'\<rparr>) \<and> (out \<noteq> 0 \<longrightarrow> c)"
    using assms(4) d b w by (auto simp: deliver_events_def Let_def split: if_splits)
  have keep: "gm_read E (ptr + of_nat j * 0x20) 32 (eq_mem s') = gm_read E (ptr + of_nat j * 0x20) 32 (eq_mem s1)"
    if "j < length ps" for j
  proof (cases "out = 0")
    case False
    then have "gm_write E out (u32_bytes (of_nat (length ps))) (eq_mem s1) = (True, m')" using s' w by simp
    from guest_memory.read_other [OF assms(1) ok1 this] assms(6) [OF that] show ?thesis using s' False by simp
  qed (use s' in simp)
  have cnt: "map_option le_word (gm_read E out 4 (eq_mem s')) = Some (of_nat (length ps) :: u32)" if "out \<noteq> 0"
    using guest_memory.read_back_u32 [OF assms(1) ok1, of out "of_nat (length ps)" m'] s' w that by simp
  have tab': "event_at s' = event_at s1" using s' by simp
  have len: "length ps = min (unat num) (length (filter (\<lambda>((q, ident), ev). q = eq \<and> ev_triggered ev)
      (kernel_equeue_events s)))"
    using assms(3) by (simp add: pending_events_def min.commute)
  show ?thesis using len slots keep cnt tab unfolding tab' by auto
qed

definition demo_equeue :: "byte list equeue_state" where
  "demo_equeue = \<lparr>eq_mem = replicate 128 0, kernel_equeues = [7 \<mapsto> 0], kernel_equeue_next = 8,
     kernel_equeue_events = [((7, 1), event_default\<lparr>ev_triggered := True, ev_udata := 9, ev_fflags := 2\<rparr>),
       ((8, 1), event_default\<lparr>ev_triggered := True\<rparr>), ((7, 2), event_default)],
     kernel_sockets = {}, open_files = {}, equeue_wakes = [], gpu_pending = False\<rparr>"

lemma demo_pending:
  "pending_events 7 4 demo_equeue = [(1, event_default\<lparr>ev_triggered := True, ev_udata := 9, ev_fflags := 2\<rparr>)]"
  by (simp add: pending_events_def demo_equeue_def event_default_def)

theorem equeue_delivery_witness:
  "\<exists>s'. deliver_events test_memory 7 0x40 0x10 (pending_events 7 4 demo_equeue) demo_equeue = (SCE_OK, s')
    \<and> map_option le_word (gm_read test_memory 0x10 4 (eq_mem s')) = Some (1 :: u32)"
proof -
  have "fst (deliver_events test_memory 7 0x40 0x10 (pending_events 7 4 demo_equeue) demo_equeue) = SCE_OK"
    unfolding demo_pending
    by (simp add: deliver_events_def write_kernel_event_def test_memory_def tm_write_def
        demo_equeue_def kernel_event_bytes_def clear_trigger_def put_event_def event_default_def Let_def)
  then obtain s' where s': "deliver_events test_memory 7 0x40 0x10 (pending_events 7 4 demo_equeue) demo_equeue
      = (SCE_OK, s')" by (metis prod.collapse)
  have "disjoint_spans 0x10 4 (0x40 + of_nat j * 0x20) 32" if "j < length (pending_events 7 4 demo_equeue)" for j
    using that by (simp add: demo_pending disjoint_spans_def)
  from equeue_delivery [OF tm.guest_memory_axioms _ refl s' _ this] s' show ?thesis
    by (simp add: demo_pending)
qed

text \<open>The wait on a queue: with a null timeout it never reports
  \<open>ETIMEDOUT\<close>; with a timeout only at a turn whose clock has reached the guest's
  deadline; and when events are pending the first time its readiness is tested,
  it returns their delivery at once, even if the timeout is zero or has expired,
  so a triggered event is never traded for a time-out.\<close>

theorem equeue_wait_contract:
  assumes "kernel_equeues s eq \<noteq> None" and "ptr \<noteq> 0" and "num \<noteq> 0"
    and "read_deadline E tp now (eq_mem s) = Some dl"
  shows "(dl = None \<longrightarrow> hle_wait_equeue E now ts [eq, ptr, num, out, tp] s \<noteq> Some (SCE_ETIMEDOUT, s'))
    \<and> (hle_wait_equeue E now ts [eq, ptr, num, out, tp] s = Some (SCE_ETIMEDOUT, s') \<longrightarrow>
        (\<exists>d. dl = Some d \<and> (\<exists>t\<in>set ts. d \<le> sl_now t)))
    \<and> (\<forall>t us w ws. ts = t # us \<longrightarrow> et_wakes t = w # ws
        \<longrightarrow> kernel_equeues (wk_others w (slice_entry t s)) eq \<noteq> None
        \<longrightarrow> pending_events eq num (wk_others w (slice_entry t s)) \<noteq> []
        \<longrightarrow> hle_wait_equeue E now ts [eq, ptr, num, out, tp] s
          = Some (deliver_events E eq ptr out (pending_events eq num (wk_others w (slice_entry t s)))
              (wk_others w (slice_entry t s))))"
proof -
  have r: "hle_wait_equeue E now ts [eq, ptr, num, out, tp] s = run_slices (equeue_wait_turn E eq ptr num out dl) ts s"
    using assms by (auto simp: hle_wait_equeue_def arg_def)
  have "hle_wait_equeue E now ts [eq, ptr, num, out, tp] s
      = Some (deliver_events E eq ptr out (pending_events eq num (wk_others w (slice_entry t s)))
          (wk_others w (slice_entry t s)))"
    if t: "ts = t # us" "et_wakes t = w # ws" "kernel_equeues (wk_others w (slice_entry t s)) eq \<noteq> None"
      "pending_events eq num (wk_others w (slice_entry t s)) \<noteq> []" for t us w ws
  proof -
    obtain code s1 where d: "deliver_events E eq ptr out (pending_events eq num (wk_others w (slice_entry t s)))
        (wk_others w (slice_entry t s)) = (code, s1)"
      by (cases "deliver_events E eq ptr out (pending_events eq num (wk_others w (slice_entry t s)))
        (wk_others w (slice_entry t s))")
    have "equeue_ready E eq ptr num out (wk_others w (slice_entry t s)) = ((True, Some code, False), s1)"
      using t d by (auto simp: equeue_ready_def)
    then have "equeue_wait_turn E eq ptr num out dl t s = Returned code s1"
      using t(2) by (simp add: equeue_wait_turn_def wait_until_def)
    then show ?thesis using r t(1) d by simp
  qed
  then show ?thesis
    using r equeue_wait.null_timeout_never_times_out [of E eq ptr num out ts s SCE_ETIMEDOUT s']
      equeue_wait.timeout_at_deadline [of E eq ptr num out dl ts s s'] by auto
qed

definition demo_equeue_slice :: "byte list equeue_state equeue_slice" where
  "demo_equeue_slice = \<lparr>sl_others = id, sl_terminating = False, sl_pending = False, sl_deliver = id,
     sl_now = 9, et_park = 9, et_wakes = [\<lparr>wk_others = id, wk_terminating = False, wk_now = 9\<rparr>]\<rparr>"

theorem equeue_wait_contract_witness:
  "\<exists>s'. hle_wait_equeue test_memory 5 [demo_equeue_slice] [7, 0x40, 4, 0x10, 0x20] demo_equeue = Some (SCE_OK, s')"
proof -
  have q: "kernel_equeues demo_equeue 7 \<noteq> None" by (simp add: demo_equeue_def)
  have "le_word (replicate 4 0) = (0 :: u32)" by (simp add: numeral_eq_Suc)
  then have rd: "read_deadline test_memory 0x20 5 (eq_mem demo_equeue) = Some (Some 5)"
    by (simp add: read_deadline_def test_memory_def tm_read_def demo_equeue_def from_micros_def
        u32_to_u64_def Let_def)
  have e: "slice_entry demo_equeue_slice demo_equeue = demo_equeue"
    and w: "et_wakes demo_equeue_slice = \<lparr>wk_others = id, wk_terminating = False, wk_now = 9\<rparr> # []"
    by (simp_all add: slice_entry_def deliver_at_wait_slice_def demo_equeue_slice_def)
  have "hle_wait_equeue test_memory 5 [demo_equeue_slice] [7, 0x40, 4, 0x10, 0x20] demo_equeue
      = Some (deliver_events test_memory 7 0x40 0x10 (pending_events 7 4 demo_equeue) demo_equeue)"
    using equeue_wait_contract [OF q _ _ rd, of "0x40" 4 "[demo_equeue_slice]" "0x10"] q w e
    by (simp add: demo_pending)
  then show ?thesis using equeue_delivery_witness by auto
qed

end
