(* ===== verification/Pow2_Align.thy ===== *)
theory Pow2_Align
  imports Raeen_Prelude
begin

text \<open>
  Powers of two and the alignment idiom \<open>(x + a - 1) & !(a - 1)\<close> that the
  allocators share: a power-of-two word is some \<open>2 ^ k\<close>, and masking with
  \<open>!(a - 1)\<close> rounds down to a multiple of \<open>a\<close>.
\<close>

definition is_power_of_two :: "u64 \<Rightarrow> bool" where
  "is_power_of_two n \<longleftrightarrow> n \<noteq> 0 \<and> and n (n - 1) = 0"

definition mask_down :: "u64 \<Rightarrow> u64 \<Rightarrow> u64" where
  "mask_down al x = and x (not (al - 1))"

lemma nat_power_of_two:
  "0 < n \<Longrightarrow> and n (n - 1) = 0 \<Longrightarrow> \<exists>k. n = 2 ^ k" for n :: nat
proof (induction n rule: less_induct)
  case (less n)
  show ?case
  proof (cases "even n")
    case True
    then obtain m where m: "n = 2 * m" by blast
    then have pos: "0 < m" using less.prems(1) by simp
    have half: "(2 * m - 1) div 2 = m - 1" using pos by simp
    have "and (2 * m) (2 * m - 1) = 2 * and m (m - 1)"
      using pos by (subst and_nat_rec) (simp only: half, simp)
    then have "and m (m - 1) = 0" using less.prems(2) m by simp
    then obtain k where "m = 2 ^ k" using less.IH [of m] pos m by auto
    then show ?thesis using m by (intro exI [of _ "Suc k"]) simp
  next
    case False
    then obtain m where m: "n = 2 * m + 1" by (blast elim: oddE)
    have "and (2 * m + 1) (2 * m) = 2 * m"
      by (subst and_nat_rec) simp
    then have "m = 0" using less.prems(2) m by simp
    then show ?thesis using m by (intro exI [of _ 0]) simp
  qed
qed

lemma power_of_two_iff: "is_power_of_two al \<Longrightarrow> \<exists>k<64. unat al = 2 ^ k"
proof -
  assume p: "is_power_of_two al"
  then have nz: "al \<noteq> 0" by (simp add: is_power_of_two_def)
  have "and (unat al) (unat al - 1) = unat (and al (al - 1))"
    using nz by (simp add: unsigned_and_eq unat_minus_one)
  also have "\<dots> = 0" using p by (simp add: is_power_of_two_def)
  finally obtain k where k: "unat al = 2 ^ k" using nat_power_of_two [of "unat al"] nz
    by (auto simp: unat_gt_0)
  have "(2::nat) ^ k < 2 ^ 64" using k unat_u64_lt [of al] by simp
  then have "k < 64" by (rule power_less_imp_less_exp [rotated]) simp
  then show ?thesis using k by blast
qed

lemma mask_down_unat:
  assumes "unat al = 2 ^ k" and "k < 64"
  shows "unat (mask_down al x) = unat x - unat x mod unat al"
proof -
  have "unat (2 ^ k :: u64) = 2 ^ k"
  proof -
    have "(2::nat) ^ k < 2 ^ 64" using assms(2) by (rule power_strict_increasing) simp
    then have "unat (of_nat (2 ^ k) :: u64) = 2 ^ k" by (simp add: unat_of_nat take_bit_nat_def del: of_nat_power)
    then show ?thesis by simp
  qed
  then have al: "al = 2 ^ k" using assms(1) by (simp add: word_unat_eq_iff)
  have m: "al - 1 = mask k" using al by (simp add: mask_eq_decr_exp)
  have "mask_down al x + and x (mask k) = or (and x (not (mask k))) (and x (mask k))"
    unfolding mask_down_def m by (rule disjunctive_add) (auto simp: bit_simps)
  also have "\<dots> = x" by (rule bit_word_eqI) (auto simp: bit_simps)
  finally have "mask_down al x = x - and x (mask k)" by (simp add: eq_diff_eq)
  moreover have "and x (mask k) \<le> x" by (rule word_and_le2)
  ultimately have "unat (mask_down al x) = unat x - unat (and x (mask k))" by (simp add: unat_sub)
  moreover have "unat (and x (mask k)) = unat x mod 2 ^ k"
  proof -
    have "unat (take_bit k x) = take_bit k (unat x)" by (rule unsigned_take_bit_eq)
    then show ?thesis by (simp only: take_bit_eq_mask [symmetric]) (simp only: take_bit_nat_def)
  qed
  ultimately show ?thesis using assms by simp
qed

text \<open>Rounding up: the next multiple, at most \<open>a - 1\<close> beyond.\<close>

lemma round_up_unat:
  assumes "is_power_of_two al" and "unat x + unat al \<le> 18446744073709551616"
  shows "unat x \<le> unat (mask_down al (x + (al - 1)))"
    "unat (mask_down al (x + (al - 1))) < unat x + unat al"
    "unat (mask_down al (x + (al - 1))) mod unat al = 0"
proof -
  obtain k where k: "k < 64" "unat al = 2 ^ k" using power_of_two_iff [OF assms(1)] by blast
  have pos: "0 < unat al" using k by simp
  have "unat (al - 1) = unat al - 1" using pos by (intro unat_minus_one) (auto simp: unat_gt_0)
  then have s: "unat (x + (al - 1)) = unat x + unat al - 1"
    using pos assms(2) by (simp add: unat_add_no_wrap)
  let ?y = "unat x + unat al - 1"
  have e: "unat (mask_down al (x + (al - 1))) = ?y - ?y mod unat al"
    using mask_down_unat [OF k(2,1), of "x + (al - 1)"] s by simp
  have "?y mod unat al < unat al" "?y mod unat al \<le> ?y" using pos by simp_all
  then show "unat x \<le> unat (mask_down al (x + (al - 1)))"
    "unat (mask_down al (x + (al - 1))) < unat x + unat al" using e pos by linarith+
  show "unat (mask_down al (x + (al - 1))) mod unat al = 0"
    unfolding e by (simp add: minus_mod_eq_mult_div)
qed

end
