(* ===== verification/Libc_Mspace.thy ===== *)
theory Libc_Mspace
  imports Guest_Memory Pow2_Align "HOL-Library.Product_Lexorder" "HOL-Library.Multiset"
begin

text \<open>
  The heaps a title creates over its own memory (\<open>sceLibcMspace*\<close> in
  \<open>crates/raeen-hle/src/libsce_libc_internal.rs\<close>): a bump pointer, a sorted and
  coalesced free list searched first-fit, and the table of live allocations
  keyed by address.  Arithmetic is that of the release profile, which wraps.
  The theory proves that under a stated size bound allocations are disjoint,
  inside the heap and aligned, that free blocks and allocations never overlap,
  and shows what happens without the bound.
\<close>

section \<open>State\<close>

text \<open>The name is kept as the raw bytes before the lossy UTF-8 decoding.\<close>

record libc_mspace =
  ms_base :: u64
  ms_capacity :: u64
  ms_next_offset :: u64
  ms_peak_offset :: u64
  ms_active_bytes :: u64
  ms_name :: "byte list"
  ms_free_list :: "(u64 \<times> u64) list"

record mspace_allocation =
  ma_mspace :: u64
  ma_size :: u64

record 'm mspace_state =
  ls_mem :: 'm
  libc_mspaces :: "u64 \<rightharpoonup> libc_mspace"
  libc_mspace_allocations :: "u64 \<rightharpoonup> mspace_allocation"

section \<open>The free list\<close>

fun merge_blocks :: "(u64 \<times> u64) list \<Rightarrow> (u64 \<times> u64) list" where
  "merge_blocks [] = []"
| "merge_blocks [b] = [b]"
| "merge_blocks ((o1, s1) # (o2, s2) # bs) =
     (if o1 + s1 = o2 then merge_blocks ((o1, s1 + s2) # bs) else (o1, s1) # merge_blocks ((o2, s2) # bs))"

definition insert_and_coalesce :: "(u64 \<times> u64) list \<Rightarrow> u64 \<Rightarrow> u64 \<Rightarrow> (u64 \<times> u64) list" where
  "insert_and_coalesce bs off sz = (if sz = 0 then bs else merge_blocks (sort (bs @ [(off, sz)])))"

text \<open>The first block an aligned request fits in: its index, offset, size and the
  aligned offset.\<close>

definition aligned_offset :: "u64 \<Rightarrow> u64 \<Rightarrow> u64 \<Rightarrow> u64" where
  "aligned_offset base alignment block_off = mask_down alignment (base + block_off + alignment - 1) - base"

fun choose_block ::
  "u64 \<Rightarrow> u64 \<Rightarrow> u64 \<Rightarrow> nat \<Rightarrow> (u64 \<times> u64) list \<Rightarrow> (nat \<times> u64 \<times> u64 \<times> u64) option" where
  "choose_block base alignment sz index [] = None"
| "choose_block base alignment sz index ((block_off, block_size) # bs) =
     (let aligned_off = aligned_offset base alignment block_off in
      if aligned_off + sz \<le> block_off + block_size then Some (index, block_off, block_size, aligned_off)
      else choose_block base alignment sz (index + 1) bs)"

definition remove_at :: "nat \<Rightarrow> 'a list \<Rightarrow> 'a list" where
  "remove_at i xs = take i xs @ drop (i + 1) xs"

section \<open>The calls\<close>

fun read_cstring_from :: "('m, 'x) mem_ops_scheme \<Rightarrow> u64 \<Rightarrow> nat \<Rightarrow> nat \<Rightarrow> byte list \<Rightarrow> 'm \<Rightarrow> byte list option" where
  "read_cstring_from E address offset 0 bytes m = None"
| "read_cstring_from E address offset (Suc k) bytes m =
     (case gm_read E (address + of_nat offset) 1 m of
        None \<Rightarrow> None
      | Some b \<Rightarrow> if b ! 0 = 0 then Some bytes
          else read_cstring_from E address (offset + 1) k (bytes @ [b ! 0]) m)"

definition read_cstring :: "('m, 'x) mem_ops_scheme \<Rightarrow> u64 \<Rightarrow> nat \<Rightarrow> 'm \<Rightarrow> byte list option" where
  "read_cstring E address limit m =
     (if address = 0 then None else read_cstring_from E address 0 limit [] m)"

definition hle_mspace_create :: "('m, 'x) mem_ops_scheme \<Rightarrow> u64 list \<Rightarrow> 'm mspace_state \<Rightarrow> u64 \<times> 'm mspace_state" where
  "hle_mspace_create E args s =
     (let name_address = arg args 0; base = arg args 1; capacity = arg args 2; flag = arg args 3 in
      if base = 0 \<or> capacity < 0x100 \<or> flag > 1 then (0, s)
      else let name = (if name_address = 0 then []
                 else case read_cstring E name_address 256 (ls_mem s) of None \<Rightarrow> [] | Some bs \<Rightarrow> bs) in
        (base, s\<lparr>libc_mspaces := (libc_mspaces s)(base \<mapsto>
           \<lparr>ms_base = base, ms_capacity = capacity, ms_next_offset = 0x100, ms_peak_offset = 0x100,
            ms_active_bytes = 0, ms_name = name, ms_free_list = []\<rparr>)\<rparr>))"

definition hle_mspace_destroy :: "u64 list \<Rightarrow> 'm mspace_state \<Rightarrow> u64 \<times> 'm mspace_state" where
  "hle_mspace_destroy args s =
     (let mspace = arg args 0 in
      if libc_mspaces s mspace = None then (0, s)
      else (1, s\<lparr>libc_mspaces := (libc_mspaces s)(mspace := None),
        libc_mspace_allocations := (\<lambda>a. case libc_mspace_allocations s a of
            None \<Rightarrow> None | Some x \<Rightarrow> if ma_mspace x \<noteq> mspace then Some x else None)\<rparr>))"

definition record_block ::
  "u64 \<Rightarrow> libc_mspace \<Rightarrow> u64 \<Rightarrow> u64 \<Rightarrow> 'm mspace_state \<Rightarrow> u64 \<times> 'm mspace_state" where
  "record_block mspace st address sz s =
     (address, s\<lparr>libc_mspaces := (libc_mspaces s)(mspace \<mapsto> st),
        libc_mspace_allocations := (libc_mspace_allocations s)(address \<mapsto> \<lparr>ma_mspace = mspace, ma_size = sz\<rparr>)\<rparr>)"

text \<open>Reuse of a block: the alignment gap and the tail go back to the free list.\<close>

definition carve_block :: "u64 \<Rightarrow> nat \<times> u64 \<times> u64 \<times> u64 \<Rightarrow> libc_mspace \<Rightarrow> libc_mspace" where
  "carve_block sz = (\<lambda>(index, block_off, block_size, aligned_off) st.
     let fl = remove_at index (ms_free_list st);
         block_end = block_off + block_size;
         alloc_end = aligned_off + sz;
         fl1 = (if aligned_off > block_off then insert_and_coalesce fl block_off (aligned_off - block_off) else fl);
         fl2 = (if block_end > alloc_end then insert_and_coalesce fl1 alloc_end (block_end - alloc_end) else fl1) in
     st\<lparr>ms_free_list := fl2, ms_active_bytes := saturating_add (ms_active_bytes st) sz\<rparr>)"

text \<open>The bump: the aligned offset and its end, or a refusal.\<close>

definition bump_range :: "u64 \<Rightarrow> u64 \<Rightarrow> libc_mspace \<Rightarrow> (u64 \<times> u64) option" where
  "bump_range alignment sz st =
     (case map_option (mask_down alignment) (checked_add (ms_next_offset st) (alignment - 1)) of
        None \<Rightarrow> None
      | Some aligned \<Rightarrow>
          (case checked_add aligned sz of
             None \<Rightarrow> None
           | Some e \<Rightarrow> if e > ms_capacity st then None else Some (aligned, e)))"

definition hle_mspace_memalign :: "u64 list \<Rightarrow> 'm mspace_state \<Rightarrow> u64 \<times> 'm mspace_state" where
  "hle_mspace_memalign args s =
     (let mspace = arg args 0; alignment = max (arg args 1) 8; sz = arg args 2 in
      if sz = 0 then (0, s)
      else if \<not> is_power_of_two alignment then (0, s)
      else case libc_mspaces s mspace of
          None \<Rightarrow> (0, s)
        | Some st \<Rightarrow>
            let base = ms_base st in
            (case choose_block base alignment sz 0 (ms_free_list st) of
               Some (index, block_off, block_size, aligned_off) \<Rightarrow>
                 record_block mspace (carve_block sz (index, block_off, block_size, aligned_off) st)
                   (base + aligned_off) sz s
             | None \<Rightarrow>
                 (case bump_range alignment sz st of
                    None \<Rightarrow> (0, s)
                  | Some (aligned, e) \<Rightarrow>
                      (case checked_add base aligned of
                         None \<Rightarrow> (0, s)
                       | Some address \<Rightarrow>
                           record_block mspace (st\<lparr>ms_next_offset := e, ms_peak_offset := max (ms_peak_offset st) e,
                             ms_active_bytes := saturating_add (ms_active_bytes st) sz\<rparr>) address sz s))))"

definition hle_mspace_malloc :: "u64 list \<Rightarrow> 'm mspace_state \<Rightarrow> u64 \<times> 'm mspace_state" where
  "hle_mspace_malloc args s = hle_mspace_memalign [arg args 0, 16, max (arg args 1) 1] s"

definition checked_mul :: "u64 \<Rightarrow> u64 \<Rightarrow> u64 option" where
  "checked_mul a b = (if unat a * unat b < 18446744073709551616 then Some (a * b) else None)"

definition hle_mspace_calloc :: "('m, 'x) mem_ops_scheme \<Rightarrow> u64 list \<Rightarrow> 'm mspace_state \<Rightarrow> u64 \<times> 'm mspace_state" where
  "hle_mspace_calloc E args s =
     (case checked_mul (arg args 1) (arg args 2) of
        None \<Rightarrow> (0, s)
      | Some nbytes \<Rightarrow>
          let (addr, s1) = hle_mspace_malloc [arg args 0, nbytes] s in
          (addr, if addr \<noteq> 0 \<and> nbytes \<noteq> 0
             then s1\<lparr>ls_mem := snd (gm_write E addr (replicate (unat nbytes) 0) (ls_mem s1))\<rparr> else s1))"

definition hle_mspace_free :: "u64 list \<Rightarrow> 'm mspace_state \<Rightarrow> u64 \<times> 'm mspace_state" where
  "hle_mspace_free args s =
     (let mspace = arg args 0; address = arg args 1 in
      case libc_mspace_allocations s address of
        None \<Rightarrow> (0, s)
      | Some al \<Rightarrow>
          if ma_mspace al \<noteq> mspace then (0, s)
          else let s1 = s\<lparr>libc_mspace_allocations := (libc_mspace_allocations s)(address := None)\<rparr> in
            (1, case libc_mspaces s1 mspace of
                None \<Rightarrow> s1
              | Some st \<Rightarrow> s1\<lparr>libc_mspaces := (libc_mspaces s1)(mspace \<mapsto>
                  st\<lparr>ms_active_bytes := saturating_sub (ms_active_bytes st) (ma_size al),
                     ms_free_list := insert_and_coalesce (ms_free_list st) (address - ms_base st) (ma_size al)\<rparr>)\<rparr>))"

text \<open>The copy of a resize, in chunks of a page.\<close>

function copy_chunks ::
  "('m, 'x) mem_ops_scheme \<Rightarrow> u64 \<Rightarrow> u64 \<Rightarrow> u64 \<Rightarrow> u64 \<Rightarrow> 'm \<Rightarrow> bool \<times> 'm" where
  "copy_chunks E src dst offset remaining m =
     (if remaining = 0 then (True, m)
      else let chunk = min remaining 4096 in
        case gm_read E (src + offset) (unat chunk) m of
          None \<Rightarrow> (False, m)
        | Some bs \<Rightarrow>
            let (ok, m1) = gm_write E (dst + offset) bs m in
            if \<not> ok then (False, m1) else copy_chunks E src dst (offset + chunk) (remaining - chunk) m1)"
  by pat_completeness auto

termination
  by (relation "measure (\<lambda>(E, src, dst, offset, remaining, m). unat remaining)")
    (auto simp: unat_sub word_less_nat_alt min_def unat_gt_0 word_le_nat_alt)

declare copy_chunks.simps [simp del]

definition hle_mspace_realloc :: "('m, 'x) mem_ops_scheme \<Rightarrow> u64 list \<Rightarrow> 'm mspace_state \<Rightarrow> u64 \<times> 'm mspace_state" where
  "hle_mspace_realloc E args s =
     (let mspace = arg args 0; ptr = arg args 1; sz = arg args 2 in
      if ptr = 0 then hle_mspace_malloc [mspace, sz] s
      else if sz = 0 then (0, snd (hle_mspace_free [mspace, ptr] s))
      else case libc_mspace_allocations s ptr of
          None \<Rightarrow> (0, s)
        | Some al \<Rightarrow>
            if ma_mspace al \<noteq> mspace then (0, s)
            else let (new_ptr, s1) = hle_mspace_malloc [mspace, sz] s in
              if new_ptr = 0 then (0, s1)
              else let (ok, m1) = copy_chunks E ptr new_ptr 0 (min (ma_size al) sz) (ls_mem s1);
                       s2 = s1\<lparr>ls_mem := m1\<rparr> in
                if \<not> ok then (0, snd (hle_mspace_free [mspace, new_ptr] s2))
                else (new_ptr, snd (hle_mspace_free [mspace, ptr] s2)))"

definition hle_mspace_malloc_usable_size :: "u64 list \<Rightarrow> 'm mspace_state \<Rightarrow> u64" where
  "hle_mspace_malloc_usable_size args s =
     (case libc_mspace_allocations s (arg args 0) of None \<Rightarrow> 0 | Some al \<Rightarrow> ma_size al)"

fun write_fields :: "('m, 'x) mem_ops_scheme \<Rightarrow> u64 \<Rightarrow> (u64 \<times> u64) list \<Rightarrow> 'm \<Rightarrow> bool \<times> 'm" where
  "write_fields E output [] m = (True, m)"
| "write_fields E output ((offset, val) # fs) m =
     (let (ok, m1) = gm_write E (output + offset) (u64_bytes val) m in
      if \<not> ok then (False, m1) else write_fields E output fs m1)"

definition hle_mspace_malloc_stats :: "('m, 'x) mem_ops_scheme \<Rightarrow> u64 list \<Rightarrow> 'm mspace_state \<Rightarrow> u64 \<times> 'm mspace_state" where
  "hle_mspace_malloc_stats E args s =
     (case libc_mspaces s (arg args 0) of
        None \<Rightarrow> (0, s)
      | Some st \<Rightarrow>
          if arg args 1 = 0 then (0, s)
          else let (ok, m1) = write_fields E (arg args 1)
                 [(0x08, ms_capacity st), (0x10, ms_capacity st), (0x18, ms_peak_offset st),
                  (0x20, ms_active_bytes st)] (ls_mem s) in
            (if ok then SCE_OK else SCE_EFAULT, s\<lparr>ls_mem := m1\<rparr>))"


section \<open>Free lists as sets of cells\<close>

definition cells :: "u64 \<times> u64 \<Rightarrow> nat set" where
  "cells b = {unat (fst b) ..< unat (fst b) + unat (snd b)}"

definition list_cells :: "(u64 \<times> u64) list \<Rightarrow> nat set" where
  "list_cells bs = (\<Union>b\<in>set bs. cells b)"

text \<open>Inside \<open>[lo, hi)\<close>, in order and, when \<open>g = 1\<close>, with a gap between
  neighbours.\<close>

definition in_span :: "nat \<Rightarrow> nat \<Rightarrow> u64 \<times> u64 \<Rightarrow> bool" where
  "in_span lo hi b \<longleftrightarrow> 0 < unat (snd b) \<and> lo \<le> unat (fst b) \<and> unat (fst b) + unat (snd b) \<le> hi"

definition blocks_ok :: "nat \<Rightarrow> nat \<Rightarrow> nat \<Rightarrow> (u64 \<times> u64) list \<Rightarrow> bool" where
  "blocks_ok g lo hi bs \<longleftrightarrow> (\<forall>b\<in>set bs. in_span lo hi b) \<and>
     sorted_wrt (\<lambda>b c. unat (fst b) + unat (snd b) + g \<le> unat (fst c)) bs"

lemma list_cells_simps [simp]:
  "list_cells [] = {}" "list_cells (b # bs) = cells b \<union> list_cells bs"
  "list_cells (xs @ ys) = list_cells xs \<union> list_cells ys"
  by (auto simp: list_cells_def)

lemma blocks_ok_Nil [simp]: "blocks_ok g lo hi []"
  by (simp add: blocks_ok_def)

lemma blocks_ok_Cons:
  "blocks_ok g lo hi (b # bs) \<longleftrightarrow> in_span lo hi b \<and> blocks_ok g lo hi bs \<and>
     (\<forall>c\<in>set bs. unat (fst b) + unat (snd b) + g \<le> unat (fst c))"
  by (auto simp: blocks_ok_def)

lemma blocks_ok_weaken: "blocks_ok g lo hi bs \<Longrightarrow> h \<le> g \<Longrightarrow> hi \<le> hi' \<Longrightarrow> blocks_ok h lo hi' bs"
  by (induction bs) (fastforce simp: blocks_ok_Cons in_span_def)+

lemma blocks_ok_sorted:
  assumes "blocks_ok g lo hi bs" shows "sorted bs"
proof -
  have "sorted_wrt (\<le>) bs"
    using assms by (induction bs) (fastforce simp: blocks_ok_Cons in_span_def less_eq_prod_def word_less_nat_alt)+
  then show ?thesis .
qed

lemma cells_disjoint_ordered:
  assumes "in_span lo hi b" "in_span lo hi c" "cells b \<inter> cells c = {}" "b \<le> c"
  shows "unat (fst b) + unat (snd b) \<le> unat (fst c)"
proof (rule ccontr)
  assume "\<not> ?thesis"
  moreover have "unat (fst b) \<le> unat (fst c)" using assms(4) by (auto simp: less_eq_prod_def word_le_nat_alt word_less_nat_alt)
  ultimately have "unat (fst c) \<in> cells b \<inter> cells c" using assms(1,2) by (auto simp: cells_def in_span_def)
  then show False using assms(3) by simp
qed

lemma sort_snoc: "sorted bs \<Longrightarrow> sort (bs @ [b]) = insort b bs" for b :: "u64 \<times> u64"
  by (rule properties_for_sort) (auto simp: sorted_insort)

lemma list_cells_insort [simp]: "list_cells (insort b bs) = cells b \<union> list_cells bs" for b :: "u64 \<times> u64"
  by (auto simp: list_cells_def set_insort_key)

lemma blocks_ok_insort:
  assumes "blocks_ok 0 lo hi bs" "in_span lo hi b" "cells b \<inter> list_cells bs = {}"
  shows "blocks_ok 0 lo hi (insort b bs)"
  using assms
proof (induction bs)
  case Nil
  then show ?case by (simp add: blocks_ok_Cons)
next
  case (Cons c bs)
  have c: "in_span lo hi c" "blocks_ok 0 lo hi bs" "\<forall>d\<in>set bs. unat (fst c) + unat (snd c) \<le> unat (fst d)"
    using Cons.prems(1) by (simp_all add: blocks_ok_Cons)
  have disj: "cells b \<inter> cells c = {}" "cells b \<inter> list_cells bs = {}" using Cons.prems(3) by auto
  show ?case
  proof (cases "b \<le> c")
    case True
    then show ?thesis
      using cells_disjoint_ordered [OF Cons.prems(2) c(1) disj(1) True] c Cons.prems(2)
      by (fastforce simp: blocks_ok_Cons in_span_def)
  next
    case False
    have "unat (fst c) + unat (snd c) \<le> unat (fst b)"
      using cells_disjoint_ordered [OF c(1) Cons.prems(2)] disj(1) False by (simp add: Int_commute)
    then show ?thesis
      using Cons.IH [OF c(2) Cons.prems(2) disj(2)] c False by (auto simp: blocks_ok_Cons set_insort_key)
  qed
qed

text \<open>Merging keeps the cells and leaves a gap between neighbours.\<close>

lemma merge_blocks_ok:
  assumes "blocks_ok 0 lo hi bs" "hi \<le> 18446744073709551615"
  shows "blocks_ok 1 lo hi (merge_blocks bs) \<and> list_cells (merge_blocks bs) = list_cells bs \<and>
    (bs \<noteq> [] \<longrightarrow> (\<forall>c\<in>set (merge_blocks bs). unat (fst (hd bs)) \<le> unat (fst c)))"
  using assms
proof (induction bs rule: merge_blocks.induct)
  case (3 o1 s1 o2 s2 bs)
  have ok: "in_span lo hi (o1, s1)" "in_span lo hi (o2, s2)" "blocks_ok 0 lo hi bs"
    "unat o1 + unat s1 \<le> unat o2" "\<forall>c\<in>set bs. unat o2 + unat s2 \<le> unat (fst c)"
    using "3.prems"(1) by (simp_all add: blocks_ok_Cons)
  have e: "unat (o1 + s1) = unat o1 + unat s1"
    using ok(1) "3.prems"(2) by (intro unat_add_no_wrap) (simp add: in_span_def)
  show ?case
  proof (cases "o1 + s1 = o2")
    case True
    then have e2: "unat o2 = unat o1 + unat s1" using e by simp
    have "unat (s1 + s2) = unat s1 + unat s2"
      using ok(2) e2 "3.prems"(2) by (intro unat_add_no_wrap) (simp add: in_span_def)
    then have "blocks_ok 0 lo hi ((o1, s1 + s2) # bs)" "cells (o1, s1 + s2) = cells (o1, s1) \<union> cells (o2, s2)"
      using ok e2 by (auto simp: blocks_ok_Cons in_span_def cells_def)
    then show ?thesis using "3.IH"(1) [OF True] "3.prems"(2) True by auto
  next
    case False
    then have "unat o1 + unat s1 \<noteq> unat o2" using e by (metis word_unat_eq_iff)
    then have "unat o1 + unat s1 + 1 \<le> unat o2" using ok(4) by simp
    moreover have "blocks_ok 0 lo hi ((o2, s2) # bs)" using ok by (simp add: blocks_ok_Cons)
    ultimately show ?thesis
      using "3.IH"(2) [OF False] "3.prems"(2) ok(1) False by (fastforce simp: blocks_ok_Cons)
  qed
qed (simp_all add: blocks_ok_Cons)

lemma insert_and_coalesce_ok:
  assumes "blocks_ok 1 lo hi bs" "hi \<le> 18446744073709551615"
    and "sz = 0 \<or> in_span lo hi (off, sz)" "cells (off, sz) \<inter> list_cells bs = {}"
  shows "blocks_ok 1 lo hi (insert_and_coalesce bs off sz)"
    "list_cells (insert_and_coalesce bs off sz) = cells (off, sz) \<union> list_cells bs"
proof -
  have w: "blocks_ok 0 lo hi bs" using blocks_ok_weaken [OF assms(1)] by simp
  have s: "sort (bs @ [(off, sz)]) = insort (off, sz) bs" using sort_snoc [OF blocks_ok_sorted [OF w]] .
  have "blocks_ok 0 lo hi (insort (off, sz) bs)" if "sz \<noteq> 0"
    using blocks_ok_insort [OF w _ assms(4)] assms(3) that by blast
  then show "blocks_ok 1 lo hi (insert_and_coalesce bs off sz)"
    "list_cells (insert_and_coalesce bs off sz) = cells (off, sz) \<union> list_cells bs"
    using merge_blocks_ok [OF _ assms(2), of lo "insort (off, sz) bs"] assms(1) s
    by (auto simp: insert_and_coalesce_def cells_def)
qed


text \<open>Taking a block out of the list.\<close>

lemma remove_at_split:
  assumes "i < length xs"
  shows "xs = take i xs @ xs ! i # drop (i + 1) xs" "remove_at i xs = take i xs @ drop (i + 1) xs"
  using id_take_nth_drop [OF assms] by (simp_all add: remove_at_def)

lemma remove_at_ok:
  assumes "blocks_ok g lo hi bs" "i < length bs"
  shows "blocks_ok g lo hi (remove_at i bs)"
    "list_cells bs = cells (bs ! i) \<union> list_cells (remove_at i bs)"
    "cells (bs ! i) \<inter> list_cells (remove_at i bs) = {}"
proof -
  obtain xs ys where s: "bs = xs @ bs ! i # ys" "remove_at i bs = xs @ ys"
    using remove_at_split [OF assms(2)] by metis
  have o: "blocks_ok g lo hi (xs @ bs ! i # ys)" using assms(1) s(1) by simp
  show "blocks_ok g lo hi (remove_at i bs)" using o unfolding s(2) by (auto simp: blocks_ok_def sorted_wrt_append)
  show "list_cells bs = cells (bs ! i) \<union> list_cells (remove_at i bs)"
    by (subst s(1)) (auto simp: s(2))
  show "cells (bs ! i) \<inter> list_cells (remove_at i bs) = {}"
    using o unfolding s(2) by (fastforce simp: blocks_ok_def sorted_wrt_append list_cells_def cells_def)
qed

lemma choose_block_Some:
  "choose_block base al sz i0 bs = Some (i, bo, bz, ao) \<Longrightarrow>
     i0 \<le> i \<and> i - i0 < length bs \<and> bs ! (i - i0) = (bo, bz) \<and> ao = aligned_offset base al bo \<and> ao + sz \<le> bo + bz"
proof (induction base al sz i0 bs rule: choose_block.induct)
  case (2 base al sz i0 bo' bz' bs)
  show ?case
  proof (cases "aligned_offset base al bo' + sz \<le> bo' + bz'")
    case True
    then show ?thesis using "2.prems" by (auto simp: Let_def)
  next
    case False
    then have "choose_block base al sz (i0 + 1) bs = Some (i, bo, bz, ao)"
      using "2.prems" by (simp add: Let_def)
    note ih = "2.IH" [OF refl False this]
    then have "i - i0 = Suc (i - (i0 + 1))" by linarith
    then have "((bo', bz') # bs) ! (i - i0) = (bo, bz)" "i - i0 < length ((bo', bz') # bs)" using ih by auto
    then show ?thesis using ih by (meson add_leD1)
  qed
qed simp

lemma aligned_offset_unat:
  assumes "is_power_of_two al" "unat base + unat bo + unat al \<le> 18446744073709551616"
  shows "unat bo \<le> unat (aligned_offset base al bo)" "unat (aligned_offset base al bo) < unat bo + unat al"
    "(unat base + unat (aligned_offset base al bo)) mod unat al = 0"
proof -
  have pos: "0 < unat al" using assms(1) by (simp add: is_power_of_two_def unat_gt_0)
  let ?x = "base + bo"
  have x: "unat ?x = unat base + unat bo" using assms(2) pos by (intro unat_add_no_wrap) simp
  have e: "aligned_offset base al bo = mask_down al (?x + (al - 1)) - base"
    by (simp add: aligned_offset_def algebra_simps)
  note r = round_up_unat [OF assms(1), of ?x]
  have r': "unat ?x \<le> unat (mask_down al (?x + (al - 1)))"
    "unat (mask_down al (?x + (al - 1))) < unat ?x + unat al"
    "unat (mask_down al (?x + (al - 1))) mod unat al = 0"
    using r assms(2) x by simp_all
  have "base \<le> mask_down al (?x + (al - 1))" using r'(1) x by (simp add: word_le_nat_alt)
  then have u: "unat (aligned_offset base al bo) = unat (mask_down al (?x + (al - 1))) - unat base"
    unfolding e by (rule unat_sub_le)
  show "unat bo \<le> unat (aligned_offset base al bo)" "unat (aligned_offset base al bo) < unat bo + unat al"
    "(unat base + unat (aligned_offset base al bo)) mod unat al = 0"
    using r' x u by simp_all
qed

section \<open>The invariant of one heap\<close>

text \<open>Against the table \<open>al\<close> of the heap's live allocations, address to size: the
  marks are in order, the free list is coalesced and lies below the bump
  pointer, allocations lie there too, and nothing overlaps; the byte counter is
  the sum of the live sizes.\<close>

definition alloc_cells :: "u64 \<Rightarrow> u64 \<times> u64 \<Rightarrow> nat set" where
  "alloc_cells base = (\<lambda>(a, z). {unat a - unat base ..< unat a - unat base + unat z})"

definition marks_ok :: "libc_mspace \<Rightarrow> bool" where
  "marks_ok st \<longleftrightarrow> ms_base st \<noteq> 0 \<and> 0x100 \<le> unat (ms_next_offset st) \<and>
     unat (ms_next_offset st) \<le> unat (ms_peak_offset st) \<and> unat (ms_peak_offset st) \<le> unat (ms_capacity st) \<and>
     unat (ms_base st) + unat (ms_capacity st) \<le> 18446744073709551616"

definition placed :: "libc_mspace \<Rightarrow> u64 \<times> u64 \<Rightarrow> bool" where
  "placed st = (\<lambda>(a, z). 0 < unat z \<and> unat (ms_base st) + 0x100 \<le> unat a \<and>
     unat a + unat z \<le> unat (ms_base st) + unat (ms_next_offset st))"

definition heap_ok :: "libc_mspace \<Rightarrow> (u64 \<times> u64) set \<Rightarrow> bool" where
  "heap_ok st al \<longleftrightarrow> marks_ok st \<and> blocks_ok 1 0x100 (unat (ms_next_offset st)) (ms_free_list st) \<and>
     (\<forall>x\<in>al. placed st x \<and> alloc_cells (ms_base st) x \<inter> list_cells (ms_free_list st) = {}) \<and>
     (\<forall>x\<in>al. \<forall>y\<in>al. x \<noteq> y \<longrightarrow> alloc_cells (ms_base st) x \<inter> alloc_cells (ms_base st) y = {}) \<and>
     unat (ms_active_bytes st) = (\<Sum>x\<in>al. unat (snd x))"


lemma heap_okD:
  assumes "heap_ok st al"
  shows "marks_ok st" "blocks_ok 1 0x100 (unat (ms_next_offset st)) (ms_free_list st)"
    "x \<in> al \<Longrightarrow> placed st x" "x \<in> al \<Longrightarrow> alloc_cells (ms_base st) x \<inter> list_cells (ms_free_list st) = {}"
    "x \<in> al \<Longrightarrow> y \<in> al \<Longrightarrow> x \<noteq> y \<Longrightarrow> alloc_cells (ms_base st) x \<inter> alloc_cells (ms_base st) y = {}"
    "unat (ms_active_bytes st) = (\<Sum>x\<in>al. unat (snd x))"
  using assms by (auto simp: heap_ok_def)

lemma alloc_cells_base: "unat (b + o1) = unat b + unat o1 \<Longrightarrow> alloc_cells b (b + o1, z) = cells (o1, z)"
  by (simp add: alloc_cells_def cells_def)

text \<open>The live sizes fit below the bump pointer, so the counter never saturates.\<close>

lemma live_sum_bound:
  assumes "finite al" "\<And>x. x \<in> al \<Longrightarrow> alloc_cells b x \<subseteq> {..<n}"
    and "\<And>x y. x \<in> al \<Longrightarrow> y \<in> al \<Longrightarrow> x \<noteq> y \<Longrightarrow> alloc_cells b x \<inter> alloc_cells b y = {}"
  shows "(\<Sum>x\<in>al. unat (snd x)) \<le> n"
proof -
  have "(\<Sum>x\<in>al. unat (snd x)) = (\<Sum>x\<in>al. card (alloc_cells b x))"
    by (rule sum.cong) (auto simp: alloc_cells_def)
  also have "\<dots> = card (\<Union>x\<in>al. alloc_cells b x)"
    using assms by (intro card_UN_disjoint [symmetric]) (auto simp: alloc_cells_def split: prod.splits)
  also have "\<dots> \<le> card {..<n}" using assms(2) by (intro card_mono) auto
  finally show ?thesis by simp
qed

lemma placed_cells:
  assumes "placed st x" shows "alloc_cells (ms_base st) x \<subseteq> {0x100..<unat (ms_next_offset st)}"
  using assms by (cases x) (auto simp: placed_def alloc_cells_def)

text \<open>Adding an allocation to the table.\<close>

lemma heap_ok_add:
  assumes ok: "heap_ok st al" and m: "marks_ok st'" "ms_base st' = ms_base st"
    "unat (ms_next_offset st) \<le> unat (ms_next_offset st')"
    and fl: "blocks_ok 1 0x100 (unat (ms_next_offset st')) (ms_free_list st')"
    "list_cells (ms_free_list st') \<subseteq> list_cells (ms_free_list st)"
    and new: "placed st' (a, z)" "alloc_cells (ms_base st) (a, z) \<inter> list_cells (ms_free_list st') = {}"
    "\<And>x. x \<in> al \<Longrightarrow> alloc_cells (ms_base st) x \<inter> alloc_cells (ms_base st) (a, z) = {}"
    and act: "ms_active_bytes st' = saturating_add (ms_active_bytes st) z"
  shows "heap_ok st' (insert (a, z) al)"
proof -
  have pl: "placed st' x" if "x \<in> al" for x
    using heap_okD(3) [OF ok that] m by (auto simp: placed_def)
  have nin: "(a, z) \<notin> al"
    using new(1) new(3) [of "(a, z)"] by (auto simp: placed_def alloc_cells_def)
  have dis: "alloc_cells (ms_base st) x \<inter> alloc_cells (ms_base st) y = {}"
    if "x \<in> insert (a, z) al" "y \<in> insert (a, z) al" "x \<noteq> y" for x y
    using heap_okD(5) [OF ok, of x y] new(3) [of x] new(3) [of y] that by blast
  have "(\<Sum>x\<in>insert (a, z) al. unat (snd x)) \<le> unat (ms_next_offset st')"
  proof (rule live_sum_bound [of _ "ms_base st"])
    show "alloc_cells (ms_base st) x \<subseteq> {..<unat (ms_next_offset st')}" if "x \<in> insert (a, z) al" for x
      using placed_cells [of st' x] pl new(1) that m(2) by fastforce
  qed (use dis in auto)
  then have "unat (ms_active_bytes st) + unat z < 18446744073709551616"
    using heap_okD(6) [OF ok] nin unat_u64_lt [of "ms_next_offset st'"] by simp
  then have "unat (ms_active_bytes st') = (\<Sum>x\<in>insert (a, z) al. unat (snd x))"
    using heap_okD(6) [OF ok] nin act by (simp add: saturating_add_unat)
  moreover have "alloc_cells (ms_base st) x \<inter> list_cells (ms_free_list st') = {}" if "x \<in> insert (a, z) al" for x
    using heap_okD(4) [OF ok, of x] fl(2) new(2) that by blast
  ultimately show ?thesis using m fl(1) pl new(1) dis by (auto simp: heap_ok_def)
qed


text \<open>Removing an allocation whose cells go to the free list.\<close>

lemma heap_ok_drop:
  assumes ok: "heap_ok st al" and x: "(a, z) \<in> al"
    and st': "ms_base st' = ms_base st" "ms_next_offset st' = ms_next_offset st"
      "ms_peak_offset st' = ms_peak_offset st" "ms_capacity st' = ms_capacity st"
      "ms_active_bytes st' = saturating_sub (ms_active_bytes st) z"
      "ms_free_list st' = insert_and_coalesce (ms_free_list st) (a - ms_base st) z"
  shows "heap_ok st' (al - {(a, z)})"
proof -
  have p: "placed st (a, z)" using heap_okD(3) [OF ok x] .
  have off: "unat (a - ms_base st) = unat a - unat (ms_base st)"
    using p by (intro unat_sub_le) (simp add: placed_def word_le_nat_alt)
  have c: "alloc_cells (ms_base st) (a, z) = cells (a - ms_base st, z)"
    using off by (simp add: alloc_cells_def cells_def)
  have hi: "unat (ms_next_offset st) \<le> 18446744073709551615"
    using unat_u64_lt [of "ms_next_offset st"] by simp
  have "in_span 0x100 (unat (ms_next_offset st)) (a - ms_base st, z)"
    using p off by (simp add: placed_def in_span_def) linarith
  then have sp: "z = 0 \<or> in_span 0x100 (unat (ms_next_offset st)) (a - ms_base st, z)" ..
  have d: "cells (a - ms_base st, z) \<inter> list_cells (ms_free_list st) = {}"
    using heap_okD(4) [OF ok x] c by simp
  note ic = insert_and_coalesce_ok [OF heap_okD(2) [OF ok] hi sp d]
  have sub: "alloc_cells (ms_base st) y \<inter> list_cells (ms_free_list st') = {}" if "y \<in> al - {(a, z)}" for y
    using heap_okD(4) [OF ok, of y] heap_okD(5) [OF ok, of y "(a, z)"] that x ic(2) c st'(6) by auto
  have pl: "placed st' y" if "y \<in> al" for y
    using heap_okD(3) [OF ok that] st' by (auto simp: placed_def)
  have "unat (ms_active_bytes st') = (\<Sum>y\<in>al - {(a, z)}. unat (snd y))"
    using heap_okD(6) [OF ok] x by (simp add: st'(5) saturating_sub_unat sum_diff1_nat)
  then show ?thesis
    using heap_okD(1) [OF ok] ic(1) sub pl heap_okD(5) [OF ok] st'
    by (auto simp: heap_ok_def marks_ok_def)
qed

lemma bump_ok:
  assumes ok: "heap_ok st al" and al2: "is_power_of_two a" and sz: "sz \<noteq> 0"
    and b: "bump_range a sz st = Some (off, e)"
    and st': "st' = st\<lparr>ms_next_offset := e, ms_peak_offset := max (ms_peak_offset st) e,
      ms_active_bytes := saturating_add (ms_active_bytes st) sz\<rparr>"
  shows "unat (ms_base st + off) = unat (ms_base st) + unat off"
    "unat (ms_next_offset st) \<le> unat off" "unat e = unat off + unat sz" "unat off mod unat a = 0"
    "heap_ok st' (insert (ms_base st + off, sz) al)"
proof -
  let ?n = "ms_next_offset st"
  have pos: "0 < unat a" "unat (a - 1) = unat a - 1"
    using al2 by (auto simp: is_power_of_two_def unat_gt_0 unat_minus_one)
  have n: "unat ?n + unat (a - 1) < 18446744073709551616" "off = mask_down a (?n + (a - 1))"
    and c: "checked_add off sz = Some e" "\<not> e > ms_capacity st"
    using b by (auto simp: bump_range_def checked_add_Some_iff split: option.splits if_splits)
  have "unat ?n + unat a \<le> 18446744073709551616" using n(1) pos by simp
  note r = round_up_unat [OF al2 this, folded n(2)]
  show off: "unat ?n \<le> unat off" "unat off mod unat a = 0" using r by simp_all
  show e: "unat e = unat off + unat sz" using checked_add_unat [OF c(1)] .
  have m: "marks_ok st" using heap_okD(1) [OF ok] .
  have cap: "unat e \<le> unat (ms_capacity st)" using c(2) by (simp add: word_le_nat_alt not_less)
  have szp: "0 < unat sz" using sz by (simp add: unat_gt_0)
  show u: "unat (ms_base st + off) = unat (ms_base st) + unat off"
    using cap e szp m by (intro unat_add_no_wrap) (simp add: marks_ok_def)
  have ac: "alloc_cells (ms_base st) (ms_base st + off, sz) = cells (off, sz)"
    using u by (rule alloc_cells_base)
  have below: "x \<inter> cells (off, sz) = {}" if "x \<subseteq> {..<unat ?n}" for x
    using that off by (fastforce simp: cells_def)
  have mx: "unat (max (ms_peak_offset st) e) = max (unat (ms_peak_offset st)) (unat e)"
    by (auto simp: max_def word_le_nat_alt)
  have flb: "list_cells (ms_free_list st) \<subseteq> {..<unat ?n}"
    using heap_okD(2) [OF ok] by (fastforce simp: list_cells_def cells_def blocks_ok_def in_span_def)
  show "heap_ok st' (insert (ms_base st + off, sz) al)"
  proof (rule heap_ok_add [OF ok])
    show "marks_ok st'" using m cap off e mx st' by (auto simp: marks_ok_def)
    show "blocks_ok 1 0x100 (unat (ms_next_offset st')) (ms_free_list st')"
      using blocks_ok_weaken [OF heap_okD(2) [OF ok], of 1] off e st' by simp
    show "placed st' (ms_base st + off, sz)"
      using szp u e off m st' by (simp add: placed_def marks_ok_def)
    show "alloc_cells (ms_base st) (ms_base st + off, sz) \<inter> list_cells (ms_free_list st') = {}"
      using below [OF flb] ac st' by (simp add: Int_commute)
    show "alloc_cells (ms_base st) x \<inter> alloc_cells (ms_base st) (ms_base st + off, sz) = {}" if "x \<in> al" for x
    proof -
      have "alloc_cells (ms_base st) x \<subseteq> {..<unat ?n}"
        using placed_cells [OF heap_okD(3) [OF ok that]] by auto
      then show ?thesis using below ac by simp
    qed
  qed (use st' off e in simp_all)
qed

text \<open>First fit: the conditional returns are returns of possibly empty blocks.\<close>

lemma carve_block_eq:
  assumes "bo \<le> ao" "ao + sz \<le> bo + bz"
  shows "carve_block sz (i, bo, bz, ao) st =
    st\<lparr>ms_free_list := insert_and_coalesce (insert_and_coalesce (remove_at i (ms_free_list st)) bo (ao - bo))
         (ao + sz) (bo + bz - (ao + sz)), ms_active_bytes := saturating_add (ms_active_bytes st) sz\<rparr>"
  using assms by (auto simp: carve_block_def Let_def insert_and_coalesce_def)

text \<open>The arithmetic of the first-fit test wraps for none of the free blocks; the
  bump path checks its own, so with an empty free list every request qualifies.\<close>

definition span_fits :: "libc_mspace \<Rightarrow> u64 \<Rightarrow> u64 \<Rightarrow> bool" where
  "span_fits st a sz \<longleftrightarrow> (\<forall>(bo, bz)\<in>set (ms_free_list st).
     unat (ms_base st) + unat bo + unat a + unat sz \<le> 18446744073709551616)"

lemma fit_numbers:
  assumes ok: "heap_ok st al" and al2: "is_power_of_two a" and nowrap: "span_fits st a sz"
    and ch: "choose_block (ms_base st) a sz 0 (ms_free_list st) = Some (i, bo, bz, ao)"
  shows "i < length (ms_free_list st)" "ms_free_list st ! i = (bo, bz)"
    "in_span 0x100 (unat (ms_next_offset st)) (bo, bz)"
    "unat (bo + bz) = unat bo + unat bz" "unat (ao + sz) = unat ao + unat sz"
    "unat bo \<le> unat ao" "unat ao + unat sz \<le> unat bo + unat bz"
    "unat (ms_base st + ao) = unat (ms_base st) + unat ao" "unat (ms_base st + ao) mod unat a = 0"
proof -
  note c = choose_block_Some [OF ch]
  show i: "i < length (ms_free_list st)" "ms_free_list st ! i = (bo, bz)" using c by simp_all
  then have bl: "(bo, bz) \<in> set (ms_free_list st)" using nth_mem by metis
  then show sp: "in_span 0x100 (unat (ms_next_offset st)) (bo, bz)"
    using heap_okD(2) [OF ok] by (simp add: blocks_ok_def)
  have fit: "unat (ms_base st) + unat bo + unat a + unat sz \<le> 18446744073709551616"
    using nowrap bl by (auto simp: span_fits_def)
  have m: "unat (ms_next_offset st) \<le> unat (ms_capacity st)" using heap_okD(1) [OF ok] by (simp add: marks_ok_def)
  have "unat (ms_base st) + unat bo + unat a \<le> 18446744073709551616"
    using fit by simp
  note ao = aligned_offset_unat [OF al2 this]
  have ao': "ao = aligned_offset (ms_base st) a bo" using c by simp
  show bb: "unat (bo + bz) = unat bo + unat bz"
    using sp m unat_u64_lt [of "ms_next_offset st"] by (intro unat_add_no_wrap) (simp add: in_span_def)
  have lt: "unat (ms_base st) + unat ao + unat sz < 18446744073709551616"
    using ao(2) ao' fit by simp
  show as: "unat (ao + sz) = unat ao + unat sz" using lt by (intro unat_add_no_wrap) simp
  show "unat bo \<le> unat ao" using ao(1) ao' by simp
  have "ao + sz \<le> bo + bz" using c by blast
  then show "unat ao + unat sz \<le> unat bo + unat bz" using as bb by (simp add: word_le_nat_alt)
  show u: "unat (ms_base st + ao) = unat (ms_base st) + unat ao" using lt by (intro unat_add_no_wrap) simp
  show "unat (ms_base st + ao) mod unat a = 0" using ao(3) ao' u by simp
qed


lemma split_cells:
  assumes "T \<subseteq> B" "G \<inter> T = {}" "B \<inter> L = {}"
  shows "T \<inter> (G \<union> L) = {}"
    "G \<subseteq> B \<Longrightarrow> A \<subseteq> B \<Longrightarrow> A \<inter> G = {} \<Longrightarrow> A \<inter> T = {} \<Longrightarrow> T \<union> (G \<union> L) \<subseteq> B \<union> L"
    "G \<subseteq> B \<Longrightarrow> A \<subseteq> B \<Longrightarrow> A \<inter> G = {} \<Longrightarrow> A \<inter> T = {} \<Longrightarrow> A \<inter> (T \<union> (G \<union> L)) = {}"
    "G \<subseteq> B \<Longrightarrow> A \<subseteq> B \<Longrightarrow> A \<inter> G = {} \<Longrightarrow> A \<inter> T = {} \<Longrightarrow> A \<subseteq> B \<union> L"
  using assms by blast+

lemma carve_ok:
  assumes ok: "heap_ok st al" and al2: "is_power_of_two a" and nowrap: "span_fits st a sz" and sz: "sz \<noteq> 0"
    and ch: "choose_block (ms_base st) a sz 0 (ms_free_list st) = Some (i, bo, bz, ao)"
  shows "heap_ok (carve_block sz (i, bo, bz, ao) st) (insert (ms_base st + ao, sz) al)"
proof -
  note f = fit_numbers [OF ok al2 nowrap ch]
  let ?n = "unat (ms_next_offset st)"
  let ?fl = "remove_at i (ms_free_list st)"
  have hi: "?n \<le> 18446744073709551615" using unat_u64_lt [of "ms_next_offset st"] by simp
  note ra = remove_at_ok [OF heap_okD(2) [OF ok] f(1), unfolded f(2)]
  have le: "bo \<le> ao" "ao + sz \<le> bo + bz" using f by (simp_all add: word_le_nat_alt)
  have sub: "unat (ao - bo) = unat ao - unat bo"
    "unat (bo + bz - (ao + sz)) = unat bo + unat bz - (unat ao + unat sz)"
    using unat_sub_le [OF le(1)] unat_sub_le [OF le(2)] f(4,5) by simp_all
  have szp: "0 < unat sz" using sz by (simp add: unat_gt_0)
  have gap: "cells (bo, ao - bo) \<subseteq> cells (bo, bz)" "cells (ao + sz, bo + bz - (ao + sz)) \<subseteq> cells (bo, bz)"
    "cells (bo, ao - bo) \<inter> cells (ao + sz, bo + bz - (ao + sz)) = {}"
    "cells (ao, sz) \<subseteq> cells (bo, bz)" "cells (ao, sz) \<inter> cells (bo, ao - bo) = {}"
    "cells (ao, sz) \<inter> cells (ao + sz, bo + bz - (ao + sz)) = {}"
    using f(4-7) sub by (auto simp: cells_def)
  have "0 < unat (ao - bo) \<Longrightarrow> in_span 0x100 ?n (bo, ao - bo)"
    "0 < unat (bo + bz - (ao + sz)) \<Longrightarrow> in_span 0x100 ?n (ao + sz, bo + bz - (ao + sz))"
    using f(3-7) sub by (simp_all add: in_span_def)
  then have sp: "ao - bo = 0 \<or> in_span 0x100 ?n (bo, ao - bo)"
    "bo + bz - (ao + sz) = 0 \<or> in_span 0x100 ?n (ao + sz, bo + bz - (ao + sz))"
    unfolding unat_gt_0 by blast+
  have d1: "cells (bo, ao - bo) \<inter> list_cells ?fl = {}" using gap(1) ra(3) by blast
  note i1 = insert_and_coalesce_ok [OF ra(1) hi sp(1) d1]
  let ?f1 = "insert_and_coalesce ?fl bo (ao - bo)"
  have d2: "cells (ao + sz, bo + bz - (ao + sz)) \<inter> list_cells ?f1 = {}"
    unfolding i1(2) by (rule split_cells(1) [OF gap(2,3) ra(3)])
  note i2 = insert_and_coalesce_ok [OF i1(1) hi sp(2) d2]
  let ?f2 = "insert_and_coalesce ?f1 (ao + sz) (bo + bz - (ao + sz))"
  have cov: "list_cells ?f2 \<subseteq> list_cells (ms_free_list st)" "cells (ao, sz) \<inter> list_cells ?f2 = {}"
    "cells (ao, sz) \<subseteq> list_cells (ms_free_list st)"
    unfolding i2(2) i1(2) ra(2) using split_cells(2-4) [OF gap(2,3) ra(3) gap(1) gap(4-6)] by simp_all
  have ac: "alloc_cells (ms_base st) (ms_base st + ao, sz) = cells (ao, sz)"
    using f(8) by (rule alloc_cells_base)
  show ?thesis
    unfolding carve_block_eq [OF le]
  proof (rule heap_ok_add [OF ok])
    show "placed (st\<lparr>ms_free_list := ?f2, ms_active_bytes := saturating_add (ms_active_bytes st) sz\<rparr>) (ms_base st + ao, sz)"
      using szp f(3,6,7,8) by (simp add: placed_def in_span_def)
    show "alloc_cells (ms_base st) x \<inter> alloc_cells (ms_base st) (ms_base st + ao, sz) = {}" if "x \<in> al" for x
      using heap_okD(4) [OF ok that] cov(3) ac by blast
  qed (use heap_okD(1) [OF ok] i2(1) cov ac in \<open>simp_all add: marks_ok_def\<close>)
qed

section \<open>The invariant of the table of heaps\<close>

definition live :: "'m mspace_state \<Rightarrow> u64 \<Rightarrow> (u64 \<times> u64) set" where
  "live s mspace = {(a, z). \<exists>x. libc_mspace_allocations s a = Some x \<and> ma_mspace x = mspace \<and> ma_size x = z}"

lemma live_iff:
  "(a, z) \<in> live s m \<longleftrightarrow> libc_mspace_allocations s a = Some \<lparr>ma_mspace = m, ma_size = z\<rparr>"
proof -
  have "x = \<lparr>ma_mspace = m, ma_size = z\<rparr> \<longleftrightarrow> ma_mspace x = m \<and> ma_size x = z" for x :: mspace_allocation
    by (cases x) auto
  then show ?thesis by (auto simp: live_def)
qed

definition region :: "libc_mspace \<Rightarrow> nat set" where
  "region st = {unat (ms_base st) ..< unat (ms_base st) + unat (ms_capacity st)}"

definition mspaces_ok :: "'m mspace_state \<Rightarrow> bool" where
  "mspaces_ok s \<longleftrightarrow>
     (\<forall>m st. libc_mspaces s m = Some st \<longrightarrow> ms_base st = m \<and> heap_ok st (live s m)) \<and>
     (\<forall>a x. libc_mspace_allocations s a = Some x \<longrightarrow> libc_mspaces s (ma_mspace x) \<noteq> None) \<and>
     (\<forall>m st m' st'. libc_mspaces s m = Some st \<longrightarrow> libc_mspaces s m' = Some st' \<longrightarrow> m \<noteq> m' \<longrightarrow>
        region st \<inter> region st' = {})"

lemma mspaces_okD:
  assumes "mspaces_ok s"
  shows "libc_mspaces s m = Some st \<Longrightarrow> ms_base st = m"
    "libc_mspaces s m = Some st \<Longrightarrow> heap_ok st (live s m)"
    "libc_mspace_allocations s a = Some x \<Longrightarrow> \<exists>st. libc_mspaces s (ma_mspace x) = Some st"
    "libc_mspaces s m = Some st \<Longrightarrow> libc_mspaces s m' = Some st' \<Longrightarrow> m \<noteq> m' \<Longrightarrow> region st \<inter> region st' = {}"
  using assms unfolding mspaces_ok_def by blast+

lemma placed_region:
  assumes "marks_ok st" "placed st (a, z)"
  shows "{unat a ..< unat a + unat z} \<subseteq> region st" "unat a \<in> region st"
  using assms by (auto simp: marks_ok_def placed_def region_def)

text \<open>An address inside one heap is never a key of another's allocations.\<close>

lemma live_owner:
  assumes ok: "mspaces_ok s" and st: "libc_mspaces s m = Some st" and a: "unat a \<in> region st"
    and x: "libc_mspace_allocations s a = Some x"
  shows "ma_mspace x = m"
proof (rule ccontr)
  assume ne: "ma_mspace x \<noteq> m"
  obtain st' where st': "libc_mspaces s (ma_mspace x) = Some st'" using mspaces_okD(3) [OF ok x] by blast
  note h = mspaces_okD(2) [OF ok st']
  have "(a, ma_size x) \<in> live s (ma_mspace x)" using x by (auto simp: live_def)
  then have "unat a \<in> region st'" using placed_region(2) [OF heap_okD(1) [OF h] heap_okD(3) [OF h]] by blast
  then show False using mspaces_okD(4) [OF ok st' st ne] a by blast
qed

text \<open>One heap changes, and the region it occupies does not.\<close>

lemma mspaces_ok_update:
  assumes ok: "mspaces_ok s" and st: "libc_mspaces s m = Some st"
    and st': "ms_base st' = m" "ms_capacity st' = ms_capacity st" "heap_ok st' (live s' m)"
    and s': "libc_mspaces s' = (libc_mspaces s)(m \<mapsto> st')"
    and al: "\<And>a x. libc_mspace_allocations s' a = Some x \<Longrightarrow> ma_mspace x = m \<or> libc_mspace_allocations s a = Some x"
    and others: "\<And>m'. m' \<noteq> m \<Longrightarrow> live s' m' = live s m'"
  shows "mspaces_ok s'"
proof -
  have r: "region st' = region st" using mspaces_okD(1) [OF ok st] st' by (simp add: region_def)
  show ?thesis
    unfolding mspaces_ok_def
  proof (intro conjI allI impI)
    fix m1 st1 assume a: "libc_mspaces s' m1 = Some st1"
    then show "ms_base st1 = m1" "heap_ok st1 (live s' m1)"
      using mspaces_okD(1,2) [OF ok] st' s' others by (auto split: if_splits)
    fix m2 st2 assume "libc_mspaces s' m2 = Some st2" "m1 \<noteq> m2"
    then show "region st1 \<inter> region st2 = {}"
      using a r st s' mspaces_okD(4) [OF ok] by (auto split: if_splits)
  next
    fix a x assume "libc_mspace_allocations s' a = Some x"
    then show "libc_mspaces s' (ma_mspace x) \<noteq> None" using al mspaces_okD(3) [OF ok] s' by fastforce
  qed
qed


section \<open>Allocation and release\<close>

text \<open>A granted request: the heap's new state and what it grants.\<close>

definition grants :: "u64 \<Rightarrow> u64 \<Rightarrow> u64 \<Rightarrow> libc_mspace \<Rightarrow> libc_mspace \<Rightarrow> u64 \<Rightarrow> 'm mspace_state \<Rightarrow> bool" where
  "grants mspace a sz st st' r s \<longleftrightarrow> libc_mspaces s mspace = Some st \<and> sz \<noteq> 0 \<and> r \<noteq> 0 \<and>
     ms_base st' = mspace \<and> ms_capacity st' = ms_capacity st \<and> heap_ok st' (insert (r, sz) (live s mspace)) \<and>
     (r, sz) \<notin> live s mspace \<and> (unat (ms_base st) mod unat a = 0 \<longrightarrow> unat r mod unat a = 0)"

lemma memalign_cases:
  assumes ok: "mspaces_ok s" and call: "hle_mspace_memalign args s = (r, s')"
    and nowrap: "\<And>st. libc_mspaces s (arg args 0) = Some st \<Longrightarrow> span_fits st (max (arg args 1) 8) (arg args 2)"
  shows "r = 0 \<and> s' = s \<or> (\<exists>st st'. grants (arg args 0) (max (arg args 1) 8) (arg args 2) st st' r s \<and>
     s' = snd (record_block (arg args 0) st' r (arg args 2) s))"
proof (cases "arg args 2 = 0 \<or> \<not> is_power_of_two (max (arg args 1) 8) \<or> libc_mspaces s (arg args 0) = None")
  case True
  then have "hle_mspace_memalign args s = (0, s)" unfolding hle_mspace_memalign_def Let_def by (elim disjE) simp_all
  then show ?thesis using call by simp
next
  case False
  let ?m = "arg args 0" and ?a = "max (arg args 1) 8" and ?z = "arg args 2"
  obtain st where st: "libc_mspaces s ?m = Some st" using False by blast
  have a2: "is_power_of_two ?a" and z: "?z \<noteq> 0" using False by blast+
  note h = mspaces_okD(2) [OF ok st] and b = mspaces_okD(1) [OF ok st]
  have b0: "unat (ms_base st) > 0" using heap_okD(1) [OF h] by (simp add: marks_ok_def unat_gt_0)
  show ?thesis
  proof (cases "choose_block (ms_base st) ?a ?z 0 (ms_free_list st)")
    case (Some c)
    obtain i bo bz ao where c: "c = (i, bo, bz, ao)" by (cases c)
    note ch = Some [unfolded c]
    note f = fit_numbers [OF h a2 nowrap [OF st] ch]
    have al: "alloc_cells (ms_base st) (ms_base st + ao, ?z) = cells (ao, ?z)" using f(8) by (rule alloc_cells_base)
    have mem: "(bo, bz) \<in> set (ms_free_list st)" using f(1,2) nth_mem by metis
    have "cells (ao, ?z) \<subseteq> cells (bo, bz)" using f(6,7) by (auto simp: cells_def)
    then have "cells (ao, ?z) \<subseteq> list_cells (ms_free_list st)" using mem by (auto simp: list_cells_def)
    moreover have "cells (ao, ?z) \<noteq> {}" using z by (simp add: cells_def unat_gt_0)
    ultimately have nin: "(ms_base st + ao, ?z) \<notin> live s ?m" using heap_okD(4) [OF h, of "(ms_base st + ao, ?z)"] al by auto
    have r: "r = ms_base st + ao" "s' = snd (record_block ?m (carve_block ?z (i, bo, bz, ao) st) r ?z s)"
      using call st a2 z ch by (auto simp: hle_mspace_memalign_def Let_def record_block_def)
    have "grants ?m ?a ?z st (carve_block ?z (i, bo, bz, ao) st) r s"
      using st z f(8,9) b0 b carve_ok [OF h a2 nowrap [OF st] z ch] nin r(1)
      by (auto simp: grants_def carve_block_def Let_def)
    then show ?thesis using r(2) by blast
  next
    case None
    show ?thesis
    proof (cases "bump_range ?a ?z st")
      case n: None
      then show ?thesis using call st a2 z None by (auto simp: hle_mspace_memalign_def Let_def)
    next
      case (Some oe)
      obtain off e where oe: "oe = (off, e)" by (cases oe)
      let ?st' = "st\<lparr>ms_next_offset := e, ms_peak_offset := max (ms_peak_offset st) e,
        ms_active_bytes := saturating_add (ms_active_bytes st) ?z\<rparr>"
      note bp = bump_ok [OF h a2 z Some [unfolded oe] refl]
      have chk: "checked_add (ms_base st) off = Some (ms_base st + off)"
        using bp(1) unat_u64_lt [of "ms_base st + off"] by (simp add: checked_add_Some_iff)
      have r: "r = ms_base st + off" "s' = snd (record_block ?m ?st' r ?z s)"
        using call st a2 z None Some oe chk by (auto simp: hle_mspace_memalign_def Let_def record_block_def)
      have "(r, ?z) \<notin> live s ?m"
      proof
        assume "(r, ?z) \<in> live s ?m"
        from heap_okD(3) [OF h this] show False using bp(1,2) z r(1) by (auto simp: placed_def)
      qed
      then have "grants ?m ?a ?z st ?st' r s"
        using st z b b0 bp(1,4,5) r(1) by (auto simp: grants_def)
      then show ?thesis using r(2) by blast
    qed
  qed
qed

lemma grants_placed:
  assumes "grants m a sz st st' r s"
  shows "marks_ok st'" "placed st' (r, sz)" "unat r \<in> region st'" "region st' = {unat m ..< unat m + unat (ms_capacity st)}"
proof -
  have h: "heap_ok st' (insert (r, sz) (live s m))" using assms by (simp add: grants_def)
  show "marks_ok st'" "placed st' (r, sz)" using heap_okD(1,3) [OF h] by simp_all
  then show "unat r \<in> region st'" by (rule placed_region(2))
  show "region st' = {unat m ..< unat m + unat (ms_capacity st)}"
    using assms by (simp add: grants_def region_def)
qed

lemma grants_fresh:
  assumes ok: "mspaces_ok s" and g: "grants m a sz st st' r s"
  shows "libc_mspace_allocations s r = None"
proof (rule ccontr)
  assume "libc_mspace_allocations s r \<noteq> None"
  then obtain x where x: "libc_mspace_allocations s r = Some x" by blast
  have st: "libc_mspaces s m = Some st" "ms_base st = m" using g mspaces_okD(1) [OF ok] by (simp_all add: grants_def)
  have "unat r \<in> region st"
    using grants_placed(3) [OF g] unfolding grants_placed(4) [OF g] by (simp add: region_def st(2))
  from live_owner [OF ok st(1) this x] have "(r, ma_size x) \<in> live s m" using x by (simp add: live_def)
  moreover have "(r, sz) \<notin> live s m" using g by (simp add: grants_def)
  ultimately have "(r, ma_size x) \<noteq> (r, sz)" by blast
  have h: "heap_ok st' (insert (r, sz) (live s m))" using g by (simp add: grants_def)
  have "alloc_cells (ms_base st') (r, ma_size x) \<inter> alloc_cells (ms_base st') (r, sz) = {}"
    by (rule heap_okD(5) [OF h]) (use \<open>(r, ma_size x) \<in> live s m\<close> \<open>_ \<noteq> (r, sz)\<close> in auto)
  moreover have "placed st' (r, ma_size x)" "placed st' (r, sz)"
    using heap_okD(3) [OF h] \<open>(r, ma_size x) \<in> live s m\<close> by auto
  ultimately show False by (auto simp: alloc_cells_def placed_def)
qed

lemma grants_ok:
  assumes ok: "mspaces_ok s" and g: "grants m a sz st st' r s"
  shows "mspaces_ok (snd (record_block m st' r sz s))" (is "mspaces_ok ?s'")
proof -
  have fresh: "libc_mspace_allocations s r = None" by (rule grants_fresh [OF ok g])
  have lv: "live ?s' m = insert (r, sz) (live s m)" "\<And>m'. m' \<noteq> m \<Longrightarrow> live ?s' m' = live s m'"
    using fresh by (auto simp: live_iff record_block_def split: if_splits)
  show ?thesis
    by (rule mspaces_ok_update [OF ok, of m st st'])
      (use g lv in \<open>auto simp: grants_def record_block_def split: if_splits\<close>)
qed

lemma memalign_ok:
  assumes "mspaces_ok s"
    and "\<And>st. libc_mspaces s (arg args 0) = Some st \<Longrightarrow> span_fits st (max (arg args 1) 8) (arg args 2)"
  shows "mspaces_ok (snd (hle_mspace_memalign args s))"
proof (cases "hle_mspace_memalign args s")
  case (Pair r s')
  from memalign_cases [OF assms(1) Pair assms(2)] show ?thesis
    using grants_ok [OF assms(1)] assms(1) Pair by auto
qed


lemma free_cases:
  assumes "mspaces_ok s"
  shows "hle_mspace_free [m, a] s = (0, s) \<and> (\<forall>z. (a, z) \<notin> live s m) \<or>
    (\<exists>z st. libc_mspaces s m = Some st \<and> (a, z) \<in> live s m \<and> hle_mspace_free [m, a] s = (1,
       s\<lparr>libc_mspace_allocations := (libc_mspace_allocations s)(a := None),
         libc_mspaces := (libc_mspaces s)(m \<mapsto> st\<lparr>ms_active_bytes := saturating_sub (ms_active_bytes st) z,
           ms_free_list := insert_and_coalesce (ms_free_list st) (a - ms_base st) z\<rparr>)\<rparr>))"
proof (cases "libc_mspace_allocations s a")
  case None
  then show ?thesis by (simp add: hle_mspace_free_def live_iff)
next
  case (Some x)
  show ?thesis
  proof (cases "ma_mspace x = m")
    case True
    obtain st where st: "libc_mspaces s m = Some st" using mspaces_okD(3) [OF assms Some] True by blast
    have "(a, ma_size x) \<in> live s m" using Some True by (auto simp: live_def)
    then show ?thesis using Some True st by (auto simp: hle_mspace_free_def Let_def)
  next
    case False
    then show ?thesis using Some by (auto simp: hle_mspace_free_def Let_def live_iff)
  qed
qed

lemma free_args: "hle_mspace_free args s = hle_mspace_free [arg args 0, arg args 1] s"
  by (simp add: hle_mspace_free_def)

lemma free_ok:
  assumes ok: "mspaces_ok s" shows "mspaces_ok (snd (hle_mspace_free args s))"
  unfolding free_args [of args]
proof (rule disjE [OF free_cases [OF ok, of "arg args 0" "arg args 1"]], elim conjE)
  assume "hle_mspace_free [arg args 0, arg args 1] s = (0, s)"
  then show "mspaces_ok (snd (hle_mspace_free [arg args 0, arg args 1] s))" using ok by simp
next
  let ?m = "arg args 0" and ?a = "arg args 1"
  assume "\<exists>z st. libc_mspaces s ?m = Some st \<and> (?a, z) \<in> live s ?m \<and> hle_mspace_free [?m, ?a] s = (1,
       s\<lparr>libc_mspace_allocations := (libc_mspace_allocations s)(?a := None),
         libc_mspaces := (libc_mspaces s)(?m \<mapsto> st\<lparr>ms_active_bytes := saturating_sub (ms_active_bytes st) z,
           ms_free_list := insert_and_coalesce (ms_free_list st) (?a - ms_base st) z\<rparr>)\<rparr>)"
  then obtain z st where st: "libc_mspaces s ?m = Some st" and x: "(?a, z) \<in> live s ?m"
    and s': "snd (hle_mspace_free [?m, ?a] s) =
      s\<lparr>libc_mspace_allocations := (libc_mspace_allocations s)(?a := None),
         libc_mspaces := (libc_mspaces s)(?m \<mapsto> st\<lparr>ms_active_bytes := saturating_sub (ms_active_bytes st) z,
           ms_free_list := insert_and_coalesce (ms_free_list st) (?a - ms_base st) z\<rparr>)\<rparr>" (is "?r = ?s'")
    by force
  have lv: "live ?s' ?m = live s ?m - {(?a, z)}" "\<And>m'. m' \<noteq> ?m \<Longrightarrow> live ?s' m' = live s m'"
    using x by (auto simp: live_iff split: if_splits)
  show "mspaces_ok ?r"
    unfolding s'
  proof (rule mspaces_ok_update [OF ok st, where s' = ?s'])
    show "heap_ok (st\<lparr>ms_active_bytes := saturating_sub (ms_active_bytes st) z,
        ms_free_list := insert_and_coalesce (ms_free_list st) (?a - ms_base st) z\<rparr>) (live ?s' ?m)"
      unfolding lv(1) by (rule heap_ok_drop [OF mspaces_okD(2) [OF ok st] x]) simp_all
  qed (use lv mspaces_okD(1) [OF ok st] in \<open>auto split: if_splits\<close>)
qed

lemma destroy_ok:
  assumes ok: "mspaces_ok s" shows "mspaces_ok (snd (hle_mspace_destroy args s))"
proof (cases "libc_mspaces s (arg args 0)")
  case None
  then show ?thesis using ok by (simp add: hle_mspace_destroy_def)
next
  case (Some st)
  let ?s' = "snd (hle_mspace_destroy args s)"
  have s': "libc_mspaces ?s' = (libc_mspaces s)(arg args 0 := None)"
    "\<And>a x. libc_mspace_allocations ?s' a = Some x \<longleftrightarrow>
       libc_mspace_allocations s a = Some x \<and> ma_mspace x \<noteq> arg args 0"
    using Some by (auto simp: hle_mspace_destroy_def Let_def split: option.splits)
  have lv: "live ?s' m = live s m" if "m \<noteq> arg args 0" for m
    using that s'(2) by (auto simp: live_def)
  show ?thesis
    unfolding mspaces_ok_def
  proof (intro conjI allI impI)
    fix m1 st1 assume a: "libc_mspaces ?s' m1 = Some st1"
    then show "ms_base st1 = m1" "heap_ok st1 (live ?s' m1)"
      using mspaces_okD(1,2) [OF ok] s'(1) lv by (auto split: if_splits)
    fix m2 st2 assume "libc_mspaces ?s' m2 = Some st2" "m1 \<noteq> m2"
    then show "region st1 \<inter> region st2 = {}"
      using a s'(1) mspaces_okD(4) [OF ok, of m1 st1 m2 st2] by (auto split: if_splits)
  next
    fix a x assume "libc_mspace_allocations ?s' a = Some x"
    then show "libc_mspaces ?s' (ma_mspace x) \<noteq> None"
      using s' mspaces_okD(3) [OF ok, of a x] by auto
  qed
qed

text \<open>A heap is created over memory no other heap covers.\<close>

definition fresh_region :: "u64 \<Rightarrow> u64 \<Rightarrow> 'm mspace_state \<Rightarrow> bool" where
  "fresh_region base capacity s \<longleftrightarrow> unat base + unat capacity \<le> 18446744073709551616 \<and>
     (\<forall>m st. libc_mspaces s m = Some st \<longrightarrow> region st \<inter> {unat base ..< unat base + unat capacity} = {})"

lemma create_ok:
  assumes ok: "mspaces_ok s" and fresh: "fresh_region (arg args 1) (arg args 2) s"
  shows "mspaces_ok (snd (hle_mspace_create E args s))"
proof (cases "arg args 1 = 0 \<or> arg args 2 < 0x100 \<or> arg args 3 > 1")
  case True
  then show ?thesis using ok by (auto simp: hle_mspace_create_def Let_def)
next
  case False
  let ?b = "arg args 1" and ?c = "arg args 2" and ?s' = "snd (hle_mspace_create E args s)"
  have "\<exists>nm. snd (hle_mspace_create E args s) = s\<lparr>libc_mspaces := (libc_mspaces s)(?b \<mapsto>
      \<lparr>ms_base = ?b, ms_capacity = ?c, ms_next_offset = 0x100, ms_peak_offset = 0x100,
       ms_active_bytes = 0, ms_name = nm, ms_free_list = []\<rparr>)\<rparr>"
    unfolding hle_mspace_create_def Let_def if_not_P [OF False] snd_conv by (rule exI, rule refl)
  then obtain st where s': "libc_mspaces ?s' = (libc_mspaces s)(?b \<mapsto> st)"
    "libc_mspace_allocations ?s' = libc_mspace_allocations s"
    and st: "ms_base st = ?b" "ms_capacity st = ?c" "ms_next_offset st = 0x100" "ms_peak_offset st = 0x100"
      "ms_active_bytes st = 0" "ms_free_list st = []"
    by force
  have cap: "0x100 \<le> unat ?c" "0 < unat ?b" "?b \<noteq> 0" using False by (auto simp: word_less_nat_alt unat_gt_0)
  have reg: "region st \<inter> region st1 = {}" if "libc_mspaces s m = Some st1" for m st1
  proof -
    have "region st1 \<inter> region st = {}"
      unfolding region_def [of st] st(1,2) using fresh that unfolding fresh_region_def by blast
    then show ?thesis by blast
  qed
  have none: "libc_mspaces s ?b = None"
  proof (rule ccontr)
    assume "libc_mspaces s ?b \<noteq> None"
    then obtain st1 where st1: "libc_mspaces s ?b = Some st1" by blast
    have "unat ?b \<in> region st1 \<inter> region st"
      using mspaces_okD(1) [OF ok st1] heap_okD(1) [OF mspaces_okD(2) [OF ok st1]] st cap by (simp add: region_def marks_ok_def)
    then show False using reg [OF st1] by blast
  qed
  have lv: "live ?s' m = live s m" "live s ?b = {}" for m
    using none mspaces_okD(3) [OF ok] s'(2) by (fastforce simp: live_def)+
  have h: "heap_ok st {}" using st cap fresh by (simp add: heap_ok_def marks_ok_def fresh_region_def)
  show ?thesis
    unfolding mspaces_ok_def
  proof (intro conjI allI impI)
    fix m1 st1 assume a: "libc_mspaces ?s' m1 = Some st1"
    then show "ms_base st1 = m1" "heap_ok st1 (live ?s' m1)"
      using mspaces_okD(1,2) [OF ok] s'(1) lv h st by (auto split: if_splits)
    fix m2 st2 assume "libc_mspaces ?s' m2 = Some st2" "m1 \<noteq> m2"
    then show "region st1 \<inter> region st2 = {}"
      using a s'(1) mspaces_okD(4) [OF ok, of m1 st1 m2 st2] reg by (auto split: if_splits)
  next
    fix a x assume "libc_mspace_allocations ?s' a = Some x"
    then show "libc_mspaces ?s' (ma_mspace x) \<noteq> None"
      using s' mspaces_okD(3) [OF ok, of a x] by auto
  qed
qed


section \<open>The remaining calls\<close>

definition request_fits :: "u64 \<Rightarrow> u64 \<Rightarrow> u64 \<Rightarrow> 'm mspace_state \<Rightarrow> bool" where
  "request_fits m a sz s = (case libc_mspaces s m of None \<Rightarrow> True | Some st \<Rightarrow> span_fits st a sz)"

lemma request_fitsD: "request_fits m a sz s \<Longrightarrow> libc_mspaces s m = Some st \<Longrightarrow> span_fits st a sz"
  by (simp add: request_fits_def)

lemma mspaces_ok_mem [simp]: "mspaces_ok (s\<lparr>ls_mem := m\<rparr>) = mspaces_ok s"
  by (simp add: mspaces_ok_def live_def)

lemma malloc_cases:
  assumes "mspaces_ok s" "hle_mspace_malloc [m, sz] s = (r, s')" "request_fits m 16 (max sz 1) s"
  shows "r = 0 \<and> s' = s \<or> (\<exists>st st'. grants m 16 (max sz 1) st st' r s \<and> s' = snd (record_block m st' r (max sz 1) s))"
  using memalign_cases [OF assms(1), of "[m, 16, max sz 1]" r s'] assms(2,3) request_fitsD [OF assms(3)]
  by (simp add: hle_mspace_malloc_def)

lemma malloc_args: "hle_mspace_malloc args s = hle_mspace_malloc [arg args 0, arg args 1] s"
  by (simp add: hle_mspace_malloc_def)

lemma malloc_ok:
  assumes "mspaces_ok s" "request_fits (arg args 0) 16 (max (arg args 1) 1) s"
  shows "mspaces_ok (snd (hle_mspace_malloc args s))"
  unfolding hle_mspace_malloc_def
  by (rule memalign_ok [OF assms(1)]) (use request_fitsD [OF assms(2)] in simp)

lemma calloc_ok:
  assumes "mspaces_ok s" "request_fits (arg args 0) 16 (max (arg args 1 * arg args 2) 1) s"
  shows "mspaces_ok (snd (hle_mspace_calloc E args s))"
proof (cases "checked_mul (arg args 1) (arg args 2)")
  case None
  then show ?thesis using assms(1) by (simp add: hle_mspace_calloc_def)
next
  case (Some n)
  then have "n = arg args 1 * arg args 2" by (simp add: checked_mul_def split: if_splits)
  then have "mspaces_ok (snd (hle_mspace_malloc [arg args 0, n] s))"
    using malloc_ok [OF assms(1), of "[arg args 0, n]"] assms(2) by simp
  then show ?thesis
    using Some by (cases "hle_mspace_malloc [arg args 0, n] s") (simp add: hle_mspace_calloc_def)
qed

lemma realloc_ok:
  assumes "mspaces_ok s" "request_fits (arg args 0) 16 (max (arg args 2) 1) s"
  shows "mspaces_ok (snd (hle_mspace_realloc E args s))"
proof -
  have m: "mspaces_ok (snd (hle_mspace_malloc [arg args 0, arg args 2] s))"
    using malloc_ok [OF assms(1), of "[arg args 0, arg args 2]"] assms(2) by simp
  obtain r s1 where c: "hle_mspace_malloc [arg args 0, arg args 2] s = (r, s1)" by (cases "hle_mspace_malloc [arg args 0, arg args 2] s")
  then have s1: "mspaces_ok s1" using m by simp
  show ?thesis
    unfolding hle_mspace_realloc_def Let_def c case_prod_conv
    by (simp add: assms(1) m s1 free_ok case_prod_beta split: option.split del: One_nat_def)
qed

text \<open>The states reached by any calls, short of the two defects: the program itself
  makes neither restriction.\<close>

inductive mspace_reachable :: "('m, 'x) mem_ops_scheme \<Rightarrow> 'm mspace_state \<Rightarrow> bool" for E where
  start: "libc_mspaces s = Map.empty \<Longrightarrow> libc_mspace_allocations s = Map.empty \<Longrightarrow> mspace_reachable E s"
| create: "mspace_reachable E s \<Longrightarrow> fresh_region (arg args 1) (arg args 2) s \<Longrightarrow>
    mspace_reachable E (snd (hle_mspace_create E args s))"
| destroy: "mspace_reachable E s \<Longrightarrow> mspace_reachable E (snd (hle_mspace_destroy args s))"
| memalign: "mspace_reachable E s \<Longrightarrow> request_fits (arg args 0) (max (arg args 1) 8) (arg args 2) s \<Longrightarrow>
    mspace_reachable E (snd (hle_mspace_memalign args s))"
| malloc: "mspace_reachable E s \<Longrightarrow> request_fits (arg args 0) 16 (max (arg args 1) 1) s \<Longrightarrow>
    mspace_reachable E (snd (hle_mspace_malloc args s))"
| calloc: "mspace_reachable E s \<Longrightarrow> request_fits (arg args 0) 16 (max (arg args 1 * arg args 2) 1) s \<Longrightarrow>
    mspace_reachable E (snd (hle_mspace_calloc E args s))"
| realloc: "mspace_reachable E s \<Longrightarrow> request_fits (arg args 0) 16 (max (arg args 2) 1) s \<Longrightarrow>
    mspace_reachable E (snd (hle_mspace_realloc E args s))"
| free: "mspace_reachable E s \<Longrightarrow> mspace_reachable E (snd (hle_mspace_free args s))"
| memory: "mspace_reachable E s \<Longrightarrow> mspace_reachable E (s\<lparr>ls_mem := m\<rparr>)"

lemma reachable_ok: "mspace_reachable E s \<Longrightarrow> mspaces_ok s"
proof (induction rule: mspace_reachable.induct)
  case (start s)
  then show ?case by (simp add: mspaces_ok_def)
next
  case (memalign s args)
  then show ?case using memalign_ok request_fitsD by blast
qed (auto intro: create_ok destroy_ok malloc_ok calloc_ok realloc_ok free_ok)

text \<open>What the invariant says of any two live allocations.\<close>

definition block_span :: "u64 \<Rightarrow> mspace_allocation \<Rightarrow> nat set" where
  "block_span a x = {unat a ..< unat a + unat (ma_size x)}"

lemma live_placed:
  assumes ok: "mspaces_ok s" and x: "libc_mspace_allocations s a = Some x"
  obtains st where "libc_mspaces s (ma_mspace x) = Some st" "ms_base st = ma_mspace x"
    "marks_ok st" "placed st (a, ma_size x)" "block_span a x \<subseteq> region st" "heap_ok st (live s (ma_mspace x))"
proof -
  obtain st where st: "libc_mspaces s (ma_mspace x) = Some st" using mspaces_okD(3) [OF ok x] by blast
  note h = mspaces_okD(2) [OF ok st]
  have "(a, ma_size x) \<in> live s (ma_mspace x)" using x by (simp add: live_iff)
  then have p: "placed st (a, ma_size x)" using heap_okD(3) [OF h] by blast
  show thesis
    using that [OF st mspaces_okD(1) [OF ok st] heap_okD(1) [OF h] p _ h]
      placed_region(1) [OF heap_okD(1) [OF h] p] by (simp add: block_span_def)
qed

lemma live_disjoint:
  assumes ok: "mspaces_ok s" and x: "libc_mspace_allocations s a = Some x"
    and y: "libc_mspace_allocations s b = Some y" and ne: "a \<noteq> b"
  shows "block_span a x \<inter> block_span b y = {}"
proof (cases "ma_mspace x = ma_mspace y")
  case True
  obtain st where st: "ms_base st = ma_mspace x" "placed st (a, ma_size x)" and h: "heap_ok st (live s (ma_mspace x))"
    using live_placed [OF ok x] by metis
  have m: "(a, ma_size x) \<in> live s (ma_mspace x)" "(b, ma_size y) \<in> live s (ma_mspace x)"
    using x y True by (simp_all add: live_iff)
  have "alloc_cells (ms_base st) (a, ma_size x) \<inter> alloc_cells (ms_base st) (b, ma_size y) = {}"
    by (rule heap_okD(5) [OF h m]) (simp add: ne)
  moreover have "placed st (b, ma_size y)" using heap_okD(3) [OF h m(2)] .
  ultimately show ?thesis using st(2)
    by (auto simp: alloc_cells_def placed_def block_span_def)
next
  case False
  obtain st st' where "block_span a x \<subseteq> region st" "libc_mspaces s (ma_mspace x) = Some st"
    "block_span b y \<subseteq> region st'" "libc_mspaces s (ma_mspace y) = Some st'"
    using live_placed [OF ok x] live_placed [OF ok y] by metis
  then show ?thesis using mspaces_okD(4) [OF ok _ _ False] by blast
qed


section \<open>The copy of a resize\<close>

text \<open>Chunk \<open>i\<close> of an \<open>n\<close>-byte block reads the same at both places.\<close>

definition same_chunk :: "('m, 'x) mem_ops_scheme \<Rightarrow> nat \<Rightarrow> u64 \<Rightarrow> 'm \<Rightarrow> u64 \<Rightarrow> 'm \<Rightarrow> nat \<Rightarrow> bool" where
  "same_chunk E n a m b m' i \<longleftrightarrow>
     (\<exists>bs. gm_read E (a + of_nat (4096 * i)) (min 4096 (n - 4096 * i)) m = Some bs \<and>
       gm_read E (b + of_nat (4096 * i)) (min 4096 (n - 4096 * i)) m' = Some bs)"

lemma copy_step:
  assumes "copy_chunks E src dst off rem m = (True, m')" "rem \<noteq> 0"
  obtains bs m1 where "gm_read E (src + off) (unat (min rem 4096)) m = Some bs"
    "gm_write E (dst + off) bs m = (True, m1)"
    "copy_chunks E src dst (off + min rem 4096) (rem - min rem 4096) m1 = (True, m')"
  using assms
  by (subst (asm) copy_chunks.simps) (auto simp: Let_def split: option.splits prod.splits if_splits)

lemma copy_done: "copy_chunks E src dst off 0 m = (True, m)"
  by (subst copy_chunks.simps) simp

lemma unat_of_nat_u64: "n < 18446744073709551616 \<Longrightarrow> unat (of_nat n :: u64) = n"
  by (simp add: unat_of_nat take_bit_nat_def)

lemma unat_min: "unat (min a b) = min (unat a) (unat b)"
  by (auto simp: min_def word_le_nat_alt)

text \<open>A later chunk of the rest is a later chunk of the whole, when the first
  write left the source alone.\<close>

lemma same_chunk_shift:
  assumes i: "4096 * Suc j < n" and e: "unat a + n \<le> 18446744073709551616" and d: "disjoint_spans a n b n"
    and keep: "\<And>p k. disjoint_spans b 4096 p k \<Longrightarrow> gm_read E p k m1 = gm_read E p k m"
    and sc: "same_chunk E (n - 4096) (a + 4096) m1 (b + 4096) m' j"
  shows "same_chunk E n a m b m' (Suc j)"
proof -
  let ?i = "Suc j"
  have ui: "unat (a + of_nat (4096 * ?i)) = unat a + 4096 * ?i"
    using i e by (subst unat_add_no_wrap) (simp_all only: unat_of_nat_u64)
  have "gm_read E (a + of_nat (4096 * ?i)) (min 4096 (n - 4096 * ?i)) m1 =
      gm_read E (a + of_nat (4096 * ?i)) (min 4096 (n - 4096 * ?i)) m"
    by (rule keep) (use d i ui in \<open>auto simp: disjoint_spans_def\<close>)
  then show ?thesis using sc by (simp add: same_chunk_def algebra_simps)
qed

context guest_memory
begin

lemma copy_chunks_copies:
  assumes "copy_chunks E src dst off rem m = (True, m')" and "ok m"
    and "unat (src + off) + unat rem \<le> 18446744073709551616"
    and "unat (dst + off) + unat rem \<le> 18446744073709551616"
    and "disjoint_spans (src + off) (unat rem) (dst + off) (unat rem)"
  shows "ok m' \<and> (\<forall>b n. disjoint_spans (dst + off) (unat rem) b n \<longrightarrow> gm_read E b n m' = gm_read E b n m) \<and>
    (\<forall>i. 4096 * i < unat rem \<longrightarrow> same_chunk E (unat rem) (src + off) m (dst + off) m' i)"
  using assms
proof (induction "unat rem" arbitrary: off rem m rule: less_induct)
  case less
  show ?case
  proof (cases "rem = 0")
    case True
    then show ?thesis using less.prems copy_done [of E src dst off m] by simp
  next
    case False
    let ?a = "src + off" and ?b = "dst + off" and ?c = "min rem 4096"
    have c: "unat ?c = min (unat rem) 4096" by (simp add: unat_min)
    have r0: "0 < unat rem" using False by (simp add: unat_gt_0)
    obtain bs m1 where rd: "gm_read E ?a (unat ?c) m = Some bs" and wr: "gm_write E ?b bs m = (True, m1)"
      and nx: "copy_chunks E src dst (off + ?c) (rem - ?c) m1 = (True, m')"
      using copy_step [OF less.prems(1) False] by metis
    have len: "length bs = unat ?c" using read_length [OF less.prems(2) rd] .
    have ok1: "ok m1" using write_ok [OF less.prems(2) wr] .
    have keep1: "disjoint_spans ?b (unat ?c) p n \<Longrightarrow> gm_read E p n m1 = gm_read E p n m" for p n
      using read_other [OF less.prems(2) wr] len by simp
    have rb: "gm_read E ?b (unat ?c) m1 = Some bs" using read_back [OF less.prems(2) wr] len by simp
    show ?thesis
    proof (cases "unat rem \<le> 4096")
      case True
      then have cr: "?c = rem" by (simp add: min_def word_le_nat_alt)
      then have m': "m' = m1" using nx copy_done [of E src dst "off + rem" m1] by simp
      have "same_chunk E (unat rem) ?a m ?b m1 0" using rd rb True by (simp add: same_chunk_def cr)
      moreover have "i = 0" if "4096 * i < unat rem" for i using that True by simp
      ultimately show ?thesis using keep1 ok1 m' cr by metis
    next
      case False
      have c4: "?c = 4096" "unat ?c = 4096" using False c by (simp_all add: min_def word_le_nat_alt)
      have r: "unat (rem - 4096) = unat rem - 4096" using False by (intro unat_sub_le [of 4096, simplified]) (simp add: word_le_nat_alt)
      have r': "unat (rem - ?c) = unat rem - 4096" using r c4(1) by simp
      have up: "unat (x + 4096) = unat x + 4096" if "unat x + unat rem \<le> 18446744073709551616" for x :: u64
        using that False unat_add_no_wrap [of x 4096] by simp
      have a: "src + (off + ?c) = ?a + 4096" "unat (?a + 4096) = unat ?a + 4096"
        and b: "dst + (off + ?c) = ?b + 4096" "unat (?b + 4096) = unat ?b + 4096"
        using up [OF less.prems(3)] up [OF less.prems(4)] c4(1) by (simp_all add: add.assoc)
      have ih: "ok m' \<and> (\<forall>p n. disjoint_spans (?b + 4096) (unat rem - 4096) p n \<longrightarrow> gm_read E p n m' = gm_read E p n m1) \<and>
        (\<forall>i. 4096 * i < unat rem - 4096 \<longrightarrow> same_chunk E (unat rem - 4096) (?a + 4096) m1 (?b + 4096) m' i)"
      proof (rule less.hyps [of "rem - ?c" "off + ?c" m1, unfolded a(1) b(1) r', OF _ nx ok1])
        show "disjoint_spans (?a + 4096) (unat rem - 4096) (?b + 4096) (unat rem - 4096)"
          using less.prems(5) False unfolding disjoint_spans_def a(2) b(2) by linarith
      qed (use less.prems(3,4) False a(2) b(2) in linarith)+
      show ?thesis
      proof (intro conjI allI impI)
        show "ok m'" using ih by blast
        fix p n assume "disjoint_spans ?b (unat rem) p n"
        then show "gm_read E p n m' = gm_read E p n m"
          using ih keep1 [of p n] False c4(2) by (auto simp: disjoint_spans_def b(2))
      next
        fix i assume i: "4096 * i < unat rem"
        show "same_chunk E (unat rem) ?a m ?b m' i"
        proof (cases i)
          case 0
          have "gm_read E ?b 4096 m' = gm_read E ?b 4096 m1"
            using ih False by (simp add: disjoint_spans_def b(2))
          then show ?thesis using 0 rd rb False c4(2) by (simp add: same_chunk_def)
        next
          case (Suc j)
          then have sc: "same_chunk E (unat rem - 4096) (?a + 4096) m1 (?b + 4096) m' j" using ih i by simp
          show ?thesis
            unfolding Suc
            by (rule same_chunk_shift [OF _ less.prems(3) less.prems(5) _ sc]) (use i Suc keep1 c4(2) in simp_all)
        qed
      qed
    qed
  qed
qed

end


section \<open>Properties\<close>

lemma span_shift:
  "{A - M ..< A - M + Z} \<inter> {F ..< F + z} = {} \<Longrightarrow> M \<le> A \<Longrightarrow> {A ..< A + Z} \<inter> {M + F ..< M + F + z} = {}"
  for A M Z F z :: nat
proof (rule ccontr)
  assume d: "{A - M ..< A - M + Z} \<inter> {F ..< F + z} = {}" "M \<le> A" and "{A ..< A + Z} \<inter> {M + F ..< M + F + z} \<noteq> {}"
  then obtain i where "A \<le> i" "i < A + Z" "M + F \<le> i" "i < M + F + z" by auto
  then have "i - M \<in> {A - M ..< A - M + Z} \<inter> {F ..< F + z}" using d(2) by auto
  then show False using d(1) by blast
qed

definition ms_state0 :: "byte list mspace_state" where
  "ms_state0 = \<lparr>ls_mem = replicate 512 7, libc_mspaces = Map.empty, libc_mspace_allocations = Map.empty\<rparr>"

lemma mspace_heaps_facts:
  assumes "mspace_reachable E s" and "libc_mspaces s m = Some st" and "libc_mspace_allocations s a = Some x"
  shows "ma_mspace x = m \<Longrightarrow> block_span a x \<subseteq> {unat m + 0x100 ..< unat m + unat (ms_next_offset st)} \<and>
      (\<forall>(off, z)\<in>set (ms_free_list st). block_span a x \<inter> {unat m + unat off ..< unat m + unat off + unat z} = {})"
    and "libc_mspace_allocations s b = Some y \<Longrightarrow> a \<noteq> b \<Longrightarrow> block_span a x \<inter> block_span b y = {}"
    and "unat (ms_active_bytes st) = (\<Sum>(c, z)\<in>live s m. unat z)"
    and "unat (ms_next_offset st) \<le> unat (ms_capacity st)"
proof -
  have ok: "mspaces_ok s" using reachable_ok [OF assms(1)] .
  note h = mspaces_okD(2) [OF ok assms(2)] and mb = mspaces_okD(1) [OF ok assms(2)]
  show "libc_mspace_allocations s b = Some y \<Longrightarrow> a \<noteq> b \<Longrightarrow> block_span a x \<inter> block_span b y = {}"
    using live_disjoint [OF ok assms(3)] by blast
  show "unat (ms_active_bytes st) = (\<Sum>(c, z)\<in>live s m. unat z)"
    using heap_okD(6) [OF h] by (simp add: case_prod_beta)
  show "unat (ms_next_offset st) \<le> unat (ms_capacity st)"
    using heap_okD(1) [OF h] by (simp add: marks_ok_def)
  assume m: "ma_mspace x = m"
  then have l: "(a, ma_size x) \<in> live s m" using assms(3) by (auto simp: live_iff)
  have p: "placed st (a, ma_size x)" using heap_okD(3) [OF h l] .
  have "alloc_cells m (a, ma_size x) \<inter> list_cells (ms_free_list st) = {}" using heap_okD(4) [OF h l] mb by simp
  then have "block_span a x \<inter> {unat m + unat off ..< unat m + unat off + unat z} = {}"
    if "(off, z) \<in> set (ms_free_list st)" for off z
  proof -
    have "alloc_cells m (a, ma_size x) \<inter> cells (off, z) = {}"
      using \<open>alloc_cells m (a, ma_size x) \<inter> list_cells (ms_free_list st) = {}\<close> that
      unfolding list_cells_def by blast
    then show ?thesis
      using p mb unfolding alloc_cells_def cells_def placed_def block_span_def
      by (intro span_shift) simp_all
  qed
  moreover have "block_span a x \<subseteq> {unat m + 0x100 ..< unat m + unat (ms_next_offset st)}"
    using p mb by (auto simp: placed_def block_span_def)
  ultimately show "block_span a x \<subseteq> {unat m + 0x100 ..< unat m + unat (ms_next_offset st)} \<and>
      (\<forall>(off, z)\<in>set (ms_free_list st). block_span a x \<inter> {unat m + unat off ..< unat m + unat off + unat z} = {})"
    by blast
qed

text \<open>C18: Over every history of the calls that keeps clear of the two defects the
  findings report (a request whose first-fit test wraps for some free block, and a
  create over memory of a live heap or past the end of the address space; the
  program accepts both, see the lemma \<open>memalign_wrap_granted\<close> below), each heap's
  live allocations lie inside it past its header, no two live allocations of any
  heaps overlap, none overlaps a free block, and the active-byte counter is the sum
  of the live sizes.\<close>

theorem mspace_heaps_sound:
  assumes "mspace_reachable E s" and "libc_mspaces s m = Some st" and "libc_mspace_allocations s a = Some x"
  shows "(ma_mspace x = m \<longrightarrow> block_span a x \<subseteq> {unat m + 0x100 ..< unat m + unat (ms_next_offset st)} \<and>
      (\<forall>(off, z)\<in>set (ms_free_list st). block_span a x \<inter> {unat m + unat off ..< unat m + unat off + unat z} = {})) \<and>
    (\<forall>b y. libc_mspace_allocations s b = Some y \<longrightarrow> a \<noteq> b \<longrightarrow> block_span a x \<inter> block_span b y = {}) \<and>
    unat (ms_active_bytes st) = (\<Sum>(c, z)\<in>live s m. unat z) \<and>
    unat (ms_next_offset st) \<le> unat (ms_capacity st)"
  by (intro conjI impI allI; (elim conjE)?) (use mspace_heaps_facts [OF assms] in \<open>blast | simp\<close>)+

lemma memalign_grant_facts:
  assumes "mspaces_ok s" and "request_fits (arg args 0) (max (arg args 1) 8) (arg args 2) s"
    and "hle_mspace_memalign args s = (r, s')"
  shows "r = 0 \<Longrightarrow> s' = s"
    and "r \<noteq> 0 \<Longrightarrow> \<exists>st. libc_mspaces s (arg args 0) = Some st \<and>
      {unat r ..< unat r + unat (arg args 2)} \<subseteq>
        {unat (arg args 0) + 0x100 ..< unat (arg args 0) + unat (ms_capacity st)} \<and>
      (\<forall>b y. libc_mspace_allocations s b = Some y \<longrightarrow>
        {unat r ..< unat r + unat (arg args 2)} \<inter> block_span b y = {}) \<and>
      (unat (arg args 0) mod unat (max (arg args 1) 8) = 0 \<longrightarrow> unat r mod unat (max (arg args 1) 8) = 0) \<and>
      hle_mspace_malloc_usable_size [r] s' = arg args 2 \<and> mspaces_ok s'"
proof -
  let ?m = "arg args 0" and ?z = "arg args 2" and ?a = "max (arg args 1) 8"
  note c = memalign_cases [OF assms(1,3) request_fitsD [OF assms(2)]]
  show "s' = s" if "r = 0" using c that by (auto simp: grants_def)
  assume "r \<noteq> 0"
  then obtain st st' where g: "grants ?m ?a ?z st st' r s" and s': "s' = snd (record_block ?m st' r ?z s)"
    using c by blast
  have ok': "mspaces_ok s'" using grants_ok [OF assms(1) g] s' by simp
  have fresh: "libc_mspace_allocations s r = None" by (rule grants_fresh [OF assms(1) g])
  have st: "libc_mspaces s ?m = Some st" "ms_base st = ?m" "ms_base st' = ?m" "ms_capacity st' = ms_capacity st"
    using g mspaces_okD(1) [OF assms(1)] by (auto simp: grants_def)
  have al: "libc_mspace_allocations s' r = Some \<lparr>ma_mspace = ?m, ma_size = ?z\<rparr>"
    and keep: "b \<noteq> r \<Longrightarrow> libc_mspace_allocations s' b = libc_mspace_allocations s b" for b
    by (simp_all add: s' record_block_def)
  have "{unat r ..< unat r + unat ?z} \<inter> block_span b y = {}" if y: "libc_mspace_allocations s b = Some y" for b y
  proof -
    have ne: "r \<noteq> b" using fresh y by auto
    have y': "libc_mspace_allocations s' b = Some y" using y ne keep [of b] by simp
    show ?thesis using live_disjoint [OF ok' al y' ne] by (simp add: block_span_def)
  qed
  moreover have "{unat r ..< unat r + unat ?z} \<subseteq> {unat ?m + 0x100 ..< unat ?m + unat (ms_capacity st)}"
    using grants_placed(1,2) [OF g] st by (auto simp: placed_def marks_ok_def)
  moreover have "hle_mspace_malloc_usable_size [r] s' = ?z"
    using al by (simp add: hle_mspace_malloc_usable_size_def)
  moreover have "unat ?m mod unat ?a = 0 \<longrightarrow> unat r mod unat ?a = 0" using g st by (simp add: grants_def)
  ultimately show "\<exists>st. libc_mspaces s ?m = Some st \<and>
      {unat r ..< unat r + unat ?z} \<subseteq> {unat ?m + 0x100 ..< unat ?m + unat (ms_capacity st)} \<and>
      (\<forall>b y. libc_mspace_allocations s b = Some y \<longrightarrow> {unat r ..< unat r + unat ?z} \<inter> block_span b y = {}) \<and>
      (unat ?m mod unat ?a = 0 \<longrightarrow> unat r mod unat ?a = 0) \<and>
      hle_mspace_malloc_usable_size [r] s' = ?z \<and> mspaces_ok s'"
    using ok' st(1) by (intro exI [of _ st] conjI allI) blast+
qed

text \<open>A request whose end does not wrap and that is granted returns a block
  inside the heap, disjoint from every live allocation of every heap, aligned
  when the heap's base is, recorded with its size; a refused one changes nothing.\<close>

theorem memalign_grant:
  assumes "mspaces_ok s" and "request_fits (arg args 0) (max (arg args 1) 8) (arg args 2) s"
    and "hle_mspace_memalign args s = (r, s')"
  shows "(r = 0 \<longrightarrow> s' = s) \<and> (r \<noteq> 0 \<longrightarrow> (\<exists>st. libc_mspaces s (arg args 0) = Some st \<and>
      {unat r ..< unat r + unat (arg args 2)} \<subseteq>
        {unat (arg args 0) + 0x100 ..< unat (arg args 0) + unat (ms_capacity st)} \<and>
      (\<forall>b y. libc_mspace_allocations s b = Some y \<longrightarrow>
        {unat r ..< unat r + unat (arg args 2)} \<inter> block_span b y = {}) \<and>
      (unat (arg args 0) mod unat (max (arg args 1) 8) = 0 \<longrightarrow> unat r mod unat (max (arg args 1) 8) = 0) \<and>
      hle_mspace_malloc_usable_size [r] s' = arg args 2 \<and> mspaces_ok s'))"
  by (rule conjI; rule impI) (rule memalign_grant_facts [OF assms]; assumption)+


text \<open>A heap of 4 KiB at \<open>0x10000\<close>, one live block and one released block.\<close>

definition ms_demo1 :: "byte list mspace_state" where
  "ms_demo1 = snd (hle_mspace_create test_memory [0, 0x20, 0x1000, 0] ms_state0)"

definition ms_demo2 :: "byte list mspace_state" where
  "ms_demo2 = snd (hle_mspace_malloc [0x20, 0x40] ms_demo1)"

definition ms_demo3 :: "byte list mspace_state" where
  "ms_demo3 = snd (hle_mspace_memalign [0x20, 0x20, 0x18] ms_demo2)"

definition ms_demo4 :: "byte list mspace_state" where
  "ms_demo4 = snd (hle_mspace_free [0x20, 0x120] ms_demo3)"

lemma ms_demo1_eq: "ms_demo1 = ms_state0\<lparr>libc_mspaces := [0x20 \<mapsto> \<lparr>ms_base = 0x20, ms_capacity = 0x1000,
   ms_next_offset = 0x100, ms_peak_offset = 0x100, ms_active_bytes = 0, ms_name = [], ms_free_list = []\<rparr>]\<rparr>"
  by (simp add: ms_demo1_def hle_mspace_create_def ms_state0_def)

lemma ms_demo2_eq: "ms_demo2 = ms_state0\<lparr>libc_mspaces := [0x20 \<mapsto> \<lparr>ms_base = 0x20, ms_capacity = 0x1000,
   ms_next_offset = 0x140, ms_peak_offset = 0x140, ms_active_bytes = 0x40, ms_name = [], ms_free_list = []\<rparr>],
   libc_mspace_allocations := [0x120 \<mapsto> \<lparr>ma_mspace = 0x20, ma_size = 0x40\<rparr>]\<rparr>"
  by (simp add: ms_demo2_def ms_demo1_eq hle_mspace_malloc_def hle_mspace_memalign_def is_power_of_two_def word_le_nat_alt
      bump_range_def checked_add_def mask_down_def record_block_def ms_state0_def saturating_add_def Let_def max_def)

lemma ms_demo3_eq: "ms_demo3 = ms_state0\<lparr>libc_mspaces := [0x20 \<mapsto> \<lparr>ms_base = 0x20, ms_capacity = 0x1000,
   ms_next_offset = 0x158, ms_peak_offset = 0x158, ms_active_bytes = 0x58, ms_name = [], ms_free_list = []\<rparr>],
   libc_mspace_allocations := [0x120 \<mapsto> \<lparr>ma_mspace = 0x20, ma_size = 0x40\<rparr>,
     0x160 \<mapsto> \<lparr>ma_mspace = 0x20, ma_size = 0x18\<rparr>]\<rparr>"
  by (simp add: ms_demo3_def ms_demo2_eq hle_mspace_malloc_def hle_mspace_memalign_def is_power_of_two_def
      bump_range_def checked_add_def mask_down_def record_block_def ms_state0_def saturating_add_def Let_def max_def)

lemma ms_demo4_eq: "ms_demo4 = ms_state0\<lparr>libc_mspaces := [0x20 \<mapsto> \<lparr>ms_base = 0x20, ms_capacity = 0x1000,
   ms_next_offset = 0x158, ms_peak_offset = 0x158, ms_active_bytes = 0x18, ms_name = [], ms_free_list = [(0x100, 0x40)]\<rparr>],
   libc_mspace_allocations := [0x160 \<mapsto> \<lparr>ma_mspace = 0x20, ma_size = 0x18\<rparr>]\<rparr>"
  by (simp add: ms_demo4_def ms_demo3_eq hle_mspace_free_def insert_and_coalesce_def ms_state0_def
      saturating_sub_def Let_def fun_upd_twist)

lemma ms_demo_reachable: "mspace_reachable test_memory ms_demo4" "mspace_reachable test_memory ms_demo3"
    "mspace_reachable test_memory ms_demo2"
proof -
  have "mspace_reachable test_memory ms_state0" by (rule mspace_reachable.start) (simp_all add: ms_state0_def)
  then have "mspace_reachable test_memory ms_demo1"
    unfolding ms_demo1_def by (rule mspace_reachable.create) (simp add: fresh_region_def ms_state0_def)
  then show r: "mspace_reachable test_memory ms_demo2"
    unfolding ms_demo2_def
    by (rule mspace_reachable.malloc) (simp add: request_fits_def ms_demo1_eq span_fits_def ms_state0_def max_def)
  then show r: "mspace_reachable test_memory ms_demo3"
    unfolding ms_demo3_def
    by (rule mspace_reachable.memalign) (simp add: request_fits_def ms_demo2_eq span_fits_def ms_state0_def max_def)
  then show "mspace_reachable test_memory ms_demo4"
    unfolding ms_demo4_def by (rule mspace_reachable.free)
qed

theorem mspace_heaps_sound_witness:
  "block_span 0x160 \<lparr>ma_mspace = 0x20, ma_size = 0x18\<rparr> \<inter> {unat (0x20::u64) + unat (0x100::u64) ..<
     unat (0x20::u64) + unat (0x100::u64) + unat (0x40::u64)} = {}"
proof -
  have "block_span 0x160 \<lparr>ma_mspace = 0x20, ma_size = 0x18\<rparr> \<subseteq> {unat (0x20::u64) + 0x100 ..< unat (0x20::u64) + unat (0x158::u64)} \<and>
      (\<forall>(off, z)\<in>set [(0x100::u64, 0x40::u64)]. block_span 0x160 \<lparr>ma_mspace = 0x20, ma_size = 0x18\<rparr> \<inter>
        {unat (0x20::u64) + unat off ..< unat (0x20::u64) + unat off + unat z} = {})"
    using conjunct1 [OF mspace_heaps_sound [OF ms_demo_reachable(1)], of "0x20" _ "0x160" "\<lparr>ma_mspace = 0x20, ma_size = 0x18\<rparr>"]
    by (simp add: ms_demo4_eq ms_state0_def)
  then show ?thesis by simp
qed

theorem memalign_grant_witness:
  "0x120 \<noteq> (0::u64) \<and> hle_mspace_malloc_usable_size [0x120] (snd (hle_mspace_memalign [0x20, 0x20, 0x18] ms_demo4)) = 0x18"
proof -
  have c: "hle_mspace_memalign [0x20, 0x20, 0x18] ms_demo4 = (0x120, snd (hle_mspace_memalign [0x20, 0x20, 0x18] ms_demo4))"
    by (simp add: ms_demo4_eq hle_mspace_memalign_def is_power_of_two_def aligned_offset_def mask_down_def
        record_block_def ms_state0_def Let_def max_def)
  have f: "request_fits (arg [0x20, 0x20, 0x18] 0) (max (arg [0x20, 0x20, 0x18] 1) 8) (arg [0x20, 0x20, 0x18] 2) ms_demo4"
    by (simp add: request_fits_def ms_demo4_eq span_fits_def ms_state0_def max_def)
  show ?thesis
    using memalign_grant [OF reachable_ok [OF ms_demo_reachable(1)] f c] by fastforce
qed


text \<open>A create over the base of a live heap starts it afresh but leaves its recorded
  allocations in the table: they still count as live, over a heap that believes it
  has handed out nothing.\<close>

lemma create_over_live:
  assumes "ms_demo_new = snd (hle_mspace_create test_memory [0, 0x20, 0x1000, 0] ms_demo3)"
  shows "map_option ms_active_bytes (libc_mspaces ms_demo_new 0x20) = Some 0 \<and>
    libc_mspace_allocations ms_demo_new 0x120 = Some \<lparr>ma_mspace = 0x20, ma_size = 0x40\<rparr> \<and>
    fst (hle_mspace_memalign [0x20, 0x20, 0x40] ms_demo_new) = 0x120"
  unfolding assms
  by (simp add: hle_mspace_create_def ms_demo3_eq hle_mspace_memalign_def is_power_of_two_def bump_range_def
      checked_add_def mask_down_def record_block_def ms_state0_def Let_def max_def word_le_nat_alt word_less_nat_alt)

text \<open>The first-fit test adds the aligned offset and the size with
  wrap-around: a size so large that the sum wraps below the end of the first
  free block is granted that block, with its full size recorded, though the
  heap is far smaller; in the release profile nothing stops it.\<close>

theorem memalign_wrap_granted:
  assumes "libc_mspaces s m = Some st" and "ms_free_list st = (bo, bz) # bs"
    and "is_power_of_two a" and "8 \<le> a" and "ao = aligned_offset (ms_base st) a bo"
    and "18446744073709551616 \<le> unat ao + unat sz"
    and "unat ao + unat sz \<le> 18446744073709551616 + unat (bo + bz)"
  shows "fst (hle_mspace_memalign [m, a, sz] s) = ms_base st + ao \<and>
    hle_mspace_malloc_usable_size [ms_base st + ao] (snd (hle_mspace_memalign [m, a, sz] s)) = sz"
proof -
  have "unat ao + unat sz - 18446744073709551616 < 18446744073709551616"
    using unat_u64_lt [of ao] unat_u64_lt [of sz] by simp
  then have "unat (ao + sz) = unat ao + unat sz - 18446744073709551616"
    using assms(6) by (simp add: unat_word_ariths mod_if)
  then have "ao + sz \<le> bo + bz" using assms(7) by (simp add: word_le_nat_alt)
  then have ch: "choose_block (ms_base st) a sz 0 (ms_free_list st) = Some (0, bo, bz, ao)"
    using assms(2,5) by simp
  have "sz \<noteq> 0" using assms(6) unat_u64_lt [of ao] by auto
  then show ?thesis
    using assms(1,3,4) ch
    by (simp add: hle_mspace_memalign_def Let_def max_def record_block_def hle_mspace_malloc_usable_size_def)
qed

theorem memalign_wrap_granted_witness:
  "fst (hle_mspace_memalign [0x20, 0x10, 0xFFFFFFFFFFFFFF00] ms_demo4) = 0x120 \<and>
   hle_mspace_malloc_usable_size [0x120] (snd (hle_mspace_memalign [0x20, 0x10, 0xFFFFFFFFFFFFFF00] ms_demo4)) =
     0xFFFFFFFFFFFFFF00"
proof -
  have ao: "0x100 = aligned_offset (ms_base \<lparr>ms_base = 0x20, ms_capacity = 0x1000,
      ms_next_offset = 0x158, ms_peak_offset = 0x158, ms_active_bytes = 0x18, ms_name = [],
      ms_free_list = [(0x100, 0x40)]\<rparr>) 0x10 0x100"
    by (simp add: aligned_offset_def mask_down_def)
  have st: "libc_mspaces ms_demo4 0x20 = Some \<lparr>ms_base = 0x20, ms_capacity = 0x1000,
      ms_next_offset = 0x158, ms_peak_offset = 0x158, ms_active_bytes = 0x18, ms_name = [],
      ms_free_list = [(0x100, 0x40)]\<rparr>"
    by (simp add: ms_demo4_eq ms_state0_def)
  show ?thesis
    using memalign_wrap_granted [OF st _ _ _ ao, of "0x40" "[]" "0xFFFFFFFFFFFFFF00"]
    by (simp add: is_power_of_two_def)
qed

lemma free_facts:
  assumes "mspaces_ok s"
  shows "(\<forall>z. (a, z) \<notin> live s m) \<Longrightarrow> hle_mspace_free [m, a] s = (0, s)"
    and "(a, z) \<in> live s m \<Longrightarrow> fst (hle_mspace_free [m, a] s) = 1 \<and>
      (let s' = snd (hle_mspace_free [m, a] s) in
        live s' m = live s m - {(a, z)} \<and> hle_mspace_free [m, a] s' = (0, s') \<and>
        (\<forall>b. b \<noteq> a \<longrightarrow> libc_mspace_allocations s' b = libc_mspace_allocations s b))"
proof -
  note c = free_cases [OF assms, of m a]
  show "(\<forall>z. (a, z) \<notin> live s m) \<Longrightarrow> hle_mspace_free [m, a] s = (0, s)" using c by blast
  assume l: "(a, z) \<in> live s m"
  let ?s' = "snd (hle_mspace_free [m, a] s)"
  have r: "fst (hle_mspace_free [m, a] s) = 1"
    and al: "libc_mspace_allocations ?s' = (libc_mspace_allocations s)(a := None)"
    using c l by force+
  have "hle_mspace_free [m, a] ?s' = (0, ?s')" by (simp add: hle_mspace_free_def [of "[m, a]" ?s'] al)
  moreover have "live ?s' m = live s m - {(a, z)}" using l al by (auto simp: live_iff split: if_splits)
  ultimately show "fst (hle_mspace_free [m, a] s) = 1 \<and>
      (let s' = ?s' in live s' m = live s m - {(a, z)} \<and> hle_mspace_free [m, a] s' = (0, s') \<and>
        (\<forall>b. b \<noteq> a \<longrightarrow> libc_mspace_allocations s' b = libc_mspace_allocations s b))"
    using r al by (simp add: Let_def)
qed

text \<open>A release of an address that is not a live allocation of the named heap
  is refused and changes nothing; one that is live is accepted once, and a
  second release of the same address is refused.\<close>

theorem free_exact:
  assumes "mspaces_ok s"
  shows "((\<forall>z. (a, z) \<notin> live s m) \<longrightarrow> hle_mspace_free [m, a] s = (0, s)) \<and>
    (\<forall>z. (a, z) \<in> live s m \<longrightarrow> fst (hle_mspace_free [m, a] s) = 1 \<and>
      (let s' = snd (hle_mspace_free [m, a] s) in
        live s' m = live s m - {(a, z)} \<and> hle_mspace_free [m, a] s' = (0, s') \<and>
        (\<forall>b. b \<noteq> a \<longrightarrow> libc_mspace_allocations s' b = libc_mspace_allocations s b)))"
  using free_facts(1) [OF assms] free_facts(2) [OF assms, where m = m] by blast

theorem free_exact_witness:
  "fst (hle_mspace_free [0x20, 0x160] ms_demo3) = 1 \<and>
   fst (hle_mspace_free [0x20, 0x160] (snd (hle_mspace_free [0x20, 0x160] ms_demo3))) = 0 \<and>
   hle_mspace_free [0x20, 0x161] ms_demo3 = (0, ms_demo3)"
  using free_exact [OF reachable_ok [OF ms_demo_reachable(2)], of "0x160" "0x20"]
    free_exact [OF reachable_ok [OF ms_demo_reachable(2)], of "0x161" "0x20"]
  by (simp add: Let_def live_iff ms_demo3_eq)


lemma free_mem [simp]: "ls_mem (snd (hle_mspace_free args s)) = ls_mem s"
  by (simp add: hle_mspace_free_def Let_def split: option.split)

lemma free_table:
  "libc_mspace_allocations s a = Some \<lparr>ma_mspace = m, ma_size = z\<rparr> \<Longrightarrow>
     libc_mspace_allocations (snd (hle_mspace_free [m, a] s)) = (libc_mspace_allocations s)(a := None)"
  by (simp add: hle_mspace_free_def Let_def split: option.split)

lemma live_nonnull: "mspaces_ok s \<Longrightarrow> (p, n) \<in> live s m \<Longrightarrow> p \<noteq> 0"
  using live_placed [of s p "\<lparr>ma_mspace = m, ma_size = n\<rparr>"] unfolding live_iff
  by (fastforce simp: placed_def)

lemma live_end:
  assumes "mspaces_ok s" "libc_mspace_allocations s a = Some x"
  shows "unat a + unat (ma_size x) \<le> 18446744073709551616"
proof -
  obtain st where "marks_ok st" "placed st (a, ma_size x)" using live_placed [OF assms] by metis
  then show ?thesis by (simp add: marks_ok_def placed_def)
qed

lemma spans_disjoint:
  assumes "block_span a x \<inter> block_span b y = {}" "n \<le> unat (ma_size x)" "k \<le> unat (ma_size y)" "0 < k" "0 < n"
  shows "disjoint_spans a n b k"
proof (rule ccontr)
  assume "\<not> disjoint_spans a n b k"
  then have "max (unat a) (unat b) \<in> block_span a x \<inter> block_span b y"
    using assms(2-5) by (auto simp: disjoint_spans_def block_span_def max_def)
  then show False using assms(1) by simp
qed

text \<open>The run of a resize: refused, abandoned by the copy, or done.\<close>

lemma realloc_cases:
  assumes ok: "mspaces_ok s" and l: "(p, n) \<in> live s m" and f: "request_fits m 16 (max sz 1) s" and sz: "sz \<noteq> 0"
    and call: "hle_mspace_realloc E [m, p, sz] s = (r, s')"
  obtains "r = 0" "libc_mspace_allocations s' = libc_mspace_allocations s"
  | s1 m1 where "r \<noteq> 0" "mspaces_ok s1" "ls_mem s1 = ls_mem s" "libc_mspace_allocations s r = None"
      "libc_mspace_allocations s1 = (libc_mspace_allocations s)(r \<mapsto> \<lparr>ma_mspace = m, ma_size = sz\<rparr>)"
      "copy_chunks E p r 0 (min n sz) (ls_mem s1) = (True, m1)"
      "s' = snd (hle_mspace_free [m, p] (s1\<lparr>ls_mem := m1\<rparr>))"
proof -
  have al: "libc_mspace_allocations s p = Some \<lparr>ma_mspace = m, ma_size = n\<rparr>" using l by (simp add: live_iff)
  have p0: "p \<noteq> 0" using live_nonnull [OF ok l] .
  obtain q s1 where ma: "hle_mspace_malloc [m, sz] s = (q, s1)" by (cases "hle_mspace_malloc [m, sz] s")
  obtain cp m1 where co: "copy_chunks E p q 0 (min n sz) (ls_mem s1) = (cp, m1)"
    by (cases "copy_chunks E p q 0 (min n sz) (ls_mem s1)")
  have run: "(r, s') = (if q = 0 then (0, s1) else if \<not> cp then (0, snd (hle_mspace_free [m, q] (s1\<lparr>ls_mem := m1\<rparr>)))
      else (q, snd (hle_mspace_free [m, p] (s1\<lparr>ls_mem := m1\<rparr>))))"
    using call p0 sz al ma co by (simp add: hle_mspace_realloc_def Let_def split: if_splits)
  have "1 \<le> sz" using sz by (simp add: word_le_nat_alt Suc_le_eq unat_gt_0)
  then have mx: "max sz 1 = sz" by (rule max_absorb1)
  from malloc_cases [OF ok ma f] consider "q = 0" "s1 = s"
    | st st' where "grants m 16 (max sz 1) st st' q s" "s1 = snd (record_block m st' q (max sz 1) s)" by blast
  then show thesis
  proof cases
    case 1
    then show thesis using that(1) run by simp
  next
    case 2
    have g: "q \<noteq> 0" "libc_mspace_allocations s q = None" "mspaces_ok s1"
      using 2(1) grants_fresh [OF ok 2(1)] grants_ok [OF ok 2(1)] unfolding 2(2) grants_def by blast+
    have t: "libc_mspace_allocations s1 = (libc_mspace_allocations s)(q \<mapsto> \<lparr>ma_mspace = m, ma_size = sz\<rparr>)"
      "ls_mem s1 = ls_mem s" using 2 mx by (simp_all add: record_block_def)
    show thesis
    proof (cases cp)
      case True
      then show thesis using that(2) [of s1 m1] run g t co by simp
    next
      case False
      have "libc_mspace_allocations (snd (hle_mspace_free [m, q] (s1\<lparr>ls_mem := m1\<rparr>))) =
          (libc_mspace_allocations s1)(q := None)"
        using free_table [of "s1\<lparr>ls_mem := m1\<rparr>" q m sz] t by simp
      then show thesis using that(1) run g t False by (simp add: fun_upd_idem)
    qed
  qed
qed

lemma realloc_facts:
  assumes mem: "guest_memory E ok" "ok (ls_mem s)" and heaps: "mspaces_ok s" and l: "(p, n) \<in> live s m"
    and fits: "request_fits m 16 (max sz 1) s" "sz \<noteq> 0" and call: "hle_mspace_realloc E [m, p, sz] s = (r, s')"
  shows "r = 0 \<Longrightarrow> libc_mspace_allocations s' = libc_mspace_allocations s"
    and "r \<noteq> 0 \<Longrightarrow> (r, sz) \<in> live s' m \<and> libc_mspace_allocations s' p = None \<and>
      (\<forall>i. 4096 * i < unat (min n sz) \<longrightarrow> same_chunk E (unat (min n sz)) p (ls_mem s) r (ls_mem s') i) \<and>
      (\<forall>b y. libc_mspace_allocations s b = Some y \<longrightarrow>
        gm_read E b (unat (ma_size y)) (ls_mem s') = gm_read E b (unat (ma_size y)) (ls_mem s))"
proof -
  note cs = realloc_cases [OF heaps l fits call]
  show "libc_mspace_allocations s' = libc_mspace_allocations s" if "r = 0"
    using that by (cases rule: cs) auto
  assume nz: "r \<noteq> 0"
  let ?k = "unat (min n sz)" and ?new = "\<lparr>ma_mspace = m, ma_size = sz\<rparr>" and ?old = "\<lparr>ma_mspace = m, ma_size = n\<rparr>"
  from cs nz obtain s1 m1 where ok1: "mspaces_ok s1" and ms: "ls_mem s1 = ls_mem s"
    and fresh: "libc_mspace_allocations s r = None"
    and t: "libc_mspace_allocations s1 = (libc_mspace_allocations s)(r \<mapsto> ?new)"
    and co: "copy_chunks E p r 0 (min n sz) (ls_mem s1) = (True, m1)"
    and s': "s' = snd (hle_mspace_free [m, p] (s1\<lparr>ls_mem := m1\<rparr>))" by auto
  have old: "libc_mspace_allocations s p = Some ?old" using l by (simp add: live_iff)
  then have ne: "r \<noteq> p" using fresh by auto
  have t': "libc_mspace_allocations s' = (libc_mspace_allocations s1)(p := None)"
    unfolding s' by (subst free_table [where z = n]) (use t old ne in simp_all)
  have a1: "libc_mspace_allocations s1 r = Some ?new" "libc_mspace_allocations s1 p = Some ?old"
    "b \<noteq> r \<Longrightarrow> libc_mspace_allocations s1 b = libc_mspace_allocations s b" for b using t old ne by simp_all
  have k: "?k \<le> unat n" "?k \<le> unat sz" by (simp_all add: unat_min)
  have pos: "0 < unat (ma_size y)" if "libc_mspace_allocations s1 b = Some y" for b y
    by (rule live_placed [OF ok1 that]) (simp add: placed_def)
  have k0: "0 < ?k" using pos [OF a1(1)] pos [OF a1(2)] by (simp add: unat_min)
  have ds: "disjoint_spans r ?k b j" if "libc_mspace_allocations s b = Some y" "j \<le> unat (ma_size y)" "0 < j" for b y j
  proof -
    have b: "r \<noteq> b" using fresh that(1) by auto
    show ?thesis
      by (rule spans_disjoint [OF live_disjoint [OF ok1 a1(1) _ b]]) (use a1(3) [of b] b that k k0 in auto)
  qed
  have sd: "disjoint_spans p ?k r ?k" using ds [OF old, of ?k] k k0 by (auto simp: disjoint_spans_def)
  have e: "unat p + ?k \<le> 18446744073709551616" "unat r + ?k \<le> 18446744073709551616"
    using live_end [OF ok1 a1(1)] live_end [OF ok1 a1(2)] k by simp_all
  have ok': "ok (ls_mem s1)" using mem(2) ms by simp
  have c: "(\<forall>b j. disjoint_spans r ?k b j \<longrightarrow> gm_read E b j m1 = gm_read E b j (ls_mem s)) \<and>
    (\<forall>i. 4096 * i < ?k \<longrightarrow> same_chunk E ?k p (ls_mem s) r m1 i)"
    using guest_memory.copy_chunks_copies [OF mem(1) co ok'] e sd ms by simp
  have m': "ls_mem s' = m1" by (simp add: s')
  have oth: "gm_read E b (unat (ma_size y)) (ls_mem s') = gm_read E b (unat (ma_size y)) (ls_mem s)"
    if "libc_mspace_allocations s b = Some y" for b y
  proof -
    have "libc_mspace_allocations s1 b = Some y" using a1(3) [of b] that fresh by (cases "b = r") auto
    then show ?thesis using ds [OF that order_refl pos] c m' by blast
  qed
  show "(r, sz) \<in> live s' m \<and> libc_mspace_allocations s' p = None \<and>
      (\<forall>i. 4096 * i < ?k \<longrightarrow> same_chunk E ?k p (ls_mem s) r (ls_mem s') i) \<and>
      (\<forall>b y. libc_mspace_allocations s b = Some y \<longrightarrow>
        gm_read E b (unat (ma_size y)) (ls_mem s') = gm_read E b (unat (ma_size y)) (ls_mem s))"
    using t' a1(1) ne c m' oth by (simp add: live_iff)
qed

text \<open>A resize either fails and leaves the table of live allocations as it
  was, or moves the block: the new address is live with the new size, the old
  one is not, each 4 KiB chunk of the surviving prefix reads the same at the
  new address as at the old one before, and the contents of every other live
  allocation are unchanged.\<close>

theorem realloc_moves_contents:
  assumes mem: "guest_memory E ok" "ok (ls_mem s)" and heaps: "mspaces_ok s" and l: "(p, n) \<in> live s m"
    and fits: "request_fits m 16 (max sz 1) s" "sz \<noteq> 0" and call: "hle_mspace_realloc E [m, p, sz] s = (r, s')"
  shows "(r = 0 \<longrightarrow> libc_mspace_allocations s' = libc_mspace_allocations s) \<and>
    (r \<noteq> 0 \<longrightarrow> (r, sz) \<in> live s' m \<and> libc_mspace_allocations s' p = None \<and>
      (\<forall>i. 4096 * i < unat (min n sz) \<longrightarrow> same_chunk E (unat (min n sz)) p (ls_mem s) r (ls_mem s') i) \<and>
      (\<forall>b y. libc_mspace_allocations s b = Some y \<longrightarrow>
        gm_read E b (unat (ma_size y)) (ls_mem s') = gm_read E b (unat (ma_size y)) (ls_mem s)))"
  by (rule conjI; rule impI) (rule realloc_facts [OF assms]; assumption)+


lemma ms_demo_realloc: "fst (hle_mspace_realloc test_memory [0x20, 0x120, 0x10] ms_demo2) = 0x160"
proof -
  have ma: "hle_mspace_malloc [0x20, 0x10] ms_demo2 = (0x160, snd (hle_mspace_malloc [0x20, 0x10] ms_demo2))"
    "ls_mem (snd (hle_mspace_malloc [0x20, 0x10] ms_demo2)) = replicate 512 7"
    by (simp_all add: ms_demo2_eq hle_mspace_malloc_def hle_mspace_memalign_def is_power_of_two_def word_le_nat_alt
      bump_range_def checked_add_def mask_down_def record_block_def ms_state0_def Let_def max_def)
  have co: "fst (copy_chunks test_memory 0x120 0x160 0 0x10 (replicate 512 7))"
    by (subst copy_chunks.simps)
      (simp add: test_memory_def tm_read_def tm_write_def Let_def min_def copy_done word_le_nat_alt)
  have lk: "libc_mspace_allocations ms_demo2 0x120 = Some \<lparr>ma_mspace = 0x20, ma_size = 0x40\<rparr>"
    by (simp add: ms_demo2_eq)
  have mn: "min 0x40 0x10 = (0x10 :: u64)" by (simp add: min_def word_le_nat_alt)
  obtain s1 where s1: "hle_mspace_malloc [0x20, 0x10] ms_demo2 = (0x160, s1)" "ls_mem s1 = replicate 512 7" using ma by metis
  show ?thesis
    using co by (simp add: hle_mspace_realloc_def Let_def lk s1 mn case_prod_beta)
qed

theorem realloc_moves_contents_witness:
  "libc_mspace_allocations (snd (hle_mspace_realloc test_memory [0x20, 0x120, 0x10] ms_demo2)) 0x120 = None \<and>
   same_chunk test_memory 0x10 0x120 (ls_mem ms_demo2) 0x160
     (ls_mem (snd (hle_mspace_realloc test_memory [0x20, 0x120, 0x10] ms_demo2))) 0"
proof -
  have l: "(0x120, 0x40) \<in> live ms_demo2 0x20" by (simp add: live_iff ms_demo2_eq)
  have f: "request_fits 0x20 16 (max 0x10 1) ms_demo2"
    by (simp add: request_fits_def ms_demo2_eq span_fits_def ms_state0_def max_def)
  have c: "hle_mspace_realloc test_memory [0x20, 0x120, 0x10] ms_demo2 =
      (0x160, snd (hle_mspace_realloc test_memory [0x20, 0x120, 0x10] ms_demo2))"
    using ms_demo_realloc by (simp add: prod_eq_iff)
  have mn: "unat (min 0x40 (0x10 :: u64)) = 0x10" by (simp add: unat_min)
  have nz: "(0x160 :: u64) \<noteq> 0" "(0x10 :: u64) \<noteq> 0" by simp_all
  note t = realloc_moves_contents [OF tm.guest_memory_axioms TrueI reachable_ok [OF ms_demo_reachable(3)] l f nz(2) c,
    unfolded mn]
  have "\<forall>i. 4096 * i < 0x10 \<longrightarrow> same_chunk test_memory 0x10 0x120 (ls_mem ms_demo2) 0x160
     (ls_mem (snd (hle_mspace_realloc test_memory [0x20, 0x120, 0x10] ms_demo2))) i"
    and "libc_mspace_allocations (snd (hle_mspace_realloc test_memory [0x20, 0x120, 0x10] ms_demo2)) 0x120 = None"
    using t nz(1) by blast+
  then show ?thesis by (metis mult_0_right zero_less_numeral)
qed

end
