(* ===== verification/Rust_Text.thy ===== *)
theory Rust_Text
  imports Raeen_Prelude
begin

text \<open>
  The text operations of the Rust standard library the sources call, over byte
  lists: \<open>String::from_utf8_lossy\<close>, \<open>str::get\<close> on a byte range,
  \<open>str::parse::<u32>\<close> and the zero-padded decimal \<open>format!("{:0w}")\<close>, with the
  round trip between the last two.
\<close>

section \<open>UTF-8 with replacement\<close>

definition is_cont :: "byte \<Rightarrow> bool" where
  "is_cont b \<longleftrightarrow> 0x80 \<le> b \<and> b \<le> 0xBF"

text \<open>The byte at an index, 0 past the end (no continuation byte).\<close>

definition byte_at :: "byte list \<Rightarrow> nat \<Rightarrow> byte" where
  "byte_at bs i = (if i < length bs then bs ! i else 0)"

text \<open>The second byte a three- or four-byte lead admits.\<close>

definition second_ok :: "byte \<Rightarrow> byte \<Rightarrow> bool" where
  "second_ok b c =
     (if b = 0xE0 then 0xA0 \<le> c \<and> c \<le> 0xBF
      else if b = 0xED then 0x80 \<le> c \<and> c \<le> 0x9F
      else if b = 0xF0 then 0x90 \<le> c \<and> c \<le> 0xBF
      else if b = 0xF4 then 0x80 \<le> c \<and> c \<le> 0x8F
      else is_cont c)"

text \<open>The chunk that starts with \<open>b\<close>: whether it is a character, and how many
  bytes of the rest belong to it; of an ill-formed sequence the maximal subpart.\<close>

definition utf8_chunk :: "byte \<Rightarrow> byte list \<Rightarrow> bool \<times> nat" where
  "utf8_chunk b bs =
     (if b < 0x80 then (True, 0)
      else if 0xC2 \<le> b \<and> b \<le> 0xDF then (if is_cont (byte_at bs 0) then (True, 1) else (False, 0))
      else if 0xE0 \<le> b \<and> b \<le> 0xEF then
        (if \<not> second_ok b (byte_at bs 0) then (False, 0)
         else if \<not> is_cont (byte_at bs 1) then (False, 1) else (True, 2))
      else if 0xF0 \<le> b \<and> b \<le> 0xF4 then
        (if \<not> second_ok b (byte_at bs 0) then (False, 0)
         else if \<not> is_cont (byte_at bs 1) then (False, 1)
         else if \<not> is_cont (byte_at bs 2) then (False, 2) else (True, 3))
      else (False, 0))"

function utf8_lossy :: "byte list \<Rightarrow> byte list" where
  "utf8_lossy [] = []"
| "utf8_lossy (b # bs) =
     (let (ok, k) = utf8_chunk b bs in
      (if ok then b # take k bs else [0xEF, 0xBF, 0xBD]) @ utf8_lossy (drop k bs))"
  by pat_completeness auto

termination by (relation "measure length") auto

lemma utf8_lossy_ascii: "\<forall>b\<in>set bs. b < 0x80 \<Longrightarrow> utf8_lossy bs = bs"
  by (induction bs) (auto simp: utf8_chunk_def)

section \<open>Slices\<close>

definition char_boundary :: "byte list \<Rightarrow> nat \<Rightarrow> bool" where
  "char_boundary t i \<longleftrightarrow> i = 0 \<or> i = length t \<or> (i < length t \<and> \<not> is_cont (t ! i))"

definition str_get :: "byte list \<Rightarrow> nat \<Rightarrow> nat \<Rightarrow> byte list option" where
  "str_get t a b =
     (if a \<le> b \<and> b \<le> length t \<and> char_boundary t a \<and> char_boundary t b
      then Some (take (b - a) (drop a t)) else None)"

lemma str_get_ascii:
  assumes "\<forall>b\<in>set t. b < 0x80" "a \<le> b" "b \<le> length t"
  shows "str_get t a b = Some (take (b - a) (drop a t))"
proof -
  have "char_boundary t i" if "i \<le> length t" for i
  proof (cases "i < length t")
    case True
    then have "t ! i < 0x80" using assms(1) nth_mem by blast
    then show ?thesis using True by (simp add: char_boundary_def is_cont_def not_le)
  qed (use that in \<open>simp add: char_boundary_def\<close>)
  then show ?thesis using assms by (simp add: str_get_def)
qed

section \<open>Decimal numbers\<close>

definition is_digit :: "byte \<Rightarrow> bool" where
  "is_digit b \<longleftrightarrow> 48 \<le> b \<and> b \<le> 57"

definition digits_value :: "byte list \<Rightarrow> nat" where
  "digits_value = foldl (\<lambda>n b. 10 * n + (unat b - 48)) 0"

definition parse_u32 :: "byte list \<Rightarrow> nat option" where
  "parse_u32 s =
     (let body = (case s of [] \<Rightarrow> [] | c # cs \<Rightarrow> if c = 43 then cs else s) in
      if body = [] \<or> \<not> list_all is_digit body \<or> 4294967296 \<le> digits_value body then None
      else Some (digits_value body))"

function dec :: "nat \<Rightarrow> byte list" where
  "dec n = (if n < 10 then [of_nat (48 + n)] else dec (n div 10) @ [of_nat (48 + n mod 10)])"
  by pat_completeness auto

termination by (relation "measure id") auto

declare dec.simps [simp del]

definition pad_dec :: "nat \<Rightarrow> nat \<Rightarrow> byte list" where
  "pad_dec w n = replicate (w - length (dec n)) 48 @ dec n"

lemma unat_digit: "d < 10 \<Longrightarrow> unat (of_nat (48 + d) :: byte) = 48 + d"
  by (simp only: unat_of_nat) (simp add: take_bit_nat_def)

lemma digit_byte: "d < 10 \<Longrightarrow> is_digit (of_nat (48 + d))"
  using unat_digit [of d] by (simp add: is_digit_def word_le_nat_alt)

lemma digits_value_snoc: "digits_value (bs @ [b]) = 10 * digits_value bs + (unat b - 48)"
  by (simp add: digits_value_def)

lemma digits_value_zeros: "digits_value (replicate k 48 @ bs) = digits_value bs"
proof -
  have "foldl (\<lambda>n b. 10 * n + (unat b - 48)) 0 (replicate k (48::byte)) = 0" by (induction k) auto
  then show ?thesis by (simp add: digits_value_def)
qed

lemma dec_digits: "dec n \<noteq> [] \<and> list_all is_digit (dec n) \<and> digits_value (dec n) = n"
proof (induction n rule: less_induct)
  case (less n)
  show ?case
  proof (cases "n < 10")
    case True
    then show ?thesis
      using digit_byte [OF True] unat_digit [OF True] by (subst dec.simps, subst dec.simps, subst dec.simps) (simp add: digits_value_def)
  next
    case False
    then have ih: "list_all is_digit (dec (n div 10))" "digits_value (dec (n div 10)) = n div 10"
      using less [of "n div 10"] by simp_all
    have e: "dec n = dec (n div 10) @ [of_nat (48 + n mod 10)]" using False by (subst dec.simps) simp
    have "digits_value (dec n) = 10 * (n div 10) + n mod 10"
      unfolding e digits_value_snoc ih(2) using unat_digit [of "n mod 10"] by simp
    then show ?thesis using ih(1) digit_byte [of "n mod 10"] unfolding e by simp
  qed
qed

lemma dec_length: "0 < w \<Longrightarrow> n < 10 ^ w \<Longrightarrow> length (dec n) \<le> w"
proof (induction w arbitrary: n)
  case (Suc w)
  show ?case
  proof (cases "n < 10")
    case True
    then show ?thesis by (subst dec.simps) simp
  next
    case False
    then have "0 < w" using Suc.prems(2) by (cases w) auto
    moreover have "n div 10 < 10 ^ w" using Suc.prems(2) by (simp add: less_mult_imp_div_less)
    ultimately have "length (dec (n div 10)) \<le> w" using Suc.IH by blast
    then show ?thesis using False by (subst dec.simps) simp
  qed
qed simp

lemma pad_dec_facts:
  assumes "0 < w" "n < 10 ^ w"
  shows "length (pad_dec w n) = w" "list_all is_digit (pad_dec w n)" "digits_value (pad_dec w n) = n"
proof -
  show "length (pad_dec w n) = w" using dec_length [OF assms] by (simp add: pad_dec_def)
  show "list_all is_digit (pad_dec w n)"
    using dec_digits [of n] by (auto simp: pad_dec_def list_all_iff is_digit_def)
  show "digits_value (pad_dec w n) = n"
    using dec_digits [of n] by (simp add: pad_dec_def digits_value_zeros)
qed

text \<open>Printing with a fixed width and parsing back.\<close>

lemma parse_pad_dec:
  assumes "0 < w" "n < 10 ^ w" "n < 4294967296"
  shows "parse_u32 (pad_dec w n) = Some n"
proof -
  note p = pad_dec_facts [OF assms(1,2)]
  obtain c cs where s: "pad_dec w n = c # cs" using p(1) assms(1) by (cases "pad_dec w n") auto
  have "c \<noteq> 43" using p(2) s by (auto simp: is_digit_def)
  then show ?thesis using p s assms(3) by (simp add: parse_u32_def Let_def)
qed

lemma digit_ascii: "is_digit b \<Longrightarrow> b < 0x80"
  by (simp add: is_digit_def word_le_nat_alt word_less_nat_alt)

text \<open>Text that a C string can carry and UTF-8 leaves alone.\<close>

definition plain :: "byte \<Rightarrow> bool" where
  "plain b \<longleftrightarrow> b < 0x80 \<and> b \<noteq> 0"

lemma plain_ascii: "\<forall>b\<in>A. plain b \<Longrightarrow> \<forall>b\<in>A. b < 0x80"
  by (simp add: plain_def)

lemma pad_dec_plain: "0 < w \<Longrightarrow> n < 10 ^ w \<Longrightarrow> b \<in> set (pad_dec w n) \<Longrightarrow> plain b"
proof -
  assume "0 < w" "n < 10 ^ w" "b \<in> set (pad_dec w n)"
  then have "is_digit b" using pad_dec_facts(2) by (simp add: list_all_iff)
  then show "plain b" using digit_ascii [of b] by (auto simp: plain_def is_digit_def)
qed

end
