(* ===== verification/Rtc_Calendar.thy ===== *)
theory Rtc_Calendar
  imports Guest_Memory Rust_Text "HOL-Library.Signed_Division"
begin

text \<open>
  The calendar of \<open>crates/raeen-hle/src/libsce_rtc.rs\<close>: the conversions between
  a tick (microseconds since 0001-01-01) and a broken-out date, the queries and
  the validation of dates, tick arithmetic and the RFC 3339 text form.

  The host clock and the host's time-zone bias are arguments (\<open>now\<close>,
  \<open>bias\<close>).  The \<open>i64\<close> computations are on \<open>int\<close>: with the 16-bit years and the
  64-bit ticks that feed them no intermediate leaves the \<open>i64\<close> range.
  \<open>sdiv\<close> is Rust's division, which truncates towards zero.
\<close>

section \<open>Constants and types\<close>

abbreviation (input) ERR_INVALID_POINTER :: u64 where "ERR_INVALID_POINTER \<equiv> 0x80B50002"
abbreviation (input) ERR_INVALID_VALUE :: u64 where "ERR_INVALID_VALUE \<equiv> 0x80B50003"
abbreviation (input) ERR_INVALID_ARG :: u64 where "ERR_INVALID_ARG \<equiv> 0x80B50004"
abbreviation (input) ERR_INVALID_YEAR :: u64 where "ERR_INVALID_YEAR \<equiv> 0x80B50008"
abbreviation (input) ERR_INVALID_MONTH :: u64 where "ERR_INVALID_MONTH \<equiv> 0x80B50009"
abbreviation (input) ERR_INVALID_DAY :: u64 where "ERR_INVALID_DAY \<equiv> 0x80B5000A"
abbreviation (input) ERR_INVALID_HOUR :: u64 where "ERR_INVALID_HOUR \<equiv> 0x80B5000B"
abbreviation (input) ERR_INVALID_MINUTE :: u64 where "ERR_INVALID_MINUTE \<equiv> 0x80B5000C"
abbreviation (input) ERR_INVALID_SECOND :: u64 where "ERR_INVALID_SECOND \<equiv> 0x80B5000D"
abbreviation (input) ERR_INVALID_MICROSECOND :: u64 where "ERR_INVALID_MICROSECOND \<equiv> 0x80B5000E"

abbreviation (input) UNIX_EPOCH_TICKS :: u64 where "UNIX_EPOCH_TICKS \<equiv> 62135596800000000"
abbreviation (input) US_SECOND :: u64 where "US_SECOND \<equiv> 1000000"
abbreviation (input) US_MINUTE :: u64 where "US_MINUTE \<equiv> 60000000"
abbreviation (input) US_HOUR :: u64 where "US_HOUR \<equiv> 3600000000"
abbreviation (input) US_DAY :: u64 where "US_DAY \<equiv> 86400000000"
abbreviation (input) US_WEEK :: u64 where "US_WEEK \<equiv> 604800000000"

record date_time =
  dt_year :: u16
  dt_month :: u16
  dt_day :: u16
  dt_hour :: u16
  dt_minute :: u16
  dt_second :: u16
  dt_micro :: u32

section \<open>Calendar rules\<close>

definition is_leap :: "int \<Rightarrow> bool" where
  "is_leap year \<longleftrightarrow> (year mod 4 = 0 \<and> year mod 100 \<noteq> 0) \<or> year mod 400 = 0"

definition days_in_month :: "int \<Rightarrow> int \<Rightarrow> int" where
  "days_in_month year month =
     (if month \<in> {1, 3, 5, 7, 8, 10, 12} then 31
      else if month \<in> {4, 6, 9, 11} then 30
      else if month = 2 then (if is_leap year then 29 else 28)
      else 0)"

definition day_of_week :: "int \<Rightarrow> int \<Rightarrow> int \<Rightarrow> int" where
  "day_of_week year0 month day =
     (let year = (if month < 3 then year0 - 1 else year0) in
      (year + year sdiv 4 - year sdiv 100 + year sdiv 400
        + [0, 3, 2, 5, 0, 3, 5, 1, 4, 6, 2, 4] ! nat (month - 1) + day) mod 7)"

definition civil_from_days :: "int \<Rightarrow> int \<times> int \<times> int" where
  "civil_from_days days =
     (let z = days + 719468;
          era = (if 0 \<le> z then z else z - 146096) sdiv 146097;
          doe = z - era * 146097;
          yoe = (doe - doe sdiv 1460 + doe sdiv 36524 - doe sdiv 146096) sdiv 365;
          year = yoe + era * 400;
          doy = doe - (365 * yoe + yoe sdiv 4 - yoe sdiv 100);
          mp = (5 * doy + 2) sdiv 153;
          day = doy - (153 * mp + 2) sdiv 5 + 1;
          month = (if mp < 10 then mp + 3 else mp - 9)
      in (year + (if month \<le> 2 then 1 else 0), month, day))"

definition tick_to_datetime :: "u64 \<Rightarrow> date_time" where
  "tick_to_datetime tick =
     (let unix_micros = saturating_sub tick UNIX_EPOCH_TICKS;
          (year, month, day) = civil_from_days (uint (unix_micros div US_DAY));
          r = unix_micros mod US_DAY
      in \<lparr>dt_year = word_of_int year, dt_month = word_of_int month, dt_day = word_of_int day,
          dt_hour = ucast (r div US_HOUR), dt_minute = ucast (r mod US_HOUR div US_MINUTE),
          dt_second = ucast (r mod US_MINUTE div US_SECOND), dt_micro = ucast (r mod US_SECOND)\<rparr>)"

definition days_from_civil :: "int \<Rightarrow> int \<Rightarrow> int \<Rightarrow> int" where
  "days_from_civil year m day =
     (let y = year - (if m \<le> 2 then 1 else 0);
          era = (if 0 \<le> y then y else y - 399) sdiv 400;
          yoe = y - era * 400;
          doy = (153 * (if m > 2 then m - 3 else m + 9) + 2) sdiv 5 + day - 1;
          doe = yoe * 365 + yoe sdiv 4 - yoe sdiv 100 + doy
      in era * 146097 + doe - 719468)"

definition datetime_to_tick :: "date_time \<Rightarrow> u64" where
  "datetime_to_tick dt =
     (let days = days_from_civil (uint (dt_year dt)) (uint (dt_month dt)) (uint (dt_day dt));
          unix_micros = days * 86400000000 + uint (dt_hour dt) * 3600000000
            + uint (dt_minute dt) * 60000000 + uint (dt_second dt) * 1000000 + uint (dt_micro dt)
      in word_of_int (max 0 (unix_micros + 62135596800000000)))"

section \<open>Dates in guest memory\<close>

definition datetime_bytes :: "date_time \<Rightarrow> byte list" where
  "datetime_bytes dt = le_bytes 2 (dt_year dt) @ le_bytes 2 (dt_month dt) @ le_bytes 2 (dt_day dt) @
     le_bytes 2 (dt_hour dt) @ le_bytes 2 (dt_minute dt) @ le_bytes 2 (dt_second dt) @ le_bytes 4 (dt_micro dt)"

definition write_datetime :: "('m, 'x) mem_ops_scheme \<Rightarrow> u64 \<Rightarrow> date_time \<Rightarrow> 'm \<Rightarrow> bool \<times> 'm" where
  "write_datetime E addr dt m = gm_write E addr (datetime_bytes dt) m"

definition bytes_datetime :: "byte list \<Rightarrow> date_time" where
  "bytes_datetime b =
     \<lparr>dt_year = le_word [b ! 0, b ! 1], dt_month = le_word [b ! 2, b ! 3], dt_day = le_word [b ! 4, b ! 5],
      dt_hour = le_word [b ! 6, b ! 7], dt_minute = le_word [b ! 8, b ! 9], dt_second = le_word [b ! 10, b ! 11],
      dt_micro = le_word [b ! 12, b ! 13, b ! 14, b ! 15]\<rparr>"

definition read_datetime :: "('m, 'x) mem_ops_scheme \<Rightarrow> u64 \<Rightarrow> 'm \<Rightarrow> date_time option" where
  "read_datetime E addr m = map_option bytes_datetime (gm_read E addr 16 m)"

definition read_tick :: "('m, 'x) mem_ops_scheme \<Rightarrow> u64 \<Rightarrow> 'm \<Rightarrow> u64 option" where
  "read_tick E addr m = map_option le_word (gm_read E addr 8 m)"

text \<open>A store whose failure is \<open>ERR_INVALID_POINTER\<close>.\<close>

definition rtc_store :: "bool \<times> 'm \<Rightarrow> u64 \<times> 'm" where
  "rtc_store r = (if fst r then 0 else ERR_INVALID_POINTER, snd r)"

definition write_tick :: "('m, 'x) mem_ops_scheme \<Rightarrow> u64 \<Rightarrow> u64 \<Rightarrow> 'm \<Rightarrow> u64 \<times> 'm" where
  "write_tick E addr tick m = rtc_store (gm_write E addr (u64_bytes tick) m)"

section \<open>The calls\<close>

definition hle_get_current_tick :: "('m, 'x) mem_ops_scheme \<Rightarrow> u64 \<Rightarrow> u64 list \<Rightarrow> 'm \<Rightarrow> u64 \<times> 'm" where
  "hle_get_current_tick E now args m =
     (if arg args 0 = 0 then (ERR_INVALID_POINTER, m) else write_tick E (arg args 0) now m)"

definition hle_get_current_clock :: "('m, 'x) mem_ops_scheme \<Rightarrow> u64 \<Rightarrow> u64 list \<Rightarrow> 'm \<Rightarrow> u64 \<times> 'm" where
  "hle_get_current_clock E now args m =
     (if arg args 0 = 0 then (ERR_INVALID_POINTER, m)
      else rtc_store (write_datetime E (arg args 0) (tick_to_datetime now) m))"

definition hle_is_leap_year :: "u64 list \<Rightarrow> u64" where
  "hle_is_leap_year args =
     (let year = as_i32 (arg args 0) in
      if \<not> (1 \<le> year \<and> year \<le> 9999) then ERR_INVALID_YEAR else if is_leap year then 1 else 0)"

definition hle_get_days_in_month :: "u64 list \<Rightarrow> u64" where
  "hle_get_days_in_month args =
     (let year = as_i32 (arg args 0); month = as_i32 (arg args 1) in
      if \<not> (1 \<le> year \<and> year \<le> 9999) then ERR_INVALID_YEAR
      else if \<not> (1 \<le> month \<and> month \<le> 12) then ERR_INVALID_MONTH
      else i32_to_u64 (days_in_month year month))"

definition hle_get_day_of_week :: "u64 list \<Rightarrow> u64" where
  "hle_get_day_of_week args =
     (let year = as_i32 (arg args 0); month = as_i32 (arg args 1); day = as_i32 (arg args 2) in
      if \<not> (1 \<le> year \<and> year \<le> 9999) \<or> \<not> (1 \<le> month \<and> month \<le> 12) then ERR_INVALID_ARG
      else if day < 1 \<or> day > days_in_month year month then ERR_INVALID_ARG
      else i32_to_u64 (day_of_week year month day))"

definition hle_get_tick :: "('m, 'x) mem_ops_scheme \<Rightarrow> u64 list \<Rightarrow> 'm \<Rightarrow> u64 \<times> 'm" where
  "hle_get_tick E args m =
     (if arg args 0 = 0 \<or> arg args 1 = 0 then (ERR_INVALID_POINTER, m)
      else case read_datetime E (arg args 0) m of
          None \<Rightarrow> (ERR_INVALID_POINTER, m)
        | Some dt \<Rightarrow> write_tick E (arg args 1) (datetime_to_tick dt) m)"

definition hle_get_time_t :: "('m, 'x) mem_ops_scheme \<Rightarrow> u64 list \<Rightarrow> 'm \<Rightarrow> u64 \<times> 'm" where
  "hle_get_time_t E args m =
     (if arg args 0 = 0 \<or> arg args 1 = 0 then (ERR_INVALID_POINTER, m)
      else case read_datetime E (arg args 0) m of
          None \<Rightarrow> (ERR_INVALID_POINTER, m)
        | Some dt \<Rightarrow> write_tick E (arg args 1)
            (saturating_sub (datetime_to_tick dt) UNIX_EPOCH_TICKS div US_SECOND) m)"

definition hle_set_tick :: "('m, 'x) mem_ops_scheme \<Rightarrow> u64 list \<Rightarrow> 'm \<Rightarrow> u64 \<times> 'm" where
  "hle_set_tick E args m =
     (if arg args 0 = 0 \<or> arg args 1 = 0 then (ERR_INVALID_POINTER, m)
      else case read_tick E (arg args 1) m of
          None \<Rightarrow> (ERR_INVALID_POINTER, m)
        | Some t \<Rightarrow> rtc_store (write_datetime E (arg args 0) (tick_to_datetime t) m))"

definition hle_set_time_t :: "('m, 'x) mem_ops_scheme \<Rightarrow> u64 list \<Rightarrow> 'm \<Rightarrow> u64 \<times> 'm" where
  "hle_set_time_t E args m =
     (let seconds = arg args 1 in
      if arg args 0 = 0 then (ERR_INVALID_POINTER, m)
      else if sint seconds < 0 then (ERR_INVALID_VALUE, m)
      else if 18446744073709551616 \<le> unat seconds * 1000000 then (ERR_INVALID_VALUE, m)
      else rtc_store (write_datetime E (arg args 0)
        (tick_to_datetime (saturating_add UNIX_EPOCH_TICKS (seconds * US_SECOND))) m))"

definition hle_convert_utc_to_local_time ::
  "('m, 'x) mem_ops_scheme \<Rightarrow> int \<Rightarrow> u64 list \<Rightarrow> 'm \<Rightarrow> u64 \<times> 'm" where
  "hle_convert_utc_to_local_time E bias args m =
     (if arg args 0 = 0 \<or> arg args 1 = 0 then (ERR_INVALID_POINTER, m)
      else case read_tick E (arg args 0) m of
          None \<Rightarrow> (ERR_INVALID_POINTER, m)
        | Some t \<Rightarrow>
            let local = t - word_of_int bias in
            if sint local < 0 then (ERR_INVALID_VALUE, m) else write_tick E (arg args 1) local m)"

definition check_datetime :: "date_time \<Rightarrow> u64" where
  "check_datetime dt =
     (let year = uint (dt_year dt); month = uint (dt_month dt); day = uint (dt_day dt) in
      if \<not> (1 \<le> year \<and> year \<le> 9999) then ERR_INVALID_YEAR
      else if \<not> (1 \<le> month \<and> month \<le> 12) then ERR_INVALID_MONTH
      else if day < 1 \<or> day > days_in_month year month then ERR_INVALID_DAY
      else if dt_hour dt > 23 then ERR_INVALID_HOUR
      else if dt_minute dt > 59 then ERR_INVALID_MINUTE
      else if dt_second dt > 59 then ERR_INVALID_SECOND
      else if dt_micro dt > 999999 then ERR_INVALID_MICROSECOND
      else 0)"

definition hle_check_valid :: "('m, 'x) mem_ops_scheme \<Rightarrow> u64 list \<Rightarrow> 'm \<Rightarrow> u64" where
  "hle_check_valid E args m =
     (if arg args 0 = 0 then ERR_INVALID_POINTER
      else case read_datetime E (arg args 0) m of None \<Rightarrow> ERR_INVALID_POINTER | Some dt \<Rightarrow> check_datetime dt)"

definition hle_compare_tick :: "('m, 'x) mem_ops_scheme \<Rightarrow> u64 list \<Rightarrow> 'm \<Rightarrow> u64" where
  "hle_compare_tick E args m =
     (if arg args 0 = 0 \<or> arg args 1 = 0 then ERR_INVALID_POINTER
      else case (read_tick E (arg args 0) m, read_tick E (arg args 1) m) of
          (Some t1, Some t2) \<Rightarrow> if t1 < t2 then i32_to_u64 (- 1) else if t1 = t2 then 0 else 1
        | _ \<Rightarrow> ERR_INVALID_POINTER)"

text \<open>\<open>i64\<close> results are checked against the range of the type.\<close>

definition i64_range :: "int \<Rightarrow> bool" where
  "i64_range n \<longleftrightarrow> - 9223372036854775808 \<le> n \<and> n < 9223372036854775808"

definition hle_tick_add :: "u64 \<Rightarrow> ('m, 'x) mem_ops_scheme \<Rightarrow> u64 list \<Rightarrow> 'm \<Rightarrow> u64 \<times> 'm" where
  "hle_tick_add unit E args m =
     (let n = sint (arg args 2) in
      if arg args 0 = 0 \<or> arg args 1 = 0 then (ERR_INVALID_POINTER, m)
      else case read_tick E (arg args 1) m of
          None \<Rightarrow> (ERR_INVALID_POINTER, m)
        | Some t \<Rightarrow>
            let source = sint t; delta = n * sint unit in
            if \<not> i64_range delta then (ERR_INVALID_VALUE, m)
            else if \<not> i64_range (source + delta) \<or> source + delta < 0 then (ERR_INVALID_VALUE, m)
            else write_tick E (arg args 0) (word_of_int (source + delta)) m)"

section \<open>The text form\<close>

definition tz_suffix :: "int \<Rightarrow> byte list" where
  "tz_suffix tz = (if tz = 0 then [90]
     else (if tz < 0 then 45 else 43) # pad_dec 2 (nat \<bar>tz\<bar> div 60) @ [58] @ pad_dec 2 (nat \<bar>tz\<bar> mod 60))"

definition rfc3339_text :: "date_time \<Rightarrow> int \<Rightarrow> byte list" where
  "rfc3339_text dt tz =
     pad_dec 4 (unat (dt_year dt)) @ [45] @ pad_dec 2 (unat (dt_month dt)) @ [45] @ pad_dec 2 (unat (dt_day dt)) @ [84] @
     pad_dec 2 (unat (dt_hour dt)) @ [58] @ pad_dec 2 (unat (dt_minute dt)) @ [58] @ pad_dec 2 (unat (dt_second dt)) @
     [46] @ pad_dec 2 (unat (dt_micro dt) div 10000) @ tz_suffix tz @ [0]"

definition shift_tick :: "u64 \<Rightarrow> int \<Rightarrow> u64" where
  "shift_tick tick tz =
     (if 0 \<le> tz then saturating_add tick (word_of_int tz * US_MINUTE)
      else saturating_sub tick (word_of_int \<bar>tz\<bar> * US_MINUTE))"

definition write_out_struct :: "('m, 'x) mem_ops_scheme \<Rightarrow> u64 \<Rightarrow> nat \<Rightarrow> byte list \<Rightarrow> 'm \<Rightarrow> bool \<times> 'm" where
  "write_out_struct E ptr abi_size payload m =
     (if ptr = 0 then (False, m)
      else let n = (if abi_size < length payload then abi_size else length payload) in
        if n = 0 then (True, m) else gm_write E ptr (take n payload) m)"

definition hle_format_rfc3339 :: "('m, 'x) mem_ops_scheme \<Rightarrow> u64 \<Rightarrow> u64 list \<Rightarrow> 'm \<Rightarrow> u64 \<times> 'm" where
  "hle_format_rfc3339 E now args m =
     (let out_ptr = arg args 0; tick_ptr = arg args 1; tz = as_i32 (arg args 2) in
      if out_ptr = 0 then (ERR_INVALID_POINTER, m)
      else if \<not> (- 840 \<le> tz \<and> tz \<le> 840) then (ERR_INVALID_ARG, m)
      else case (if tick_ptr = 0 then Some now else read_tick E tick_ptr m) of
          None \<Rightarrow> (ERR_INVALID_POINTER, m)
        | Some tick \<Rightarrow>
            let dt = tick_to_datetime (shift_tick tick tz) in
            if dt_year dt > 9999 then (ERR_INVALID_VALUE, m)
            else rtc_store (write_out_struct E out_ptr 32 (rfc3339_text dt tz) m))"

fun read_text :: "('m, 'x) mem_ops_scheme \<Rightarrow> u64 \<Rightarrow> nat \<Rightarrow> nat \<Rightarrow> byte list \<Rightarrow> 'm \<Rightarrow> byte list option" where
  "read_text E ptr offset 0 raw m = Some raw"
| "read_text E ptr offset (Suc k) raw m =
     (case gm_read E (ptr + of_nat offset) 1 m of
        None \<Rightarrow> None
      | Some b \<Rightarrow> if b ! 0 = 0 then Some raw else read_text E ptr (offset + 1) k (raw @ [b ! 0]) m)"

text \<open>The fraction from a cursor on, over the bytes that follow it.\<close>

fun parse_fraction :: "nat \<Rightarrow> nat \<Rightarrow> nat \<Rightarrow> byte list \<Rightarrow> nat \<times> nat" where
  "parse_fraction scale micro cursor [] = (cursor, micro)"
| "parse_fraction scale micro cursor (d # ds) =
     (if \<not> is_digit d then (cursor, micro)
      else let micro' = micro + (unat d - 48) * scale; scale' = scale div 10 in
        if scale' = 0 then (cursor + 1 + length (takeWhile is_digit ds), micro')
        else parse_fraction scale' micro' (cursor + 1) ds)"

definition digits_at :: "byte list \<Rightarrow> nat \<Rightarrow> nat \<Rightarrow> nat option" where
  "digits_at t a b = (case str_get t a b of None \<Rightarrow> None | Some s \<Rightarrow> parse_u32 s)"

definition apply_tz :: "byte list \<Rightarrow> nat \<Rightarrow> u64 \<Rightarrow> u64 option" where
  "apply_tz t cursor tick =
     (if length t \<le> cursor then Some tick
      else let c = t ! cursor in
        if c = 90 \<or> c = 122 then Some tick
        else if c = 43 \<or> c = 45 then
          (case (digits_at t (cursor + 1) (cursor + 3), digits_at t (cursor + 4) (cursor + 6)) of
             (Some hh, Some mm) \<Rightarrow>
               let offset_us = of_nat (hh * 60 + mm) * US_MINUTE in
               Some (if c = 43 then saturating_sub tick offset_us else saturating_add tick offset_us)
           | _ \<Rightarrow> None)
        else None)"

definition rfc3339_parse :: "byte list \<Rightarrow> u64 option" where
  "rfc3339_parse raw =
     (let t = utf8_lossy raw in
      if length t < 19 then None
      else case (digits_at t 0 4, digits_at t 5 7, digits_at t 8 10, digits_at t 11 13, digits_at t 14 16, digits_at t 17 19) of
          (Some year, Some month, Some day, Some hour, Some minute, Some second) \<Rightarrow>
            let (cursor, micro) = (if 19 < length t \<and> t ! 19 = 46 then parse_fraction 100000 0 20 (drop 20 t) else (19, 0));
                dt = \<lparr>dt_year = of_nat year, dt_month = of_nat month, dt_day = of_nat day, dt_hour = of_nat hour,
                      dt_minute = of_nat minute, dt_second = of_nat second, dt_micro = of_nat micro\<rparr>
            in apply_tz t cursor (datetime_to_tick dt)
        | _ \<Rightarrow> None)"

definition hle_parse_rfc3339 :: "('m, 'x) mem_ops_scheme \<Rightarrow> u64 list \<Rightarrow> 'm \<Rightarrow> u64 \<times> 'm" where
  "hle_parse_rfc3339 E args m =
     (if arg args 0 = 0 \<or> arg args 1 = 0 then (ERR_INVALID_POINTER, m)
      else case read_text E (arg args 1) 0 64 [] m of
          None \<Rightarrow> (ERR_INVALID_POINTER, m)
        | Some raw \<Rightarrow>
            (case rfc3339_parse raw of
               None \<Rightarrow> (ERR_INVALID_VALUE, m)
             | Some tick \<Rightarrow> write_tick E (arg args 0) tick m))"


section \<open>The civil-date algorithm\<close>

lemma sdiv_pos: "0 \<le> a \<Longrightarrow> 0 \<le> b \<Longrightarrow> a sdiv b = a div b" for a b :: int
  by (cases "a = 0"; cases "b = 0") (simp_all add: signed_divide_int_def)

lemma quotientI: "b * q \<le> a \<Longrightarrow> a < b * q + b \<Longrightarrow> a div b = q" for a b q :: int
  by (rule int_div_pos_eq [of a b q "a - b * q"]) auto

lemma quotient_step:
  fixes a b :: int
  assumes "0 < b" shows "(a + 1) div b = a div b + (if (a + 1) mod b = 0 then 1 else 0)"
proof -
  define q r where "q = (a + 1) div b" and "r = (a + 1) mod b"
  have "b * q + r = a + 1" unfolding q_def r_def by (rule mult_div_mod_eq)
  then have e: "a = b * q + r - 1" "0 \<le> r" "r < b" using assms by (simp_all add: r_def)
  have "a div b = q - (if r = 0 then 1 else 0)"
  proof (cases "r = 0")
    case True
    then show ?thesis using e assms by (intro quotientI) (simp_all add: right_diff_distrib)
  next
    case False
    then show ?thesis using e by (intro quotientI) simp_all
  qed
  then show ?thesis by (simp add: q_def r_def)
qed

lemma quotient_step_le: "0 < b \<Longrightarrow> (a + 1) div b \<le> a div b + 1" for a b :: int
  using quotient_step [of b a] by (cases "(a + 1) mod b = 0") simp_all

text \<open>Inside a 400-year era that starts on March 1: the first day of year \<open>y\<close>,
  its length, and the corrected day number whose quotient by 365 is the year.\<close>

definition year_start :: "int \<Rightarrow> int" where
  "year_start y = 365 * y + y div 4 - y div 100"

definition year_last :: "int \<Rightarrow> int" where
  "year_last y = 364 + (if is_leap (y + 1) then 1 else 0)"

definition corrected :: "int \<Rightarrow> int" where
  "corrected doe = doe - doe div 1460 + doe div 36524 - doe div 146096"

lemma corrected_step:
  assumes "0 \<le> n" "n < 146096" shows "corrected n \<le> corrected (n + 1)"
proof (cases "n + 1 = 146096")
  case True
  then have "n = 146095" by simp
  then show ?thesis by (simp add: corrected_def)
next
  case False
  then have "n div 146096 = 0" "(n + 1) div 146096 = 0" using assms by simp_all
  moreover have "(n + 1) div 1460 \<le> n div 1460 + 1" by (rule quotient_step_le) simp
  moreover have "n div 36524 \<le> (n + 1) div 36524" by (rule zdiv_mono1) simp_all
  ultimately show ?thesis unfolding corrected_def by linarith
qed

lemma corrected_mono:
  assumes "0 \<le> a" "a \<le> b" "b \<le> 146096" shows "corrected a \<le> corrected b"
proof -
  have "corrected a \<le> corrected (a + int k)" if "a + int k \<le> 146096" for k
    using that
  proof (induction k)
    case (Suc k)
    then have "corrected (a + int k) \<le> corrected (a + int k + 1)"
      using assms(1) by (intro corrected_step) auto
    then show ?case using Suc by (simp add: algebra_simps)
  qed simp
  from this [of "nat (b - a)"] show ?thesis using assms by simp
qed

lemma corrected_table:
  "list_all (\<lambda>y. 365 * y \<le> corrected (year_start y) \<and> corrected (year_start y + year_last y) \<le> 365 * y + 364) [0..399]"
  by code_simp

lemma corrected_bounds:
  assumes "0 \<le> y" "y < 400"
  shows "365 * y \<le> corrected (year_start y)" "corrected (year_start y + year_last y) \<le> 365 * y + 364"
  using corrected_table assms by (auto simp: list_all_iff)

lemma year_sums:
  fixes y q4 q4' q100 q100' :: int
  shows "q4' = q4 + (if P then 1 else 0) \<Longrightarrow> q100' = q100 + (if Q then 1 else 0) \<Longrightarrow> L = (P \<and> \<not> Q) \<Longrightarrow>
    (Q \<Longrightarrow> P) \<Longrightarrow> 365 * (y + 1) + q4' - q100' = 365 * y + q4 - q100 + (364 + (if L then 1 else 0)) + 1"
  by (cases P; cases Q) auto

lemma year_next:
  assumes "0 \<le> y" "y < 399" shows "year_start (y + 1) = year_start y + year_last y + 1"
proof -
  have "(y + 1) div 4 = y div 4 + (if (y + 1) mod 4 = 0 then 1 else 0)"
    "(y + 1) div 100 = y div 100 + (if (y + 1) mod 100 = 0 then 1 else 0)" by (rule quotient_step, simp)+
  moreover have "(y + 1) mod 400 = y + 1" using assms by simp
  then have "is_leap (y + 1) \<longleftrightarrow> (y + 1) mod 4 = 0 \<and> (y + 1) mod 100 \<noteq> 0"
    unfolding is_leap_def using assms by simp
  moreover have "(y + 1) mod 100 = 0 \<Longrightarrow> (y + 1) mod 4 = 0"
    using mod_mod_cancel [of 4 100 "y + 1"] by simp
  ultimately show ?thesis
    unfolding year_start_def year_last_def by (rule year_sums)
qed

lemma year_start_range:
  assumes "0 \<le> y" "y < 400" shows "0 \<le> year_start y" "year_start y + year_last y \<le> 146096"
proof -
  show "0 \<le> year_start y" using assms zdiv_mono2 [of y 4 100] by (simp add: year_start_def)
  show "year_start y + year_last y \<le> 146096"
  proof (cases "y = 399")
    case True
    then show ?thesis by (simp add: year_start_def year_last_def is_leap_def)
  next
    case False
    then have "y + 1 \<le> 399" using assms by simp
    moreover have "0 \<le> (y + 1) div 100" "(y + 1) div 4 \<le> 399 div 4"
      using assms \<open>y + 1 \<le> 399\<close> by (auto intro: zdiv_mono1)
    ultimately have "year_start (y + 1) \<le> 146096" by (simp add: year_start_def)
    then show ?thesis using year_next [of y] assms False by simp
  qed
qed

text \<open>The quotient is the year exactly on that year's days.\<close>

lemma year_of_day:
  assumes "0 \<le> y" "y < 400" "0 \<le> doy" "doy \<le> year_last y"
  shows "corrected (year_start y + doy) div 365 = y"
proof -
  note r = year_start_range [OF assms(1,2)]
  have "corrected (year_start y) \<le> corrected (year_start y + doy)"
    "corrected (year_start y + doy) \<le> corrected (year_start y + year_last y)"
    using r assms by (auto intro!: corrected_mono)
  then have "365 * y \<le> corrected (year_start y + doy)" "corrected (year_start y + doy) < 365 * (y + 1)"
    using corrected_bounds [OF assms(1,2)] by simp_all
  then show ?thesis by (intro quotientI) auto
qed

lemma day_in_year:
  assumes "0 \<le> doe" "doe \<le> 146096" "y = corrected doe div 365"
  shows "0 \<le> y" "y < 400" "0 \<le> doe - year_start y" "doe - year_start y \<le> year_last y"
proof -
  have "corrected 0 \<le> corrected doe" "corrected doe \<le> corrected 146096"
    using assms(1,2) by (auto intro: corrected_mono)
  then have c: "0 \<le> corrected doe" "corrected doe \<le> 145999" by (simp_all add: corrected_def)
  then show y: "0 \<le> y" "y < 400" using assms(3) by simp_all
  have q: "365 * y \<le> corrected doe" "corrected doe < 365 * y + 365" unfolding assms(3) by presburger+
  show "0 \<le> doe - year_start y"
  proof (rule ccontr)
    assume "\<not> ?thesis"
    then have l: "doe < year_start y" "0 < y" using assms(1) y by (auto simp: year_start_def intro: ccontr)
    then have "doe \<le> year_start (y - 1) + year_last (y - 1)" using year_next [of "y - 1"] y by simp
    then have "corrected doe \<le> 365 * (y - 1) + 364"
      using corrected_mono [of doe "year_start (y - 1) + year_last (y - 1)"] corrected_bounds(2) [of "y - 1"]
        year_start_range(2) [of "y - 1"] assms(1) y l by simp
    then show False using q by simp
  qed
  show "doe - year_start y \<le> year_last y"
  proof (cases "y = 399")
    case True
    then show ?thesis using assms(2) by (simp add: year_start_def year_last_def is_leap_def)
  next
    case False
    show ?thesis
    proof (rule ccontr)
      assume "\<not> ?thesis"
      then have "year_start (y + 1) \<le> doe" using year_next [of y] y False by simp
      then have "365 * (y + 1) \<le> corrected doe"
        using corrected_mono [of "year_start (y + 1)" doe] corrected_bounds(1) [of "y + 1"]
          year_start_range(1) [of "y + 1"] assms(2) y False by simp
      then show False using q by simp
    qed
  qed
qed

section \<open>Months\<close>

definition month_start :: "int \<Rightarrow> int" where
  "month_start mp = (153 * mp + 2) div 5"

definition march_month :: "int \<Rightarrow> int" where
  "march_month m = (if m > 2 then m - 3 else m + 9)"

definition civil_month :: "int \<Rightarrow> int" where
  "civil_month mp = (if mp < 10 then mp + 3 else mp - 9)"

lemma march_cases: "0 \<le> mp \<Longrightarrow> mp < 12 \<Longrightarrow>
  mp = 0 \<or> mp = 1 \<or> mp = 2 \<or> mp = 3 \<or> mp = 4 \<or> mp = 5 \<or> mp = 6 \<or> mp = 7 \<or> mp = 8 \<or> mp = 9 \<or> mp = 10 \<or> mp = 11" for mp :: int
  by presburger

text \<open>A day of the March year is month start plus day of month, uniquely.\<close>

lemma month_of_day:
  assumes "0 \<le> doy" "doy \<le> year_last y" "mp = (5 * doy + 2) div 153"
  shows "0 \<le> mp" "mp < 12" "1 \<le> doy - month_start mp + 1"
    "doy - month_start mp + 1 \<le> days_in_month (y + (if civil_month mp \<le> 2 then 1 else 0)) (civil_month mp)"
proof -
  have l: "doy \<le> 365" using assms(2) by (simp add: year_last_def split: if_splits)
  have q: "153 * mp \<le> 5 * doy + 2" "5 * doy + 2 < 153 * mp + 153" unfolding assms(3) by presburger+
  show mp: "0 \<le> mp" "mp < 12" using q l assms(1) by simp_all
  have "5 * month_start mp \<le> 153 * mp + 2" unfolding month_start_def by simp
  then show "1 \<le> doy - month_start mp + 1" using q by linarith
  show "doy - month_start mp + 1 \<le> days_in_month (y + (if civil_month mp \<le> 2 then 1 else 0)) (civil_month mp)"
    using march_cases [OF mp] q assms(2)
    by (elim disjE) (simp_all add: month_start_def civil_month_def days_in_month_def year_last_def split: if_splits)
qed

lemma day_of_month:
  assumes "1 \<le> m" "m \<le> 12" "1 \<le> d" "d \<le> days_in_month (y + (if m \<le> 2 then 1 else 0)) m"
  shows "(5 * (month_start (march_month m) + d - 1) + 2) div 153 = march_month m"
    "0 \<le> month_start (march_month m) + d - 1" "month_start (march_month m) + d - 1 \<le> year_last y"
proof -
  have mp: "0 \<le> march_month m" "march_month m < 12" "m = civil_month (march_month m)"
    using assms(1,2) by (auto simp: march_month_def civil_month_def)
  note c = march_cases [OF mp(1,2)]
  have "153 * march_month m \<le> 5 * (month_start (march_month m) + d - 1) + 2 \<and>
      5 * (month_start (march_month m) + d - 1) + 2 < 153 * march_month m + 153 \<and>
      0 \<le> month_start (march_month m) + d - 1 \<and> month_start (march_month m) + d - 1 \<le> year_last y"
    using c assms(3,4) mp(3)
    by (elim disjE) (auto simp: month_start_def civil_month_def days_in_month_def year_last_def split: if_splits)
  then show "(5 * (month_start (march_month m) + d - 1) + 2) div 153 = march_month m"
    "0 \<le> month_start (march_month m) + d - 1" "month_start (march_month m) + d - 1 \<le> year_last y"
    by (auto intro!: quotientI)
qed


section \<open>Round trip of the civil algorithm\<close>

text \<open>The day number of March 1 of year \<open>y\<close>, from March 1 of year 0.\<close>

definition march_days :: "int \<Rightarrow> int" where
  "march_days y = 365 * y + y div 4 - y div 100 + y div 400"

lemma march_days_era: "march_days y = y div 400 * 146097 + year_start (y mod 400)"
proof -
  define e r where "e = y div 400" and "r = y mod 400"
  have y: "y = 400 * e + r" unfolding e_def r_def by simp
  have "y div 4 = 100 * e + r div 4" "y div 100 = 4 * e + r div 100" unfolding y by simp_all
  moreover have "y div 400 = e" by (simp add: e_def)
  ultimately show ?thesis by (simp add: march_days_def year_start_def y flip: r_def)
qed

lemma march_sums:
  fixes y a b c a' b' c' :: int
  shows "(Q \<Longrightarrow> P) \<Longrightarrow> (R \<Longrightarrow> Q) \<Longrightarrow> a' = a + (if P then 1 else 0) \<Longrightarrow> b' = b + (if Q then 1 else 0) \<Longrightarrow>
    c' = c + (if R then 1 else 0) \<Longrightarrow>
    365 * (y + 1) + a' - b' + c' = 365 * y + a - b + c + 365 + (if P \<and> \<not> Q \<or> R then 1 else 0)"
  by (cases P; cases Q; cases R) auto

lemma march_days_step: "march_days (y + 1) = march_days y + 365 + (if is_leap (y + 1) then 1 else 0)"
proof -
  have "(y + 1) mod 100 = 0 \<Longrightarrow> (y + 1) mod 4 = 0" "(y + 1) mod 400 = 0 \<Longrightarrow> (y + 1) mod 100 = 0"
    using mod_mod_cancel [of 4 100 "y + 1"] mod_mod_cancel [of 100 400 "y + 1"] by simp_all
  moreover have "(y + 1) div 4 = y div 4 + (if (y + 1) mod 4 = 0 then 1 else 0)"
    "(y + 1) div 100 = y div 100 + (if (y + 1) mod 100 = 0 then 1 else 0)"
    "(y + 1) div 400 = y div 400 + (if (y + 1) mod 400 = 0 then 1 else 0)" by (rule quotient_step, simp)+
  ultimately show ?thesis unfolding march_days_def is_leap_def by (intro march_sums)
qed

lemma days_from_civil_eq:
  assumes "(if m \<le> 2 then 1 else 0) \<le> y" "1 \<le> m"
  shows "days_from_civil y m d =
    march_days (y - (if m \<le> 2 then 1 else 0)) + month_start (march_month m) + d - 1 - 719468"
proof -
  let ?y = "y - (if m \<le> 2 then 1 else 0)"
  have y: "0 \<le> ?y" using assms by simp
  have e: "?y - ?y div 400 * 400 = ?y mod 400" by (simp add: minus_div_mult_eq_mod)
  have p: "(153 * (if m > 2 then m - 3 else m + 9) + 2) sdiv 5 = month_start (march_month m)"
    using assms(2) by (auto simp: march_month_def month_start_def sdiv_pos)
  have "0 \<le> ?y mod 400" by simp
  then show ?thesis
    unfolding days_from_civil_def Let_def p march_days_era
    using y by (simp add: sdiv_pos e year_start_def)
qed

lemma civil_from_days_eq:
  assumes "0 \<le> z" and "y = corrected (z mod 146097) div 365" and "doy = z mod 146097 - year_start y"
    and "mp = (5 * doy + 2) div 153"
  shows "civil_from_days (z - 719468) =
    (y + z div 146097 * 400 + (if civil_month mp \<le> 2 then 1 else 0), civil_month mp, doy - month_start mp + 1)"
proof -
  let ?doe = "z mod 146097"
  have doe: "0 \<le> ?doe" "?doe \<le> 146096" using pos_mod_bound [of 146097 z] by simp_all
  have "corrected 0 \<le> corrected ?doe" using doe by (intro corrected_mono) simp_all
  then have c: "0 \<le> corrected ?doe" by (simp add: corrected_def)
  have cs: "?doe - ?doe sdiv 1460 + ?doe sdiv 36524 - ?doe sdiv 146096 = corrected ?doe"
    using doe by (simp add: corrected_def sdiv_pos)
  have y: "corrected ?doe sdiv 365 = y" using c assms(2) by (simp add: sdiv_pos)
  note d = day_in_year [OF doe assms(2)]
  have ys: "365 * y + y sdiv 4 - y sdiv 100 = year_start y" using d(1) by (simp add: sdiv_pos year_start_def)
  have mp: "(5 * doy + 2) sdiv 153 = mp" using d(3) assms(3,4) by (simp add: sdiv_pos)
  have "0 \<le> mp" using assms(3,4) d(3) by simp
  then have ms: "(153 * mp + 2) sdiv 5 = month_start mp" by (simp add: sdiv_pos month_start_def)
  have z: "z - z div 146097 * 146097 = ?doe" by (simp add: minus_div_mult_eq_mod)
  have zs: "z sdiv 146097 = z div 146097" using assms(1) by (simp add: sdiv_pos)
  show ?thesis
    unfolding civil_from_days_def Let_def diff_add_cancel if_P [OF assms(1)] zs z cs y ys
      assms(3) [symmetric] mp ms civil_month_def [symmetric] by simp
qed

lemma is_leap_era: "is_leap (y + e * 400) = is_leap y"
proof -
  have "y + e * 400 = y + e * 100 * 4" "y + e * 400 = y + e * 4 * 100" by simp_all
  then have "(y + e * 400) mod 4 = y mod 4" "(y + e * 400) mod 100 = y mod 100"
    by (metis mod_mult_self1)+
  then show ?thesis by (simp add: is_leap_def)
qed

lemma days_in_month_era: "days_in_month (y + e * 400) m = days_in_month y m"
  by (simp add: days_in_month_def is_leap_era)

lemma year_last_era: "year_last (y + e * 400) = year_last y"
proof -
  have "y + e * 400 + 1 = (y + 1) + e * 400" by simp
  then show ?thesis unfolding year_last_def by (simp only: is_leap_era)
qed

text \<open>Every day number from March 1, 0000 on is a valid date and comes back.\<close>

lemma civil_valid:
  assumes "0 \<le> z" and "civil_from_days (z - 719468) = (year, m, d)"
  shows "1 \<le> m" "m \<le> 12" "1 \<le> d" "d \<le> days_in_month year m" "days_from_civil year m d = z - 719468"
proof -
  define e doe where "e = z div 146097" and "doe = z mod 146097"
  define y where "y = corrected doe div 365"
  define doy where "doy = doe - year_start y"
  define mp where "mp = (5 * doy + 2) div 153"
  have "0 \<le> doe" "doe \<le> 146096" using pos_mod_bound [of 146097 z] by (simp_all add: doe_def)
  note dy = day_in_year [OF this y_def, folded doy_def]
  note mo = month_of_day [OF dy(3,4) mp_def]
  let ?f = "if civil_month mp \<le> 2 then 1 else (0::int)"
  have r: "year = y + e * 400 + ?f" "m = civil_month mp" "d = doy - month_start mp + 1"
    using civil_from_days_eq [OF assms(1) y_def [unfolded doe_def] doy_def [unfolded doe_def] mp_def] assms(2)
    by (simp_all add: e_def)
  show m: "1 \<le> m" "m \<le> 12" using mo r(2) by (auto simp: civil_month_def)
  show "1 \<le> d" using mo r(3) by simp
  have "year = (y + ?f) + e * 400" using r(1) by simp
  then show "d \<le> days_in_month year m" using mo(4) r(2,3) by (simp only: days_in_month_era)
  have e0: "0 \<le> e" using assms(1) by (simp add: e_def pos_imp_zdiv_nonneg_iff)
  have mm: "march_month m = mp" using mo(1,2) r(2) by (auto simp: march_month_def civil_month_def)
  have yy: "year - (if m \<le> 2 then 1 else 0) = y + e * 400" using r by simp
  have "march_days (y + e * 400) = e * 146097 + year_start y"
    using dy(1,2) by (simp add: march_days_era)
  moreover have "(if m \<le> 2 then 1 else 0) \<le> year" using yy dy(1) e0 by linarith
  ultimately have "days_from_civil year m d = e * 146097 + year_start y + month_start mp + d - 1 - 719468"
    using days_from_civil_eq [of m year d] m yy mm by simp
  also have "\<dots> = z - 719468" using r(3) by (simp add: doy_def e_def doe_def)
  finally show "days_from_civil year m d = z - 719468" .
qed

text \<open>Every valid date of year 1 on is the date of its day number.\<close>

lemma civil_of_days:
  assumes "1 \<le> year" "1 \<le> m" "m \<le> 12" "1 \<le> d" "d \<le> days_in_month year m"
  shows "civil_from_days (days_from_civil year m d) = (year, m, d)" "0 \<le> days_from_civil year m d + 719468"
proof -
  define yy where "yy = year - (if m \<le> 2 then 1 else 0)"
  define doy where "doy = month_start (march_month m) + d - 1"
  define z where "z = march_days yy + doy"
  have yy: "0 \<le> yy" "year = yy + (if m \<le> 2 then 1 else 0)" using assms(1) by (auto simp: yy_def)
  note dm = day_of_month [OF assms(2-4) assms(5) [unfolded yy(2)], folded doy_def]
  have le: "doy \<le> year_last (yy mod 400)"
    using dm(3) year_last_era [of "yy mod 400" "yy div 400"] by simp
  have ym: "0 \<le> yy mod 400" "yy mod 400 < 400" by simp_all
  have z: "z = yy div 400 * 146097 + (year_start (yy mod 400) + doy)"
    unfolding z_def march_days_era by simp
  have b: "0 \<le> year_start (yy mod 400) + doy" "year_start (yy mod 400) + doy < 146097"
    using year_start_range [OF ym] dm(2) le by linarith+
  have zd: "z mod 146097 = year_start (yy mod 400) + doy" "z div 146097 = yy div 400"
    using b unfolding z by simp_all
  have z0: "0 \<le> z" using yy(1) b unfolding z by (simp add: pos_imp_zdiv_nonneg_iff)
  have dfc: "days_from_civil year m d = z - 719468"
    using days_from_civil_eq [of m year d] assms(1,2) by (simp add: z_def doy_def yy_def)
  then show "0 \<le> days_from_civil year m d + 719468" using z0 by simp
  have q: "corrected (z mod 146097) div 365 = yy mod 400"
    unfolding zd(1) by (rule year_of_day [OF ym dm(2) le])
  have cm: "civil_month (march_month m) = m" using assms(2,3) by (auto simp: march_month_def civil_month_def)
  have "civil_from_days (z - 719468) = (yy mod 400 + z div 146097 * 400 + (if civil_month (march_month m) \<le> 2 then 1 else 0),
      civil_month (march_month m), doy - month_start (march_month m) + 1)"
    by (rule civil_from_days_eq [OF z0]) (use q zd(1) dm(1) in simp_all)
  then show "civil_from_days (days_from_civil year m d) = (year, m, d)"
    unfolding dfc cm zd(2) by (simp add: doy_def yy(2) cm)
qed


section \<open>The reference calendar\<close>

text \<open>Days before a year and before a month, counted one by one from 0001-01-01.\<close>

primrec year_total :: "nat \<Rightarrow> int" where
  "year_total 0 = 0"
| "year_total (Suc n) = year_total n + (if is_leap (int (Suc n)) then 366 else 365)"

primrec month_total :: "int \<Rightarrow> nat \<Rightarrow> int" where
  "month_total y 0 = 0"
| "month_total y (Suc k) = month_total y k + days_in_month y (int (Suc k))"

definition ref_days :: "int \<Rightarrow> int \<Rightarrow> int \<Rightarrow> int" where
  "ref_days y m d = year_total (nat (y - 1)) + month_total y (nat (m - 1)) + d - 1"

lemma year_total_march: "year_total n = march_days (int n)"
proof (induction n)
  case (Suc n)
  then show ?case using march_days_step [of "int n"] by (simp add: add.commute)
qed (simp add: march_days_def)

lemma month_cases: "1 \<le> m \<Longrightarrow> m \<le> 12 \<Longrightarrow>
  m = 1 \<or> m = 2 \<or> m = 3 \<or> m = 4 \<or> m = 5 \<or> m = 6 \<or> m = 7 \<or> m = 8 \<or> m = 9 \<or> m = 10 \<or> m = 11 \<or> m = 12" for m :: int
  by presburger

lemma month_total_values:
  "month_total y 0 = 0" "month_total y 1 = 31" "month_total y 2 = 59 + (if is_leap y then 1 else 0)"
  "month_total y 3 = 90 + (if is_leap y then 1 else 0)" "month_total y 4 = 120 + (if is_leap y then 1 else 0)"
  "month_total y 5 = 151 + (if is_leap y then 1 else 0)" "month_total y 6 = 181 + (if is_leap y then 1 else 0)"
  "month_total y 7 = 212 + (if is_leap y then 1 else 0)" "month_total y 8 = 243 + (if is_leap y then 1 else 0)"
  "month_total y 9 = 273 + (if is_leap y then 1 else 0)" "month_total y 10 = 304 + (if is_leap y then 1 else 0)"
  "month_total y 11 = 334 + (if is_leap y then 1 else 0)"
  by (simp_all add: numeral_eq_Suc days_in_month_def)

lemma month_total_march:
  assumes "1 \<le> m" "m \<le> 12"
  shows "month_total y (nat (m - 1)) = month_start (march_month m) +
    (if m \<le> 2 then - 306 else 59 + (if is_leap y then 1 else 0))"
  using month_cases [OF assms] month_total_values [of y]
  by (elim disjE) (simp_all add: month_start_def march_month_def)

lemma days_from_civil_ref:
  assumes "1 \<le> y" "1 \<le> m" "m \<le> 12"
  shows "days_from_civil y m d = ref_days y m d - 719162"
proof -
  have yt: "year_total (nat (y - 1)) = march_days (y - 1)" using assms(1) by (simp add: year_total_march)
  have st: "march_days y = march_days (y - 1) + 365 + (if is_leap y then 1 else 0)"
    using march_days_step [of "y - 1"] by simp
  show ?thesis
    using days_from_civil_eq [of m y d] assms st
    by (simp add: ref_days_def yt month_total_march)
qed

text \<open>Sakamoto's weekday is the day number modulo 7; 0001-01-01 was a Monday.\<close>

lemma sakamoto_table:
  assumes "1 \<le> m" "m \<le> 12"
  shows "([0, 3, 2, 5, 0, 3, 5, 1, 4, 6, 2, 4] ! nat (m - 1) - month_start (march_month m)) mod 7 = (2 :: int)"
  using month_cases [OF assms] by (elim disjE) (simp_all add: month_start_def march_month_def numeral_eq_Suc)

lemma day_of_week_ref:
  assumes "1 \<le> y" "1 \<le> m" "m \<le> 12"
  shows "day_of_week y m d = (ref_days y m d + 1) mod 7"
proof -
  define Y where "Y = (if m < 3 then y - 1 else y)"
  let ?t = "[0, 3, 2, 5, 0, 3, 5, 1, 4, 6, 2, 4] ! nat (m - 1) :: int"
  have y: "0 \<le> Y" "Y = y - (if m \<le> 2 then 1 else 0)" using assms(1) by (auto simp: Y_def)
  have ref: "ref_days y m d = march_days Y + month_start (march_month m) + d - 307"
    using days_from_civil_ref [OF assms, of d] days_from_civil_eq [of m y d] assms unfolding y(2) by simp
  have "?t - month_start (march_month m) = 7 * ((?t - month_start (march_month m)) div 7) + 2"
    using sakamoto_table [OF assms(2,3)] mult_div_mod_eq [of 7 "?t - month_start (march_month m)"] by simp
  then have k0: "?t = month_start (march_month m) + 7 * ((?t - month_start (march_month m)) div 7) + 2" by linarith
  define k where "k = (?t - month_start (march_month m)) div 7"
  have k: "?t = month_start (march_month m) + 7 * k + 2" using k0 by (simp only: k_def)
  have "day_of_week y m d = (Y + Y div 4 - Y div 100 + Y div 400 + ?t + d) mod 7"
    unfolding day_of_week_def Let_def Y_def [symmetric] using y(1) by (simp add: sdiv_pos)
  also have "Y + Y div 4 - Y div 100 + Y div 400 + ?t + d =
      ref_days y m d + 1 + 7 * (k + 44 - 52 * Y)"
    unfolding ref k march_days_def by (simp add: algebra_simps)
  also have "(ref_days y m d + 1 + 7 * (k + 44 - 52 * Y)) mod 7 = (ref_days y m d + 1) mod 7"
    by (rule mod_mult_self2)
  finally show ?thesis .
qed

section \<open>Ticks\<close>

definition time_of_day :: "date_time \<Rightarrow> int" where
  "time_of_day dt = uint (dt_hour dt) * 3600000000 + uint (dt_minute dt) * 60000000
     + uint (dt_second dt) * 1000000 + uint (dt_micro dt)"

definition day_number :: "date_time \<Rightarrow> int" where
  "day_number dt = ref_days (uint (dt_year dt)) (uint (dt_month dt)) (uint (dt_day dt))"

abbreviation valid_datetime :: "date_time \<Rightarrow> bool" where "valid_datetime dt \<equiv> check_datetime dt = 0"

lemma valid_datetimeD:
  assumes "valid_datetime dt"
  shows "1 \<le> uint (dt_year dt)" "uint (dt_year dt) \<le> 9999" "1 \<le> uint (dt_month dt)" "uint (dt_month dt) \<le> 12"
    "1 \<le> uint (dt_day dt)" "uint (dt_day dt) \<le> days_in_month (uint (dt_year dt)) (uint (dt_month dt))"
    "uint (dt_hour dt) \<le> 23" "uint (dt_minute dt) \<le> 59" "uint (dt_second dt) \<le> 59" "uint (dt_micro dt) \<le> 999999"
  using assms by (auto simp: check_datetime_def Let_def word_less_def split: if_splits)

lemma valid_datetimeI:
  assumes "1 \<le> uint (dt_year dt)" "uint (dt_year dt) \<le> 9999" "1 \<le> uint (dt_month dt)" "uint (dt_month dt) \<le> 12"
    "1 \<le> uint (dt_day dt)" "uint (dt_day dt) \<le> days_in_month (uint (dt_year dt)) (uint (dt_month dt))"
    "uint (dt_hour dt) \<le> 23" "uint (dt_minute dt) \<le> 59" "uint (dt_second dt) \<le> 59" "uint (dt_micro dt) \<le> 999999"
  shows "valid_datetime dt"
  using assms by (simp add: check_datetime_def Let_def word_less_def)

lemma month_length: "days_in_month y m \<le> 31"
  by (simp add: days_in_month_def)

lemma day_number_bounds:
  assumes "valid_datetime dt" shows "0 \<le> day_number dt" "day_number dt \<le> 3652424"
proof -
  note v = valid_datetimeD [OF assms]
  let ?y = "uint (dt_year dt)" and ?m = "uint (dt_month dt)"
  have n: "year_total (nat (?y - 1)) = march_days (?y - 1)" using v(1) by (simp add: year_total_march)
  have "0 \<le> (?y - 1) div 4" "0 \<le> (?y - 1) div 400" "(?y - 1) div 100 \<le> (?y - 1) div 4"
    "(?y - 1) div 4 \<le> 9998 div 4" "(?y - 1) div 400 \<le> 9998 div 400" "0 \<le> (?y - 1) div 100"
    using v(1,2) by (auto intro: zdiv_mono1 zdiv_mono2)
  then have yb: "0 \<le> march_days (?y - 1)" "march_days (?y - 1) \<le> 3651794 + 24" 
    using v(1,2) unfolding march_days_def by simp_all
  have "0 \<le> month_total ?y (nat (?m - 1))" "month_total ?y (nat (?m - 1)) \<le> 335"
    using month_cases [OF v(3,4)] month_total_values [of ?y] by (elim disjE; simp)+
  moreover have "uint (dt_day dt) \<le> 31" using v(6) month_length [of ?y ?m] by linarith
  ultimately show "0 \<le> day_number dt" "day_number dt \<le> 3652424"
    using yb v(5) by (simp_all add: day_number_def ref_days_def n)
qed

lemma time_of_day_bounds:
  assumes "valid_datetime dt" shows "0 \<le> time_of_day dt" "time_of_day dt < 86400000000"
  using valid_datetimeD [OF assms] by (simp_all add: time_of_day_def)

lemma uint_u64: "0 \<le> n \<Longrightarrow> n < 18446744073709551616 \<Longrightarrow> uint (word_of_int n :: u64) = n"
  by (simp add: unsigned_of_int take_bit_int_eq_self)

lemma datetime_to_tick_ref:
  assumes "valid_datetime dt"
  shows "uint (datetime_to_tick dt) = day_number dt * 86400000000 + time_of_day dt"
proof -
  note v = valid_datetimeD [OF assms] and b = day_number_bounds [OF assms] time_of_day_bounds [OF assms]
  let ?v = "day_number dt * 86400000000 + time_of_day dt"
  have "datetime_to_tick dt = word_of_int (max 0 ?v)"
    unfolding datetime_to_tick_def Let_def days_from_civil_ref [OF v(1,3,4)] day_number_def time_of_day_def
    by (simp add: algebra_simps)
  moreover have "max 0 ?v = ?v" "0 \<le> ?v" "?v < 18446744073709551616" using b by simp_all
  moreover from this have "uint (word_of_int ?v :: u64) = ?v"
    by (intro uint_u64)
  ultimately show ?thesis by simp
qed


lemma uint_u16: "0 \<le> n \<Longrightarrow> n < 65536 \<Longrightarrow> uint (word_of_int n :: u16) = n"
  by (simp add: unsigned_of_int take_bit_int_eq_self)

lemma uint_narrow16: "uint x < 65536 \<Longrightarrow> uint (ucast x :: u16) = uint x" for x :: u64
  by (simp add: unsigned_ucast_eq take_bit_int_eq_self)

lemma uint_narrow32: "uint x < 4294967296 \<Longrightarrow> uint (ucast x :: u32) = uint x" for x :: u64
  by (simp add: unsigned_ucast_eq take_bit_int_eq_self)

lemma quotient_bounds:
  fixes a k n :: int
  assumes "0 \<le> a" "a < k * (n + 1)" "0 < k"
  shows "0 \<le> a div k" "a div k \<le> n"
proof -
  show "0 \<le> a div k" using assms by (simp add: pos_imp_zdiv_nonneg_iff)
  show "a div k \<le> n"
  proof (rule ccontr)
    assume "\<not> a div k \<le> n"
    then have "k * (n + 1) \<le> k * (a div k)" using assms(3) by (intro mult_left_mono) auto
    also have "\<dots> \<le> a" using assms(3) mult_div_mod_eq [of k a] pos_mod_sign [of k a] by linarith
    finally show False using assms(2) by simp
  qed
qed

text \<open>The time fields of the microseconds of a day.\<close>

lemma split_time:
  fixes r :: int
  assumes "0 \<le> r" "r < 86400000000"
  shows "r div 3600000000 \<le> 23" "r mod 3600000000 div 60000000 \<le> 59" "r mod 60000000 div 1000000 \<le> 59"
    "r mod 1000000 \<le> 999999" "0 \<le> r div 3600000000" "0 \<le> r mod 3600000000 div 60000000"
    "0 \<le> r mod 60000000 div 1000000" "0 \<le> r mod 1000000"
    "r div 3600000000 * 3600000000 + r mod 3600000000 div 60000000 * 60000000 + r mod 60000000 div 1000000 * 1000000
      + r mod 1000000 = r"
proof -
  have m: "r mod 3600000000 mod 60000000 = r mod 60000000" "r mod 60000000 mod 1000000 = r mod 1000000"
    by (simp_all add: mod_mod_cancel)
  have "r = r div 3600000000 * 3600000000 + r mod 3600000000"
    "r mod 3600000000 = r mod 3600000000 div 60000000 * 60000000 + r mod 3600000000 mod 60000000"
    "r mod 60000000 = r mod 60000000 div 1000000 * 1000000 + r mod 60000000 mod 1000000"
    by (simp_all only: div_mult_mod_eq)
  then show "r div 3600000000 * 3600000000 + r mod 3600000000 div 60000000 * 60000000
      + r mod 60000000 div 1000000 * 1000000 + r mod 1000000 = r" unfolding m by linarith
  have b: "0 \<le> r mod 3600000000" "r mod 3600000000 < 3600000000" "0 \<le> r mod 60000000" "r mod 60000000 < 60000000"
    "0 \<le> r mod 1000000" "r mod 1000000 < 1000000" by simp_all
  then show "r mod 1000000 \<le> 999999" "0 \<le> r mod 1000000" by linarith+
  note q = quotient_bounds
  show "r div 3600000000 \<le> 23" "0 \<le> r div 3600000000" using q [of r 3600000000 23] assms by simp_all
  show "r mod 3600000000 div 60000000 \<le> 59" "0 \<le> r mod 3600000000 div 60000000"
    using q [OF b(1), of 60000000 59] b(2) by simp_all
  show "r mod 60000000 div 1000000 \<le> 59" "0 \<le> r mod 60000000 div 1000000"
    using q [OF b(3), of 1000000 59] b(4) by simp_all
qed

lemma time_fields:
  fixes h n s u :: int
  assumes "0 \<le> h" "0 \<le> n" "n \<le> 59" "0 \<le> s" "s \<le> 59" "0 \<le> u" "u \<le> 999999"
  defines "r \<equiv> h * 3600000000 + n * 60000000 + s * 1000000 + u"
  shows "r div 3600000000 = h" "r mod 3600000000 div 60000000 = n" "r mod 60000000 div 1000000 = s" "r mod 1000000 = u"
proof -
  have r: "r = h * 3600000000 + (n * 60000000 + s * 1000000 + u)"
    "r = (h * 60 + n) * 60000000 + (s * 1000000 + u)" "r = (h * 3600 + n * 60 + s) * 1000000 + u"
    by (simp_all add: r_def)
  have b: "0 \<le> n * 60000000 + s * 1000000 + u" "n * 60000000 + s * 1000000 + u < 3600000000"
    "0 \<le> s * 1000000 + u" "s * 1000000 + u < 60000000" using assms by simp_all
  have d: "(k * c + e) div c = k" "(k * c + e) mod c = e" if "0 \<le> e" "e < c" for k c e :: int
    using that by simp_all
  show "r div 3600000000 = h" unfolding r(1) by (rule d(1) [OF b(1,2)])
  have "r mod 3600000000 = n * 60000000 + (s * 1000000 + u)" unfolding r(1) by (subst d(2) [OF b(1,2)]) simp
  then show "r mod 3600000000 div 60000000 = n" using d(1) [OF b(3,4)] by simp
  have "r mod 60000000 = s * 1000000 + u" unfolding r(2) by (rule d(2) [OF b(3,4)])
  then show "r mod 60000000 div 1000000 = s" using d(1) [of u 1000000 s] assms by simp
  show "r mod 1000000 = u" unfolding r(3) by (rule d(2)) (use assms(6,7) in simp_all)
qed

lemma year_total_mono: "a \<le> b \<Longrightarrow> year_total a \<le> year_total b"
  by (induction rule: dec_induct) auto

lemma year_total_values: "year_total 1969 = 719162" "year_total 9999 = 3652059"
  by (simp_all add: year_total_march march_days_def)

lemma month_total_nonneg: "0 \<le> month_total y k"
  by (induction k) (auto simp: days_in_month_def)

lemma civil_year_pos:
  assumes "719468 \<le> z" "civil_from_days (z - 719468) = (year, m, d)" shows "1600 \<le> year"
proof -
  have "0 \<le> z mod 146097" "z mod 146097 \<le> 146096" using pos_mod_bound [of 146097 z] by simp_all
  note y = day_in_year(1) [OF this refl]
  have "4 \<le> z div 146097" using zdiv_mono1 [OF assms(1), of 146097] by simp
  moreover have "0 \<le> z" using assms(1) by simp
  note e = civil_from_days_eq [OF this refl refl refl, unfolded assms(2) prod.inject]
  then have "corrected (z mod 146097) div 365 + z div 146097 * 400 +
      (if civil_month ((5 * (z mod 146097 - year_start (corrected (z mod 146097) div 365)) + 2) div 153) \<le> 2 then 1 else 0) = year"
    by (elim conjE) (rule sym)
  moreover have "0 \<le> (if P then 1 else 0 :: int)" for P by simp
  ultimately show ?thesis using y by (smt (verit) add_mono)
qed

lemma narrow16: "uint x = v \<Longrightarrow> v \<le> 59 \<Longrightarrow> uint (ucast x :: u16) = v" for x :: u64
  using uint_narrow16 [of x] by simp

lemma narrow32: "uint x = v \<Longrightarrow> v \<le> 999999 \<Longrightarrow> uint (ucast x :: u32) = v" for x :: u64
  using uint_narrow32 [of x] by simp

text \<open>The time part of a converted tick.\<close>

lemma tick_split:
  assumes "62135596800000000 \<le> uint t"
  defines "u \<equiv> saturating_sub t UNIX_EPOCH_TICKS"
  shows "uint u = uint t - 62135596800000000" "uint (u div US_DAY) = uint u div 86400000000"
    "uint (u mod US_DAY) = uint u mod 86400000000"
proof -
  have "unat u = unat t - 62135596800000000" by (simp add: u_def saturating_sub_unat)
  moreover have e: "int (unat x) = uint x" for x :: u64 by transfer simp
  have "int 62135596800000000 \<le> int (unat t)" unfolding e using assms(1) by simp
  then have "62135596800000000 \<le> unat t" by (simp only: of_nat_le_iff)
  ultimately have "int (unat u) = int (unat t) - 62135596800000000" by simp
  then show "uint u = uint t - 62135596800000000" by (simp only: e)
qed (simp_all add: uint_div uint_mod)

lemma tick_time:
  assumes "62135596800000000 \<le> uint t"
  defines "r \<equiv> (uint t - 62135596800000000) mod 86400000000"
  shows "uint (dt_hour (tick_to_datetime t)) = r div 3600000000"
    "uint (dt_minute (tick_to_datetime t)) = r mod 3600000000 div 60000000"
    "uint (dt_second (tick_to_datetime t)) = r mod 60000000 div 1000000"
    "uint (dt_micro (tick_to_datetime t)) = r mod 1000000"
proof -
  define R where "R = saturating_sub t UNIX_EPOCH_TICKS mod US_DAY"
  have R: "uint R = r" using tick_split [OF assms(1)] by (simp add: R_def r_def)
  have "0 \<le> r" "r < 86400000000" by (simp_all add: r_def)
  note s = split_time [OF this]
  have f: "dt_hour (tick_to_datetime t) = ucast (R div US_HOUR)"
    "dt_minute (tick_to_datetime t) = ucast (R mod US_HOUR div US_MINUTE)"
    "dt_second (tick_to_datetime t) = ucast (R mod US_MINUTE div US_SECOND)"
    "dt_micro (tick_to_datetime t) = ucast (R mod US_SECOND)"
    by (simp_all add: tick_to_datetime_def Let_def R_def case_prod_beta)
  have u: "uint (R div US_HOUR) = r div 3600000000" "uint (R mod US_HOUR div US_MINUTE) = r mod 3600000000 div 60000000"
    "uint (R mod US_MINUTE div US_SECOND) = r mod 60000000 div 1000000" "uint (R mod US_SECOND) = r mod 1000000"
    by (simp_all add: uint_div uint_mod R)
  show "uint (dt_hour (tick_to_datetime t)) = r div 3600000000" unfolding f(1) by (rule narrow16 [OF u(1)]) (use s(1) in linarith)
  show "uint (dt_minute (tick_to_datetime t)) = r mod 3600000000 div 60000000" unfolding f(2) by (rule narrow16 [OF u(2) s(2)])
  show "uint (dt_second (tick_to_datetime t)) = r mod 60000000 div 1000000" unfolding f(3) by (rule narrow16 [OF u(3) s(3)])
  show "uint (dt_micro (tick_to_datetime t)) = r mod 1000000" unfolding f(4) by (rule narrow32 [OF u(4) s(4)])
qed


lemma tick_date:
  assumes "62135596800000000 \<le> uint t" "uint t < 315537897600000000"
  defines "dt \<equiv> tick_to_datetime t"
  shows "1 \<le> uint (dt_year dt)" "uint (dt_year dt) \<le> 9999" "1 \<le> uint (dt_month dt)" "uint (dt_month dt) \<le> 12"
    "1 \<le> uint (dt_day dt)" "uint (dt_day dt) \<le> days_in_month (uint (dt_year dt)) (uint (dt_month dt))"
    "day_number dt = (uint t - 62135596800000000) div 86400000000 + 719162"
proof -
  define D where "D = (uint t - 62135596800000000) div 86400000000"
  obtain year m d where c: "civil_from_days D = (year, m, d)" by (cases "civil_from_days D") auto
  have "uint t - 62135596800000000 < 86400000000 * (2932896 + 1)" using assms(2) by simp
  then have D: "0 \<le> D" "D \<le> 2932896" using quotient_bounds [of "uint t - 62135596800000000"] assms(1)
    by (simp_all add: D_def)
  have z: "719468 \<le> D + 719468" "0 \<le> D + 719468" using D by simp_all
  have c': "civil_from_days (D + 719468 - 719468) = (year, m, d)" using c by simp
  note v = civil_valid [OF z(2) c'] and y1 = civil_year_pos [OF z(1) c']
  have y1': "1 \<le> year" using y1 by simp
  have ref: "ref_days year m d = D + 719162" using days_from_civil_ref [OF y1' v(1,2), of d] v(5) by simp
  have "year \<le> 9999"
  proof (rule ccontr)
    assume "\<not> ?thesis"
    then have "year_total 9999 \<le> year_total (nat (year - 1))" by (intro year_total_mono) simp
    then show False
      using ref D(2) v(3) month_total_nonneg [of year "nat (m - 1)"] by (simp add: ref_days_def year_total_values)
  qed
  moreover have "d \<le> 31" using v(4) month_length [of year m] by linarith
  moreover have "uint (saturating_sub t UNIX_EPOCH_TICKS div US_DAY) = D"
    unfolding tick_split(2) [OF assms(1)] tick_split(1) [OF assms(1)] D_def ..
  then have f: "dt_year dt = word_of_int year" "dt_month dt = word_of_int m" "dt_day dt = word_of_int d"
    using c by (simp_all add: dt_def tick_to_datetime_def Let_def)
  ultimately have u: "uint (dt_year dt) = year" "uint (dt_month dt) = m" "uint (dt_day dt) = d"
    using y1 v(1-3) by (simp_all only: f uint_u16)
  show "1 \<le> uint (dt_year dt)" "uint (dt_year dt) \<le> 9999" "1 \<le> uint (dt_month dt)" "uint (dt_month dt) \<le> 12"
    "1 \<le> uint (dt_day dt)" "uint (dt_day dt) \<le> days_in_month (uint (dt_year dt)) (uint (dt_month dt))"
    using u \<open>year \<le> 9999\<close> y1' v by simp_all
  show "day_number dt = (uint t - 62135596800000000) div 86400000000 + 719162"
    using u ref by (simp add: day_number_def D_def)
qed

lemma datetime_of_tick:
  assumes "62135596800000000 \<le> uint t" "uint t < 315537897600000000"
  shows "valid_datetime (tick_to_datetime t)" "datetime_to_tick (tick_to_datetime t) = t"
proof -
  let ?r = "(uint t - 62135596800000000) mod 86400000000"
  have "0 \<le> ?r" "?r < 86400000000" by simp_all
  note s = split_time [OF this] and tm = tick_time [OF assms(1)] and td = tick_date [OF assms]
  have le: "x \<le> 59" if "x \<le> 23" for x :: int using that by simp
  show v: "valid_datetime (tick_to_datetime t)"
    by (rule valid_datetimeI [OF td(1-6)]) (use s(1-4) in \<open>simp_all only: tm\<close>)
  have "time_of_day (tick_to_datetime t) = ?r" unfolding time_of_day_def tm by (rule s(9))
  then have "uint (datetime_to_tick (tick_to_datetime t)) =
      ((uint t - 62135596800000000) div 86400000000 + 719162) * 86400000000 + ?r"
    unfolding datetime_to_tick_ref [OF v] td(7) by simp
  also have "\<dots> = (uint t - 62135596800000000) div 86400000000 * 86400000000 + ?r + 62135596800000000" by (simp only: ring_distribs)
  also have "\<dots> = uint t" unfolding div_mult_mod_eq by simp
  finally show "datetime_to_tick (tick_to_datetime t) = t" by (simp add: uint_word_arith_bintrs word_uint_eq_iff)
qed

lemma quotient_remainder: "0 \<le> e \<Longrightarrow> e < c \<Longrightarrow> (k * c + e) div c = k" "0 \<le> e \<Longrightarrow> e < c \<Longrightarrow> (k * c + e) mod c = e"
  for k c e :: int
  by simp_all

lemma tick_of_datetime:
  assumes v: "valid_datetime dt" and y: "1970 \<le> uint (dt_year dt)"
  shows "tick_to_datetime (datetime_to_tick dt) = dt"
proof -
  note d = valid_datetimeD [OF v]
  let ?t = "datetime_to_tick dt" and ?y = "uint (dt_year dt)" and ?m = "uint (dt_month dt)" and ?d = "uint (dt_day dt)"
  note tod = time_of_day_bounds [OF v]
  have "year_total 1969 \<le> year_total (nat (?y - 1))" using y by (intro year_total_mono) simp
  then have n: "719162 \<le> day_number dt"
    using month_total_nonneg [of ?y "nat (?m - 1)"] d(5) by (simp add: day_number_def ref_days_def year_total_values)
  have ut: "uint ?t = day_number dt * 86400000000 + time_of_day dt" by (rule datetime_to_tick_ref [OF v])
  have ge: "62135596800000000 \<le> uint ?t" using ut n tod(1) by linarith
  have e: "uint ?t - 62135596800000000 = (day_number dt - 719162) * 86400000000 + time_of_day dt" using ut by simp
  have q: "(uint ?t - 62135596800000000) div 86400000000 = day_number dt - 719162"
    "(uint ?t - 62135596800000000) mod 86400000000 = time_of_day dt" unfolding e by (rule quotient_remainder [OF tod])+
  have "day_number dt - 719162 = days_from_civil ?y ?m ?d"
    using days_from_civil_ref [OF d(1,3,4)] by (simp add: day_number_def)
  then have "civil_from_days (uint (saturating_sub ?t UNIX_EPOCH_TICKS div US_DAY)) = (?y, ?m, ?d)"
    using civil_of_days(1) [OF d(1,3,4,5,6)] q(1) by (simp only: tick_split(1,2) [OF ge])
  then have date: "dt_year (tick_to_datetime ?t) = dt_year dt" "dt_month (tick_to_datetime ?t) = dt_month dt"
    "dt_day (tick_to_datetime ?t) = dt_day dt" by (simp_all add: tick_to_datetime_def Let_def)
  have nn: "0 \<le> uint (dt_hour dt)" "0 \<le> uint (dt_minute dt)" "0 \<le> uint (dt_second dt)" "0 \<le> uint (dt_micro dt)" by simp_all
  note tf = time_fields [OF nn(1,2) d(8) nn(3) d(9) nn(4) d(10), folded time_of_day_def]
  have "uint (dt_hour (tick_to_datetime ?t)) = uint (dt_hour dt)" "uint (dt_minute (tick_to_datetime ?t)) = uint (dt_minute dt)"
    "uint (dt_second (tick_to_datetime ?t)) = uint (dt_second dt)" "uint (dt_micro (tick_to_datetime ?t)) = uint (dt_micro dt)"
    unfolding tick_time [OF ge] q(2) by (rule tf)+
  then show ?thesis using date by (intro date_time.equality) (simp_all add: word_uint_eq_iff)
qed


section \<open>Printing and parsing\<close>

text \<open>The printed text before its terminator.\<close>

definition rfc3339_body :: "date_time \<Rightarrow> int \<Rightarrow> byte list" where
  "rfc3339_body dt tz = butlast (rfc3339_text dt tz)"

text \<open>A text made of fields of the fixed widths, cut back into them.\<close>

lemma cut_fields:
  fixes Y M D H N S C Z :: "byte list"
  assumes "length Y = 4" "length M = 2" "length D = 2" "length H = 2" "length N = 2" "length S = 2" "length C = 2"
  defines "t \<equiv> Y @ [45] @ M @ [45] @ D @ [84] @ H @ [58] @ N @ [58] @ S @ [46] @ C @ Z"
  assumes "\<forall>b\<in>set t. b < 0x80"
  shows "str_get t 0 4 = Some Y" "str_get t 5 7 = Some M" "str_get t 8 10 = Some D" "str_get t 11 13 = Some H"
    "str_get t 14 16 = Some N" "str_get t 17 19 = Some S" "19 < length t \<and> t ! 19 = 46"
    "drop 20 t = C @ Z" "length t = 22 + length Z"
    "i < length Z \<Longrightarrow> t ! (22 + i) = Z ! i"
    "a \<le> b \<Longrightarrow> b \<le> length Z \<Longrightarrow> str_get t (22 + a) (22 + b) = Some (take (b - a) (drop a Z))"
proof -
  have len: "length t = 22 + length Z" using assms(1-7) by (simp add: t_def)
  then show "length t = 22 + length Z" .
  note g = str_get_ascii [OF assms(9)]
  show "str_get t 0 4 = Some Y" "str_get t 5 7 = Some M" "str_get t 8 10 = Some D" "str_get t 11 13 = Some H"
    "str_get t 14 16 = Some N" "str_get t 17 19 = Some S" using len assms(1-7) by (simp_all add: g) (simp_all add: t_def)
  have d22: "drop 22 t = Z" and "drop 20 t = C @ Z" using assms(1-7) by (simp_all add: t_def)
  then show "drop 20 t = C @ Z" by blast
  show "19 < length t \<and> t ! 19 = 46" using len assms(1-7) by (simp add: t_def nth_append)
  show "t ! (22 + i) = Z ! i" if "i < length Z" using that len d22 nth_drop [of 22 t i] by simp
  show "str_get t (22 + a) (22 + b) = Some (take (b - a) (drop a Z))" if "a \<le> b" "b \<le> length Z"
    using g [of "22 + a" "22 + b"] that len d22 drop_drop [of a 22 t] by (simp add: add.commute)
qed

lemma parse_two_fraction:
  assumes "list_all is_digit C" "length C = 2" "Z = [] \<or> \<not> is_digit (hd Z)"
  shows "parse_fraction 100000 0 20 (C @ Z) = (22, digits_value C * 10000)"
proof -
  obtain c d where c: "C = [c, d]" using assms(2) by (auto simp: length_Suc_conv numeral_eq_Suc)
  have z: "parse_fraction 1000 m 22 Z = (22, m)" for m using assms(3) by (cases Z) auto
  show ?thesis using assms(1) z by (simp add: c Let_def digits_value_def)
qed

lemma tz_suffix_facts:
  assumes "- 840 \<le> tz" "tz \<le> 840"
  shows "b \<in> set (tz_suffix tz) \<Longrightarrow> plain b" "tz_suffix tz \<noteq> []" "\<not> is_digit (hd (tz_suffix tz))"
proof -
  have d: "nat \<bar>tz\<bar> div 60 < 10 ^ 2" "nat \<bar>tz\<bar> mod 60 < 10 ^ 2" using assms by auto
  show "plain b" if "b \<in> set (tz_suffix tz)"
    using that pad_dec_plain [OF _ d(1), of b] pad_dec_plain [OF _ d(2), of b]
    by (auto simp: tz_suffix_def plain_def split: if_splits)
  show "tz_suffix tz \<noteq> []" "\<not> is_digit (hd (tz_suffix tz))" by (auto simp: tz_suffix_def is_digit_def)
qed

lemma apply_tz_suffix:
  assumes "- 840 \<le> tz" "tz \<le> 840" and "length t = 22 + length (tz_suffix tz)"
    and "\<And>i. i < length (tz_suffix tz) \<Longrightarrow> t ! (22 + i) = tz_suffix tz ! i"
    and "\<And>a b. a \<le> b \<Longrightarrow> b \<le> length (tz_suffix tz) \<Longrightarrow> str_get t (22 + a) (22 + b) = Some (take (b - a) (drop a (tz_suffix tz)))"
  shows "apply_tz t 22 tick = Some (if 0 \<le> tz then saturating_sub tick (word_of_int tz * US_MINUTE)
    else saturating_add tick (word_of_int \<bar>tz\<bar> * US_MINUTE))"
proof (cases "tz = 0")
  case True
  then have "tz_suffix tz = [90]" by (simp add: tz_suffix_def)
  then show ?thesis using assms(3) assms(4) [of 0] True by (simp add: apply_tz_def Let_def saturating_sub_def)
next
  case False
  let ?h = "nat \<bar>tz\<bar> div 60" and ?n = "nat \<bar>tz\<bar> mod 60"
  have lt: "?h < 10 ^ 2" "?n < 10 ^ 2" using assms(1,2) by auto
  note h = pad_dec_facts(1) [OF _ lt(1)] parse_pad_dec [OF _ lt(1)] and n = pad_dec_facts(1) [OF _ lt(2)] parse_pad_dec [OF _ lt(2)]
  have z: "tz_suffix tz = (if tz < 0 then 45 else 43) # pad_dec 2 ?h @ [58] @ pad_dec 2 ?n"
    using False by (simp add: tz_suffix_def)
  have lz: "length (tz_suffix tz) = 6" unfolding z using h(1) n(1) by simp
  have c: "t ! 22 = (if tz < 0 then 45 else 43)" using assms(4) [of 0] unfolding lz by (simp add: z)
  have dr: "drop 1 (tz_suffix tz) = pad_dec 2 ?h @ [58] @ pad_dec 2 ?n" "drop 4 (tz_suffix tz) = pad_dec 2 ?n"
    unfolding z using h(1) by simp_all
  have "str_get t 23 25 = Some (pad_dec 2 ?h)" "str_get t 26 28 = Some (pad_dec 2 ?n)"
    using assms(5) [of 1 3] assms(5) [of 4 6] h(1) n(1) unfolding lz dr by simp_all
  then have "digits_at t 23 25 = Some ?h" "digits_at t 26 28 = Some ?n"
    using h(2) n(2) lt by (simp_all add: digits_at_def)
  moreover have "of_nat (?h * 60 + ?n) = (word_of_int \<bar>tz\<bar> :: u64)"
    unfolding div_mult_mod_eq by (rule of_nat_nat) simp
  ultimately show ?thesis
    unfolding apply_tz_def Let_def c using lz assms(3) False by (auto simp: not_le)
qed


lemma int_unat: "int (unat x) = uint x"
  by transfer simp

lemma unat_le_uint: "uint x \<le> numeral k \<Longrightarrow> unat x \<le> numeral k"
  by (metis int_unat of_nat_le_iff of_nat_numeral)

text \<open>The centiseconds that the printed form keeps.\<close>

definition trim_centis :: "date_time \<Rightarrow> date_time" where
  "trim_centis dt = dt\<lparr>dt_micro := of_nat (unat (dt_micro dt) div 10000 * 10000)\<rparr>"

lemma parse_printed:
  assumes v: "valid_datetime dt" and tz: "- 840 \<le> tz" "tz \<le> 840"
  shows "rfc3339_parse (rfc3339_body dt tz) = Some (if 0 \<le> tz
    then saturating_sub (datetime_to_tick (trim_centis dt)) (word_of_int tz * US_MINUTE)
    else saturating_add (datetime_to_tick (trim_centis dt)) (word_of_int \<bar>tz\<bar> * US_MINUTE))"
    "rfc3339_text dt tz = rfc3339_body dt tz @ [0]" "\<forall>b\<in>set (rfc3339_body dt tz). plain b"
proof -
  note d = valid_datetimeD [OF v]
  let ?y = "unat (dt_year dt)" and ?m = "unat (dt_month dt)" and ?d = "unat (dt_day dt)" and ?h = "unat (dt_hour dt)"
    and ?n = "unat (dt_minute dt)" and ?s = "unat (dt_second dt)" and ?c = "unat (dt_micro dt) div 10000"
  have day: "uint (dt_day dt) \<le> 31" using d(6) month_length [of "uint (dt_year dt)" "uint (dt_month dt)"] by linarith
  have lt: "?y < 10 ^ 4" "?m < 10 ^ 2" "?d < 10 ^ 2" "?h < 10 ^ 2" "?n < 10 ^ 2" "?s < 10 ^ 2" "?c < 10 ^ 2"
    using unat_le_uint [OF d(2)] unat_le_uint [OF d(4)] unat_le_uint [OF day] unat_le_uint [OF d(7)]
      unat_le_uint [OF d(8)] unat_le_uint [OF d(9)] unat_le_uint [OF d(10)] by auto
  define Z where "Z = tz_suffix tz"
  define Y M D H N S C where F: "Y = pad_dec 4 ?y" "M = pad_dec 2 ?m" "D = pad_dec 2 ?d" "H = pad_dec 2 ?h"
    "N = pad_dec 2 ?n" "S = pad_dec 2 ?s" "C = pad_dec 2 ?c"
  have tx: "rfc3339_text dt tz = (Y @ [45] @ M @ [45] @ D @ [84] @ H @ [58] @ N @ [58] @ S @ [46] @ C @ Z) @ [0]"
    by (simp add: rfc3339_text_def F Z_def)
  have bd: "rfc3339_body dt tz = Y @ [45] @ M @ [45] @ D @ [84] @ H @ [58] @ N @ [58] @ S @ [46] @ C @ Z"
    unfolding rfc3339_body_def tx by (rule butlast_snoc)
  show "rfc3339_text dt tz = rfc3339_body dt tz @ [0]" unfolding tx bd ..
  have len: "length Y = 4" "length M = 2" "length D = 2" "length H = 2" "length N = 2" "length S = 2" "length C = 2"
    unfolding F by (rule pad_dec_facts(1), simp, fact lt)+
  have "\<forall>b\<in>set Y \<union> set M \<union> set D \<union> set H \<union> set N \<union> set S \<union> set C. plain b"
    unfolding F using pad_dec_plain [OF zero_less_numeral lt(1)] pad_dec_plain [OF zero_less_numeral lt(2)] pad_dec_plain [OF zero_less_numeral lt(3)]
      pad_dec_plain [OF zero_less_numeral lt(4)] pad_dec_plain [OF zero_less_numeral lt(5)] pad_dec_plain [OF zero_less_numeral lt(6)] pad_dec_plain [OF zero_less_numeral lt(7)] by blast
  moreover have "\<forall>b\<in>set Z. plain b" unfolding Z_def using tz_suffix_facts(1) [OF tz] by blast
  ultimately have pl: "\<forall>b\<in>set (Y @ [45] @ M @ [45] @ D @ [84] @ H @ [58] @ N @ [58] @ S @ [46] @ C @ Z). plain b"
    by (auto simp: plain_def)
  then show "\<forall>b\<in>set (rfc3339_body dt tz). plain b" unfolding bd .
  note asc = plain_ascii [OF pl]
  define t where "t = Y @ [45] @ M @ [45] @ D @ [84] @ H @ [58] @ N @ [58] @ S @ [46] @ C @ Z"
  note cut = cut_fields [OF len asc, folded t_def]
  have ps: "parse_u32 Y = Some ?y" "parse_u32 M = Some ?m" "parse_u32 D = Some ?d" "parse_u32 H = Some ?h"
    "parse_u32 N = Some ?n" "parse_u32 S = Some ?s"
    unfolding F using lt by (intro parse_pad_dec; simp)+
  have dg: "digits_at t 0 4 = Some ?y" "digits_at t 5 7 = Some ?m" "digits_at t 8 10 = Some ?d"
    "digits_at t 11 13 = Some ?h" "digits_at t 14 16 = Some ?n" "digits_at t 17 19 = Some ?s"
    unfolding digits_at_def cut(1-6) using ps by simp_all
  have fr: "parse_fraction 100000 0 20 (drop 20 t) = (22, ?c * 10000)"
    unfolding cut(8) using parse_two_fraction [of C Z] pad_dec_facts(2,3) [OF _ lt(7)] len(7) tz_suffix_facts(3) [OF tz]
    by (simp add: F Z_def)
  have tz': "apply_tz t 22 k = Some (if 0 \<le> tz then saturating_sub k (word_of_int tz * US_MINUTE)
    else saturating_add k (word_of_int \<bar>tz\<bar> * US_MINUTE))" for k
    by (rule apply_tz_suffix [OF tz]) (use cut(9-11) in \<open>simp_all add: Z_def\<close>)
  have los: "utf8_lossy t = t" using utf8_lossy_ascii asc unfolding t_def by blast
  have nl: "\<not> length t < 19" using cut(9) by simp
  have "rfc3339_parse t = apply_tz t 22 (datetime_to_tick (trim_centis dt))"
    unfolding rfc3339_parse_def los Let_def if_not_P [OF nl] dg if_P [OF cut(7)] fr
    by (cases dt) (simp add: trim_centis_def)
  then show "rfc3339_parse (rfc3339_body dt tz) = Some (if 0 \<le> tz
    then saturating_sub (datetime_to_tick (trim_centis dt)) (word_of_int tz * US_MINUTE)
    else saturating_add (datetime_to_tick (trim_centis dt)) (word_of_int \<bar>tz\<bar> * US_MINUTE))"
    unfolding bd t_def [symmetric] tz' [symmetric] .
qed


lemma trim_centis_tick:
  assumes v: "valid_datetime dt"
  shows "valid_datetime (trim_centis dt)"
    "uint (datetime_to_tick (trim_centis dt)) = uint (datetime_to_tick dt) - uint (dt_micro dt) mod 10000"
proof -
  note d = valid_datetimeD [OF v]
  let ?u = "unat (dt_micro dt)"
  have lt: "?u div 10000 * 10000 < 4294967296" using unat_le_uint [OF d(10)] by (simp add: div_times_less_eq_dividend le_less_trans)
  have "unat (of_nat (?u div 10000 * 10000) :: u32) = ?u div 10000 * 10000"
    using lt by (simp only: unat_of_nat take_bit_nat_def) simp
  then have m: "uint (dt_micro (trim_centis dt)) = int (?u div 10000 * 10000)"
    unfolding int_unat [symmetric] by (simp add: trim_centis_def)
  have m': "uint (dt_micro (trim_centis dt)) = uint (dt_micro dt) - uint (dt_micro dt) mod 10000"
    unfolding m minus_mod_eq_div_mult by (simp add: zdiv_int int_unat)
  have "0 \<le> uint (dt_micro dt) mod 10000" by simp
  then have "uint (dt_micro (trim_centis dt)) \<le> 999999" using m' d(10) by linarith
  then show tv: "valid_datetime (trim_centis dt)"
    by (intro valid_datetimeI) (use d in \<open>simp_all add: trim_centis_def\<close>)
  show "uint (datetime_to_tick (trim_centis dt)) = uint (datetime_to_tick dt) - uint (dt_micro dt) mod 10000"
    unfolding datetime_to_tick_ref [OF v] datetime_to_tick_ref [OF tv]
    using m' by (simp add: day_number_def time_of_day_def) (simp add: trim_centis_def)
qed

lemma shift_tick_int:
  assumes "- 840 \<le> tz" "tz \<le> 840" "0 \<le> uint t + tz * 60000000" "uint t + tz * 60000000 < 18446744073709551615"
  shows "uint (shift_tick t tz) = uint t + tz * 60000000"
proof -
  have k: "unat (word_of_int n * US_MINUTE :: u64) = nat n * 60000000" if "0 \<le> n" "n \<le> 840" for n
  proof -
    have "unat (of_nat (nat n * 60000000) :: u64) = nat n * 60000000"
      using that by (simp only: unat_of_nat take_bit_nat_def) simp
    then show ?thesis using that by simp
  qed
  show ?thesis
  proof (cases "0 \<le> tz")
    case True
    then have "unat (shift_tick t tz) = min (unat t + nat tz * 60000000) 18446744073709551615"
      using k [of tz] assms(2) by (simp add: shift_tick_def saturating_add_unat)
    moreover have "int (unat t + nat tz * 60000000) = uint t + tz * 60000000" using True by (simp add: int_unat)
    ultimately have "int (unat (shift_tick t tz)) = uint t + tz * 60000000" using assms(4) by linarith
    then show ?thesis by (simp only: int_unat)
  next
    case False
    then have "unat (shift_tick t tz) = unat t - nat \<bar>tz\<bar> * 60000000"
      using k [of "\<bar>tz\<bar>"] assms(1) by (simp add: shift_tick_def saturating_sub_unat)
    moreover have "int (unat t) - int (nat \<bar>tz\<bar> * 60000000) = uint t + tz * 60000000" using False by (simp add: int_unat)
    ultimately have "int (unat (shift_tick t tz)) = uint t + tz * 60000000" using assms(3) by linarith
    then show ?thesis by (simp only: int_unat)
  qed
qed

lemma unshift:
  "(if 0 \<le> tz then saturating_sub t (word_of_int tz * US_MINUTE) else saturating_add t (word_of_int \<bar>tz\<bar> * US_MINUTE))
    = shift_tick t (- tz)"
  by (cases "tz = 0") (simp_all add: shift_tick_def saturating_sub_def saturating_add_def)


lemma tz_suffix_length: "- 840 \<le> tz \<Longrightarrow> tz \<le> 840 \<Longrightarrow> length (tz_suffix tz) \<le> 6"
proof -
  assume tz: "- 840 \<le> tz" "tz \<le> 840"
  then have lt: "nat \<bar>tz\<bar> div 60 < 10 ^ 2" "nat \<bar>tz\<bar> mod 60 < 10 ^ 2" by auto
  show "length (tz_suffix tz) \<le> 6"
    unfolding tz_suffix_def using pad_dec_facts(1) [OF zero_less_numeral lt(1)] pad_dec_facts(1) [OF zero_less_numeral lt(2)]
    by simp
qed

lemma body_length:
  assumes v: "valid_datetime dt" and tz: "- 840 \<le> tz" "tz \<le> 840"
  shows "length (rfc3339_body dt tz) \<le> 28"
proof -
  note d = valid_datetimeD [OF v]
  have day: "uint (dt_day dt) \<le> 31" using d(6) month_length [of "uint (dt_year dt)" "uint (dt_month dt)"] by linarith
  have lt: "unat (dt_year dt) < 10 ^ 4" "unat (dt_month dt) < 10 ^ 2" "unat (dt_day dt) < 10 ^ 2" "unat (dt_hour dt) < 10 ^ 2"
    "unat (dt_minute dt) < 10 ^ 2" "unat (dt_second dt) < 10 ^ 2" "unat (dt_micro dt) div 10000 < 10 ^ 2"
    using unat_le_uint [OF d(2)] unat_le_uint [OF d(4)] unat_le_uint [OF day] unat_le_uint [OF d(7)]
      unat_le_uint [OF d(8)] unat_le_uint [OF d(9)] unat_le_uint [OF d(10)] by auto
  note l = pad_dec_facts(1) [OF zero_less_numeral lt(1)] pad_dec_facts(1) [OF zero_less_numeral lt(2)]
    pad_dec_facts(1) [OF zero_less_numeral lt(3)] pad_dec_facts(1) [OF zero_less_numeral lt(4)]
    pad_dec_facts(1) [OF zero_less_numeral lt(5)] pad_dec_facts(1) [OF zero_less_numeral lt(6)]
    pad_dec_facts(1) [OF zero_less_numeral lt(7)]
  show ?thesis using tz_suffix_length [OF tz] by (simp add: rfc3339_body_def rfc3339_text_def l)
qed

text \<open>Reading a written C string back.\<close>

lemma read_text_string:
  assumes "\<And>i. i < length bs \<Longrightarrow> gm_read E (ptr + of_nat (off + i)) 1 m = Some [bs ! i]"
    and "gm_read E (ptr + of_nat (off + length bs)) 1 m = Some [0]" "\<forall>b\<in>set bs. plain b" "length bs < k"
  shows "read_text E ptr off k raw m = Some (raw @ bs)"
  using assms
proof (induction bs arbitrary: off k raw)
  case Nil
  then show ?case by (cases k) auto
next
  case (Cons b bs)
  obtain k' where k: "k = Suc k'" using Cons.prems(4) by (cases k) auto
  have "gm_read E (ptr + of_nat off) 1 m = Some [b]" using Cons.prems(1) [of 0] by simp
  moreover have "read_text E ptr (off + 1) k' (raw @ [b]) m = Some ((raw @ [b]) @ bs)"
  proof (rule Cons.IH)
    fix i assume "i < length bs"
    then show "gm_read E (ptr + of_nat (off + 1 + i)) 1 m = Some [bs ! i]" using Cons.prems(1) [of "Suc i"] by simp
  qed (use Cons.prems(2-4) k in simp_all)
  moreover have "b \<noteq> 0" using Cons.prems(3) by (simp add: plain_def)
  ultimately show ?case using k by simp
qed

context byte_memory
begin

lemma read_text_written:
  assumes "ok m" "gm_write E ptr (bs @ [0]) m = (True, m')" "\<forall>b\<in>set bs. plain b" "length bs < k"
  shows "read_text E ptr 0 k [] m' = Some bs"
proof -
  have r: "gm_read E (ptr + of_nat i) 1 m' = Some [(bs @ [0]) ! i]" if "i < length bs + 1" for i
    using written_byte [OF assms(1,2), of i] that by simp
  have e: "gm_read E (ptr + of_nat (0 + i)) 1 m' = Some [bs ! i]" if "i < length bs" for i
    using r [of i] that by (simp add: nth_append)
  have z: "gm_read E (ptr + of_nat (0 + length bs)) 1 m' = Some [0]" using r [of "length bs"] by simp
  show ?thesis using read_text_string [of bs E ptr 0 m', OF e z assms(3,4)] by simp
qed

end

section \<open>Properties\<close>

text \<open>C20: The civil-date formulas are the calendar: for every date that
  \<open>sceRtcCheckValid\<close> accepts, the tick is the number of days counted one year
  and one month at a time from 0001-01-01, times the length of a day, plus the
  time of day, and Sakamoto's weekday is that day number's weekday.\<close>

theorem rtc_matches_reference:
  assumes "check_datetime dt = 0"
  shows "uint (datetime_to_tick dt) = day_number dt * 86400000000 + time_of_day dt \<and>
    day_of_week (uint (dt_year dt)) (uint (dt_month dt)) (uint (dt_day dt)) = (day_number dt + 1) mod 7"
  using datetime_to_tick_ref [OF assms] valid_datetimeD [OF assms] by (simp add: day_of_week_ref day_number_def)

definition demo_date :: date_time where
  "demo_date = \<lparr>dt_year = 2024, dt_month = 2, dt_day = 29, dt_hour = 23, dt_minute = 59, dt_second = 58, dt_micro = 123456\<rparr>"

lemma demo_date_valid: "check_datetime demo_date = 0"
  by (simp add: check_datetime_def demo_date_def days_in_month_def is_leap_def Let_def)

theorem rtc_matches_reference_witness:
  "uint (datetime_to_tick demo_date) = day_number demo_date * 86400000000 + time_of_day demo_date \<and>
   day_of_week 2024 2 29 = (day_number demo_date + 1) mod 7"
  using rtc_matches_reference [OF demo_date_valid] by (simp add: demo_date_def)

text \<open>Ticks and dates are in bijection from 1970 to 9999: a valid date of that
  period comes back from its tick, and a tick of that period converts to a
  valid date whose tick it is.\<close>

theorem rtc_roundtrip:
  shows "(check_datetime dt = 0 \<and> 1970 \<le> uint (dt_year dt) \<longrightarrow> tick_to_datetime (datetime_to_tick dt) = dt) \<and>
    (62135596800000000 \<le> uint t \<and> uint t < 315537897600000000 \<longrightarrow>
       check_datetime (tick_to_datetime t) = 0 \<and> datetime_to_tick (tick_to_datetime t) = t)"
  using tick_of_datetime datetime_of_tick by blast

theorem rtc_roundtrip_witness:
  "tick_to_datetime (datetime_to_tick demo_date) = demo_date \<and>
   datetime_to_tick (tick_to_datetime 63844848000000001) = 63844848000000001"
  using rtc_roundtrip [of demo_date "63844848000000001"] demo_date_valid by (simp add: demo_date_def)


lemma tick_micro_mod:
  assumes "62135596800000000 \<le> uint t"
  shows "uint (dt_micro (tick_to_datetime t)) mod 10000 = uint t mod 10000"
proof -
  have "(uint t - 62135596800000000) mod 86400000000 mod 1000000 mod 10000 = (uint t - 62135596800000000) mod 10000"
    by (simp add: mod_mod_cancel)
  also have "\<dots> = uint t mod 10000"
    using mod_diff_eq [of "uint t" 10000 62135596800000000] by simp
  finally show ?thesis unfolding tick_time(4) [OF assms] .
qed

text \<open>The tick a print and a parse leave.\<close>

lemma printed_tick:
  assumes "- 840 \<le> tz" "tz \<le> 840" and "62135596800000000 \<le> uint t + tz * 60000000"
    and "uint t + tz * 60000000 < 315537897600000000"
  defines "dt \<equiv> tick_to_datetime (shift_tick t tz)"
  shows "valid_datetime dt" "rfc3339_parse (rfc3339_body dt tz) = Some (t - t mod 10000)"
proof -
  have S: "uint (shift_tick t tz) = uint t + tz * 60000000"
    by (rule shift_tick_int [OF assms(1,2)]) (use assms(3,4) in simp_all)
  have b: "62135596800000000 \<le> uint (shift_tick t tz)" "uint (shift_tick t tz) < 315537897600000000"
    unfolding S using assms(3,4) by simp_all
  note dtk = datetime_of_tick [OF b, folded dt_def]
  show v: "valid_datetime dt" by (rule dtk(1))
  define T where "T = datetime_to_tick (trim_centis dt)"
  have "uint (dt_micro dt) mod 10000 = (uint t + tz * 60000000) mod 10000"
    unfolding dt_def tick_micro_mod [OF b(1)] S ..
  also have "uint t + tz * 60000000 = uint t + tz * 6000 * 10000" by simp
  also have "(uint t + tz * 6000 * 10000) mod 10000 = uint t mod 10000" by (rule mod_mult_self1)
  finally have T: "uint T = uint t + tz * 60000000 - uint t mod 10000"
    unfolding T_def trim_centis_tick(2) [OF v] dtk(2) S by simp
  have "0 \<le> uint t mod 10000" "uint t mod 10000 \<le> uint t" by (simp_all add: zmod_le_nonneg_dividend)
  then have "uint (shift_tick T (- tz)) = uint t - uint t mod 10000"
    using shift_tick_int [of "- tz" T] assms(1,2,4) T by simp
  moreover have "uint (t - t mod 10000) = uint t - uint t mod 10000"
    using \<open>uint t mod 10000 \<le> uint t\<close> by (simp add: uint_sub_if' uint_mod)
  ultimately have "shift_tick T (- tz) = t - t mod 10000" by (simp only: word_uint_eq_iff)
  then show "rfc3339_parse (rfc3339_body dt tz) = Some (t - t mod 10000)"
    unfolding parse_printed(1) [OF v assms(1,2)] T_def [symmetric] unshift by simp
qed

text \<open>C19: What \<open>sceRtcFormatRFC3339\<close> prints, \<open>sceRtcParseRFC3339\<close> reads back, and
  neither call fails: over any byte-accurate guest memory, when the tick is
  readable (or the current time is asked for), the time-zone offset is legal (at
  most 840 minutes either way), the local date lies in 1970 to 9999, the output
  buffer of 32 bytes is writable and so is the tick it is parsed into, formatting
  returns 0, parsing the stored string returns 0, and the tick read back is the
  given one down to the printed hundredths of a second.\<close>

theorem rfc3339_roundtrip:
  assumes mem: "byte_memory E ok" "ok m"
    and tick: "(if p = 0 then Some now else read_tick E p m) = Some t"
    and tz: "- 840 \<le> as_i32 z" "as_i32 z \<le> 840"
    and range: "62135596800000000 \<le> uint t + as_i32 z * 60000000" "uint t + as_i32 z * 60000000 < 315537897600000000"
    and out: "out \<noteq> 0" "\<forall>bs. length bs \<le> 32 \<longrightarrow> fst (gm_write E out bs m)"
    and dst: "dst \<noteq> 0" "\<forall>bs u. length bs \<le> 32 \<longrightarrow> fst (gm_write E dst (u64_bytes u) (snd (gm_write E out bs m)))"
  shows "\<exists>m1 m2. hle_format_rfc3339 E now [out, p, z] m = (0, m1) \<and>
    hle_parse_rfc3339 E [dst, out] m1 = (0, m2) \<and> read_tick E dst m2 = Some (t - t mod 10000)"
proof -
  let ?tz = "as_i32 z" and ?dt = "tick_to_datetime (shift_tick t (as_i32 z))"
  let ?b = "rfc3339_body ?dt ?tz @ [0]"
  note pt = printed_tick [OF tz range]
  note pp = parse_printed(2,3) [OF pt(1) tz]
  have l: "length (rfc3339_body ?dt ?tz) \<le> 28" by (rule body_length [OF pt(1) tz])
  have b: "length ?b \<le> 32" using l by simp
  define m1 where "m1 = snd (gm_write E out ?b m)"
  define m2 where "m2 = snd (gm_write E dst (u64_bytes (t - t mod 10000)) m1)"
  have w: "gm_write E out ?b m = (True, m1)"
    using out(2) [rule_format, OF b] by (simp add: m1_def prod_eq_iff)
  have w2: "gm_write E dst (u64_bytes (t - t mod 10000)) m1 = (True, m2)"
    using dst(2) [rule_format, OF b] by (simp add: m1_def m2_def prod_eq_iff)
  have "uint (dt_year ?dt) \<le> 9999" using valid_datetimeD(2) [OF pt(1)] .
  then have y: "\<not> dt_year ?dt > 9999" by (simp add: word_less_def)
  have "write_out_struct E out 32 (rfc3339_text ?dt ?tz) m = (True, m1)"
    using out(1) l w by (simp add: write_out_struct_def pp(1) Let_def)
  then have f: "hle_format_rfc3339 E now [out, p, z] m = (0, m1)"
    using out(1) tz tick y by (simp add: hle_format_rfc3339_def Let_def rtc_store_def)
  have "read_text E out 0 64 [] m1 = Some (rfc3339_body ?dt ?tz)"
    by (rule byte_memory.read_text_written [OF mem w pp(2)]) (use l in simp)
  then have g: "hle_parse_rfc3339 E [dst, out] m1 = (0, m2)"
    using out(1) dst(1) pt(2) w2 by (simp add: hle_parse_rfc3339_def write_tick_def rtc_store_def)
  have gm: "guest_memory E ok" using mem(1) by (rule byte_memory.axioms)
  have "ok m1" using guest_memory.write_ok [OF gm mem(2) w] .
  from guest_memory.read_back_u64 [OF gm this w2] have "read_tick E dst m2 = Some (t - t mod 10000)"
    by (simp only: read_tick_def)
  with f g show ?thesis by blast
qed


lemma test_write:
  assumes "unat a + length bs \<le> length m" "length m < 18446744073709551616"
  shows "fst (gm_write test_memory a bs m) \<and> length (snd (gm_write test_memory a bs m)) = length m"
  using assms by (simp add: test_memory_def tm_write_def Let_def)

theorem rfc3339_roundtrip_witness:
  "read_tick test_memory 0x10 (snd (hle_parse_rfc3339 test_memory [0x10, 0x40]
     (snd (hle_format_rfc3339 test_memory 63844848000123456 [0x40, 0, 0xFFFFFFFFFFFFFFA6] (replicate 256 0)))))
   = Some 63844848000120000"
proof -
  let ?m = "replicate 256 0 :: byte list"
  have z: "as_i32 0xFFFFFFFFFFFFFFA6 = - 90" by (simp add: as_i32_def signed_take_bit_int_eq_self)
  have o: "fst (gm_write test_memory 0x40 bs ?m) \<and> length (snd (gm_write test_memory 0x40 bs ?m)) = 256"
    if "length bs \<le> 32" for bs
    using test_write [of "0x40" bs ?m] that by simp
  have d: "fst (gm_write test_memory 0x10 (u64_bytes u) (snd (gm_write test_memory 0x40 bs ?m)))"
    if "length bs \<le> 32" for bs u
    using o [OF that] test_write [of "0x10" "u64_bytes u" "snd (gm_write test_memory 0x40 bs ?m)"] by simp
  have "\<exists>m1 m2. hle_format_rfc3339 test_memory 63844848000123456 [0x40, 0, 0xFFFFFFFFFFFFFFA6] ?m = (0, m1) \<and>
      hle_parse_rfc3339 test_memory [0x10, 0x40] m1 = (0, m2) \<and>
      read_tick test_memory 0x10 m2 = Some (63844848000123456 - 63844848000123456 mod 10000)"
    by (rule rfc3339_roundtrip [OF tmb.byte_memory_axioms TrueI]) (use o d in \<open>simp_all add: z\<close>)
  then show ?thesis by auto
qed

text \<open>The tick additions are exact or refused: when \<open>sceRtcTickAdd*\<close> returns
  success the stored tick is the signed sum of the source tick and \<open>n\<close> units,
  which is not negative and fits the signed 64-bit range; every other outcome
  is an error, and a refused value leaves the memory as it was.\<close>

theorem tick_add_exact:
  assumes "guest_memory E ok" "ok m" and "hle_tick_add unit E [dst, src, n] m = (r, m')"
  shows "(r = 0 \<longrightarrow> (\<exists>t. read_tick E src m = Some t \<and> 0 \<le> sint t + sint n * sint unit \<and>
      sint t + sint n * sint unit < 9223372036854775808 \<and>
      map_option uint (read_tick E dst m') = Some (sint t + sint n * sint unit))) \<and>
    (r \<noteq> 0 \<longrightarrow> r = ERR_INVALID_POINTER \<or> r = ERR_INVALID_VALUE) \<and> (r = ERR_INVALID_VALUE \<longrightarrow> m' = m)"
proof -
  have st: "write_tick E a x k = (c, k') \<Longrightarrow> c = 0 \<and> gm_write E a (u64_bytes x) k = (True, k') \<or> c = ERR_INVALID_POINTER" for a x k c k'
    by (cases "gm_write E a (u64_bytes x) k") (auto simp: write_tick_def rtc_store_def split: if_splits)
  consider "r = ERR_INVALID_POINTER" | "r = ERR_INVALID_VALUE" "m' = m"
    | t where "read_tick E src m = Some t" "i64_range (sint t + sint n * sint unit)" "0 \<le> sint t + sint n * sint unit"
      "write_tick E dst (word_of_int (sint t + sint n * sint unit)) m = (r, m')"
    using assms(3) by (auto simp: hle_tick_add_def Let_def not_less split: if_splits option.splits)
  then show ?thesis
  proof cases
    case (3 t)
    let ?v = "sint t + sint n * sint unit"
    from st [OF 3(4)] show ?thesis
    proof (elim disjE conjE)
      assume r: "r = 0" and w: "gm_write E dst (u64_bytes (word_of_int ?v)) m = (True, m')"
      have "read_tick E dst m' = Some (word_of_int ?v)"
        unfolding read_tick_def by (rule guest_memory.read_back_u64 [OF assms(1,2) w])
      moreover have "uint (word_of_int ?v :: u64) = ?v"
        using 3(2,3) by (intro uint_u64) (simp_all add: i64_range_def)
      ultimately have "map_option uint (read_tick E dst m') = Some ?v" by (simp only: option.map)
      then show ?thesis using 3(1-3) r by (auto simp: i64_range_def)
    qed simp
  qed simp_all
qed

theorem tick_add_exact_witness:
  "map_option uint (read_tick test_memory 16 (snd (hle_tick_add US_DAY test_memory [16, 8, - 1]
     (replicate 8 0 @ u64_bytes 90000000000 @ replicate 16 0)))) = Some 3600000000"
proof -
  let ?m = "replicate 8 0 @ u64_bytes 90000000000 @ replicate 16 0 :: byte list"
  have t: "read_tick test_memory 8 ?m = Some 90000000000"
    by (simp add: read_tick_def test_memory_def tm_read_def Let_def)
  have s: "sint (90000000000 :: u64) = 90000000000" "sint (US_DAY) = 86400000000"
    by (simp_all add: sint_uint signed_take_bit_int_eq_self)
  have f: "fst (hle_tick_add US_DAY test_memory [16, 8, - 1] ?m) = 0"
    using test_write [of 16 "u64_bytes 3600000000" ?m]
    by (simp add: hle_tick_add_def t s Let_def i64_range_def write_tick_def rtc_store_def)
  show ?thesis
    using tick_add_exact [OF tm.guest_memory_axioms TrueI, of US_DAY 16 8 "- 1" ?m 0
        "snd (hle_tick_add US_DAY test_memory [16, 8, - 1] ?m)"] f t s
    by (auto simp: prod_eq_iff)
qed

text \<open>Outside the period: a tick before 1970 becomes the Unix epoch, and a year past
  65535 wraps, so the guard on five-digit years does not see it.\<close>

lemma tick_before_epoch:
  assumes "uint t < 62135596800000000"
  shows "tick_to_datetime t = \<lparr>dt_year = 1970, dt_month = 1, dt_day = 1, dt_hour = 0, dt_minute = 0, dt_second = 0, dt_micro = 0\<rparr>"
proof -
  have "t < UNIX_EPOCH_TICKS" using assms by (simp add: word_less_def)
  then have "saturating_sub t UNIX_EPOCH_TICKS = 0" by (simp add: saturating_sub_def)
  moreover have "civil_from_days 0 = (1970, 1, 1)" by code_simp
  ultimately show ?thesis by (simp add: tick_to_datetime_def)
qed

lemma far_year_wraps: "dt_year (tick_to_datetime 2068120000000000000) = 1"
proof -
  have "civil_from_days 23217412 = (65537, 2, 12)" by code_simp
  then show ?thesis by (simp add: tick_to_datetime_def saturating_sub_def)
qed

end
