(* ===== verification/Gfx10_Swizzle.thy ===== *)
theory Gfx10_Swizzle
  imports Raeen_Prelude
begin

unbundle bit_operations_syntax

text \<open>
  The GFX10 (RDNA2) swizzle equations of
  \<open>src/crates/raeen-gpu/src/texture/tiling.rs\<close>: every bit of the byte offset of
  an element inside its swizzle block is the parity of some bits of its x and y
  coordinates. The theory holds the four tables as the code has them, the
  offset function with its per-axis factoring, and the fact the tilers rest on:
  under every equation of every table, distinct elements of one block have
  distinct offsets, each a multiple of the element size and below the block
  size. The last part is a decision procedure, \<open>settles\<close>: unit propagation over the
  equations from the assumption that the offset is zero, proved sound once and
  evaluated on each row.
\<close>

section \<open>Address bits\<close>

record address_bit =
  x_mask :: u32
  y_mask :: u32

definition ab_x :: "nat \<Rightarrow> address_bit" where
  "ab_x b = \<lparr>x_mask = push_bit b 1, y_mask = 0\<rparr>"

definition ab_y :: "nat \<Rightarrow> address_bit" where
  "ab_y b = \<lparr>x_mask = 0, y_mask = push_bit b 1\<rparr>"

definition ab_xy :: "nat \<Rightarrow> nat \<Rightarrow> address_bit" where
  "ab_xy x_bit y_bit = \<lparr>x_mask = push_bit x_bit 1, y_mask = push_bit y_bit 1\<rparr>"

definition ab_xyy :: "nat \<Rightarrow> nat \<Rightarrow> nat \<Rightarrow> address_bit" where
  "ab_xyy x_bit y1 y2 =
     \<lparr>x_mask = push_bit x_bit 1, y_mask = push_bit y1 1 OR push_bit y2 1\<rparr>"

definition AB_ZERO :: address_bit where
  "AB_ZERO = \<lparr>x_mask = 0, y_mask = 0\<rparr>"

section \<open>The tables\<close>

text \<open>One row per element size (1, 2, 4, 8 and 16 bytes), sixteen address bits
  per row, low bit first.\<close>

definition RB_PLUS_64K_DEPTH_X :: "address_bit list list" where
  "RB_PLUS_64K_DEPTH_X =
    [[ab_x 0, ab_y 0, ab_x 1, ab_y 1, ab_x 2, ab_y 2, ab_x 3, ab_y 3,
      ab_xyy 7 4 7, ab_xy 4 4, ab_xy 6 5, ab_xy 5 6, ab_x 6, ab_y 6, ab_xy 7 8, ab_xy 8 7],
     [AB_ZERO, ab_x 0, ab_y 0, ab_x 1, ab_y 1, ab_x 2, ab_y 2, ab_x 3,
      ab_xyy 7 4 7, ab_xy 4 4, ab_xy 6 5, ab_xy 5 6, ab_y 3, ab_x 6, ab_xy 7 7, ab_xy 8 6],
     [AB_ZERO, AB_ZERO, ab_x 0, ab_y 0, ab_x 1, ab_y 1, ab_x 2, ab_y 2,
      ab_xyy 7 4 7, ab_xy 4 4, ab_xy 6 5, ab_xy 5 6, ab_x 3, ab_y 3, ab_xy 6 7, ab_xy 7 6],
     [AB_ZERO, AB_ZERO, AB_ZERO, ab_x 0, ab_y 0, ab_x 1, ab_y 1, ab_x 2,
      ab_xyy 7 4 7, ab_xy 4 4, ab_xy 6 5, ab_xy 5 6, ab_y 2, ab_x 3, ab_xy 7 3, ab_xy 6 6],
     [AB_ZERO, AB_ZERO, AB_ZERO, AB_ZERO, ab_x 0, ab_y 0, ab_x 1, ab_y 1,
      ab_xyy 7 4 7, ab_xy 4 4, ab_xy 6 5, ab_xy 5 6, ab_x 2, ab_y 2, ab_xy 6 3, ab_xy 3 6]]"

definition PROSPERO_64K_RENDER_X :: "address_bit list list" where
  "PROSPERO_64K_RENDER_X =
    [[ab_x 0, ab_x 1, ab_x 2, ab_y 1, ab_y 0, ab_y 2, ab_x 3, ab_y 4,
      ab_xy 3 3, ab_xy 4 4, ab_xy 6 5, ab_xy 5 6, ab_y 6, ab_x 6, ab_y 7, ab_x 7],
     [AB_ZERO, ab_x 0, ab_x 1, ab_x 2, ab_y 0, ab_y 1, ab_y 2, ab_x 3,
      ab_xy 3 3, ab_xy 4 4, ab_xy 6 5, ab_xy 5 6, ab_y 4, ab_x 6, ab_y 6, ab_x 7],
     [AB_ZERO, AB_ZERO, ab_x 0, ab_x 1, ab_y 0, ab_y 1, ab_y 2, ab_x 2,
      ab_xy 3 3, ab_xy 4 4, ab_xy 6 5, ab_xy 5 6, ab_y 3, ab_x 4, ab_y 6, ab_x 6],
     [AB_ZERO, AB_ZERO, AB_ZERO, ab_x 0, ab_y 0, ab_x 1, ab_x 2, ab_y 1,
      ab_xy 3 3, ab_xy 4 4, ab_xy 6 5, ab_xy 5 6, ab_y 2, ab_x 3, ab_y 4, ab_x 6],
     [AB_ZERO, AB_ZERO, AB_ZERO, AB_ZERO, ab_x 0, ab_y 0, ab_x 1, ab_y 1,
      ab_xy 3 3, ab_xy 4 4, ab_xy 6 5, ab_xy 5 6, ab_y 2, ab_x 2, ab_y 3, ab_x 4]]"

definition RB_PLUS_64K_STANDARD :: "address_bit list list" where
  "RB_PLUS_64K_STANDARD =
    [[ab_x 0, ab_x 1, ab_x 2, ab_x 3, ab_y 0, ab_y 1, ab_y 2, ab_y 3,
      ab_y 4, ab_x 4, ab_y 5, ab_x 5, ab_y 6, ab_x 6, ab_y 7, ab_x 7],
     [AB_ZERO, ab_x 0, ab_x 1, ab_x 2, ab_y 0, ab_y 1, ab_y 2, ab_x 3,
      ab_y 3, ab_x 4, ab_y 4, ab_x 5, ab_y 5, ab_x 6, ab_y 6, ab_x 7],
     [AB_ZERO, AB_ZERO, ab_x 0, ab_x 1, ab_y 0, ab_y 1, ab_y 2, ab_x 2,
      ab_y 3, ab_x 3, ab_y 4, ab_x 4, ab_y 5, ab_x 5, ab_y 6, ab_x 6],
     [AB_ZERO, AB_ZERO, AB_ZERO, ab_x 0, ab_y 0, ab_y 1, ab_x 1, ab_x 2,
      ab_y 2, ab_x 3, ab_y 3, ab_x 4, ab_y 4, ab_x 5, ab_y 5, ab_x 6],
     [AB_ZERO, AB_ZERO, AB_ZERO, AB_ZERO, ab_y 0, ab_y 1, ab_x 0, ab_x 1,
      ab_y 2, ab_x 2, ab_y 3, ab_x 3, ab_y 4, ab_x 4, ab_y 5, ab_x 5]]"

definition STANDARD_4K :: "address_bit list list" where
  "STANDARD_4K =
    [[ab_x 0, ab_x 1, ab_x 2, ab_x 3, ab_y 0, ab_y 1, ab_y 2, ab_y 3,
      ab_y 4, ab_x 4, ab_y 5, ab_x 5, AB_ZERO, AB_ZERO, AB_ZERO, AB_ZERO],
     [AB_ZERO, ab_x 0, ab_x 1, ab_x 2, ab_y 0, ab_y 1, ab_y 2, ab_x 3,
      ab_y 3, ab_x 4, ab_y 4, ab_x 5, AB_ZERO, AB_ZERO, AB_ZERO, AB_ZERO],
     [AB_ZERO, AB_ZERO, ab_x 0, ab_x 1, ab_y 0, ab_y 1, ab_y 2, ab_x 2,
      ab_y 3, ab_x 3, ab_y 4, ab_x 4, AB_ZERO, AB_ZERO, AB_ZERO, AB_ZERO],
     [AB_ZERO, AB_ZERO, AB_ZERO, ab_x 0, ab_y 0, ab_y 1, ab_x 1, ab_x 2,
      ab_y 2, ab_x 3, ab_y 3, ab_x 4, AB_ZERO, AB_ZERO, AB_ZERO, AB_ZERO],
     [AB_ZERO, AB_ZERO, AB_ZERO, AB_ZERO, ab_y 0, ab_y 1, ab_x 0, ab_x 1,
      ab_y 2, ab_x 2, ab_y 3, ab_x 3, AB_ZERO, AB_ZERO, AB_ZERO, AB_ZERO]]"


section \<open>The offset of an element\<close>

text \<open>\<open>u32::count_ones\<close>.\<close>

definition count_ones :: "u32 \<Rightarrow> nat" where
  "count_ones w = length (filter (bit w) [0..<32])"

definition pattern_axis_term :: "u32 \<Rightarrow> address_bit list \<Rightarrow> bool \<Rightarrow> u64" where
  "pattern_axis_term coord pat use_x =
     fold (\<lambda>(b, eq) off.
         off OR push_bit b (of_nat (count_ones (coord AND (if use_x then x_mask eq else y_mask eq)) mod 2)))
       (enumerate 0 pat) 0"

definition gfx10_pattern_offset :: "u32 \<Rightarrow> u32 \<Rightarrow> address_bit list \<Rightarrow> u64" where
  "gfx10_pattern_offset x y pat = pattern_axis_term x pat True XOR pattern_axis_term y pat False"

text \<open>\<open>swizzle_table\<close>: the equations and the block size of a tile mode.\<close>

definition swizzle_table :: "byte \<Rightarrow> (address_bit list list \<times> u64) option" where
  "swizzle_table mode =
     (if mode = 5 then Some (STANDARD_4K, 4096)
      else if mode = 9 then Some (RB_PLUS_64K_STANDARD, 65536)
      else if mode = 24 then Some (RB_PLUS_64K_DEPTH_X, 65536)
      else if mode = 27 then Some (PROSPERO_64K_RENDER_X, 65536)
      else None)"

definition swizzle_64kb_table :: "byte \<Rightarrow> address_bit list list option" where
  "swizzle_64kb_table mode =
     (if mode = 9 then Some RB_PLUS_64K_STANDARD
      else if mode = 24 then Some RB_PLUS_64K_DEPTH_X
      else if mode = 27 then Some PROSPERO_64K_RENDER_X
      else None)"

definition SWIZZLE_TABLE_ROWS :: nat where
  "SWIZZLE_TABLE_ROWS = 5"

definition bpp_log2_is_supported :: "nat \<Rightarrow> bool" where
  "bpp_log2_is_supported bpp_log2 \<longleftrightarrow> bpp_log2 < SWIZZLE_TABLE_ROWS"

text \<open>\<open>u32::trailing_zeros\<close> and \<open>u32::div_ceil\<close>.\<close>

definition trailing_zeros :: "u32 \<Rightarrow> nat" where
  "trailing_zeros w = length (takeWhile (\<lambda>n. \<not> bit w n) [0..<32])"

definition div_ceil :: "u32 \<Rightarrow> u32 \<Rightarrow> u32" where
  "div_ceil a b = (if 0 < a mod b then a div b + 1 else a div b)"

text \<open>A shift amount is reduced modulo the width in the release profile.\<close>

definition block_dimensions :: "u32 \<Rightarrow> nat \<Rightarrow> u32 \<times> u32" where
  "block_dimensions block_bytes bpp_log2 =
     (let elements = drop_bit (bpp_log2 mod 32) block_bytes;
          side_log2 = trailing_zeros elements;
          w_log2 = (side_log2 + 1) div 2
      in (push_bit (w_log2 mod 32) 1, push_bit ((side_log2 - w_log2) mod 32) 1))"

section \<open>Bits and parities\<close>

lemma odd_count_ones_xor:
  "odd (count_ones (a XOR b)) \<longleftrightarrow> odd (count_ones a) \<noteq> odd (count_ones b)"
proof -
  have "odd (length (filter (bit (a XOR b)) ns))
      \<longleftrightarrow> odd (length (filter (bit a) ns)) \<noteq> odd (length (filter (bit b) ns))" for ns
    by (induction ns) (auto simp: bit_xor_iff)
  then show ?thesis unfolding count_ones_def .
qed

lemma count_ones_zero_iff: "count_ones w = 0 \<longleftrightarrow> w = 0"
proof
  assume "count_ones w = 0"
  then have "\<not> bit w n" if "n < 32" for n
    using that by (simp add: count_ones_def filter_empty_conv)
  then show "w = 0" by (intro bit_word_eqI) simp
qed (simp add: count_ones_def)

text \<open>Evaluation strips the bits from the low end.\<close>

lemma count_ones_rec [code]:
  "count_ones w = (if w = 0 then 0 else (if bit w 0 then 1 else 0) + count_ones (drop_bit 1 w))"
proof -
  have up: "[0..<32] = 0 # map Suc [0..<31]"
    by (simp add: upt_conv_Cons map_Suc_upt del: upt_Suc)
  have "[0..<32] = [0..<31] @ [31]" by (simp add: upt_rec)
  moreover have "\<not> bit (drop_bit 1 w) 31" by (auto simp: bit_drop_bit_eq dest: bit_imp_le_length)
  ultimately have short: "filter (bit (drop_bit 1 w)) [0..<32] = filter (bit (drop_bit 1 w)) [0..<31]"
    by (metis append_Nil2 filter.simps filter_append)
  have shift: "length (filter (bit w) (map Suc ns)) = length (filter (bit (drop_bit 1 w)) ns)" for ns
    by (induction ns) (auto simp: bit_drop_bit_eq)
  have "count_ones w = (if bit w 0 then 1 else 0) + length (filter (bit w) (map Suc [0..<31]))"
    unfolding count_ones_def up by simp
  also have "\<dots> = (if bit w 0 then 1 else 0) + count_ones (drop_bit 1 w)"
    unfolding count_ones_def short shift by simp
  finally show ?thesis
    using count_ones_zero_iff [of w] count_ones_zero_iff [of 0] by (cases "w = 0") simp_all
qed

lemma count_ones_and_le: "count_ones (v AND w) \<le> count_ones w"
proof -
  have "length (filter (bit (v AND w)) ns) \<le> length (filter (bit w) ns)" for ns
    by (induction ns) (auto simp: bit_and_iff)
  then show ?thesis unfolding count_ones_def .
qed

text \<open>A single unknown bit with even parity is zero.\<close>

lemma single_bit_settled:
  assumes "count_ones w \<le> 1" "even (count_ones (v AND w))"
  shows "v AND w = 0"
proof -
  have "count_ones (v AND w) = 0"
    using assms count_ones_and_le [of v w] by presburger
  then show ?thesis by (simp add: count_ones_zero_iff)
qed

lemma bit_parity_fold:
  fixes off :: u64
  shows "bit (fold (\<lambda>(b, q) off. off OR push_bit b (of_nat (g q mod 2))) (enumerate s qs) off) n \<longleftrightarrow>
     bit off n \<or> (s \<le> n \<and> n - s < length qs \<and> n < 64 \<and> odd (g (qs ! (n - s))))"
proof (induction qs arbitrary: s off)
  case (Cons q qs)
  have "of_nat (g q mod 2) = (if odd (g q) then 1 else 0 :: u64)"
    by (auto simp: odd_iff_mod_2_eq_one)
  then have one: "bit (push_bit s (of_nat (g q mod 2)) :: u64) n \<longleftrightarrow> n = s \<and> n < 64 \<and> odd (g q)"
    by (auto simp: bit_push_bit_iff bit_1_iff)
  have "bit (fold (\<lambda>(b, q) off. off OR push_bit b (of_nat (g q mod 2)))
      (enumerate s (q # qs)) off) n \<longleftrightarrow>
    bit off n \<or> n = s \<and> n < 64 \<and> odd (g q) \<or>
    (Suc s \<le> n \<and> n - Suc s < length qs \<and> n < 64 \<and> odd (g (qs ! (n - Suc s))))"
    by (simp add: Cons bit_or_iff one)
  also have "\<dots> \<longleftrightarrow> bit off n \<or> (s \<le> n \<and> n - s < length (q # qs) \<and> n < 64 \<and>
      odd (g ((q # qs) ! (n - s))))"
    by (auto simp: nth_Cons')
  finally show ?case .
qed simp

lemma bit_pattern_axis_term:
  "bit (pattern_axis_term c pat ux) n \<longleftrightarrow> n < length pat \<and> n < 64 \<and>
     odd (count_ones (c AND (if ux then x_mask (pat ! n) else y_mask (pat ! n))))"
  unfolding pattern_axis_term_def bit_parity_fold by simp

text \<open>Bit \<open>n\<close> of the offset is the parity the \<open>n\<close>-th equation takes.\<close>

definition equation_bit :: "address_bit \<Rightarrow> u32 \<Rightarrow> u32 \<Rightarrow> bool" where
  "equation_bit eq x y \<longleftrightarrow>
     odd (count_ones (x AND x_mask eq)) \<noteq> odd (count_ones (y AND y_mask eq))"

lemma bit_gfx10_pattern_offset:
  "bit (gfx10_pattern_offset x y pat) n \<longleftrightarrow>
     n < length pat \<and> n < 64 \<and> equation_bit (pat ! n) x y"
  by (auto simp: gfx10_pattern_offset_def bit_xor_iff bit_pattern_axis_term equation_bit_def)

text \<open>The equations are linear: the offset of an exclusive-or of coordinates is
  the exclusive-or of the offsets.\<close>

lemma gfx10_pattern_offset_xor:
  "gfx10_pattern_offset (x XOR x') (y XOR y') pat =
     gfx10_pattern_offset x y pat XOR gfx10_pattern_offset x' y' pat"
  by (rule bit_word_eqI)
    (auto simp: bit_gfx10_pattern_offset bit_xor_iff equation_bit_def
      bit.conj_xor_distrib2 odd_count_ones_xor)

section \<open>Distinct elements have distinct offsets\<close>

text \<open>Unit propagation. The pair of masks holds the coordinate bits known to be
  zero; an equation whose parity is zero and in which a single bit is unknown
  settles that bit.\<close>

definition settle :: "address_bit \<Rightarrow> u32 \<times> u32 \<Rightarrow> u32 \<times> u32" where
  "settle eq known =
     (let ux = x_mask eq AND NOT (fst known); uy = y_mask eq AND NOT (snd known)
      in if count_ones ux + count_ones uy = 1 then (fst known OR ux, snd known OR uy) else known)"

definition settles :: "address_bit list \<Rightarrow> nat \<Rightarrow> nat \<Rightarrow> bool" where
  "settles pat w_log2 h_log2 \<longleftrightarrow>
     fold settle (pat @ pat) (NOT (mask w_log2), NOT (mask h_log2)) = (- 1, - 1)"

definition known_zero :: "u32 \<Rightarrow> u32 \<Rightarrow> u32 \<times> u32 \<Rightarrow> bool" where
  "known_zero x y known \<longleftrightarrow> x AND fst known = 0 \<and> y AND snd known = 0"

lemma and_known:
  assumes "(v :: u32) AND k = 0"
  shows "v AND m = v AND (m AND NOT k)"
proof (rule bit_word_eqI)
  fix n assume "n < LENGTH(32)"
  have "\<not> (bit v n \<and> bit k n)" using assms by (metis bit_and_iff bit_0_eq bot_apply bot_bool_def)
  then show "bit (v AND m) n \<longleftrightarrow> bit (v AND (m AND NOT k)) n"
    using \<open>n < LENGTH(32)\<close> by (auto simp: bit_and_iff bit_not_iff)
qed

lemma settle_sound:
  assumes k: "known_zero x y known" and e: "\<not> equation_bit eq x y"
  shows "known_zero x y (settle eq known)"
proof -
  define ux uy where "ux = x_mask eq AND NOT (fst known)" and "uy = y_mask eq AND NOT (snd known)"
  have x: "x AND x_mask eq = x AND ux" and y: "y AND y_mask eq = y AND uy"
    using k and_known by (auto simp: known_zero_def ux_def uy_def)
  have par: "odd (count_ones (x AND ux)) = odd (count_ones (y AND uy))"
    using e by (simp add: equation_bit_def x y)
  show ?thesis
  proof (cases "count_ones ux + count_ones uy = 1")
    case True
    then consider "uy = 0" "count_ones ux = 1" | "ux = 0" "count_ones uy = 1"
      using count_ones_zero_iff [of ux] count_ones_zero_iff [of uy] by linarith
    then have "x AND ux = 0 \<and> y AND uy = 0"
      by cases (use par single_bit_settled [of ux x] single_bit_settled [of uy y] in
          \<open>auto simp: count_ones_zero_iff [THEN iffD2]\<close>)
    then show ?thesis
      using k True
      by (simp add: settle_def ux_def [symmetric] uy_def [symmetric] known_zero_def
          bit.conj_disj_distrib Let_def)
  next
    case False
    then show ?thesis
      using k by (simp add: settle_def ux_def [symmetric] uy_def [symmetric] Let_def)
  qed
qed

lemma settle_run_sound:
  "\<forall>eq\<in>set eqs. \<not> equation_bit eq x y \<Longrightarrow> known_zero x y known \<Longrightarrow>
     known_zero x y (fold settle eqs known)"
  by (induction eqs arbitrary: known) (auto simp: settle_sound)

lemma settles_kernel:
  assumes s: "settles pat w h" and l: "length pat \<le> 64"
    and x: "x AND NOT (mask w) = 0" and y: "y AND NOT (mask h) = 0"
    and z: "gfx10_pattern_offset x y pat = 0"
  shows "x = 0 \<and> y = 0"
proof -
  have "\<not> equation_bit (pat ! n) x y" if "n < length pat" for n
    using bit_gfx10_pattern_offset [of x y pat n] that z l by simp
  then have "\<forall>eq\<in>set (pat @ pat). \<not> equation_bit eq x y"
    by (auto simp: in_set_conv_nth)
  then have "known_zero x y (- 1, - 1)"
    using settle_run_sound [of "pat @ pat" x y "(NOT (mask w), NOT (mask h))"] s x y
    by (simp add: settles_def known_zero_def)
  then show ?thesis by (simp add: known_zero_def)
qed

text \<open>Two elements of one block - their coordinates agree above the block
  extent - with the same offset are the same element.\<close>

lemma settles_inject:
  assumes s: "settles pat w h" "length pat \<le> 64"
    and x: "drop_bit w x = drop_bit w x'" and y: "drop_bit h y = drop_bit h y'"
    and e: "gfx10_pattern_offset x y pat = gfx10_pattern_offset x' y' pat"
  shows "x = x' \<and> y = y'"
proof -
  have high: "(a XOR b) AND NOT (mask k) = 0" if "drop_bit k a = drop_bit k b" for a b :: u32 and k
  proof (rule bit_word_eqI)
    fix n assume "n < LENGTH(32)"
    have "bit a n = bit b n" if "k \<le> n"
    proof -
      have "bit (drop_bit k a) (n - k) = bit (drop_bit k b) (n - k)"
        using \<open>drop_bit k a = drop_bit k b\<close> by simp
      then show ?thesis using that by (simp add: bit_drop_bit_eq)
    qed
    then show "bit ((a XOR b) AND NOT (mask k)) n \<longleftrightarrow> bit (0 :: u32) n"
      by (auto simp: bit_and_iff bit_xor_iff bit_not_iff bit_mask_iff)
  qed
  have "gfx10_pattern_offset (x XOR x') (y XOR y') pat = 0"
    using e by (simp add: gfx10_pattern_offset_xor)
  then have "x XOR x' = 0 \<and> y XOR y' = 0"
    using settles_kernel [OF s high [OF x] high [OF y]] by blast
  moreover have "a = b" if "a XOR b = 0" for a b :: u32
    using that by (metis xor.assoc xor_self_eq xor.left_neutral xor.right_neutral)
  ultimately show ?thesis by blast
qed

text \<open>Low and high bits: an equation row over elements of \<open>2 ^ b\<close> bytes in
  blocks of \<open>2 ^ k\<close> bytes touches neither the low \<open>b\<close> bits nor the bits from \<open>k\<close> on.\<close>

definition row_ok :: "nat \<Rightarrow> nat \<Rightarrow> address_bit list \<Rightarrow> bool" where
  "row_ok b k pat \<longleftrightarrow>
     length pat = 16 \<and> take b pat = replicate b AB_ZERO \<and> drop k pat = replicate (16 - k) AB_ZERO \<and>
     settles pat ((k - b + 1) div 2) (k - b - (k - b + 1) div 2)"

lemma standard_4k_rows: "list_all (\<lambda>b. row_ok b 12 (STANDARD_4K ! b)) [0..<5]"
  by code_simp

lemma standard_64k_rows: "list_all (\<lambda>b. row_ok b 16 (RB_PLUS_64K_STANDARD ! b)) [0..<5]"
  by code_simp

lemma depth_64k_rows: "list_all (\<lambda>b. row_ok b 16 (RB_PLUS_64K_DEPTH_X ! b)) [0..<5]"
  by code_simp

lemma render_64k_rows: "list_all (\<lambda>b. row_ok b 16 (PROSPERO_64K_RENDER_X ! b)) [0..<5]"
  by code_simp

text \<open>The rows of a supported mode, with the block size as a power of two.\<close>

definition block_log2 :: "u64 \<Rightarrow> nat" where
  "block_log2 block_bytes = (if block_bytes = 4096 then 12 else 16)"

lemma swizzle_table_rows:
  assumes "swizzle_table mode = Some (table, block_bytes)" "b < 5"
  shows "row_ok b (block_log2 block_bytes) (table ! b) \<and> length table = 5 \<and>
     unat block_bytes = 2 ^ block_log2 block_bytes \<and> block_log2 block_bytes \<in> {12, 16}"
proof -
  have len: "length STANDARD_4K = 5" "length RB_PLUS_64K_STANDARD = 5"
    "length RB_PLUS_64K_DEPTH_X = 5" "length PROSPERO_64K_RENDER_X = 5"
    by (simp_all add: STANDARD_4K_def RB_PLUS_64K_STANDARD_def RB_PLUS_64K_DEPTH_X_def
        PROSPERO_64K_RENDER_X_def)
  have rows: "row_ok b 12 (STANDARD_4K ! b)" "row_ok b 16 (RB_PLUS_64K_STANDARD ! b)"
    "row_ok b 16 (RB_PLUS_64K_DEPTH_X ! b)" "row_ok b 16 (PROSPERO_64K_RENDER_X ! b)"
    using standard_4k_rows standard_64k_rows depth_64k_rows render_64k_rows assms(2)
    by (simp_all add: list_all_iff)
  show ?thesis
    using assms(1) rows len
    by (auto simp: swizzle_table_def block_log2_def split: if_splits)
qed

lemma equation_bit_zero: "\<not> equation_bit AB_ZERO x y"
  by (simp add: equation_bit_def AB_ZERO_def)

lemma row_ok_bits:
  assumes ok: "row_ok b k pat" and k: "k \<le> 16"
    and bit: "bit (gfx10_pattern_offset x y pat) n"
  shows "b \<le> n \<and> n < k"
proof -
  have len: "length pat = 16" and lo: "take b pat = replicate b AB_ZERO"
    and hi: "drop k pat = replicate (16 - k) AB_ZERO"
    using ok by (auto simp: row_ok_def)
  have n: "n < 16" and e: "equation_bit (pat ! n) x y"
    using bit len by (auto simp: bit_gfx10_pattern_offset)
  have "pat ! n = AB_ZERO" if "n < b"
    using arg_cong [OF lo, of "\<lambda>xs. xs ! n"] that by simp
  moreover have "pat ! n = AB_ZERO" if "k \<le> n"
    using arg_cong [OF hi, of "\<lambda>xs. xs ! (n - k)"] that n k len by simp
  ultimately show ?thesis
    using e equation_bit_zero by (metis not_le)
qed

text \<open>Below the block size, and a multiple of the element size.\<close>

lemma row_ok_bounds:
  assumes ok: "row_ok b k pat" and k: "k \<le> 16"
  shows "unat (gfx10_pattern_offset x y pat) < 2 ^ k \<and>
    2 ^ b dvd unat (gfx10_pattern_offset x y pat)"
proof -
  let ?o = "gfx10_pattern_offset x y pat"
  have hi: "take_bit k ?o = ?o"
    by (rule bit_word_eqI) (use row_ok_bits [OF ok k] in \<open>auto simp: bit_take_bit_iff\<close>)
  have lo: "take_bit b ?o = 0"
    by (rule bit_word_eqI) (auto simp: bit_take_bit_iff dest!: row_ok_bits [OF ok k])
  have "take_bit k (unat ?o) = unat ?o"
    using hi by (metis unsigned_take_bit_eq)
  then have "unat ?o < 2 ^ k" by (metis take_bit_nat_less_exp)
  moreover have "take_bit b (unat ?o) = 0"
    using lo by (metis unsigned_take_bit_eq unsigned_0)
  then have "2 ^ b dvd unat ?o" by (simp add: take_bit_eq_0_iff)
  ultimately show ?thesis by simp
qed

text \<open>The block extents of a supported element size.\<close>

definition block_w_log2 :: "nat \<Rightarrow> nat \<Rightarrow> nat" where
  "block_w_log2 k b = (k - b + 1) div 2"

definition block_h_log2 :: "nat \<Rightarrow> nat \<Rightarrow> nat" where
  "block_h_log2 k b = k - b - (k - b + 1) div 2"

lemma block_dimensions_rows:
  "list_all (\<lambda>b. block_dimensions 65536 b = (2 ^ block_w_log2 16 b, 2 ^ block_h_log2 16 b)) [0..<5]"
  "list_all (\<lambda>b. block_dimensions 4096 b = (2 ^ block_w_log2 12 b, 2 ^ block_h_log2 12 b)) [0..<5]"
  by code_simp+

end
