(* ===== verification/Byte_Blits.thy ===== *)
theory Byte_Blits
  imports Raeen_Prelude
begin

text \<open>
  Loops that move fixed-size elements between byte buffers: the slice copy of
  Rust (which panics when a range is outside its buffer), the counted loop over
  a fallible body, a row filled element by element, and a set of copies to
  pairwise disjoint places. The locale \<open>tiled_surface\<close> states what a texture
  layout has to promise - every element has a slot of its own inside the
  buffer - and proves once that scattering a linear image into the slots and
  gathering it back is the identity.
\<close>

section \<open>Slices\<close>

text \<open>\<open>dst[d..d + n].copy_from_slice(&src[s..s + n])\<close>; a range outside its
  buffer is a panic, the result \<open>None\<close>.\<close>

definition copy_slice :: "'a list \<Rightarrow> nat \<Rightarrow> 'a list \<Rightarrow> nat \<Rightarrow> nat \<Rightarrow> 'a list option" where
  "copy_slice dst d src s n =
     (if d + n \<le> length dst \<and> s + n \<le> length src
      then Some (take d dst @ take n (drop s src) @ drop (d + n) dst) else None)"

text \<open>\<open>for i in xs { body }\<close> where the body may panic.\<close>

primrec for_each :: "('a \<Rightarrow> 's \<Rightarrow> 's option) \<Rightarrow> 'a list \<Rightarrow> 's \<Rightarrow> 's option" where
  "for_each f [] s = Some s"
| "for_each f (x # xs) s = (case f x s of None \<Rightarrow> None | Some t \<Rightarrow> for_each f xs t)"

lemma for_each_append:
  "for_each f (xs @ ys) s = (case for_each f xs s of None \<Rightarrow> None | Some t \<Rightarrow> for_each f ys t)"
  by (induction xs arbitrary: s) (auto split: option.split)

lemma for_each_map: "for_each f (map g xs) s = for_each (\<lambda>x. f (g x)) xs s"
  by (induction xs arbitrary: s) (auto split: option.split)

lemma for_each_nested:
  "for_each (\<lambda>y. for_each (\<lambda>x. f (y, x)) xs) ys s = for_each f (List.product ys xs) s"
  by (induction ys arbitrary: s) (auto simp: for_each_append for_each_map split: option.split)

lemma for_each_cong:
  assumes "\<And>x t. x \<in> set xs \<Longrightarrow> f x t = g x t"
  shows "for_each f xs s = for_each g xs s"
  using assms by (induction xs arbitrary: s) (auto split: option.split)

lemma for_each_total:
  "for_each (\<lambda>x s. Some (f x s)) xs s = Some (fold f xs s)"
  by (induction xs arbitrary: s) auto

lemma length_copy_slice: "copy_slice dst d src s n = Some r \<Longrightarrow> length r = length dst"
  by (auto simp: copy_slice_def split: if_splits)

lemma copy_slice_here:
  "copy_slice dst d src s n = Some r \<Longrightarrow> take n (drop d r) = take n (drop s src)"
  by (auto simp: copy_slice_def split: if_splits)

lemma copy_slice_elsewhere:
  assumes "copy_slice dst d src s n = Some r" "e + k \<le> d \<or> d + n \<le> e"
  shows "take k (drop e r) = take k (drop e dst)"
proof (rule nth_equalityI)
  have b: "d + n \<le> length dst" "s + n \<le> length src"
    and r: "r = take d dst @ take n (drop s src) @ drop (d + n) dst"
    using assms(1) by (auto simp: copy_slice_def split: if_splits)
  have at: "r ! j = dst ! j" if "j < length dst" "j < d \<or> d + n \<le> j" for j
    using b that by (auto simp: r nth_append)
  have len: "length r = length dst" using length_copy_slice [OF assms(1)] .
  then show "length (take k (drop e r)) = length (take k (drop e dst))" by simp
  fix i assume "i < length (take k (drop e r))"
  then have "i < k" "e + i < length dst" using len by auto
  then show "take k (drop e r) ! i = take k (drop e dst) ! i"
    using assms(2) len at [of "e + i"] by auto
qed

section \<open>Filling a buffer from the front\<close>

text \<open>Writing the pieces \<open>f 0, f 1, \<dots>\<close> of \<open>n\<close> bytes each at the offsets
  \<open>0, n, 2n, \<dots>\<close> leaves their concatenation.\<close>

definition put_piece :: "nat \<Rightarrow> (nat \<Rightarrow> 'a list) \<Rightarrow> nat \<Rightarrow> 'a list \<Rightarrow> 'a list" where
  "put_piece n f i buf = take (i * n) buf @ f i @ drop (i * n + n) buf"

lemma length_concat_const:
  "(\<And>x. x \<in> set xs \<Longrightarrow> length (f x) = n) \<Longrightarrow> length (concat (map f xs)) = length xs * n"
  by (induction xs) auto

lemma fold_put_piece:
  assumes "\<And>i. i < k \<Longrightarrow> length (f i) = n" "k * n \<le> length buf"
  shows "fold (put_piece n f) [0..<k] buf = concat (map f [0..<k]) @ drop (k * n) buf"
  using assms
proof (induction k)
  case (Suc k)
  have len: "length (concat (map f [0..<k])) = k * n"
    using Suc.prems length_concat_const [of "[0..<k]" f n] by simp
  have drp: "drop n (drop (k * n) buf) = drop (Suc k * n) buf"
    by (simp add: add.commute)
  show ?case
    using Suc len drp by (simp add: put_piece_def)
qed simp

lemma concat_pieces:
  "k * n \<le> length xs \<Longrightarrow> concat (map (\<lambda>i. take n (drop (i * n) xs)) [0..<k]) = take (k * n) xs"
proof (induction k)
  case (Suc k)
  then have "concat (map (\<lambda>i. take n (drop (i * n) xs)) [0..<Suc k])
      = take (k * n) xs @ take n (drop (k * n) xs)" by simp
  also have "\<dots> = take (k * n + n) xs" by (rule take_add [symmetric])
  finally show ?case by (simp add: add.commute)
qed simp

text \<open>A rectangle in row-major order is one run of pieces.\<close>

lemma upt_rows: "[0..<Suc h * w] = [0..<h * w] @ map (\<lambda>x. h * w + x) [0..<w]"
proof -
  have "Suc h * w = h * w + w" by simp
  then have "[0..<Suc h * w] = [0..<h * w] @ [h * w..<h * w + w]"
    by (metis upt_add_eq_append zero_le)
  moreover have "[h * w..<h * w + w] = map (\<lambda>x. h * w + x) [0..<w]"
    using map_add_upt [of "h * w" w] by (simp add: add.commute)
  ultimately show ?thesis by simp
qed

lemma concat_rows:
  "concat (map (\<lambda>y. concat (map (\<lambda>x. f (y * w + x)) [0..<w])) [0..<h])
     = concat (map f [0..<h * w])"
proof (induction h)
  case (Suc h)
  show ?case
    unfolding upt_rows using Suc by (simp add: comp_def)
qed simp

lemma upt_product:
  "List.product [0..<h] [0..<w] = map (\<lambda>i. (i div w, i mod w)) [0..<h * w]"
proof (induction h)
  case (Suc h)
  have p: "List.product (xs @ [x]) ys = List.product xs ys @ map (Pair x) ys"
    for xs ys :: "nat list" and x
    by (induction xs) auto
  have "map (\<lambda>i. (i div w, i mod w)) (map (\<lambda>x. h * w + x) [0..<w]) = map (Pair h) [0..<w]"
    by simp
  moreover have "[0..<Suc h] = [0..<h] @ [h]" by simp
  ultimately show ?case
    unfolding upt_rows using Suc by (simp only: p map_append)
qed simp

text \<open>A run of pieces inside a buffer of pieces.\<close>

lemma concat_slice:
  assumes "\<And>i. length (f i) = n" "a + k \<le> m"
  shows "take (k * n) (drop (a * n) (concat (map f [0..<m]))) = concat (map (\<lambda>i. f (a + i)) [0..<k])"
proof -
  have "[0..<m] = [0..<a] @ map (\<lambda>i. a + i) [0..<k] @ [a + k..<m]"
  proof -
    have "map (\<lambda>i. a + i) [0..<k] = [a..<a + k]"
      using map_add_upt [of a k] by (simp add: add.commute)
    then show ?thesis
      using assms(2) by (metis le_add1 le_add_same_cancel1 le_iff_add upt_add_eq_append zero_le append.assoc)
  qed
  moreover have len: "length (concat (map g xs)) = length xs * n" if "\<And>i. length (g i) = n"
    for g :: "nat \<Rightarrow> 'a list" and xs
    using that by (rule length_concat_const)
  ultimately show ?thesis
    using len [of f "[0..<a]"] len [of "\<lambda>i. f (a + i)" "[0..<k]"] assms(1) by (simp add: comp_def)
qed

section \<open>Copies to disjoint places\<close>

text \<open>The copies of a list of \<open>(to, from)\<close> pairs, one after the other.\<close>

lemma scatter_pieces:
  assumes "\<And>p. p \<in> set ps \<Longrightarrow> fst p + n \<le> length buf \<and> snd p + n \<le> length src"
    and "pairwise (\<lambda>p q. fst p + n \<le> fst q \<or> fst q + n \<le> fst p) (set ps)" "distinct ps"
  shows "\<exists>r. for_each (\<lambda>p b. copy_slice b (fst p) src (snd p) n) ps buf = Some r \<and>
     length r = length buf \<and>
     (\<forall>p\<in>set ps. take n (drop (fst p) r) = take n (drop (snd p) src)) \<and>
     (\<forall>e k. (\<forall>p\<in>set ps. e + k \<le> fst p \<or> fst p + n \<le> e)
        \<longrightarrow> take k (drop e r) = take k (drop e buf))"
  using assms
proof (induction ps arbitrary: buf)
  case (Cons p ps)
  obtain b where b: "copy_slice buf (fst p) src (snd p) n = Some b"
    using Cons.prems(1) [of p] by (simp add: copy_slice_def)
  note lb = length_copy_slice [OF b]
  have pw: "pairwise (\<lambda>p q. fst p + n \<le> fst q \<or> fst q + n \<le> fst p) (set ps)"
    using Cons.prems(2) by (simp add: pairwise_insert)
  obtain r where r: "for_each (\<lambda>p b. copy_slice b (fst p) src (snd p) n) ps b = Some r"
    "length r = length b"
    "\<forall>p\<in>set ps. take n (drop (fst p) r) = take n (drop (snd p) src)"
    "\<forall>e k. (\<forall>p\<in>set ps. e + k \<le> fst p \<or> fst p + n \<le> e)
        \<longrightarrow> take k (drop e r) = take k (drop e b)"
    using Cons.IH [of b] Cons.prems lb pw by auto
  have apart: "fst p + n \<le> fst q \<or> fst q + n \<le> fst p" if "q \<in> set ps" for q
    using Cons.prems(2,3) that unfolding pairwise_def by auto
  have "take n (drop (fst p) r) = take n (drop (fst p) b)"
    using r(4) apart by blast
  then have "take n (drop (fst p) r) = take n (drop (snd p) src)"
    using copy_slice_here [OF b] by simp
  then show ?case
    using b r lb copy_slice_elsewhere [OF b] by auto
qed auto

section \<open>Tiled surfaces\<close>

text \<open>A layout, over parameters \<open>p\<close>, of \<open>wide p \<times> high p\<close> elements of
  \<open>bytes p\<close> bytes in a buffer of \<open>extent p\<close> bytes: \<open>slot p x y\<close> is the offset
  of element \<open>(x, y)\<close>. It promises that the slots are inside the buffer and
  pairwise disjoint.\<close>

locale tiled_surface =
  fixes valid :: "'p \<Rightarrow> bool"
    and wide :: "'p \<Rightarrow> nat"
    and high :: "'p \<Rightarrow> nat"
    and bytes :: "'p \<Rightarrow> nat"
    and extent :: "'p \<Rightarrow> nat"
    and slot :: "'p \<Rightarrow> nat \<Rightarrow> nat \<Rightarrow> nat"
  assumes bytes_pos: "valid p \<Longrightarrow> 0 < bytes p"
    and slot_fits: "valid p \<Longrightarrow> x < wide p \<Longrightarrow> y < high p \<Longrightarrow> slot p x y + bytes p \<le> extent p"
    and slot_apart: "valid p \<Longrightarrow> x < wide p \<Longrightarrow> y < high p \<Longrightarrow> x' < wide p \<Longrightarrow> y' < high p \<Longrightarrow>
       (x, y) \<noteq> (x', y') \<Longrightarrow>
       slot p x y + bytes p \<le> slot p x' y' \<or> slot p x' y' + bytes p \<le> slot p x y"
begin

text \<open>The tiling loop: the linear image is read row by row.\<close>

definition tile_loop :: "'p \<Rightarrow> 'a list \<Rightarrow> 'a list \<Rightarrow> 'a list option" where
  "tile_loop p linear buf =
     for_each (\<lambda>y. for_each (\<lambda>x b.
        copy_slice b (slot p x y) linear ((y * wide p + x) * bytes p) (bytes p)) [0..<wide p])
       [0..<high p] buf"

text \<open>The image the slots hold, in row-major order.\<close>

definition gathered :: "'p \<Rightarrow> 'a list \<Rightarrow> 'a list" where
  "gathered p buf = concat (map (\<lambda>y. concat (map (\<lambda>x.
       take (bytes p) (drop (slot p x y) buf)) [0..<wide p])) [0..<high p])"

lemma tile_loop_total:
  assumes v: "valid p" and l: "high p * wide p * bytes p \<le> length linear"
    and b: "extent p \<le> length buf"
  shows "\<exists>r. tile_loop p linear buf = Some r \<and> length r = length buf \<and>
     (\<forall>x<wide p. \<forall>y<high p. take (bytes p) (drop (slot p x y) r)
        = take (bytes p) (drop ((y * wide p + x) * bytes p) linear)) \<and>
     (\<forall>e k. extent p \<le> e \<longrightarrow> take k (drop e r) = take k (drop e buf))"
proof -
  let ?w = "wide p" and ?h = "high p" and ?n = "bytes p"
  let ?g = "\<lambda>(y, x). (slot p x y, (y * ?w + x) * ?n)"
  let ?ps = "map ?g (List.product [0..<?h] [0..<?w])"
  have loop: "tile_loop p linear buf
      = for_each (\<lambda>q b. copy_slice b (fst q) linear (snd q) ?n) ?ps buf"
    unfolding tile_loop_def for_each_map
    by (subst for_each_nested [symmetric]) simp
  have inside: "(y * ?w + x) * ?n + ?n \<le> length linear" if "y < ?h" "x < ?w" for x y
  proof -
    have "y * ?w + x + 1 \<le> y * ?w + ?w" using that by simp
    also have "\<dots> = (y + 1) * ?w" by simp
    also have "\<dots> \<le> ?h * ?w" using that by (intro mult_le_mono1) simp
    finally have "(y * ?w + x + 1) * ?n \<le> ?h * ?w * ?n" by (rule mult_le_mono1)
    then show ?thesis using l by (simp add: algebra_simps)
  qed
  have range: "fst q + ?n \<le> length buf \<and> snd q + ?n \<le> length linear" if "q \<in> set ?ps" for q
    using that inside slot_fits [OF v] b by (fastforce intro: le_trans)
  have apart: "pairwise (\<lambda>q r. fst q + ?n \<le> fst r \<or> fst r + ?n \<le> fst q) (set ?ps)"
    unfolding pairwise_def using slot_apart [OF v] by fastforce
  have inj: "inj_on ?g (set (List.product [0..<?h] [0..<?w]))"
    using slot_apart [OF v] bytes_pos [OF v] unfolding inj_on_def by fastforce
  have dist: "distinct ?ps"
    using inj by (simp add: distinct_map distinct_product)
  obtain r where r: "for_each (\<lambda>q b. copy_slice b (fst q) linear (snd q) ?n) ?ps buf = Some r"
    "length r = length buf"
    "\<forall>q\<in>set ?ps. take ?n (drop (fst q) r) = take ?n (drop (snd q) linear)"
    "\<forall>e k. (\<forall>q\<in>set ?ps. e + k \<le> fst q \<or> fst q + ?n \<le> e)
        \<longrightarrow> take k (drop e r) = take k (drop e buf)"
    using scatter_pieces [OF range apart dist] by blast
  have past: "fst q + ?n \<le> e" if "q \<in> set ?ps" "extent p \<le> e" for q e
    using that slot_fits [OF v] by (fastforce intro: le_trans)
  have far: "take k (drop e r) = take k (drop e buf)" if "extent p \<le> e" for e k
    using r(4) past that by blast
  show ?thesis
    using r(1,2,3) loop far by auto
qed

text \<open>The round trip: what the slots hold after tiling is the linear image.\<close>

lemma gathered_tile_loop:
  assumes v: "valid p" and l: "high p * wide p * bytes p \<le> length linear"
    and r: "\<forall>x<wide p. \<forall>y<high p. take (bytes p) (drop (slot p x y) r)
        = take (bytes p) (drop ((y * wide p + x) * bytes p) linear)"
  shows "gathered p r = take (high p * wide p * bytes p) linear"
proof -
  have "gathered p r = concat (map (\<lambda>y. concat (map (\<lambda>x.
       take (bytes p) (drop ((y * wide p + x) * bytes p) linear)) [0..<wide p])) [0..<high p])"
    unfolding gathered_def using r by (intro arg_cong [where f = concat] map_cong refl) auto
  also have "\<dots> = concat (map (\<lambda>i. take (bytes p) (drop (i * bytes p) linear))
      [0..<high p * wide p])"
    by (rule concat_rows)
  finally show ?thesis using l by (simp add: concat_pieces)
qed

end

end
