(* ===== verification/Texture_Tiling.thy ===== *)
theory Texture_Tiling
  imports Gfx10_Swizzle Byte_Blits
begin

unbundle bit_operations_syntax

text \<open>
  Texture tiling of \<open>src/crates/raeen-gpu/src/texture/tiling.rs\<close>: the
  micro-tile conversion in both directions, the detiler and the tilers of the
  GFX10 swizzle modes, and the placement of the base level of a mip chain. Both
  layouts are interpretations of \<open>tiled_surface\<close>, so the round trips follow
  from the slots being inside the buffer and pairwise disjoint. Slice accesses
  out of range panic (\<open>None\<close>); sizes are computed at the width the code uses.
\<close>

section \<open>Micro tiles\<close>

datatype tiling_mode = Linear | MicroTiled | MacroTiled

abbreviation MICRO_TILE_DIM :: u32 where
  "MICRO_TILE_DIM \<equiv> 8"

definition micro_tile_element :: "u32 \<Rightarrow> u32 \<Rightarrow> u32" where
  "micro_tile_element px py =
     (px AND 1) OR push_bit 1 (py AND 1) OR push_bit 1 (px AND 2) OR push_bit 2 (py AND 2)
       OR push_bit 2 (px AND 4) OR push_bit 3 (py AND 4)"

text \<open>The copies of the micro-tile loops are guarded, so they cannot panic.\<close>

definition copy_if_fits :: "'a list \<Rightarrow> nat \<Rightarrow> 'a list \<Rightarrow> nat \<Rightarrow> nat \<Rightarrow> 'a list" where
  "copy_if_fits dst d src s n =
     (if s + n \<le> length src \<and> d + n \<le> length dst
      then take d dst @ take n (drop s src) @ drop (d + n) dst else dst)"

text \<open>The offset of element \<open>(x, y)\<close> in the tiled and in the linear buffer, at
  32 bits.\<close>

definition micro_tile_offset :: "u32 \<Rightarrow> u32 \<Rightarrow> u32 \<Rightarrow> u32 \<Rightarrow> u32" where
  "micro_tile_offset width bpp x y =
     (let tiles_x = div_ceil width MICRO_TILE_DIM;
          tile_bytes = MICRO_TILE_DIM * MICRO_TILE_DIM * bpp;
          tile_index = (y div MICRO_TILE_DIM) * tiles_x + (x div MICRO_TILE_DIM);
          elem = micro_tile_element (x mod MICRO_TILE_DIM) (y mod MICRO_TILE_DIM)
      in tile_index * tile_bytes + elem * bpp)"

definition linear_offset :: "u32 \<Rightarrow> u32 \<Rightarrow> u32 \<Rightarrow> u32 \<Rightarrow> u32" where
  "linear_offset width bpp x y = y * (width * bpp) + x * bpp"

definition detile_micro :: "byte list \<Rightarrow> u32 \<Rightarrow> u32 \<Rightarrow> u32 \<Rightarrow> byte list" where
  "detile_micro src width height bpp =
     fold (\<lambda>y. fold (\<lambda>x dst.
         copy_if_fits dst (unat (linear_offset width bpp (of_nat x) (of_nat y))) src
           (unat (micro_tile_offset width bpp (of_nat x) (of_nat y))) (unat bpp))
       [0..<unat width]) [0..<unat height]
     (replicate (unat (width * bpp * height)) 0)"

definition tile_micro :: "byte list \<Rightarrow> u32 \<Rightarrow> u32 \<Rightarrow> u32 \<Rightarrow> byte list" where
  "tile_micro src width height bpp =
     (let tiles_x = div_ceil width MICRO_TILE_DIM;
          tiles_y = div_ceil height MICRO_TILE_DIM;
          tile_bytes = MICRO_TILE_DIM * MICRO_TILE_DIM * bpp
      in fold (\<lambda>y. fold (\<lambda>x dst.
         copy_if_fits dst (unat (micro_tile_offset width bpp (of_nat x) (of_nat y))) src
           (unat (linear_offset width bpp (of_nat x) (of_nat y))) (unat bpp))
       [0..<unat width]) [0..<unat height]
     (replicate (unat (tiles_x * tiles_y * tile_bytes)) 0))"

text \<open>The macro mode is read as the micro mode, after a warning.\<close>

definition detile_macro :: "byte list \<Rightarrow> u32 \<Rightarrow> u32 \<Rightarrow> u32 \<Rightarrow> byte list" where
  "detile_macro src width height bpp = detile_micro src width height bpp"

fun detile :: "byte list \<Rightarrow> u32 \<Rightarrow> u32 \<Rightarrow> u32 \<Rightarrow> tiling_mode \<Rightarrow> byte list" where
  "detile src width height bpp Linear = src"
| "detile src width height bpp MicroTiled = detile_micro src width height bpp"
| "detile src width height bpp MacroTiled = detile_macro src width height bpp"

section \<open>GFX10 surfaces\<close>

definition bytes_per_element :: "nat \<Rightarrow> u64" where
  "bytes_per_element bpp_log2 = push_bit (bpp_log2 mod 64) 1"

definition block_count_bytes :: "u32 \<Rightarrow> u32 \<Rightarrow> nat \<Rightarrow> u64 \<Rightarrow> u64" where
  "block_count_bytes width height bpp_log2 block_bytes =
     (let (bw, bh) = block_dimensions (ucast block_bytes) bpp_log2
      in ucast (div_ceil width bw) * ucast (div_ceil height bh) * block_bytes)"

definition tiled_byte_count_64kb :: "u32 \<Rightarrow> u32 \<Rightarrow> nat \<Rightarrow> u64" where
  "tiled_byte_count_64kb width height bpp_log2 = block_count_bytes width height bpp_log2 65536"

definition tiled_byte_count_for_mode :: "byte \<Rightarrow> u32 \<Rightarrow> u32 \<Rightarrow> nat \<Rightarrow> u64 option" where
  "tiled_byte_count_for_mode mode width height bpp_log2 =
     (case swizzle_table mode of None \<Rightarrow> None
      | Some (_, block_bytes) \<Rightarrow>
          if \<not> bpp_log2_is_supported bpp_log2 then None
          else Some (block_count_bytes width height bpp_log2 block_bytes))"

text \<open>The offset of an element in the tiled buffer.\<close>

definition tiled_offset :: "address_bit list \<Rightarrow> u64 \<Rightarrow> u32 \<Rightarrow> u32 \<Rightarrow> u32 \<Rightarrow> u32 \<Rightarrow> u32 \<Rightarrow> u64" where
  "tiled_offset pat block_bytes width bw bh xx yy =
     (let blocks_per_row = ucast (div_ceil width bw);
          block_y = ucast (yy div bh);
          block_index = block_y * blocks_per_row + ucast (xx div bw)
      in block_index * block_bytes + gfx10_pattern_offset xx yy pat)"

text \<open>\<open>chunks_mut\<close>: the buffer in pieces of \<open>n\<close> bytes, the last one shorter.\<close>

function chunks :: "nat \<Rightarrow> 'a list \<Rightarrow> 'a list list" where
  "chunks n xs = (if n = 0 \<or> xs = [] then [] else take n xs # chunks n (drop n xs))"
  by pat_completeness auto
termination by (relation "measure (\<lambda>(n, xs). length xs)") auto

declare chunks.simps [simp del]

text \<open>One output row; the column terms are precomputed.\<close>

definition detile_row ::
  "byte list \<Rightarrow> address_bit list \<Rightarrow> u64 \<Rightarrow> u32 \<Rightarrow> u32 \<Rightarrow> u32 \<Rightarrow> u64 \<Rightarrow> u64 list \<Rightarrow> u32
     \<Rightarrow> byte list \<Rightarrow> byte list option" where
  "detile_row tiled pat block_bytes width bw bh bpp x_term_by_column yy row =
     (let blocks_per_row = ucast (div_ceil width bw);
          block_y = ucast (yy div bh);
          y_term = pattern_axis_term yy pat False
      in for_each (\<lambda>i row.
           let xx = of_nat i;
               block_index = block_y * blocks_per_row + ucast (xx div bw);
               src = block_index * block_bytes + ((x_term_by_column ! i) XOR y_term);
               dst = i * unat bpp
           in if unat (src + bpp) \<le> length tiled
              then copy_slice row dst tiled (unat src) (unat bpp) else Some row)
         [0..<unat width] row)"

text \<open>The rows in order (the parallel loop writes the same rows); a chunk size of
  zero panics.\<close>

primrec detile_rows :: "(nat \<Rightarrow> 'a list \<Rightarrow> 'a list option) \<Rightarrow> nat \<Rightarrow> 'a list list \<Rightarrow> 'a list option" where
  "detile_rows f k [] = Some []"
| "detile_rows f k (r # rs) = (case f k r of None \<Rightarrow> None | Some r' \<Rightarrow>
     (case detile_rows f (Suc k) rs of None \<Rightarrow> None | Some rest \<Rightarrow> Some (r' @ rest)))"

definition detile_64kb_with ::
  "byte list \<Rightarrow> u32 \<Rightarrow> u32 \<Rightarrow> nat \<Rightarrow> address_bit list list \<Rightarrow> u64 \<Rightarrow> byte list option" where
  "detile_64kb_with tiled width height bpp_log2 table block_bytes =
     (if length table \<le> bpp_log2 then None
      else let pat = table ! bpp_log2;
               bpp = bytes_per_element bpp_log2;
               (bw, bh) = block_dimensions (ucast block_bytes) bpp_log2;
               out = replicate (unat (ucast width * ucast height * bpp)) 0;
               x_term_by_column = map (\<lambda>xx. pattern_axis_term (of_nat xx) pat True) [0..<unat width];
               row_bytes = ucast width * bpp
           in if row_bytes = 0 then None
              else detile_rows (\<lambda>yy. detile_row tiled pat block_bytes width bw bh bpp
                      x_term_by_column (of_nat yy)) 0 (chunks (unat row_bytes) out))"

definition detile_64kb_r_x :: "byte list \<Rightarrow> u32 \<Rightarrow> u32 \<Rightarrow> nat \<Rightarrow> byte list option" where
  "detile_64kb_r_x tiled width height bpp_log2 =
     detile_64kb_with tiled width height bpp_log2 PROSPERO_64K_RENDER_X 65536"

definition detile_64kb_s :: "byte list \<Rightarrow> u32 \<Rightarrow> u32 \<Rightarrow> nat \<Rightarrow> byte list option" where
  "detile_64kb_s tiled width height bpp_log2 =
     detile_64kb_with tiled width height bpp_log2 RB_PLUS_64K_STANDARD 65536"

text \<open>The outer option is the panic, the inner one the function's own result.\<close>

definition detile_64kb :: "byte \<Rightarrow> byte list \<Rightarrow> u32 \<Rightarrow> u32 \<Rightarrow> nat \<Rightarrow> byte list option option" where
  "detile_64kb mode tiled width height bpp_log2 =
     (case swizzle_table mode of None \<Rightarrow> Some None
      | Some (table, block_bytes) \<Rightarrow>
          if \<not> bpp_log2_is_supported bpp_log2 then Some None
          else map_option Some (detile_64kb_with tiled width height bpp_log2 table block_bytes))"

text \<open>The tiling loop of \<open>tile_64kb_with\<close> and \<open>tile_64kb_into\<close>.\<close>

definition tile_rows ::
  "byte list \<Rightarrow> address_bit list \<Rightarrow> u64 \<Rightarrow> u32 \<Rightarrow> u32 \<Rightarrow> u32 \<Rightarrow> u32 \<Rightarrow> u64
     \<Rightarrow> byte list \<Rightarrow> byte list option" where
  "tile_rows linear pat block_bytes width height bw bh bpp =
     for_each (\<lambda>yy. let src_row = of_nat yy * ucast width * bpp in
       for_each (\<lambda>xx out. let src = src_row + of_nat xx * bpp in
         copy_slice out (unat (tiled_offset pat block_bytes width bw bh (of_nat xx) (of_nat yy)))
           linear (unat src) (unat bpp)) [0..<unat width]) [0..<unat height]"

definition tile_64kb_with ::
  "byte list \<Rightarrow> u32 \<Rightarrow> u32 \<Rightarrow> nat \<Rightarrow> address_bit list list \<Rightarrow> byte list option" where
  "tile_64kb_with linear width height bpp_log2 table =
     (if length table \<le> bpp_log2 then None
      else let (bw, bh) = block_dimensions 65536 bpp_log2 in
        tile_rows linear (table ! bpp_log2) 65536 width height bw bh (bytes_per_element bpp_log2)
          (replicate (unat (tiled_byte_count_64kb width height bpp_log2)) 0))"

definition tile_64kb_r_x :: "byte list \<Rightarrow> u32 \<Rightarrow> u32 \<Rightarrow> nat \<Rightarrow> byte list option" where
  "tile_64kb_r_x linear width height bpp_log2 =
     tile_64kb_with linear width height bpp_log2 PROSPERO_64K_RENDER_X"

definition tile_64kb_s :: "byte list \<Rightarrow> u32 \<Rightarrow> u32 \<Rightarrow> nat \<Rightarrow> byte list option" where
  "tile_64kb_s linear width height bpp_log2 =
     tile_64kb_with linear width height bpp_log2 RB_PLUS_64K_STANDARD"

definition tile_64kb_z_x :: "byte list \<Rightarrow> u32 \<Rightarrow> u32 \<Rightarrow> nat \<Rightarrow> byte list option" where
  "tile_64kb_z_x linear width height bpp_log2 =
     tile_64kb_with linear width height bpp_log2 RB_PLUS_64K_DEPTH_X"

text \<open>\<open>tile_64kb_into\<close>: the result flag and the guest buffer; the outer option
  is the panic. The linear extent is a checked product.\<close>

definition linear_extent :: "u32 \<Rightarrow> u32 \<Rightarrow> nat \<Rightarrow> nat option" where
  "linear_extent width height bpp_log2 =
     (let n = unat width * unat height * unat (bytes_per_element bpp_log2)
      in if unat width * unat height < 2 ^ 64 \<and> n < 2 ^ 64 then Some n else None)"

definition tile_64kb_into ::
  "byte \<Rightarrow> byte list \<Rightarrow> byte list \<Rightarrow> u32 \<Rightarrow> u32 \<Rightarrow> nat \<Rightarrow> (bool \<times> byte list) option" where
  "tile_64kb_into mode linear tiled width height bpp_log2 =
     (case swizzle_table mode of None \<Rightarrow> Some (False, tiled)
      | Some (table, block_bytes) \<Rightarrow>
        (case linear_extent width height bpp_log2 of None \<Rightarrow> Some (False, tiled)
         | Some linear_len \<Rightarrow>
           (case tiled_byte_count_for_mode mode width height bpp_log2 of
              None \<Rightarrow> Some (False, tiled)
            | Some count \<Rightarrow> let tiled_len = unat count in
                if length linear < linear_len \<or> length tiled < tiled_len then Some (False, tiled)
                else let (bw, bh) = block_dimensions (ucast block_bytes) bpp_log2 in
                  map_option (Pair True)
                    (tile_rows linear (table ! bpp_log2) block_bytes width height bw bh
                       (bytes_per_element bpp_log2)
                       (replicate tiled_len 0 @ drop tiled_len tiled)))))"

section \<open>Arithmetic of the layouts\<close>

definition ceil_div :: "nat \<Rightarrow> nat \<Rightarrow> nat" where
  "ceil_div a b = (a + b - 1) div b"

lemma ceil_div_cover: "0 < b \<Longrightarrow> x < a \<Longrightarrow> x div b < ceil_div a b"
proof -
  assume "0 < b" "x < a"
  then have "x + b \<le> a + b - 1" by simp
  then have "(x + b) div b \<le> (a + b - 1) div b" by (rule div_le_mono)
  moreover have "(x + b) div b = x div b + 1"
    using \<open>0 < b\<close> div_mult_self1 [of b x 1] by simp
  ultimately show ?thesis by (simp add: ceil_div_def)
qed

lemma unat_div_ceil:
  assumes "0 < b"
  shows "unat (div_ceil a b) = ceil_div (unat a) (unat b)"
proof -
  let ?a = "unat a" and ?b = "unat b"
  have b: "0 < ?b" using assms by (simp add: word_less_nat_alt)
  have split: "?a = ?a div ?b * ?b + ?a mod ?b" by simp
  show ?thesis
  proof (cases "?a mod ?b = 0")
    case True
    then have "\<not> 0 < a mod b" by (simp add: word_less_nat_alt unat_mod)
    moreover have "(?a + ?b - 1) div ?b = ?a div ?b"
    proof -
      have "?a + ?b - 1 = (?b - 1) + ?a div ?b * ?b" using split True b by simp
      then have "(?a + ?b - 1) div ?b = ?a div ?b + (?b - 1) div ?b"
        using b div_mult_self1 [of ?b "?b - 1" "?a div ?b"] by simp
      then show ?thesis using b by simp
    qed
    ultimately show ?thesis by (simp add: div_ceil_def ceil_div_def unat_div)
  next
    case False
    then have r: "0 < a mod b" by (simp add: word_less_nat_alt unat_mod)
    have "?b \<noteq> 1" using False by auto
    then have "?a div ?b \<le> ?a div 2" using b by (intro div_le_mono2) simp_all
    also have "\<dots> < 2 ^ 31" using unsigned_less [of a, where 'a = nat] by simp
    finally have "unat (a div b + 1) = ?a div ?b + 1"
      by (simp add: unat_word_ariths unat_div)
    moreover have "(?a + ?b - 1) div ?b = ?a div ?b + 1"
    proof -
      have "a + b - 1 = (r - 1) + (q + 1) * b" if "0 < r" "a = q * b + r" for a b q r :: nat
        using that by (simp add: add_mult_distrib)
      then have "?a + ?b - 1 = (?a mod ?b - 1) + (?a div ?b + 1) * ?b"
        using split False by blast
      then have "(?a + ?b - 1) div ?b = (?a div ?b + 1) + (?a mod ?b - 1) div ?b"
        using b div_mult_self1 [of ?b "?a mod ?b - 1" "?a div ?b + 1"] by simp
      moreover have "?a mod ?b - 1 < ?b" using b by (meson less_imp_diff_less mod_less_divisor)
      ultimately show ?thesis by simp
    qed
    ultimately show ?thesis using r by (simp add: div_ceil_def ceil_div_def)
  qed
qed

lemma unat_mult_no_wrap:
  fixes a b :: u64
  shows "unat a * unat b < 18446744073709551616 \<Longrightarrow> unat (a * b) = unat a * unat b"
  by (simp add: unat_word_ariths)

lemma unat_of_nat_u32: "x < unat (w :: u32) \<Longrightarrow> unat (of_nat x :: u32) = x"
  using unsigned_less [of w, where 'a = nat] by (simp add: unat_of_nat take_bit_nat_eq_self)

lemma unat_ucast_u64 [simp]: "unat (ucast (w :: u32) :: u64) = unat w"
  by (simp add: unsigned_ucast_eq take_bit_nat_eq_self order.strict_trans2 [OF unsigned_less])

text \<open>A cell of a grid has an index of its own.\<close>

lemma grid_index_less: "y < h \<Longrightarrow> x < w \<Longrightarrow> y * w + x < h * (w :: nat)"
proof -
  assume "y < h" "x < w"
  then have "y * w + x < (y + 1) * w" by simp
  also have "\<dots> \<le> h * w" using \<open>y < h\<close> by (intro mult_le_mono1) simp
  finally show ?thesis .
qed

lemma grid_index_inject:
  "x < w \<Longrightarrow> x' < w \<Longrightarrow> y * w + x = y' * w + (x' :: nat) \<Longrightarrow> x = x' \<and> y = y'"
  by (metis add.commute div_mult_self1 div_less mod_less mod_mult_self1 not_less_zero plus_nat.add_0)

text \<open>Multiples of \<open>n\<close> that differ are \<open>n\<close> apart, and a multiple below a multiple
  leaves room for \<open>n\<close>.\<close>

lemma dvd_room: "n dvd a \<Longrightarrow> n dvd b \<Longrightarrow> a < b \<Longrightarrow> a + n \<le> (b :: nat)"
proof -
  assume "n dvd a" "n dvd b" "a < b"
  then obtain i j where "a = n * i" "b = n * j" by (auto elim!: dvdE)
  moreover with \<open>a < b\<close> have "i + 1 \<le> j" by (metis Suc_eq_plus1 Suc_leI mult_less_cancel1)
  ultimately show ?thesis by (metis mult.right_neutral add_mult_distrib2 mult_le_mono2)
qed

lemma dvd_apart: "n dvd a \<Longrightarrow> n dvd b \<Longrightarrow> a \<noteq> b \<Longrightarrow> a + n \<le> b \<or> b + n \<le> (a :: nat)"
  using dvd_room by (metis nat_neq_iff)

section \<open>The GFX10 layout\<close>

text \<open>The parameters of a surface: mode, extents, element size. \<open>gfx10_valid\<close>: the
  mode and element size are supported and the tiled size fits 64 bits.\<close>

type_synonym gfx10_surface = "byte \<times> u32 \<times> u32 \<times> nat"

definition surface_equation :: "gfx10_surface \<Rightarrow> address_bit list" where
  "surface_equation = (\<lambda>(mode, w, h, b). fst (the (swizzle_table mode)) ! b)"

definition surface_block_bytes :: "gfx10_surface \<Rightarrow> u64" where
  "surface_block_bytes = (\<lambda>(mode, w, h, b). snd (the (swizzle_table mode)))"

definition surface_block :: "gfx10_surface \<Rightarrow> u32 \<times> u32" where
  "surface_block p = block_dimensions (ucast (surface_block_bytes p)) (snd (snd (snd p)))"

definition surface_extent :: "gfx10_surface \<Rightarrow> nat" where
  "surface_extent p = ceil_div (unat (fst (snd p))) (unat (fst (surface_block p)))
     * ceil_div (unat (fst (snd (snd p)))) (unat (snd (surface_block p)))
     * unat (surface_block_bytes p)"

definition gfx10_valid :: "gfx10_surface \<Rightarrow> bool" where
  "gfx10_valid p \<longleftrightarrow> swizzle_table (fst p) \<noteq> None \<and> bpp_log2_is_supported (snd (snd (snd p)))
     \<and> surface_extent p < 2 ^ 64"

definition gfx10_slot :: "gfx10_surface \<Rightarrow> nat \<Rightarrow> nat \<Rightarrow> nat" where
  "gfx10_slot p x y = unat (tiled_offset (surface_equation p) (surface_block_bytes p)
     (fst (snd p)) (fst (surface_block p)) (snd (surface_block p)) (of_nat x) (of_nat y))"

lemma surface_cases:
  assumes "gfx10_valid (mode, w, h, b)"
  obtains table block_bytes k where "swizzle_table mode = Some (table, block_bytes)" "b < 5"
    "length table = 5" "b < k" "k \<le> 16"
    "row_ok b k (table ! b)" "unat block_bytes = 2 ^ k"
    "surface_equation (mode, w, h, b) = table ! b" "surface_block_bytes (mode, w, h, b) = block_bytes"
    "surface_block (mode, w, h, b) = (2 ^ block_w_log2 k b, 2 ^ block_h_log2 k b)"
    "block_dimensions (ucast block_bytes) b = (2 ^ block_w_log2 k b, 2 ^ block_h_log2 k b)"
proof -
  obtain table bs where t: "swizzle_table mode = Some (table, bs)"
    and b: "b < 5"
    using assms by (auto simp: gfx10_valid_def bpp_log2_is_supported_def SWIZZLE_TABLE_ROWS_def)
  have k: "row_ok b (block_log2 bs) (table ! b)" "length table = 5"
    "unat bs = 2 ^ block_log2 bs" "block_log2 bs \<in> {12, 16}"
    using swizzle_table_rows [OF t b] by auto
  have bs: "bs = 4096 \<or> bs = 65536"
    using t by (auto simp: swizzle_table_def split: if_splits)
  have d: "block_dimensions (ucast bs) b =
      (2 ^ block_w_log2 (block_log2 bs) b, 2 ^ block_h_log2 (block_log2 bs) b)"
    using bs b block_dimensions_rows by (auto simp: list_all_iff block_log2_def)
  show ?thesis
    by (rule that [OF t b, of "block_log2 bs"])
      (use k t b d in \<open>auto simp: surface_equation_def surface_block_bytes_def surface_block_def\<close>)
qed

lemma block_logs: "b < k \<Longrightarrow> block_w_log2 k b + block_h_log2 k b + b = k"
  unfolding block_w_log2_def block_h_log2_def by linarith

lemma unat_two_power: "n < 32 \<Longrightarrow> unat (2 ^ n :: u32) = 2 ^ n"
proof -
  assume "n < 32"
  then have lt: "(2 ^ n :: nat) < 2 ^ 32" by (intro power_strict_increasing) simp_all
  have "unat (2 ^ n :: u32) = 2 ^ n mod 2 ^ 32"
    using unat_of_nat [of "2 ^ n", where 'a = 32] by (simp only: of_nat_power of_nat_numeral) simp
  also have "\<dots> = 2 ^ n" using lt by (rule mod_less)
  finally show ?thesis .
qed

lemma div_of_nat_u32:
  assumes "x < 2 ^ 32" "n < 32"
  shows "unat (of_nat x div 2 ^ n :: u32) = x div 2 ^ n"
  using assms by (simp add: unat_div unat_two_power unat_of_nat take_bit_nat_eq_self)

lemma u32_bound: "x < unat (w :: u32) \<Longrightarrow> x < 2 ^ 32"
  using unsigned_less [of w, where 'a = nat] by simp

lemma block_index_bound:
  fixes i :: nat
  assumes "i * 2 ^ k + off < m"
  shows "i < m"
proof -
  have "i \<le> i * 2 ^ k" by simp
  also have "\<dots> \<le> i * 2 ^ k + off" by simp
  finally show ?thesis using assms by (rule le_less_trans)
qed

text \<open>The slot of an element, without wrap-around: its block, then the
  equation's offset inside the block.\<close>

lemma gfx10_slot_value:
  assumes v: "gfx10_valid (mode, w, h, b)" and x: "x < unat w" and y: "y < unat h"
  obtains k where "b < k" "k \<le> 16" "b < 5"
    "row_ok b k (surface_equation (mode, w, h, b))"
    "surface_extent (mode, w, h, b) = ceil_div (unat w) (2 ^ block_w_log2 k b)
       * ceil_div (unat h) (2 ^ block_h_log2 k b) * 2 ^ k"
    "gfx10_slot (mode, w, h, b) x y =
       ((y div 2 ^ block_h_log2 k b) * ceil_div (unat w) (2 ^ block_w_log2 k b)
          + x div 2 ^ block_w_log2 k b) * 2 ^ k
       + unat (gfx10_pattern_offset (of_nat x) (of_nat y) (surface_equation (mode, w, h, b)))"
    "(y div 2 ^ block_h_log2 k b) * ceil_div (unat w) (2 ^ block_w_log2 k b)
          + x div 2 ^ block_w_log2 k b
       < ceil_div (unat h) (2 ^ block_h_log2 k b) * ceil_div (unat w) (2 ^ block_w_log2 k b)"
    "k = block_log2 (surface_block_bytes (mode, w, h, b))"
proof -
  let ?p = "(mode, w, h, b)"
  obtain table bs k where t: "swizzle_table mode = Some (table, bs)" and b: "b < 5" "b < k" "k \<le> 16"
    and row: "row_ok b k (table ! b)" and bs: "unat bs = 2 ^ k"
    and eqn: "surface_equation ?p = table ! b" and bbs: "surface_block_bytes ?p = bs"
    and blk: "surface_block ?p = (2 ^ block_w_log2 k b, 2 ^ block_h_log2 k b)"
    using surface_cases [OF v] by metis
  let ?wl = "block_w_log2 k b" and ?hl = "block_h_log2 k b"
  have logs: "?wl < 32" "?hl < 32" using block_logs [of b k] b by linarith+
  let ?W = "ceil_div (unat w) (2 ^ ?wl)" and ?H = "ceil_div (unat h) (2 ^ ?hl)"
  let ?i = "(y div 2 ^ ?hl) * ?W + x div 2 ^ ?wl"
  let ?off = "gfx10_pattern_offset (of_nat x) (of_nat y) (table ! b)"
  have ext: "surface_extent ?p = ?W * ?H * 2 ^ k"
    by (simp add: surface_extent_def blk bbs bs unat_two_power logs)
  have lt: "?W * ?H * 2 ^ k < 2 ^ 64" using v ext by (simp add: gfx10_valid_def)
  have i: "?i < ?H * ?W"
    by (intro grid_index_less ceil_div_cover x y) simp_all
  have off: "unat ?off < 2 ^ k" using row_ok_bounds [OF row] b by blast
  have slot: "?i * 2 ^ k + unat ?off < 2 ^ 64"
  proof -
    have "?i * 2 ^ k + unat ?off < (?i + 1) * 2 ^ k" using off by simp
    also have "\<dots> \<le> ?H * ?W * 2 ^ k" using i by (intro mult_le_mono1) simp
    finally show ?thesis using lt by (simp add: mult.commute [of ?W])
  qed
  have W: "unat (div_ceil w (2 ^ ?wl)) = ?W"
    using unat_div_ceil [of "2 ^ ?wl" w] logs by (simp add: word_less_nat_alt unat_two_power)
  have xw: "unat (of_nat x div 2 ^ ?wl :: u32) = x div 2 ^ ?wl"
    and yh: "unat (of_nat y div 2 ^ ?hl :: u32) = y div 2 ^ ?hl"
    using div_of_nat_u32 u32_bound x y logs by blast+
  let ?bi = "ucast (of_nat y div 2 ^ ?hl :: u32) * ucast (div_ceil w (2 ^ ?wl))
    + ucast (of_nat x div 2 ^ ?wl :: u32) :: u64"
  have small: "?i < 18446744073709551616" using block_index_bound [OF slot] by simp
  then have prod: "unat (ucast (of_nat y div 2 ^ ?hl :: u32) * ucast (div_ceil w (2 ^ ?wl)) :: u64)
      = (y div 2 ^ ?hl) * ?W"
    by (subst unat_mult_no_wrap) (simp_all add: yh W)
  have bi: "unat ?bi = ?i"
    by (subst unat_add_no_wrap) (use small in \<open>simp_all only: prod xw unat_ucast_u64\<close>)
  have "unat (?bi * bs) = ?i * 2 ^ k"
    by (subst unat_mult_no_wrap) (use slot in \<open>simp_all only: bi bs\<close>, simp)
  then have "unat (?bi * bs + ?off) = ?i * 2 ^ k + unat ?off"
    by (subst unat_add_no_wrap) (use slot in simp_all)
  then have "gfx10_slot ?p x y = ?i * 2 ^ k + unat ?off"
    by (simp add: gfx10_slot_def tiled_offset_def eqn bbs blk)
  moreover have "k = block_log2 bs"
    using swizzle_table_rows [OF t b(1)] bs by simp
  ultimately show ?thesis
    using that [of k] b row ext i by (simp add: eqn bbs)
qed

lemma block_index_same:
  fixes i j k o1 o2 :: nat
  assumes "i * 2 ^ k + o1 = j * 2 ^ k + o2" "o1 < 2 ^ k" "o2 < 2 ^ k"
  shows "i = j \<and> o1 = o2"
  using grid_index_inject [OF assms(2,3,1)] by simp

lemma drop_bit_of_nat_eq:
  assumes "x div 2 ^ n = x' div 2 ^ n" "x < 2 ^ 32" "x' < 2 ^ 32"
  shows "drop_bit n (of_nat x :: u32) = drop_bit n (of_nat x')"
proof -
  have "unat (drop_bit n (of_nat z :: u32)) = z div 2 ^ n" if "z < 2 ^ 32" for z
    unfolding unsigned_drop_bit_eq unat_of_nat using that
    by (simp add: take_bit_eq_mod drop_bit_eq_div)
  then show ?thesis using assms by (simp add: word_unat_eq_iff)
qed

lemma gfx10_slot_dvd_less:
  assumes v: "gfx10_valid (mode, w, h, b)" and x: "x < unat w" and y: "y < unat h"
  shows "2 ^ b dvd gfx10_slot (mode, w, h, b) x y \<and>
    2 ^ b dvd surface_extent (mode, w, h, b) \<and>
    gfx10_slot (mode, w, h, b) x y < surface_extent (mode, w, h, b)"
proof -
  let ?p = "(mode, w, h, b)"
  obtain k i where b: "b < k" "k \<le> 16" and row: "row_ok b k (surface_equation ?p)"
    and ext: "surface_extent ?p = ceil_div (unat w) (2 ^ block_w_log2 k b)
       * ceil_div (unat h) (2 ^ block_h_log2 k b) * 2 ^ k"
    and slot: "gfx10_slot ?p x y = i * 2 ^ k
       + unat (gfx10_pattern_offset (of_nat x) (of_nat y) (surface_equation ?p))"
    and i: "i < ceil_div (unat h) (2 ^ block_h_log2 k b) * ceil_div (unat w) (2 ^ block_w_log2 k b)"
    using gfx10_slot_value [OF v x y] by metis
  note off = row_ok_bounds [OF row b(2), of "of_nat x" "of_nat y"]
  have bk: "2 ^ b dvd (2 ^ k :: nat)" using b by (simp add: le_imp_power_dvd)
  have "gfx10_slot ?p x y < (i + 1) * 2 ^ k" using slot off by simp
  also have "\<dots> \<le> surface_extent ?p"
    unfolding ext using i by (intro mult_le_mono1) (simp add: mult.commute)
  finally show ?thesis
    unfolding slot ext using off bk by (auto intro!: dvd_add dvd_mult)
qed

lemma gfx10_slot_inject:
  assumes v: "gfx10_valid (mode, w, h, b)"
    and x: "x < unat w" and y: "y < unat h" and x': "x' < unat w" and y': "y' < unat h"
    and e: "gfx10_slot (mode, w, h, b) x y = gfx10_slot (mode, w, h, b) x' y'"
  shows "x = x' \<and> y = y'"
proof -
  let ?p = "(mode, w, h, b)"
  let ?off = "\<lambda>x y. unat (gfx10_pattern_offset (of_nat x) (of_nat y) (surface_equation ?p))"
  define k where "k = block_log2 (surface_block_bytes ?p)"
  let ?wl = "block_w_log2 k b" and ?hl = "block_h_log2 k b"
  let ?W = "ceil_div (unat w) (2 ^ ?wl)"
  let ?idx = "\<lambda>x y. (y div 2 ^ ?hl) * ?W + x div 2 ^ ?wl"
  have s: "gfx10_slot ?p x y = ?idx x y * 2 ^ k + ?off x y"
    and row: "row_ok b k (surface_equation ?p)" and b: "b < k" "k \<le> 16"
    using gfx10_slot_value [OF v x y] unfolding k_def by metis+
  have s': "gfx10_slot ?p x' y' = ?idx x' y' * 2 ^ k + ?off x' y'"
    using gfx10_slot_value [OF v x' y'] unfolding k_def by metis
  have same: "?idx x y = ?idx x' y'" "?off x y = ?off x' y'"
    using block_index_same [of "?idx x y" k "?off x y" "?idx x' y'" "?off x' y'"]
      e s s' row_ok_bounds [OF row b(2)] by auto
  have "x div 2 ^ ?wl < ?W" "x' div 2 ^ ?wl < ?W"
    using x x' by (simp_all add: ceil_div_cover)
  then have "x div 2 ^ ?wl = x' div 2 ^ ?wl" "y div 2 ^ ?hl = y' div 2 ^ ?hl"
    using grid_index_inject same(1) by blast+
  then have low: "drop_bit ?wl (of_nat x :: u32) = drop_bit ?wl (of_nat x')"
    "drop_bit ?hl (of_nat y :: u32) = drop_bit ?hl (of_nat y')"
    using drop_bit_of_nat_eq u32_bound x x' y y' by blast+
  have eqn: "settles (surface_equation ?p) ?wl ?hl" "length (surface_equation ?p) \<le> 64"
    using row by (simp_all add: row_ok_def block_w_log2_def block_h_log2_def)
  have "gfx10_pattern_offset (of_nat x) (of_nat y) (surface_equation ?p)
      = gfx10_pattern_offset (of_nat x') (of_nat y') (surface_equation ?p)"
    using same(2) by (simp only: word_unat_eq_iff)
  then have "(of_nat x :: u32) = of_nat x' \<and> (of_nat y :: u32) = of_nat y'"
    using settles_inject [OF eqn low] by blast
  then show ?thesis
    using unat_of_nat_u32 x y x' y' by metis
qed

lemma gfx10_slot_apart:
  assumes "gfx10_valid (mode, w, h, b)"
    and "x < unat w" "y < unat h" "x' < unat w" "y' < unat h" "(x, y) \<noteq> (x', y')"
  shows "gfx10_slot (mode, w, h, b) x y + 2 ^ b \<le> gfx10_slot (mode, w, h, b) x' y' \<or>
    gfx10_slot (mode, w, h, b) x' y' + 2 ^ b \<le> gfx10_slot (mode, w, h, b) x y"
proof (rule dvd_apart)
  show "gfx10_slot (mode, w, h, b) x y \<noteq> gfx10_slot (mode, w, h, b) x' y'"
    using gfx10_slot_inject [OF assms(1-5)] assms(6) by auto
  show "2 ^ b dvd gfx10_slot (mode, w, h, b) x y"
    using gfx10_slot_dvd_less [OF assms(1-3)] by blast
  show "2 ^ b dvd gfx10_slot (mode, w, h, b) x' y'"
    using gfx10_slot_dvd_less [OF assms(1,4,5)] by blast
qed

lemma gfx10_slot_room:
  "gfx10_valid (mode, w, h, b) \<Longrightarrow> x < unat w \<Longrightarrow> y < unat h \<Longrightarrow>
     gfx10_slot (mode, w, h, b) x y + 2 ^ b \<le> surface_extent (mode, w, h, b)"
  using gfx10_slot_dvd_less dvd_room by blast

interpretation gfx10: tiled_surface gfx10_valid "\<lambda>(m, w, h, b). unat w" "\<lambda>(m, w, h, b). unat h"
  "\<lambda>(m, w, h, b). 2 ^ b" surface_extent gfx10_slot
proof (unfold_locales, goal_cases)
  case (1 p)
  then show ?case by (simp split: prod.split)
next
  case (2 p x y)
  then show ?case by (cases p) (simp add: gfx10_slot_room)
next
  case (3 p x y x' y')
  obtain m w h b where p: "p = (m, w, h, b)" by (cases p)
  show ?case
    using 3 gfx10_slot_apart [of m w h b x y x' y'] unfolding p prod.case by blast
qed

text \<open>The tiled size covers the linear one.\<close>

lemma ceil_div_ge: "0 < b \<Longrightarrow> a \<le> ceil_div a b * b"
proof -
  assume b: "0 < b"
  show ?thesis
  proof (cases a)
    case (Suc n)
    then have "n div b < ceil_div a b" using b ceil_div_cover [of b n a] by simp
    then have "(n div b + 1) * b \<le> ceil_div a b * b" by (intro mult_le_mono1) simp
    moreover have "n < (n div b + 1) * b" using b dividend_less_div_times [of b n] by simp
    ultimately show ?thesis using Suc by linarith
  qed simp
qed

lemma surface_covers:
  assumes v: "gfx10_valid (mode, w, h, b)"
  shows "unat h * unat w * 2 ^ b \<le> surface_extent (mode, w, h, b)"
proof -
  obtain table bs k where k: "b < k" "k \<le> 16" "unat bs = 2 ^ k"
    "surface_block_bytes (mode, w, h, b) = bs"
    "surface_block (mode, w, h, b) = (2 ^ block_w_log2 k b, 2 ^ block_h_log2 k b)"
    using surface_cases [OF v] by metis
  let ?wl = "block_w_log2 k b" and ?hl = "block_h_log2 k b"
  have logs: "?wl < 32" "?hl < 32" "?wl + ?hl + b = k"
    using block_logs [of b k] k by linarith+
  let ?W = "ceil_div (unat w) (2 ^ ?wl)" and ?H = "ceil_div (unat h) (2 ^ ?hl)"
  have "unat h * unat w * 2 ^ b \<le> (?H * 2 ^ ?hl) * (?W * 2 ^ ?wl) * 2 ^ b"
    by (intro mult_le_mono ceil_div_ge) simp_all
  also have "\<dots> = ?W * ?H * (2 ^ ?wl * 2 ^ ?hl * 2 ^ b)" by (simp add: ac_simps)
  also have "2 ^ ?wl * 2 ^ ?hl * 2 ^ b = (2 ^ k :: nat)"
    using logs(3) by (metis power_add)
  finally show ?thesis
    using k by (simp add: surface_extent_def unat_two_power logs(1,2))
qed

lemma unat_bytes_per_element: "b < 5 \<Longrightarrow> unat (bytes_per_element b) = 2 ^ b"
proof -
  assume "b < 5"
  then have "b \<in> {0, 1, 2, 3, 4}" by auto
  then show ?thesis by (auto simp: bytes_per_element_def)
qed

text \<open>The linear offset of an element, computed at 64 bits.\<close>

lemma linear_index_bound:
  assumes "y < h" "x < w" "h * w * n \<le> (m :: nat)"
  shows "(y * w + x) * n + n \<le> m"
proof -
  have "y * w + x + 1 \<le> h * w" using grid_index_less [OF assms(1,2)] by simp
  then have "(y * w + x + 1) * n \<le> h * w * n" by (rule mult_le_mono1)
  then show ?thesis using assms(3) by (simp add: add_mult_distrib)
qed

lemma linear_source:
  fixes bpp :: u64 and w h :: u32
  assumes x: "x < unat w" and y: "y < unat h" and n: "unat bpp = n"
    and m: "unat h * unat w * n < 2 ^ 64"
  shows "unat (of_nat y * ucast w * bpp + of_nat x * bpp) = (y * unat w + x) * n"
proof -
  have lim: "(y * unat w + x) * n + n < 2 ^ 64"
    using linear_index_bound [OF y x order_refl, of n] m by (rule le_less_trans)
  then have sum: "y * unat w * n + x * n < 18446744073709551616"
    by (simp add: add_mult_distrib)
  have u: "unat (of_nat z :: u64) = z" if "z < 2 ^ 32" for z
    using that by (simp add: unat_of_nat)
  have "y * unat w < 2 ^ 32 * 2 ^ 32"
    using u32_bound [OF y] unsigned_less [of w, where 'a = nat] by (intro mult_strict_mono) auto
  then have "unat (of_nat y * ucast w :: u64) = y * unat w"
    by (subst unat_mult_no_wrap) (simp_all add: u u32_bound [OF y, simplified])
  then have a: "unat (of_nat y * ucast w * bpp) = y * unat w * n"
    using sum n by (subst unat_mult_no_wrap) simp_all
  have b: "unat (of_nat x * bpp :: u64) = x * n"
    using sum n u [OF u32_bound [OF x]] by (subst unat_mult_no_wrap) simp_all
  show ?thesis
    using sum by (subst unat_add_no_wrap) (simp_all add: a b add_mult_distrib)
qed

text \<open>The tiling loop is the loop of the layout.\<close>

lemma tile_rows_loop:
  assumes v: "gfx10_valid (mode, w, h, b)"
    and l: "unat h * unat w * 2 ^ b \<le> length linear"
  shows "tile_rows linear (surface_equation (mode, w, h, b)) (surface_block_bytes (mode, w, h, b))
      w h (fst (surface_block (mode, w, h, b))) (snd (surface_block (mode, w, h, b)))
      (bytes_per_element b) out
    = gfx10.tile_loop (mode, w, h, b) linear out"
proof -
  have b: "b < 5" using surface_cases [OF v] by metis
  have m: "unat h * unat w * 2 ^ b < 2 ^ 64"
    using surface_covers [OF v] v by (auto simp: gfx10_valid_def)
  have src: "unat (of_nat y * ucast w * bytes_per_element b + of_nat x * bytes_per_element b)
      = (y * unat w + x) * 2 ^ b" if "x < unat w" "y < unat h" for x y
    by (rule linear_source [OF that unat_bytes_per_element [OF b] m])
  show ?thesis
    unfolding tile_rows_def gfx10.tile_loop_def prod.case Let_def
    by (intro for_each_cong) (auto simp: gfx10_slot_def src unat_bytes_per_element [OF b])
qed

text \<open>The detiling loops.\<close>

lemma chunks_replicate:
  "0 < n \<Longrightarrow> chunks n (replicate (h * n) z) = replicate h (replicate n z)"
proof (induction h)
  case 0
  then show ?case by (simp add: chunks.simps)
next
  case (Suc h)
  have "chunks n (replicate (Suc h * n) z) =
      take n (replicate (Suc h * n) z) # chunks n (drop n (replicate (Suc h * n) z))"
    using Suc.prems by (subst chunks.simps) simp
  then show ?case using Suc by simp
qed

lemma detile_rows_total:
  assumes "\<And>y. k \<le> y \<Longrightarrow> y < k + h \<Longrightarrow> f y r = Some (g y)"
  shows "detile_rows f k (replicate h r) = Some (concat (map g [k..<k + h]))"
  using assms
proof (induction h arbitrary: k)
  case (Suc h)
  have "detile_rows f (Suc k) (replicate h r) = Some (concat (map g [Suc k..<Suc k + h]))"
    using Suc.prems by (intro Suc.IH) simp
  then show ?case using Suc.prems [of k] by (simp add: upt_conv_Cons del: upt_Suc)
qed simp

text \<open>The element read from the tiled buffer: zero where the buffer is too short.\<close>

definition element_at :: "'a::zero list \<Rightarrow> nat \<Rightarrow> nat \<Rightarrow> 'a list" where
  "element_at tiled s n = (if s + n \<le> length tiled then take n (drop s tiled) else replicate n 0)"

lemma length_element_at [simp]: "length (element_at tiled s n) = n"
  by (simp add: element_at_def)

lemma detile_row_run:
  fixes src :: "'a::zero list"
  assumes "k \<le> w"
  shows "for_each (\<lambda>i row. if s i + n \<le> length src then copy_slice row (i * n) src (s i) n else Some row)
      [0..<k] (replicate (w * n) 0)
    = Some (concat (map (\<lambda>i. element_at src (s i) n) [0..<k]) @ replicate ((w - k) * n) 0)"
  using assms
proof (induction k)
  case (Suc k)
  let ?done = "concat (map (\<lambda>i. element_at src (s i) n) [0..<k])"
  have len: "length ?done = k * n"
    by (subst length_concat_const [where n = n]) simp_all
  have rest: "replicate ((w - k) * n) (0 :: 'a) = replicate n 0 @ replicate ((w - Suc k) * n) 0"
  proof -
    have "(w - k) * n = n + (w - Suc k) * n"
      using Suc.prems by (metis Suc_diff_Suc Suc_le_lessD mult_Suc)
    then show ?thesis by (simp add: replicate_add)
  qed
  have IH: "for_each (\<lambda>i row. if s i + n \<le> length src then copy_slice row (i * n) src (s i) n
      else Some row) [0..<k] (replicate (w * n) 0) = Some (?done @ replicate ((w - k) * n) 0)"
    using Suc by simp
  show ?case
    using len by (auto simp: for_each_append IH rest copy_slice_def element_at_def)
qed simp

lemma detile_row_value:
  assumes v: "gfx10_valid (mode, w, h, b)" and y: "y < unat h"
    and terms: "x_terms = map (\<lambda>xx. pattern_axis_term (of_nat xx)
        (surface_equation (mode, w, h, b)) True) [0..<unat w]"
  shows "detile_row tiled (surface_equation (mode, w, h, b)) (surface_block_bytes (mode, w, h, b)) w
      (fst (surface_block (mode, w, h, b))) (snd (surface_block (mode, w, h, b)))
      (bytes_per_element b) x_terms (of_nat y) (replicate (unat w * 2 ^ b) 0)
    = Some (concat (map (\<lambda>x. element_at tiled (gfx10_slot (mode, w, h, b) x y) (2 ^ b)) [0..<unat w]))"
proof -
  let ?p = "(mode, w, h, b)"
  have b: "b < 5" using surface_cases [OF v] by metis
  note bpp = unat_bytes_per_element [OF b]
  have fits: "unat (tiled_offset (surface_equation ?p) (surface_block_bytes ?p) w
      (fst (surface_block ?p)) (snd (surface_block ?p)) (of_nat x) (of_nat y) + bytes_per_element b)
      = gfx10_slot ?p x y + 2 ^ b" if "x < unat w" for x
  proof -
    have "gfx10_slot ?p x y + 2 ^ b < 18446744073709551616"
      using gfx10_slot_room [OF v that y] v by (simp add: gfx10_valid_def)
    then show ?thesis
      by (subst unat_add_no_wrap) (simp_all add: gfx10_slot_def bpp)
  qed
  have "detile_row tiled (surface_equation ?p) (surface_block_bytes ?p) w
      (fst (surface_block ?p)) (snd (surface_block ?p)) (bytes_per_element b) x_terms (of_nat y)
      (replicate (unat w * 2 ^ b) 0)
    = for_each (\<lambda>i row. if gfx10_slot ?p i y + 2 ^ b \<le> length tiled
        then copy_slice row (i * 2 ^ b) tiled (gfx10_slot ?p i y) (2 ^ b) else Some row)
      [0..<unat w] (replicate (unat w * 2 ^ b) 0)"
    unfolding detile_row_def Let_def
  proof (rule for_each_cong, goal_cases)
    case (1 i row)
    then have "i < unat w" by simp
    then show ?case
      using fits [of i]
      by (simp add: terms tiled_offset_def gfx10_pattern_offset_def gfx10_slot_def bpp Let_def)
  qed
  then show ?thesis using detile_row_run [of "unat w" "unat w"] by simp
qed

lemma detile_64kb_value:
  assumes v: "gfx10_valid (mode, w, h, b)" and w: "0 < w"
  shows "detile_64kb mode tiled w h b = Some (Some (concat (map (\<lambda>y. concat (map (\<lambda>x.
      element_at tiled (gfx10_slot (mode, w, h, b) x y) (2 ^ b)) [0..<unat w])) [0..<unat h])))"
proof -
  let ?p = "(mode, w, h, b)"
  obtain table bs k where t: "swizzle_table mode = Some (table, bs)" "b < 5" "length table = 5"
    and p: "surface_equation ?p = table ! b" "surface_block_bytes ?p = bs"
    "surface_block ?p = (2 ^ block_w_log2 k b, 2 ^ block_h_log2 k b)"
    "block_dimensions (ucast bs) b = (2 ^ block_w_log2 k b, 2 ^ block_h_log2 k b)"
    using surface_cases [OF v] by metis
  note bpp = unat_bytes_per_element [OF t(2)]
  have m: "unat h * unat w * 2 ^ b < 2 ^ 64"
    using surface_covers [OF v] v by (auto simp: gfx10_valid_def)
  have wpos: "0 < unat w" using w by (simp add: word_less_nat_alt)
  have small: "unat w * 2 ^ b < 18446744073709551616"
  proof -
    have "unat w * 2 ^ b < 2 ^ 32 * 2 ^ 5"
      using unsigned_less [of w, where 'a = nat] t(2)
      by (intro mult_strict_mono power_strict_increasing) auto
    then show ?thesis by simp
  qed
  have rowb: "unat (ucast w * bytes_per_element b :: u64) = unat w * 2 ^ b"
    using small by (subst unat_mult_no_wrap) (simp_all add: bpp)
  then have nz: "ucast w * bytes_per_element b \<noteq> (0 :: u64)"
    using wpos by (metis mult_eq_0_iff power_not_zero unsigned_0 zero_neq_numeral not_gr_zero)
  have size: "unat (ucast w * ucast h * bytes_per_element b :: u64) = unat h * (unat w * 2 ^ b)"
  proof -
    have "unat w * unat h < 2 ^ 32 * 2 ^ 32"
      using unsigned_less [of w, where 'a = nat] unsigned_less [of h, where 'a = nat]
      by (intro mult_strict_mono) auto
    then have "unat (ucast w * ucast h :: u64) = unat w * unat h"
      by (subst unat_mult_no_wrap) simp_all
    then show ?thesis
      using m by (subst unat_mult_no_wrap) (simp_all add: bpp ac_simps)
  qed
  have rows: "chunks (unat w * 2 ^ b) (replicate (unat h * (unat w * 2 ^ b)) 0)
      = replicate (unat h) (replicate (unat w * 2 ^ b) (0 :: byte))"
    using wpos by (intro chunks_replicate) simp
  show ?thesis
    using detile_rows_total [of 0 "unat h" _ "replicate (unat w * 2 ^ b) (0 :: byte)"
        "\<lambda>y. concat (map (\<lambda>x. element_at tiled (gfx10_slot ?p x y) (2 ^ b)) [0..<unat w])"]
      detile_row_value [OF v _ refl, of _ tiled] t(2)
    by (simp add: detile_64kb_def t(1,3) p bpp_log2_is_supported_def SWIZZLE_TABLE_ROWS_def
        detile_64kb_with_def rowb nz size rows)
qed

text \<open>A buffer that covers the surface is read slot by slot.\<close>

lemma detile_64kb_gathers:
  assumes v: "gfx10_valid (mode, w, h, b)" and w: "0 < w"
    and l: "surface_extent (mode, w, h, b) \<le> length tiled"
  shows "detile_64kb mode tiled w h b = Some (Some (gfx10.gathered (mode, w, h, b) tiled))"
proof -
  have "element_at tiled (gfx10_slot (mode, w, h, b) x y) (2 ^ b)
      = take (2 ^ b) (drop (gfx10_slot (mode, w, h, b) x y) tiled)" if "x < unat w" "y < unat h" for x y
    using gfx10_slot_room [OF v that] l by (simp add: element_at_def)
  then show ?thesis
    unfolding detile_64kb_value [OF v w] gfx10.gathered_def prod.case
    by (intro arg_cong [where f = Some] arg_cong [where f = concat] map_cong refl) auto
qed

lemma surface_byte_count:
  assumes v: "gfx10_valid (mode, w, h, b)"
  obtains count where "tiled_byte_count_for_mode mode w h b = Some count"
    "unat count = surface_extent (mode, w, h, b)"
proof -
  let ?p = "(mode, w, h, b)"
  obtain table bs k where t: "swizzle_table mode = Some (table, bs)" "b < 5"
    and k: "b < k" "k \<le> 16" "unat bs = 2 ^ k" "surface_block_bytes ?p = bs"
    "surface_block ?p = (2 ^ block_w_log2 k b, 2 ^ block_h_log2 k b)"
    "block_dimensions (ucast bs) b = (2 ^ block_w_log2 k b, 2 ^ block_h_log2 k b)"
    using surface_cases [OF v] by metis
  let ?wl = "block_w_log2 k b" and ?hl = "block_h_log2 k b"
  have logs: "?wl < 32" "?hl < 32" using block_logs [of b k] k by linarith+
  let ?c = "ucast (div_ceil w (2 ^ ?wl)) * ucast (div_ceil h (2 ^ ?hl)) * bs :: u64"
  have W: "unat (div_ceil a (2 ^ n)) = ceil_div (unat a) (2 ^ n)" if "n < 32" for a n
    using unat_div_ceil [of "2 ^ n" a] that by (simp add: word_less_nat_alt unat_two_power)
  have ext: "surface_extent ?p = ceil_div (unat w) (2 ^ ?wl) * ceil_div (unat h) (2 ^ ?hl) * 2 ^ k"
    by (simp add: surface_extent_def k unat_two_power logs)
  have lt: "surface_extent ?p < 18446744073709551616" using v by (simp add: gfx10_valid_def)
  have "unat (ucast (div_ceil w (2 ^ ?wl)) * ucast (div_ceil h (2 ^ ?hl)) :: u64)
      = ceil_div (unat w) (2 ^ ?wl) * ceil_div (unat h) (2 ^ ?hl)"
    using block_index_bound [of _ k 0] lt unfolding ext
    by (subst unat_mult_no_wrap) (simp_all add: W logs)
  then have "unat ?c = surface_extent ?p"
    using lt unfolding ext by (subst unat_mult_no_wrap) (simp_all add: k)
  then show ?thesis
    by (intro that [of ?c])
      (simp_all add: tiled_byte_count_for_mode_def t bpp_log2_is_supported_def
        SWIZZLE_TABLE_ROWS_def block_count_bytes_def k)
qed

text \<open>\<open>tile_64kb_into\<close> on a supported surface: refused exactly when a buffer is
  too short, otherwise the layout's loop on the cleared extent.\<close>

lemma tile_64kb_into_value:
  assumes v: "gfx10_valid (mode, w, h, b)"
  shows "tile_64kb_into mode linear tiled w h b =
    (if length linear < unat h * unat w * 2 ^ b \<or> length tiled < surface_extent (mode, w, h, b)
     then Some (False, tiled)
     else map_option (Pair True) (gfx10.tile_loop (mode, w, h, b) linear
       (replicate (surface_extent (mode, w, h, b)) 0
          @ drop (surface_extent (mode, w, h, b)) tiled)))"
proof -
  let ?p = "(mode, w, h, b)"
  obtain table bs k where t: "swizzle_table mode = Some (table, bs)" "b < 5"
    and k: "surface_equation ?p = table ! b" "surface_block_bytes ?p = bs"
    "surface_block ?p = (2 ^ block_w_log2 k b, 2 ^ block_h_log2 k b)"
    "block_dimensions (ucast bs) b = (2 ^ block_w_log2 k b, 2 ^ block_h_log2 k b)"
    using surface_cases [OF v] by metis
  obtain count where c: "tiled_byte_count_for_mode mode w h b = Some count"
    "unat count = surface_extent ?p"
    using surface_byte_count [OF v] by metis
  have m: "unat w * unat h * 2 ^ b < 2 ^ 64"
    using surface_covers [OF v] v by (auto simp: gfx10_valid_def ac_simps)
  have "unat w * unat h * 1 \<le> unat w * unat h * 2 ^ b" by (rule mult_le_mono2) simp
  then have "unat w * unat h < 2 ^ 64" using m by linarith
  then have e: "linear_extent w h b = Some (unat h * unat w * 2 ^ b)"
    using m by (simp add: linear_extent_def unat_bytes_per_element [OF t(2)] ac_simps)
  show ?thesis
    using tile_rows_loop [OF v, of linear]
    by (simp add: tile_64kb_into_def t(1) e c k Let_def)
qed

text \<open>C21: retiling a linear image into a guest buffer and detiling that buffer
  gives the image back. For every supported mode and element size, every surface
  of non-zero width whose tiled size fits 64 bits, and buffers of at least the
  exact extents: \<open>tile_64kb_into\<close> reports success, leaves the buffer's length
  and everything past the surface unchanged, and \<open>detile_64kb\<close> of the result
  is the linear image.\<close>

theorem gfx10_roundtrip:
  assumes "gfx10_valid (mode, w, h, b)" "0 < w"
    and "unat h * unat w * 2 ^ b \<le> length linear"
    and "surface_extent (mode, w, h, b) \<le> length tiled"
  shows "\<exists>out. tile_64kb_into mode linear tiled w h b = Some (True, out) \<and>
    length out = length tiled \<and>
    drop (surface_extent (mode, w, h, b)) out = drop (surface_extent (mode, w, h, b)) tiled \<and>
    detile_64kb mode out w h b = Some (Some (take (unat h * unat w * 2 ^ b) linear))"
proof -
  let ?p = "(mode, w, h, b)" and ?e = "surface_extent (mode, w, h, b)"
  let ?buf = "replicate ?e 0 @ drop ?e tiled"
  obtain r where r: "gfx10.tile_loop ?p linear ?buf = Some r" "length r = length ?buf"
    "\<forall>x<unat w. \<forall>y<unat h. take (2 ^ b) (drop (gfx10_slot ?p x y) r)
        = take (2 ^ b) (drop ((y * unat w + x) * 2 ^ b) linear)"
    "\<forall>e k. ?e \<le> e \<longrightarrow> take k (drop e r) = take k (drop e ?buf)"
    using gfx10.tile_loop_total [OF assms(1), of linear ?buf] assms(3) by auto
  have len: "length r = length tiled" using r(2) assms(4) by simp
  have "drop ?e r = drop ?e ?buf"
    using r(4) [rule_format, of ?e "length r"] r(2) by simp
  moreover have "gfx10.gathered ?p r = take (unat h * unat w * 2 ^ b) linear"
    using gfx10.gathered_tile_loop [OF assms(1), of linear r] assms(3) r(3) by simp
  ultimately show ?thesis
    using r(1) len assms detile_64kb_gathers [OF assms(1,2), of r]
    by (simp add: tile_64kb_into_value [OF assms(1)])
qed

section \<open>The micro-tile layout\<close>

type_synonym micro_surface = "u32 \<times> u32 \<times> u32"

definition micro_extent :: "micro_surface \<Rightarrow> nat" where
  "micro_extent = (\<lambda>(w, h, bpp). ceil_div (unat w) 8 * ceil_div (unat h) 8 * 64 * unat bpp)"

definition micro_valid :: "micro_surface \<Rightarrow> bool" where
  "micro_valid p \<longleftrightarrow> 0 < snd (snd p) \<and> micro_extent p < 2 ^ 32"

definition micro_slot :: "micro_surface \<Rightarrow> nat \<Rightarrow> nat \<Rightarrow> nat" where
  "micro_slot = (\<lambda>(w, h, bpp) x y. unat (micro_tile_offset w bpp (of_nat x) (of_nat y)))"

definition micro_element :: "nat \<Rightarrow> nat \<Rightarrow> nat" where
  "micro_element px py = unat (micro_tile_element (of_nat px) (of_nat py))"

text \<open>The 64 elements of a tile have the 64 indices.\<close>

lemma micro_elements:
  "distinct (map (\<lambda>(py, px). micro_element px py) (List.product [0..<8] [0..<8])) \<and>
   list_all (\<lambda>(py, px). micro_element px py < 64) (List.product [0..<8] [0..<8])"
  by code_simp

lemma micro_element_less: "px < 8 \<Longrightarrow> py < 8 \<Longrightarrow> micro_element px py < 64"
  using micro_elements by (auto simp: list_all_iff)

lemma micro_element_inject:
  assumes "px < 8" "py < 8" "px' < 8" "py' < 8" "micro_element px py = micro_element px' py'"
  shows "px = px' \<and> py = py'"
proof -
  have "inj_on (\<lambda>(py, px). micro_element px py) ({0..<8} \<times> {0..<8})"
    using micro_elements by (simp only: distinct_map set_product set_upt)
  then show ?thesis using assms unfolding inj_on_def by fastforce
qed

text \<open>A word expression is exact when its value in \<open>nat\<close> fits.\<close>

lemma unat_eq_u32: "w = of_nat k \<Longrightarrow> k < 4294967296 \<Longrightarrow> unat (w :: u32) = k"
  by (simp add: unat_of_nat)

lemma micro_slot_value:
  assumes v: "micro_valid (w, h, bpp)" and x: "x < unat w" and y: "y < unat h"
  shows "micro_slot (w, h, bpp) x y =
      (((y div 8) * ceil_div (unat w) 8 + x div 8) * 64 + micro_element (x mod 8) (y mod 8)) * unat bpp"
    and "(y div 8) * ceil_div (unat w) 8 + x div 8 < ceil_div (unat h) 8 * ceil_div (unat w) 8"
proof -
  let ?W = "ceil_div (unat w) 8" and ?H = "ceil_div (unat h) 8" and ?n = "unat bpp"
  let ?i = "(y div 8) * ?W + x div 8" and ?e = "micro_element (x mod 8) (y mod 8)"
  show i: "?i < ?H * ?W" by (intro grid_index_less ceil_div_cover x y) simp_all
  have n: "0 < ?n" and ext: "?H * ?W * 64 * ?n < 4294967296"
    using v by (auto simp: micro_valid_def micro_extent_def word_less_nat_alt ac_simps)
  have e: "?e < 64" by (simp add: micro_element_less)
  have total: "(?i * 64 + ?e) * ?n < 4294967296"
  proof -
    have "?i * 64 + ?e < ?H * ?W * 64" by (rule grid_index_less [OF i e])
    then have "(?i * 64 + ?e) * ?n \<le> ?H * ?W * 64 * ?n" by (intro mult_le_mono1) simp
    then show ?thesis using ext by linarith
  qed
  have W: "unat (div_ceil w 8) = ?W" using unat_div_ceil [of 8 w] by simp
  have d: "unat (of_nat z div 8 :: u32) = z div 8" if "z < 2 ^ 32" for z
    using that by (simp add: unat_div unat_of_nat)
  have r: "(of_nat z mod 8 :: u32) = of_nat (z mod 8)" if "z < 2 ^ 32" for z
    using that by (simp add: word_unat_eq_iff unat_mod unat_of_nat)
  note xd = d [OF u32_bound [OF x]] and yd = d [OF u32_bound [OF y]]
  have el: "unat (micro_tile_element (of_nat x mod 8) (of_nat y mod 8)) = ?e"
    by (simp add: micro_element_def r [OF u32_bound [OF x]] r [OF u32_bound [OF y]])
  have word: "(c :: u32) * d * (8 * 8 * n) + z * (8 * 8 * n) + e * n
      = of_nat (((unat c * unat d + unat z) * 64 + unat e) * unat n)" for c d z e n
    by (simp add: algebra_simps)
  have "unat ((of_nat y div 8 * div_ceil w 8 + of_nat x div 8) * (8 * 8 * bpp)
      + micro_tile_element (of_nat x mod 8) (of_nat y mod 8) * bpp) = (?i * 64 + ?e) * ?n"
    by (rule unat_eq_u32 [OF _ total]) (simp only: distrib_right word yd xd W el)
  then show "micro_slot (w, h, bpp) x y = (?i * 64 + ?e) * ?n"
    by (simp add: micro_slot_def micro_tile_offset_def Let_def)
qed

lemma micro_slot_room:
  assumes v: "micro_valid (w, h, bpp)" and x: "x < unat w" and y: "y < unat h"
  shows "micro_slot (w, h, bpp) x y + unat bpp \<le> micro_extent (w, h, bpp)"
proof -
  let ?W = "ceil_div (unat w) 8" and ?H = "ceil_div (unat h) 8"
  have "(((y div 8) * ?W + x div 8) * 64 + micro_element (x mod 8) (y mod 8)) * unat bpp + unat bpp
      \<le> ?H * ?W * 64 * unat bpp"
    by (rule linear_index_bound [OF micro_slot_value(2) [OF v x y] micro_element_less order_refl])
      simp_all
  then show ?thesis
    by (simp only: micro_slot_value(1) [OF v x y] micro_extent_def prod.case mult.commute [of ?W])
qed

lemma micro_slot_apart:
  assumes v: "micro_valid (w, h, bpp)" and x: "x < unat w" and y: "y < unat h"
    and x': "x' < unat w" and y': "y' < unat h" and ne: "(x, y) \<noteq> (x', y')"
  shows "micro_slot (w, h, bpp) x y + unat bpp \<le> micro_slot (w, h, bpp) x' y' \<or>
    micro_slot (w, h, bpp) x' y' + unat bpp \<le> micro_slot (w, h, bpp) x y"
proof (rule dvd_apart)
  let ?W = "ceil_div (unat w) 8"
  let ?i = "\<lambda>x y. (y div 8) * ?W + x div 8" and ?e = "\<lambda>x y. micro_element (x mod 8) (y mod 8)"
  have n: "0 < unat bpp" using v by (simp add: micro_valid_def word_less_nat_alt)
  show "unat bpp dvd micro_slot (w, h, bpp) x y" "unat bpp dvd micro_slot (w, h, bpp) x' y'"
    by (simp_all only: micro_slot_value(1) [OF v] x y x' y' dvd_triv_right)
  show "micro_slot (w, h, bpp) x y \<noteq> micro_slot (w, h, bpp) x' y'"
  proof
    assume "micro_slot (w, h, bpp) x y = micro_slot (w, h, bpp) x' y'"
    then have "?i x y * 64 + ?e x y = ?i x' y' * 64 + ?e x' y'"
      using n by (simp add: micro_slot_value(1) [OF v] x y x' y')
    then have same: "?e x y = ?e x' y'" "?i x y = ?i x' y'"
      using grid_index_inject [of "?e x y" 64 "?e x' y'" "?i x y" "?i x' y'"]
      by (simp_all add: micro_element_less)
    have "x mod 8 = x' mod 8 \<and> y mod 8 = y' mod 8"
      by (rule micro_element_inject [OF _ _ _ _ same(1)]) simp_all
    moreover have "x div 8 = x' div 8 \<and> y div 8 = y' div 8"
      by (rule grid_index_inject [OF _ _ same(2)]) (simp_all add: ceil_div_cover x x')
    ultimately have "x = x' \<and> y = y'" by (metis div_mult_mod_eq)
    then show False using ne by simp
  qed
qed

interpretation micro: tiled_surface micro_valid "\<lambda>(w, h, n). unat w" "\<lambda>(w, h, n). unat h"
  "\<lambda>(w, h, n). unat n" micro_extent micro_slot
proof (unfold_locales, goal_cases)
  case (1 p)
  then show ?case by (cases p) (simp add: micro_valid_def word_less_nat_alt)
next
  case (2 p x y)
  then show ?case by (cases p) (simp add: micro_slot_room)
next
  case (3 p x y x' y')
  obtain w h n where p: "p = (w, h, n)" by (cases p)
  show ?case
    using 3 micro_slot_apart [of w h n x y x' y'] unfolding p prod.case by blast
qed

text \<open>Where a fallible loop succeeds, the guarded one does the same.\<close>

lemma fold_of_for_each:
  assumes "\<And>x s t. x \<in> set xs \<Longrightarrow> f x s = Some t \<Longrightarrow> g x s = t" "for_each f xs s = Some r"
  shows "fold g xs s = r"
  using assms by (induction xs arbitrary: s) (auto split: option.splits)

lemma copy_if_fits_slice: "copy_slice dst d src s n = Some r \<Longrightarrow> copy_if_fits dst d src s n = r"
  by (auto simp: copy_slice_def copy_if_fits_def split: if_splits)

lemma micro_linear_offset:
  assumes v: "micro_valid (w, h, bpp)" and x: "x < unat w" and y: "y < unat h"
  shows "unat (linear_offset w bpp (of_nat x) (of_nat y)) = (y * unat w + x) * unat bpp"
proof (rule unat_eq_u32)
  show "linear_offset w bpp (of_nat x) (of_nat y) = of_nat ((y * unat w + x) * unat bpp)"
    by (simp add: linear_offset_def algebra_simps)
  have "(y * unat w + x) * unat bpp < unat h * unat w * unat bpp"
    using grid_index_less [OF y x] v by (simp add: micro_valid_def word_less_nat_alt)
  also have "\<dots> \<le> (ceil_div (unat h) 8 * 8) * (ceil_div (unat w) 8 * 8) * unat bpp"
    by (intro mult_le_mono ceil_div_ge) simp_all
  also have "\<dots> = micro_extent (w, h, bpp)" by (simp add: micro_extent_def)
  finally show "(y * unat w + x) * unat bpp < 4294967296"
    using v by (simp add: micro_valid_def)
qed

lemma micro_sizes:
  assumes v: "micro_valid (w, h, bpp)"
  shows "unat (div_ceil w 8 * div_ceil h 8 * (8 * 8 * bpp)) = micro_extent (w, h, bpp)"
    and "unat (w * bpp * h) = unat h * unat w * unat bpp"
    and "unat h * unat w * unat bpp \<le> micro_extent (w, h, bpp)"
proof -
  have c: "unat (div_ceil a 8) = ceil_div (unat a) 8" for a
    using unat_div_ceil [of 8 a] by simp
  show "unat (div_ceil w 8 * div_ceil h 8 * (8 * 8 * bpp)) = micro_extent (w, h, bpp)"
  proof (rule unat_eq_u32)
    have "div_ceil w 8 * div_ceil h 8 * (8 * 8 * bpp)
        = of_nat (unat (div_ceil w 8) * unat (div_ceil h 8) * 64 * unat bpp)"
      by (simp add: algebra_simps)
    then show "div_ceil w 8 * div_ceil h 8 * (8 * 8 * bpp) = of_nat (micro_extent (w, h, bpp))"
      by (simp only: micro_extent_def prod.case c)
  qed (use v in \<open>simp add: micro_valid_def\<close>)
  have "unat h * unat w * unat bpp
      \<le> (ceil_div (unat h) 8 * 8) * (ceil_div (unat w) 8 * 8) * unat bpp"
    by (intro mult_le_mono ceil_div_ge) simp_all
  then show le: "unat h * unat w * unat bpp \<le> micro_extent (w, h, bpp)"
    by (simp add: micro_extent_def ac_simps)
  show "unat (w * bpp * h) = unat h * unat w * unat bpp"
    by (rule unat_eq_u32) (use le v in \<open>simp_all add: micro_valid_def ac_simps\<close>)
qed

text \<open>\<open>tile_micro\<close> is the loop of the layout on a zeroed buffer.\<close>

lemma tile_micro_loop:
  assumes v: "micro_valid (w, h, bpp)"
    and r: "micro.tile_loop (w, h, bpp) src (replicate (micro_extent (w, h, bpp)) 0) = Some r"
  shows "tile_micro src w h bpp = r"
  unfolding tile_micro_def Let_def micro_sizes [OF v]
proof (rule fold_of_for_each)
  show "for_each (\<lambda>y. for_each (\<lambda>x b. copy_slice b (micro_slot (w, h, bpp) x y) src
      ((y * unat w + x) * unat bpp) (unat bpp)) [0..<unat w]) [0..<unat h]
      (replicate (micro_extent (w, h, bpp)) 0) = Some r"
    using r by (simp add: micro.tile_loop_def)
  fix y s t
  assume y: "y \<in> set [0..<unat h]" and f: "for_each (\<lambda>x b. copy_slice b
      (micro_slot (w, h, bpp) x y) src ((y * unat w + x) * unat bpp) (unat bpp)) [0..<unat w] s = Some t"
  show "fold (\<lambda>x dst. copy_if_fits dst (unat (micro_tile_offset w bpp (of_nat x) (of_nat y))) src
      (unat (linear_offset w bpp (of_nat x) (of_nat y))) (unat bpp)) [0..<unat w] s = t"
    by (rule fold_of_for_each [OF _ f])
      (use y in \<open>auto simp: micro_slot_def micro_linear_offset [OF v] intro: copy_if_fits_slice\<close>)
qed

text \<open>\<open>detile_micro\<close> reads every element from its slot.\<close>

lemma detile_micro_value:
  assumes v: "micro_valid (w, h, bpp)"
  shows "detile_micro src w h bpp = concat (map (\<lambda>y. concat (map (\<lambda>x.
      element_at src (micro_slot (w, h, bpp) x y) (unat bpp)) [0..<unat w])) [0..<unat h])"
proof -
  let ?w = "unat w" and ?h = "unat h" and ?n = "unat bpp"
  let ?s = "\<lambda>i. micro_slot (w, h, bpp) (i mod ?w) (i div ?w)"
  let ?g = "\<lambda>(y, x) dst. copy_if_fits dst (unat (linear_offset w bpp (of_nat x) (of_nat y))) src
      (unat (micro_tile_offset w bpp (of_nat x) (of_nat y))) ?n"
  have nested: "fold (\<lambda>y. fold (\<lambda>x. f (y, x)) xs) ys s = fold f (List.product ys xs) s"
    for f :: "nat \<times> nat \<Rightarrow> 'b \<Rightarrow> 'b" and xs ys s
    by (induction ys arbitrary: s) (simp_all add: fold_map comp_def)
  have "detile_micro src w h bpp
      = fold ?g (List.product [0..<?h] [0..<?w]) (replicate (?h * ?w * ?n) 0)"
    unfolding detile_micro_def micro_sizes [OF v] nested [symmetric] by simp
  also have "\<dots> = fold (\<lambda>i. ?g (i div ?w, i mod ?w)) [0..<?h * ?w] (replicate (?h * ?w * ?n) 0)"
    unfolding upt_product by (simp add: fold_map comp_def)
  also have "\<dots> = concat (map (\<lambda>i. element_at src (?s i) ?n) [0..<?h * ?w])"
  proof (rule fold_of_for_each)
    show "for_each (\<lambda>i row. if ?s i + ?n \<le> length src then copy_slice row (i * ?n) src (?s i) ?n
        else Some row) [0..<?h * ?w] (replicate (?h * ?w * ?n) 0)
      = Some (concat (map (\<lambda>i. element_at src (?s i) ?n) [0..<?h * ?w]))"
      using detile_row_run [of "?h * ?w" "?h * ?w" ?s ?n src] by simp
    fix i s t
    assume i: "i \<in> set [0..<?h * ?w]"
      and f: "(if ?s i + ?n \<le> length src then copy_slice s (i * ?n) src (?s i) ?n else Some s) = Some t"
    have "0 < ?w" using i by (cases "?w = 0") auto
    then have lin: "unat (linear_offset w bpp (of_nat (i mod ?w)) (of_nat (i div ?w))) = i * ?n"
      using micro_linear_offset [OF v, of "i mod ?w" "i div ?w"] i
      by (simp add: less_mult_imp_div_less)
    then show "?g (i div ?w, i mod ?w) s = t"
      using f copy_if_fits_slice [of s "i * ?n" src "?s i" ?n t]
      by (auto simp: micro_slot_def copy_if_fits_def split: if_splits)
  qed
  also have "\<dots> = concat (map (\<lambda>y. concat (map (\<lambda>x.
      element_at src (?s (y * ?w + x)) ?n) [0..<?w])) [0..<?h])"
    by (rule concat_rows [symmetric])
  finally have flat: "detile_micro src w h bpp = concat (map (\<lambda>y. concat (map (\<lambda>x.
      element_at src (?s (y * ?w + x)) ?n) [0..<?w])) [0..<?h])" .
  have cell: "?s (y * ?w + x) = micro_slot (w, h, bpp) x y" if "x < ?w" for x y
  proof -
    have "(y * ?w + x) div ?w = y" using that by (cases "?w = 0") simp_all
    then show ?thesis using that by simp
  qed
  have "map (\<lambda>x. element_at src (?s (y * ?w + x)) ?n) [0..<?w]
      = map (\<lambda>x. element_at src (micro_slot (w, h, bpp) x y) ?n) [0..<?w]" for y
    by (rule map_cong) (simp_all only: cell set_upt atLeastLessThan_iff)
  then show ?thesis unfolding flat by (simp only:)
qed

text \<open>Micro-tiling a linear image and detiling the result gives the image
  back, for every element size, including extents that are not multiples of the
  tile, as long as the tiled size fits 32 bits.\<close>

theorem micro_roundtrip:
  assumes "micro_valid (w, h, bpp)" "unat h * unat w * unat bpp \<le> length src"
  shows "length (tile_micro src w h bpp) = micro_extent (w, h, bpp) \<and>
    detile_micro (tile_micro src w h bpp) w h bpp = take (unat h * unat w * unat bpp) src"
proof -
  let ?p = "(w, h, bpp)"
  obtain r where r: "micro.tile_loop ?p src (replicate (micro_extent ?p) 0) = Some r"
    "length r = micro_extent ?p"
    "\<forall>x<unat w. \<forall>y<unat h. take (unat bpp) (drop (micro_slot ?p x y) r)
        = take (unat bpp) (drop ((y * unat w + x) * unat bpp) src)"
    using micro.tile_loop_total [OF assms(1), of src "replicate (micro_extent ?p) 0"] assms(2) by auto
  have "element_at r (micro_slot ?p x y) (unat bpp) = take (unat bpp) (drop (micro_slot ?p x y) r)"
    if "x < unat w" "y < unat h" for x y
    using micro_slot_room [OF assms(1) that] r(2) by (simp add: element_at_def)
  then have "detile_micro r w h bpp = micro.gathered ?p r"
    unfolding detile_micro_value [OF assms(1)] micro.gathered_def prod.case
    by (intro arg_cong [where f = concat] map_cong refl) auto
  also have "\<dots> = take (unat h * unat w * unat bpp) src"
    using micro.gathered_tile_loop [OF assms(1), of src r] assms(2) r(3) by simp
  finally show ?thesis using tile_micro_loop [OF assms(1) r(1)] r(2) by simp
qed

theorem gfx10_roundtrip_witness:
  "\<exists>out. tile_64kb_into 5 (map of_nat [0..<64]) (replicate 4100 7) 2 2 4 = Some (True, out) \<and>
    drop 4096 out = replicate 4 7 \<and>
    detile_64kb 5 out 2 2 4 = Some (Some (map of_nat [0..<64]))"
proof -
  have d: "block_dimensions 4096 4 = (16, 16)" by code_simp
  have e: "surface_extent (5, 2, 2, 4) = 4096"
    by (simp add: surface_extent_def surface_block_def surface_block_bytes_def swizzle_table_def d
        ceil_div_def)
  have v: "gfx10_valid (5, 2, 2, 4)"
    by (simp add: gfx10_valid_def e swizzle_table_def bpp_log2_is_supported_def SWIZZLE_TABLE_ROWS_def)
  show ?thesis
    using gfx10_roundtrip [OF v, of "map of_nat [0..<64]" "replicate 4100 7"] unfolding e
    by auto
qed

theorem micro_roundtrip_witness:
  "detile_micro (tile_micro (map of_nat [0..<27]) 3 3 3) 3 3 3 = map of_nat [0..<27]"
proof -
  have v: "micro_valid (3, 3, 3)"
    by (simp add: micro_valid_def micro_extent_def ceil_div_def)
  show ?thesis using micro_roundtrip [OF v, of "map of_nat [0..<27]"] by simp
qed

end
