(* ===== verification/Texture_Mips.thy ===== *)
theory Texture_Mips
  imports Texture_Tiling
begin

unbundle bit_operations_syntax

text \<open>
  GFX10 mip chains (\<open>src/crates/raeen-gpu/src/texture/tiling.rs\<close>, from
  \<open>block_element_dimensions\<close> on): a chain is stored smallest level first, so
  the base level is at the end of the allocation, or, when the whole chain
  fits one block, at an element coordinate inside the mip tail. The theory
  models the placement and the reader of the tail block, and shows that the
  base level found by the placement ends exactly where the chain ends, and
  that a base level in the tail is lifted out of the block element by element.
\<close>

section \<open>The placement\<close>

definition block_element_dimensions :: "byte \<Rightarrow> nat \<Rightarrow> (u32 \<times> u32) option" where
  "block_element_dimensions mode bpp_log2 =
     (case swizzle_table mode of None \<Rightarrow> None
      | Some (_, block_bytes) \<Rightarrow>
          if \<not> bpp_log2_is_supported bpp_log2 then None
          else let dims = block_dimensions (ucast block_bytes) bpp_log2 in
            if fst dims \<noteq> 0 \<and> snd dims \<noteq> 0 then Some dims else None)"

record base_mip =
  byte_offset :: u64
  chain_slice_bytes :: u64
  tail_element :: "(u32 \<times> u32) option"

text \<open>\<open>u64::trailing_zeros\<close>.\<close>

definition trailing_zeros_64 :: "u64 \<Rightarrow> nat" where
  "trailing_zeros_64 w = length (takeWhile (\<lambda>n. \<not> bit w n) [0..<64])"

definition mip_tail_offset :: "nat \<Rightarrow> u32" where
  "mip_tail_offset m = (if 6 < m then push_bit (m mod 32) 16 else push_bit 8 (of_nat m))"

definition mip_tail_xy :: "u32 \<Rightarrow> u32 \<times> u32" where
  "mip_tail_xy off =
     ((drop_bit 9 off AND 1) OR (drop_bit 10 off AND 2) OR (drop_bit 11 off AND 4)
        OR (drop_bit 12 off AND 8) OR (drop_bit 13 off AND 16) OR (drop_bit 14 off AND 32),
      (drop_bit 8 off AND 1) OR (drop_bit 9 off AND 2) OR (drop_bit 10 off AND 4)
        OR (drop_bit 11 off AND 8) OR (drop_bit 12 off AND 16) OR (drop_bit 13 off AND 32))"

definition mip_tail_element :: "nat \<Rightarrow> nat \<Rightarrow> nat \<Rightarrow> (u32 \<times> u32) option" where
  "mip_tail_element max_mips_in_tail block_size_log2 bpp_log2 =
     (if max_mips_in_tail = 0 then None
      else let (mip_x, mip_y) = mip_tail_xy (mip_tail_offset (max_mips_in_tail - 1));
               (mip_x, mip_y) =
                 (if odd block_size_log2
                  then let (mip_x, mip_y) = (mip_y, mip_x) in
                    (if odd bpp_log2 then (drop_bit 1 mip_x, push_bit 1 mip_y OR (mip_x AND 1))
                     else (mip_x, mip_y))
                  else (mip_x, mip_y));
               (micro_width, micro_height) = block_dimensions 256 bpp_log2
           in if micro_width = 0 \<or> micro_height = 0 then None
              else Some (mip_x * micro_width, mip_y * micro_height))"

definition max_mips_in_tail :: "nat \<Rightarrow> nat" where
  "max_mips_in_tail block_size_log2 =
     (if block_size_log2 \<le> 8 then 0
      else if block_size_log2 \<le> 11 then 1 + 2 ^ (block_size_log2 - 9)
      else block_size_log2 - 4)"

text \<open>The scan over the levels: the first level that fits the tail ends it, the
  sizes of the levels before it are recorded.\<close>

primrec scan_mips ::
  "(nat \<Rightarrow> bool) \<Rightarrow> (nat \<Rightarrow> u64) \<Rightarrow> nat \<Rightarrow> nat list \<Rightarrow> u64 list \<Rightarrow> nat \<times> u64 list" where
  "scan_mips fits bytes_of levels [] sizes = (levels, sizes)"
| "scan_mips fits bytes_of levels (i # is) sizes =
     (if fits i then (i, sizes) else scan_mips fits bytes_of levels is (sizes[i := bytes_of i]))"

definition mip_extent :: "u32 \<Rightarrow> nat \<Rightarrow> u32" where
  "mip_extent elements i = max (drop_bit i elements) 1"

definition mip_bytes :: "u32 \<Rightarrow> u32 \<Rightarrow> u32 \<Rightarrow> u32 \<Rightarrow> nat \<Rightarrow> nat \<Rightarrow> u64" where
  "mip_bytes elements_wide elements_high block_width block_height bpp_log2 i =
     (let aligned_width = ucast (div_ceil (mip_extent elements_wide i) block_width * block_width);
          aligned_height = ucast (div_ceil (mip_extent elements_high i) block_height * block_height)
      in aligned_width * aligned_height * bytes_per_element bpp_log2)"

definition mip_in_tail :: "u32 \<Rightarrow> u32 \<Rightarrow> u32 \<Rightarrow> u32 \<Rightarrow> nat \<Rightarrow> nat \<Rightarrow> nat \<Rightarrow> bool" where
  "mip_in_tail elements_wide elements_high tail_width tail_height max_in_tail mip_levels i \<longleftrightarrow>
     0 < max_in_tail \<and> mip_extent elements_wide i \<le> tail_width \<and>
     mip_extent elements_high i \<le> tail_height \<and> mip_levels - i \<le> max_in_tail"

definition tail_extent :: "nat \<Rightarrow> u32 \<times> u32 \<Rightarrow> u32 \<times> u32" where
  "tail_extent block_size_log2 dims =
     (if odd block_size_log2 then (drop_bit 1 (fst dims), snd dims)
      else (fst dims, drop_bit 1 (snd dims)))"

text \<open>The end of the placement: the tail block first, then the levels in
  decreasing order of their index.\<close>

definition place_levels :: "u64 \<Rightarrow> nat \<Rightarrow> nat \<Rightarrow> u64 list \<Rightarrow> base_mip" where
  "place_levels block_bytes first_mip_in_tail mip_levels mip_sizes =
     (let start = (if first_mip_in_tail < mip_levels then block_bytes else 0)
      in \<lparr>byte_offset = fold (\<lambda>i acc. acc + mip_sizes ! i) (rev [1..<first_mip_in_tail]) start,
          chain_slice_bytes = fold (\<lambda>i acc. acc + mip_sizes ! i) [0..<first_mip_in_tail] start,
          tail_element = None\<rparr>)"

definition place_in_tail :: "u64 \<Rightarrow> u32 \<times> u32 \<Rightarrow> u32 \<Rightarrow> u32 \<Rightarrow> (u32 \<times> u32) option \<Rightarrow> base_mip option" where
  "place_in_tail block_bytes dims elements_wide elements_high element =
     (case element of None \<Rightarrow> None
      | Some (tail_x, tail_y) \<Rightarrow>
          if fst dims < tail_x + elements_wide \<or> snd dims < tail_y + elements_high then None
          else Some \<lparr>byte_offset = 0, chain_slice_bytes = block_bytes,
                     tail_element = Some (tail_x, tail_y)\<rparr>)"

definition base_mip_placement :: "byte \<Rightarrow> u32 \<Rightarrow> u32 \<Rightarrow> nat \<Rightarrow> nat \<Rightarrow> base_mip option" where
  "base_mip_placement mode elements_wide elements_high bpp_log2 resource_mip_levels =
     (if resource_mip_levels \<le> 1 \<or> elements_wide = 0 \<or> elements_high = 0 then None
      else (case swizzle_table mode of None \<Rightarrow> None
        | Some (_, block_bytes) \<Rightarrow>
          if \<not> bpp_log2_is_supported bpp_log2 then None
          else let dims = block_dimensions (ucast block_bytes) bpp_log2;
                   block_size_log2 = trailing_zeros_64 block_bytes in
            if fst dims = 0 \<or> snd dims = 0 \<or> block_size_log2 < 8 then None
            else let mip_levels = min resource_mip_levels 16;
                     in_tail = max_mips_in_tail block_size_log2;
                     (tail_width, tail_height) = tail_extent block_size_log2 dims;
                     (first_mip_in_tail, mip_sizes) =
                       scan_mips
                         (mip_in_tail elements_wide elements_high tail_width tail_height in_tail mip_levels)
                         (mip_bytes elements_wide elements_high (fst dims) (snd dims) bpp_log2)
                         mip_levels [0..<mip_levels] (replicate 16 0)
                 in if first_mip_in_tail = 0
                    then place_in_tail block_bytes dims elements_wide elements_high
                           (mip_tail_element in_tail block_size_log2 bpp_log2)
                    else Some (place_levels block_bytes first_mip_in_tail mip_levels mip_sizes)))"

section \<open>Reading a base level out of the tail\<close>

text \<open>The outer option is the panic, the inner one the function's own result.\<close>

definition detile_mip_tail_base ::
  "byte \<Rightarrow> byte list \<Rightarrow> u32 \<Rightarrow> u32 \<Rightarrow> nat \<Rightarrow> u32 \<Rightarrow> u32 \<Rightarrow> byte list option option" where
  "detile_mip_tail_base mode tiled elements_wide elements_high bpp_log2 tail_x tail_y =
     (case swizzle_table mode of None \<Rightarrow> Some None
      | Some (_, block_bytes) \<Rightarrow>
        (case block_element_dimensions mode bpp_log2 of None \<Rightarrow> Some None
         | Some (block_width, block_height) \<Rightarrow>
           if length tiled < unat block_bytes \<or> block_width < tail_x + elements_wide
              \<or> block_height < tail_y + elements_high then Some None
           else (case detile_64kb mode tiled block_width block_height bpp_log2 of
               None \<Rightarrow> None
             | Some None \<Rightarrow> Some None
             | Some (Some block) \<Rightarrow>
                 let bpp = bytes_per_element bpp_log2;
                     row = ucast elements_wide * bpp :: u64
                 in map_option Some (for_each (\<lambda>y out.
                      let src = ((ucast tail_y + of_nat y) * ucast block_width + ucast tail_x) * bpp
                      in copy_slice out (unat (of_nat y * row)) block (unat src) (unat row))
                    [0..<unat elements_high] (replicate (unat (row * ucast elements_high)) 0)))))"

section \<open>The base level ends the chain\<close>

lemma scan_mips_first:
  assumes "\<not> fits i" "i \<notin> set is" "i < length sizes"
  shows "snd (scan_mips fits f n (i # is) sizes) ! i = f i"
proof -
  have "snd (scan_mips fits f n is ss) ! i = ss ! i" if "i \<notin> set is" for "is" ss
    using that by (induction "is" arbitrary: ss) auto
  then show ?thesis using assms by simp
qed

lemma scan_mips_zero:
  assumes "fst (scan_mips fits f n is sizes) = i" "n \<noteq> i"
  shows "fits i \<and> i \<in> set is"
  using assms by (induction "is" arbitrary: sizes) (auto split: if_splits)

lemma fold_add_sum:
  "fold (\<lambda>i acc. acc + f i) xs (s :: u64) = s + sum_list (map f xs)"
  by (induction xs arbitrary: s) (simp_all add: ac_simps)

lemma place_levels_ends:
  assumes "0 < n"
  shows "chain_slice_bytes (place_levels bs n m sizes)
    = byte_offset (place_levels bs n m sizes) + sizes ! 0"
proof -
  have "[0..<n] = 0 # [1..<n]" using assms by (simp add: upt_conv_Cons)
  moreover have "sum_list (map f (rev xs)) = sum_list (map f xs)" for f :: "nat \<Rightarrow> u64" and xs
    by (simp add: sum_list_rev flip: rev_map)
  ultimately show ?thesis
    by (simp add: place_levels_def fold_add_sum Let_def ac_simps del: upt_Suc)
qed

text \<open>Rounding an extent up to whole blocks stays within 32 bits.\<close>

lemma aligned_extent:
  assumes e: "e \<le> 0xFFFFFF00" and n: "n \<le> 8"
  shows "ucast (div_ceil e (2 ^ n) * 2 ^ n) = (ucast (div_ceil e (2 ^ n)) * 2 ^ n :: u64)"
proof -
  have bw: "unat (2 ^ n :: u32) = 2 ^ n" using n by (simp add: unat_two_power)
  have c: "unat (div_ceil e (2 ^ n)) = ceil_div (unat e) (2 ^ n)"
    using unat_div_ceil [of "2 ^ n" e] bw by (simp add: word_less_nat_alt)
  have two: "(2 ^ n :: nat) \<le> 2 ^ 8" using n by (intro power_increasing) simp_all
  have e': "unat e \<le> 4294967040" using e by (simp add: word_le_nat_alt)
  have "ceil_div (unat e) (2 ^ n) * 2 ^ n \<le> unat e + 2 ^ n - 1"
    unfolding ceil_div_def by (rule div_times_less_eq_dividend)
  also have "\<dots> < 4294967296" using e' two by simp
  finally have lt: "ceil_div (unat e) (2 ^ n) * 2 ^ n < 4294967296" .
  have "unat (ucast (div_ceil e (2 ^ n) * 2 ^ n) :: u64) = ceil_div (unat e) (2 ^ n) * 2 ^ n"
    using lt by (simp add: unat_word_ariths c bw)
  moreover have "unat (ucast (div_ceil e (2 ^ n)) * 2 ^ n :: u64) = ceil_div (unat e) (2 ^ n) * 2 ^ n"
  proof -
    have two64: "unat (2 ^ n :: u64) = 2 ^ n"
      using unat_of_nat [of "2 ^ n", where 'a = 64] two by simp
    show ?thesis using lt by (subst unat_mult_no_wrap) (simp_all add: c two64)
  qed
  ultimately show ?thesis by (simp add: word_unat_eq_iff)
qed

lemma mip_bytes_base:
  assumes t: "swizzle_table mode = Some (table, bs)" and b: "bpp_log2_is_supported b"
    and w: "w \<noteq> 0" "w \<le> 0xFFFFFF00" and h: "h \<noteq> 0" "h \<le> 0xFFFFFF00"
    and d: "block_dimensions (ucast bs) b = (bw, bh)"
  shows "tiled_byte_count_for_mode mode w h b = Some (mip_bytes w h bw bh b 0)"
proof -
  have b5: "b < 5" using b by (simp add: bpp_log2_is_supported_def SWIZZLE_TABLE_ROWS_def)
  note rows = swizzle_table_rows [OF t b5]
  define k where "k = block_log2 bs"
  let ?wl = "block_w_log2 k b" and ?hl = "block_h_log2 k b"
  have k: "b < k" "k \<le> 16" using rows b5 unfolding k_def by auto
  have bsv: "bs = 4096 \<or> bs = 65536" using t by (auto simp: swizzle_table_def split: if_splits)
  have bsk: "bs = 2 ^ k" using bsv by (auto simp: k_def block_log2_def)
  have logs: "?wl \<le> 8" "?hl \<le> 8" "?wl + ?hl + b = k"
    using block_logs [of b k] k unfolding block_w_log2_def block_h_log2_def by linarith+
  have bwh: "bw = 2 ^ ?wl" "bh = 2 ^ ?hl"
    using d bsv b5 block_dimensions_rows by (auto simp: list_all_iff k_def block_log2_def)
  have ext: "mip_extent e 0 = e" if "e \<noteq> 0" for e
    using that by (simp add: mip_extent_def max_def word_le_nat_alt) (auto simp: le_Suc_eq word_unat_eq_iff)
  have bytes: "bytes_per_element b = 2 ^ b"
    using b5 by (simp add: bytes_per_element_def push_bit_eq_mult)
  have "mip_bytes w h bw bh b 0
      = ucast (div_ceil w bw) * ucast (div_ceil h bh) * (2 ^ ?wl * 2 ^ ?hl * 2 ^ b)"
    using aligned_extent [OF w(2) logs(1)] aligned_extent [OF h(2) logs(2)]
    by (simp add: mip_bytes_def ext w h bytes bwh ac_simps)
  also have "2 ^ ?wl * 2 ^ ?hl * 2 ^ b = bs"
    using logs(3) bsk by (metis power_add)
  finally show ?thesis
    using t b d by (simp add: tiled_byte_count_for_mode_def block_count_bytes_def)
qed

lemma base_mip_placement_cases:
  assumes "base_mip_placement mode w h b levels = Some pl" "swizzle_table mode = Some (table, bs)"
  obtains bw bh sizes where "bpp_log2_is_supported b" "w \<noteq> 0" "h \<noteq> 0"
      "block_dimensions (ucast bs) b = (bw, bh)"
      "sizes ! 0 = mip_bytes w h bw bh b 0" "\<exists>n>0. \<exists>m. pl = place_levels bs n m sizes"
  | bw bh where "bpp_log2_is_supported b" "w \<noteq> 0" "h \<noteq> 0"
      "block_dimensions (ucast bs) b = (bw, bh)"
      "w \<le> fst (tail_extent (trailing_zeros_64 bs) (bw, bh))"
      "h \<le> snd (tail_extent (trailing_zeros_64 bs) (bw, bh))"
      "place_in_tail bs (bw, bh) w h (mip_tail_element
         (max_mips_in_tail (trailing_zeros_64 bs)) (trailing_zeros_64 bs) b) = Some pl"
proof -
  obtain bw bh where d: "block_dimensions (ucast bs) b = (bw, bh)" by fastforce
  let ?k = "trailing_zeros_64 bs"
  obtain tw th where tl: "tail_extent ?k (bw, bh) = (tw, th)" by fastforce
  define n where "n = min levels 16"
  let ?fits = "mip_in_tail w h tw th (max_mips_in_tail ?k) n" and ?f = "mip_bytes w h bw bh b"
  obtain first sizes where scan: "scan_mips ?fits ?f n [0..<n] (replicate 16 0) = (first, sizes)"
    by fastforce
  have ok: "1 < levels" "w \<noteq> 0" "h \<noteq> 0" "bpp_log2_is_supported b"
    using assms(1) by (auto simp: base_mip_placement_def split: if_splits option.splits)
  have n: "1 < n" using ok by (simp add: n_def)
  have pl: "(if first = 0 then place_in_tail bs (bw, bh) w h (mip_tail_element (max_mips_in_tail ?k) ?k b)
      else Some (place_levels bs first n sizes)) = Some pl"
    using assms ok(1-3)
    by (simp add: base_mip_placement_def d tl scan n_def [symmetric] Let_def split: if_splits)
  show ?thesis
  proof (cases "first = 0")
    case True
    then have "?fits 0"
      using scan_mips_zero [of ?fits ?f n "[0..<n]" "replicate 16 0" 0] scan n by simp
    moreover have "w \<le> mip_extent w 0" "h \<le> mip_extent h 0" by (simp_all add: mip_extent_def)
    ultimately have "w \<le> tw" "h \<le> th" by (auto simp: mip_in_tail_def)
    then show ?thesis using that(2) [OF ok(4,2,3) d] tl pl True by simp
  next
    case False
    have up: "[0..<n] = 0 # [1..<n]" using n by (simp add: upt_conv_Cons)
    have "\<not> ?fits 0" using scan False unfolding up by auto
    then have "sizes ! 0 = ?f 0"
      using scan_mips_first [of ?fits 0 "[1..<n]" "replicate 16 0" ?f n] scan unfolding up by simp
    then show ?thesis using that(1) [OF ok(4,2,3) d] pl False by auto
  qed
qed

text \<open>C22: where mip 0 of a chain is not in the tail, the block grid of
  \<open>tiled_byte_count_for_mode\<close> bytes at the placement's offset is the end of the
  chain: the array-layer stride is the offset plus the size of the base level.\<close>

theorem base_mip_ends_chain:
  assumes "base_mip_placement mode w h b levels = Some pl" "tail_element pl = None"
    and "w \<le> 0xFFFFFF00" "h \<le> 0xFFFFFF00"
  shows "\<exists>count. tiled_byte_count_for_mode mode w h b = Some count \<and>
    chain_slice_bytes pl = byte_offset pl + count"
proof -
  obtain table bs where t: "swizzle_table mode = Some (table, bs)"
    using assms(1) by (auto simp: base_mip_placement_def split: if_splits option.splits)
  show ?thesis
    using assms(1) t
  proof (cases rule: base_mip_placement_cases)
    case (1 bw bh sizes)
    then show ?thesis
      using mip_bytes_base [OF t, of b w h bw bh] assms(3,4) place_levels_ends by auto
  next
    case (2 bw bh)
    then show ?thesis using assms(2)
      by (auto simp: place_in_tail_def split: option.splits if_splits)
  qed
qed

theorem base_mip_ends_chain_witness:
  "\<exists>pl count. base_mip_placement 9 300 200 2 9 = Some pl \<and>
    tiled_byte_count_for_mode 9 300 200 2 = Some count \<and>
    chain_slice_bytes pl = byte_offset pl + count \<and> byte_offset pl \<noteq> 0"
proof -
  define pl where "pl = \<lparr>byte_offset = 196608, chain_slice_bytes = 589824, tail_element = None\<rparr>"
  have p: "base_mip_placement 9 300 200 2 9 = Some pl"
    unfolding pl_def by code_simp
  show ?thesis
    using base_mip_ends_chain [OF p] p by (simp add: pl_def)
qed

section \<open>A base level in the tail\<close>

lemma tail_elements_small:
  "list_all (\<lambda>b. case mip_tail_element 12 16 b of None \<Rightarrow> True | Some (x, y) \<Rightarrow> x \<le> 4096 \<and> y \<le> 4096) [0..<5] \<and>
   list_all (\<lambda>b. case mip_tail_element 8 12 b of None \<Rightarrow> True | Some (x, y) \<Rightarrow> x \<le> 4096 \<and> y \<le> 4096) [0..<5]"
  by code_simp

lemma trailing_zeros_block: "trailing_zeros_64 4096 = 12 \<and> trailing_zeros_64 65536 = 16"
  by code_simp

text \<open>The sub-rectangle of a placement is inside the block, as natural numbers.\<close>

lemma tail_placement_inside:
  assumes p: "base_mip_placement mode w h b levels = Some pl" and e: "tail_element pl = Some (tx, ty)"
    and t: "swizzle_table mode = Some (table, bs)"
    and d: "block_dimensions (ucast bs) b = (bw, bh)"
  shows "b < 5 \<and> unat tx + unat w \<le> unat bw \<and> unat ty + unat h \<le> unat bh \<and>
    unat bw \<le> 256 \<and> unat bh \<le> 256 \<and> \<not> bw < tx + w \<and> \<not> bh < ty + h"
  using p t
proof (cases rule: base_mip_placement_cases)
  case (1 bw' bh' sizes)
  then show ?thesis using e by (auto simp: place_levels_def Let_def)
next
  case (2 bw' bh')
  have same: "bw' = bw" "bh' = bh" using 2 d by auto
  have b5: "b < 5" using 2 by (simp add: bpp_log2_is_supported_def SWIZZLE_TABLE_ROWS_def)
  have bsv: "bs = 4096 \<or> bs = 65536" using t by (auto simp: swizzle_table_def split: if_splits)
  let ?k = "trailing_zeros_64 bs"
  have k: "even ?k" "max_mips_in_tail ?k = ?k - 4"
    using bsv trailing_zeros_block by (auto simp: max_mips_in_tail_def)
  obtain kk where kk: "bw = 2 ^ block_w_log2 kk b" "bh = 2 ^ block_h_log2 kk b" "kk \<le> 16"
    using d bsv b5 block_dimensions_rows by (auto simp: list_all_iff)
  have logs: "block_w_log2 kk b \<le> 8" "block_h_log2 kk b \<le> 8"
    using kk(3) unfolding block_w_log2_def block_h_log2_def by linarith+
  have small: "unat bw \<le> 2 ^ 8" "unat bh \<le> 2 ^ 8"
    unfolding kk using logs by (simp_all add: unat_two_power power_increasing del: power_numeral)
  have el: "mip_tail_element (?k - 4) ?k b = Some (tx, ty)"
    and fit: "\<not> bw < tx + w" "\<not> bh < ty + h"
    using 2(7) e by (auto simp: place_in_tail_def same k split: option.splits if_splits)
  have "case mip_tail_element 12 16 b of None \<Rightarrow> True | Some (x, y) \<Rightarrow> x \<le> 4096 \<and> y \<le> 4096"
    "case mip_tail_element 8 12 b of None \<Rightarrow> True | Some (x, y) \<Rightarrow> x \<le> 4096 \<and> y \<le> 4096"
    using tail_elements_small b5 by (simp_all add: list_all_iff)
  then have "tx \<le> 4096 \<and> ty \<le> 4096"
    using el bsv trailing_zeros_block by auto
  then have txy: "unat tx \<le> 4096" "unat ty \<le> 4096" by (simp_all add: word_le_nat_alt)
  have wh: "w \<le> bw" "h \<le> bh"
  proof -
    have "drop_bit 1 bh \<le> bh"
      by (simp add: drop_bit_eq_div word_le_nat_alt unat_div)
    then show "w \<le> bw" "h \<le> bh"
      using 2(5,6) k(1) by (auto simp: tail_extent_def same)
  qed
  have "unat (tx + w) = unat tx + unat w" "unat (ty + h) = unat ty + unat h"
    using wh small txy by (simp_all add: unat_word_ariths word_le_nat_alt)
  then show ?thesis
    using fit small b5 by (simp add: word_less_nat_alt not_less)
qed

lemma ceil_div_self: "0 < n \<Longrightarrow> ceil_div n n = 1"
  using div_mult_self1 [of n "n - 1" 1] by (simp add: ceil_div_def)

text \<open>The whole block is one surface of one block.\<close>

lemma block_surface:
  assumes t: "swizzle_table mode = Some (table, bs)" and b: "b < 5"
    and d: "block_dimensions (ucast bs) b = (bw, bh)"
  shows "gfx10_valid (mode, bw, bh, b) \<and> surface_extent (mode, bw, bh, b) = unat bs
    \<and> 0 < bw \<and> 0 < bh"
proof -
  note rows = swizzle_table_rows [OF t b]
  have bsv: "bs = 4096 \<or> bs = 65536" using t by (auto simp: swizzle_table_def split: if_splits)
  obtain kk where kk: "bw = 2 ^ block_w_log2 kk b" "bh = 2 ^ block_h_log2 kk b" "kk \<le> 16"
    using d bsv b block_dimensions_rows by (auto simp: list_all_iff)
  have "block_w_log2 kk b < 32" "block_h_log2 kk b < 32"
    using kk(3) unfolding block_w_log2_def block_h_log2_def by linarith+
  then have pos: "0 < unat bw" "0 < unat bh"
    unfolding kk by (simp_all add: unat_two_power)
  have ext: "surface_extent (mode, bw, bh, b) = unat bs"
    using t d pos by (simp add: surface_extent_def surface_block_def surface_block_bytes_def ceil_div_self)
  then show ?thesis
    using pos b t by (simp add: gfx10_valid_def bpp_log2_is_supported_def SWIZZLE_TABLE_ROWS_def
        word_less_nat_alt unat_u64_lt)
qed

text \<open>The rows of the sub-rectangle, cut out of the block image \<open>cell\<close>.\<close>

lemma tail_row:
  assumes len: "\<And>x y. length (cell x y) = n" and x: "tx + w \<le> bw" and y: "y < bh"
  shows "take (w * n) (drop ((y * bw + tx) * n)
      (concat (map (\<lambda>y. concat (map (\<lambda>x. cell x y) [0..<bw])) [0..<bh])))
    = concat (map (\<lambda>x. cell (tx + x) y) [0..<w])"
proof (cases "w = 0")
  case False
  let ?f = "\<lambda>i. cell (i mod bw) (i div bw)"
  have cell: "?f (y * bw + x) = cell x y" if "x < bw" for x y
  proof -
    have "(y * bw + x) div bw = y" using that by (cases "bw = 0") simp_all
    then show ?thesis using that by simp
  qed
  have rows: "concat (map (\<lambda>x. cell x y) [0..<bw]) = concat (map (\<lambda>x. ?f (y * bw + x)) [0..<bw])" for y
    by (intro arg_cong [where f = concat] map_cong refl) (simp only: cell set_upt atLeastLessThan_iff)
  have "y * bw + (tx + (w - 1)) < bh * bw"
    using x y False by (intro grid_index_less) auto
  then have inside: "y * bw + tx + w \<le> bh * bw" using False by simp
  have "take (w * n) (drop ((y * bw + tx) * n) (concat (map ?f [0..<bh * bw])))
      = concat (map (\<lambda>i. ?f (y * bw + tx + i)) [0..<w])"
    by (rule concat_slice [OF _ inside]) (rule len)
  also have "\<dots> = concat (map (\<lambda>x. cell (tx + x) y) [0..<w])"
  proof (intro arg_cong [where f = concat] map_cong refl)
    fix i assume "i \<in> set [0..<w]"
    then have "tx + i < bw" using x by simp
    then show "?f (y * bw + tx + i) = cell (tx + i) y" by (simp only: cell add.assoc)
  qed
  finally show ?thesis unfolding rows concat_rows [of ?f bw bh] .
qed simp

lemma unat_eq_u64: "w = of_nat k \<Longrightarrow> k < 18446744073709551616 \<Longrightarrow> unat (w :: u64) = k"
  by (simp add: unat_of_nat)

lemma for_each_guard:
  assumes "\<And>i. i \<in> set xs \<Longrightarrow> ok i"
  shows "for_each (\<lambda>i b. if ok i then f i b else Some b) xs s = for_each f xs s"
  using assms by (intro for_each_cong) simp

lemma tail_rows_copied:
  assumes b: "b < 5" and w: "unat tx + unat w \<le> unat bw" and h: "unat ty + unat h \<le> unat bh"
    and small: "unat bw \<le> 256" "unat bh \<le> 256"
    and len: "length block = unat bh * unat bw * 2 ^ b"
  shows "for_each (\<lambda>y out.
      let src = ((ucast ty + of_nat y) * ucast bw + ucast tx) * bytes_per_element b
      in copy_slice out (unat (of_nat y * (ucast w * bytes_per_element b))) block (unat src)
           (unat (ucast w * bytes_per_element b :: u64)))
      [0..<unat h] (replicate (unat (ucast w * bytes_per_element b * ucast h :: u64)) 0)
    = Some (concat (map (\<lambda>y. take (unat w * 2 ^ b)
        (drop (((unat ty + y) * unat bw + unat tx) * 2 ^ b) block)) [0..<unat h]))"
proof -
  let ?n = "2 ^ b :: nat" and ?B = "bytes_per_element b"
  let ?row = "unat w * ?n" and ?s = "\<lambda>y. ((unat ty + y) * unat bw + unat tx) * ?n"
  have n: "?n \<le> 2 ^ 5" using b by (intro power_increasing) simp_all
  have B: "?B = of_nat ?n" using b by (simp add: bytes_per_element_def push_bit_eq_mult)
  have cast: "(ucast (v :: u32) :: u64) = of_nat (unat v)" for v
    using unsigned_less [of v, where 'a = nat] by (simp add: word_unat_eq_iff unat_of_nat)
  have sz: "a * ?n < 18446744073709551616" if "a \<le> 256 * 256" for a
  proof -
    have "a * ?n \<le> 256 * 256 * 2 ^ 5" by (rule mult_le_mono [OF that n])
    then show ?thesis by simp
  qed
  have area: "c * d \<le> 256 * (256 :: nat)" if "c \<le> 256" "d \<le> 256" for c d
    using that by (rule mult_le_mono)
  have wh: "unat w \<le> 256" "unat h \<le> 256" using w h small by linarith+
  have row: "unat (ucast w * ?B :: u64) = ?row"
    by (rule unat_eq_u64) (use sz [of "unat w"] wh in \<open>simp_all add: B cast\<close>)
  have total: "unat (ucast w * ?B * ucast h :: u64) = unat h * ?row"
    by (rule unat_eq_u64)
      (use sz [OF area [OF wh(2,1)]] in \<open>simp_all add: B cast ac_simps\<close>)
  have at: "unat (of_nat y * (ucast w * ?B) :: u64) = y * ?row" if "y < unat h" for y
    by (rule unat_eq_u64)
      (use sz [OF area [of y "unat w"]] that wh in \<open>simp_all add: B cast ac_simps\<close>)
  have idx: "(unat ty + y) * unat bw + unat tx + unat w \<le> unat bh * unat bw" if "y < unat h" for y
  proof -
    have "(unat ty + y + 1) * unat bw \<le> unat bh * unat bw" using that h by (intro mult_le_mono1) simp
    then show ?thesis using w by simp
  qed
  have src: "unat (((ucast ty + of_nat y) * ucast bw + ucast tx) * ?B) = ?s y" if "y < unat h" for y
  proof (rule unat_eq_u64)
    have "(unat ty + y) * unat bw + unat tx \<le> 256 * 256"
      using idx [OF that] area [OF small(2,1)] by linarith
    then show "?s y < 18446744073709551616" by (rule sz)
  qed (simp add: B cast algebra_simps)
  have inside: "?s y + ?row \<le> length block" if "y < unat h" for y
    using mult_le_mono1 [OF idx [OF that], of ?n] len by (simp add: add_mult_distrib)
  have "for_each (\<lambda>y out. copy_slice out (y * ?row) block (?s y) ?row) [0..<unat h]
      (replicate (unat h * ?row) 0)
    = for_each (\<lambda>y out. if ?s y + ?row \<le> length block then copy_slice out (y * ?row) block (?s y) ?row
        else Some out) [0..<unat h] (replicate (unat h * ?row) 0)"
    by (rule for_each_guard [symmetric]) (use inside in auto)
  also have "\<dots> = Some (concat (map (\<lambda>y. element_at block (?s y) ?row) [0..<unat h]))"
    using detile_row_run [of "unat h" "unat h" ?s ?row block] by simp
  also have "map (\<lambda>y. element_at block (?s y) ?row) [0..<unat h]
      = map (\<lambda>y. take ?row (drop (?s y) block)) [0..<unat h]"
    using inside by (intro map_cong refl) (simp add: element_at_def)
  finally have run: "for_each (\<lambda>y out. copy_slice out (y * ?row) block (?s y) ?row) [0..<unat h]
      (replicate (unat h * ?row) 0)
    = Some (concat (map (\<lambda>y. take ?row (drop (?s y) block)) [0..<unat h]))" .
  have "for_each (\<lambda>y out. let src = ((ucast ty + of_nat y) * ucast bw + ucast tx) * ?B
      in copy_slice out (unat (of_nat y * (ucast w * ?B))) block (unat src) (unat (ucast w * ?B :: u64)))
      [0..<unat h] (replicate (unat h * ?row) 0)
    = for_each (\<lambda>y out. copy_slice out (y * ?row) block (?s y) ?row) [0..<unat h]
      (replicate (unat h * ?row) 0)"
    by (rule for_each_cong) (simp add: Let_def at src row)
  then show ?thesis unfolding total run .
qed

text \<open>A base level the placement puts in the tail is read whole and right: the
  reader neither refuses nor panics, and every element of the result is the
  element of the detiled block at the tail coordinate plus its own.\<close>

theorem tail_base_read:
  assumes "base_mip_placement mode w h b levels = Some pl" "tail_element pl = Some (tx, ty)"
    and "block_element_dimensions mode b = Some (bw, bh)"
    and "surface_extent (mode, bw, bh, b) \<le> length tiled"
  shows "detile_mip_tail_base mode tiled w h b tx ty = Some (Some (concat (map (\<lambda>y.
      concat (map (\<lambda>x. take (2 ^ b)
        (drop (gfx10_slot (mode, bw, bh, b) (unat tx + x) (unat ty + y)) tiled))
      [0..<unat w])) [0..<unat h])))"
proof -
  obtain table bs where t: "swizzle_table mode = Some (table, bs)"
    and d: "block_dimensions (ucast bs) b = (bw, bh)"
    using assms(3) by (auto simp: block_element_dimensions_def Let_def split: option.splits if_splits)
  note inside = tail_placement_inside [OF assms(1,2) t d]
  have v: "gfx10_valid (mode, bw, bh, b)" and ext: "surface_extent (mode, bw, bh, b) = unat bs"
    and pos: "0 < bw"
    using block_surface [OF t _ d] inside by auto
  let ?cell = "\<lambda>x y. element_at tiled (gfx10_slot (mode, bw, bh, b) x y) (2 ^ b)"
  define block where
    "block = concat (map (\<lambda>y. concat (map (\<lambda>x. ?cell x y) [0..<unat bw])) [0..<unat bh])"
  have read: "detile_64kb mode tiled bw bh b = Some (Some block)"
    unfolding block_def by (rule detile_64kb_value [OF v pos])
  have "length (concat (map (\<lambda>x. ?cell x y) [0..<unat bw])) = unat bw * 2 ^ b" for y
    by (subst length_concat_const [where n = "2 ^ b"]) simp_all
  then have len: "length block = unat bh * unat bw * 2 ^ b"
    unfolding block_def by (subst length_concat_const [where n = "unat bw * 2 ^ b"]) simp_all
  have row: "take (unat w * 2 ^ b) (drop (((unat ty + y) * unat bw + unat tx) * 2 ^ b) block)
      = concat (map (\<lambda>x. ?cell (unat tx + x) (unat ty + y)) [0..<unat w])" if "y < unat h" for y
    unfolding block_def by (rule tail_row) (use inside that in simp_all)
  have fit: "?cell (unat tx + x) (unat ty + y)
      = take (2 ^ b) (drop (gfx10_slot (mode, bw, bh, b) (unat tx + x) (unat ty + y)) tiled)"
    if "x < unat w" "y < unat h" for x y
    using gfx10_slot_room [OF v, of "unat tx + x" "unat ty + y"] inside that assms(4)
    by (simp add: element_at_def)
  have rows: "map (\<lambda>y. take (unat w * 2 ^ b) (drop (((unat ty + y) * unat bw + unat tx) * 2 ^ b) block))
        [0..<unat h]
      = map (\<lambda>y. concat (map (\<lambda>x. take (2 ^ b)
          (drop (gfx10_slot (mode, bw, bh, b) (unat tx + x) (unat ty + y)) tiled)) [0..<unat w])) [0..<unat h]"
    using row fit by (intro map_cong refl) (auto intro!: arg_cong [where f = concat])
  have copied: "for_each (\<lambda>y out.
      let src = ((ucast ty + of_nat y) * ucast bw + ucast tx) * bytes_per_element b
      in copy_slice out (unat (of_nat y * (ucast w * bytes_per_element b))) block (unat src)
           (unat (ucast w * bytes_per_element b :: u64)))
      [0..<unat h] (replicate (unat (ucast w * bytes_per_element b * ucast h :: u64)) 0)
    = Some (concat (map (\<lambda>y. take (unat w * 2 ^ b)
        (drop (((unat ty + y) * unat bw + unat tx) * 2 ^ b) block)) [0..<unat h]))"
    by (rule tail_rows_copied [where bh = bh]) (use inside len in simp_all)
  have enter: "detile_mip_tail_base mode tiled w h b tx ty
      = map_option Some (for_each (\<lambda>y out.
      let src = ((ucast ty + of_nat y) * ucast bw + ucast tx) * bytes_per_element b
      in copy_slice out (unat (of_nat y * (ucast w * bytes_per_element b))) block (unat src)
           (unat (ucast w * bytes_per_element b :: u64)))
      [0..<unat h] (replicate (unat (ucast w * bytes_per_element b * ucast h :: u64)) 0))"
  proof -
    have "\<not> (length tiled < unat bs \<or> bw < tx + w \<or> bh < ty + h)"
      using inside assms(4) by (simp add: ext)
    then show ?thesis
      by (simp only: detile_mip_tail_base_def t assms(3) read option.case prod.case Let_def if_False)
  qed
  show ?thesis unfolding enter copied rows by simp
qed

theorem tail_base_read_witness:
  "\<exists>out. base_mip_placement 5 2 2 2 2 = Some \<lparr>byte_offset = 0, chain_slice_bytes = 4096,
      tail_element = Some (16, 0)\<rparr> \<and>
    detile_mip_tail_base 5 (replicate 4096 9) 2 2 2 16 0 = Some (Some out) \<and>
    length out = 16 \<and> set out \<subseteq> {9}"
proof -
  have p: "base_mip_placement 5 2 2 2 2 = Some \<lparr>byte_offset = 0, chain_slice_bytes = 4096,
      tail_element = Some (16, 0)\<rparr>" by code_simp
  have d: "block_dimensions 4096 2 = (32, 32)" by code_simp
  have e: "block_element_dimensions 5 2 = Some (32, 32)"
    by (simp add: block_element_dimensions_def swizzle_table_def d bpp_log2_is_supported_def
        SWIZZLE_TABLE_ROWS_def Let_def)
  have s: "surface_extent (5, 32, 32, 2) = 4096"
    by (simp add: surface_extent_def surface_block_def surface_block_bytes_def swizzle_table_def d
        ceil_div_def)
  have v: "gfx10_valid (5, 32, 32, 2)"
    by (simp add: gfx10_valid_def s swizzle_table_def bpp_log2_is_supported_def SWIZZLE_TABLE_ROWS_def)
  have room: "gfx10_slot (5, 32, 32, 2) (16 + x) y + 4 \<le> 4096" if "x < 2" "y < 2" for x y
    using gfx10_slot_room [OF v, of "16 + x" y] that by (simp add: s)
  have two: "[0..<2] = [0, 1 :: nat]" by (simp add: upt_rec)
  show ?thesis
    using tail_base_read [OF p _ e, of 16 0 "replicate 4096 9"] p
      room [of 0 0] room [of 1 0] room [of 0 1] room [of 1 1]
    by (auto simp: s two)
qed

end
