(* ===== verification/Host_Intervals.thy ===== *)
theory Host_Intervals
  imports Raeen_Prelude
begin

text \<open>
  The interval lists of \<open>src/crates/raeen-runtime/src/arena.rs\<close> that record
  which pages the host forbids to read or write: insertion with coalescing,
  removal with splitting, and the intersection test. A list denotes a set of
  addresses (\<open>addresses\<close>); on sorted lists of separated intervals the three
  operations are union, difference and the test for a common address, and they
  keep the list sorted and separated.
\<close>

type_synonym interval = "u64 \<times> u64"

section \<open>The operations\<close>

text \<open>The closure of \<open>Vec::retain\<close>: an interval that meets or touches the
  merged bounds so far is swallowed by them, any other is kept.\<close>

fun absorb :: "interval list \<Rightarrow> u64 \<Rightarrow> u64 \<Rightarrow> interval list \<times> u64 \<times> u64" where
  "absorb [] ms me = ([], ms, me)"
| "absorb ((s, e) # ivs) ms me =
     (if s \<le> me \<and> ms \<le> e then absorb ivs (min ms s) (max me e)
      else let (kept, b) = absorb ivs ms me in ((s, e) # kept, b))"

definition interval_add :: "interval list \<Rightarrow> u64 \<Rightarrow> u64 \<Rightarrow> interval list" where
  "interval_add ivs start lim =
     (if lim \<le> start then ivs
      else let (kept, ms, me) = absorb ivs start lim in sort_key fst (kept @ [(ms, me)]))"

definition cut :: "u64 \<Rightarrow> u64 \<Rightarrow> interval \<Rightarrow> interval list" where
  "cut start lim = (\<lambda>(s, e).
     if e \<le> start \<or> lim \<le> s then [(s, e)]
     else (if s < start then [(s, start)] else []) @ (if lim < e then [(lim, e)] else []))"

definition interval_remove :: "interval list \<Rightarrow> u64 \<Rightarrow> u64 \<Rightarrow> interval list" where
  "interval_remove ivs start lim =
     (if lim \<le> start then ivs else concat (map (cut start lim) ivs))"

definition interval_intersects :: "interval list \<Rightarrow> u64 \<Rightarrow> u64 \<Rightarrow> bool" where
  "interval_intersects ivs start lim \<longleftrightarrow>
     start < lim \<and> list_ex (\<lambda>(s, e). s < lim \<and> start < e) ivs"

section \<open>What a list denotes\<close>

definition addresses :: "interval list \<Rightarrow> u64 set" where
  "addresses ivs = (\<Union>(s, e)\<in>set ivs. {s..<e})"

text \<open>Sorted, non-empty intervals with a gap between neighbours.\<close>

definition separated :: "interval list \<Rightarrow> bool" where
  "separated ivs \<longleftrightarrow> (\<forall>(s, e)\<in>set ivs. s < e) \<and> sorted_wrt (\<lambda>i j. snd i < fst j) ivs"

lemma addresses_simps [simp]:
  "addresses [] = {}"
  "addresses ((s, e) # ivs) = {s..<e} \<union> addresses ivs"
  "addresses (xs @ ys) = addresses xs \<union> addresses ys"
  by (auto simp: addresses_def)

lemma addresses_set: "set xs = set ys \<Longrightarrow> addresses xs = addresses ys"
  by (simp add: addresses_def)

lemma separated_Cons [simp]:
  "separated ((s, e) # ivs) \<longleftrightarrow> s < e \<and> (\<forall>(s', e')\<in>set ivs. e < s') \<and> separated ivs"
  by (auto simp: separated_def)

lemma separated_append:
  "separated (xs @ ys) \<longleftrightarrow> separated xs \<and> separated ys \<and> (\<forall>i\<in>set xs. \<forall>j\<in>set ys. snd i < fst j)"
  by (auto simp: separated_def sorted_wrt_append)

lemma separated_Nil [simp]: "separated []"
  by (simp add: separated_def)

section \<open>Insertion\<close>

lemma absorb_subset: "absorb ivs ms me = (kept, ms', me') \<Longrightarrow> set kept \<subseteq> set ivs"
  by (induction ivs ms me arbitrary: kept rule: absorb.induct)
    (auto split: if_splits prod.splits)

lemma absorb_bounds:
  "absorb ivs ms me = (kept, ms', me') \<Longrightarrow> ms' \<le> ms \<and> me \<le> me'"
  by (induction ivs ms me arbitrary: kept rule: absorb.induct)
    (fastforce split: if_splits prod.splits)+

lemma absorb_addresses:
  assumes "absorb ivs ms me = (kept, ms', me')" "ms < me" "\<forall>(s, e)\<in>set ivs. s < e"
  shows "addresses kept \<union> {ms'..<me'} = addresses ivs \<union> {ms..<me} \<and> ms' < me'"
  using assms
proof (induction ivs ms me arbitrary: kept rule: absorb.induct)
  case (2 s e ivs ms me)
  show ?case
  proof (cases "s \<le> me \<and> ms \<le> e")
    case True
    have "{min ms s..<max me e} = {s..<e} \<union> {ms..<me}"
      using True "2.prems"(2,3) by (auto simp: min_def max_def)
    moreover have "min ms s < max me e" using "2.prems"(2) by (auto simp: min_def max_def)
    ultimately show ?thesis
      using "2.IH"(1) [OF True] "2.prems" True by auto
  next
    case False
    obtain kept' where k: "absorb ivs ms me = (kept', ms', me')" "kept = (s, e) # kept'"
      using "2.prems"(1) False by (auto split: prod.splits)
    show ?thesis
      using "2.IH"(2) [OF False k(1)] "2.prems"(2,3) k(2) by auto
  qed
qed simp

lemma absorb_above:
  assumes "absorb ivs ms me = (kept, ms', me')" "\<forall>(s, e)\<in>set ivs. lo < s" "lo < ms"
  shows "lo < ms'"
  using assms
  by (induction ivs ms me arbitrary: kept rule: absorb.induct) (auto split: if_splits prod.splits)

text \<open>One pass is enough on a separated list: the bounds only grow into intervals
  that come later, so what was kept stays apart from the result.\<close>

lemma absorb_separated:
  assumes "absorb ivs ms me = (kept, ms', me')" "separated ivs" "ms < me"
  shows "separated kept \<and> (\<forall>(s, e)\<in>set kept. e < ms' \<or> me' < s)"
  using assms
proof (induction ivs ms me arbitrary: kept rule: absorb.induct)
  case (2 s e ivs ms me)
  have later: "\<forall>(s', e')\<in>set ivs. e < s'" and sep: "separated ivs" and se: "s < e"
    using "2.prems"(2) by auto
  show ?case
  proof (cases "s \<le> me \<and> ms \<le> e")
    case True
    have "absorb ivs (min ms s) (max me e) = (kept, ms', me')" using "2.prems"(1) True by simp
    moreover have "min ms s < max me e" using "2.prems"(3) by (auto simp: min_def max_def)
    ultimately show ?thesis using "2.IH"(1) [OF True] sep by blast
  next
    case False
    obtain kept' where k: "absorb ivs ms me = (kept', ms', me')" "kept = (s, e) # kept'"
      using "2.prems"(1) False by (auto split: prod.splits)
    note ih = "2.IH"(2) [OF False k(1) sep "2.prems"(3)]
    have "e < ms' \<or> me' < s"
    proof (cases "e < ms")
      case True
      then show ?thesis using absorb_above [OF k(1) later] by blast
    next
      case gap: False
      then have "me < s" using False by auto
      then have "absorb ivs ms me = (ivs, ms, me)"
      proof -
        have "absorb js ms me = (js, ms, me)" if "\<forall>(s', e')\<in>set js. me < s'" for js
          using that by (induction js) auto
        moreover have "\<forall>(s', e')\<in>set ivs. me < s'"
          using later \<open>me < s\<close> se by fastforce
        ultimately show ?thesis by blast
      qed
      then show ?thesis using k(1) \<open>me < s\<close> by simp
    qed
    moreover have "\<forall>(s', e')\<in>set kept'. e < s'"
      using later absorb_subset [OF k(1)] by auto
    ultimately show ?thesis using ih k(2) se by auto
  qed
qed auto

text \<open>Sorting pairwise separated intervals.\<close>

definition split_by :: "interval \<Rightarrow> interval \<Rightarrow> bool" where
  "split_by i j \<longleftrightarrow> snd i < fst j \<or> snd j < fst i"

lemma separated_distinct: "separated ivs \<Longrightarrow> distinct ivs \<and> pairwise split_by (set ivs)"
proof (induction ivs)
  case (Cons i ivs)
  obtain s e where i: "i = (s, e)" by (cases i)
  have later: "\<forall>j\<in>set ivs. e < fst j" and se: "s < e" using Cons.prems i by auto
  have "i \<notin> set ivs" using later se i by auto
  moreover have "\<forall>j\<in>set ivs. split_by i j \<and> split_by j i" using later i by (auto simp: split_by_def)
  ultimately show ?case using Cons i by (auto simp: pairwise_insert)
qed (simp add: pairwise_def)

lemma separated_if_sorted:
  assumes "sorted (map fst ivs)" "distinct ivs" "pairwise split_by (set ivs)"
    and "\<forall>(s, e)\<in>set ivs. s < e"
  shows "separated ivs"
  using assms
proof (induction ivs)
  case (Cons i ivs)
  obtain s e where i: "i = (s, e)" by (cases i)
  have "e < fst j" if j: "j \<in> set ivs" for j
  proof -
    have "split_by i j" "s \<le> fst j" "fst j < snd j"
      using Cons.prems j i unfolding pairwise_def by (auto split: prod.splits)
    then show ?thesis using i by (auto simp: split_by_def)
  qed
  then show ?case using Cons i by (auto simp: pairwise_insert split: prod.splits)
qed simp

text \<open>Insertion is union.\<close>

lemma interval_add_correct:
  assumes sep: "separated ivs"
  shows "separated (interval_add ivs start lim) \<and>
    addresses (interval_add ivs start lim) = addresses ivs \<union> {start..<lim}"
proof (cases "lim \<le> start")
  case True
  then show ?thesis using sep by (simp add: interval_add_def)
next
  case False
  then have lt: "start < lim" by simp
  obtain kept ms me where ab: "absorb ivs start lim = (kept, ms, me)" by (metis prod.exhaust)
  have all: "\<forall>(s, e)\<in>set ivs. s < e" using sep by (simp add: separated_def)
  note adr = absorb_addresses [OF ab lt all]
  have kept: "separated kept" "\<forall>(s, e)\<in>set kept. e < ms \<or> me < s"
    using absorb_separated [OF ab sep lt] by simp_all
  let ?r = "sort_key fst (kept @ [(ms, me)])"
  have "\<forall>i\<in>set kept. split_by i (ms, me) \<and> split_by (ms, me) i \<and> i \<noteq> (ms, me)"
    using kept(2) adr by (auto simp: split_by_def)
  then have "distinct (kept @ [(ms, me)])" "pairwise split_by (set (kept @ [(ms, me)]))"
    using separated_distinct [OF kept(1)] by (auto simp: pairwise_insert)
  then have "separated ?r"
    using kept(1) adr by (intro separated_if_sorted) (auto simp: separated_def)
  moreover have "addresses ?r = addresses kept \<union> {ms..<me}"
    using addresses_set [of ?r "kept @ [(ms, me)]"] by simp
  ultimately show ?thesis
    using False ab adr by (simp add: interval_add_def)
qed

text \<open>Removal is difference.\<close>

lemma cut_addresses: "start < lim \<Longrightarrow> addresses (cut start lim (s, e)) = {s..<e} - {start..<lim}"
  by (auto simp: cut_def)

lemma cut_inside:
  "s < e \<Longrightarrow> start < lim \<Longrightarrow> j \<in> set (cut start lim (s, e)) \<Longrightarrow> s \<le> fst j \<and> fst j < snd j \<and> snd j \<le> e"
  by (auto simp: cut_def split: if_splits)

lemma interval_remove_correct:
  assumes "separated ivs"
  shows "separated (interval_remove ivs start lim) \<and>
    addresses (interval_remove ivs start lim) = addresses ivs - {start..<lim}"
proof (cases "lim \<le> start")
  case True
  then show ?thesis using assms by (simp add: interval_remove_def)
next
  case False
  then have lt: "start < lim" by simp
  have "separated (concat (map (cut start lim) ivs)) \<and>
      addresses (concat (map (cut start lim) ivs)) = addresses ivs - {start..<lim} \<and>
      (\<forall>j\<in>set (concat (map (cut start lim) ivs)). \<exists>i\<in>set ivs. fst i \<le> fst j)"
    using assms
  proof (induction ivs)
    case (Cons i ivs)
    obtain s e where i: "i = (s, e)" by (cases i)
    have se: "s < e" and later: "\<forall>j\<in>set ivs. e < fst j" and sep: "separated ivs"
      using Cons.prems i by auto
    let ?rest = "concat (map (cut start lim) ivs)"
    have rest: "\<forall>j\<in>set ?rest. e < fst j" using Cons.IH [OF sep] later by (meson order.strict_trans2)
    have "separated (cut start lim (s, e))"
      using se lt by (auto simp: cut_def)
    moreover have "\<forall>k\<in>set (cut start lim (s, e)). \<forall>j\<in>set ?rest. snd k < fst j"
      using cut_inside [OF se lt] rest by (meson order.strict_trans1)
    ultimately have "separated (cut start lim (s, e) @ ?rest)"
      using Cons.IH [OF sep] by (simp only: separated_append)
    then show ?case
      using Cons.IH [OF sep] cut_addresses [OF lt, of s e] cut_inside [OF se lt] i by auto
  qed simp
  then show ?thesis using False by (simp add: interval_remove_def)
qed

lemma interval_intersects_iff:
  assumes "separated ivs"
  shows "interval_intersects ivs start lim \<longleftrightarrow> addresses ivs \<inter> {start..<lim} \<noteq> {}"
proof
  assume "interval_intersects ivs start lim"
  then obtain s e where m: "(s, e) \<in> set ivs" "s < lim" "start < e" "start < lim"
    by (auto simp: interval_intersects_def list_ex_iff)
  then have "s < e" using assms by (auto simp: separated_def)
  then have "max s start \<in> {s..<e} \<inter> {start..<lim}"
    using m by (auto simp: max_def)
  then have "max s start \<in> addresses ivs \<inter> {start..<lim}"
    using m(1) unfolding addresses_def by blast
  then show "addresses ivs \<inter> {start..<lim} \<noteq> {}" by blast
next
  assume "addresses ivs \<inter> {start..<lim} \<noteq> {}"
  then show "interval_intersects ivs start lim"
    by (fastforce simp: interval_intersects_def list_ex_iff addresses_def)
qed

text \<open>The host-restriction records behave as sets of addresses: on a sorted
  list of separated intervals, recording a range is union, clearing a range is
  difference, both keep the list sorted and separated, and the test that guards
  every host copy holds exactly when some address of the range is recorded.\<close>

theorem host_intervals_refine:
  assumes "separated ivs"
  shows "separated (interval_add ivs start lim) \<and>
    addresses (interval_add ivs start lim) = addresses ivs \<union> {start..<lim} \<and>
    separated (interval_remove ivs start lim) \<and>
    addresses (interval_remove ivs start lim) = addresses ivs - {start..<lim} \<and>
    (interval_intersects ivs start lim \<longleftrightarrow> addresses ivs \<inter> {start..<lim} \<noteq> {})"
  using interval_add_correct [OF assms] interval_remove_correct [OF assms]
    interval_intersects_iff [OF assms] by blast

theorem host_intervals_refine_witness:
  "interval_add [(0x1000, 0x2000), (0x5000, 0x6000)] 0x2000 0x5000 = [(0x1000, 0x6000)] \<and>
   addresses (interval_remove [(0x1000, 0x6000)] 0x3000 0x4000)
     = addresses [(0x1000, 0x6000)] - {0x3000..<0x4000}"
  using host_intervals_refine [of "[(0x1000, 0x6000)]" "0x3000" "0x4000"]
  by (simp add: interval_add_def)

end
