(* ===== verification/Guest_Arena.thy ===== *)
theory Guest_Arena
  imports Vma_Map Host_Intervals Pow2_Align
begin

text \<open>
  The guest arena of \<open>src/crates/raeen-runtime/src/arena.rs\<close>: the allocator state
  over the address-space map of \<open>Vma_Map\<close>, the heap calls (\<open>alloc\<close>,
  \<open>free\<close>, \<open>realloc\<close>), \<open>munmap\<close>, the demand commit of reserved pages, and the
  checked reads and writes of guest memory. Guest memory is identity mapped, so
  the host memory is a function from addresses to bytes.

  The operating system is a parameter: \<open>os_commit a n mem\<close> is the memory after
  \<open>VirtualAlloc(a, n, MEM_COMMIT)\<close>, or \<open>None\<close> when the call fails. A \<open>None\<close>
  around the result of a call is a panic of the map operations. The notices
  logged once (the two announced flags) are not modelled.
\<close>

section \<open>Layout and alignment\<close>

abbreviation PAGE_SIZE :: u64 where "PAGE_SIZE \<equiv> 4096"
abbreviation VMM_MIN :: u64 where "VMM_MIN \<equiv> 4096"
abbreviation VMM_MAX :: u64 where "VMM_MAX \<equiv> 0x800000000000"
abbreviation GUEST_ARENA_BASE :: u64 where "GUEST_ARENA_BASE \<equiv> 0x100000000000"
abbreviation IMAGE_OFFSET :: u64 where "IMAGE_OFFSET \<equiv> 0"
abbreviation IMAGE_SIZE :: u64 where "IMAGE_SIZE \<equiv> 0x40000000"
abbreviation HEAP_OFFSET :: u64 where "HEAP_OFFSET \<equiv> 0x40000000"
abbreviation STACK_OFFSET :: u64 where "STACK_OFFSET \<equiv> 0x80000000"
abbreviation STACK_SIZE :: u64 where "STACK_SIZE \<equiv> 0x20000000"
abbreviation ARENA_SPAN :: u64 where "ARENA_SPAN \<equiv> 0x100000000"
abbreviation RESERVED_SPAN :: u64 where "RESERVED_SPAN \<equiv> 0x20000000000"
abbreviation CPU_READ_WRITE :: u32 where "CPU_READ_WRITE \<equiv> 3"
abbreviation CPU_EXEC :: u32 where "CPU_EXEC \<equiv> 4"

text \<open>\<open>u64::leading_zeros\<close> and \<open>u64::next_power_of_two\<close>, as the standard library
  computes it.\<close>

definition leading_zeros :: "u64 \<Rightarrow> nat" where
  "leading_zeros w = length (takeWhile (\<lambda>n. \<not> bit w (63 - n)) [0..<64])"

definition next_power_of_two :: "u64 \<Rightarrow> u64" where
  "next_power_of_two n = (if n \<le> 1 then 1 else drop_bit (leading_zeros (n - 1)) U64_MAX + 1)"

definition normalize_align :: "u64 \<Rightarrow> u64 option" where
  "normalize_align align0 =
     (let align = max align0 16
      in if is_power_of_two align then Some align
         else if push_bit 62 1 < align then None
         else Some (next_power_of_two align))"

definition arena_align_up :: "u64 \<Rightarrow> u64 \<Rightarrow> u64 option" where
  "arena_align_up val align = map_option (mask_down align) (checked_add val (align - 1))"

section \<open>The state\<close>

record alloc_state =
  as_vmm :: vma_map
  as_heap_sizes :: "u64 \<rightharpoonup> u64"
  as_os_reservations :: "u64 list"
  as_external_mappings :: "u64 \<rightharpoonup> u64"
  as_window_commits :: "interval list"
  as_host_noaccess :: "interval list"
  as_host_nonwritable :: "interval list"

type_synonym host_mem = "u64 \<Rightarrow> byte"
type_synonym os_commit = "u64 \<Rightarrow> u64 \<Rightarrow> host_mem \<Rightarrow> host_mem option"

text \<open>\<open>AllocState::new\<close>: the host's address space, the image and the stack are
  claimed, the rest of the reservation is free.\<close>

definition alloc_state_new :: "u64 \<Rightarrow> alloc_state option" where
  "alloc_state_new base =
     Option.bind (vm_new VMM_MIN VMM_MAX) (\<lambda>m0.
     Option.bind (map_range VMM_MIN (base - VMM_MIN) Foreign NO_ACCESS None ''host'' False m0) (\<lambda>m1.
     Option.bind (map_range (base + RESERVED_SPAN) (VMM_MAX - (base + RESERVED_SPAN)) Foreign
       NO_ACCESS None ''host'' False m1) (\<lambda>m2.
     Option.bind (map_range (base + IMAGE_OFFSET) IMAGE_SIZE Code (or CPU_READ_WRITE CPU_EXEC)
       None ''image'' True m2) (\<lambda>m3.
     Option.bind (map_range (base + STACK_OFFSET) STACK_SIZE Stack CPU_READ_WRITE None ''stack''
       True m3) (\<lambda>m4.
     Some \<lparr>as_vmm = m4, as_heap_sizes = Map.empty, as_os_reservations = [],
       as_external_mappings = Map.empty, as_window_commits = [], as_host_noaccess = [], as_host_nonwritable = []\<rparr>)))))"

definition add_host_noaccess :: "u64 \<Rightarrow> u64 \<Rightarrow> alloc_state \<Rightarrow> alloc_state" where
  "add_host_noaccess start lim s =
     s\<lparr>as_host_noaccess := interval_add (as_host_noaccess s) start lim,
       as_host_nonwritable := interval_add (as_host_nonwritable s) start lim\<rparr>"

definition add_host_readonly :: "u64 \<Rightarrow> u64 \<Rightarrow> alloc_state \<Rightarrow> alloc_state" where
  "add_host_readonly start lim s =
     s\<lparr>as_host_noaccess := interval_remove (as_host_noaccess s) start lim,
       as_host_nonwritable := interval_add (as_host_nonwritable s) start lim\<rparr>"

definition clear_host_restriction :: "u64 \<Rightarrow> u64 \<Rightarrow> alloc_state \<Rightarrow> alloc_state" where
  "clear_host_restriction start lim s =
     s\<lparr>as_host_noaccess := interval_remove (as_host_noaccess s) start lim,
       as_host_nonwritable := interval_remove (as_host_nonwritable s) start lim\<rparr>"

definition intersects_host_noaccess :: "alloc_state \<Rightarrow> u64 \<Rightarrow> u64 \<Rightarrow> bool" where
  "intersects_host_noaccess s start lim = interval_intersects (as_host_noaccess s) start lim"

definition intersects_host_nonwritable :: "alloc_state \<Rightarrow> u64 \<Rightarrow> u64 \<Rightarrow> bool" where
  "intersects_host_nonwritable s start lim = interval_intersects (as_host_nonwritable s) start lim"

section \<open>Walking the map\<close>

text \<open>The cursor loop of \<open>range_all\<close>; \<open>None\<close> would be a loop that does not end.\<close>

partial_function (option) all_cursor :: "vma_map \<Rightarrow> (vma \<Rightarrow> bool) \<Rightarrow> u64 \<Rightarrow> u64 \<Rightarrow> bool option" where
  "all_cursor m pred lim cursor =
     (if lim \<le> cursor then Some True
      else (case vm_find m cursor of
              None \<Rightarrow> Some False
            | Some v \<Rightarrow> if \<not> pred v then Some False else all_cursor m pred lim (vma_end v)))"

definition range_all :: "vma_map \<Rightarrow> u64 \<Rightarrow> u64 \<Rightarrow> (vma \<Rightarrow> bool) \<Rightarrow> bool option" where
  "range_all m start lim pred = (if lim \<le> start then Some False else all_cursor m pred lim start)"

definition range_is_committed :: "alloc_state \<Rightarrow> u64 \<Rightarrow> u64 \<Rightarrow> bool option" where
  "range_is_committed s start lim =
     (if lim = start
      then Some (case vm_find (as_vmm s) start of None \<Rightarrow> False
             | Some v \<Rightarrow> is_host_backed (vma_kind v))
      else range_all (as_vmm s) start lim (\<lambda>v. is_host_backed (vma_kind v)))"

section \<open>The heap\<close>

type_synonym arena = "host_mem \<times> alloc_state"

definition grow_into_tail ::
  "os_commit \<Rightarrow> u64 \<Rightarrow> u64 \<Rightarrow> u64 \<Rightarrow> string \<Rightarrow> arena \<Rightarrow> ((u64 \<times> u64) option \<times> arena) option" where
  "grow_into_tail commit base sz align name A =
     (case arena_align_up sz PAGE_SIZE of
        None \<Rightarrow> Some (None, A)
      | Some committed_len \<Rightarrow>
        (case search_free (base + ARENA_SPAN) committed_len align (as_vmm (snd A)) of
           None \<Rightarrow> Some (None, A)
         | Some addr \<Rightarrow>
           (case checked_add addr committed_len of
              None \<Rightarrow> Some (None, A)
            | Some e \<Rightarrow>
              if base + RESERVED_SPAN < e then Some (None, A)
              else (case commit addr committed_len (fst A) of
                  None \<Rightarrow> Some (None, A)
                | Some mem \<Rightarrow>
                    map_option (\<lambda>m. (Some (addr, committed_len), (mem, (snd A)\<lparr>as_vmm := m\<rparr>)))
                      (map_range addr committed_len Flexible CPU_READ_WRITE None name False
                         (as_vmm (snd A)))))))"

definition record_heap :: "u64 \<Rightarrow> u64 \<Rightarrow> alloc_state \<Rightarrow> alloc_state" where
  "record_heap addr sz s = s\<lparr>as_heap_sizes := (as_heap_sizes s)(addr \<mapsto> sz)\<rparr>"

definition heap_region_fit :: "u64 \<Rightarrow> u64 \<Rightarrow> u64 \<Rightarrow> vma_map \<Rightarrow> u64 option" where
  "heap_region_fit base sz align m =
     (case search_free (base + HEAP_OFFSET) sz align m of
        None \<Rightarrow> None
      | Some addr \<Rightarrow> (case checked_add addr sz of None \<Rightarrow> None
          | Some e \<Rightarrow> if e \<le> base + STACK_OFFSET - PAGE_SIZE then Some addr else None))"

definition arena_alloc ::
  "os_commit \<Rightarrow> u64 \<Rightarrow> u64 \<Rightarrow> u64 \<Rightarrow> arena \<Rightarrow> (u64 option \<times> arena) option" where
  "arena_alloc commit base size0 align0 A =
     (case normalize_align align0 of None \<Rightarrow> Some (None, A)
      | Some align \<Rightarrow>
        (case arena_align_up (max size0 1) align of None \<Rightarrow> Some (None, A)
         | Some sz \<Rightarrow>
           (case heap_region_fit base sz align (as_vmm (snd A)) of
              Some addr \<Rightarrow>
                map_option (\<lambda>m. (Some addr, (fst A, record_heap addr sz ((snd A)\<lparr>as_vmm := m\<rparr>))))
                  (map_range addr sz Flexible CPU_READ_WRITE None ''heap'' False (as_vmm (snd A)))
            | None \<Rightarrow>
                map_option (\<lambda>(r, A'). case r of
                    None \<Rightarrow> (None, A')
                  | Some (addr, mapped) \<Rightarrow> (Some addr, (fst A', record_heap addr mapped (snd A'))))
                  (grow_into_tail commit base sz (max align PAGE_SIZE) ''heap'' A))))"

text \<open>\<open>restore_rw_on_release_locked\<close>: the page loop over one overlap; the guard
  pages keep their records. \<open>None\<close> would be a loop that does not end.\<close>

partial_function (option) restore_pages :: "u64 \<Rightarrow> u64 \<Rightarrow> u64 \<Rightarrow> alloc_state \<Rightarrow> alloc_state option" where
  "restore_pages base cursor e s =
     (if e \<le> cursor then Some s
      else restore_pages base (cursor + PAGE_SIZE) e
        (if cursor \<noteq> base + IMAGE_SIZE - PAGE_SIZE \<and> cursor \<noteq> base + STACK_OFFSET - PAGE_SIZE
         then clear_host_restriction cursor (cursor + PAGE_SIZE) s else s))"

definition restricted_overlaps :: "u64 \<Rightarrow> u64 \<Rightarrow> interval list \<Rightarrow> interval list" where
  "restricted_overlaps start lim ivs =
     filter (\<lambda>(s, e). s < e) (map (\<lambda>(s, e). (max s start, min e lim)) ivs)"

fun restore_overlaps :: "u64 \<Rightarrow> interval list \<Rightarrow> alloc_state \<Rightarrow> alloc_state option" where
  "restore_overlaps base [] s = Some s"
| "restore_overlaps base ((a, b) # ivs) s =
     (case restore_pages base a b s of None \<Rightarrow> None | Some t \<Rightarrow> restore_overlaps base ivs t)"

definition restore_rw_on_release :: "u64 \<Rightarrow> u64 \<Rightarrow> u64 \<Rightarrow> alloc_state \<Rightarrow> alloc_state option" where
  "restore_rw_on_release base start lim s =
     (if \<not> intersects_host_nonwritable s start lim then Some s
      else restore_overlaps base (restricted_overlaps start lim (as_host_nonwritable s)) s)"

definition arena_free :: "u64 \<Rightarrow> u64 \<Rightarrow> arena \<Rightarrow> arena option" where
  "arena_free base addr A =
     (case as_heap_sizes (snd A) addr of
        None \<Rightarrow> Some A
      | Some sz \<Rightarrow>
          let s = (snd A)\<lparr>as_heap_sizes := (as_heap_sizes (snd A))(addr := None)\<rparr> in
          (case (case checked_add addr sz of None \<Rightarrow> Some s
                 | Some e \<Rightarrow> restore_rw_on_release base addr e s) of
             None \<Rightarrow> None
           | Some t \<Rightarrow> map_option (\<lambda>m. (fst A, t\<lparr>as_vmm := m\<rparr>)) (unmap_range addr sz (as_vmm t))))"

text \<open>\<open>copy_nonoverlapping\<close> between guest addresses.\<close>

definition host_copy :: "u64 \<Rightarrow> u64 \<Rightarrow> nat \<Rightarrow> host_mem \<Rightarrow> host_mem" where
  "host_copy from to n mem =
     (\<lambda>a. if unat to \<le> unat a \<and> unat a < unat to + n then mem (a - to + from) else mem a)"

definition arena_realloc ::
  "os_commit \<Rightarrow> u64 \<Rightarrow> u64 \<Rightarrow> u64 \<Rightarrow> arena \<Rightarrow> (u64 option \<times> arena) option" where
  "arena_realloc commit base addr new_size A =
     (case arena_alloc commit base new_size 16 A of
        None \<Rightarrow> None
      | Some (None, A1) \<Rightarrow> Some (None, A1)
      | Some (Some new_addr, A1) \<Rightarrow>
          let mem = (case as_heap_sizes (snd A) addr of
                None \<Rightarrow> fst A1
              | Some old_size \<Rightarrow> host_copy addr new_addr (unat (min old_size new_size)) (fst A1))
          in map_option (Pair (Some new_addr)) (arena_free base addr (mem, snd A1)))"

section \<open>Releasing a range\<close>

text \<open>\<open>swap_remove\<close> moves the last element into the hole.\<close>

definition swap_remove :: "nat \<Rightarrow> 'a list \<Rightarrow> 'a list" where
  "swap_remove i xs = butlast (xs[i := last xs])"

definition forget_reservation :: "u64 \<Rightarrow> u64 list \<Rightarrow> u64 list" where
  "forget_reservation addr rs =
     (if addr \<in> set rs then swap_remove (length (takeWhile (\<lambda>b. b \<noteq> addr) rs)) rs else rs)"

definition arena_munmap :: "u64 \<Rightarrow> u64 \<Rightarrow> u64 \<Rightarrow> arena \<Rightarrow> arena option" where
  "arena_munmap base addr len0 A =
     (case arena_align_up (max len0 1) PAGE_SIZE of None \<Rightarrow> Some A
      | Some len \<Rightarrow>
        (case checked_add addr len of None \<Rightarrow> Some A
         | Some e \<Rightarrow>
           let s = snd A in
           if as_external_mappings s addr = Some len
           then map_option (\<lambda>m. (fst A, s\<lparr>as_external_mappings := (as_external_mappings s)(addr := None),
                    as_os_reservations := forget_reservation addr (as_os_reservations s),
                    as_vmm := m\<rparr>))
                  (map_range addr len Foreign NO_ACCESS None ''host'' False (as_vmm s))
           else (case range_all (as_vmm s) addr e (\<lambda>v. is_guest_releasable (vma_kind v)) of
                None \<Rightarrow> None
              | Some False \<Rightarrow> Some A
              | Some True \<Rightarrow>
                  let t0 = s\<lparr>as_heap_sizes := (as_heap_sizes s)(addr := None)\<rparr> in
                  (case restore_rw_on_release base addr e t0 of None \<Rightarrow> None
                   | Some t \<Rightarrow> map_option (\<lambda>m. (fst A, t\<lparr>as_vmm := m\<rparr>))
                       (unmap_range addr len (as_vmm t))))))"

section \<open>Demand commit\<close>

definition page_down :: "u64 \<Rightarrow> u64" where
  "page_down a = mask_down PAGE_SIZE a"

definition commit_batch_len :: "u64 \<Rightarrow> u64 \<Rightarrow> u64 \<Rightarrow> u64" where
  "commit_batch_len page batch_pages reserved_end =
     min (saturating_add page (max 1 (min batch_pages 256) * PAGE_SIZE)) reserved_end - page"

definition commit_on_demand ::
  "os_commit \<Rightarrow> u64 \<Rightarrow> u64 \<Rightarrow> arena \<Rightarrow> (bool \<times> arena) option" where
  "commit_on_demand commit batch_pages addr A =
     (let page = page_down addr in
      (case vm_find (as_vmm (snd A)) page of
         None \<Rightarrow> Some (False, A)
       | Some v \<Rightarrow>
           if vma_kind v = Reserved
           then let commit_len = commit_batch_len page batch_pages (vma_end v) in
             (case commit page commit_len (fst A) of
                None \<Rightarrow> Some (False, A)
              | Some mem \<Rightarrow>
                  map_option (\<lambda>m. (True, (mem, (snd A)\<lparr>as_vmm := m\<rparr>)))
                    (map_range page commit_len ReservedBacked CPU_READ_WRITE None ''reserve'' False
                       (as_vmm (snd A))))
           else Some (vma_kind v = ReservedBacked, A)))"

text \<open>The page loop of \<open>ensure_range_backed_for_write\<close>; \<open>None\<close> is a panic or a
  loop that does not end.\<close>

partial_function (option) back_pages ::
  "os_commit \<Rightarrow> u64 \<Rightarrow> u64 \<Rightarrow> u64 \<Rightarrow> arena \<Rightarrow> arena option" where
  "back_pages commit batch_pages page e A =
     (if e \<le> page then Some A
      else (case commit_on_demand commit batch_pages page A of
          None \<Rightarrow> None
        | Some (_, A') \<Rightarrow> back_pages commit batch_pages (saturating_add page 0x1000) e A'))"

definition ensure_range_backed_for_write ::
  "os_commit \<Rightarrow> u64 \<Rightarrow> u64 \<Rightarrow> u64 \<Rightarrow> arena \<Rightarrow> (bool \<times> arena) option" where
  "ensure_range_backed_for_write commit batch_pages start e A =
     (case range_is_committed (snd A) start e of
        None \<Rightarrow> None
      | Some True \<Rightarrow> Some (True, A)
      | Some False \<Rightarrow>
          if 0x1000000 < saturating_sub e start then Some (False, A)
          else (case back_pages commit batch_pages (page_down start) e A of
              None \<Rightarrow> None
            | Some A' \<Rightarrow> map_option (\<lambda>ok. (ok, A')) (range_is_committed (snd A') start e)))"

section \<open>Reading and writing\<close>

definition host_bytes :: "host_mem \<Rightarrow> u64 \<Rightarrow> nat \<Rightarrow> byte list" where
  "host_bytes mem a n = map (\<lambda>i. mem (a + of_nat i)) [0..<n]"

definition host_store :: "u64 \<Rightarrow> byte list \<Rightarrow> host_mem \<Rightarrow> host_mem" where
  "host_store a bs mem =
     (\<lambda>x. if unat a \<le> unat x \<and> unat x < unat a + length bs then bs ! (unat x - unat a) else mem x)"

text \<open>\<open>GuestMemory::read\<close>: the bytes, or \<open>None\<close> for the refusal.\<close>

definition arena_read :: "u64 \<Rightarrow> nat \<Rightarrow> arena \<Rightarrow> byte list option option" where
  "arena_read addr n A =
     (case checked_add addr (of_nat n) of None \<Rightarrow> Some None
      | Some e \<Rightarrow>
        (case range_is_committed (snd A) addr e of
           None \<Rightarrow> None
         | Some False \<Rightarrow> Some None
         | Some True \<Rightarrow>
             if intersects_host_noaccess (snd A) addr e then Some None
             else Some (Some (host_bytes (fst A) addr n))))"

text \<open>\<open>others\<close> is what other threads do between the demand commit and the lock
  under which the range is checked again and the bytes are stored.\<close>

definition write_host_checked ::
  "os_commit \<Rightarrow> u64 \<Rightarrow> (arena \<Rightarrow> arena) \<Rightarrow> u64 \<Rightarrow> byte list \<Rightarrow> bool \<Rightarrow> arena \<Rightarrow> (bool \<times> arena) option" where
  "write_host_checked commit batch_pages others addr data honor_restrictions A =
     (case checked_add addr (of_nat (length data)) of None \<Rightarrow> Some (False, A)
      | Some e \<Rightarrow>
        (case ensure_range_backed_for_write commit batch_pages addr e A of
           None \<Rightarrow> None
         | Some (False, A') \<Rightarrow> Some (False, A')
         | Some (True, A1) \<Rightarrow>
             let A' = others A1 in
             (case range_is_committed (snd A') addr e of
                None \<Rightarrow> None
              | Some False \<Rightarrow> Some (False, A')
              | Some True \<Rightarrow>
                  if honor_restrictions \<and> intersects_host_nonwritable (snd A') addr e
                  then Some (False, A')
                  else Some (True, (host_store addr data (fst A'), snd A')))))"

definition arena_write ::
  "os_commit \<Rightarrow> u64 \<Rightarrow> (arena \<Rightarrow> arena) \<Rightarrow> u64 \<Rightarrow> byte list \<Rightarrow> arena \<Rightarrow> (bool \<times> arena) option" where
  "arena_write commit batch_pages others addr data A =
     write_host_checked commit batch_pages others addr data True A"

section \<open>Alignment\<close>

lemma leading_zeros_bits:
  assumes "n < 64" "64 - leading_zeros w \<le> n"
  shows "\<not> bit w n"
proof -
  have "63 - n < leading_zeros w" using assms by simp
  then have "\<not> bit w (63 - (takeWhile (\<lambda>n. \<not> bit w (63 - n)) [0..<64] ! (63 - n)))"
    using set_takeWhileD nth_mem unfolding leading_zeros_def by fastforce
  moreover have "takeWhile (\<lambda>n. \<not> bit w (63 - n)) [0..<64] ! (63 - n) = 63 - n"
    using \<open>63 - n < leading_zeros w\<close> unfolding leading_zeros_def
    by (subst takeWhile_nth) (simp_all add: leading_zeros_def)
  ultimately show ?thesis using assms(1) by (simp add: Suc_diff_le le_less_Suc_eq)
qed

lemma leading_zeros_le: "leading_zeros w \<le> 64"
  using length_takeWhile_le [of "\<lambda>n. \<not> bit w (63 - n)" "[0..<64]"] by (simp add: leading_zeros_def)

lemma unat_less_of_bits:
  fixes w :: u64
  assumes "\<And>n. n < 64 \<Longrightarrow> k \<le> n \<Longrightarrow> \<not> bit w n"
  shows "unat w < 2 ^ k"
proof -
  have "take_bit k w = w"
  proof (rule bit_word_eqI)
    fix n assume "n < LENGTH(64)"
    then show "bit (take_bit k w) n \<longleftrightarrow> bit w n"
      using assms [of n] by (cases "k \<le> n") (auto simp: bit_take_bit_iff)
  qed
  then have "take_bit k (unat w) = unat w" by (metis unsigned_take_bit_eq)
  then show ?thesis by (metis take_bit_nat_less_exp)
qed

lemma is_power_of_two_exp: "k < 64 \<Longrightarrow> is_power_of_two (2 ^ k)"
proof -
  assume k: "k < 64"
  have "and (2 ^ k) (mask k) = (0 :: u64)"
    by (rule bit_word_eqI) (auto simp: bit_and_iff bit_mask_iff bit_exp_iff)
  then show ?thesis using k by (simp add: is_power_of_two_def mask_eq_decr_exp)
qed

lemma next_power_of_two_correct:
  assumes "1 < n" "n \<le> push_bit 62 1"
  shows "is_power_of_two (next_power_of_two n) \<and> n \<le> next_power_of_two n"
proof -
  define z where "z = leading_zeros (n - 1)"
  let ?k = "64 - z"
  have z: "z \<le> 64" unfolding z_def by (rule leading_zeros_le)
  have m1: "unat (n - 1) = unat n - 1" using assms(1) by (intro unat_minus_one) auto
  have lt: "unat (n - 1) < 2 ^ ?k"
    using leading_zeros_bits [of _ "n - 1"] unfolding z_def by (rule unat_less_of_bits)
  have n62: "unat n \<le> 2 ^ 62" using assms(2) by (simp add: word_le_nat_alt)
  have "z \<noteq> 0"
  proof
    assume "z = 0"
    then have "takeWhile (\<lambda>i. \<not> bit (n - 1) (63 - i)) [0..<64] = []"
      by (simp add: z_def leading_zeros_def)
    then have "bit (n - 1) 63" by (simp add: upt_conv_Cons split: if_splits)
    moreover have "\<not> bit (n - 1) 63"
    proof -
      have "unat (n - 1) < 2 ^ 63" using n62 m1 by simp
      then have "drop_bit 63 (unat (n - 1)) = 0" by (simp add: drop_bit_eq_div)
      then have "\<not> bit (drop_bit 63 (unat (n - 1))) 0" by simp
      then show ?thesis by (simp add: bit_drop_bit_eq bit_unsigned_iff)
    qed
    ultimately show False by simp
  qed
  then have k: "?k < 64" by simp
  have "drop_bit z U64_MAX = mask ?k"
    by (rule bit_word_eqI) (use z in \<open>auto simp: bit_drop_bit_eq bit_mask_iff u64_max_eq\<close>)
  then have np: "next_power_of_two n = 2 ^ ?k"
    using assms(1) by (simp add: next_power_of_two_def z_def [symmetric] mask_eq_decr_exp not_le)
  have "unat (2 ^ ?k :: u64) = 2 ^ ?k"
  proof -
    have "(2 :: nat) ^ ?k < 2 ^ 64" using k by (intro power_strict_increasing) simp_all
    then show ?thesis using unat_of_nat [of "2 ^ ?k", where 'a = 64] by simp
  qed
  then have "unat n \<le> unat (next_power_of_two n)" using lt m1 np by simp
  then show ?thesis using is_power_of_two_exp [OF k] np by (simp add: word_le_nat_alt)
qed

lemma normalize_align_correct:
  assumes "normalize_align al = Some al'"
  shows "is_power_of_two al' \<and> max al 16 \<le> al' \<and> (is_power_of_two (max al 16) \<longrightarrow> al' = max al 16)"
proof -
  have "1 < max al 16" by (simp add: less_max_iff_disj)
  then show ?thesis
    using assms next_power_of_two_correct [of "max al 16"]
    by (auto simp: normalize_align_def Let_def not_less split: if_splits)
qed

lemma arena_align_up_correct:
  assumes p: "is_power_of_two al" and u: "arena_align_up v al = Some r"
  shows "unat v \<le> unat r \<and> unat r mod unat al = 0 \<and> unat r < unat v + unat al"
proof -
  have al: "0 < unat al" using power_of_two_iff [OF p] by auto
  have m1: "unat (al - 1) = unat al - 1" using al by (intro unat_minus_one) (auto simp: unat_gt_0)
  have r: "r = mask_down al (v + (al - 1))" and "unat v + unat (al - 1) < 18446744073709551616"
    using u by (auto simp: arena_align_up_def checked_add_Some_iff)
  then have "unat v + unat al \<le> 18446744073709551616" using m1 al by linarith
  then show ?thesis using round_up_unat [OF p, of v] unfolding r by simp
qed

section \<open>What the walk decides\<close>

definition all_kinds :: "vma_map \<Rightarrow> (vma_type \<Rightarrow> bool) \<Rightarrow> nat \<Rightarrow> nat \<Rightarrow> bool" where
  "all_kinds m Q lo hi \<longleftrightarrow>
     (\<forall>a. lo \<le> unat a \<and> unat a < hi \<longrightarrow> (\<exists>k. kind_at m a = Some k \<and> Q k))"

lemma kind_at_outside:
  assumes "vm_wf m" "a < vm_min m \<or> vm_max m \<le> a"
  shows "kind_at m a = None"
  using assms view_outside [of "unat (vm_min m)" "unat (vm_max m)" "vm_map m" a]
  by (auto simp: vm_wf_def kind_at_def vm_at_def word_less_nat_alt word_le_nat_alt)

lemma kind_at_find:
  assumes "vm_wf m"
  shows "kind_at m a = map_option vma_kind (vm_find m a)"
proof (cases "vm_min m \<le> a \<and> a < vm_max m")
  case True
  then obtain P b v S where "vm_map m = P @ (b, v) # S" "covers v (unat a)" "vm_find m a = Some v"
    using find_tile [OF assms] by blast
  then show ?thesis using kind_at_tile [OF assms, of b v a] by simp
next
  case False
  then show ?thesis using kind_at_outside [OF assms, of a] by (auto simp: vm_find_def not_le not_less)
qed

lemma all_cursor_total:
  assumes wf: "vm_wf m"
  shows "all_cursor m (\<lambda>v. Q (vma_kind v)) lim cur = Some (all_kinds m Q (unat cur) (unat lim))"
proof (induction "unat lim - unat cur" arbitrary: cur rule: less_induct)
  case less
  show ?case
  proof (cases "lim \<le> cur")
    case True
    then show ?thesis
      by (subst all_cursor.simps) (auto simp: all_kinds_def word_le_nat_alt)
  next
    case False
    then have lt: "unat cur < unat lim" by (simp add: word_le_nat_alt)
    show ?thesis
    proof (cases "vm_find m cur")
      case None
      then have "\<not> all_kinds m Q (unat cur) (unat lim)"
        using lt kind_at_find [OF wf, of cur] by (auto simp: all_kinds_def intro!: exI [of _ cur])
      then show ?thesis using None False by (subst all_cursor.simps) simp
    next
      case (Some v)
      then have span: "vm_min m \<le> cur" "cur < vm_max m" by (auto simp: vm_find_def split: if_splits)
      obtain P b S where eq: "vm_map m = P @ (b, v) # S" and cov: "covers v (unat cur)"
        using find_tile [OF wf span] Some by auto
      have mem: "(b, v) \<in> set (vm_map m)" using eq by simp
      note t = tile_in_map [OF wf mem]
      have k: "kind_at m a = Some (vma_kind v)" if "covers v (unat a)" for a
        by (rule kind_at_tile [OF wf mem that])
      show ?thesis
      proof (cases "Q (vma_kind v)")
        case good: True
        have e: "unat cur < unat (vma_end v)" using cov t by (simp add: covers_def)
        have "all_cursor m (\<lambda>v. Q (vma_kind v)) lim (vma_end v)
            = Some (all_kinds m Q (unat (vma_end v)) (unat lim))"
          by (rule less) (use e lt in simp)
        moreover have "all_kinds m Q (unat cur) (unat lim) = all_kinds m Q (unat (vma_end v)) (unat lim)"
        proof -
          have "kind_at m a = Some (vma_kind v)" if "unat cur \<le> unat a" "unat a < unat (vma_end v)" for a
            using k [of a] that cov t by (simp add: covers_def)
          then show ?thesis
            unfolding all_kinds_def using e good by (meson le_less_trans less_imp_le not_le)
        qed
        ultimately show ?thesis using Some good False by (subst all_cursor.simps) simp
      next
        case bad: False
        then have "\<not> all_kinds m Q (unat cur) (unat lim)"
          using k [OF cov] lt by (auto simp: all_kinds_def intro!: exI [of _ cur])
        then show ?thesis using Some bad False by (subst all_cursor.simps) simp
      qed
    qed
  qed
qed

lemma range_all_exact:
  "vm_wf m \<Longrightarrow> range_all m start lim (\<lambda>v. Q (vma_kind v))
     = Some (start < lim \<and> all_kinds m Q (unat start) (unat lim))"
  using all_cursor_total [of m Q lim start] by (auto simp: range_all_def)

lemma range_is_committed_exact:
  assumes "vm_wf (as_vmm s)"
  shows "range_is_committed s start lim = Some
    (if lim = start then \<exists>k. kind_at (as_vmm s) start = Some k \<and> is_host_backed k
     else start < lim \<and> all_kinds (as_vmm s) is_host_backed (unat start) (unat lim))"
  using range_all_exact [OF assms, of start lim is_host_backed] kind_at_find [OF assms, of start]
  by (auto simp: range_is_committed_def split: option.splits)

section \<open>The invariant\<close>

text \<open>The map tiles the whole user address space canonically; the restriction
  records are separated and what may not be read may not be written; every heap allocation is a non-empty range of committed
  heap memory, and no two of them overlap.\<close>

definition heap_ok :: "vma_map \<Rightarrow> (u64 \<rightharpoonup> u64) \<Rightarrow> bool" where
  "heap_ok m h \<longleftrightarrow>
     (\<forall>a n. h a = Some n \<longrightarrow> 0 < n \<and> vm_min m \<le> a \<and> unat a + unat n \<le> unat (vm_max m) \<and>
        all_kinds m (\<lambda>k. k = Flexible) (unat a) (unat a + unat n)) \<and>
     (\<forall>a n b k. h a = Some n \<and> h b = Some k \<and> a \<noteq> b \<longrightarrow>
        unat a + unat n \<le> unat b \<or> unat b + unat k \<le> unat a)"

definition arena_inv :: "alloc_state \<Rightarrow> bool" where
  "arena_inv s \<longleftrightarrow> vm_inv (as_vmm s) \<and> vm_min (as_vmm s) = VMM_MIN \<and> vm_max (as_vmm s) = VMM_MAX
     \<and> separated (as_host_noaccess s) \<and> separated (as_host_nonwritable s)
     \<and> addresses (as_host_noaccess s) \<subseteq> addresses (as_host_nonwritable s)
     \<and> heap_ok (as_vmm s) (as_heap_sizes s)"

lemma arena_inv_wf [simp]: "arena_inv s \<Longrightarrow> vm_wf (as_vmm s)"
  by (simp add: arena_inv_def vm_inv_def)

lemma vmm_max_small: "arena_inv s \<Longrightarrow> vm_max (as_vmm s) < U64_MAX \<and> unat (vm_max (as_vmm s)) = 140737488355328"
  by (simp add: arena_inv_def)

text \<open>Free addresses carry no attributes.\<close>

lemma free_attrs_at:
  assumes "vm_inv m" "kind_at m a = Some Free"
  shows "vm_at m a = Some free_attrs"
proof -
  have wf: "vm_wf m" using assms(1) by (simp add: vm_inv_def)
  obtain v where f: "vm_find m a = Some v" and k: "vma_kind v = Free"
    using assms(2) kind_at_find [OF wf, of a] by auto
  then have span: "vm_min m \<le> a" "a < vm_max m" by (auto simp: vm_find_def split: if_splits)
  obtain P b S where eq: "vm_map m = P @ (b, v) # S" and cov: "covers v (unat a)"
    using find_tile [OF wf span] f by auto
  have "free_clean v" using assms(1) eq by (auto simp: vm_inv_def canon_def)
  then have "vma_attrs v a = free_attrs"
    using k by (simp add: free_clean_def vma_attrs_def free_attrs_def)
  moreover have "vm_at m a = Some (vma_attrs v a)"
    unfolding vm_at_def eq by (rule view_tile) (use wf eq cov in \<open>auto simp: vm_wf_def\<close>)
  ultimately show ?thesis by simp
qed

text \<open>Claiming a free range and releasing a claimed one, at the level of kinds.\<close>

lemma map_claim:
  assumes inv: "vm_inv m" and sz: "0 < sz" and lo: "vm_min m \<le> addr"
    and hi: "unat addr + unat sz \<le> unat (vm_max m)"
    and k: "is_free kind \<longrightarrow> prt = NO_ACCESS \<and> phys = None \<and> name = '''' \<and> \<not> dis"
  obtains m' where "map_range addr sz kind prt phys name dis m = Some m'" "vm_inv m'"
    "vm_min m' = vm_min m" "vm_max m' = vm_max m"
    "\<And>a. \<not> in_span addr sz a \<Longrightarrow> vm_at m' a = vm_at m a"
    "\<And>a. in_span addr sz a \<Longrightarrow> kind_at m' a = Some kind"
    "\<And>a. in_span addr sz a \<Longrightarrow> vm_at m' a = Some (kind, prt, map_option (\<lambda>p. p + (a - addr)) phys, name, dis)"
proof -
  have wf: "vm_wf m" using inv by (simp add: vm_inv_def)
  obtain m' where m': "map_range addr sz kind prt phys name dis m = Some m'" "vm_wf m'"
    "vm_min m' = vm_min m" "vm_max m' = vm_max m" "canon (vm_map m')"
    "\<And>a. vm_at m' a = (if in_span addr sz a
          then Some (kind, prt, map_option (\<lambda>p. p + (a - addr)) phys, name, dis)
          else vm_at m a)"
    using map_range_full [OF wf sz lo hi, of kind prt phys name dis] k inv by (auto simp: vm_inv_def)
  then show ?thesis
    by (intro that [of m']) (simp_all add: vm_inv_def kind_at_def)
qed

lemma all_kinds_frame:
  assumes "all_kinds m Q lo hi" "\<And>a. lo \<le> unat a \<Longrightarrow> unat a < hi \<Longrightarrow> vm_at m' a = vm_at m a"
  shows "all_kinds m' Q lo hi"
  using assms by (simp add: all_kinds_def kind_at_def)

text \<open>An allocation is disjoint from a range of another kind.\<close>

lemma heap_apart_free:
  assumes h: "heap_ok m h" "h a = Some n" and f: "all_free m lo hi" and lt: "lo < hi"
    and hi: "hi \<le> 18446744073709551616"
  shows "unat a + unat n \<le> lo \<or> hi \<le> unat a"
proof (rule ccontr)
  assume "\<not> (unat a + unat n \<le> lo \<or> hi \<le> unat a)"
  then have o: "lo < unat a + unat n" "unat a < hi" by auto
  have n: "0 < unat n" using h by (auto simp: heap_ok_def unat_pos)
  let ?x = "max (unat a) lo"
  have "?x < 18446744073709551616" using o lt hi by auto
  then have x: "unat (of_nat ?x :: u64) = ?x" by (simp add: unat_of_nat)
  have "kind_at m (of_nat ?x) = Some Flexible"
    using h o n x unfolding heap_ok_def all_kinds_def by (metis less_add_same_cancel1 max.cobounded1 max_less_iff_conj)
  moreover have "kind_at m (of_nat ?x) = Some Free"
    using f o lt x unfolding all_free_def by (metis max.cobounded2 max_less_iff_conj)
  ultimately show False by simp
qed

section \<open>Allocation\<close>

text \<open>Where a block may lie: the committed heap below its guard page, or the
  sparse tail of the reservation.\<close>

definition heap_place :: "u64 \<Rightarrow> u64 \<Rightarrow> u64 \<Rightarrow> bool" where
  "heap_place base a n \<longleftrightarrow>
     (base + HEAP_OFFSET \<le> a \<and> unat a + unat n \<le> unat (base + STACK_OFFSET - PAGE_SIZE)) \<or>
     (base + ARENA_SPAN \<le> a \<and> unat a + unat n \<le> unat (base + RESERVED_SPAN))"

text \<open>What a successful allocation took: a free, aligned, non-empty span.\<close>

definition took :: "u64 \<Rightarrow> u64 \<Rightarrow> u64 \<Rightarrow> u64 \<Rightarrow> vma_map \<Rightarrow> bool" where
  "took base al a n m \<longleftrightarrow> 0 < n \<and> vm_min m \<le> a \<and> unat a + unat n \<le> unat (vm_max m)
     \<and> unat a mod unat al = 0 \<and> all_free m (unat a) (unat a + unat n) \<and> heap_place base a n"

lemma search_free_fits:
  assumes "arena_inv s" "0 < sz" "search_free hint sz al (as_vmm s) = Some a"
  shows "fits (as_vmm s) hint sz (max al 1) a"
proof -
  have "vm_inv (as_vmm s)" "vm_max (as_vmm s) < U64_MAX" using assms(1) by (simp_all add: arena_inv_def)
  then have "least_fit (fits (as_vmm s) hint sz (max al 1)) (search_free hint sz al (as_vmm s))"
    using assms(2) by (rule search_free_is_least)
  then show ?thesis using assms(3) by (simp add: least_fit_def)
qed

lemma took_claim:
  assumes inv: "arena_inv s" and took: "took base al a n (as_vmm s)"
  obtains m where "map_range a n Flexible CPU_READ_WRITE None nm False (as_vmm s) = Some m"
    "vm_inv m" "vm_min m = vm_min (as_vmm s)" "vm_max m = vm_max (as_vmm s)"
    "\<And>x. \<not> in_span a n x \<Longrightarrow> vm_at m x = vm_at (as_vmm s) x"
    "\<And>x. in_span a n x \<Longrightarrow> kind_at m x = Some Flexible"
proof -
  have t: "0 < n" "vm_min (as_vmm s) \<le> a" "unat a + unat n \<le> unat (vm_max (as_vmm s))"
    using took by (auto simp: took_def)
  have vi: "vm_inv (as_vmm s)" using inv by (simp add: arena_inv_def)
  show ?thesis
    by (rule map_claim [OF vi t, of Flexible CPU_READ_WRITE None nm False]) (simp, rule that)
qed

lemma heap_region_fit_took:
  assumes inv: "arena_inv s" and sz: "0 < sz" and al: "1 \<le> al"
    and f: "heap_region_fit base sz al (as_vmm s) = Some a"
  shows "took base al a sz (as_vmm s)"
proof -
  obtain e where s: "search_free (base + HEAP_OFFSET) sz al (as_vmm s) = Some a"
    and e: "checked_add a sz = Some e" "e \<le> base + STACK_OFFSET - PAGE_SIZE"
    using f by (auto simp: heap_region_fit_def split: option.splits if_splits)
  have "max al 1 = al" using al by (simp add: max_def)
  then have "fits (as_vmm s) (base + HEAP_OFFSET) sz al a"
    using search_free_fits [OF inv sz s] by simp
  moreover have "unat a + unat sz \<le> unat (base + STACK_OFFSET - PAGE_SIZE)"
    using e(2) checked_add_unat [OF e(1)] by (simp add: word_le_nat_alt)
  moreover have "unat a mod unat al = 0" if "a mod al = 0"
    using arg_cong [OF that, of unat] by (simp add: unat_mod)
  ultimately show ?thesis
    using sz by (auto simp: took_def fits_def heap_place_def)
qed

lemma grow_into_tail_cases:
  assumes inv: "arena_inv s" and sz: "0 < sz" and al: "1 \<le> al"
  obtains "grow_into_tail commit base sz al name (mem, s) = Some (None, (mem, s))"
  | a n mem' m where "grow_into_tail commit base sz al name (mem, s)
        = Some (Some (a, n), (mem', s\<lparr>as_vmm := m\<rparr>))"
      "took base al a n (as_vmm s)" "unat sz \<le> unat n" "commit a n mem = Some mem'"
      "map_range a n Flexible CPU_READ_WRITE None name False (as_vmm s) = Some m"
proof (cases "grow_into_tail commit base sz al name (mem, s) = Some (None, (mem, s))")
  case False
  have page: "is_power_of_two PAGE_SIZE" by (simp add: is_power_of_two_def)
  obtain n where n: "arena_align_up sz PAGE_SIZE = Some n"
    using False by (auto simp: grow_into_tail_def split: option.splits)
  obtain a where a: "search_free (base + ARENA_SPAN) n al (as_vmm s) = Some a"
    using False n by (auto simp: grow_into_tail_def split: option.splits)
  obtain e where e: "checked_add a n = Some e" "e \<le> base + RESERVED_SPAN"
    using False n a by (auto simp: grow_into_tail_def not_less split: option.splits if_splits)
  obtain mem' where c: "commit a n mem = Some mem'"
    using False n a e by (auto simp: grow_into_tail_def not_less split: option.splits if_splits)
  have le: "unat sz \<le> unat n" using arena_align_up_correct [OF page n] by simp
  then have n0: "0 < n" using sz by (simp add: unat_pos)
  have "max al 1 = al" using al by (simp add: max_def)
  then have f: "fits (as_vmm s) (base + ARENA_SPAN) n al a"
    using search_free_fits [OF inv n0 a] by simp
  have "unat a + unat n \<le> unat (base + RESERVED_SPAN)"
    using e(2) checked_add_unat [OF e(1)] by (simp add: word_le_nat_alt)
  moreover have "unat a mod unat al = 0" if "a mod al = 0"
    using arg_cong [OF that, of unat] by (simp add: unat_mod)
  ultimately have took: "took base al a n (as_vmm s)"
    using f n0 by (auto simp: took_def fits_def heap_place_def)
  obtain m where m: "map_range a n Flexible CPU_READ_WRITE None name False (as_vmm s) = Some m"
    by (rule took_claim [OF inv took])
  show ?thesis
    by (rule that(2) [of a n mem' m])
      (use n a e c m took le in \<open>simp_all add: grow_into_tail_def not_less\<close>)
qed (rule that(1))

lemma arena_alloc_cases:
  assumes inv: "arena_inv s"
  obtains "arena_alloc commit base size0 al0 (mem, s) = Some (None, (mem, s))"
  | al a n mem' m where "arena_alloc commit base size0 al0 (mem, s)
        = Some (Some a, (mem', record_heap a n (s\<lparr>as_vmm := m\<rparr>)))"
      "normalize_align al0 = Some al" "took base al a n (as_vmm s)" "unat size0 \<le> unat n"
      "mem' = mem \<or> commit a n mem = Some mem'"
      "map_range a n Flexible CPU_READ_WRITE None ''heap'' False (as_vmm s) = Some m"
proof (cases "arena_alloc commit base size0 al0 (mem, s) = Some (None, (mem, s))")
  case False
  obtain al where al: "normalize_align al0 = Some al"
    using False by (auto simp: arena_alloc_def split: option.splits)
  obtain n where n: "arena_align_up (max size0 1) al = Some n"
    using False al by (auto simp: arena_alloc_def split: option.splits)
  note na = normalize_align_correct [OF al]
  have "16 \<le> al" using na by (meson max.cobounded2 order_trans)
  then have al1: "1 \<le> al" by (rule order_trans [rotated]) simp
  have le: "unat (max size0 1) \<le> unat n" using arena_align_up_correct [OF _ n] na by blast
  have n0: "0 < n" "unat size0 \<le> unat n"
    using le by (auto simp: max_def unat_pos word_le_nat_alt split: if_splits)
  show ?thesis
  proof (cases "heap_region_fit base n al (as_vmm s)")
    case (Some a)
    have took: "took base al a n (as_vmm s)" by (rule heap_region_fit_took [OF inv n0(1) al1 Some])
    obtain m where m: "map_range a n Flexible CPU_READ_WRITE None ''heap'' False (as_vmm s) = Some m"
      by (rule took_claim [OF inv took])
    show ?thesis
      by (rule that(2) [of a mem n m al]) (use al n Some m took n0 in \<open>simp_all add: arena_alloc_def\<close>)
  next
    case None
    have pal: "1 \<le> max al PAGE_SIZE" using al1 by (simp add: le_max_iff_disj)
    have unpage: "unat a mod unat al = 0" if "unat a mod unat (max al PAGE_SIZE) = 0" for a :: u64
    proof -
      have "unat al dvd unat (max al PAGE_SIZE)"
      proof (cases "al \<le> PAGE_SIZE")
        case True
        obtain i where i: "unat al = 2 ^ i" using power_of_two_iff na by blast
        have "2 ^ i \<le> (2 :: nat) ^ 12" using True i by (simp add: word_le_nat_alt)
        then have "i \<le> 12" by (rule power_le_imp_le_exp [rotated]) simp
        then have "2 ^ i dvd (2 :: nat) ^ 12" by (rule le_imp_power_dvd)
        then show ?thesis using True i by (simp add: max_def)
      qed (simp add: max_def)
      then show ?thesis using that by (meson dvd_imp_mod_0 dvd_trans mod_0_imp_dvd)
    qed
    show ?thesis
      using inv n0(1) pal
    proof (cases rule: grow_into_tail_cases [where commit = commit and base = base and name = "''heap''"
          and mem = mem])
      case 1
      then show ?thesis using that(1) al n None by (simp add: arena_alloc_def)
    next
      case (2 a k mem' m)
      then have "took base al a k (as_vmm s)" using unpage by (auto simp: took_def)
      then show ?thesis
        using that(2) [of a mem' k m al] al n None 2 n0 by (simp add: arena_alloc_def)
    qed
  qed
qed (rule that(1))

text \<open>Recording a freshly claimed block keeps the invariant.\<close>

lemma record_heap_inv:
  assumes inv: "arena_inv s" and took: "took base al a n (as_vmm s)"
    and m: "map_range a n Flexible CPU_READ_WRITE None nm False (as_vmm s) = Some m"
  shows "arena_inv (record_heap a n (s\<lparr>as_vmm := m\<rparr>)) \<and>
    (\<forall>x. \<not> in_span a n x \<longrightarrow> vm_at m x = vm_at (as_vmm s) x) \<and>
    (\<forall>x. in_span a n x \<longrightarrow> kind_at m x = Some Flexible)"
proof -
  let ?m = "as_vmm s" and ?h = "as_heap_sizes s"
  have t: "0 < n" "vm_min ?m \<le> a" "unat a + unat n \<le> unat (vm_max ?m)"
    "all_free ?m (unat a) (unat a + unat n)"
    using took by (auto simp: took_def)
  obtain m' where m': "map_range a n Flexible CPU_READ_WRITE None nm False ?m = Some m'"
    "vm_inv m'" "vm_min m' = vm_min ?m" "vm_max m' = vm_max ?m"
    "\<And>x. \<not> in_span a n x \<Longrightarrow> vm_at m' x = vm_at ?m x"
    "\<And>x. in_span a n x \<Longrightarrow> kind_at m' x = Some Flexible"
    by (rule took_claim [OF inv took, of nm]) (rule that)
  have eq: "m' = m" using m m'(1) by simp
  have hi: "unat a + unat n \<le> 18446744073709551616" using t(3) vmm_max_small [OF inv] by simp
  have old: "heap_ok ?m ?h" using inv by (simp add: arena_inv_def)
  have apart: "unat b + unat k \<le> unat a \<or> unat a + unat n \<le> unat b" if "?h b = Some k" for b k
    using heap_apart_free [OF old that t(4) _ hi] t(1) by (simp add: unat_pos)
  have "heap_ok m (?h(a \<mapsto> n))"
    unfolding heap_ok_def
  proof (intro conjI allI impI)
    fix b k assume b: "(?h(a \<mapsto> n)) b = Some k"
    show "0 < k" "vm_min m \<le> b" "unat b + unat k \<le> unat (vm_max m)"
      using b t old m'(3,4) eq by (auto simp: heap_ok_def split: if_splits)
    show "all_kinds m (\<lambda>k. k = Flexible) (unat b) (unat b + unat k)"
    proof (cases "b = a")
      case True
      then show ?thesis using b m'(6) eq by (auto simp: all_kinds_def in_span_def)
    next
      case False
      then have k: "?h b = Some k" using b by simp
      then have "all_kinds ?m (\<lambda>k. k = Flexible) (unat b) (unat b + unat k)"
        using old by (simp add: heap_ok_def)
      then show ?thesis
        by (rule all_kinds_frame) (use apart [OF k] m'(5) eq in \<open>auto simp: in_span_def\<close>)
    qed
  next
    fix b k c j assume "(?h(a \<mapsto> n)) b = Some k \<and> (?h(a \<mapsto> n)) c = Some j \<and> b \<noteq> c"
    then show "unat b + unat k \<le> unat c \<or> unat c + unat j \<le> unat b"
      using old apart by (fastforce simp: heap_ok_def split: if_splits)
  qed
  then show ?thesis
    using inv m' eq by (auto simp: arena_inv_def record_heap_def)
qed

section \<open>Release\<close>

text \<open>Releasing pages only touches the restriction records, and only shrinks
  them.\<close>

definition records_only :: "alloc_state \<Rightarrow> alloc_state \<Rightarrow> bool" where
  "records_only s t \<longleftrightarrow> as_vmm t = as_vmm s \<and> as_heap_sizes t = as_heap_sizes s
     \<and> as_os_reservations t = as_os_reservations s
     \<and> as_external_mappings t = as_external_mappings s
     \<and> (separated (as_host_noaccess s) \<and> separated (as_host_nonwritable s) \<longrightarrow>
          separated (as_host_noaccess t) \<and> separated (as_host_nonwritable t)
          \<and> addresses (as_host_noaccess t) \<subseteq> addresses (as_host_noaccess s)
          \<and> addresses (as_host_nonwritable t) \<subseteq> addresses (as_host_nonwritable s)
          \<and> (addresses (as_host_noaccess s) \<subseteq> addresses (as_host_nonwritable s) \<longrightarrow>
               addresses (as_host_noaccess t) \<subseteq> addresses (as_host_nonwritable t)))"

lemma records_only_refl [simp]: "records_only s s"
  by (simp add: records_only_def)

lemma records_only_trans: "records_only s t \<Longrightarrow> records_only t u \<Longrightarrow> records_only s u"
  unfolding records_only_def by (metis subset_trans)

lemma clear_records_only: "records_only s (clear_host_restriction a b s)"
  using interval_remove_correct by (auto simp: records_only_def clear_host_restriction_def)

lemma restore_pages_total:
  assumes "unat e \<le> 140737488355328"
  shows "\<exists>t. restore_pages base c e s = Some t \<and> records_only s t"
proof (induction "unat e - unat c" arbitrary: c s rule: less_induct)
  case less
  show ?case
  proof (cases "e \<le> c")
    case True
    then show ?thesis by (subst restore_pages.simps) simp
  next
    case False
    then have lt: "unat c < unat e" by (simp add: word_le_nat_alt)
    then have "unat (c + PAGE_SIZE) = unat c + 4096"
      using assms by (subst unat_add_no_wrap) simp_all
    then have dec: "unat e - unat (c + PAGE_SIZE) < unat e - unat c" using lt by simp
    let ?s = "if c \<noteq> base + IMAGE_SIZE - PAGE_SIZE \<and> c \<noteq> base + STACK_OFFSET - PAGE_SIZE
      then clear_host_restriction c (c + PAGE_SIZE) s else s"
    obtain t where t: "restore_pages base (c + PAGE_SIZE) e ?s = Some t" "records_only ?s t"
      using less [OF dec] by blast
    have "records_only s ?s" by (simp add: clear_records_only)
    then have "records_only s t" using t(2) by (rule records_only_trans)
    moreover have "restore_pages base c e s = Some t"
      using False t(1) by (subst restore_pages.simps) (simp only: if_False)
    ultimately show ?thesis by blast
  qed
qed

lemma restore_overlaps_total:
  assumes "\<forall>(a, b)\<in>set ivs. unat b \<le> 140737488355328"
  shows "\<exists>t. restore_overlaps base ivs s = Some t \<and> records_only s t"
  using assms
proof (induction ivs arbitrary: s)
  case (Cons iv ivs)
  obtain a b where iv: "iv = (a, b)" by (cases iv)
  obtain t where t: "restore_pages base a b s = Some t" "records_only s t"
    using restore_pages_total [of b base a s] Cons.prems iv by auto
  obtain u where "restore_overlaps base ivs t = Some u" "records_only t u"
    using Cons.IH [of t] Cons.prems by auto
  then show ?case
    using t iv records_only_trans [OF t(2)] by simp
qed simp

lemma restore_rw_total:
  assumes "unat lim \<le> 140737488355328"
  shows "\<exists>t. restore_rw_on_release base start lim s = Some t \<and> records_only s t"
proof -
  have "\<forall>(a, b)\<in>set (restricted_overlaps start lim ivs). unat b \<le> 140737488355328" for ivs
    using assms by (auto simp: restricted_overlaps_def min_def word_le_nat_alt)
  then show ?thesis
    using restore_overlaps_total by (auto simp: restore_rw_on_release_def)
qed

text \<open>Dropping an allocation from the table and releasing its range.\<close>

lemma release_range:
  assumes inv: "arena_inv s" and sz: "0 < n" and lo: "vm_min (as_vmm s) \<le> a"
    and hi: "unat a + unat n \<le> unat (vm_max (as_vmm s))"
    and apart: "\<And>b k. h b = Some k \<Longrightarrow> as_heap_sizes s b = Some k \<and>
        (unat b + unat k \<le> unat a \<or> unat a + unat n \<le> unat b)"
  shows "\<exists>t m. restore_rw_on_release base a (a + n) (s\<lparr>as_heap_sizes := h\<rparr>) = Some t \<and>
    unmap_range a n (as_vmm t) = Some m \<and> arena_inv (t\<lparr>as_vmm := m\<rparr>) \<and>
    records_only (s\<lparr>as_heap_sizes := h\<rparr>) t \<and>
    (\<forall>x. vm_at m x = (if in_span a n x then Some free_attrs else vm_at (as_vmm s) x))"
proof -
  have e: "unat (a + n) = unat a + unat n"
    using hi vmm_max_small [OF inv] by (intro unat_add_no_wrap) simp
  then have le: "unat (a + n) \<le> 140737488355328" using hi vmm_max_small [OF inv] by simp
  obtain t where t: "restore_rw_on_release base a (a + n) (s\<lparr>as_heap_sizes := h\<rparr>) = Some t"
    "records_only (s\<lparr>as_heap_sizes := h\<rparr>) t"
    using restore_rw_total [OF le] by blast
  have vt: "as_vmm t = as_vmm s" "as_heap_sizes t = h" using t(2) by (simp_all add: records_only_def)
  have vi: "vm_inv (as_vmm s)" using inv by (simp add: arena_inv_def)
  have wf: "vm_wf (as_vmm s)" using inv by simp
  obtain m where m: "map_range a n Free NO_ACCESS None '''' False (as_vmm s) = Some m" "vm_inv m"
    "vm_min m = vm_min (as_vmm s)" "vm_max m = vm_max (as_vmm s)"
    and at: "\<And>x. vm_at m x = (if in_span a n x then Some free_attrs else vm_at (as_vmm s) x)"
    using map_range_full [OF wf sz lo hi, of Free NO_ACCESS None "''''" False] vi
    by (auto simp: vm_inv_def free_attrs_def)
  have old: "heap_ok (as_vmm s) (as_heap_sizes s)" using inv by (simp add: arena_inv_def)
  have "heap_ok m h"
    unfolding heap_ok_def
  proof (intro conjI allI impI)
    fix b k assume b: "h b = Some k"
    note ap = apart [OF b]
    show "0 < k" "vm_min m \<le> b" "unat b + unat k \<le> unat (vm_max m)"
      using ap old m(3,4) by (auto simp: heap_ok_def)
    have "all_kinds (as_vmm s) (\<lambda>k. k = Flexible) (unat b) (unat b + unat k)"
      using ap old by (simp add: heap_ok_def)
    then show "all_kinds m (\<lambda>k. k = Flexible) (unat b) (unat b + unat k)"
      by (rule all_kinds_frame) (use ap at in \<open>auto simp: in_span_def\<close>)
  next
    fix b k c j assume "h b = Some k \<and> h c = Some j \<and> b \<noteq> c"
    then show "unat b + unat k \<le> unat c \<or> unat c + unat j \<le> unat b"
      using apart [of b k] apart [of c j] old by (auto simp: heap_ok_def)
  qed
  then have "arena_inv (t\<lparr>as_vmm := m\<rparr>)"
    using inv m(2-4) vt t(2) by (auto simp: arena_inv_def records_only_def)
  then show ?thesis
    using t m(1) vt at by (auto simp: unmap_range_def)
qed

lemma arena_free_cases:
  assumes inv: "arena_inv s"
  shows "case as_heap_sizes s a of
      None \<Rightarrow> arena_free base a (mem, s) = Some (mem, s)
    | Some n \<Rightarrow> \<exists>s'. arena_free base a (mem, s) = Some (mem, s') \<and> arena_inv s' \<and>
        as_heap_sizes s' = (as_heap_sizes s)(a := None) \<and>
        (\<forall>x. vm_at (as_vmm s') x = (if in_span a n x then Some free_attrs else vm_at (as_vmm s) x))"
proof (cases "as_heap_sizes s a")
  case None
  then show ?thesis by (simp add: arena_free_def)
next
  case (Some n)
  have old: "heap_ok (as_vmm s) (as_heap_sizes s)" using inv by (simp add: arena_inv_def)
  then have n: "0 < n" "vm_min (as_vmm s) \<le> a" "unat a + unat n \<le> unat (vm_max (as_vmm s))"
    using Some by (auto simp: heap_ok_def)
  have e: "checked_add a n = Some (a + n)"
    using n(3) vmm_max_small [OF inv] by (simp add: checked_add_Some_iff)
  obtain t m where t: "restore_rw_on_release base a (a + n)
        (s\<lparr>as_heap_sizes := (as_heap_sizes s)(a := None)\<rparr>) = Some t"
    "unmap_range a n (as_vmm t) = Some m" "arena_inv (t\<lparr>as_vmm := m\<rparr>)"
    "records_only (s\<lparr>as_heap_sizes := (as_heap_sizes s)(a := None)\<rparr>) t"
    "\<forall>x. vm_at m x = (if in_span a n x then Some free_attrs else vm_at (as_vmm s) x)"
    using release_range [OF inv n, of "(as_heap_sizes s)(a := None)"] old Some
    by (fastforce simp: heap_ok_def split: if_splits)
  then show ?thesis
    using Some e by (auto simp: arena_free_def records_only_def intro!: exI [of _ "t\<lparr>as_vmm := m\<rparr>"])
qed

end
