(* ===== verification/Arena_Heap.thy ===== *)
theory Arena_Heap
  imports Guest_Arena
begin

text \<open>
  The correctness of the arena's heap calls: the fresh arena satisfies the
  invariant, \<open>alloc\<close>, \<open>free\<close>, \<open>realloc\<close> and the round trip of allocation and
  release.
\<close>

section \<open>The initial state\<close>

text \<open>The map of the fresh arena, from left to right.\<close>

definition fresh_kind :: "u64 \<Rightarrow> vma_type option" where
  "fresh_kind a =
     (if a < VMM_MIN \<or> VMM_MAX \<le> a then None
      else if in_span GUEST_ARENA_BASE IMAGE_SIZE a then Some Code
      else if in_span (GUEST_ARENA_BASE + STACK_OFFSET) STACK_SIZE a then Some Stack
      else if in_span GUEST_ARENA_BASE RESERVED_SPAN a then Some Free
      else Some Foreign)"

lemma alloc_state_new_inv:
  "\<exists>s. alloc_state_new GUEST_ARENA_BASE = Some s \<and> arena_inv s \<and>
     as_heap_sizes s = Map.empty \<and> as_host_noaccess s = [] \<and> as_host_nonwritable s = [] \<and>
     (\<forall>a. kind_at (as_vmm s) a = fresh_kind a)"
proof -
  obtain m0 where m0: "vm_new VMM_MIN VMM_MAX = Some m0" by (simp add: vm_new_def)
  note n = new_inv [OF m0]
  obtain m1 where m1: "map_range VMM_MIN (GUEST_ARENA_BASE - VMM_MIN) Foreign NO_ACCESS None
      ''host'' False m0 = Some m1" "vm_inv m1" "vm_min m1 = VMM_MIN" "vm_max m1 = VMM_MAX"
    "\<And>a. \<not> in_span VMM_MIN (GUEST_ARENA_BASE - VMM_MIN) a \<Longrightarrow> vm_at m1 a = vm_at m0 a"
    "\<And>a. in_span VMM_MIN (GUEST_ARENA_BASE - VMM_MIN) a \<Longrightarrow> kind_at m1 a = Some Foreign"
    by (rule map_claim [OF n(1), of "GUEST_ARENA_BASE - VMM_MIN" VMM_MIN Foreign NO_ACCESS None
          "''host''" False]) (simp_all add: n(2,3))
  let ?hi = "GUEST_ARENA_BASE + RESERVED_SPAN"
  obtain m2 where m2: "map_range ?hi (VMM_MAX - ?hi) Foreign NO_ACCESS None ''host'' False m1 = Some m2"
    "vm_inv m2" "vm_min m2 = VMM_MIN" "vm_max m2 = VMM_MAX"
    "\<And>a. \<not> in_span ?hi (VMM_MAX - ?hi) a \<Longrightarrow> vm_at m2 a = vm_at m1 a"
    "\<And>a. in_span ?hi (VMM_MAX - ?hi) a \<Longrightarrow> kind_at m2 a = Some Foreign"
    by (rule map_claim [OF m1(2), of "VMM_MAX - ?hi" ?hi Foreign NO_ACCESS None "''host''" False])
      (simp_all add: m1(3,4))
  obtain m3 where m3: "map_range (GUEST_ARENA_BASE + IMAGE_OFFSET) IMAGE_SIZE Code
      (or CPU_READ_WRITE CPU_EXEC) None ''image'' True m2 = Some m3" "vm_inv m3"
    "vm_min m3 = VMM_MIN" "vm_max m3 = VMM_MAX"
    "\<And>a. \<not> in_span (GUEST_ARENA_BASE + IMAGE_OFFSET) IMAGE_SIZE a \<Longrightarrow> vm_at m3 a = vm_at m2 a"
    "\<And>a. in_span (GUEST_ARENA_BASE + IMAGE_OFFSET) IMAGE_SIZE a \<Longrightarrow> kind_at m3 a = Some Code"
    by (rule map_claim [OF m2(2), of IMAGE_SIZE "GUEST_ARENA_BASE + IMAGE_OFFSET" Code
          "or CPU_READ_WRITE CPU_EXEC" None "''image''" True]) (simp_all add: m2(3,4))
  obtain m4 where m4: "map_range (GUEST_ARENA_BASE + STACK_OFFSET) STACK_SIZE Stack CPU_READ_WRITE
      None ''stack'' True m3 = Some m4" "vm_inv m4" "vm_min m4 = VMM_MIN" "vm_max m4 = VMM_MAX"
    "\<And>a. \<not> in_span (GUEST_ARENA_BASE + STACK_OFFSET) STACK_SIZE a \<Longrightarrow> vm_at m4 a = vm_at m3 a"
    "\<And>a. in_span (GUEST_ARENA_BASE + STACK_OFFSET) STACK_SIZE a \<Longrightarrow> kind_at m4 a = Some Stack"
    by (rule map_claim [OF m3(2), of STACK_SIZE "GUEST_ARENA_BASE + STACK_OFFSET" Stack
          CPU_READ_WRITE None "''stack''" True]) (simp_all add: m3(3,4))
  have hi: "unat ?hi = 19791209299968" "unat (VMM_MAX - ?hi) = 120946279055360" by simp_all
  have "kind_at m4 a = fresh_kind a" for a
  proof (cases "in_span (GUEST_ARENA_BASE + STACK_OFFSET) STACK_SIZE a")
    case True
    then show ?thesis
      using m4(6) by (auto simp: fresh_kind_def in_span_def word_less_nat_alt word_le_nat_alt)
  next
    case stack: False
    show ?thesis
    proof (cases "in_span GUEST_ARENA_BASE IMAGE_SIZE a")
      case True
      then show ?thesis
        using stack m4(5) m3(6) [of a]
        by (auto simp: kind_at_def fresh_kind_def in_span_def word_less_nat_alt word_le_nat_alt)
    next
      case image: False
      have "kind_at m4 a = kind_at m2 a"
        using m4(5) [OF stack] m3(5) [of a] image by (simp add: kind_at_def)
      moreover have "kind_at m2 a = (if in_span ?hi (VMM_MAX - ?hi) a \<or>
          in_span VMM_MIN (GUEST_ARENA_BASE - VMM_MIN) a then Some Foreign
          else map_option fst (vm_at m0 a))"
        using m2(5,6) [of a] m1(5,6) [of a] by (cases "in_span ?hi (VMM_MAX - ?hi) a";
            cases "in_span VMM_MIN (GUEST_ARENA_BASE - VMM_MIN) a") (simp_all add: kind_at_def)
      ultimately show ?thesis
        using stack image n(4) [of a]
        by (auto simp: fresh_kind_def in_span_def free_attrs_def word_less_nat_alt word_le_nat_alt)
    qed
  qed
  moreover have "alloc_state_new GUEST_ARENA_BASE = Some \<lparr>as_vmm = m4, as_heap_sizes = Map.empty,
      as_os_reservations = [], as_external_mappings = Map.empty, as_window_commits = [], as_host_noaccess = [],
      as_host_nonwritable = []\<rparr>"
    using m0 m1(1) m2(1) m3(1) m4(1) by (simp add: alloc_state_new_def)
  ultimately show ?thesis
    using m4(2-4) by (simp add: arena_inv_def heap_ok_def)
qed


section \<open>Allocation\<close>

lemma heap_disjoint_key:
  assumes inv: "arena_inv s" and took: "took base al a n (as_vmm s)"
  shows "as_heap_sizes s a = None"
proof (rule ccontr)
  assume "as_heap_sizes s a \<noteq> None"
  then obtain k where k: "as_heap_sizes s a = Some k" by auto
  have h: "heap_ok (as_vmm s) (as_heap_sizes s)" using inv by (simp add: arena_inv_def)
  have t: "all_free (as_vmm s) (unat a) (unat a + unat n)" "0 < unat n"
    "unat a + unat n \<le> 18446744073709551616"
    using took vmm_max_small [OF inv] by (auto simp: took_def unat_pos)
  have "0 < unat k" using h k by (auto simp: heap_ok_def unat_pos)
  then show False using heap_apart_free [OF h k t(1) _ t(3)] t(2) by simp
qed

lemma arena_alloc_fits:
  assumes "arena_inv s" and "normalize_align al0 = Some al"
    and "arena_align_up (max size0 1) al = Some n"
    and "fits (as_vmm s) (base + HEAP_OFFSET) n al c"
    and "unat c + unat n \<le> unat (base + STACK_OFFSET - PAGE_SIZE)"
  shows "\<exists>a A. arena_alloc commit base size0 al0 (mem, s) = Some (Some a, A) \<and> fst A = mem \<and>
    a \<le> c \<and> fits (as_vmm s) (base + HEAP_OFFSET) n al a \<and>
    (\<forall>b. fits (as_vmm s) (base + HEAP_OFFSET) n al b \<longrightarrow> a \<le> b)"
proof -
  let ?h = "base + HEAP_OFFSET"
  note na = normalize_align_correct [OF assms(2)]
  have "16 \<le> al" using na by (meson max.cobounded2 order_trans)
  then have al1: "1 \<le> al" by (rule order_trans [rotated]) simp
  then have mx: "max al 1 = al" by (simp add: max_def)
  have "unat (max size0 1) \<le> unat n" using arena_align_up_correct [OF _ assms(3)] na by blast
  then have n0: "0 < n" by (auto simp: max_def unat_pos word_le_nat_alt split: if_splits)
  have "vm_inv (as_vmm s)" "vm_max (as_vmm s) < U64_MAX" using assms(1) by (simp_all add: arena_inv_def)
  then have "least_fit (fits (as_vmm s) ?h n al) (search_free ?h n al (as_vmm s))"
    using search_free_is_least [of "as_vmm s" n ?h al] n0 mx by simp
  then obtain a where a: "search_free ?h n al (as_vmm s) = Some a" "fits (as_vmm s) ?h n al a"
    "\<forall>b. fits (as_vmm s) ?h n al b \<longrightarrow> a \<le> b"
    using assms(4) by (auto simp: least_fit_def split: option.splits)
  have le: "a \<le> c" using a(3) assms(4) by blast
  then have room: "unat a + unat n \<le> unat (base + STACK_OFFSET - PAGE_SIZE)"
    using assms(5) by (simp add: word_le_nat_alt)
  have "unat (base + STACK_OFFSET - PAGE_SIZE) < 18446744073709551616"
    by (rule unat_u64_lt)
  then have "checked_add a n = Some (a + n)" using room by (simp add: checked_add_Some_iff)
  moreover have "a + n \<le> base + STACK_OFFSET - PAGE_SIZE"
    using checked_add_unat [OF calculation] room by (simp add: word_le_nat_alt)
  ultimately have fit: "heap_region_fit base n al (as_vmm s) = Some a"
    using a(1) by (simp add: heap_region_fit_def)
  obtain m where "map_range a n Flexible CPU_READ_WRITE None ''heap'' False (as_vmm s) = Some m"
    by (rule took_claim [OF assms(1) heap_region_fit_took [OF assms(1) n0 al1 fit]])
  then show ?thesis
    using assms(2,3) fit a le by (auto simp: arena_alloc_def)
qed

text \<open>The first request on a fresh arena is granted at the start of the heap.\<close>

definition commit_all :: os_commit where
  "commit_all = (\<lambda>a n mem. Some mem)"

lemma fresh_fits:
  assumes "\<And>a. kind_at (as_vmm s) a = fresh_kind a" and "arena_inv s" and "unat n \<le> 4096"
  shows "fits (as_vmm s) (GUEST_ARENA_BASE + HEAP_OFFSET) n 16 (GUEST_ARENA_BASE + HEAP_OFFSET)"
  using assms
  by (auto simp: fits_def all_free_def fresh_kind_def in_span_def arena_inv_def
      word_le_nat_alt word_less_nat_alt)

lemma fresh_alloc:
  obtains s a A where "alloc_state_new GUEST_ARENA_BASE = Some s" "arena_inv s"
    "arena_alloc commit GUEST_ARENA_BASE 100 16 (mem, s) = Some (Some a, A)" "fst A = mem"
    "fits (as_vmm s) (GUEST_ARENA_BASE + HEAP_OFFSET) 112 16 (GUEST_ARENA_BASE + HEAP_OFFSET)"
    "a = GUEST_ARENA_BASE + HEAP_OFFSET"
proof -
  obtain s where s: "alloc_state_new GUEST_ARENA_BASE = Some s" "arena_inv s"
    "\<And>a. kind_at (as_vmm s) a = fresh_kind a"
    using alloc_state_new_inv by blast
  have n: "normalize_align 16 = Some 16" "arena_align_up (max 100 1) 16 = Some 112"
    by code_simp+
  let ?c = "GUEST_ARENA_BASE + HEAP_OFFSET"
  have f: "fits (as_vmm s) ?c 112 16 ?c" by (rule fresh_fits [OF s(3,2)]) simp
  have "unat ?c + unat (112 :: u64) \<le> unat (GUEST_ARENA_BASE + STACK_OFFSET - PAGE_SIZE)" by simp
  then obtain a A where "arena_alloc commit GUEST_ARENA_BASE 100 16 (mem, s) = Some (Some a, A)"
    "fst A = mem" "a \<le> ?c" "fits (as_vmm s) ?c 112 16 a"
    using arena_alloc_fits [OF s(2) n f, of commit mem] by blast
  then show ?thesis by (intro that [OF s(1,2) _ _ f]) (auto simp: fits_def)
qed

lemma one_block:
  obtains s where "arena_inv s" "as_heap_sizes s (GUEST_ARENA_BASE + HEAP_OFFSET) \<noteq> None"
proof -
  let ?a = "GUEST_ARENA_BASE + HEAP_OFFSET"
  obtain s a A where s: "arena_inv s" "a = ?a"
    "arena_alloc commit_all GUEST_ARENA_BASE 100 16 (\<lambda>_. 0, s) = Some (Some a, A)"
    by (rule fresh_alloc [where commit = commit_all and mem = "\<lambda>_. 0"]) (rule that)
  show ?thesis
    using s(1)
  proof (cases rule: arena_alloc_cases [where commit = commit_all and base = GUEST_ARENA_BASE
        and ?size0.0 = 100 and ?al0.0 = 16 and mem = "\<lambda>_. 0"])
    case (2 al b n mem' m)
    then have "arena_inv (record_heap b n (s\<lparr>as_vmm := m\<rparr>))" "b = ?a"
      using record_heap_inv [OF s(1) 2(3,6)] s(2,3) by auto
    then show ?thesis by (intro that) (auto simp: record_heap_def)
  qed (use s in simp)
qed

text \<open>C23: On every state that satisfies the invariant, the arena's \<open>alloc\<close> does
  not panic; a refused request changes nothing; a granted one returns a block at
  least as large as asked, aligned to the normalized alignment, that was wholly
  free before, lies in the heap below its guard page or in the sparse tail,
  overlaps no recorded block, and leaves every other address as it was; the
  invariant is kept.\<close>

theorem arena_alloc_sound:
  assumes "arena_inv s"
  shows "case arena_alloc commit base size0 al0 (mem, s) of
      None \<Rightarrow> False
    | Some (None, A) \<Rightarrow> A = (mem, s)
    | Some (Some a, mem', s') \<Rightarrow> arena_inv s' \<and>
        (\<exists>n al. normalize_align al0 = Some al \<and> unat size0 \<le> unat n \<and>
           took base al a n (as_vmm s) \<and> as_heap_sizes s a = None \<and>
           as_heap_sizes s' = (as_heap_sizes s)(a \<mapsto> n) \<and>
           (\<forall>x. \<not> in_span a n x \<longrightarrow> vm_at (as_vmm s') x = vm_at (as_vmm s) x) \<and>
           (\<forall>x. in_span a n x \<longrightarrow> kind_at (as_vmm s') x = Some Flexible))"
  using assms
proof (cases rule: arena_alloc_cases [where commit = commit and base = base and ?size0.0 = size0
      and ?al0.0 = al0 and mem = mem])
  case (2 al a n mem' m)
  note r = record_heap_inv [OF assms 2(3,6)] and d = heap_disjoint_key [OF assms 2(3)]
  then show ?thesis
    using 2 by (auto simp: record_heap_def intro!: exI [of _ n])
qed simp

theorem arena_alloc_sound_witness:
  "\<exists>s a A. alloc_state_new GUEST_ARENA_BASE = Some s \<and>
     arena_alloc commit_all GUEST_ARENA_BASE 100 16 (\<lambda>_. 0, s) = Some (Some a, A) \<and>
     a = GUEST_ARENA_BASE + HEAP_OFFSET \<and> arena_inv (snd A) \<and> as_heap_sizes (snd A) a \<noteq> None"
proof -
  obtain s a A where s: "alloc_state_new GUEST_ARENA_BASE = Some s" "arena_inv s"
    "arena_alloc commit_all GUEST_ARENA_BASE 100 16 (\<lambda>_. 0, s) = Some (Some a, A)"
    "a = GUEST_ARENA_BASE + HEAP_OFFSET"
    by (rule fresh_alloc)
  then show ?thesis
    using arena_alloc_sound [OF s(2), where commit = commit_all and base = GUEST_ARENA_BASE
        and ?size0.0 = 100 and ?al0.0 = 16 and mem = "\<lambda>_. 0"]
    by (cases A) (auto intro!: exI [of _ A])
qed

text \<open>The arena's \<open>alloc\<close> uses the heap while it can: when some aligned
  address at or above the heap's start has room for the rounded request below
  the guard page, the request is granted there, at the least such address.\<close>

theorem arena_alloc_heap_first:
  assumes "arena_inv s" and "normalize_align al0 = Some al"
    and "arena_align_up (max size0 1) al = Some n"
    and "fits (as_vmm s) (base + HEAP_OFFSET) n al c"
    and "unat c + unat n \<le> unat (base + STACK_OFFSET - PAGE_SIZE)"
  shows "\<exists>a A. arena_alloc commit base size0 al0 (mem, s) = Some (Some a, A) \<and> fst A = mem \<and>
    a \<le> c \<and> fits (as_vmm s) (base + HEAP_OFFSET) n al a \<and>
    (\<forall>b. fits (as_vmm s) (base + HEAP_OFFSET) n al b \<longrightarrow> a \<le> b)"
  by (rule arena_alloc_fits [OF assms])

theorem arena_alloc_heap_first_witness:
  "\<exists>s a A. alloc_state_new GUEST_ARENA_BASE = Some s \<and>
     arena_alloc commit_all GUEST_ARENA_BASE 100 16 (\<lambda>_. 0, s) = Some (Some a, A) \<and>
     a \<le> GUEST_ARENA_BASE + HEAP_OFFSET"
proof -
  obtain s where s: "alloc_state_new GUEST_ARENA_BASE = Some s" "arena_inv s"
    "fits (as_vmm s) (GUEST_ARENA_BASE + HEAP_OFFSET) 112 16 (GUEST_ARENA_BASE + HEAP_OFFSET)"
    by (rule fresh_alloc [where commit = commit_all and mem = "\<lambda>_. 0"]) (rule that)
  have n: "normalize_align 16 = Some 16" "arena_align_up (max 100 1) 16 = Some 112"
    by code_simp+
  show ?thesis
    using arena_alloc_heap_first [OF s(2) n s(3), where commit = commit_all and mem = "\<lambda>_. 0"] s(1) by auto
qed

section \<open>Release\<close>

text \<open>On every state that satisfies the invariant, the arena's \<open>free\<close> does
  not panic and keeps the invariant: an address that is not the start of a
  recorded block changes nothing, and a block's start gives back exactly its
  recorded range, leaves the table of the other blocks and every other address
  as it was.\<close>

theorem arena_free_sound:
  assumes "arena_inv s"
  shows "case as_heap_sizes s a of
      None \<Rightarrow> arena_free base a (mem, s) = Some (mem, s)
    | Some n \<Rightarrow> (case arena_free base a (mem, s) of None \<Rightarrow> False
        | Some (mem', s') \<Rightarrow> mem' = mem \<and> arena_inv s' \<and>
            as_heap_sizes s' = (as_heap_sizes s)(a := None) \<and>
            (\<forall>x. vm_at (as_vmm s') x =
              (if in_span a n x then Some free_attrs else vm_at (as_vmm s) x)))"
  using arena_free_cases [OF assms, where a = a and base = base and mem = mem]
  by (cases "as_heap_sizes s a") auto

theorem arena_free_sound_witness:
  "\<exists>s s2. arena_inv s \<and> as_heap_sizes s (GUEST_ARENA_BASE + HEAP_OFFSET) \<noteq> None \<and>
     arena_free GUEST_ARENA_BASE (GUEST_ARENA_BASE + HEAP_OFFSET) (\<lambda>_. 0, s) = Some (\<lambda>_. 0, s2) \<and>
     arena_inv s2 \<and> as_heap_sizes s2 (GUEST_ARENA_BASE + HEAP_OFFSET) = None"
proof -
  let ?a = "GUEST_ARENA_BASE + HEAP_OFFSET"
  obtain s where s: "arena_inv s" "as_heap_sizes s ?a \<noteq> None" by (rule one_block)
  then show ?thesis
    using arena_free_sound [OF s(1), where a = ?a and base = GUEST_ARENA_BASE and mem = "\<lambda>_. 0"]
    by (auto split: option.splits prod.splits)
qed

text \<open>C24: Freeing a block right after its allocation restores the arena: the
  table of blocks and the kind, protection, name and backing of every guest
  address are what they were before.\<close>

theorem arena_alloc_free_roundtrip:
  assumes "arena_inv s" and "arena_alloc commit base size0 al0 (mem, s) = Some (Some a, mem', s1)"
  shows "\<exists>s2. arena_free base a (mem', s1) = Some (mem', s2) \<and> arena_inv s2 \<and>
    as_heap_sizes s2 = as_heap_sizes s \<and> vm_at (as_vmm s2) = vm_at (as_vmm s)"
  using assms(1)
proof (cases rule: arena_alloc_cases [where commit = commit and base = base and ?size0.0 = size0
      and ?al0.0 = al0 and mem = mem])
  case 1
  then show ?thesis using assms(2) by simp
next
  case (2 al a' n mem2 m)
  then have a': "a' = a" and s1: "s1 = record_heap a n (s\<lparr>as_vmm := m\<rparr>)" using assms(2) by auto
  note took = 2(3) [unfolded a']
  have m: "map_range a n Flexible CPU_READ_WRITE None ''heap'' False (as_vmm s) = Some m"
    using 2(6) a' by simp
  note r = record_heap_inv [OF assms(1) took m]
  have inv1: "arena_inv s1" using r s1 by simp
  have h1: "as_heap_sizes s1 a = Some n" "as_vmm s1 = m" by (simp_all add: s1 record_heap_def)
  obtain s2 where s2: "arena_free base a (mem', s1) = Some (mem', s2)" "arena_inv s2"
    "as_heap_sizes s2 = (as_heap_sizes s1)(a := None)"
    "\<forall>x. vm_at (as_vmm s2) x = (if in_span a n x then Some free_attrs else vm_at m x)"
    using arena_free_cases [OF inv1, where a = a and base = base and mem = mem'] h1 by auto
  have "as_heap_sizes s2 = as_heap_sizes s"
    using s2(3) heap_disjoint_key [OF assms(1) took] by (auto simp: s1 record_heap_def)
  moreover have "vm_at (as_vmm s2) x = vm_at (as_vmm s) x" for x
  proof (cases "in_span a n x")
    case True
    then have "kind_at (as_vmm s) x = Some Free"
      using took by (auto simp: took_def all_free_def in_span_def)
    then have "vm_at (as_vmm s) x = Some free_attrs"
      using assms(1) by (intro free_attrs_at) (simp_all add: arena_inv_def)
    then show ?thesis using s2(4) True by simp
  qed (use s2(4) r in simp)
  ultimately show ?thesis using s2 by blast
qed

theorem arena_alloc_free_roundtrip_witness:
  "\<exists>s A s2. alloc_state_new GUEST_ARENA_BASE = Some s \<and>
     arena_alloc commit_all GUEST_ARENA_BASE 100 16 (\<lambda>_. 0, s)
       = Some (Some (GUEST_ARENA_BASE + HEAP_OFFSET), A) \<and>
     arena_free GUEST_ARENA_BASE (GUEST_ARENA_BASE + HEAP_OFFSET) A = Some (fst A, s2) \<and>
     vm_at (as_vmm s2) = vm_at (as_vmm s)"
proof -
  obtain s a A where s: "alloc_state_new GUEST_ARENA_BASE = Some s" "arena_inv s"
    "arena_alloc commit_all GUEST_ARENA_BASE 100 16 (\<lambda>_. 0, s) = Some (Some a, A)"
    "a = GUEST_ARENA_BASE + HEAP_OFFSET"
    by (rule fresh_alloc)
  obtain mem' s1 where A: "A = (mem', s1)" by (cases A)
  then show ?thesis
    using arena_alloc_free_roundtrip [OF s(2) s(3) [unfolded A]] s by auto
qed

section \<open>Reallocation\<close>

text \<open>What is relied on of the operating system: committing a range changes no
  byte outside it.\<close>

definition commit_local :: "os_commit \<Rightarrow> bool" where
  "commit_local commit \<longleftrightarrow>
     (\<forall>a n mem mem'. commit a n mem = Some mem' \<longrightarrow> (\<forall>x. \<not> in_span a n x \<longrightarrow> mem' x = mem x))"

text \<open>C25: \<open>realloc\<close> of a recorded block, when granted, returns a new block whose
  first bytes, up to the smaller of the old and the new size, are those of the
  old block, and every byte outside the new block is untouched; the table drops
  the old block and gains the new one; in the address map every address of the
  old block is free again, every address of the new one is heap memory, and all
  other addresses are what they were. It is refused only when the allocation of
  the new block is refused, and then changes nothing.\<close>

theorem arena_realloc_moves:
  assumes "arena_inv s" and "as_heap_sizes s a = Some old" and "commit_local commit"
  shows "case arena_realloc commit base a new_size (mem, s) of
      None \<Rightarrow> False
    | Some (None, A) \<Rightarrow> A = (mem, s) \<and> arena_alloc commit base new_size 16 (mem, s) = Some (None, A)
    | Some (Some b, mem', s') \<Rightarrow> arena_inv s' \<and> b \<noteq> a \<and>
        (\<exists>n. unat new_size \<le> unat n \<and>
           as_heap_sizes s' = (as_heap_sizes s)(b \<mapsto> n, a := None) \<and>
           (\<forall>i < min (unat old) (unat new_size). mem' (b + of_nat i) = mem (a + of_nat i)) \<and>
           (\<forall>x. \<not> in_span b n x \<longrightarrow> mem' x = mem x) \<and>
           (\<forall>x. in_span a old x \<longrightarrow> vm_at (as_vmm s') x = Some free_attrs) \<and>
           (\<forall>x. in_span b n x \<longrightarrow> kind_at (as_vmm s') x = Some Flexible) \<and>
           (\<forall>x. \<not> in_span a old x \<and> \<not> in_span b n x \<longrightarrow> vm_at (as_vmm s') x = vm_at (as_vmm s) x))"
  using assms(1)
proof (cases rule: arena_alloc_cases [where commit = commit and base = base and ?size0.0 = new_size
      and ?al0.0 = 16 and mem = mem])
  case 1
  then show ?thesis by (simp add: arena_realloc_def)
next
  case (2 al b n mem1 m)
  define s1 where "s1 = record_heap b n (s\<lparr>as_vmm := m\<rparr>)"
  define mem2 where "mem2 = host_copy a b (unat (min old new_size)) mem1"
  have key: "as_heap_sizes s b = None" by (rule heap_disjoint_key [OF assms(1) 2(3)])
  then have ne: "b \<noteq> a" using assms(2) by auto
  have inv1: "arena_inv s1" using record_heap_inv [OF assms(1) 2(3,6)] by (simp add: s1_def)
  have h1: "as_heap_sizes s1 a = Some old" using ne assms(2) by (simp add: s1_def record_heap_def)
  obtain s2 where s2: "arena_free base a (mem2, s1) = Some (mem2, s2)" "arena_inv s2"
    "as_heap_sizes s2 = (as_heap_sizes s1)(a := None)"
    "\<forall>x. vm_at (as_vmm s2) x = (if in_span a old x then Some free_attrs else vm_at (as_vmm s1) x)"
    using arena_free_cases [OF inv1, where a = a and base = base and mem = mem2] h1 by auto
  have run: "arena_realloc commit base a new_size (mem, s) = Some (Some b, mem2, s2)"
    using 2(1) s2(1) assms(2) by (simp add: arena_realloc_def mem2_def s1_def)
  have mem1: "mem1 x = mem x" if "\<not> in_span b n x" for x
    using 2(5) assms(3) that by (auto simp: commit_local_def)
  have b_hi: "unat b + unat n < 18446744073709551616"
    using 2(3) vmm_max_small [OF assms(1)] by (simp add: took_def)
  have mn: "unat (min old new_size) = min (unat old) (unat new_size)"
    by (simp add: min_def word_le_nat_alt)
  have ok: "heap_ok (as_vmm s1) (as_heap_sizes s1)" using inv1 by (simp add: arena_inv_def)
  have n1: "as_heap_sizes s1 b = Some n" by (simp add: s1_def record_heap_def)
  have apart: "unat a + unat old \<le> unat b \<or> unat b + unat n \<le> unat a"
    using ok h1 n1 ne by (auto simp: heap_ok_def)
  have a_hi: "unat a + unat old < 18446744073709551616"
    using ok [unfolded heap_ok_def] h1 vmm_max_small [OF inv1] by fastforce
  have copied: "mem2 (b + of_nat i) = mem (a + of_nat i)"
    if i: "i < min (unat old) (unat new_size)" for i
  proof -
    have lt: "i < 18446744073709551616" using i unat_u64_lt [of old] by simp
    have bi: "unat (b + of_nat i) = unat b + i"
      using i 2(4) b_hi lt by (subst unat_add_no_wrap) (simp_all add: unat_of_nat)
    have ai: "unat (a + of_nat i) = unat a + i"
      using i a_hi lt by (subst unat_add_no_wrap) (simp_all add: unat_of_nat)
    have "mem2 (b + of_nat i) = mem1 (a + of_nat i)"
      using i bi mn by (simp add: mem2_def host_copy_def add.commute)
    also have "\<dots> = mem (a + of_nat i)"
      by (rule mem1) (use apart ai i 2(4) in \<open>auto simp: in_span_def\<close>)
    finally show ?thesis .
  qed
  have outside: "mem2 x = mem x" if "\<not> in_span b n x" for x
    using mem1 [OF that] that mn 2(4) by (auto simp: mem2_def host_copy_def in_span_def)
  have freed: "\<forall>x. in_span a old x \<longrightarrow> vm_at (as_vmm s2) x = Some free_attrs" using s2(4) by simp
  have "\<not> in_span a old x" if "in_span b n x" for x
    using that apart by (auto simp: in_span_def)
  then have taken: "\<forall>x. in_span b n x \<longrightarrow> kind_at (as_vmm s2) x = Some Flexible"
    using s2(4) record_heap_inv [OF assms(1) 2(3,6)] by (simp add: kind_at_def s1_def record_heap_def)
  have kept: "\<forall>x. \<not> in_span a old x \<and> \<not> in_span b n x \<longrightarrow> vm_at (as_vmm s2) x = vm_at (as_vmm s) x"
    using s2(4) record_heap_inv [OF assms(1) 2(3,6)] by (simp add: s1_def record_heap_def)
  have table: "as_heap_sizes s2 = (as_heap_sizes s)(b \<mapsto> n, a := None)"
    using s2(3) by (simp add: s1_def record_heap_def)
  show ?thesis
    unfolding run option.case prod.case
    using s2(2) ne by (intro conjI exI [of _ n] freed taken kept table) (use 2(4) copied outside in auto)
qed

text \<open>An arena with one block of 112 bytes, which can be resized.\<close>

lemma block_with_room:
  obtains s where "arena_inv s" "as_heap_sizes s (GUEST_ARENA_BASE + HEAP_OFFSET) = Some 112"
    "fits (as_vmm s) (GUEST_ARENA_BASE + HEAP_OFFSET) 64 16 (GUEST_ARENA_BASE + HEAP_OFFSET + 112)"
proof -
  let ?c = "GUEST_ARENA_BASE + HEAP_OFFSET"
  obtain s where s: "arena_inv s" "as_heap_sizes s = Map.empty" "\<And>a. kind_at (as_vmm s) a = fresh_kind a"
    using alloc_state_new_inv by blast
  have t: "took GUEST_ARENA_BASE 16 ?c 112 (as_vmm s)"
    using s(1,3) by (auto simp: took_def heap_place_def all_free_def fresh_kind_def in_span_def arena_inv_def
        word_le_nat_alt word_less_nat_alt)
  obtain m where m: "map_range ?c 112 Flexible CPU_READ_WRITE None ''heap'' False (as_vmm s) = Some m"
    "vm_min m = vm_min (as_vmm s)" "vm_max m = vm_max (as_vmm s)"
    by (rule took_claim [OF s(1) t, of "''heap''"]) (rule that)
  note r = record_heap_inv [OF s(1) t m(1)]
  have k: "kind_at m a = Some Free" if "unat ?c + 112 \<le> unat a" "unat a < unat ?c + 176" for a
  proof -
    have "\<not> in_span ?c 112 a" using that by (simp add: in_span_def)
    then have "kind_at m a = fresh_kind a" using r s(3) by (simp add: kind_at_def)
    then show ?thesis
      using that by (simp add: fresh_kind_def in_span_def word_le_nat_alt word_less_nat_alt)
  qed
  have "fits m ?c 64 16 (?c + 112)"
    using k s(1) m(2,3) by (auto simp: fits_def all_free_def arena_inv_def word_le_nat_alt)
  then show ?thesis
    using r by (intro that [of "record_heap ?c 112 (s\<lparr>as_vmm := m\<rparr>)"]) (simp_all add: record_heap_def)
qed

theorem arena_realloc_moves_witness:
  "\<exists>s b mem s'. arena_inv s \<and> as_heap_sizes s (GUEST_ARENA_BASE + HEAP_OFFSET) = Some 112 \<and>
     arena_realloc commit_all GUEST_ARENA_BASE (GUEST_ARENA_BASE + HEAP_OFFSET) 50 (\<lambda>_. 7, s) = Some (Some b, mem, s') \<and>
     kind_at (as_vmm s') (GUEST_ARENA_BASE + HEAP_OFFSET) = Some Free \<and> mem b = 7"
proof -
  let ?a = "GUEST_ARENA_BASE + HEAP_OFFSET"
  obtain s where s: "arena_inv s" "as_heap_sizes s ?a = Some 112" "fits (as_vmm s) ?a 64 16 (?a + 112)"
    by (rule block_with_room)
  have n: "normalize_align 16 = Some 16" "arena_align_up (max 50 1) 16 = Some 64" by code_simp+
  have c: "commit_local commit_all" by (simp add: commit_local_def commit_all_def)
  obtain b A where al: "arena_alloc commit_all GUEST_ARENA_BASE 50 16 (\<lambda>_. 7, s) = Some (Some b, A)"
    using arena_alloc_fits [OF s(1) n s(3), of commit_all "\<lambda>_. 7"] by auto
  note t = arena_realloc_moves [OF s(1,2) c, where base = GUEST_ARENA_BASE and new_size = 50 and mem = "\<lambda>_. 7"]
  have "in_span ?a 112 ?a" by (simp add: in_span_def)
  then show ?thesis
    using s(1,2) t al by (force simp: kind_at_def free_attrs_def split: option.splits dest: spec [of _ 0])
qed


section \<open>Unmapping\<close>

text \<open>\<open>munmap\<close> of a range that is not an external mapping never panics. It
  is refused, changing nothing, unless every address of the page-rounded range
  belongs to a range the guest may release; otherwise it frees exactly that
  range. The invariant is kept when no recorded block other than the one at the
  range's start overlaps the range.\<close>

theorem arena_munmap_exact:
  assumes "arena_inv s" and "arena_align_up (max len0 1) PAGE_SIZE = Some len"
    and "as_external_mappings s a \<noteq> Some len"
    and "\<forall>b k. as_heap_sizes s b = Some k \<and> b \<noteq> a \<longrightarrow>
      unat b + unat k \<le> unat a \<or> unat a + unat len \<le> unat b"
  shows "if unat a + unat len < 18446744073709551616 \<and>
        all_kinds (as_vmm s) is_guest_releasable (unat a) (unat a + unat len)
      then (case arena_munmap base a len0 (mem, s) of None \<Rightarrow> False
        | Some (mem', s') \<Rightarrow> mem' = mem \<and> arena_inv s' \<and>
            as_heap_sizes s' = (as_heap_sizes s)(a := None) \<and>
            (\<forall>x. vm_at (as_vmm s') x =
              (if in_span a len x then Some free_attrs else vm_at (as_vmm s) x)))
      else arena_munmap base a len0 (mem, s) = Some (mem, s)"
proof (cases "unat a + unat len < 18446744073709551616")
  case False
  then have "checked_add a len = None" by (simp add: checked_add_None_iff)
  then show ?thesis using False assms(2) by (simp add: arena_munmap_def)
next
  case True
  let ?m = "as_vmm s" and ?h = "(as_heap_sizes s)(a := None)"
  have c: "checked_add a len = Some (a + len)" using True by (simp add: checked_add_Some_iff)
  have e: "unat (a + len) = unat a + unat len" by (rule checked_add_unat [OF c])
  have page: "is_power_of_two PAGE_SIZE" by (simp add: is_power_of_two_def)
  have "unat (max len0 1) \<le> unat len" using arena_align_up_correct [OF page assms(2)] by blast
  then have n0: "0 < len" by (auto simp: max_def unat_pos word_le_nat_alt split: if_splits)
  have wf: "vm_wf ?m" using assms(1) by simp
  have "a < a + len" using e n0 by (simp add: word_less_nat_alt unat_pos)
  then have r: "range_all ?m a (a + len) (\<lambda>v. is_guest_releasable (vma_kind v))
      = Some (all_kinds ?m is_guest_releasable (unat a) (unat a + unat len))"
    using range_all_exact [OF wf, of a "a + len" is_guest_releasable] e by simp
  show ?thesis
  proof (cases "all_kinds ?m is_guest_releasable (unat a) (unat a + unat len)")
    case False
    then show ?thesis using assms(2,3) c r by (simp add: arena_munmap_def Let_def)
  next
    case all: True
    have in_map: "vm_min ?m \<le> x \<and> x < vm_max ?m" if x: "unat a \<le> unat x" "unat x < unat a + unat len" for x :: u64
    proof -
      obtain k where "kind_at ?m x = Some k" using all x by (auto simp: all_kinds_def)
      then have "\<not> (x < vm_min ?m \<or> vm_max ?m \<le> x)" using kind_at_outside [OF wf, of x] by auto
      then show ?thesis by (simp add: not_less not_le)
    qed
    have lo: "vm_min ?m \<le> a" using in_map [of a] n0 by (simp add: unat_pos)
    have "unat (len - 1) = unat len - 1" using n0 by (intro unat_minus_one) auto
    then have last: "unat (a + (len - 1)) = unat a + unat len - 1"
      using True n0 by (subst unat_add_no_wrap) (simp_all add: unat_pos)
    have hi: "unat a + unat len \<le> unat (vm_max ?m)"
    proof -
      have "0 < unat len" using n0 by (simp add: unat_pos)
      then have "unat a \<le> unat (a + (len - 1))" "unat (a + (len - 1)) < unat a + unat len"
        using last by simp_all
      then have "unat (a + (len - 1)) < unat (vm_max ?m)" using in_map by (simp add: word_less_nat_alt)
      then show ?thesis using last by linarith
    qed
    have ap: "as_heap_sizes s b = Some k \<and> (unat b + unat k \<le> unat a \<or> unat a + unat len \<le> unat b)"
      if "?h b = Some k" for b k
      using that assms(4) by (auto split: if_splits)
    obtain t m where t: "restore_rw_on_release base a (a + len) (s\<lparr>as_heap_sizes := ?h\<rparr>) = Some t"
      "unmap_range a len (as_vmm t) = Some m" "arena_inv (t\<lparr>as_vmm := m\<rparr>)"
      "records_only (s\<lparr>as_heap_sizes := ?h\<rparr>) t"
      "\<forall>x. vm_at m x = (if in_span a len x then Some free_attrs else vm_at ?m x)"
      using release_range [OF assms(1) n0 lo hi ap, where base = base] by blast
    then show ?thesis
      using True all assms(2,3) c r by (simp add: arena_munmap_def Let_def records_only_def)
  qed
qed


theorem arena_munmap_exact_witness:
  "\<exists>s. arena_inv s \<and> arena_munmap GUEST_ARENA_BASE GUEST_ARENA_BASE 100 (\<lambda>_. 0, s) \<noteq> None"
proof -
  obtain s where s: "alloc_state_new GUEST_ARENA_BASE = Some s" "arena_inv s" "as_heap_sizes s = Map.empty"
    using alloc_state_new_inv by blast
  have len: "arena_align_up (max 100 1) PAGE_SIZE = Some 0x1000" by code_simp
  have ext: "as_external_mappings s GUEST_ARENA_BASE \<noteq> Some 0x1000"
    using s(1) by (auto simp: alloc_state_new_def bind_eq_Some_conv)
  have "arena_munmap GUEST_ARENA_BASE GUEST_ARENA_BASE 100 (\<lambda>_. 0, s) \<noteq> None"
    using arena_munmap_exact [OF s(2) len ext, where base = GUEST_ARENA_BASE and mem = "\<lambda>_. 0"] s(3)
    by (auto split: if_splits option.splits)
  then show ?thesis using s(2) by blast
qed

end
