(* ===== verification/Arena_Access.thy ===== *)
theory Arena_Access
  imports Arena_Heap
begin

text \<open>
  The correctness of the checked reads and writes of guest memory and of the
  demand commit of reserved pages (\<open>read\<close>, \<open>write\<close>,
  \<open>ensure_range_backed_for_write\<close> and \<open>commit_on_demand_with_batch\<close> of
  \<open>arena.rs\<close>).
\<close>

section \<open>Range boundaries\<close>

definition bases :: "vma_map \<Rightarrow> u64 set" where
  "bases m = fst ` set (vm_map m)"

lemma bases_update [simp]: "bases (m\<lparr>vm_map := t\<rparr>) = fst ` set t"
  by (simp add: bases_def)

lemma bt_insert_keys: "fst ` set (bt_insert k v t) \<subseteq> insert k (fst ` set t)"
  by (induction k v t rule: bt_insert.induct) auto

lemma bt_remove_keys: "fst ` set (bt_remove k t) \<subseteq> fst ` set t"
  by (auto simp: bt_remove_def)

lemma bt_floor_key: "bt_floor t k = Some (b, v) \<Longrightarrow> b \<in> fst ` set t"
  using last_in_set [of "filter (\<lambda>e. fst e \<le> k) t"]
  by (force simp: bt_floor_def Let_def split: if_splits)

lemma bt_below_key: "bt_below t k = Some (b, v) \<Longrightarrow> b \<in> fst ` set t"
  using last_in_set [of "filter (\<lambda>e. fst e < k) t"]
  by (force simp: bt_below_def Let_def split: if_splits)

lemma split_at_bases: "bases (split_at a m) \<subseteq> insert a (bases m)"
proof (cases "bt_floor (vm_map m) a")
  case (Some e)
  obtain b v where e: "e = (b, v)" by (cases e)
  have b: "b \<in> bases m" using bt_floor_key Some e by (simp add: bases_def)
  have two: "fst ` set (bt_insert a r (bt_insert b l (vm_map m))) \<subseteq> insert a (bases m)" for r l
  proof -
    have "fst ` set (bt_insert b l (vm_map m)) \<subseteq> bases m"
      using bt_insert_keys [of b l "vm_map m"] b by (simp add: bases_def insert_absorb)
    then show ?thesis using bt_insert_keys [of a r "bt_insert b l (vm_map m)"] by (rule order_trans [rotated, OF insert_mono])
  qed
  show ?thesis
    unfolding split_at_def Some e Let_def by (simp add: two subset_insertI)
qed (auto simp: split_at_def)

lemma merge_forward_bases: "fst ` set (merge_forward a t) \<subseteq> insert a (fst ` set t)"
proof -
  have "fst ` set (bt_insert a w (bt_remove b t)) \<subseteq> insert a (fst ` set t)" for w b
    using bt_insert_keys [of a w "bt_remove b t"] bt_remove_keys [of b t] by blast
  then show ?thesis
    by (auto simp: merge_forward_def split: option.splits)
qed

lemma merge_backward_bases: "fst ` set (merge_backward a t) \<subseteq> fst ` set t"
proof (cases "bt_below t a")
  case (Some e)
  obtain p w where e: "e = (p, w)" by (cases e)
  have "p \<in> fst ` set t" using bt_below_key Some e by simp
  then have "fst ` set (bt_insert p w (bt_remove a t)) \<subseteq> fst ` set t" for w
    using bt_insert_keys [of p w "bt_remove a t"] bt_remove_keys [of a t] by blast
  then show ?thesis
    using Some e by (auto simp: merge_backward_def split: option.splits)
qed (simp add: merge_backward_def)

lemma map_range_bases:
  assumes "map_range addr sz kind prt phys name dis m = Some m'"
  shows "bases m' \<subseteq> bases m \<union> {addr, addr + sz}"
proof -
  let ?c = "vm_map (carve addr sz m)"
  have c: "fst ` set ?c \<subseteq> bases m \<union> {addr, addr + sz}"
    using split_at_bases [of "addr + sz" "split_at addr m"] split_at_bases [of addr m]
    by (auto simp: carve_def bases_def)
  have f: "fst ` set (foldl (\<lambda>t b. bt_remove b t) t ks) \<subseteq> fst ` set t" for t :: "(u64, vma) btree" and ks
  proof (induction ks arbitrary: t)
    case (Cons k ks)
    then show ?case using order_trans [OF Cons.IH [of "bt_remove k t"] bt_remove_keys [of k t]] by simp
  qed simp
  let ?f = "foldl (\<lambda>t b. bt_remove b t) ?c (List.map fst (the (bt_range ?c addr (addr + sz))))"
  obtain t where "vm_map m' = merge_backward addr (merge_forward addr (bt_insert addr t ?f))"
    using assms by (auto simp: map_range_def merge_adjacent_def Let_def split: option.splits)
  then have "bases m' \<subseteq> fst ` set (merge_forward addr (bt_insert addr t ?f))"
    using merge_backward_bases by (simp add: bases_def)
  also have "\<dots> \<subseteq> insert addr (fst ` set (bt_insert addr t ?f))" by (rule merge_forward_bases)
  also have "\<dots> \<subseteq> insert addr (fst ` set ?f)" using bt_insert_keys [of addr t ?f] by simp
  also have "\<dots> \<subseteq> insert addr (fst ` set ?c)" by (rule insert_mono [OF f])
  finally have "bases m' \<subseteq> insert addr (fst ` set ?c)" .
  then show ?thesis using c by auto
qed

text \<open>A range ends where the next one starts, or at the end of the space.\<close>

lemma end_is_base:
  assumes wf: "vm_wf m" and "(b, v) \<in> set (vm_map m)"
  shows "vma_end v \<in> insert (vm_max m) (bases m)"
proof -
  obtain P S where eq: "vm_map m = P @ (b, v) # S" using assms(2) by (auto dest: split_list)
  have e: "unat (vma_end v) = unat b + unat (vma_size v)" by (rule tile_in_map(5) [OF assms])
  have t: "tiles (unat (vma_end v)) (unat (vm_max m)) S"
    using wf e by (auto simp: vm_wf_def eq tiles_append)
  show ?thesis
  proof (cases S)
    case Nil
    then show ?thesis using t by (simp add: unsigned_word_eqI)
  next
    case (Cons x S')
    then have "vma_end v = fst x" using t by (cases x) (auto simp: word_unat_eq_iff)
    then show ?thesis using Cons eq by (simp add: bases_def)
  qed
qed

section \<open>Demand commit\<close>

text \<open>Every reserved range starts and ends on a page boundary.\<close>

definition reserved_paged :: "vma_map \<Rightarrow> bool" where
  "reserved_paged m \<longleftrightarrow> (\<forall>(b, v)\<in>set (vm_map m). vma_kind v = Reserved \<longrightarrow>
     4096 dvd unat b \<and> 4096 dvd unat (vma_size v))"

text \<open>What demand commit may do: turn reserved addresses into backed ones, and
  set the bytes of those only.\<close>

definition demand_grown :: "arena \<Rightarrow> arena \<Rightarrow> bool" where
  "demand_grown A B \<longleftrightarrow> arena_inv (snd B) \<and>
     (\<exists>m. snd B = (snd A)\<lparr>as_vmm := m\<rparr>) \<and>
     (\<forall>x. vm_at (as_vmm (snd B)) x = vm_at (as_vmm (snd A)) x \<and> fst B x = fst A x \<or>
        kind_at (as_vmm (snd A)) x = Some Reserved \<and>
        kind_at (as_vmm (snd B)) x = Some ReservedBacked)"

lemma demand_grown_refl: "arena_inv (snd A) \<Longrightarrow> demand_grown A A"
  by (auto simp: demand_grown_def intro!: exI [of _ "as_vmm (snd A)"])

lemma demand_grown_trans:
  assumes "demand_grown A B" "demand_grown B C"
  shows "demand_grown A C"
proof -
  have "vm_at (as_vmm (snd C)) x = vm_at (as_vmm (snd A)) x \<and> fst C x = fst A x \<or>
      kind_at (as_vmm (snd A)) x = Some Reserved \<and> kind_at (as_vmm (snd C)) x = Some ReservedBacked" for x
    using assms unfolding demand_grown_def kind_at_def by (metis (no_types, lifting) option.inject vma_type.distinct(19))
  moreover have "\<exists>m. snd C = (snd A)\<lparr>as_vmm := m\<rparr>"
    using assms by (auto simp: demand_grown_def)
  ultimately show ?thesis using assms by (simp add: demand_grown_def)
qed

text \<open>Committing never fails: memory is not exhausted.\<close>

definition commit_total :: "os_commit \<Rightarrow> bool" where
  "commit_total commit \<longleftrightarrow> (\<forall>a n mem. commit a n mem \<noteq> None)"

text \<open>The cluster committed for one page.\<close>

lemma commit_cluster:
  assumes "4096 dvd unat p" "4096 dvd unat e" "unat p < unat e" "unat e \<le> 140737488355328"
  shows "unat (p + commit_batch_len p batch e) = unat p + unat (commit_batch_len p batch e) \<and>
    unat p + unat (commit_batch_len p batch e) \<le> unat e \<and>
    4096 \<le> unat (commit_batch_len p batch e) \<and> 4096 dvd unat (commit_batch_len p batch e)"
proof -
  define k where "k = unat (max 1 (min batch 256))"
  define c where "c = min (saturating_add p (max 1 (min batch 256) * PAGE_SIZE)) e"
  have k: "1 \<le> k" "k \<le> 256" by (auto simp: k_def max_def min_def word_le_nat_alt)
  have "unat (max 1 (min batch 256) * PAGE_SIZE) = k * 4096"
    using k by (simp add: unat_word_ariths k_def [symmetric])
  then have "unat (saturating_add p (max 1 (min batch 256) * PAGE_SIZE)) = unat p + k * 4096"
    using k assms by (simp add: saturating_add_unat)
  then have c: "unat c = min (unat p + k * 4096) (unat e)"
    by (simp add: c_def min_def word_le_nat_alt)
  have pe: "unat p + 4096 \<le> unat e" using assms(1-3) by (elim dvdE) auto
  have "4096 dvd unat c" using c assms(1,2) by (simp add: min_def)
  moreover have "unat p + 4096 \<le> unat c" using c pe k by (simp add: min_def)
  moreover have le: "unat c \<le> unat e" using c by simp
  moreover have "unat (c - p) = unat c - unat p"
    using calculation(2) by (intro unat_sub) (simp add: word_le_nat_alt)
  moreover have "commit_batch_len p batch e = c - p" by (simp add: commit_batch_len_def c_def)
  ultimately show ?thesis using assms(1) by (auto simp: dvd_diff_nat)
qed


text \<open>A boundary next to reserved space is a page boundary.\<close>

lemma paged_boundary:
  assumes wf: "vm_wf m" and pg: "reserved_paged m" and B: "B \<in> bases m"
    and k: "kind_at m B = Some Reserved \<or> 0 < B \<and> kind_at m (B - 1) = Some Reserved"
  shows "4096 dvd unat B"
proof -
  obtain u where u: "(B, u) \<in> set (vm_map m)" using B by (auto simp: bases_def)
  note tu = tile_in_map [OF wf u]
  show ?thesis
    using k
  proof
    assume "kind_at m B = Some Reserved"
    moreover have "kind_at m B = Some (vma_kind u)"
      by (rule kind_at_tile [OF wf u]) (use tu in \<open>simp add: covers_def\<close>)
    ultimately show ?thesis using pg u by (auto simp: reserved_paged_def)
  next
    assume k: "0 < B \<and> kind_at m (B - 1) = Some Reserved"
    let ?y = "B - 1"
    have y: "unat ?y = unat B - 1" "0 < unat B" using k by (auto simp: unat_minus_one unat_gt_0)
    have "\<not> (?y < vm_min m \<or> vm_max m \<le> ?y)" using k kind_at_outside [OF wf, of ?y] by auto
    then have "vm_min m \<le> ?y" "?y < vm_max m" by (simp_all add: not_less not_le)
    then obtain P c w S where eq: "vm_map m = P @ (c, w) # S" and cov: "covers w (unat ?y)"
      using find_tile [OF wf] by blast
    have cw: "(c, w) \<in> set (vm_map m)" by (simp add: eq)
    note tw = tile_in_map [OF wf cw]
    have rw: "vma_kind w = Reserved" using kind_at_tile [OF wf cw cov] k by simp
    have lt: "unat c < unat B" "unat B \<le> unat c + unat (vma_size w)"
      using cov tw y by (auto simp: covers_def)
    have t: "tiles (unat c) (unat (vm_max m)) ((c, w) # S)" "tiles (unat (vm_min m)) (unat c) P"
      using wf by (auto simp: vm_wf_def eq tiles_append)
    have "(B, u) \<in> set S"
    proof -
      have "(B, u) \<notin> set P" using tiles_before [OF t(2)] lt by (auto simp: word_less_nat_alt)
      then show ?thesis using u lt by (auto simp: eq)
    qed
    moreover have "tiles (unat (vma_end w)) (unat (vm_max m)) S" using t(1) tw by simp
    ultimately have "vma_end w \<le> fst (B, u)"
      using tiles_after [of "unat (vma_end w)" "unat (vm_max m)" S "vma_end w"] by blast
    then have "unat B = unat c + unat (vma_size w)" using lt tw by (simp add: word_le_nat_alt)
    then show ?thesis using pg cw rw by (auto simp: reserved_paged_def)
  qed
qed

lemma map_range_paged:
  assumes wf: "vm_wf m" and pg: "reserved_paged m" and mx: "4096 dvd unat (vm_max m)"
    and a: "4096 dvd unat addr" "4096 dvd unat (addr + sz)" "unat (addr + sz) = unat addr + unat sz"
    and m': "map_range addr sz kind prt phys name dis m = Some m'" "vm_wf m'" "vm_max m' = vm_max m"
    and at: "\<And>x. \<not> in_span addr sz x \<Longrightarrow> vm_at m' x = vm_at m x"
    and new: "\<And>x. in_span addr sz x \<Longrightarrow> kind_at m' x \<noteq> Some Reserved"
  shows "reserved_paged m'"
proof -
  have old: "kind_at m x = Some Reserved" if "kind_at m' x = Some Reserved" for x
    using that at [of x] new [of x] by (cases "in_span addr sz x") (auto simp: kind_at_def)
  have bound: "4096 dvd unat B"
    if "B \<in> insert (vm_max m) (bases m')"
      and "kind_at m' B = Some Reserved \<or> 0 < B \<and> kind_at m' (B - 1) = Some Reserved" for B
  proof -
    have "B = vm_max m \<or> B \<in> bases m \<or> B = addr \<or> B = addr + sz"
      using that(1) map_range_bases [OF m'(1)] by auto
    then show ?thesis
      using mx a paged_boundary [OF wf pg, of B] that(2) old by blast
  qed
  show ?thesis
    unfolding reserved_paged_def
  proof (clarify, intro conjI)
    fix b v assume bv: "(b, v) \<in> set (vm_map m')" and r: "vma_kind v = Reserved"
    note tv = tile_in_map [OF m'(2) bv]
    have k: "kind_at m' x = Some Reserved" if "covers v (unat x)" for x
      using kind_at_tile [OF m'(2) bv that] r by simp
    have "kind_at m' b = Some Reserved" by (rule k) (use tv in \<open>simp add: covers_def\<close>)
    then show b: "4096 dvd unat b" using bound [of b] bv by (force simp: bases_def)
    have pos: "0 < vma_end v" using tv by (simp add: unat_pos)
    then have y: "unat (vma_end v - 1) = unat (vma_end v) - 1" by (intro unat_minus_one) auto
    have "kind_at m' (vma_end v - 1) = Some Reserved"
      by (rule k) (use tv y in \<open>simp add: covers_def\<close>)
    then have "4096 dvd unat (vma_end v)"
      using bound [of "vma_end v"] end_is_base [OF m'(2) bv] pos m'(3) by auto
    then show "4096 dvd unat (vma_size v)"
      using b tv by (metis dvd_add_right_iff)
  qed
qed

text \<open>Reserved space comes in whole pages.\<close>

lemma paged_page:
  assumes wf: "vm_wf m" and pg: "reserved_paged m" and p: "4096 dvd unat p"
    and x: "unat p \<le> unat x" "unat x < unat p + 4096" and k: "kind_at m x = Some Reserved"
  shows "kind_at m p = Some Reserved"
proof -
  have "\<not> (x < vm_min m \<or> vm_max m \<le> x)" using k kind_at_outside [OF wf, of x] by auto
  then have "vm_min m \<le> x" "x < vm_max m" by (simp_all add: not_less not_le)
  then obtain P c w S where eq: "vm_map m = P @ (c, w) # S" and cov: "covers w (unat x)"
    using find_tile [OF wf] by blast
  have cw: "(c, w) \<in> set (vm_map m)" by (simp add: eq)
  have r: "vma_kind w = Reserved" using kind_at_tile [OF wf cw cov] k by simp
  then have c: "4096 dvd unat c" using pg cw by (auto simp: reserved_paged_def)
  have b: "vma_base w = c" by (rule tile_in_map(1) [OF wf cw])
  then have "unat c < unat p + 4096" using cov x by (simp add: covers_def)
  then have "unat c \<le> unat p" using c p by (elim dvdE) simp
  then have "covers w (unat p)" using cov b x by (simp add: covers_def)
  then show ?thesis using kind_at_tile [OF wf cw] r by simp
qed

text \<open>One demand commit of a page.\<close>

lemma demand_claim:
  assumes inv: "arena_inv s" and loc: "commit_local commit" and c: "commit p n mem = Some mem'"
    and m': "vm_inv m'" "vm_min m' = vm_min (as_vmm s)" "vm_max m' = vm_max (as_vmm s)"
    and r: "\<And>x. in_span p n x \<Longrightarrow> kind_at (as_vmm s) x = Some Reserved"
    and at: "\<And>x. \<not> in_span p n x \<Longrightarrow> vm_at m' x = vm_at (as_vmm s) x"
    and new: "\<And>x. in_span p n x \<Longrightarrow> kind_at m' x = Some ReservedBacked"
  shows "demand_grown (mem, s) (mem', s\<lparr>as_vmm := m'\<rparr>)"
proof -
  have old: "heap_ok (as_vmm s) (as_heap_sizes s)" using inv by (simp add: arena_inv_def)
  have keep: "all_kinds m' (\<lambda>k. k = Flexible) lo hi"
    if "all_kinds (as_vmm s) (\<lambda>k. k = Flexible) lo hi" for lo hi
    using that
  proof (rule all_kinds_frame)
    fix x :: u64 assume "lo \<le> unat x" "unat x < hi"
    then have "kind_at (as_vmm s) x = Some Flexible" using that by (auto simp: all_kinds_def)
    then show "vm_at m' x = vm_at (as_vmm s) x" using r [of x] at [of x] by (cases "in_span p n x") auto
  qed
  have "heap_ok m' (as_heap_sizes s)" using old keep m'(2,3) unfolding heap_ok_def by auto
  then have "arena_inv (s\<lparr>as_vmm := m'\<rparr>)" using inv m' by (simp add: arena_inv_def)
  moreover have "vm_at m' x = vm_at (as_vmm s) x \<and> mem' x = mem x \<or>
      kind_at (as_vmm s) x = Some Reserved \<and> kind_at m' x = Some ReservedBacked" for x
    using r [of x] at [of x] new [of x] loc c by (cases "in_span p n x") (auto simp: commit_local_def)
  ultimately show ?thesis by (auto simp: demand_grown_def)
qed

lemma page_down_id: "4096 dvd unat p \<Longrightarrow> page_down p = p"
  using mask_down_unat [of PAGE_SIZE 12 p]
  by (simp add: page_down_def word_unat_eq_iff dvd_eq_mod_eq_0)

lemma commit_step:
  assumes inv: "arena_inv s" and loc: "commit_local commit" and p: "4096 dvd unat p"
    and pg: "reserved_paged (as_vmm s)"
  shows "\<exists>r B. commit_on_demand commit batch p (mem, s) = Some (r, B) \<and>
    demand_grown (mem, s) B \<and> reserved_paged (as_vmm (snd B)) \<and>
    (commit_total commit \<longrightarrow>
      (\<forall>x. unat p \<le> unat x \<and> unat x < unat p + 4096 \<longrightarrow> kind_at (as_vmm (snd B)) x \<noteq> Some Reserved))"
proof -
  let ?m = "as_vmm s"
  have vi: "vm_inv ?m" and wf: "vm_wf ?m" using inv by (simp_all add: arena_inv_def vm_inv_def)
  have refl: "demand_grown (mem, s) (mem, s)" using inv by (simp add: demand_grown_refl)
  have idle: "kind_at ?m x \<noteq> Some Reserved"
    if "kind_at (as_vmm s) p \<noteq> Some Reserved" "unat p \<le> unat x" "unat x < unat p + 4096" for x :: u64
    using paged_page [OF wf pg p that(2,3)] that(1) by blast
  show ?thesis
  proof (cases "kind_at ?m p = Some Reserved")
    case False
    then have "\<exists>r. commit_on_demand commit batch p (mem, s) = Some (r, (mem, s))"
      using kind_at_find [OF wf, of p]
      by (auto simp: commit_on_demand_def page_down_id [OF p] split: option.splits)
    then show ?thesis using refl pg idle [OF False] by auto
  next
    case True
    then obtain v where f: "vm_find ?m p = Some v" and v: "vma_kind v = Reserved"
      using kind_at_find [OF wf, of p] by auto
    then have span: "vm_min ?m \<le> p" "p < vm_max ?m" by (auto simp: vm_find_def split: if_splits)
    obtain P b S where eq: "vm_map ?m = P @ (b, v) # S" and cov: "covers v (unat p)"
      using find_tile [OF wf span] f by auto
    have bv: "(b, v) \<in> set (vm_map ?m)" by (simp add: eq)
    note t = tile_in_map [OF wf bv]
    let ?n = "commit_batch_len p batch (vma_end v)"
    have mx: "unat (vm_max ?m) = 140737488355328" using vmm_max_small [OF inv] by simp
    have "4096 dvd unat (vma_end v)" using pg bv v t by (auto simp: reserved_paged_def)
    then have n: "unat (p + ?n) = unat p + unat ?n" "unat p + unat ?n \<le> unat (vma_end v)"
      "4096 \<le> unat ?n" "4096 dvd unat ?n"
      using commit_cluster [OF p, of "vma_end v" batch] cov t mx by (auto simp: covers_def)
    have kr: "kind_at ?m x = Some Reserved" if "in_span p ?n x" for x
      using kind_at_tile [OF wf bv, of x] v that n cov t by (auto simp: covers_def in_span_def)
    show ?thesis
    proof (cases "commit p ?n mem")
      case None
      then have "commit_on_demand commit batch p (mem, s) = Some (False, (mem, s))"
        using f v by (simp add: commit_on_demand_def page_down_id [OF p])
      moreover have "\<not> commit_total commit" using None unfolding commit_total_def by blast
      ultimately show ?thesis using refl pg by (intro exI [of _ False] exI [of _ "(mem, s)"]) simp
    next
      case (Some mem')
      have n0: "0 < ?n" using n by (simp add: unat_pos)
      have hi: "unat p + unat ?n \<le> unat (vm_max ?m)" using n t by simp
      obtain m' where m': "map_range p ?n ReservedBacked CPU_READ_WRITE None ''reserve'' False ?m = Some m'"
        "vm_inv m'" "vm_min m' = vm_min ?m" "vm_max m' = vm_max ?m"
        "\<And>x. \<not> in_span p ?n x \<Longrightarrow> vm_at m' x = vm_at ?m x"
        "\<And>x. in_span p ?n x \<Longrightarrow> kind_at m' x = Some ReservedBacked"
        by (rule map_claim [OF vi n0 span(1) hi, of ReservedBacked CPU_READ_WRITE None "''reserve''" False])
          simp_all
      have run: "commit_on_demand commit batch p (mem, s) = Some (True, (mem', s\<lparr>as_vmm := m'\<rparr>))"
        using f v Some m'(1) by (simp add: commit_on_demand_def page_down_id [OF p])
      have grown: "demand_grown (mem, s) (mem', s\<lparr>as_vmm := m'\<rparr>)"
        by (rule demand_claim [OF inv loc Some m'(2-4) kr m'(5,6)])
      have "reserved_paged m'"
        by (rule map_range_paged [OF wf pg _ p _ n(1) m'(1) _ m'(4,5)])
          (use mx n p m'(2,6) in \<open>auto simp: vm_inv_def\<close>)
      moreover have "kind_at m' x \<noteq> Some Reserved" if "unat p \<le> unat x" "unat x < unat p + 4096" for x
        using m'(6) [of x] that n(3) by (simp add: in_span_def)
      ultimately show ?thesis using run grown by auto
    qed
  qed
qed


text \<open>Growth keeps what was not reserved.\<close>

lemma demand_grown_keeps:
  assumes "demand_grown A B" "kind_at (as_vmm (snd A)) x \<noteq> Some Reserved"
  shows "kind_at (as_vmm (snd B)) x = kind_at (as_vmm (snd A)) x"
  using assms unfolding demand_grown_def kind_at_def by metis

lemma back_pages_run:
  assumes "arena_inv (snd A)" and loc: "commit_local commit" and "4096 dvd unat p \<or> e \<le> p"
    and "reserved_paged (as_vmm (snd A))"
  shows "\<exists>B. back_pages commit batch p e A = Some B \<and> demand_grown A B \<and>
    reserved_paged (as_vmm (snd B)) \<and>
    (commit_total commit \<longrightarrow>
      (\<forall>x. unat p \<le> unat x \<and> unat x < unat e \<longrightarrow> kind_at (as_vmm (snd B)) x \<noteq> Some Reserved))"
  using assms
proof (induction "unat e - unat p" arbitrary: p A rule: less_induct)
  case less
  show ?case
  proof (cases "e \<le> p")
    case True
    then have "back_pages commit batch p e A = Some A" by (subst back_pages.simps) simp
    then show ?thesis
      using True less.prems demand_grown_refl by (auto simp: word_le_nat_alt intro!: exI [of _ A])
  next
    case False
    then have p: "4096 dvd unat p" and lt: "unat p < unat e"
      using less.prems by (auto simp: word_le_nat_alt)
    obtain mem s where A: "A = (mem, s)" by (cases A)
    obtain r B where B: "commit_on_demand commit batch p A = Some (r, B)" "demand_grown A B"
      "reserved_paged (as_vmm (snd B))" "commit_total commit \<longrightarrow>
        (\<forall>x. unat p \<le> unat x \<and> unat x < unat p + 4096 \<longrightarrow> kind_at (as_vmm (snd B)) x \<noteq> Some Reserved)"
      using commit_step [of s commit p batch mem] less.prems p loc unfolding A by auto
    let ?p = "saturating_add p 0x1000"
    have up: "unat ?p = min (unat p + 4096) 18446744073709551615" by (simp add: saturating_add_unat)
    have dec: "unat e - unat ?p < unat e - unat p" using lt up unat_u64_lt [of e] by auto
    have al: "4096 dvd unat ?p \<or> e \<le> ?p"
      using up p unat_u64_lt [of e] by (auto simp: word_le_nat_alt min_def)
    have "arena_inv (snd B)" using B(2) by (simp add: demand_grown_def)
    then obtain C where C: "back_pages commit batch ?p e B = Some C" "demand_grown B C"
      "reserved_paged (as_vmm (snd C))" "commit_total commit \<longrightarrow>
        (\<forall>x. unat ?p \<le> unat x \<and> unat x < unat e \<longrightarrow> kind_at (as_vmm (snd C)) x \<noteq> Some Reserved)"
      using less.hyps [OF dec _ loc al B(3)] by auto
    have "back_pages commit batch p e A = Some C"
      using False B(1) C(1) by (subst back_pages.simps) simp
    moreover have "kind_at (as_vmm (snd C)) x \<noteq> Some Reserved"
      if "commit_total commit" "unat p \<le> unat x" "unat x < unat e" for x
    proof (cases "unat x < unat p + 4096")
      case True
      then have "kind_at (as_vmm (snd B)) x \<noteq> Some Reserved" using B(4) that by blast
      then show ?thesis using demand_grown_keeps [OF C(2)] by simp
    next
      case False
      then have "unat ?p \<le> unat x" using up by simp
      then show ?thesis using C(4) that by blast
    qed
    ultimately show ?thesis using demand_grown_trans [OF B(2) C(2)] C(3) by blast
  qed
qed

section \<open>Which spans may be accessed\<close>

definition backed_span :: "alloc_state \<Rightarrow> u64 \<Rightarrow> nat \<Rightarrow> bool" where
  "backed_span s a n \<longleftrightarrow> all_kinds (as_vmm s) is_host_backed (unat a) (unat a + max n 1)"

definition clear_of :: "interval list \<Rightarrow> u64 \<Rightarrow> nat \<Rightarrow> bool" where
  "clear_of ivs a n \<longleftrightarrow> (\<forall>x\<in>addresses ivs. \<not> (unat a \<le> unat x \<and> unat x < unat a + n))"

definition readable :: "alloc_state \<Rightarrow> u64 \<Rightarrow> nat \<Rightarrow> bool" where
  "readable s a n \<longleftrightarrow> unat a + n < 18446744073709551616 \<and> backed_span s a n \<and>
     clear_of (as_host_noaccess s) a n"

definition writable :: "alloc_state \<Rightarrow> u64 \<Rightarrow> nat \<Rightarrow> bool" where
  "writable s a n \<longleftrightarrow> unat a + n < 18446744073709551616 \<and> backed_span s a n \<and>
     clear_of (as_host_nonwritable s) a n"

lemma span_end:
  fixes a :: u64
  assumes "unat a + n < 18446744073709551616"
  shows "unat (a + of_nat n) = unat a + n"
proof -
  have "unat (of_nat n :: u64) = n" using assms by (simp add: unat_of_nat)
  then show ?thesis using assms unat_add_no_wrap [of a "of_nat n"] by simp
qed

lemma committed_span:
  assumes "arena_inv s" "unat a + n < 18446744073709551616"
  shows "range_is_committed s a (a + of_nat n) = Some (backed_span s a n)"
proof (cases "n = 0")
  case True
  have "all_kinds (as_vmm s) is_host_backed (unat a) (unat a + 1)
      \<longleftrightarrow> (\<exists>k. kind_at (as_vmm s) a = Some k \<and> is_host_backed k)"
    by (auto simp: all_kinds_def less_Suc_eq_le le_antisym dest: le_antisym)
      (metis le_antisym unsigned_word_eqI)
  then show ?thesis using True assms by (simp add: range_is_committed_exact backed_span_def)
next
  case False
  then have "a < a + of_nat n" using span_end [OF assms(2)] by (simp add: word_less_nat_alt)
  moreover have "max n 1 = n" using False by simp
  ultimately show ?thesis
    using assms span_end [OF assms(2)] by (auto simp: range_is_committed_exact backed_span_def)
qed

lemma intersects_span:
  assumes "separated ivs" "unat a + n < 18446744073709551616"
  shows "interval_intersects ivs a (a + of_nat n) \<longleftrightarrow> \<not> clear_of ivs a n"
  using interval_intersects_iff [OF assms(1)] span_end [OF assms(2)]
  by (auto simp: clear_of_def word_le_nat_alt word_less_nat_alt)

lemma checked_span:
  assumes "n < 18446744073709551616"
  shows "checked_add a (of_nat n)
    = (if unat a + n < 18446744073709551616 then Some (a + of_nat n) else None)"
  using assms checked_add_Some_iff [of a "of_nat n"] checked_add_None_iff [of a "of_nat n"]
  by (auto simp: unat_of_nat)


lemma ensure_backed:
  assumes inv: "arena_inv (snd A)" and loc: "commit_local commit"
    and pg: "reserved_paged (as_vmm (snd A))" and n: "unat a + n < 18446744073709551616"
  shows "\<exists>ok B. ensure_range_backed_for_write commit batch a (a + of_nat n) A = Some (ok, B) \<and>
    demand_grown A B \<and> (ok \<longleftrightarrow> backed_span (snd B) a n) \<and>
    (commit_total commit \<and> 0 < n \<and> n \<le> 16777216 \<and>
       all_kinds (as_vmm (snd A)) (\<lambda>k. is_host_backed k \<or> k = Reserved) (unat a) (unat a + n) \<longrightarrow> ok)"
proof -
  let ?e = "a + of_nat n"
  have e: "unat ?e = unat a + n" by (rule span_end [OF n])
  have refl: "demand_grown A A" by (rule demand_grown_refl [OF inv])
  have c: "range_is_committed (snd A) a ?e = Some (backed_span (snd A) a n)"
    by (rule committed_span [OF inv n])
  have sub: "unat (saturating_sub ?e a) = n"
    using e unat_sub [of a ?e] by (simp add: saturating_sub_def word_le_nat_alt word_less_nat_alt)
  show ?thesis
  proof (cases "backed_span (snd A) a n \<or> 16777216 < n")
    case True
    then have "ensure_range_backed_for_write commit batch a ?e A = Some (backed_span (snd A) a n, A)"
      using c sub
      by (auto simp: ensure_range_backed_for_write_def word_less_nat_alt split: bool.split)
    then show ?thesis using True refl by auto
  next
    case False
    have pd: "unat (page_down a) \<le> unat a" "4096 dvd unat (page_down a)"
      using mask_down_unat [of PAGE_SIZE 12 a] by (simp_all add: page_down_def)
    obtain B where B: "back_pages commit batch (page_down a) ?e A = Some B" "demand_grown A B"
      "commit_total commit \<longrightarrow> (\<forall>x. unat (page_down a) \<le> unat x \<and> unat x < unat ?e \<longrightarrow>
          kind_at (as_vmm (snd B)) x \<noteq> Some Reserved)"
      using back_pages_run [OF inv loc _ pg, of "page_down a" ?e batch] pd by blast
    have invB: "arena_inv (snd B)" using B(2) by (simp add: demand_grown_def)
    have run: "ensure_range_backed_for_write commit batch a ?e A = Some (backed_span (snd B) a n, B)"
      using False c sub B(1) committed_span [OF invB n]
      by (simp add: ensure_range_backed_for_write_def word_less_nat_alt)
    have "backed_span (snd B) a n" if "commit_total commit" "0 < n"
      and k: "all_kinds (as_vmm (snd A)) (\<lambda>k. is_host_backed k \<or> k = Reserved) (unat a) (unat a + n)"
    proof -
      have "\<exists>k. kind_at (as_vmm (snd B)) x = Some k \<and> is_host_backed k"
        if x: "unat a \<le> unat x" "unat x < unat a + n" for x
      proof (cases "kind_at (as_vmm (snd A)) x = Some Reserved")
        case True
        have "kind_at (as_vmm (snd B)) x \<noteq> Some Reserved"
          using B(3) \<open>commit_total commit\<close> x pd(1) e by auto
        then have "kind_at (as_vmm (snd B)) x = Some ReservedBacked"
          using B(2) True unfolding demand_grown_def kind_at_def by metis
        then show ?thesis by simp
      next
        case False
        then show ?thesis using demand_grown_keeps [OF B(2) False] k x by (auto simp: all_kinds_def)
      qed
      then show ?thesis using \<open>0 < n\<close> by (simp add: backed_span_def all_kinds_def)
    qed
    then show ?thesis using run B(2) by auto
  qed
qed

section \<open>Properties\<close>

text \<open>A small arena for the examples: sixty kilobytes of reserved space, the rest
  free.\<close>

definition lazy_arena :: alloc_state where
  "lazy_arena = \<lparr>
     as_vmm = \<lparr>vm_map =
        [(0x1000, \<lparr>vma_base = 0x1000, vma_size = 0xF000, vma_kind = Reserved, vma_prot = 3,
            vma_phys_base = None, vma_name = ''reserve'', vma_disallow_merge = False\<rparr>),
         (0x10000, vma_free 0x10000 0x7FFFFFFF0000)],
       vm_min = VMM_MIN, vm_max = VMM_MAX\<rparr>,
     as_heap_sizes = Map.empty, as_os_reservations = [], as_external_mappings = Map.empty, as_window_commits = [],
     as_host_noaccess = [(0x3000, 0x4000)], as_host_nonwritable = [(0x3000, 0x5000)]\<rparr>"

lemma lazy_arena_inv: "arena_inv lazy_arena" and lazy_arena_paged: "reserved_paged (as_vmm lazy_arena)"
  by (simp_all add: lazy_arena_def arena_inv_def vm_inv_def vm_wf_def vma_free_def canon_Cons
      free_clean_def heap_ok_def reserved_paged_def)

lemma lazy_arena_kind:
  "0x1000 \<le> unat a \<Longrightarrow> unat a < 0x10000 \<Longrightarrow> kind_at (as_vmm lazy_arena) a = Some Reserved"
  by (simp add: lazy_arena_def kind_at_def vm_at_def covers_def vma_attrs_def)

lemma commit_all_ok: "commit_local commit_all" "commit_total commit_all"
  by (simp_all add: commit_local_def commit_total_def commit_all_def)

lemma lazy_hyps:
  "all_kinds (as_vmm lazy_arena) (\<lambda>k. is_host_backed k \<or> k = Reserved)
     (unat (0x1FFE :: u64)) (unat (0x1FFE :: u64) + length [1, 2, 3 :: byte])"
  "clear_of (as_host_nonwritable lazy_arena) 0x1FFE (length [1, 2, 3 :: byte])"
  by (simp_all add: all_kinds_def lazy_arena_kind)
    (auto simp: clear_of_def lazy_arena_def word_le_nat_alt)

lemma lazy_store:
  assumes "arena_inv s" and "reserved_paged (as_vmm s)" and "commit_local commit"
    and "commit_total commit" and "data \<noteq> []" and "length data \<le> 16777216"
    and "unat a + length data < 18446744073709551616"
    and "all_kinds (as_vmm s) (\<lambda>k. is_host_backed k \<or> k = Reserved)
      (unat a) (unat a + length data)"
    and "clear_of (as_host_nonwritable s) a (length data)"
  shows "\<exists>mem1 s'. arena_write commit batch (\<lambda>A. A) a data (mem, s)
      = Some (True, (host_store a data mem1, s')) \<and> demand_grown (mem, s) (mem1, s')"
proof -
  let ?n = "length data" and ?e = "a + of_nat (length data)"
  obtain B where B: "ensure_range_backed_for_write commit batch a ?e (mem, s) = Some (True, B)"
    "demand_grown (mem, s) B" "backed_span (snd B) a ?n"
    using ensure_backed [of "(mem, s)" commit a ?n batch] assms by auto
  have inv: "arena_inv (snd B)" using B(2) by (simp add: demand_grown_def)
  have "as_host_nonwritable (snd B) = as_host_nonwritable s"
    using B(2) by (auto simp: demand_grown_def)
  then have "\<not> interval_intersects (as_host_nonwritable (snd B)) a ?e"
    using intersects_span [of "as_host_nonwritable s" a ?n] assms(1,7,9) by (simp add: arena_inv_def)
  then have "arena_write commit batch (\<lambda>A. A) a data (mem, s)
      = Some (True, (host_store a data (fst B), snd B))"
    using B(1,3) committed_span [OF inv assms(7)] assms(6,7)
    by (simp add: arena_write_def write_host_checked_def checked_span intersects_host_nonwritable_def)
  then show ?thesis using B(2) by (intro exI [of _ "fst B"] exI [of _ "snd B"]) simp
qed

lemma lazy_write:
  "\<exists>A. arena_write commit_all 1 (\<lambda>A. A) 0x1FFE [1, 2, 3] (\<lambda>_. 0, lazy_arena) = Some (True, A)"
  using lazy_store [OF lazy_arena_inv lazy_arena_paged commit_all_ok _ _ _ lazy_hyps, of 1 "\<lambda>_. 0"]
  by auto

text \<open>A host-side read of guest memory succeeds exactly when the span does
  not run past the end of the address space, every one of its bytes is backed by
  committed memory and none of them lies in a range the host may not read; it
  then returns the bytes of guest memory, and it never panics.\<close>

theorem arena_read_exact:
  assumes "arena_inv s" and "n < 18446744073709551616"
  shows "arena_read a n (mem, s) = Some (if readable s a n then Some (host_bytes mem a n) else None)"
proof (cases "unat a + n < 18446744073709551616")
  case True
  have "separated (as_host_noaccess s)" using assms(1) by (simp add: arena_inv_def)
  then show ?thesis
    using True committed_span [OF assms(1) True] intersects_span [OF _ True, of "as_host_noaccess s"]
    by (simp add: arena_read_def checked_span [OF assms(2)] readable_def intersects_host_noaccess_def
        split: bool.split)
qed (simp add: arena_read_def checked_span [OF assms(2)] readable_def)

theorem arena_read_exact_witness:
  "arena_read 0x2000 16 (\<lambda>_. 0, lazy_arena) = Some None"
proof -
  have "\<not> backed_span lazy_arena 0x2000 16"
    by (auto simp: backed_span_def all_kinds_def lazy_arena_kind intro!: exI [of _ "0x2000"])
  then show ?thesis
    using arena_read_exact [OF lazy_arena_inv, of 16 "0x2000" "\<lambda>_. 0"] by (simp add: readable_def)
qed

text \<open>Other threads keep the invariant.\<close>

definition others_ok :: "(arena \<Rightarrow> arena) \<Rightarrow> bool" where
  "others_ok others \<longleftrightarrow> (\<forall>A. arena_inv (snd A) \<longrightarrow> arena_inv (snd (others A)))"

lemma others_okD: "others_ok others \<Longrightarrow> arena_inv (snd A) \<Longrightarrow> arena_inv (snd (others A))"
  unfolding others_ok_def by blast

lemma arena_write_run:
  assumes inv: "arena_inv s" and pg: "reserved_paged (as_vmm s)" and loc: "commit_local commit"
    and oth: "others_ok others"
    and n: "length data < 18446744073709551616"
  obtains A where "demand_grown (mem, s) A"
      "arena_write commit batch others a data (mem, s) = Some (False, A)" "\<not> writable (snd A) a (length data)"
  | A where "demand_grown (mem, s) A" "\<not> writable (snd (others A)) a (length data)"
      "arena_write commit batch others a data (mem, s) = Some (False, others A)"
  | A where "demand_grown (mem, s) A" "writable (snd (others A)) a (length data)"
      "arena_write commit batch others a data (mem, s)
        = Some (True, (host_store a data (fst (others A)), snd (others A)))"
proof (cases "unat a + length data < 18446744073709551616")
  case False
  then show ?thesis
    using that(1) [of "(mem, s)"] inv demand_grown_refl [of "(mem, s)"]
    by (simp add: arena_write_def write_host_checked_def checked_span [OF n] writable_def)
next
  case True
  let ?n = "length data" and ?e = "a + of_nat (length data)"
  obtain ok B where B: "ensure_range_backed_for_write commit batch a ?e (mem, s) = Some (ok, B)"
    "demand_grown (mem, s) B" "ok \<longleftrightarrow> backed_span (snd B) a ?n"
    using ensure_backed [of "(mem, s)" commit a ?n batch] inv loc pg True by auto
  have invB: "arena_inv (snd (others B))" using B(2) others_okD [OF oth] by (simp add: demand_grown_def)
  then have sep: "separated (as_host_nonwritable (snd (others B)))" by (simp add: arena_inv_def)
  have run: "arena_write commit batch others a data (mem, s) =
      (if \<not> ok then Some (False, B)
       else if writable (snd (others B)) a ?n
            then Some (True, (host_store a data (fst (others B)), snd (others B)))
       else Some (False, others B))"
    using B(1) committed_span [OF invB True] intersects_span [OF sep True] True
    by (simp add: arena_write_def write_host_checked_def checked_span [OF n] writable_def
        intersects_host_nonwritable_def Let_def split: bool.split)
  show ?thesis
  proof (cases ok)
    case False
    then show ?thesis using that(1) [OF B(2)] run B(3) by (simp add: writable_def)
  next
    case True
    then show ?thesis
      using that(2,3) [OF B(2)] run by (cases "writable (snd (others B)) a ?n") simp_all
  qed
qed


text \<open>C26: A host-side write of guest memory never panics, whatever other threads
  do between its demand commit and its store. The bytes are stored only if, in
  the state under the lock that stores them, the span is within the address
  space, wholly backed and free of ranges the host may not write; then exactly
  those bytes change. A refused write stores nothing; beyond what the others
  did, all it may have done is back reserved addresses.\<close>

theorem arena_write_safe:
  assumes "arena_inv s" and "reserved_paged (as_vmm s)" and "commit_local commit"
    and "others_ok others"
    and "length data < 18446744073709551616"
  shows "case arena_write commit batch others a data (mem, s) of
      None \<Rightarrow> False
    | Some (ok, mem', s') \<Rightarrow> arena_inv s' \<and> (ok \<longleftrightarrow> writable s' a (length data)) \<and>
        (\<exists>A. demand_grown (mem, s) A \<and>
           (if ok then s' = snd (others A) \<and> mem' = host_store a data (fst (others A))
            else (mem', s') = A \<or> (mem', s') = others A))"
  using assms
proof (cases rule: arena_write_run [where commit = commit and batch = batch and others = others
      and a = a and data = data and mem = mem])
  case (1 A)
  then have "arena_inv (snd A)" by (simp add: demand_grown_def)
  then show ?thesis using 1 by (cases A) auto
next
  case (2 A)
  then have "arena_inv (snd A)" by (simp add: demand_grown_def)
  then have "arena_inv (snd (others A))" by (rule others_okD [OF assms(4)])
  then show ?thesis
    using 2 by (cases "others A") (auto simp del: split_paired_Ex intro!: exI [of _ A])
next
  case (3 A)
  then have "arena_inv (snd A)" by (simp add: demand_grown_def)
  then have "arena_inv (snd (others A))" by (rule others_okD [OF assms(4)])
  then show ?thesis using 3 by (auto simp del: split_paired_Ex intro!: exI [of _ A])
qed

theorem arena_write_safe_witness:
  "case arena_write commit_all 1 (\<lambda>A. A) 0x2FFE [1, 2, 3] (\<lambda>_. 0, lazy_arena) of
     None \<Rightarrow> False | Some (ok, mem', s') \<Rightarrow> arena_inv s' \<and> (ok \<longleftrightarrow> writable s' 0x2FFE 3)"
proof -
  have "others_ok (\<lambda>A. A)" by (simp add: others_ok_def)
  then show ?thesis
    using arena_write_safe [OF lazy_arena_inv lazy_arena_paged commit_all_ok(1), where others = "\<lambda>A. A"
        and data = "[1, 2, 3]" and batch = 1 and a = "0x2FFE" and mem = "\<lambda>_. 0"]
    by (auto simp: numeral_3_eq_3 split: option.splits)
qed

text \<open>A host-side write into memory that is backed or only reserved succeeds,
  when nobody interferes: a span of at most 16 MiB in which every address is
  backed or reserved and none is read-only to the host is committed on demand
  and stored, as a native store of the guest would be.\<close>

theorem arena_write_lazy:
  assumes "arena_inv s" and "reserved_paged (as_vmm s)" and "commit_local commit"
    and "commit_total commit" and "data \<noteq> []" and "length data \<le> 16777216"
    and "unat a + length data < 18446744073709551616"
    and "all_kinds (as_vmm s) (\<lambda>k. is_host_backed k \<or> k = Reserved)
      (unat a) (unat a + length data)"
    and "clear_of (as_host_nonwritable s) a (length data)"
  shows "\<exists>mem1 s'. arena_write commit batch (\<lambda>A. A) a data (mem, s)
      = Some (True, (host_store a data mem1, s')) \<and> demand_grown (mem, s) (mem1, s')"
  by (rule lazy_store [OF assms])

theorem arena_write_lazy_witness:
  "\<exists>mem1 s'. arena_write commit_all 1 (\<lambda>A. A) 0x1FFE [1, 2, 3] (\<lambda>_. 0, lazy_arena)
     = Some (True, (host_store 0x1FFE [1, 2, 3] mem1, s')) \<and>
     kind_at (as_vmm lazy_arena) 0x1FFE = Some Reserved"
  using arena_write_lazy [OF lazy_arena_inv lazy_arena_paged commit_all_ok _ _ _ lazy_hyps, of 1 "\<lambda>_. 0"]
    lazy_arena_kind [of "0x1FFE"]
  by auto

lemma host_bytes_store:
  assumes "unat a + length data < 18446744073709551616"
  shows "host_bytes (host_store a data mem) a (length data) = data"
proof (rule nth_equalityI)
  fix i assume "i < length (host_bytes (host_store a data mem) a (length data))"
  then have i: "i < length data" by (simp add: host_bytes_def)
  then have "unat (a + of_nat i) = unat a + i" using assms by (intro span_end) simp
  then show "host_bytes (host_store a data mem) a (length data) ! i = data ! i"
    using i by (simp add: host_bytes_def host_store_def)
qed (simp add: host_bytes_def)

text \<open>What a host-side write stored is what the next host-side read of the
  same span returns: a successful write leaves the span readable, and the read
  gives back the very bytes.\<close>

theorem arena_write_read_roundtrip:
  assumes "arena_inv s" and "reserved_paged (as_vmm s)" and "commit_local commit"
    and "others_ok others"
    and "length data < 18446744073709551616"
    and "arena_write commit batch others a data (mem, s) = Some (True, A')"
  shows "arena_read a (length data) A' = Some (Some data)"
  using assms(1-5)
proof (cases rule: arena_write_run [where commit = commit and batch = batch and others = others
      and a = a and data = data and mem = mem])
  case (3 A)
  let ?s = "snd (others A)" and ?n = "length data"
  have "arena_inv (snd A)" using 3(1) by (simp add: demand_grown_def)
  then have inv: "arena_inv ?s" by (rule others_okD [OF assms(4)])
  have A': "A' = (host_store a data (fst (others A)), ?s)" using 3(3) assms(6) by simp
  have w: "unat a + ?n < 18446744073709551616" "backed_span ?s a ?n"
    "clear_of (as_host_nonwritable ?s) a ?n"
    using 3(2) unfolding writable_def by blast+
  have "clear_of (as_host_noaccess ?s) a ?n"
    using w(3) inv by (auto simp: clear_of_def arena_inv_def)
  moreover have "separated (as_host_noaccess ?s)" using inv by (simp add: arena_inv_def)
  ultimately show ?thesis
    using w committed_span [OF inv w(1)] intersects_span [OF _ w(1), of "as_host_noaccess ?s"]
      host_bytes_store [OF w(1)]
    by (simp add: A' arena_read_def checked_span [OF assms(5)] intersects_host_noaccess_def)
qed (use assms(6) in auto)

theorem arena_write_read_roundtrip_witness:
  "\<exists>A. arena_write commit_all 1 (\<lambda>A. A) 0x1FFE [1, 2, 3] (\<lambda>_. 0, lazy_arena) = Some (True, A) \<and>
     arena_read 0x1FFE 3 A = Some (Some [1, 2, 3])"
proof -
  have "others_ok (\<lambda>A. A)" by (simp add: others_ok_def)
  moreover obtain A where A: "arena_write commit_all 1 (\<lambda>A. A) 0x1FFE [1, 2, 3] (\<lambda>_. 0, lazy_arena)
      = Some (True, A)"
    using lazy_write by blast
  ultimately show ?thesis
    using arena_write_read_roundtrip [OF lazy_arena_inv lazy_arena_paged commit_all_ok(1) _ _ A]
    by (simp add: numeral_3_eq_3)
qed

end
