(* ===== verification/Host_Io.thy ===== *)
theory Host_Io
  imports Raeen_Prelude
begin

text \<open>
  What the file layer sees of the host: error kinds, host paths, and the calls of
  the Rust standard library on files and directories.  The host file system is
  not part of the repository; its calls are the fields of \<open>host_ops\<close>, over an
  arbitrary host state.  Text is a list of bytes, as a Rust \<open>str\<close> is; a host path
  is the list of its components.
\<close>

type_synonym rust_str = "byte list"
type_synonym host_path = "rust_str list"

definition ascii :: "string \<Rightarrow> rust_str" where
  "ascii s = map of_char s"

section \<open>Errors\<close>

text \<open>\<open>std::io::ErrorKind\<close>, as far as the sources tell kinds apart.\<close>

datatype io_error_kind = NotFound | PermissionDenied | InvalidInput | OtherKind

section \<open>Answers of the host\<close>

text \<open>\<open>symlink_metadata\<close>, \<open>canonicalize\<close> and the kind of a target.\<close>

datatype link_kind = LinkSymlink | LinkOther | LinkError io_error_kind

datatype canonical = CanonOk host_path | CanonError io_error_kind

datatype host_kind = HostMissing | HostDirectory | HostFile u64

text \<open>One entry of \<open>read_dir\<close>: its name when it is Unicode, and whether it is a
  directory when its type could be read.\<close>

record host_entry =
  he_name :: "rust_str option"
  he_is_dir :: "bool option"

text \<open>A file handle is an arbitrary number.  \<open>ho_read_at\<close> is one positional read
  that was not interrupted (an interrupted one is repeated by the sources) and
  may be short; \<open>ho_write\<close> replaces the whole contents; \<open>ho_persist\<close> is the
  \<open>sync_all\<close> of a file opened for writing.\<close>

record 'h host_ops =
  ho_metadata :: "host_path \<Rightarrow> 'h \<Rightarrow> io_error_kind + host_kind"
  ho_symlink_metadata :: "host_path \<Rightarrow> 'h \<Rightarrow> link_kind"
  ho_canonicalize :: "host_path \<Rightarrow> 'h \<Rightarrow> canonical"
  ho_read_dir :: "host_path \<Rightarrow> 'h \<Rightarrow> io_error_kind + (io_error_kind + host_entry) list"
  ho_open :: "host_path \<Rightarrow> 'h \<Rightarrow> io_error_kind + nat"
  ho_read :: "host_path \<Rightarrow> 'h \<Rightarrow> io_error_kind + byte list"
  ho_read_at :: "nat \<Rightarrow> u64 \<Rightarrow> nat \<Rightarrow> 'h \<Rightarrow> io_error_kind + byte list"
  ho_write :: "host_path \<Rightarrow> byte list \<Rightarrow> 'h \<Rightarrow> (io_error_kind + unit) \<times> 'h"
  ho_persist :: "host_path \<Rightarrow> 'h \<Rightarrow> (io_error_kind + unit) \<times> 'h"
  ho_set_len :: "host_path \<Rightarrow> u64 \<Rightarrow> 'h \<Rightarrow> (io_error_kind + unit) \<times> 'h"
  ho_create_dir_all :: "host_path \<Rightarrow> 'h \<Rightarrow> (io_error_kind + unit) \<times> 'h"
  ho_remove_dir_all :: "host_path \<Rightarrow> 'h \<Rightarrow> (io_error_kind + unit) \<times> 'h"
  ho_remove_file :: "host_path \<Rightarrow> 'h \<Rightarrow> (io_error_kind + unit) \<times> 'h"
  ho_remove_dir :: "host_path \<Rightarrow> 'h \<Rightarrow> (io_error_kind + unit) \<times> 'h"
  ho_rename :: "host_path \<Rightarrow> host_path \<Rightarrow> 'h \<Rightarrow> (io_error_kind + unit) \<times> 'h"
  ho_entropy :: "nat \<Rightarrow> 'h \<Rightarrow> (unit + byte list) \<times> 'h"

section \<open>Paths of the standard library\<close>

text \<open>A component that starts with a drive qualifier or a separator makes
  \<open>PathBuf::push\<close> discard what it is pushed onto.\<close>

definition ascii_alpha :: "byte \<Rightarrow> bool" where
  "ascii_alpha b \<longleftrightarrow> 65 \<le> b \<and> b \<le> 90 \<or> 97 \<le> b \<and> b \<le> 122"

definition ascii_lower :: "byte \<Rightarrow> byte" where
  "ascii_lower b = (if 65 \<le> b \<and> b \<le> 90 then b + 32 else b)"

definition path_absolute :: "rust_str \<Rightarrow> bool" where
  "path_absolute s \<longleftrightarrow> s \<noteq> [] \<and> hd s = 47"

definition drive_qualified :: "rust_str \<Rightarrow> bool" where
  "drive_qualified s \<longleftrightarrow> 2 \<le> length s \<and> ascii_alpha (s ! 0) \<and> s ! 1 = 58"

definition path_push :: "host_path \<Rightarrow> rust_str \<Rightarrow> host_path" where
  "path_push p s = (if path_absolute s \<or> drive_qualified s then [s] else p @ [s])"

definition path_parent :: "host_path \<Rightarrow> host_path option" where
  "path_parent p = (if p = [] then None else Some (butlast p))"

section \<open>Text operations\<close>

text \<open>\<open>str::split\<close>: the pieces between the separators, empty ones included.\<close>

fun split_pieces :: "(byte \<Rightarrow> bool) \<Rightarrow> rust_str \<Rightarrow> rust_str list" where
  "split_pieces sep [] = [[]]"
| "split_pieces sep (b # bs) =
     (if sep b then [] # split_pieces sep bs
      else (case split_pieces sep bs of [] \<Rightarrow> [[b]] | p # ps \<Rightarrow> (b # p) # ps))"

text \<open>\<open>str::split_once\<close> and \<open>str::strip_prefix\<close>.\<close>

fun split_once :: "byte \<Rightarrow> rust_str \<Rightarrow> (rust_str \<times> rust_str) option" where
  "split_once sep [] = None"
| "split_once sep (b # bs) =
     (if b = sep then Some ([], bs)
      else map_option (\<lambda>(l, r). (b # l, r)) (split_once sep bs))"

definition strip_prefix :: "rust_str \<Rightarrow> rust_str \<Rightarrow> rust_str option" where
  "strip_prefix p s = (if take (length p) s = p then Some (drop (length p) s) else None)"

definition trim_start_byte :: "byte \<Rightarrow> rust_str \<Rightarrow> rust_str" where
  "trim_start_byte b s = dropWhile (\<lambda>c. c = b) s"

definition trim_end_byte :: "byte \<Rightarrow> rust_str \<Rightarrow> rust_str" where
  "trim_end_byte b s = rev (dropWhile (\<lambda>c. c = b) (rev s))"

lemma split_pieces_nonempty [simp]: "split_pieces sep s \<noteq> []"
  by (cases s) (auto split: list.splits)

lemma split_pieces_pieces: "p \<in> set (split_pieces sep s) \<Longrightarrow> b \<in> set p \<Longrightarrow> \<not> sep b \<and> b \<in> set s"
proof (induction s arbitrary: p)
  case (Cons a s)
  obtain q qs where q: "split_pieces sep s = q # qs" by (cases "split_pieces sep s") auto
  show ?case
  proof (cases "sep a")
    case True
    then show ?thesis using Cons.IH [of p] Cons.prems by auto
  next
    case False
    then have "p = a # q \<or> p \<in> set qs" using Cons.prems(1) q by simp
    then show ?thesis using Cons.IH [of q] Cons.IH [of p] Cons.prems(2) q False by auto
  qed
qed simp

lemma split_pieces_none: "\<forall>b\<in>set s. \<not> sep b \<Longrightarrow> split_pieces sep s = [s]"
  by (induction s) auto

lemma split_pieces_append:
  "\<forall>b\<in>set p. \<not> sep b \<Longrightarrow> sep c \<Longrightarrow> split_pieces sep (p @ c # s) = p # split_pieces sep s"
  by (induction p) auto

lemma split_once_app:
  "b \<notin> set l \<Longrightarrow> split_once b (l @ b # r) = Some (l, r)"
  by (induction l) auto

lemma split_once_Some:
  "split_once b s = Some (l, r) \<Longrightarrow> s = l @ b # r \<and> b \<notin> set l"
  by (induction s arbitrary: l) (auto split: if_splits)

lemma strip_prefix_Some: "strip_prefix p s = Some r \<longleftrightarrow> s = p @ r"
  by (auto simp: strip_prefix_def) (metis append_take_drop_id)

end
