(* ===== verification/Vfs_Path.thy ===== *)
theory Vfs_Path
  imports Host_Io "HOL-Library.Sublist"
begin

text \<open>
  The guest-to-host path boundary of \<open>crates/raeen-kernel/src/filesystem/mod.rs\<close>:
  normalisation of guest paths, the mount table, and \<open>combine_within_mount\<close> with
  its sanitation, symlink check and canonical containment.
\<close>

section \<open>Guest paths\<close>

definition SLASH :: byte where "SLASH = 47"
definition BACKSLASH :: byte where "BACKSLASH = 92"
definition COLON :: byte where "COLON = 58"

definition GUEST_WORKING_DIRECTORY :: rust_str where
  "GUEST_WORKING_DIRECTORY = ascii ''/app0''"

definition dot :: rust_str where "dot = ascii ''.''"
definition dot_dot :: rust_str where "dot_dot = ascii ''..''"
definition root_text :: rust_str where "root_text = [SLASH]"

definition normalize_mount_root :: "rust_str \<Rightarrow> rust_str" where
  "normalize_mount_root p =
     (let normalized = map (\<lambda>b. if b = BACKSLASH then SLASH else b) p;
          root = trim_end_byte SLASH normalized in
      if root = [] then root_text else root)"

definition kept_segment :: "rust_str \<Rightarrow> bool" where
  "kept_segment s \<longleftrightarrow> s \<noteq> [] \<and> s \<noteq> dot"

definition join_segments :: "rust_str list \<Rightarrow> rust_str" where
  "join_segments ss = concat (map (\<lambda>s. SLASH # s) ss)"

definition normalize_guest_path :: "rust_str \<Rightarrow> rust_str" where
  "normalize_guest_path p =
     (if p = [] then []
      else let start = (if hd p = SLASH then [] else normalize_mount_root GUEST_WORKING_DIRECTORY);
               normalized = start @ join_segments (filter kept_segment (split_pieces (\<lambda>b. b = SLASH) p)) in
           if normalized = [] then root_text else normalized)"

section \<open>Mount points\<close>

record mount_point =
  mp_prefix :: rust_str
  mp_host_path :: host_path
  mp_canonical_root :: "host_path option"

definition canonicalize_mount_root :: "'h host_ops \<Rightarrow> 'h \<Rightarrow> host_path \<Rightarrow> host_path option" where
  "canonicalize_mount_root H h p =
     (if p = [] then None
      else case ho_canonicalize H p h of CanonOk r \<Rightarrow> Some r | CanonError _ \<Rightarrow> None)"

definition mount_point_new :: "'h host_ops \<Rightarrow> 'h \<Rightarrow> rust_str \<Rightarrow> host_path \<Rightarrow> mount_point" where
  "mount_point_new H h p path =
     \<lparr>mp_prefix = p, mp_host_path = path, mp_canonical_root = canonicalize_mount_root H h path\<rparr>"

definition set_host_path :: "'h host_ops \<Rightarrow> 'h \<Rightarrow> host_path \<Rightarrow> mount_point \<Rightarrow> mount_point" where
  "set_host_path H h path m =
     m\<lparr>mp_canonical_root := canonicalize_mount_root H h path, mp_host_path := path\<rparr>"

text \<open>The first mount with the prefix is replaced in place.\<close>

fun remap_first :: "(mount_point \<Rightarrow> bool) \<Rightarrow> (mount_point \<Rightarrow> mount_point) \<Rightarrow> mount_point list
    \<Rightarrow> mount_point list option" where
  "remap_first P f [] = None"
| "remap_first P f (m # ms) = (if P m then Some (f m # ms) else map_option ((#) m) (remap_first P f ms))"

definition mount_table ::
  "'h host_ops \<Rightarrow> 'h \<Rightarrow> rust_str \<Rightarrow> host_path \<Rightarrow> mount_point list \<Rightarrow> mount_point list" where
  "mount_table H h ps5_prefix path ms =
     (let p = normalize_mount_root ps5_prefix in
      case remap_first (\<lambda>m. mp_prefix m = p) (set_host_path H h path) ms of
        Some ms' \<Rightarrow> ms'
      | None \<Rightarrow> sort_key (\<lambda>m. - int (length (mp_prefix m))) (ms @ [mount_point_new H h p path]))"

section \<open>Combination within a mount\<close>

definition MAX_HOST_NAME_LEN :: nat where "MAX_HOST_NAME_LEN = 255"

definition path_separator :: "byte \<Rightarrow> bool" where
  "path_separator b \<longleftrightarrow> b = SLASH \<or> b = BACKSLASH"

text \<open>The segment loop; the accumulator is the resolved segments.\<close>

fun sanitize_segments :: "rust_str list \<Rightarrow> rust_str list \<Rightarrow> rust_str list option" where
  "sanitize_segments [] acc = Some acc"
| "sanitize_segments (s # ss) acc =
     (if s = [] \<or> s = dot then sanitize_segments ss acc
      else if s = dot_dot then sanitize_segments ss (butlast acc)
      else if COLON \<in> set s \<or> path_absolute s then None
      else if MAX_HOST_NAME_LEN < length s \<or> 0 \<in> set s then None
      else sanitize_segments ss (acc @ [s]))"

text \<open>The climb from the candidate to its nearest existing ancestor.\<close>

function canonically_contained ::
  "'h host_ops \<Rightarrow> 'h \<Rightarrow> host_path \<Rightarrow> host_path \<Rightarrow> host_path \<Rightarrow> bool" where
  "canonically_contained H h canonical_root mount_root probe =
     (case ho_canonicalize H probe h of
        CanonOk real \<Rightarrow> prefix canonical_root real
      | CanonError e \<Rightarrow>
          if e = NotFound then
            if probe = mount_root then False
            else (case path_parent probe of
                None \<Rightarrow> False
              | Some parent \<Rightarrow>
                  if \<not> prefix mount_root parent then False
                  else canonically_contained H h canonical_root mount_root parent)
          else False)"
  by pat_completeness auto

termination
  by (relation "measure (\<lambda>(H, h, c, m, p). length p)") (auto simp: path_parent_def split: if_splits)

declare canonically_contained.simps [simp del]

definition link_allowed :: "link_kind \<Rightarrow> bool" where
  "link_allowed k \<longleftrightarrow> k = LinkOther \<or> k = LinkError NotFound"

definition combine_within_mount ::
  "'h host_ops \<Rightarrow> 'h \<Rightarrow> host_path \<Rightarrow> host_path option \<Rightarrow> rust_str \<Rightarrow> host_path option" where
  "combine_within_mount H h mount_root cached relative =
     (if mount_root = [] then None
      else case sanitize_segments (split_pieces path_separator relative) [] of
        None \<Rightarrow> None
      | Some segments \<Rightarrow>
          let candidate = foldl path_push mount_root segments;
              canonical_root = (case cached of Some r \<Rightarrow> Some r
                | None \<Rightarrow> canonicalize_mount_root H h mount_root) in
          if \<not> link_allowed (ho_symlink_metadata H candidate h) then None
          else (case canonical_root of
              None \<Rightarrow> Some candidate
            | Some r \<Rightarrow>
                if canonically_contained H h r mount_root candidate then Some candidate else None))"

section \<open>Resolution\<close>

definition MEMORY_SCHEME :: rust_str where "MEMORY_SCHEME = ascii ''memory:''"

definition memory_claims :: "rust_str \<Rightarrow> bool" where
  "memory_claims path \<longleftrightarrow> length MEMORY_SCHEME \<le> length path \<and>
     map ascii_lower (take (length MEMORY_SCHEME) path) = map ascii_lower MEMORY_SCHEME"

definition mount_matches :: "rust_str \<Rightarrow> mount_point \<Rightarrow> bool" where
  "mount_matches normalized m \<longleftrightarrow> normalized = mp_prefix m \<or>
     (case strip_prefix (mp_prefix m) normalized of
        None \<Rightarrow> False | Some rest \<Rightarrow> rest \<noteq> [] \<and> hd rest = SLASH)"

definition mount_relative :: "rust_str \<Rightarrow> mount_point \<Rightarrow> rust_str" where
  "mount_relative normalized m = trim_start_byte SLASH (drop (length (mp_prefix m)) normalized)"

definition resolve_path ::
  "'h host_ops \<Rightarrow> 'h \<Rightarrow> mount_point list \<Rightarrow> rust_str \<Rightarrow> host_path option" where
  "resolve_path H h ms path =
     (if memory_claims path then None
      else let normalized = normalize_guest_path path in
        case find (mount_matches normalized) ms of
          None \<Rightarrow> None
        | Some m \<Rightarrow> combine_within_mount H h (mp_host_path m) (mp_canonical_root m)
                      (mount_relative normalized m))"

section \<open>Confinement\<close>

text \<open>A segment the host cannot take for anything but one name.\<close>

definition safe_segment :: "rust_str \<Rightarrow> bool" where
  "safe_segment s \<longleftrightarrow> s \<noteq> [] \<and> s \<noteq> dot \<and> s \<noteq> dot_dot \<and> COLON \<notin> set s \<and> SLASH \<notin> set s \<and>
     BACKSLASH \<notin> set s \<and> 0 \<notin> set s \<and> length s \<le> MAX_HOST_NAME_LEN"

lemma sanitize_safe:
  assumes "sanitize_segments ss acc = Some r" and "\<forall>s\<in>set ss. SLASH \<notin> set s \<and> BACKSLASH \<notin> set s"
    and "\<forall>s\<in>set acc. safe_segment s"
  shows "\<forall>s\<in>set r. safe_segment s"
  using assms
proof (induction ss acc rule: sanitize_segments.induct)
  case (2 s ss acc)
  show ?case
  proof (cases "s = [] \<or> s = dot \<or> s = dot_dot")
    case True
    then consider "s = [] \<or> s = dot" | "s \<noteq> []" "s \<noteq> dot" "s = dot_dot" by blast
    then show ?thesis
    proof cases
      case 1
      then show ?thesis using 2 by simp
    next
      case 2
      then show ?thesis using "2.IH"(2) "2.prems" by (auto dest: in_set_butlastD)
    qed
  next
    case False
    then have c: "\<not> (COLON \<in> set s \<or> path_absolute s)" "\<not> (MAX_HOST_NAME_LEN < length s \<or> 0 \<in> set s)"
      using "2.prems"(1) by (auto split: if_splits)
    then have "safe_segment s" using False "2.prems"(2) by (simp add: safe_segment_def)
    then show ?thesis using "2.IH"(3) False c "2.prems" by auto
  qed
qed simp

lemma safe_push: "safe_segment s \<Longrightarrow> path_push p s = p @ [s]"
proof -
  assume s: "safe_segment s"
  have "\<not> path_absolute s" using s by (cases s) (auto simp: safe_segment_def path_absolute_def SLASH_def)
  moreover have "\<not> drive_qualified s"
  proof
    assume d: "drive_qualified s"
    then have "s ! 1 \<in> set s" by (intro nth_mem) (simp add: drive_qualified_def)
    moreover have "s ! 1 = COLON" using d by (simp add: drive_qualified_def COLON_def)
    ultimately show False using s by (simp add: safe_segment_def)
  qed
  ultimately show "path_push p s = p @ [s]" by (simp add: path_push_def)
qed

lemma foldl_push_safe: "\<forall>s\<in>set ss. safe_segment s \<Longrightarrow> foldl path_push p ss = p @ ss"
  by (induction ss arbitrary: p) (simp_all add: safe_push)

text \<open>The climb stops at the nearest ancestor that exists, which lies under the
  canonical root.\<close>

definition anchored_inside ::
  "'h host_ops \<Rightarrow> 'h \<Rightarrow> host_path \<Rightarrow> host_path \<Rightarrow> host_path \<Rightarrow> bool" where
  "anchored_inside H h canonical_root mount_root probe \<longleftrightarrow>
     (\<exists>k \<le> length probe. prefix mount_root (take k probe) \<and>
        (\<exists>real. ho_canonicalize H (take k probe) h = CanonOk real \<and> prefix canonical_root real) \<and>
        (\<forall>j. k < j \<and> j \<le> length probe \<longrightarrow>
           ho_canonicalize H (take j probe) h = CanonError NotFound))"

lemma contained_anchored:
  "canonically_contained H h c root probe \<Longrightarrow> prefix root probe \<Longrightarrow> anchored_inside H h c root probe"
proof (induction H h c root probe rule: canonically_contained.induct)
  case (1 H h c root probe)
  show ?case
  proof (cases "ho_canonicalize H probe h")
    case (CanonOk real)
    then show ?thesis using "1.prems" unfolding anchored_inside_def
      by (intro exI [of _ "length probe"]) (simp add: canonically_contained.simps [of H h c root probe])
  next
    case (CanonError e)
    let ?p = "butlast probe"
    have e: "e = NotFound" "probe \<noteq> root" "probe \<noteq> []" "prefix root ?p" "canonically_contained H h c root ?p"
      using "1.prems"(1) CanonError
      by (auto simp: canonically_contained.simps [of H h c root probe] path_parent_def split: if_splits)
    then have "anchored_inside H h c root ?p"
      using "1.IH" [OF CanonError, of "?p"] by (simp add: path_parent_def)
    then obtain k where k: "k \<le> length ?p" "prefix root (take k ?p)"
      "\<exists>real. ho_canonicalize H (take k ?p) h = CanonOk real \<and> prefix c real"
      "\<And>j. k < j \<Longrightarrow> j \<le> length ?p \<Longrightarrow> ho_canonicalize H (take j ?p) h = CanonError NotFound"
      by (auto simp: anchored_inside_def)
    have t: "take j ?p = take j probe" if "j \<le> length ?p" for j
      using that by (simp add: butlast_conv_take)
    have "ho_canonicalize H (take j probe) h = CanonError NotFound" if "k < j" "j \<le> length probe" for j
    proof (cases "j \<le> length ?p")
      case True
      then show ?thesis using k(4) that(1) t by simp
    next
      case False
      then have "j = length probe" using that(2) e(3) by simp
      then show ?thesis using CanonError e(1) by simp
    qed
    then show ?thesis using k t unfolding anchored_inside_def
      by (intro exI [of _ k]) auto
  qed
qed

definition effective_root :: "'h host_ops \<Rightarrow> 'h \<Rightarrow> mount_point \<Rightarrow> host_path option" where
  "effective_root H h m = (case mp_canonical_root m of
     Some r \<Rightarrow> Some r | None \<Rightarrow> canonicalize_mount_root H h (mp_host_path m))"

text \<open>What a resolved path is allowed to be: the root of a backed mount followed
  by plain names, whose end is no symbolic link, and whose nearest existing
  ancestor really lies below the real root of the mount.\<close>

definition confined :: "'h host_ops \<Rightarrow> 'h \<Rightarrow> mount_point \<Rightarrow> host_path \<Rightarrow> bool" where
  "confined H h m p \<longleftrightarrow>
     mp_host_path m \<noteq> [] \<and>
     (\<exists>names. p = mp_host_path m @ names \<and> (\<forall>s\<in>set names. safe_segment s)) \<and>
     ho_symlink_metadata H p h \<noteq> LinkSymlink \<and>
     (\<forall>r. effective_root H h m = Some r \<longrightarrow> anchored_inside H h r (mp_host_path m) p)"

lemma combine_confined:
  assumes "combine_within_mount H h (mp_host_path m) (mp_canonical_root m) rel = Some p"
  shows "confined H h m p"
proof -
  let ?pieces = "split_pieces path_separator rel"
  obtain names where names: "sanitize_segments ?pieces [] = Some names" "mp_host_path m \<noteq> []"
    using assms by (auto simp: combine_within_mount_def split: if_splits option.splits)
  have "\<forall>s\<in>set ?pieces. SLASH \<notin> set s \<and> BACKSLASH \<notin> set s"
    using split_pieces_pieces by (fastforce simp: path_separator_def)
  then have safe: "\<forall>s\<in>set names. safe_segment s" using sanitize_safe [OF names(1)] by simp
  have fold: "foldl path_push (mp_host_path m) names = mp_host_path m @ names"
    by (rule foldl_push_safe [OF safe])
  have p: "p = mp_host_path m @ names" "link_allowed (ho_symlink_metadata H p h)"
    "\<And>r. effective_root H h m = Some r \<Longrightarrow> canonically_contained H h r (mp_host_path m) p"
    using assms names fold
    by (auto simp: combine_within_mount_def effective_root_def Let_def split: if_splits option.splits)
  have "anchored_inside H h r (mp_host_path m) p" if "effective_root H h m = Some r" for r
    by (rule contained_anchored [OF p(3) [OF that]]) (simp add: p(1))
  then show ?thesis using names(2) p(1,2) safe by (auto simp: confined_def link_allowed_def)
qed

section \<open>A host for demonstrations\<close>

text \<open>A host without links: every listed path exists and is its own real path.\<close>

definition plain_host :: "host_path list \<Rightarrow> unit host_ops" where
  "plain_host existing =
     \<lparr>ho_metadata = (\<lambda>p h. if p \<in> set existing then Inr HostDirectory else Inl NotFound),
      ho_symlink_metadata = (\<lambda>p h. if p \<in> set existing then LinkOther else LinkError NotFound),
      ho_canonicalize = (\<lambda>p h. if p \<in> set existing then CanonOk p else CanonError NotFound),
      ho_read_dir = (\<lambda>p h. Inl NotFound), ho_open = (\<lambda>p h. Inl NotFound), ho_read = (\<lambda>p h. Inl NotFound),
      ho_read_at = (\<lambda>f off n h. Inr []), ho_write = (\<lambda>p d h. (Inr (), h)), ho_persist = (\<lambda>p h. (Inr (), h)),
      ho_set_len = (\<lambda>p n h. (Inr (), h)), ho_create_dir_all = (\<lambda>p h. (Inr (), h)),
      ho_remove_dir_all = (\<lambda>p h. (Inr (), h)), ho_remove_file = (\<lambda>p h. (Inr (), h)),
      ho_remove_dir = (\<lambda>p h. (Inr (), h)), ho_rename = (\<lambda>p q h. (Inr (), h)),
      ho_entropy = (\<lambda>n h. (Inr (replicate n 0), h))\<rparr>"

definition demo_root :: host_path where "demo_root = [ascii ''games'', ascii ''current'']"

definition demo_mounts :: "mount_point list" where
  "demo_mounts = [mount_point_new (plain_host [demo_root]) () (ascii ''/app0'') demo_root]"

section \<open>Properties\<close>

text \<open>C30: Whatever path a guest passes, and whatever links lie on the host, a path
  that resolves is the host root of one backed mount followed by plain names
  (no dot-dot, separator, drive or stream qualifier, NUL, or over-long name), it
  does not end in a symbolic link, and its nearest existing ancestor canonically
  lies below the canonical root of that mount.\<close>

theorem guest_paths_confined:
  assumes "resolve_path H h ms path = Some p"
  shows "\<exists>m\<in>set ms. mount_matches (normalize_guest_path path) m \<and> confined H h m p"
proof -
  obtain m where m: "find (mount_matches (normalize_guest_path path)) ms = Some m"
    "combine_within_mount H h (mp_host_path m) (mp_canonical_root m)
       (mount_relative (normalize_guest_path path) m) = Some p"
    using assms by (auto simp: resolve_path_def Let_def split: if_splits option.splits)
  have "m \<in> set ms" "mount_matches (normalize_guest_path path) m"
    using m(1) by (auto simp: find_Some_iff)
  then show ?thesis using combine_confined [OF m(2)] by blast
qed

lemma demo_resolves:
  "resolve_path (plain_host [demo_root]) () demo_mounts (ascii ''../../../Content/x.pak'')
     = Some (demo_root @ [ascii ''Content'', ascii ''x.pak''])"
  by code_simp

theorem guest_paths_confined_witness:
  "\<exists>m\<in>set demo_mounts. confined (plain_host [demo_root]) () m (demo_root @ [ascii ''Content'', ascii ''x.pak''])"
  using guest_paths_confined [OF demo_resolves] by blast

end
