(* ===== verification/Vfs_Mounts.thy ===== *)
theory Vfs_Mounts
  imports Vfs_Path Rust_Text
begin

text \<open>
  The mount table of the file layer and the save-data mount points of
  \<open>crates/raeen-kernel/src/filesystem/mod.rs\<close>: registering and replacing mounts,
  the 16 numbered save slots, and which mount answers a guest path.
\<close>

section \<open>State\<close>

record vfs_mounts =
  vm_mounts :: "mount_point list"
  vm_savedata_root :: host_path
  vm_savedata_slots :: "rust_str option list"

definition SAVEDATA_SLOTS :: nat where "SAVEDATA_SLOTS = 16"

definition vfs_mount ::
  "'h host_ops \<Rightarrow> 'h \<Rightarrow> rust_str \<Rightarrow> host_path \<Rightarrow> 'a vfs_mounts_scheme \<Rightarrow> 'a vfs_mounts_scheme" where
  "vfs_mount H h ps5_prefix path s = s\<lparr>vm_mounts := mount_table H h ps5_prefix path (vm_mounts s)\<rparr>"

text \<open>\<open>set_game_directory\<close> and \<open>set_temp_directory\<close> replace an existing mount
  only; \<open>set_mount_directory\<close> registers a missing one.\<close>

definition remap_existing ::
  "'h host_ops \<Rightarrow> 'h \<Rightarrow> rust_str \<Rightarrow> host_path \<Rightarrow> 'a vfs_mounts_scheme \<Rightarrow> 'a vfs_mounts_scheme" where
  "remap_existing H h p path s =
     (case remap_first (\<lambda>m. mp_prefix m = p) (set_host_path H h path) (vm_mounts s) of
        Some ms \<Rightarrow> s\<lparr>vm_mounts := ms\<rparr> | None \<Rightarrow> s)"

definition set_game_directory ::
  "'h host_ops \<Rightarrow> 'h \<Rightarrow> host_path \<Rightarrow> 'a vfs_mounts_scheme \<Rightarrow> 'a vfs_mounts_scheme" where
  "set_game_directory H h = remap_existing H h (ascii ''/app0'')"

definition set_temp_directory ::
  "'h host_ops \<Rightarrow> 'h \<Rightarrow> host_path \<Rightarrow> 'a vfs_mounts_scheme \<Rightarrow> 'a vfs_mounts_scheme" where
  "set_temp_directory H h = remap_existing H h (ascii ''/temp0'')"

definition set_mount_directory ::
  "'h host_ops \<Rightarrow> 'h \<Rightarrow> rust_str \<Rightarrow> host_path \<Rightarrow> 'a vfs_mounts_scheme \<Rightarrow> 'a vfs_mounts_scheme" where
  "set_mount_directory H h guest_root path s =
     (let root = normalize_mount_root guest_root in
      case remap_first (\<lambda>m. mp_prefix m = root) (set_host_path H h path) (vm_mounts s) of
        Some ms \<Rightarrow> s\<lparr>vm_mounts := ms\<rparr>
      | None \<Rightarrow> vfs_mount H h root path s)"

definition set_download_directory ::
  "'h host_ops \<Rightarrow> 'h \<Rightarrow> host_path \<Rightarrow> 'a vfs_mounts_scheme \<Rightarrow> 'a vfs_mounts_scheme" where
  "set_download_directory H h = set_mount_directory H h (ascii ''/download0'')"

definition set_savedata_directory ::
  "'h host_ops \<Rightarrow> 'h \<Rightarrow> host_path \<Rightarrow> 'a vfs_mounts_scheme \<Rightarrow> 'a vfs_mounts_scheme" where
  "set_savedata_directory H h path s =
     set_mount_directory H h (ascii ''/savedata0'') path (s\<lparr>vm_savedata_root := path\<rparr>)"

text \<open>The mounts of a new file layer; \<open>tmp\<close> is the host's temporary directory.\<close>

definition vfs_mounts_new :: "'h host_ops \<Rightarrow> 'h \<Rightarrow> host_path \<Rightarrow> vfs_mounts" where
  "vfs_mounts_new H h tmp =
     fold (\<lambda>(p, path). vfs_mount H h (ascii p) path)
       [(''/app0/'', [ascii ''games'', ascii ''current'']),
        (''/savedata0/'', [ascii ''savedata'']),
        (''/download0/'', [ascii ''downloads'', ascii ''current'']),
        (''/temp0/'', tmp @ [ascii ''raeen'', ascii ''current'']),
        (''/system/'', [ascii ''firmware'']),
        (''/dev/'', []),
        (''/proc/'', [])]
       \<lparr>vm_mounts = [], vm_savedata_root = [ascii ''savedata''],
        vm_savedata_slots = replicate SAVEDATA_SLOTS None\<rparr>"

section \<open>Save slots\<close>

text \<open>A slot name is one plain path component.\<close>

definition savedata_slot_path :: "rust_str \<Rightarrow> 'a vfs_mounts_scheme \<Rightarrow> io_error_kind + host_path" where
  "savedata_slot_path slot_name s =
     (if slot_name = [] \<or> SLASH \<in> set slot_name \<or> BACKSLASH \<in> set slot_name \<or>
         slot_name = dot \<or> slot_name = dot_dot \<or> drive_qualified slot_name
      then Inl InvalidInput
      else Inr (path_push (vm_savedata_root s) slot_name))"

definition savedata_prefix :: "nat \<Rightarrow> rust_str" where
  "savedata_prefix i = ascii ''/savedata'' @ dec i"

fun position :: "('x \<Rightarrow> bool) \<Rightarrow> 'x list \<Rightarrow> nat option" where
  "position P [] = None"
| "position P (x # xs) = (if P x then Some 0 else map_option Suc (position P xs))"

definition mount_savedata_slot ::
  "'h host_ops \<Rightarrow> 'h \<Rightarrow> rust_str \<Rightarrow> 'a vfs_mounts_scheme
     \<Rightarrow> (io_error_kind + rust_str \<times> host_path) \<times> 'a vfs_mounts_scheme" where
  "mount_savedata_slot H h slot_name s =
     (case savedata_slot_path slot_name s of
        Inl e \<Rightarrow> (Inl e, s)
      | Inr path \<Rightarrow>
          (case position (\<lambda>slot. slot = Some slot_name) (vm_savedata_slots s) of
             Some i \<Rightarrow> (Inr (savedata_prefix i, path), s)
           | None \<Rightarrow>
               (case position (\<lambda>slot. slot = None) (vm_savedata_slots s) of
                  None \<Rightarrow> (Inl OtherKind, s)
                | Some i \<Rightarrow>
                    (Inr (savedata_prefix i, path),
                     set_mount_directory H h (savedata_prefix i) path
                       (s\<lparr>vm_savedata_slots := (vm_savedata_slots s)[i := Some slot_name]\<rparr>)))))"

text \<open>\<open>str::parse::<usize>\<close> accepts a leading plus sign.\<close>

definition parse_usize :: "rust_str \<Rightarrow> nat option" where
  "parse_usize t =
     (let body = (case t of [] \<Rightarrow> [] | c # cs \<Rightarrow> if c = 43 then cs else t) in
      if body = [] \<or> \<not> list_all is_digit body \<or> 18446744073709551616 \<le> digits_value body then None
      else Some (digits_value body))"

definition savedata_index :: "rust_str \<Rightarrow> nat option" where
  "savedata_index p = (case strip_prefix (ascii ''/savedata'') p of
     None \<Rightarrow> None | Some digits \<Rightarrow> parse_usize digits)"

definition unmount_savedata_slot ::
  "'h host_ops \<Rightarrow> 'h \<Rightarrow> rust_str \<Rightarrow> 'a vfs_mounts_scheme \<Rightarrow> bool \<times> 'a vfs_mounts_scheme" where
  "unmount_savedata_slot H h ps5_prefix s =
     (let p = normalize_mount_root ps5_prefix in
      case savedata_index p of
        None \<Rightarrow> (False, s)
      | Some i \<Rightarrow>
          if length (vm_savedata_slots s) \<le> i \<or> vm_savedata_slots s ! i = None then (False, s)
          else
            let s1 = s\<lparr>vm_savedata_slots := (vm_savedata_slots s)[i := None]\<rparr> in
            (True, if i = 0 then set_mount_directory H h (ascii ''/savedata0'') (vm_savedata_root s1) s1
                   else s1\<lparr>vm_mounts := filter (\<lambda>m. mp_prefix m \<noteq> p) (vm_mounts s1)\<rparr>))"

definition savedata_mount_prefixes :: "'a vfs_mounts_scheme \<Rightarrow> rust_str list" where
  "savedata_mount_prefixes s =
     map savedata_prefix (filter (\<lambda>i. vm_savedata_slots s ! i \<noteq> None) [0..<length (vm_savedata_slots s)])"

section \<open>The table is sorted and free of duplicates\<close>

definition mounts_ok :: "mount_point list \<Rightarrow> bool" where
  "mounts_ok ms \<longleftrightarrow> distinct (map mp_prefix ms) \<and>
     sorted (map (\<lambda>m. - int (length (mp_prefix m))) ms)"

lemma remap_first_None: "remap_first P f ms = None \<longleftrightarrow> (\<forall>m\<in>set ms. \<not> P m)"
  by (induction ms) auto

lemma remap_first_split:
  "remap_first P f ms = Some ms' \<Longrightarrow> \<exists>a m b. ms = a @ m # b \<and> P m \<and> (\<forall>x\<in>set a. \<not> P x) \<and> ms' = a @ f m # b"
proof (induction ms arbitrary: ms')
  case (Cons x ms)
  show ?case
  proof (cases "P x")
    case True
    then show ?thesis using Cons.prems by (intro exI [of _ "[]"]) auto
  next
    case False
    then obtain r where "remap_first P f ms = Some r" "ms' = x # r" using Cons.prems by auto
    then obtain a m b where "ms = a @ m # b" "P m" "\<forall>y\<in>set a. \<not> P y" "r = a @ f m # b"
      using Cons.IH by blast
    then show ?thesis using False \<open>ms' = x # r\<close>
      by (intro exI [of _ "x # a"] exI [of _ m] exI [of _ b]) simp
  qed
qed simp

lemma set_host_path_prefix [simp]: "mp_prefix (set_host_path H h path m) = mp_prefix m"
  by (simp add: set_host_path_def)

lemma remap_prefixes:
  assumes "remap_first P (set_host_path H h path) ms = Some ms'"
  shows "map mp_prefix ms' = map mp_prefix ms"
  using remap_first_split [OF assms] by auto

lemma mounts_ok_prefixes: "map mp_prefix ms' = map mp_prefix ms \<Longrightarrow> mounts_ok ms' = mounts_ok ms"
proof -
  assume e: "map mp_prefix ms' = map mp_prefix ms"
  have k: "map (\<lambda>m. - int (length (mp_prefix m))) xs = map (\<lambda>p. - int (length p)) (map mp_prefix xs)" for xs
    by simp
  show "mounts_ok ms' = mounts_ok ms" unfolding mounts_ok_def k e ..
qed

lemma remap_ok:
  assumes "remap_first P (set_host_path H h path) ms = Some ms'" "mounts_ok ms"
  shows "mounts_ok ms'"
  using mounts_ok_prefixes [OF remap_prefixes [OF assms(1)]] assms(2) by simp

lemma mount_table_ok: "mounts_ok ms \<Longrightarrow> mounts_ok (mount_table H h p path ms)"
proof -
  assume ok: "mounts_ok ms"
  let ?p = "normalize_mount_root p"
  show "mounts_ok (mount_table H h p path ms)"
  proof (cases "remap_first (\<lambda>m. mp_prefix m = ?p) (set_host_path H h path) ms")
    case None
    then have "?p \<notin> mp_prefix ` set ms" by (auto simp: remap_first_None)
    then have "distinct (map mp_prefix (ms @ [mount_point_new H h ?p path]))"
      using ok by (auto simp: mounts_ok_def mount_point_new_def)
    then have "distinct (map mp_prefix (sort_key (\<lambda>m. - int (length (mp_prefix m))) (ms @ [mount_point_new H h ?p path])))"
      by (metis distinct_map set_sort distinct_sort)
    then show ?thesis using None by (simp add: mount_table_def mounts_ok_def)
  next
    case (Some ms')
    then show ?thesis using remap_ok [OF Some ok] by (simp add: mount_table_def)
  qed
qed

lemma mount_table_prefixes:
  "mp_prefix ` set (mount_table H h p path ms) = insert (normalize_mount_root p) (mp_prefix ` set ms)"
proof (cases "remap_first (\<lambda>m. mp_prefix m = normalize_mount_root p) (set_host_path H h path) ms")
  case None
  then show ?thesis by (auto simp: mount_table_def mount_point_new_def)
next
  case (Some ms')
  then obtain a m b where "ms = a @ m # b" "mp_prefix m = normalize_mount_root p"
    "ms' = a @ set_host_path H h path m # b" using remap_first_split by blast
  then show ?thesis using Some by (auto simp: mount_table_def)
qed

lemma find_sorted_first:
  assumes "find P ms = Some m" "m' \<in> set ms" "P m'" "sorted (map f ms)"
  shows "f m \<le> f m'"
proof -
  obtain i where i: "i < length ms" "ms ! i = m" "\<And>j. j < i \<Longrightarrow> \<not> P (ms ! j)"
    using assms(1) by (auto simp: find_Some_iff)
  obtain j where j: "j < length ms" "ms ! j = m'" using assms(2) by (auto simp: in_set_conv_nth)
  then have "i \<le> j" using i(3) assms(3) by (metis not_le)
  then show ?thesis using sorted_nth_mono [OF assms(4), of i j] i j by simp
qed

lemma same_prefix_same_mount:
  assumes "mounts_ok ms" "m \<in> set ms" "m' \<in> set ms" "mp_prefix m = mp_prefix m'"
  shows "m = m'"
  using assms by (auto simp: mounts_ok_def distinct_map inj_on_def)

lemma matches_same_length:
  assumes "mount_matches n m" "mount_matches n m'" "length (mp_prefix m) = length (mp_prefix m')"
  shows "mp_prefix m = mp_prefix m'"
proof -
  have "take (length (mp_prefix x)) n = mp_prefix x" if "mount_matches n x" for x
    using that by (auto simp: mount_matches_def strip_prefix_Some split: option.splits)
  then show ?thesis using assms by metis
qed

text \<open>The mount that answers a path: the one with the longest matching prefix.\<close>

lemma find_longest:
  assumes "mounts_ok ms"
  shows "find (mount_matches n) ms = Some m \<longleftrightarrow>
    m \<in> set ms \<and> mount_matches n m \<and>
    (\<forall>m'\<in>set ms. mount_matches n m' \<longrightarrow> m' = m \<or> length (mp_prefix m') < length (mp_prefix m))"
    (is "?l \<longleftrightarrow> ?r")
proof
  assume l: ?l
  then have m: "m \<in> set ms" "mount_matches n m" by (auto simp: find_Some_iff)
  have "m' = m \<or> length (mp_prefix m') < length (mp_prefix m)"
    if m': "m' \<in> set ms" "mount_matches n m'" for m'
  proof -
    have "length (mp_prefix m') \<le> length (mp_prefix m)"
      using find_sorted_first [OF l m', of "\<lambda>m. - int (length (mp_prefix m))"] assms
      by (simp add: mounts_ok_def)
    moreover have "m' = m" if "length (mp_prefix m') = length (mp_prefix m)"
      using same_prefix_same_mount [OF assms m'(1) m(1)] matches_same_length [OF m'(2) m(2) that] by simp
    ultimately show ?thesis by linarith
  qed
  then show ?r using m by blast
next
  assume r: ?r
  then have "find (mount_matches n) ms \<noteq> None" by (auto simp: find_None_iff)
  then obtain m2 where m2: "find (mount_matches n) ms = Some m2" by blast
  then have "m2 \<in> set ms" "mount_matches n m2" by (auto simp: find_Some_iff)
  moreover have "length (mp_prefix m) \<le> length (mp_prefix m2)"
    using find_sorted_first [OF m2, of m "\<lambda>m. - int (length (mp_prefix m))"] assms r
    by (simp add: mounts_ok_def)
  ultimately have "m2 = m" using r by (metis not_le)
  then show ?l using m2 by simp
qed

section \<open>Names of the save mount points\<close>

lemma is_digit_sep: "is_digit b \<Longrightarrow> b \<noteq> SLASH \<and> b \<noteq> BACKSLASH"
  by (auto simp: is_digit_def SLASH_def BACKSLASH_def)

lemma dec_no_sep: "b \<in> set (dec n) \<Longrightarrow> b \<noteq> SLASH \<and> b \<noteq> BACKSLASH"
  using dec_digits [of n] is_digit_sep by (auto simp: list_all_iff)

lemma dec_inj: "dec i = dec j \<Longrightarrow> i = j"
  using dec_digits [of i] dec_digits [of j] by metis

lemma savedata_prefix_inj: "savedata_prefix i = savedata_prefix j \<Longrightarrow> i = j"
  using dec_inj by (simp add: savedata_prefix_def)

lemma savedata_text: "BACKSLASH \<notin> set (ascii ''/savedata'')"
  by code_simp

lemma normalize_savedata_prefix [simp]:
  "normalize_mount_root (savedata_prefix i) = savedata_prefix i"
proof -
  have "BACKSLASH \<notin> set (savedata_prefix i)"
    using savedata_text dec_no_sep [of _ i] by (auto simp: savedata_prefix_def)
  then have m: "map (\<lambda>b. if b = BACKSLASH then SLASH else b) (savedata_prefix i) = savedata_prefix i"
    by (intro map_idI) auto
  have "dec i \<noteq> []" using dec_digits [of i] by simp
  then obtain b ds where d: "rev (dec i) = b # ds" by (cases "rev (dec i)") auto
  then have "b \<in> set (dec i)" by (metis list.set_intros(1) set_rev)
  then have "b \<noteq> SLASH" using dec_no_sep by simp
  then have "trim_end_byte SLASH (savedata_prefix i) = savedata_prefix i"
    using d by (simp add: trim_end_byte_def savedata_prefix_def)
  moreover have "savedata_prefix i \<noteq> []" by (simp add: savedata_prefix_def ascii_def)
  ultimately show ?thesis by (simp only: normalize_mount_root_def m Let_def if_False)
qed

lemma savedata_zero: "ascii ''/savedata0'' = savedata_prefix 0"
proof -
  have "ascii ''/savedata0'' = ascii ''/savedata'' @ [48]" by code_simp
  then show ?thesis by (simp add: savedata_prefix_def dec.simps)
qed

lemma parse_usize_dec: "n < 16 \<Longrightarrow> parse_usize (dec n) = Some n"
proof -
  assume n: "n < 16"
  obtain c cs where d: "dec n = c # cs" using dec_digits [of n] by (cases "dec n") auto
  then have "c \<noteq> 43" using dec_digits [of n] by (auto simp: is_digit_def)
  then show "parse_usize (dec n) = Some n"
    using d dec_digits [of n] n by (simp add: parse_usize_def Let_def)
qed

lemma savedata_index_prefix: "n < 16 \<Longrightarrow> savedata_index (savedata_prefix n) = Some n"
  by (simp add: savedata_index_def savedata_prefix_def strip_prefix_def parse_usize_dec)

section \<open>Slots keep their mounts\<close>

definition savedata_named :: "rust_str \<Rightarrow> bool" where
  "savedata_named p \<longleftrightarrow> strip_prefix (ascii ''/savedata'') p \<noteq> None"

lemma savedata_named_prefix [simp]: "savedata_named (savedata_prefix i)"
  by (simp add: savedata_named_def savedata_prefix_def strip_prefix_def)

text \<open>The mount with a prefix, and where it leads.\<close>

definition leads_to :: "mount_point list \<Rightarrow> rust_str \<Rightarrow> host_path \<Rightarrow> bool" where
  "leads_to ms p path \<longleftrightarrow> (\<exists>m\<in>set ms. mp_prefix m = p \<and> mp_host_path m = path)"

text \<open>A name a slot may have: one plain path component.\<close>

definition slot_name_ok :: "rust_str \<Rightarrow> bool" where
  "slot_name_ok name \<longleftrightarrow> name \<noteq> [] \<and> SLASH \<notin> set name \<and> BACKSLASH \<notin> set name \<and>
     name \<noteq> dot \<and> name \<noteq> dot_dot \<and> \<not> drive_qualified name"

lemma slot_path_ok [simp]:
  "savedata_slot_path name s = Inr path \<longleftrightarrow> slot_name_ok name \<and> path = path_push (vm_savedata_root s) name"
  by (auto simp: savedata_slot_path_def slot_name_ok_def)

lemma slot_name_path: "slot_name_ok name \<Longrightarrow> path_push r name = r @ [name]"
  by (cases name) (auto simp: slot_name_ok_def path_push_def path_absolute_def SLASH_def)

text \<open>The invariant, over two ghosts: \<open>g i\<close> is the save root that was in force when
  slot \<open>i\<close> was last claimed, and \<open>z\<close> says that the save root has been set since slot
  0 was claimed, which redirects its mount point to that root.\<close>

definition slot_dir :: "(nat \<Rightarrow> host_path) \<Rightarrow> bool \<Rightarrow> host_path \<Rightarrow> nat \<Rightarrow> rust_str \<Rightarrow> host_path" where
  "slot_dir g z root i name = (if i = 0 \<and> z then root else path_push (g i) name)"

definition slots_inv :: "(nat \<Rightarrow> host_path) \<Rightarrow> bool \<Rightarrow> 'a vfs_mounts_scheme \<Rightarrow> bool" where
  "slots_inv g z s \<longleftrightarrow>
     mounts_ok (vm_mounts s) \<and> length (vm_savedata_slots s) = SAVEDATA_SLOTS \<and>
     (\<forall>m\<in>set (vm_mounts s). savedata_named (mp_prefix m) \<longrightarrow>
        (\<exists>i < SAVEDATA_SLOTS. mp_prefix m = savedata_prefix i)) \<and>
     (\<forall>i < SAVEDATA_SLOTS. \<forall>name. vm_savedata_slots s ! i = Some name \<longrightarrow>
        slot_name_ok name \<and> leads_to (vm_mounts s) (savedata_prefix i)
          (slot_dir g z (vm_savedata_root s) i name)) \<and>
     (\<forall>i < SAVEDATA_SLOTS. \<forall>j < SAVEDATA_SLOTS. \<forall>name.
        vm_savedata_slots s ! i = Some name \<and> vm_savedata_slots s ! j = Some name \<longrightarrow> i = j)"

text \<open>One mapping is replaced or added, all others stay.\<close>

lemma set_mount_table:
  assumes "mounts_ok (vm_mounts s)" and p: "normalize_mount_root p = p"
  obtains ms where "set_mount_directory H h p path s = s\<lparr>vm_mounts := ms\<rparr>" "mounts_ok ms"
    "leads_to ms p path" "\<And>q r. q \<noteq> p \<Longrightarrow> leads_to ms q r = leads_to (vm_mounts s) q r"
    "mp_prefix ` set ms \<subseteq> insert p (mp_prefix ` set (vm_mounts s))"
proof (cases "remap_first (\<lambda>m. mp_prefix m = p) (set_host_path H h path) (vm_mounts s)")
  case (Some ms)
  then obtain a m b where ab: "vm_mounts s = a @ m # b" "mp_prefix m = p"
    "ms = a @ set_host_path H h path m # b" using remap_first_split by blast
  show thesis
  proof (rule that [of ms])
    show "set_mount_directory H h p path s = s\<lparr>vm_mounts := ms\<rparr>"
      using Some p by (simp add: set_mount_directory_def)
    show "mounts_ok ms" by (rule remap_ok [OF Some assms(1)])
    show "leads_to ms p path" using ab by (auto simp: leads_to_def set_host_path_def)
    show "leads_to ms q r = leads_to (vm_mounts s) q r" if "q \<noteq> p" for q r
      using ab that by (auto simp: leads_to_def)
    show "mp_prefix ` set ms \<subseteq> insert p (mp_prefix ` set (vm_mounts s))" using ab by auto
  qed
next
  case None
  let ?ms = "mount_table H h p path (vm_mounts s)"
  have set: "set ?ms = insert (mount_point_new H h p path) (set (vm_mounts s))"
    using None p by (simp add: mount_table_def)
  show thesis
  proof (rule that [of ?ms])
    show "set_mount_directory H h p path s = s\<lparr>vm_mounts := ?ms\<rparr>"
      using None p by (simp add: set_mount_directory_def vfs_mount_def)
    show "mounts_ok ?ms" by (rule mount_table_ok [OF assms(1)])
    show "leads_to ?ms p path" using set by (auto simp: leads_to_def mount_point_new_def)
    show "leads_to ?ms q r = leads_to (vm_mounts s) q r" if "q \<noteq> p" for q r
      using set that by (auto simp: leads_to_def mount_point_new_def)
    show "mp_prefix ` set ?ms \<subseteq> insert p (mp_prefix ` set (vm_mounts s))"
      using set by (auto simp: mount_point_new_def)
  qed
qed

lemma position_Some: "position P xs = Some i \<Longrightarrow> i < length xs \<and> P (xs ! i)"
  by (induction xs arbitrary: i) (auto split: if_splits)

lemma position_None: "position P xs = None \<Longrightarrow> i < length xs \<Longrightarrow> \<not> P (xs ! i)"
  by (induction xs arbitrary: i) (auto simp: nth_Cons split: if_splits nat.splits)

text \<open>Mounts outside the \<open>/savedata\<close> name space.\<close>

lemma outside_inv:
  assumes inv: "slots_inv g z s" and p: "\<not> savedata_named p" and ok: "mounts_ok ms"
    and lead: "\<And>q r. q \<noteq> p \<Longrightarrow> leads_to ms q r = leads_to (vm_mounts s) q r"
    and prefixes: "mp_prefix ` set ms \<subseteq> insert p (mp_prefix ` set (vm_mounts s))"
  shows "slots_inv g z (s\<lparr>vm_mounts := ms\<rparr>)"
proof -
  have "savedata_prefix i \<noteq> p" for i using p by auto
  moreover have "\<exists>i < SAVEDATA_SLOTS. mp_prefix m = savedata_prefix i"
    if "m \<in> set ms" "savedata_named (mp_prefix m)" for m
  proof -
    have "mp_prefix m \<in> mp_prefix ` set (vm_mounts s)" using prefixes that p by auto
    then obtain m' where "m' \<in> set (vm_mounts s)" "mp_prefix m' = mp_prefix m" by auto
    then show ?thesis using inv that(2) by (metis slots_inv_def)
  qed
  ultimately show ?thesis using inv ok lead unfolding slots_inv_def by simp
qed

lemma set_mount_outside:
  assumes "slots_inv g z s" "\<not> savedata_named p" "normalize_mount_root p = p"
  shows "slots_inv g z (set_mount_directory H h p path s)"
proof -
  have ok: "mounts_ok (vm_mounts s)" using assms(1) by (simp add: slots_inv_def)
  obtain ms where ms: "set_mount_directory H h p path s = s\<lparr>vm_mounts := ms\<rparr>" "mounts_ok ms"
    "leads_to ms p path" "\<And>q r. q \<noteq> p \<Longrightarrow> leads_to ms q r = leads_to (vm_mounts s) q r"
    "mp_prefix ` set ms \<subseteq> insert p (mp_prefix ` set (vm_mounts s))"
    by (rule set_mount_table [OF ok assms(3)]) blast
  show ?thesis unfolding ms(1) by (rule outside_inv [OF assms(1,2) ms(2,4,5)])
qed

lemma remap_existing_outside:
  assumes "slots_inv g z s" "\<not> savedata_named p"
  shows "slots_inv g z (remap_existing H h p path s)"
proof (cases "remap_first (\<lambda>m. mp_prefix m = p) (set_host_path H h path) (vm_mounts s)")
  case (Some ms)
  then obtain a m b where ab: "vm_mounts s = a @ m # b" "mp_prefix m = p"
    "ms = a @ set_host_path H h path m # b" using remap_first_split by blast
  have "slots_inv g z (s\<lparr>vm_mounts := ms\<rparr>)"
  proof (rule outside_inv [OF assms])
    show "mounts_ok ms" using remap_ok [OF Some] assms(1) by (simp add: slots_inv_def)
    show "leads_to ms q r = leads_to (vm_mounts s) q r" if "q \<noteq> p" for q r
      using ab that by (auto simp: leads_to_def)
    show "mp_prefix ` set ms \<subseteq> insert p (mp_prefix ` set (vm_mounts s))" using ab by auto
  qed
  then show ?thesis using Some by (simp add: remap_existing_def)
qed (use assms in \<open>simp add: remap_existing_def\<close>)

lemma vfs_mount_outside:
  assumes "slots_inv g z s" "\<not> savedata_named (normalize_mount_root p)"
  shows "slots_inv g z (vfs_mount H h p path s)"
  unfolding vfs_mount_def
proof (rule outside_inv [OF assms])
  let ?p = "normalize_mount_root p" and ?ms = "mount_table H h p path (vm_mounts s)"
  show "mounts_ok ?ms" using assms(1) by (intro mount_table_ok) (simp add: slots_inv_def)
  show "leads_to ?ms q r = leads_to (vm_mounts s) q r" if "q \<noteq> ?p" for q r
  proof (cases "remap_first (\<lambda>m. mp_prefix m = ?p) (set_host_path H h path) (vm_mounts s)")
    case None
    then show ?thesis using that by (auto simp: mount_table_def leads_to_def mount_point_new_def)
  next
    case (Some ms)
    then obtain a m b where "vm_mounts s = a @ m # b" "mp_prefix m = ?p"
      "ms = a @ set_host_path H h path m # b" using remap_first_split by blast
    then show ?thesis using that Some by (auto simp: mount_table_def leads_to_def)
  qed
  show "mp_prefix ` set ?ms \<subseteq> insert ?p (mp_prefix ` set (vm_mounts s))"
    by (simp add: mount_table_prefixes)
qed

text \<open>A claim: the slot keeps the root in force, and a redirection of slot 0 ends
  with its next claim.\<close>

lemma bind_slot_inv:
  assumes inv: "slots_inv g z s" and i: "i < SAVEDATA_SLOTS"
    and free: "vm_savedata_slots s ! i = None"
    and new: "\<forall>j < SAVEDATA_SLOTS. vm_savedata_slots s ! j \<noteq> Some name"
    and path: "savedata_slot_path name s = Inr path"
  shows "slots_inv (g(i := vm_savedata_root s)) (z \<and> i \<noteq> 0) (set_mount_directory H h (savedata_prefix i) path
    (s\<lparr>vm_savedata_slots := (vm_savedata_slots s)[i := Some name]\<rparr>))"
proof -
  let ?s = "s\<lparr>vm_savedata_slots := (vm_savedata_slots s)[i := Some name]\<rparr>"
  have p: "path = path_push (vm_savedata_root s) name"
    using path by simp
  have "mounts_ok (vm_mounts ?s)" using inv by (simp add: slots_inv_def)
  then obtain ms where ms: "set_mount_directory H h (savedata_prefix i) path ?s = ?s\<lparr>vm_mounts := ms\<rparr>"
    "mounts_ok ms" "leads_to ms (savedata_prefix i) path"
    "\<And>q r. q \<noteq> savedata_prefix i \<Longrightarrow> leads_to ms q r = leads_to (vm_mounts s) q r"
    "mp_prefix ` set ms \<subseteq> insert (savedata_prefix i) (mp_prefix ` set (vm_mounts s))"
    using set_mount_table [of ?s "savedata_prefix i" H h path] by auto
  have len: "length (vm_savedata_slots s) = SAVEDATA_SLOTS" using inv by (simp add: slots_inv_def)
  have other: "savedata_prefix j \<noteq> savedata_prefix i" if "j \<noteq> i" for j
    using that savedata_prefix_inj by blast
  have named: "\<exists>j < SAVEDATA_SLOTS. mp_prefix m = savedata_prefix j"
    if "m \<in> set ms" "savedata_named (mp_prefix m)" for m
  proof (cases "mp_prefix m = savedata_prefix i")
    case False
    then have "mp_prefix m \<in> mp_prefix ` set (vm_mounts s)" using ms(5) that(1) by auto
    then obtain m' where "m' \<in> set (vm_mounts s)" "mp_prefix m' = mp_prefix m" by auto
    then show ?thesis using inv that(2) by (metis slots_inv_def)
  qed (use i in blast)
  let ?dir = "slot_dir (g(i := vm_savedata_root s)) (z \<and> i \<noteq> 0) (vm_savedata_root s)"
  have "slot_name_ok n \<and> leads_to ms (savedata_prefix j) (?dir j n)"
    if j: "j < SAVEDATA_SLOTS" "(vm_savedata_slots s)[i := Some name] ! j = Some n" for j n
  proof (cases "j = i")
    case True
    then show ?thesis using j i len path p ms(3) by (auto simp: slot_dir_def)
  next
    case False
    then have "vm_savedata_slots s ! j = Some n" using j(2) by simp
    then have "slot_name_ok n \<and> leads_to (vm_mounts s) (savedata_prefix j)
        (slot_dir g z (vm_savedata_root s) j n)"
      using inv j(1) by (simp add: slots_inv_def)
    moreover have "?dir j n = slot_dir g z (vm_savedata_root s) j n"
      using False by (auto simp: slot_dir_def)
    ultimately show ?thesis using ms(4) [OF other [OF False]] by simp
  qed
  moreover have "j = k" if "j < SAVEDATA_SLOTS" "k < SAVEDATA_SLOTS"
    "(vm_savedata_slots s)[i := Some name] ! j = Some n" "(vm_savedata_slots s)[i := Some name] ! k = Some n"
    for j k n
    using that new inv i len by (auto simp: slots_inv_def nth_list_update split: if_splits)
  ultimately show ?thesis using ms(1,2) len named unfolding slots_inv_def by simp
qed

definition note_claims ::
  "'a vfs_mounts_scheme \<Rightarrow> 'a vfs_mounts_scheme \<Rightarrow> (nat \<Rightarrow> host_path) \<Rightarrow> nat \<Rightarrow> host_path" where
  "note_claims s s' g = (\<lambda>i. if i < SAVEDATA_SLOTS \<and> vm_savedata_slots s ! i = None \<and> vm_savedata_slots s' ! i \<noteq> None
     then vm_savedata_root s else g i)"

lemma set_mount_slots [simp]: "vm_savedata_slots (set_mount_directory H h p path s) = vm_savedata_slots s"
  by (simp add: set_mount_directory_def vfs_mount_def Let_def split: option.splits)

lemma mount_slot_inv:
  assumes "slots_inv g z s" "mount_savedata_slot H h name s = (r, s')"
  shows "slots_inv (note_claims s s' g) (z \<and> vm_savedata_slots s ! 0 \<noteq> None) s'"
proof (cases "s' = s")
  case True
  have "note_claims s s g = g" by (rule ext) (auto simp: note_claims_def)
  moreover have "slot_dir g (z \<and> vm_savedata_slots s ! 0 \<noteq> None) r i n = slot_dir g z r i n"
    if "vm_savedata_slots s ! i = Some n" for r i n
    using that by (auto simp: slot_dir_def)
  then have "slots_inv g (z \<and> vm_savedata_slots s ! 0 \<noteq> None) s"
    using assms(1) unfolding slots_inv_def by simp
  ultimately show ?thesis using True by simp
next
  case False
  then obtain path i where c: "savedata_slot_path name s = Inr path"
    "position (\<lambda>slot. slot = Some name) (vm_savedata_slots s) = None"
    "position (\<lambda>slot. slot = None) (vm_savedata_slots s) = Some i"
    "s' = set_mount_directory H h (savedata_prefix i) path
       (s\<lparr>vm_savedata_slots := (vm_savedata_slots s)[i := Some name]\<rparr>)"
    using assms(2) by (auto simp: mount_savedata_slot_def split: sum.splits option.splits)
  have len: "length (vm_savedata_slots s) = SAVEDATA_SLOTS" using assms(1) by (simp add: slots_inv_def)
  have i: "i < SAVEDATA_SLOTS" "vm_savedata_slots s ! i = None" using position_Some [OF c(3)] len by auto
  have g: "note_claims s s' g = g(i := vm_savedata_root s)"
    by (rule ext) (use i len in \<open>auto simp: note_claims_def c(4) nth_list_update split: if_splits\<close>)
  have b: "slots_inv (g(i := vm_savedata_root s)) (z \<and> i \<noteq> 0) s'" unfolding c(4)
    using bind_slot_inv [OF assms(1) i _ c(1), of H h] position_None [OF c(2)] len by auto
  have "vm_savedata_slots s ! 0 = None \<Longrightarrow> i = 0"
    using c(3) i(1) len by (cases "vm_savedata_slots s") auto
  then have "(z \<and> i \<noteq> 0) = (z \<and> vm_savedata_slots s ! 0 \<noteq> None)" using i(2) by (cases "i = 0") auto
  then show ?thesis using b g by simp
qed

lemma clear_slot_inv:
  assumes "slots_inv g z s"
  shows "slots_inv g z (s\<lparr>vm_savedata_slots := (vm_savedata_slots s)[i := None]\<rparr>)"
proof -
  have "vm_savedata_slots s ! j = Some n" if "(vm_savedata_slots s)[i := None] ! j = Some n"
    "j < length (vm_savedata_slots s)" for j n
    using that by (cases "j = i") auto
  then show ?thesis using assms unfolding slots_inv_def by simp
qed

text \<open>Dropping or remapping the mount of a free slot.\<close>

lemma drop_mount_inv:
  assumes inv: "slots_inv g z s" and free: "\<And>i. i < SAVEDATA_SLOTS \<Longrightarrow> savedata_prefix i = p \<Longrightarrow>
    vm_savedata_slots s ! i = None"
  shows "slots_inv g z (s\<lparr>vm_mounts := filter (\<lambda>m. mp_prefix m \<noteq> p) (vm_mounts s)\<rparr>)"
proof -
  let ?ms = "filter (\<lambda>m. mp_prefix m \<noteq> p) (vm_mounts s)"
  have "mounts_ok ?ms" using inv
    by (auto simp: slots_inv_def mounts_ok_def sorted_filter distinct_map inj_on_def)
  moreover have "leads_to ?ms (savedata_prefix i) r"
    if "i < SAVEDATA_SLOTS" "vm_savedata_slots s ! i = Some n" "leads_to (vm_mounts s) (savedata_prefix i) r" for i n r
    using free [OF that(1)] that(2,3) by (auto simp: leads_to_def)
  ultimately show ?thesis using inv unfolding slots_inv_def by simp
qed

lemma reset_zero_inv:
  assumes inv: "slots_inv g z s" and free: "vm_savedata_slots s ! 0 = None"
  shows "slots_inv g z (set_mount_directory H h (savedata_prefix 0) path s)"
proof -
  have ok: "mounts_ok (vm_mounts s)" using inv by (simp add: slots_inv_def)
  obtain ms where ms: "set_mount_directory H h (savedata_prefix 0) path s = s\<lparr>vm_mounts := ms\<rparr>"
    "mounts_ok ms" "leads_to ms (savedata_prefix 0) path"
    "\<And>q r. q \<noteq> savedata_prefix 0 \<Longrightarrow> leads_to ms q r = leads_to (vm_mounts s) q r"
    "mp_prefix ` set ms \<subseteq> insert (savedata_prefix 0) (mp_prefix ` set (vm_mounts s))"
    by (rule set_mount_table [OF ok normalize_savedata_prefix]) blast
  have named: "\<exists>j < SAVEDATA_SLOTS. mp_prefix m = savedata_prefix j"
    if "m \<in> set ms" "savedata_named (mp_prefix m)" for m
  proof (cases "mp_prefix m = savedata_prefix 0")
    case False
    then have "mp_prefix m \<in> mp_prefix ` set (vm_mounts s)" using ms(5) that(1) by auto
    then obtain m' where "m' \<in> set (vm_mounts s)" "mp_prefix m' = mp_prefix m" by auto
    then show ?thesis using inv that(2) by (metis slots_inv_def)
  qed (intro exI [of _ 0], simp add: SAVEDATA_SLOTS_def)
  have "leads_to ms (savedata_prefix i) r" if "vm_savedata_slots s ! i = Some n"
    "leads_to (vm_mounts s) (savedata_prefix i) r" for i n r
    using that free ms(4) savedata_prefix_inj [of i 0] by (cases "i = 0") auto
  then show ?thesis using inv ms(2) named unfolding ms(1) slots_inv_def by simp
qed

lemma unmount_slot_inv:
  assumes "slots_inv g z s" "unmount_savedata_slot H h p s = (r, s')"
  shows "slots_inv g z s'"
proof (cases "s' = s")
  case False
  let ?p = "normalize_mount_root p"
  obtain i where i: "savedata_index ?p = Some i" "i < length (vm_savedata_slots s)"
    and s': "s' = (let s1 = s\<lparr>vm_savedata_slots := (vm_savedata_slots s)[i := None]\<rparr> in
      if i = 0 then set_mount_directory H h (ascii ''/savedata0'') (vm_savedata_root s1) s1
      else s1\<lparr>vm_mounts := filter (\<lambda>m. mp_prefix m \<noteq> ?p) (vm_mounts s1)\<rparr>)"
    using assms(2) False by (auto simp: unmount_savedata_slot_def Let_def split: option.splits if_splits)
  let ?s1 = "s\<lparr>vm_savedata_slots := (vm_savedata_slots s)[i := None]\<rparr>"
  have inv: "slots_inv g z ?s1" by (rule clear_slot_inv [OF assms(1)])
  show ?thesis
  proof (cases "i = 0")
    case True
    then show ?thesis using reset_zero_inv [OF inv] i(2) s' by (simp add: savedata_zero Let_def)
  next
    case False
    have "vm_savedata_slots ?s1 ! j = None" if "j < SAVEDATA_SLOTS" "savedata_prefix j = ?p" for j
      using savedata_index_prefix [of j] that i by (simp add: SAVEDATA_SLOTS_def)
    then show ?thesis using drop_mount_inv [OF inv, of ?p] False s' by (simp add: Let_def)
  qed
qed (use assms(1) in simp)

section \<open>Reachable mount tables\<close>

text \<open>The launch of a title sets the save root and the other directories; the
  save-data service mounts and unmounts slots and mounts further names outside the
  \<open>/savedata\<close> name space.  All of these may come in any order, and the host may
  change in between.\<close>

inductive mounts_history :: "'h host_ops \<Rightarrow> (nat \<Rightarrow> host_path) \<Rightarrow> bool \<Rightarrow> vfs_mounts \<Rightarrow> bool" for H where
  hist_new: "mounts_history H g False (vfs_mounts_new H h tmp)"
| hist_mount_slot: "mounts_history H (note_claims s s' g) (z \<and> vm_savedata_slots s ! 0 \<noteq> None) s'"
    if "mounts_history H g z s" "mount_savedata_slot H h name s = (r, s')"
| hist_unmount_slot: "mounts_history H g z s'"
    if "mounts_history H g z s" "unmount_savedata_slot H h p s = (b, s')"
| hist_set_root: "mounts_history H g (vm_savedata_slots s ! 0 \<noteq> None) (set_savedata_directory H h path s)"
    if "mounts_history H g z s"
| hist_mount: "mounts_history H g z (vfs_mount H h p path s)"
    if "mounts_history H g z s" "\<not> savedata_named (normalize_mount_root p)"
| hist_game: "mounts_history H g z (set_game_directory H h path s)" if "mounts_history H g z s"
| hist_temp: "mounts_history H g z (set_temp_directory H h path s)" if "mounts_history H g z s"
| hist_download: "mounts_history H g z (set_download_directory H h path s)" if "mounts_history H g z s"

definition default_prefixes :: "rust_str list" where
  "default_prefixes = map ascii [''/app0/'', ''/savedata0/'', ''/download0/'', ''/temp0/'', ''/system/'', ''/dev/'', ''/proc/'']"

lemma fold_mounts:
  "mounts_ok (vm_mounts s) \<Longrightarrow>
   mounts_ok (vm_mounts (fold (\<lambda>(p, path). vfs_mount H h (ascii p) path) ps s)) \<and>
   mp_prefix ` set (vm_mounts (fold (\<lambda>(p, path). vfs_mount H h (ascii p) path) ps s))
     = (\<lambda>(p, path). normalize_mount_root (ascii p)) ` set ps \<union> mp_prefix ` set (vm_mounts s) \<and>
   vm_savedata_slots (fold (\<lambda>(p, path). vfs_mount H h (ascii p) path) ps s) = vm_savedata_slots s"
proof (induction ps arbitrary: s)
  case (Cons x ps)
  obtain p path where x: "x = (p, path)" by (cases x)
  let ?s = "vfs_mount H h (ascii p) path s"
  have "mounts_ok (vm_mounts ?s)" using mount_table_ok [OF Cons.prems] by (simp add: vfs_mount_def)
  moreover have "mp_prefix ` set (vm_mounts ?s) = insert (normalize_mount_root (ascii p)) (mp_prefix ` set (vm_mounts s))"
    by (simp add: vfs_mount_def mount_table_prefixes)
  moreover have "vm_savedata_slots ?s = vm_savedata_slots s" by (simp add: vfs_mount_def)
  ultimately show ?case using Cons.IH [of ?s] by (simp add: x Un_commute)
qed simp

lemma default_savedata:
  "\<forall>p\<in>set [''/app0/'', ''/savedata0/'', ''/download0/'', ''/temp0/'', ''/system/'', ''/dev/'', ''/proc/''].
     savedata_named (normalize_mount_root (ascii p)) \<longrightarrow> normalize_mount_root (ascii p) = ascii ''/savedata0''"
  by code_simp

lemma new_slots_inv: "slots_inv g z (vfs_mounts_new H h tmp)"
proof -
  let ?s = "vfs_mounts_new H h tmp"
  have ok: "mounts_ok (vm_mounts ?s)" "vm_savedata_slots ?s = replicate SAVEDATA_SLOTS None"
    unfolding vfs_mounts_new_def by (subst fold_mounts; simp add: mounts_ok_def)+
  have "mp_prefix ` set (vm_mounts ?s) \<subseteq> (normalize_mount_root \<circ> ascii) `
      set [''/app0/'', ''/savedata0/'', ''/download0/'', ''/temp0/'', ''/system/'', ''/dev/'', ''/proc/'']"
    unfolding vfs_mounts_new_def by (subst fold_mounts [THEN conjunct2, THEN conjunct1]) (auto simp: mounts_ok_def)
  then have prefixes: "\<exists>p\<in>set [''/app0/'', ''/savedata0/'', ''/download0/'', ''/temp0/'', ''/system/'', ''/dev/'', ''/proc/''].
      mp_prefix m = normalize_mount_root (ascii p)" if "m \<in> set (vm_mounts ?s)" for m
    using that by (auto simp only: comp_def)
  have "mp_prefix m = savedata_prefix 0" if m: "m \<in> set (vm_mounts ?s)" "savedata_named (mp_prefix m)" for m
  proof -
    obtain p where "p \<in> set [''/app0/'', ''/savedata0/'', ''/download0/'', ''/temp0/'', ''/system/'', ''/dev/'', ''/proc/'']"
      "mp_prefix m = normalize_mount_root (ascii p)" using prefixes [OF m(1)] by blast
    then show ?thesis using default_savedata m(2) by (simp only: savedata_zero)
  qed
  then show ?thesis using ok unfolding slots_inv_def
    by (auto simp: SAVEDATA_SLOTS_def intro: exI [of _ 0])
qed

lemma set_root_inv:
  assumes inv: "slots_inv g z s"
  shows "slots_inv g (vm_savedata_slots s ! 0 \<noteq> None) (set_savedata_directory H h path s)"
proof -
  let ?s = "s\<lparr>vm_savedata_root := path\<rparr>"
  have ok: "mounts_ok (vm_mounts ?s)" using inv by (simp add: slots_inv_def)
  obtain ms where ms: "set_mount_directory H h (savedata_prefix 0) path ?s = ?s\<lparr>vm_mounts := ms\<rparr>"
    "mounts_ok ms" "leads_to ms (savedata_prefix 0) path"
    "\<And>q r. q \<noteq> savedata_prefix 0 \<Longrightarrow> leads_to ms q r = leads_to (vm_mounts s) q r"
    "mp_prefix ` set ms \<subseteq> insert (savedata_prefix 0) (mp_prefix ` set (vm_mounts s))"
    using set_mount_table [OF ok normalize_savedata_prefix [of 0], where H = H and h = h and path = path] by auto
  have named: "\<exists>j < SAVEDATA_SLOTS. mp_prefix m = savedata_prefix j"
    if "m \<in> set ms" "savedata_named (mp_prefix m)" for m
  proof (cases "mp_prefix m = savedata_prefix 0")
    case False
    then have "mp_prefix m \<in> mp_prefix ` set (vm_mounts s)" using ms(5) that(1) by auto
    then obtain m' where "m' \<in> set (vm_mounts s)" "mp_prefix m' = mp_prefix m" by auto
    then show ?thesis using inv that(2) by (metis slots_inv_def)
  qed (intro exI [of _ 0], simp add: SAVEDATA_SLOTS_def)
  have other: "savedata_prefix i \<noteq> savedata_prefix 0" if "i \<noteq> 0" for i
    using that savedata_prefix_inj by blast
  have "slot_name_ok n \<and> leads_to ms (savedata_prefix i)
      (slot_dir g (vm_savedata_slots s ! 0 \<noteq> None) path i n)"
    if "i < SAVEDATA_SLOTS" "vm_savedata_slots s ! i = Some n" for i n
    using inv that ms(3) ms(4) [OF other] unfolding slots_inv_def
    by (cases "i = 0") (auto simp: slot_dir_def)
  then show ?thesis
    using inv ms(2) named unfolding set_savedata_directory_def savedata_zero ms(1) slots_inv_def by simp
qed

lemma outside_names:
  "\<not> savedata_named (ascii ''/app0'')" "\<not> savedata_named (ascii ''/temp0'')"
  "\<not> savedata_named (ascii ''/download0'')" "normalize_mount_root (ascii ''/download0'') = ascii ''/download0''"
  by code_simp+

lemma mounts_history_inv: "mounts_history H g z s \<Longrightarrow> slots_inv g z s"
proof (induction rule: mounts_history.induct)
  case (hist_new g h tmp)
  show ?case by (rule new_slots_inv)
next
  case (hist_mount_slot g z s h name r s')
  show ?case by (rule mount_slot_inv [OF hist_mount_slot.IH hist_mount_slot.hyps(2)])
next
  case (hist_unmount_slot g z s h p b s')
  show ?case by (rule unmount_slot_inv [OF hist_unmount_slot.IH hist_unmount_slot.hyps(2)])
next
  case (hist_set_root g z s h path)
  show ?case by (rule set_root_inv [OF hist_set_root.IH])
next
  case (hist_mount g z s p h path)
  show ?case by (rule vfs_mount_outside [OF hist_mount.IH hist_mount.hyps(2)])
qed (simp_all add: set_game_directory_def set_temp_directory_def set_download_directory_def
    remap_existing_outside set_mount_outside outside_names)

section \<open>Which mount answers below a slot\<close>

lemma below_slot_unique:
  assumes p: "normalized = savedata_prefix i @ rest" and r: "rest = [] \<or> hd rest = SLASH"
    and m: "mount_matches normalized m" "mp_prefix m = savedata_prefix j"
  shows "j = i"
proof -
  obtain rest2 where n2: "normalized = savedata_prefix j @ rest2" "rest2 = [] \<or> hd rest2 = SLASH"
    using m by (auto simp: mount_matches_def strip_prefix_Some split: option.splits)
  have digits: "takeWhile (\<lambda>b. b \<noteq> SLASH) (dec k @ r) = dec k" if "r = [] \<or> hd r = SLASH" for k r
  proof -
    have "takeWhile (\<lambda>b. b \<noteq> SLASH) (dec k @ r) = dec k @ takeWhile (\<lambda>b. b \<noteq> SLASH) r"
      using dec_no_sep [of _ k] by (simp add: takeWhile_append2)
    moreover have "takeWhile (\<lambda>b. b \<noteq> SLASH) r = []" using that by (cases r) auto
    ultimately show ?thesis by simp
  qed
  have "dec i @ rest = dec j @ rest2" using p n2(1) by (simp add: savedata_prefix_def)
  then have "dec i = dec j" using digits [OF r, of i] digits [OF n2(2), of j] by metis
  then show ?thesis using dec_inj by blast
qed

lemma slot_answers:
  assumes inv: "slots_inv g z s" and i: "i < SAVEDATA_SLOTS" and name: "vm_savedata_slots s ! i = Some name"
    and n: "normalized = savedata_prefix i @ rest" and r: "rest = [] \<or> hd rest = SLASH"
  shows "\<exists>m. find (mount_matches normalized) (vm_mounts s) = Some m \<and> mp_prefix m = savedata_prefix i \<and>
    mp_host_path m = (if i = 0 \<and> z then vm_savedata_root s else g i @ [name])"
proof -
  let ?dir = "if i = 0 \<and> z then vm_savedata_root s else g i @ [name]"
  have "slot_name_ok name" "leads_to (vm_mounts s) (savedata_prefix i)
      (slot_dir g z (vm_savedata_root s) i name)"
    using inv i name unfolding slots_inv_def by blast+
  then have "leads_to (vm_mounts s) (savedata_prefix i) ?dir" by (simp only: slot_dir_def slot_name_path)
  then obtain m where m: "m \<in> set (vm_mounts s)" "mp_prefix m = savedata_prefix i"
    "mp_host_path m = ?dir" unfolding leads_to_def by blast
  have mm: "mount_matches normalized m" using n r m(2) by (auto simp: mount_matches_def strip_prefix_def)
  have ok: "mounts_ok (vm_mounts s)" using inv by (simp add: slots_inv_def)
  have "m' = m \<or> length (mp_prefix m') < length (mp_prefix m)"
    if m': "m' \<in> set (vm_mounts s)" "mount_matches normalized m'" for m'
  proof (rule ccontr)
    assume c: "\<not> (m' = m \<or> length (mp_prefix m') < length (mp_prefix m))"
    obtain u where "normalized = mp_prefix m' @ u"
      using m'(2) by (auto simp: mount_matches_def strip_prefix_Some split: option.splits)
    moreover have "length (ascii ''/savedata'') \<le> length (mp_prefix m')"
      using c m(2) by (simp add: savedata_prefix_def)
    moreover have "take (length (ascii ''/savedata'')) normalized = ascii ''/savedata''"
      by (simp add: n savedata_prefix_def)
    ultimately have "take (length (ascii ''/savedata'')) (mp_prefix m') = ascii ''/savedata''" by simp
    then have "savedata_named (mp_prefix m')" by (simp add: savedata_named_def strip_prefix_def)
    then obtain j where j: "mp_prefix m' = savedata_prefix j" using inv m'(1) by (auto simp: slots_inv_def)
    then have "j = i" using below_slot_unique [OF n r m'(2) j] by simp
    then show False using c same_prefix_same_mount [OF ok m'(1) m(1)] j m(2) by simp
  qed
  then have "find (mount_matches normalized) (vm_mounts s) = Some m"
    using find_longest [OF ok] m(1) mm by blast
  then show ?thesis using m by blast
qed

section \<open>Properties\<close>

text \<open>C31: Mounted save slots lead to their own directories, over every history of
  the public operations on the table, setting the save root included: each
  claimed slot has a name no other claimed slot has, and every guest path below its
  mount point is answered by the mount that leads to the directory of that name
  under the save root in force when the slot was claimed.  The one exception is
  what the code does when the save root is set while slot 0 is mounted: from then
  until slot 0 is claimed again, its mount point leads to the root in force.\<close>

theorem save_slots_separate:
  assumes "mounts_history H g z s" and "i < SAVEDATA_SLOTS" and "vm_savedata_slots s ! i = Some name"
    and "normalize_guest_path path = savedata_prefix i @ rest" and "rest = [] \<or> hd rest = SLASH"
  shows "(\<exists>m. find (mount_matches (normalize_guest_path path)) (vm_mounts s) = Some m \<and>
      mp_host_path m = (if i = 0 \<and> z then vm_savedata_root s else g i @ [name])) \<and>
    slot_name_ok name \<and> (\<forall>j < SAVEDATA_SLOTS. j \<noteq> i \<longrightarrow> vm_savedata_slots s ! j \<noteq> Some name)"
proof -
  have inv: "slots_inv g z s" by (rule mounts_history_inv [OF assms(1)])
  show ?thesis using slot_answers [OF inv assms(2-5)] inv assms(2,3) unfolding slots_inv_def by blast
qed

text \<open>A launch with the save root \<open>savedata/title\<close>, and then two slots.\<close>

definition title_root :: host_path where "title_root = [ascii ''savedata'', ascii ''title'']"

definition demo_launched :: vfs_mounts where
  "demo_launched = set_savedata_directory (plain_host []) () title_root (vfs_mounts_new (plain_host []) () [])"

definition demo_one_slot :: vfs_mounts where
  "demo_one_slot = snd (mount_savedata_slot (plain_host []) () (ascii ''slotA'') demo_launched)"

definition demo_slots :: vfs_mounts where
  "demo_slots = snd (mount_savedata_slot (plain_host []) () (ascii ''slotB'') demo_one_slot)"

lemma demo_unclaimed: "vm_savedata_slots (vfs_mounts_new (plain_host []) () []) ! 0 = None"
  by code_simp

lemma demo_slots_history:
  "mounts_history (plain_host [])
     (note_claims demo_one_slot demo_slots (note_claims demo_launched demo_one_slot (\<lambda>_. [])))
     ((False \<and> vm_savedata_slots demo_launched ! 0 \<noteq> None) \<and> vm_savedata_slots demo_one_slot ! 0 \<noteq> None) demo_slots"
proof -
  have l: "mounts_history (plain_host []) (\<lambda>_. []) False demo_launched"
    using hist_set_root [OF hist_new [where H = "plain_host []" and g = "\<lambda>_. []" and h = "()" and tmp = "[]"],
        where h = "()" and path = title_root]
    by (simp only: demo_launched_def demo_unclaimed simp_thms not_True_eq_False)
  have r: "mount_savedata_slot (plain_host []) () name s
      = (fst (mount_savedata_slot (plain_host []) () name s), snd (mount_savedata_slot (plain_host []) () name s))" for name s
    by simp
  show ?thesis
    unfolding demo_slots_def demo_one_slot_def
    by (rule hist_mount_slot [OF hist_mount_slot [OF l r] r])
qed

lemma demo_slot_facts:
  "vm_savedata_slots demo_slots ! 1 = Some (ascii ''slotB'')"
  "vm_savedata_slots demo_one_slot ! 1 = None" "vm_savedata_root demo_one_slot = title_root"
  "normalize_guest_path (ascii ''//savedata1/./file.bin'') = savedata_prefix 1 @ ascii ''/file.bin''"
  "hd (ascii ''/file.bin'') = SLASH"
  by code_simp+

theorem save_slots_separate_witness:
  "\<exists>m. find (mount_matches (normalize_guest_path (ascii ''//savedata1/./file.bin''))) (vm_mounts demo_slots)
     = Some m \<and> mp_host_path m = title_root @ [ascii ''slotB'']"
  using save_slots_separate [OF demo_slots_history, of 1 "ascii ''slotB''" "ascii ''//savedata1/./file.bin''"]
    demo_slot_facts by (simp add: SAVEDATA_SLOTS_def note_claims_def)

text \<open>The number of a mount point is parsed leniently: another spelling of it frees
  the slot but leaves its mount in the table.\<close>

lemma unmount_leaves_mount:
  "case unmount_savedata_slot (plain_host []) () (ascii ''/savedata+1'') demo_slots of (b, s) \<Rightarrow>
     b \<and> vm_savedata_slots s ! 1 = None \<and> savedata_prefix 1 \<in> mp_prefix ` set (vm_mounts s)"
proof -
  let ?p = "ascii ''/savedata'' @ [43, 49]"
  have "normalize_mount_root (ascii ''/savedata+1'') = ?p" "savedata_prefix 1 \<noteq> ?p"
    "length (vm_savedata_slots demo_slots) = 16" "vm_savedata_slots demo_slots ! 1 \<noteq> None"
    "savedata_prefix 1 \<in> mp_prefix ` set (vm_mounts demo_slots)"
    by code_simp+
  moreover have "savedata_index ?p = Some 1"
    by (simp add: savedata_index_def strip_prefix_def parse_usize_def is_digit_def digits_value_def)
  ultimately show ?thesis by (auto simp: unmount_savedata_slot_def)
qed

text \<open>Setting the save root while slot 0 is mounted redirects its mount point.\<close>

lemma set_root_redirects_slot_zero:
  "case set_savedata_directory (plain_host []) () [ascii ''other''] demo_one_slot of s \<Rightarrow>
     vm_savedata_slots s ! 0 = Some (ascii ''slotA'') \<and> leads_to (vm_mounts s) (savedata_prefix 0) [ascii ''other'']"
  by (auto simp: leads_to_def) code_simp+

end
