(* ===== verification/Memory_Uri.thy ===== *)
theory Memory_Uri
  imports Vfs_Path Rust_Text
begin

text \<open>
  The \<open>memory:\<close> pseudo-files of
  \<open>crates/raeen-kernel/src/filesystem/memory_scheme.rs\<close>: the strict parser of
  their names, the narrow interface to the guest address space with its default
  range probe, and the gate and read of \<open>filesystem/mod.rs\<close> built on them.
\<close>

section \<open>Names\<close>

record memory_uri =
  mu_addr :: u64
  mu_len :: u64
  mu_flags :: u64
  mu_display_name :: rust_str

datatype memory_uri_error =
    NotMemoryScheme | MissingAddressSigil | EmptyAddress | NonHexAddress | NullAddress
  | MissingLengthField | NonDecimalLength | ZeroLength | LengthTooLarge | MissingFlagsField
  | NonDecimalFlags | MissingDisplayName | EmptyDisplayName | RangeOverflow

definition MAX_MEMORY_FILE_LEN :: u64 where "MAX_MEMORY_FILE_LEN = 0x10000000"

definition uri_end :: "memory_uri \<Rightarrow> u64 option" where
  "uri_end u = checked_add (mu_addr u) (mu_len u)"

definition is_hex :: "byte \<Rightarrow> bool" where
  "is_hex b \<longleftrightarrow> is_digit b \<or> 65 \<le> b \<and> b \<le> 70 \<or> 97 \<le> b \<and> b \<le> 102"

definition hex_digit :: "byte \<Rightarrow> nat" where
  "hex_digit b = (if is_digit b then unat b - 48 else if b \<le> 70 then unat b - 55 else unat b - 87)"

definition hex_value :: "byte list \<Rightarrow> nat" where
  "hex_value = foldl (\<lambda>n b. 16 * n + hex_digit b) 0"

text \<open>\<open>from_str_radix\<close> and \<open>parse\<close> on non-empty digit strings fail on overflow
  only.\<close>

definition u64_of :: "nat \<Rightarrow> u64 option" where
  "u64_of n = (if n < 18446744073709551616 then Some (of_nat n) else None)"

definition memory_parse :: "rust_str \<Rightarrow> memory_uri_error + memory_uri" where
  "memory_parse path =
     (if \<not> memory_claims path then Inl NotMemoryScheme
      else case strip_prefix [36] (drop (length MEMORY_SCHEME) path) of None \<Rightarrow> Inl MissingAddressSigil
      | Some body \<Rightarrow> (case split_once 44 body of None \<Rightarrow> Inl MissingLengthField
      | Some (addr_text, rest1) \<Rightarrow> (case split_once 44 rest1 of None \<Rightarrow> Inl MissingFlagsField
      | Some (len_text, rest2) \<Rightarrow> (case split_once 58 rest2 of None \<Rightarrow> Inl MissingDisplayName
      | Some (flags_text, display_name) \<Rightarrow>
          if addr_text = [] then Inl EmptyAddress
          else if \<not> list_all is_hex addr_text then Inl NonHexAddress
          else (case u64_of (hex_value addr_text) of None \<Rightarrow> Inl NonHexAddress
          | Some addr \<Rightarrow>
              if addr = 0 then Inl NullAddress
              else if len_text = [] \<or> \<not> list_all is_digit len_text then Inl NonDecimalLength
              else (case u64_of (digits_value len_text) of None \<Rightarrow> Inl NonDecimalLength
              | Some len \<Rightarrow>
                  if len = 0 then Inl ZeroLength
                  else if MAX_MEMORY_FILE_LEN < len then Inl LengthTooLarge
                  else if flags_text = [] \<or> \<not> list_all is_digit flags_text then Inl NonDecimalFlags
                  else (case u64_of (digits_value flags_text) of None \<Rightarrow> Inl NonDecimalFlags
                  | Some flags \<Rightarrow>
                      if display_name = [] then Inl EmptyDisplayName
                      else
                        let uri = \<lparr>mu_addr = addr, mu_len = len, mu_flags = flags,
                                   mu_display_name = display_name\<rparr> in
                        if uri_end uri = None then Inl RangeOverflow else Inr uri)))))))"

section \<open>The guest address space\<close>

text \<open>\<open>GuestByteSource\<close>: a read copies all the bytes or fails.  The probe is the
  default of the trait, one byte per page and the last byte.\<close>

record byte_source =
  gs_read :: "u64 \<Rightarrow> nat \<Rightarrow> byte list option"
  gs_range_readable :: "u64 \<Rightarrow> u64 \<Rightarrow> bool"

function range_probe :: "(u64 \<Rightarrow> bool) \<Rightarrow> u64 \<Rightarrow> u64 \<Rightarrow> bool" where
  "range_probe readable final at =
     (if \<not> readable at then False
      else if at = final then True
      else range_probe readable final (min (saturating_add at 0x1000) final))"
  by pat_completeness auto

termination
proof (relation "measure (\<lambda>(rd, final, at). if final < at then 2 ^ 64 else unat final - unat at)")
  fix rd :: "u64 \<Rightarrow> bool" and final at :: u64
  assume ne: "at \<noteq> final"
  let ?n = "min (saturating_add at 0x1000) final"
  have n: "?n \<le> final" by simp
  show "((rd, final, ?n), (rd, final, at)) \<in>
      measure (\<lambda>(rd, final, at). if final < at then 2 ^ 64 else unat final - unat at)"
  proof (cases "final < at")
    case True
    then show ?thesis using n unat_u64_lt [of final] by (simp add: not_less)
  next
    case False
    then have "unat at < unat final" using ne by (metis linorder_neqE_nat not_le word_le_nat_alt word_unat_eq_iff)
    then have "unat at < unat ?n" using unat_u64_lt [of final]
      by (simp add: min_def saturating_add_unat)
    moreover have "unat ?n \<le> unat final" using n by (simp only: word_le_nat_alt)
    ultimately have "unat final - unat ?n < unat final - unat at" by linarith
    then show ?thesis using False n by (simp add: not_less)
  qed
qed simp

declare range_probe.simps [simp del]

definition guest_range_readable :: "(u64 \<Rightarrow> nat \<Rightarrow> byte list option) \<Rightarrow> u64 \<Rightarrow> u64 \<Rightarrow> bool" where
  "guest_range_readable read addr len =
     (if len = 0 then True
      else case checked_add addr len of
        None \<Rightarrow> False
      | Some e \<Rightarrow> if e < 1 then False
          else range_probe (\<lambda>a. read a 1 \<noteq> None) (e - 1) addr)"

section \<open>The gate\<close>

datatype address_space_miss = NeverBound | Dropped

text \<open>The weak reference of the file layer: never set, set and gone, or alive.\<close>

type_synonym guest_binding = "byte_source option option"

definition guest_byte_source :: "guest_binding \<Rightarrow> address_space_miss + byte_source" where
  "guest_byte_source g = (case g of
     None \<Rightarrow> Inl NeverBound | Some None \<Rightarrow> Inl Dropped | Some (Some src) \<Rightarrow> Inr src)"

definition parse_and_validate_memory_uri :: "guest_binding \<Rightarrow> rust_str \<Rightarrow> io_error_kind + memory_uri" where
  "parse_and_validate_memory_uri g path =
     (case memory_parse path of
        Inl _ \<Rightarrow> Inl NotFound
      | Inr uri \<Rightarrow> (case guest_byte_source g of
          Inl _ \<Rightarrow> Inl OtherKind
        | Inr src \<Rightarrow> if \<not> gs_range_readable src (mu_addr uri) (mu_len uri) then Inl NotFound else Inr uri))"

definition memory_file_len :: "guest_binding \<Rightarrow> rust_str \<Rightarrow> io_error_kind + u64" where
  "memory_file_len g path = (case parse_and_validate_memory_uri g path of
     Inl e \<Rightarrow> Inl e | Inr uri \<Rightarrow> Inr (mu_len uri))"

definition read_memory_region ::
  "guest_binding \<Rightarrow> memory_uri \<Rightarrow> nat \<Rightarrow> u64 \<Rightarrow> io_error_kind + byte list" where
  "read_memory_region g region n offset =
     (let start = min offset (mu_len region);
          want = min (unat (mu_len region - start)) n in
      if want = 0 then Inr []
      else case guest_byte_source g of
        Inl _ \<Rightarrow> Inl OtherKind
      | Inr src \<Rightarrow> (case gs_read src (mu_addr region + start) want of
          None \<Rightarrow> Inl NotFound | Some bytes \<Rightarrow> Inr bytes))"

section \<open>Accepted names\<close>

definition uri_ok :: "memory_uri \<Rightarrow> bool" where
  "uri_ok u \<longleftrightarrow> mu_addr u \<noteq> 0 \<and> mu_len u \<noteq> 0 \<and> mu_len u \<le> MAX_MEMORY_FILE_LEN \<and>
     mu_display_name u \<noteq> [] \<and> unat (mu_addr u) + unat (mu_len u) < 18446744073709551616"

function hex :: "nat \<Rightarrow> byte list" where
  "hex n = (if n < 16 then [if n < 10 then of_nat (48 + n) else of_nat (87 + n)]
            else hex (n div 16) @ hex (n mod 16))"
  by pat_completeness auto

termination by (relation "measure id") auto

declare hex.simps [simp del]

text \<open>The spelling a title uses.\<close>

definition memory_uri_text :: "memory_uri \<Rightarrow> rust_str" where
  "memory_uri_text u = MEMORY_SCHEME @ [36] @ hex (unat (mu_addr u)) @ [44] @ dec (unat (mu_len u)) @
     [44] @ dec (unat (mu_flags u)) @ [58] @ mu_display_name u"

lemma hex_value_append: "hex_value (a @ b) = foldl (\<lambda>n b. 16 * n + hex_digit b) (hex_value a) b"
  by (simp add: hex_value_def)

lemma hex_one:
  assumes "n < 16"
  shows "list_all is_hex (hex n) \<and> hex n \<noteq> [] \<and> (\<exists>b. hex n = [b] \<and> hex_digit b = n)"
proof (cases "n < 10")
  case True
  then show ?thesis using digit_byte [OF True] unat_digit [OF True]
    by (simp add: hex.simps [of n] is_hex_def hex_digit_def)
next
  case False
  then have u: "unat (of_nat (87 + n) :: byte) = 87 + n" using assms
    by (simp only: unat_of_nat) (simp add: take_bit_nat_def)
  then have "\<not> is_digit (of_nat (87 + n))" "\<not> (of_nat (87 + n) :: byte) \<le> 70"
    "(97 :: byte) \<le> of_nat (87 + n)" "(of_nat (87 + n) :: byte) \<le> 102"
    using False assms by (simp_all add: is_digit_def word_le_nat_alt)
  then show ?thesis using False assms u by (simp add: hex.simps [of n] is_hex_def hex_digit_def)
qed

lemma hex_facts: "list_all is_hex (hex n) \<and> hex n \<noteq> [] \<and> hex_value (hex n) = n"
proof (induction n rule: less_induct)
  case (less n)
  show ?case
  proof (cases "n < 16")
    case True
    then show ?thesis using hex_one [OF True] by (auto simp: hex_value_def)
  next
    case False
    then have ih: "list_all is_hex (hex (n div 16))" "hex (n div 16) \<noteq> []" "hex_value (hex (n div 16)) = n div 16"
      using less [of "n div 16"] by simp_all
    obtain b where b: "hex (n mod 16) = [b]" "hex_digit b = n mod 16" "list_all is_hex (hex (n mod 16))"
      using hex_one [of "n mod 16"] by auto
    have "hex n = hex (n div 16) @ [b]" using False b(1) by (simp add: hex.simps [of n])
    then show ?thesis using ih b by (simp add: hex_value_append)
  qed
qed

lemma digit_not_sep: "is_digit b \<Longrightarrow> b \<noteq> 44 \<and> b \<noteq> 58"
  by (auto simp: is_digit_def)

lemma hex_not_sep: "is_hex b \<Longrightarrow> b \<noteq> 44"
  by (auto simp: is_hex_def is_digit_def)

lemma u64_of_unat [simp]: "u64_of (unat x) = Some x"
  using unat_u64_lt [of x] by (simp add: u64_of_def)

lemma memory_claims_text: "memory_claims (MEMORY_SCHEME @ t)"
  by (simp add: memory_claims_def)

lemma parse_text: "uri_ok u \<Longrightarrow> memory_parse (memory_uri_text u) = Inr u"
proof -
  assume ok: "uri_ok u"
  note h = hex_facts [of "unat (mu_addr u)"]
  note l = dec_digits [of "unat (mu_len u)"]
  note f = dec_digits [of "unat (mu_flags u)"]
  have "44 \<notin> set (hex (unat (mu_addr u)))" using h hex_not_sep by (auto simp: list_all_iff)
  moreover have "44 \<notin> set (dec (unat (mu_len u)))" using l digit_not_sep by (auto simp: list_all_iff)
  moreover have "58 \<notin> set (dec (unat (mu_flags u)))" using f digit_not_sep by (auto simp: list_all_iff)
  moreover have "uri_end u \<noteq> None" using ok by (auto simp: uri_end_def uri_ok_def checked_add_None_iff)
  moreover have "uri_end \<lparr>mu_addr = mu_addr u, mu_len = mu_len u, mu_flags = mu_flags u,
      mu_display_name = mu_display_name u\<rparr> = uri_end u" by (simp add: uri_end_def)
  ultimately show ?thesis using h l f ok
    by (simp add: memory_parse_def memory_uri_text_def memory_claims_text strip_prefix_def split_once_app
        uri_ok_def not_less Let_def)
qed

lemma parse_ok: "memory_parse path = Inr u \<Longrightarrow> uri_ok u"
  by (auto simp: memory_parse_def uri_ok_def uri_end_def Let_def checked_add_None_iff not_le not_less
      split: if_splits option.splits)

text \<open>All spellings of a range: the scheme in any letter case, a hexadecimal
  address, a decimal length and decimal flags, leading zeros allowed, and a display
  name that may hold any byte.\<close>

definition numeral_of :: "(byte \<Rightarrow> bool) \<Rightarrow> (byte list \<Rightarrow> nat) \<Rightarrow> byte list \<Rightarrow> u64 \<Rightarrow> bool" where
  "numeral_of digit val t x \<longleftrightarrow> t \<noteq> [] \<and> list_all digit t \<and> val t = unat x"

definition uri_spelling :: "rust_str \<Rightarrow> memory_uri \<Rightarrow> bool" where
  "uri_spelling path u \<longleftrightarrow> (\<exists>scheme a l f.
     path = scheme @ [36] @ a @ [44] @ l @ [44] @ f @ [58] @ mu_display_name u \<and>
     map ascii_lower scheme = ascii ''memory:'' \<and> numeral_of is_hex hex_value a (mu_addr u) \<and>
     numeral_of is_digit digits_value l (mu_len u) \<and> numeral_of is_digit digits_value f (mu_flags u))"

lemma scheme_lower: "map ascii_lower MEMORY_SCHEME = ascii ''memory:''" "length MEMORY_SCHEME = 7"
  by code_simp+

lemma claims_split:
  "memory_claims path \<longleftrightarrow> (\<exists>scheme rest. path = scheme @ rest \<and> map ascii_lower scheme = ascii ''memory:'')"
proof
  assume "memory_claims path"
  then show "\<exists>scheme rest. path = scheme @ rest \<and> map ascii_lower scheme = ascii ''memory:''"
    unfolding memory_claims_def scheme_lower by (metis append_take_drop_id)
next
  assume "\<exists>scheme rest. path = scheme @ rest \<and> map ascii_lower scheme = ascii ''memory:''"
  then obtain scheme rest where p: "path = scheme @ rest" "map ascii_lower scheme = ascii ''memory:''" by blast
  have "length scheme = 7" using arg_cong [OF p(2), of length] by (simp add: ascii_def)
  then show "memory_claims path" using p by (simp add: memory_claims_def scheme_lower)
qed

lemma claimed_scheme:
  assumes "map ascii_lower scheme = ascii ''memory:''"
  shows "memory_claims (scheme @ t)" "drop (length MEMORY_SCHEME) (scheme @ t) = t"
proof -
  show "memory_claims (scheme @ t)" using assms claims_split by blast
  have "length scheme = 7" using arg_cong [OF assms, of length] by (simp add: ascii_def)
  then show "drop (length MEMORY_SCHEME) (scheme @ t) = t" by (simp add: scheme_lower)
qed

lemma parse_spelling:
  assumes "uri_spelling path u" "uri_ok u"
  shows "memory_parse path = Inr u"
proof -
  obtain scheme a l f where p: "path = scheme @ [36] @ a @ [44] @ l @ [44] @ f @ [58] @ mu_display_name u"
    "map ascii_lower scheme = ascii ''memory:''" "numeral_of is_hex hex_value a (mu_addr u)"
    "numeral_of is_digit digits_value l (mu_len u)" "numeral_of is_digit digits_value f (mu_flags u)"
    using assms(1) unfolding uri_spelling_def by blast
  note n = p(3-5) [unfolded numeral_of_def]
  have sep: "44 \<notin> set a" "44 \<notin> set l" "58 \<notin> set f"
    using n hex_not_sep digit_not_sep by (metis list_all_iff)+
  have e: "uri_end \<lparr>mu_addr = mu_addr u, mu_len = mu_len u, mu_flags = mu_flags u,
      mu_display_name = mu_display_name u\<rparr> \<noteq> None"
    using assms(2) by (auto simp: uri_end_def uri_ok_def checked_add_None_iff)
  have body: "strip_prefix [36] (drop (length MEMORY_SCHEME) path)
      = Some (a @ 44 # l @ 44 # f @ 58 # mu_display_name u)"
    unfolding p(1) claimed_scheme(2) [OF p(2)] by (simp add: strip_prefix_def)
  have c: "memory_claims path" unfolding p(1) by (rule claimed_scheme(1) [OF p(2)])
  show ?thesis
    unfolding memory_parse_def body using c n e assms(2)
    by (simp add: split_once_app [OF sep(1)] split_once_app [OF sep(2)] split_once_app [OF sep(3)]
        uri_ok_def not_less Let_def)
qed

lemma u64_of_Some: "u64_of n = Some x \<Longrightarrow> unat x = n"
  by (auto simp: u64_of_def unat_of_nat take_bit_nat_def split: if_splits)

lemma parse_spelled:
  assumes "memory_parse path = Inr u"
  shows "uri_spelling path u"
proof -
  have "memory_claims path" using assms by (auto simp: memory_parse_def split: if_splits)
  then obtain scheme rest where s: "path = scheme @ rest" "map ascii_lower scheme = ascii ''memory:''"
    using claims_split by blast
  obtain body a rest1 l rest2 f where b: "rest = 36 # body" "split_once 44 body = Some (a, rest1)"
    "split_once 44 rest1 = Some (l, rest2)" "split_once 58 rest2 = Some (f, mu_display_name u)"
    and n: "a \<noteq> []" "list_all is_hex a" "u64_of (hex_value a) = Some (mu_addr u)"
    "l \<noteq> []" "list_all is_digit l" "u64_of (digits_value l) = Some (mu_len u)"
    "f \<noteq> []" "list_all is_digit f" "u64_of (digits_value f) = Some (mu_flags u)"
    using assms unfolding memory_parse_def s(1) claimed_scheme(2) [OF s(2)]
    by (auto simp: Let_def strip_prefix_Some split: if_splits option.splits)
  have "path = scheme @ [36] @ a @ [44] @ l @ [44] @ f @ [58] @ mu_display_name u"
    using s(1) b split_once_Some by fastforce
  moreover have "numeral_of is_hex hex_value a (mu_addr u)" "numeral_of is_digit digits_value l (mu_len u)"
    "numeral_of is_digit digits_value f (mu_flags u)"
    using n u64_of_Some by (simp_all add: numeral_of_def)
  ultimately show ?thesis using s(2) unfolding uri_spelling_def by blast
qed

section \<open>The page probe\<close>

definition page_uniform :: "(u64 \<Rightarrow> bool) \<Rightarrow> bool" where
  "page_uniform rd \<longleftrightarrow> (\<forall>a b. unat a div 4096 = unat b div 4096 \<longrightarrow> rd a = rd b)"

lemma page_between:
  fixes m k n :: nat
  assumes "m \<le> k" "k \<le> n" "n \<le> m + 4096"
  shows "k div 4096 = m div 4096 \<or> k div 4096 = n div 4096"
proof -
  have "m div 4096 \<le> k div 4096" "k div 4096 \<le> n div 4096" "n div 4096 \<le> (m + 4096) div 4096"
    using assms by (simp_all only: div_le_mono)
  moreover have "(m + 4096) div 4096 = m div 4096 + 1" by simp
  ultimately show ?thesis by linarith
qed

lemma probe_gap:
  assumes u: "page_uniform rd" and at: "at < final" and rd: "rd at" "rd (min (saturating_add at 0x1000) final)"
    and a: "at \<le> a" "a \<le> min (saturating_add at 0x1000) final"
  shows "rd a"
proof -
  let ?n = "min (saturating_add at 0x1000) final"
  have "unat ?n \<le> unat at + 4096" by (auto simp: min_def saturating_add_unat word_le_nat_alt)
  moreover have "unat at \<le> unat a" "unat a \<le> unat ?n" using a by (simp_all only: word_le_nat_alt)
  ultimately have "unat a div 4096 = unat at div 4096 \<or> unat a div 4096 = unat ?n div 4096"
    using page_between by blast
  then show ?thesis using u rd unfolding page_uniform_def by blast
qed

lemma range_probe_exact:
  "page_uniform rd \<Longrightarrow> at \<le> final \<Longrightarrow> range_probe rd final at \<longleftrightarrow> (\<forall>a. at \<le> a \<and> a \<le> final \<longrightarrow> rd a)"
proof (induction rd final at rule: range_probe.induct)
  case (1 rd final at)
  let ?n = "min (saturating_add at 0x1000) final"
  show ?case
  proof (cases "rd at \<and> at \<noteq> final")
    case True
    then have lt: "at < final" using "1.prems"(2) le_neq_trans by blast
    have step: "range_probe rd final at = range_probe rd final ?n" using True by (simp add: range_probe.simps [of rd final at])
    have ih: "range_probe rd final ?n \<longleftrightarrow> (\<forall>a. ?n \<le> a \<and> a \<le> final \<longrightarrow> rd a)"
      using "1.IH" True "1.prems"(1) by simp
    have "unat at < unat final" "unat at \<le> 18446744073709551615"
      using lt unat_u64_lt [of at] by (simp_all add: word_less_nat_alt)
    then have n: "at \<le> ?n" by (auto simp: min_def word_le_nat_alt saturating_add_unat)
    have "rd a" if r: "\<forall>a. ?n \<le> a \<and> a \<le> final \<longrightarrow> rd a" and a: "at \<le> a" "a \<le> final" for a
    proof (cases "a \<le> ?n")
      case True
      have "rd ?n" using r by simp
      then show ?thesis using probe_gap [OF "1.prems"(1) lt _ _ a(1) True] \<open>rd at \<and> at \<noteq> final\<close> by blast
    qed (use r a in auto)
    then show ?thesis unfolding step ih using n by (meson order_trans)
  next
    case False
    then show ?thesis using "1.prems"(2) by (auto simp: range_probe.simps [of rd final at])
  qed
qed

text \<open>Where readability is a property of whole pages, the default answer is
  exact.\<close>

lemma guest_range_readable_exact:
  assumes "page_uniform (\<lambda>a. read a 1 \<noteq> None)"
  shows "guest_range_readable read addr len \<longleftrightarrow> len = 0 \<or>
    unat addr + unat len < 18446744073709551616 \<and>
      (\<forall>a. addr \<le> a \<and> a \<le> addr + len - 1 \<longrightarrow> read a 1 \<noteq> None)"
proof (cases "len = 0 \<or> checked_add addr len = None")
  case True
  show ?thesis
  proof (cases "len = 0")
    case False
    then have c: "checked_add addr len = None" using True by simp
    then have "18446744073709551616 \<le> unat addr + unat len" by (simp only: checked_add_None_iff)
    then show ?thesis using False c by (simp add: guest_range_readable_def)
  qed (simp add: guest_range_readable_def)
next
  case False
  then obtain e' where "checked_add addr len = Some e'" by auto
  then have c: "checked_add addr len = Some (addr + len)" "unat addr + unat len < 18446744073709551616"
    by (simp_all only: checked_add_Some_iff)
  have pos: "0 < unat len" using False by (simp add: unat_gt_0)
  have e: "unat (addr + len) = unat addr + unat len" by (rule unat_add_no_wrap [OF c(2)])
  then have "\<not> addr + len < 1" using pos by (simp add: word_less_nat_alt)
  moreover have "addr \<le> addr + len - 1"
    using e pos by (simp add: word_le_nat_alt unat_sub)
  ultimately show ?thesis using False c range_probe_exact [OF assms, of addr "addr + len - 1"]
    by (simp add: guest_range_readable_def)
qed

section \<open>Properties\<close>

text \<open>C32: A pseudo-file name is accepted, with the fields of a range, exactly when
  it spells that range (the scheme in any letter case, a hexadecimal address, a
  decimal length and decimal flags, leading zeros allowed, and a display name) and
  the range is valid: a non-null address, a length between 1 and 256 MiB that does
  not wrap the address space, and a non-empty display name.  In particular the
  spelling a title uses of any valid range parses back to the range.\<close>

theorem memory_uri_roundtrip:
  "(memory_parse path = Inr u \<longleftrightarrow> uri_spelling path u \<and> uri_ok u) \<and>
   (uri_ok v \<longrightarrow> memory_parse (memory_uri_text v) = Inr v)"
  using parse_spelling parse_spelled parse_ok parse_text by blast

definition demo_uri :: memory_uri where
  "demo_uri = \<lparr>mu_addr = 0x2A0, mu_len = 9216, mu_flags = 0, mu_display_name = ascii ''app0:menu.gfx''\<rparr>"

lemma demo_uri_ok: "uri_ok demo_uri"
  by (simp add: uri_ok_def demo_uri_def MAX_MEMORY_FILE_LEN_def ascii_def)

lemma demo_uri_parses: "memory_parse (memory_uri_text demo_uri) = Inr demo_uri"
  by (rule parse_text [OF demo_uri_ok])

lemma demo_spelling: "uri_spelling (ascii ''MEMory:$002a0,09216,00:app0:menu.gfx'') demo_uri"
proof -
  have "ascii ''MEMory:$002a0,09216,00:app0:menu.gfx'' = ascii ''MEMory:'' @ [36] @ ascii ''002a0'' @ [44] @
      ascii ''09216'' @ [44] @ ascii ''00'' @ [58] @ mu_display_name demo_uri"
    "map ascii_lower (ascii ''MEMory:'') = ascii ''memory:''"
    "numeral_of is_hex hex_value (ascii ''002a0'') (mu_addr demo_uri)"
    "numeral_of is_digit digits_value (ascii ''09216'') (mu_len demo_uri)"
    "numeral_of is_digit digits_value (ascii ''00'') (mu_flags demo_uri)"
    by code_simp+
  then show ?thesis unfolding uri_spelling_def by blast
qed

theorem memory_uri_roundtrip_witness:
  "memory_parse (ascii ''MEMory:$002a0,09216,00:app0:menu.gfx'') = Inr demo_uri \<and>
   memory_parse (memory_uri_text demo_uri) = Inr demo_uri"
  using memory_uri_roundtrip [of "ascii ''MEMory:$002a0,09216,00:app0:menu.gfx''" demo_uri demo_uri]
    demo_spelling demo_uri_ok by blast

end
