(* ===== verification/Vfs_Dirents.thy ===== *)
theory Vfs_Dirents
  imports Host_Io Guest_Memory
begin

unbundle bit_operations_syntax

text \<open>
  Directory listings in the guest's format: \<open>pack_dirents\<close> of
  \<open>crates/raeen-kernel/src/filesystem/mod.rs\<close>, which packs variable-length
  records into 512-byte blocks, and the walk a guest makes over them by
  \<open>d_reclen\<close>.
\<close>

section \<open>Packing\<close>

record directory_entry =
  de_name :: rust_str
  de_is_directory :: bool

definition DIRENT_BLOCK :: nat where "DIRENT_BLOCK = 512"
definition DIRENT_HEADER :: nat where "DIRENT_HEADER = 8"

definition fnv1a32 :: "byte list \<Rightarrow> u32" where
  "fnv1a32 bytes = foldl (\<lambda>hash b. (hash XOR ucast b) * 16777619) 2166136261 bytes"

definition next_multiple_of :: "nat \<Rightarrow> nat \<Rightarrow> nat" where
  "next_multiple_of n k = (n + (k - 1)) div k * k"

text \<open>\<open>Vec::resize\<close> with zeros, and \<open>copy_from_slice\<close> into a range that
  exists.\<close>

definition vec_resize :: "nat \<Rightarrow> byte list \<Rightarrow> byte list" where
  "vec_resize n bs = take n bs @ replicate (n - length bs) 0"

definition put_at :: "nat \<Rightarrow> byte list \<Rightarrow> byte list \<Rightarrow> byte list" where
  "put_at i src bs = take i bs @ src @ drop (i + length src) bs"

text \<open>Let the record whose length field is at \<open>last\<close> absorb \<open>slack\<close> bytes.\<close>

definition extend_last :: "nat option \<Rightarrow> nat \<Rightarrow> byte list \<Rightarrow> byte list" where
  "extend_last last_reclen_at slack bin = (case last_reclen_at of
       None \<Rightarrow> bin
     | Some i \<Rightarrow> put_at i (le_bytes 2 (le_word [bin ! i, bin ! (i + 1)] + of_nat slack :: u16)) bin)"

definition record_length :: "rust_str \<Rightarrow> nat" where
  "record_length name = next_multiple_of (DIRENT_HEADER + min (length name) 255 + 1) 4"

definition pack_step :: "byte list \<times> nat option \<Rightarrow> directory_entry \<Rightarrow> byte list \<times> nat option" where
  "pack_step acc entry =
     (case acc of (bin, last_reclen_at) \<Rightarrow>
        let name = de_name entry;
            namlen = min (length name) 255;
            reclen = record_length name;
            offset0 = length bin;
            block_end = (offset0 div DIRENT_BLOCK + 1) * DIRENT_BLOCK;
            crosses = offset0 + reclen > block_end;
            bin1 = (if crosses then vec_resize block_end (extend_last last_reclen_at (block_end - offset0) bin)
                    else bin);
            offset = (if crosses then block_end else offset0);
            bin2 = vec_resize (offset + reclen) bin1;
            fileno = fnv1a32 (take namlen name) OR 1;
            bin3 = put_at offset (le_bytes 4 fileno) bin2;
            bin4 = put_at (offset + 4) (le_bytes 2 (of_nat reclen :: u16)) bin3;
            bin5 = put_at (offset + 6) [if de_is_directory entry then 4 else 8] bin4;
            bin6 = put_at (offset + 7) [of_nat namlen] bin5;
            bin7 = put_at (offset + 8) (take namlen name) bin6
        in (bin7, Some (offset + 4)))"

definition pack_dirents :: "directory_entry list \<Rightarrow> byte list" where
  "pack_dirents entries =
     (case foldl pack_step ([], None) entries of (bin, last_reclen_at) \<Rightarrow>
        (case last_reclen_at of
           None \<Rightarrow> bin
         | Some i \<Rightarrow>
             let ceiling = next_multiple_of (length bin) DIRENT_BLOCK in
             vec_resize ceiling (extend_last (Some i) (ceiling - length bin) bin)))"

section \<open>The guest's walk\<close>

text \<open>Type and name of every record, stepping by the record length.\<close>

function walk_dirents :: "byte list \<Rightarrow> (bool \<times> rust_str) list" where
  "walk_dirents bs =
     (let reclen = unat (le_word (take 2 (drop 4 bs)) :: u16) in
      if length bs < 9 \<or> reclen = 0 then []
      else (bs ! 6 = 4, take (unat (bs ! 7)) (drop 8 bs)) # walk_dirents (drop reclen bs))"
  by pat_completeness auto

termination by (relation "measure length") auto

declare walk_dirents.simps [simp del]

definition listed :: "directory_entry \<Rightarrow> bool \<times> rust_str" where
  "listed e = (de_is_directory e, take 255 (de_name e))"

section \<open>Records\<close>

text \<open>The bytes of one record of length \<open>r\<close>, and runs of records.\<close>

definition record_bytes :: "directory_entry \<times> nat \<Rightarrow> byte list" where
  "record_bytes er = (case er of (e, r) \<Rightarrow>
     let name = take 255 (de_name e) in
     le_bytes 4 (fnv1a32 name OR 1) @ le_bytes 2 (of_nat r :: u16) @
     [if de_is_directory e then 4 else 8] @ [of_nat (length name)] @ name @
     replicate (r - 8 - length name) 0)"

abbreviation records :: "(directory_entry \<times> nat) list \<Rightarrow> byte list" where
  "records rs \<equiv> concat (map record_bytes rs)"

definition record_ok :: "directory_entry \<times> nat \<Rightarrow> bool" where
  "record_ok er = (case er of (e, r) \<Rightarrow> record_length (de_name e) \<le> r \<and> r \<le> 512)"

text \<open>No record crosses a block boundary.\<close>

fun record_tiles :: "nat \<Rightarrow> (directory_entry \<times> nat) list \<Rightarrow> bool" where
  "record_tiles pos [] = True"
| "record_tiles pos (er # ers) =
     (record_ok er \<and> pos mod DIRENT_BLOCK + snd er \<le> DIRENT_BLOCK \<and> record_tiles (pos + snd er) ers)"

lemma record_length_bounds:
  "9 + length (take 255 name) \<le> record_length name" "record_length name \<le> 264"
proof -
  have m: "n \<le> next_multiple_of n 4" for n
    using div_mult_mod_eq [of "n + 3" 4] mod_less_divisor [of 4 "n + 3"]
    by (simp add: next_multiple_of_def)
  show "9 + length (take 255 name) \<le> record_length name"
    using m [of "DIRENT_HEADER + min (length name) 255 + 1"]
    by (simp add: record_length_def DIRENT_HEADER_def min.commute)
  have "next_multiple_of k 4 \<le> 264" if "k \<le> 264" for k
  proof -
    have "(k + 3) div 4 \<le> 66" using that by linarith
    then show ?thesis by (simp add: next_multiple_of_def)
  qed
  then show "record_length name \<le> 264" by (simp add: record_length_def DIRENT_HEADER_def)
qed

lemma length_record: "record_ok (e, r) \<Longrightarrow> length (record_bytes (e, r)) = r"
  using record_length_bounds(1) [of "de_name e"]
  by (auto simp: record_bytes_def record_ok_def Let_def)

lemma u16_of_small: "n \<le> 512 \<Longrightarrow> unat (of_nat n :: u16) = n"
  by (simp add: unat_of_nat take_bit_nat_def)

lemma u16_bytes_inverse: "le_word (le_bytes 2 (x :: u16)) = x"
  by (simp only: le_word_le_bytes) (simp add: take_bit_word_eq_self)

text \<open>Where the fields of a record are.\<close>

lemma take_min_length [simp]: "take (min (length xs) n) xs = take n xs"
  by (simp add: min_def)

lemma record_fields:
  assumes "record_ok (e, r)"
  shows "take 2 (drop 4 (record_bytes (e, r) @ rest)) = le_bytes 2 (of_nat r :: u16)"
    "(record_bytes (e, r) @ rest) ! 6 = (if de_is_directory e then 4 else 8)"
    "(record_bytes (e, r) @ rest) ! 7 = of_nat (length (take 255 (de_name e)))"
    "drop 8 (record_bytes (e, r) @ rest) =
       take 255 (de_name e) @ replicate (r - 8 - length (take 255 (de_name e))) 0 @ rest"
  by (simp_all add: record_bytes_def Let_def nth_append)

lemma walk_record:
  assumes ok: "record_ok (e, r)"
  shows "walk_dirents (record_bytes (e, r) @ rest) = listed e # walk_dirents rest"
proof -
  let ?bs = "record_bytes (e, r) @ rest" and ?name = "take 255 (de_name e)"
  note f = record_fields [OF ok, of rest]
  have r: "9 + length ?name \<le> r" "r \<le> 512"
    using ok record_length_bounds(1) [of "de_name e"] by (simp_all add: record_ok_def)
  have len: "unat (le_word (take 2 (drop 4 ?bs)) :: u16) = r"
    unfolding f(1) u16_bytes_inverse by (rule u16_of_small [OF r(2)])
  have nl: "unat (?bs ! 7) = length ?name"
    unfolding f(3) by (simp add: unat_of_nat take_bit_nat_def)
  have "take (unat (?bs ! 7)) (drop 8 ?bs) = ?name" unfolding nl f(4) by simp
  moreover have "(?bs ! 6 = 4) = de_is_directory e" unfolding f(2) by simp
  moreover have "drop r ?bs = rest" using length_record [OF ok] by simp
  moreover have "\<not> length ?bs < 9" using r length_record [OF ok] by simp
  ultimately show ?thesis using r len by (subst walk_dirents.simps) (simp add: Let_def listed_def)
qed

lemma walk_records: "\<forall>er\<in>set ers. record_ok er \<Longrightarrow> walk_dirents (records ers @ rest) = map (listed \<circ> fst) ers @ walk_dirents rest"
  by (induction ers) (auto simp: walk_record)

lemma walk_Nil [simp]: "walk_dirents [] = []"
  by (simp add: walk_dirents.simps)

lemma record_tiles_ok: "record_tiles pos ers \<Longrightarrow> \<forall>er\<in>set ers. record_ok er"
  by (induction ers arbitrary: pos) auto

lemma length_records: "\<forall>er\<in>set ers. record_ok er \<Longrightarrow> length (records ers) = sum_list (map snd ers)"
  by (induction ers) (auto simp: length_record)

lemma record_tiles_append: "record_tiles pos (a @ b) \<longleftrightarrow> record_tiles pos a \<and> record_tiles (pos + sum_list (map snd a)) b"
  by (induction a arbitrary: pos) (auto simp: add.assoc)

section \<open>Packing writes records\<close>

lemma put_at_append: "put_at (length a + i) x (a @ b) = a @ put_at i x b"
  by (simp add: put_at_def)

lemma nth_pair: "i + 1 < length bs \<Longrightarrow> [bs ! i, bs ! (i + 1)] = take 2 (drop i bs)"
proof -
  assume i: "i + 1 < length bs"
  then have "drop i bs = bs ! i # bs ! (i + 1) # drop (i + 2) bs" by (simp add: Cons_nth_drop_Suc)
  then show "[bs ! i, bs ! (i + 1)] = take 2 (drop i bs)" by simp
qed

lemma put_record:
  assumes "r = record_length (de_name e)"
  shows "put_at 8 (take 255 (de_name e))
      (put_at 7 [of_nat (length (take 255 (de_name e)))]
        (put_at 6 [if de_is_directory e then 4 else 8]
          (put_at 4 (le_bytes 2 (of_nat r :: u16))
            (put_at 0 (le_bytes 4 (fnv1a32 (take 255 (de_name e)) OR 1)) (replicate r 0)))))
    = record_bytes (e, r)"
proof -
  define name where "name = take 255 (de_name e)"
  define t where "t = r - 9 - length name"
  have r: "r = 8 + (length name + 1 + t)"
    using record_length_bounds(1) [of "de_name e"] assms by (simp add: name_def t_def)
  have rep: "replicate r (0::byte) = replicate 4 0 @ replicate 2 0 @ [0] @ [0] @ replicate (length name) 0 @ replicate (1 + t) 0"
    unfolding r by (simp add: replicate_add [symmetric] flip: replicate_Suc)
  have ln: "min (length (de_name e)) 255 = length name" by (simp add: name_def)
  show ?thesis
    unfolding name_def [symmetric] rep
    by (simp add: put_at_def record_bytes_def Let_def name_def [symmetric] r ln)
qed

lemma extend_records:
  assumes ok: "record_ok (e, r)" and k: "r + k \<le> 512"
  shows "vec_resize (length (records (a @ [(e, r)])) + k)
      (extend_last (Some (length (records a) + 4)) k (records (a @ [(e, r)])))
    = records (a @ [(e, r + k)])"
proof -
  let ?A = "records a" and ?R = "record_bytes (e, r)" and ?name = "take 255 (de_name e)"
  have n: "9 + length ?name \<le> r" "r \<le> 512"
    using ok record_length_bounds(1) [of "de_name e"] by (simp_all add: record_ok_def)
  have len: "length ?R = r" by (rule length_record [OF ok])
  have "[(?A @ ?R) ! (length ?A + 4), (?A @ ?R) ! (length ?A + 4 + 1)] = take 2 (drop (length ?A + 4) (?A @ ?R))"
    by (rule nth_pair) (use len n in simp)
  also have "\<dots> = le_bytes 2 (of_nat r :: u16)"
    using record_fields(1) [OF ok, of "[]"] by simp
  finally have old: "le_word [(?A @ ?R) ! (length ?A + 4), (?A @ ?R) ! (length ?A + 4 + 1)] = (of_nat r :: u16)"
    by (simp only: u16_bytes_inverse)
  have "extend_last (Some (length ?A + 4)) k (?A @ ?R)
      = ?A @ put_at 4 (le_bytes 2 (of_nat (r + k) :: u16)) ?R"
    by (simp only: extend_last_def option.case old of_nat_add [symmetric] put_at_append)
  moreover have "put_at 4 (le_bytes 2 (of_nat (r + k) :: u16)) ?R @ replicate k 0 = record_bytes (e, r + k)"
  proof -
    have "replicate (r - 8 - length ?name) 0 @ replicate k (0::byte) = replicate (r + k - 8 - length ?name) 0"
      using n by (simp add: replicate_add [symmetric])
    then show ?thesis by (simp add: put_at_def record_bytes_def Let_def)
  qed
  moreover have "length (put_at 4 (le_bytes 2 (of_nat (r + k) :: u16)) ?R) = r"
    using len n by (simp add: put_at_def)
  ultimately show ?thesis using len by (simp add: vec_resize_def)
qed

text \<open>What the fold has produced after some entries.\<close>

definition packed :: "directory_entry list \<Rightarrow> byte list \<times> nat option \<Rightarrow> (directory_entry \<times> nat) list \<Rightarrow> bool" where
  "packed es acc ers \<longleftrightarrow> map fst ers = es \<and> record_tiles 0 ers \<and> fst acc = records ers \<and>
     snd acc = (if ers = [] then None else Some (length (records (butlast ers)) + 4))"

text \<open>The slack of the current block goes to the last record.\<close>

lemma close_block:
  assumes p: "packed es (bin, last_at) ers" and k: "length bin mod 512 + k = 512" "length bin mod 512 \<noteq> 0"
  shows "\<exists>ers'. packed es (vec_resize (length bin + k) (extend_last last_at k bin), last_at) ers' \<and>
    length (records ers') = length bin + k"
proof -
  have ne: "ers \<noteq> []" using p k(2) by (auto simp: packed_def)
  then obtain a e r where ers: "ers = a @ [(e, r)]" by (metis rev_exhaust surj_pair)
  have t: "record_tiles 0 a" "record_ok (e, r)" "sum_list (map snd a) mod 512 + r \<le> 512"
    using p by (auto simp: packed_def ers record_tiles_append DIRENT_BLOCK_def)
  have bin: "bin = records (a @ [(e, r)])" "last_at = Some (length (records a) + 4)"
    using p by (auto simp: packed_def ers)
  have la: "length (records a) = sum_list (map snd a)" using length_records [OF record_tiles_ok [OF t(1)]] .
  have lb: "length bin = sum_list (map snd a) + r" using la length_record [OF t(2)] by (simp add: bin)
  have m: "length bin mod 512 = (sum_list (map snd a) mod 512 + r) mod 512"
    unfolding lb by (simp only: mod_add_left_eq)
  then have "sum_list (map snd a) mod 512 + r \<noteq> 512" using k(2) by auto
  then have "length bin mod 512 = sum_list (map snd a) mod 512 + r" using m t(3) by simp
  then have "sum_list (map snd a) mod 512 + (r + k) = 512" using k(1) by simp
  then have fit: "sum_list (map snd a) mod 512 + (r + k) \<le> 512" "r + k \<le> 512" by simp_all
  have ext: "vec_resize (length bin + k) (extend_last last_at k bin) = records (a @ [(e, r + k)])"
    using extend_records [OF t(2) fit(2), of a] by (simp only: bin)
  have ok: "record_ok (e, r + k)" using t(2) fit(2) by (auto simp: record_ok_def)
  have "packed es (vec_resize (length bin + k) (extend_last last_at k bin), last_at) (a @ [(e, r + k)])"
    using p t(1) fit(1) ok bin(2) unfolding packed_def ext ers by (simp add: record_tiles_append DIRENT_BLOCK_def)
  moreover have "length (records (a @ [(e, r + k)])) = length bin + k"
    using length_record [OF ok] la lb by simp
  ultimately show ?thesis by blast
qed

lemma append_record:
  assumes p: "packed es (bin, last_at) ers" and fit: "length bin mod 512 + record_length (de_name e) \<le> 512"
  shows "packed (es @ [e]) (bin @ record_bytes (e, record_length (de_name e)), Some (length bin + 4))
    (ers @ [(e, record_length (de_name e))])"
  using p fit length_records [OF record_tiles_ok, of 0 ers] record_length_bounds(2) [of "de_name e"]
  by (simp add: packed_def record_tiles_append record_ok_def DIRENT_BLOCK_def)

lemma pack_step_writes:
  "pack_step (bin, last_at) e =
     (let r = record_length (de_name e);
          block_end = (length bin div 512 + 1) * 512;
          crosses = length bin + r > block_end;
          bin1 = (if crosses then vec_resize block_end (extend_last last_at (block_end - length bin) bin) else bin);
          offset = (if crosses then block_end else length bin) in
      (put_at (offset + 8) (take 255 (de_name e))
        (put_at (offset + 7) [of_nat (length (take 255 (de_name e)))]
          (put_at (offset + 6) [if de_is_directory e then 4 else 8]
            (put_at (offset + 4) (le_bytes 2 (of_nat r :: u16))
              (put_at offset (le_bytes 4 (fnv1a32 (take 255 (de_name e)) OR 1))
                (vec_resize (offset + r) bin1))))), Some (offset + 4)))"
  by (simp add: pack_step_def DIRENT_BLOCK_def Let_def)

lemma put_at_end:
  assumes "length bin = offset" "r = record_length (de_name e)"
  shows "put_at (offset + 8) (take 255 (de_name e))
        (put_at (offset + 7) [of_nat (length (take 255 (de_name e)))]
          (put_at (offset + 6) [if de_is_directory e then 4 else 8]
            (put_at (offset + 4) (le_bytes 2 (of_nat r :: u16))
              (put_at offset (le_bytes 4 (fnv1a32 (take 255 (de_name e)) OR 1))
                (vec_resize (offset + r) bin)))))
    = bin @ record_bytes (e, r)"
proof -
  have res: "vec_resize (offset + r) bin = bin @ replicate r 0" using assms(1) by (simp add: vec_resize_def)
  have zero: "put_at offset x (bin @ b) = bin @ put_at 0 x b" for x b
    using put_at_append [of bin 0] assms(1) by simp
  show ?thesis
    unfolding res zero unfolding assms(1) [symmetric] put_at_append put_record [OF assms(2)] ..
qed

lemma pack_step_packed:
  assumes p: "packed es acc ers"
  shows "\<exists>ers'. packed (es @ [e]) (pack_step acc e) ers'"
proof -
  obtain bin last_at where acc: "acc = (bin, last_at)" by (cases acc)
  let ?r = "record_length (de_name e)" and ?fence = "(length bin div 512 + 1) * 512"
  note r = record_length_bounds(2) [of "de_name e"]
  have split: "length bin = length bin div 512 * 512 + length bin mod 512" by simp
  show ?thesis
  proof (cases "length bin + ?r > ?fence")
    case True
    let ?k = "?fence - length bin"
    have k: "length bin mod 512 + ?k = 512" "length bin mod 512 \<noteq> 0" "length bin + ?k = ?fence"
      using True r split mod_less_divisor [of 512 "length bin"] by (simp_all only: add_mult_distrib)
    obtain ers' where ers': "packed es (vec_resize (length bin + ?k) (extend_last last_at ?k bin), last_at) ers'"
      "length (records ers') = length bin + ?k"
      using close_block [OF p [unfolded acc] k(1,2)] by blast
    let ?bin = "vec_resize ?fence (extend_last last_at ?k bin)"
    have bin': "?bin = records ers'" "length ?bin = ?fence"
      using ers' unfolding k(3) by (auto simp: packed_def)
    have step: "pack_step acc e = (?bin @ record_bytes (e, ?r), Some (?fence + 4))"
      using True put_at_end [OF bin'(2) refl, of e] by (simp only: acc pack_step_writes Let_def if_True)
    have "packed es (?bin, last_at) ers'" using ers'(1) unfolding k(3) .
    then have "packed (es @ [e]) (pack_step acc e) (ers' @ [(e, ?r)])"
      using append_record [of es ?bin last_at ers' e] r bin'(2) unfolding step by simp
    then show ?thesis by blast
  next
    case False
    have step: "pack_step acc e = (bin @ record_bytes (e, ?r), Some (length bin + 4))"
      using False put_at_end [OF refl refl, of bin e] by (simp only: acc pack_step_writes Let_def if_False)
    have "length bin mod 512 + ?r \<le> 512" using False split by (simp only: add_mult_distrib)
    then show ?thesis using append_record [OF p [unfolded acc]] unfolding step by blast
  qed
qed

lemma pack_all: "packed es acc ers \<Longrightarrow> \<exists>ers'. packed (es @ fs) (foldl pack_step acc fs) ers'"
proof (induction fs arbitrary: es acc ers)
  case (Cons f fs)
  then obtain ers' where "packed (es @ [f]) (pack_step acc f) ers'" using pack_step_packed by blast
  then show ?case using Cons.IH [of "es @ [f]"] by simp
qed auto

lemma next_multiple_512: "next_multiple_of n 512 = (if n mod 512 = 0 then n else n div 512 * 512 + 512)"
proof -
  define q m where "q = n div 512" and "m = n mod 512"
  have n: "n = 512 * q + m" "m < 512" by (simp_all add: q_def m_def)
  have "(n + 511) div 512 = q + (m + 511) div 512" by (simp add: n(1) add.assoc)
  also have "(m + 511) div 512 = (if m = 0 then 0 else 1)"
    using n(2) by (auto intro: div_nat_eqI)
  finally show ?thesis using n unfolding next_multiple_of_def m_def [symmetric] q_def [symmetric] by simp
qed

text \<open>The final listing: whole blocks of records in order.\<close>

lemma pack_dirents_records:
  "\<exists>ers. pack_dirents es = records ers \<and> map fst ers = es \<and> record_tiles 0 ers \<and> length (pack_dirents es) mod 512 = 0"
proof -
  have "packed [] ([], None) []" by (simp add: packed_def)
  then obtain ers where p: "packed es (foldl pack_step ([], None) es) ers"
    using pack_all [of "[]" "([], None)" "[]" es] by auto
  obtain bin last_at where f: "foldl pack_step ([], None) es = (bin, last_at)" by (cases "foldl pack_step ([], None) es")
  note p = p [unfolded f]
  show ?thesis
  proof (cases last_at)
    case None
    then have "ers = []" using p by (auto simp: packed_def split: if_splits)
    then show ?thesis using p f None by (intro exI [of _ "[]"]) (auto simp: pack_dirents_def packed_def)
  next
    case (Some i)
    let ?c = "next_multiple_of (length bin) 512"
    have pack: "pack_dirents es = vec_resize ?c (extend_last last_at (?c - length bin) bin)"
      using f Some by (simp add: pack_dirents_def DIRENT_BLOCK_def Let_def)
    have c: "?c mod 512 = 0" "length bin \<le> ?c" "length bin mod 512 \<noteq> 0 \<Longrightarrow> length bin mod 512 + (?c - length bin) = 512"
      "length bin mod 512 = 0 \<Longrightarrow> ?c = length bin"
      using div_mult_mod_eq [of "length bin" 512] mod_less_divisor [of 512 "length bin"]
      by (simp_all only: next_multiple_512) (auto simp: mod_simps)
    show ?thesis
    proof (cases "length bin mod 512 = 0")
      case True
      then have c0: "?c = length bin" by (rule c(4))
      have "ers \<noteq> []" using p Some by (auto simp: packed_def split: if_splits)
      then obtain a e r where ers: "ers = a @ [(e, r)]" by (metis rev_exhaust surj_pair)
      have t: "record_ok (e, r)" "bin = records (a @ [(e, r)])" "last_at = Some (length (records a) + 4)"
        using p by (auto simp: packed_def ers record_tiles_append)
      have "vec_resize (length bin + 0) (extend_last last_at 0 bin) = bin"
        using extend_records [OF t(1), of 0 a] t(1) by (simp add: t(2,3) record_ok_def)
      then have "pack_dirents es = bin" unfolding pack c0 by simp
      then show ?thesis using p True by (auto simp: packed_def)
    next
      case False
      have cc: "length bin + (?c - length bin) = ?c" using c(2) by simp
      obtain ers' where "packed es (vec_resize ?c (extend_last last_at (?c - length bin) bin), last_at) ers'"
        "length (records ers') = ?c"
        using close_block [OF p c(3) [OF False] False] unfolding cc by blast
      then show ?thesis using c(1) unfolding pack by (auto simp: packed_def)
    qed
  qed
qed

section \<open>Blocks\<close>

text \<open>Every block boundary inside the listing is a record boundary.\<close>

lemma record_tiles_split:
  assumes "record_tiles pos ers" "pos \<le> 512 * k" "512 * k \<le> pos + sum_list (map snd ers)"
  shows "\<exists>a b. ers = a @ b \<and> pos + sum_list (map snd a) = 512 * k"
  using assms
proof (induction ers arbitrary: pos)
  case (Cons er ers)
  show ?case
  proof (cases "pos = 512 * k")
    case True
    then have "er # ers = [] @ (er # ers) \<and> pos + sum_list (map snd []) = 512 * k" by simp
    then show ?thesis by blast
  next
    case False
    define q where "q = pos div 512"
    have pos: "pos = 512 * q + pos mod 512" by (simp add: q_def)
    have t: "pos mod 512 + snd er \<le> 512" "record_tiles (pos + snd er) ers"
      using Cons.prems(1) by (auto simp: DIRENT_BLOCK_def)
    have "q < k"
    proof (rule ccontr)
      assume "\<not> q < k"
      then have "512 * k \<le> 512 * q" by simp
      then show False using False Cons.prems(2) pos by linarith
    qed
    then have "512 * q + 512 \<le> 512 * k" by simp
    then have "pos + snd er \<le> 512 * k" using t(1) pos by linarith
    then obtain a b where "ers = a @ b" "pos + snd er + sum_list (map snd a) = 512 * k"
      using Cons.IH [OF t(2)] Cons.prems(3) by (auto simp: add.assoc)
    then show ?thesis by (intro exI [of _ "er # a"] exI [of _ b]) (simp add: add.assoc)
  qed
qed auto

lemma records_append: "records (a @ b) = records a @ records b"
  by simp

lemma listing_split:
  assumes "512 * k \<le> length (pack_dirents es)"
  shows "\<exists>a b. es = a @ b \<and> walk_dirents (take (512 * k) (pack_dirents es)) = map listed a \<and>
    walk_dirents (drop (512 * k) (pack_dirents es)) = map listed b"
proof -
  obtain ers where ers: "pack_dirents es = records ers" "map fst ers = es" "record_tiles 0 ers"
    using pack_dirents_records by blast
  have ok: "\<forall>er\<in>set ers. record_ok er" by (rule record_tiles_ok [OF ers(3)])
  obtain a b where ab: "ers = a @ b" "sum_list (map snd a) = 512 * k"
    using record_tiles_split [OF ers(3), of k] assms length_records [OF ok] ers(1) by auto
  have "length (records a) = 512 * k" using length_records [of a] ok ab by auto
  then have "take (512 * k) (pack_dirents es) = records a" "drop (512 * k) (pack_dirents es) = records b"
    by (simp_all add: ers(1) ab(1))
  moreover have "walk_dirents (records a) = map listed (map fst a)"
    "walk_dirents (records b) = map listed (map fst b)"
    using walk_records [of a "[]"] walk_records [of b "[]"] ok ab(1) by (auto simp: comp_def)
  ultimately show ?thesis using ers(2) ab(1) by (intro exI [of _ "map fst a"] exI [of _ "map fst b"]) auto
qed

lemma walk_pack: "walk_dirents (pack_dirents es) = map listed es"
proof -
  obtain ers where ers: "pack_dirents es = records ers" "map fst ers = es" "record_tiles 0 ers"
    using pack_dirents_records by blast
  have "walk_dirents (records ers) = map listed (map fst ers)"
    using walk_records [of ers "[]", OF record_tiles_ok [OF ers(3)]] by (simp add: comp_def)
  then show ?thesis using ers by simp
qed

section \<open>Properties\<close>

text \<open>A directory listing is whole 512-byte blocks, and a guest that walks it by
  its record lengths sees exactly the entries in order, each with its type and
  its name cut at 255 bytes.\<close>

theorem dirents_roundtrip:
  "walk_dirents (pack_dirents es) = map listed es \<and> length (pack_dirents es) mod DIRENT_BLOCK = 0"
  using walk_pack pack_dirents_records [of es] by (auto simp: DIRENT_BLOCK_def)

end
