(* ===== verification/Vfs_Files.thy ===== *)
theory Vfs_Files
  imports Vfs_Mounts Memory_Uri Vfs_Dirents "HOL-Library.List_Lexorder"
begin

text \<open>
  The descriptor table of \<open>crates/raeen-kernel/src/filesystem/mod.rs\<close>: opening
  host files, directories, pseudo-files and entropy devices, the reads, writes and
  seeks on a descriptor, directory enumeration, flushing and closing, and the path
  operations.  Each call is one step; the host state is part of the state.  A call
  that panics (a buffer beyond the size limit of a \<open>Vec\<close>) is \<open>None\<close>.
\<close>

unbundle bit_operations_syntax

section \<open>State\<close>

abbreviation O_WRONLY :: u32 where "O_WRONLY \<equiv> 0x0001"
abbreviation O_RDWR :: u32 where "O_RDWR \<equiv> 0x0002"
abbreviation O_ACCMODE :: u32 where "O_ACCMODE \<equiv> 0x0003"
abbreviation O_APPEND :: u32 where "O_APPEND \<equiv> 0x0008"
abbreviation O_CREAT :: u32 where "O_CREAT \<equiv> 0x0200"
abbreviation O_TRUNC :: u32 where "O_TRUNC \<equiv> 0x0400"

record open_file =
  of_fd :: int
  of_host_path :: host_path
  of_ps5_path :: rust_str
  of_random_device :: bool
  of_memory_region :: "memory_uri option"
  of_reader :: "(nat \<times> u64) option"
  of_writable :: bool
  of_dirents :: "byte list option"
  of_position :: u64
  of_data :: "byte list option"
  of_dirty :: bool
  of_flags :: u32

record 'h vfs = vfs_mounts +
  vf_open_files :: "int \<rightharpoonup> open_file"
  vf_next_fd :: int
  vf_guest_bytes :: guest_binding
  vf_bindings :: u64
  vf_host :: 'h

definition vfs_new :: "'h host_ops \<Rightarrow> 'h \<Rightarrow> host_path \<Rightarrow> 'h vfs" where
  "vfs_new H h tmp = vfs_mounts.extend (vfs_mounts_new H h tmp) (vfs.fields Map.empty 3 None 0 h)"

definition set_guest_byte_source :: "byte_source \<Rightarrow> 'h vfs \<Rightarrow> 'h vfs" where
  "set_guest_byte_source src s = s\<lparr>vf_guest_bytes := Some (Some src), vf_bindings := vf_bindings s + 1\<rparr>"

definition clear_guest_byte_source :: "'h vfs \<Rightarrow> 'h vfs" where
  "clear_guest_byte_source s = s\<lparr>vf_guest_bytes := None\<rparr>"

definition vfs_resolve :: "'h host_ops \<Rightarrow> rust_str \<Rightarrow> 'h vfs \<Rightarrow> host_path option" where
  "vfs_resolve H path s = resolve_path H (vf_host s) (vm_mounts s) path"

definition set_file :: "int \<Rightarrow> open_file \<Rightarrow> 'h vfs \<Rightarrow> 'h vfs" where
  "set_file fd f s = s\<lparr>vf_open_files := (vf_open_files s)(fd \<mapsto> f)\<rparr>"

section \<open>Open\<close>

definition fresh_file :: "rust_str \<Rightarrow> u32 \<Rightarrow> open_file" where
  "fresh_file path flags = \<lparr>of_fd = 0, of_host_path = [], of_ps5_path = path, of_random_device = False,
     of_memory_region = None, of_reader = None, of_writable = False, of_dirents = None, of_position = 0,
     of_data = None, of_dirty = False, of_flags = flags\<rparr>"

definition install_file :: "open_file \<Rightarrow> 'h vfs \<Rightarrow> (io_error_kind + int) \<times> 'h vfs" where
  "install_file f s =
     (let fd = vf_next_fd s in
      (Inr fd, set_file fd (f\<lparr>of_fd := fd\<rparr>) (s\<lparr>vf_next_fd := i32_add fd 1\<rparr>)))"

definition host_path_kind :: "'h host_ops \<Rightarrow> host_path \<Rightarrow> 'h \<Rightarrow> host_kind" where
  "host_path_kind H p h = (case ho_metadata H p h of Inr k \<Rightarrow> k | Inl _ \<Rightarrow> HostMissing)"

definition dot_entries :: "directory_entry list" where
  "dot_entries = [\<lparr>de_name = dot, de_is_directory = True\<rparr>, \<lparr>de_name = dot_dot, de_is_directory = True\<rparr>]"

definition lower_name :: "directory_entry \<Rightarrow> rust_str" where
  "lower_name e = map ascii_lower (de_name e)"

text \<open>\<open>dedup_by\<close> drops an entry that equals its predecessor up to case.\<close>

fun dedup_names :: "directory_entry list \<Rightarrow> directory_entry list" where
  "dedup_names (a # b # es) =
     (if lower_name a = lower_name b then dedup_names (a # es) else a # dedup_names (b # es))"
| "dedup_names es = es"

definition root_entries :: "mount_point list \<Rightarrow> directory_entry list" where
  "root_entries ms = dot_entries @ dedup_names (sort_key lower_name
     (List.map_filter (\<lambda>m. case strip_prefix [SLASH] (mp_prefix m) of
        None \<Rightarrow> None
      | Some name \<Rightarrow> if name = [] then None else Some \<lparr>de_name = name, de_is_directory = True\<rparr>) ms))"

definition listed_entry :: "io_error_kind + host_entry \<Rightarrow> directory_entry option" where
  "listed_entry r = (case r of
     Inl _ \<Rightarrow> None
   | Inr e \<Rightarrow> (case he_name e of
       None \<Rightarrow> None
     | Some name \<Rightarrow> map_option (\<lambda>d. \<lparr>de_name = name, de_is_directory = d\<rparr>) (he_is_dir e)))"

definition directory_listing :: "(io_error_kind + host_entry) list \<Rightarrow> byte list" where
  "directory_listing es = pack_dirents (dot_entries @ sort_key lower_name (List.map_filter listed_entry es))"

definition wants_write :: "u32 \<Rightarrow> bool" where
  "wants_write flags \<longleftrightarrow> flags AND O_ACCMODE = O_WRONLY \<or> flags AND O_ACCMODE = O_RDWR"

text \<open>The backing of a host file: a lazy reader, or the buffered contents.\<close>

definition open_backing ::
  "'h host_ops \<Rightarrow> host_path \<Rightarrow> host_kind \<Rightarrow> bool \<Rightarrow> bool \<Rightarrow> 'h
     \<Rightarrow> io_error_kind + (nat \<times> u64) option \<times> byte list option" where
  "open_backing H p kind writable trunc h =
     (if kind = HostDirectory then Inr (None, None)
      else if kind \<noteq> HostMissing \<and> \<not> trunc \<and> \<not> writable then
        (case ho_open H p h of
           Inl e \<Rightarrow> Inl e
         | Inr handle \<Rightarrow> Inr (Some (handle, case kind of HostFile len \<Rightarrow> len | _ \<Rightarrow> 0), None))
      else if kind \<noteq> HostMissing \<and> \<not> trunc then
        (case ho_read H p h of Inl e \<Rightarrow> Inl e | Inr data \<Rightarrow> Inr (None, Some data))
      else Inr (None, Some []))"

definition open_host ::
  "'h host_ops \<Rightarrow> rust_str \<Rightarrow> u32 \<Rightarrow> host_path \<Rightarrow> 'h vfs \<Rightarrow> (io_error_kind + int) \<times> 'h vfs" where
  "open_host H path flags p s =
     (let h = vf_host s;
          writable = wants_write flags;
          create = (flags AND O_CREAT \<noteq> 0);
          trunc = (flags AND O_TRUNC \<noteq> 0);
          append = (flags AND O_APPEND \<noteq> 0);
          kind = host_path_kind H p h;
          exists = (kind \<noteq> HostMissing);
          is_directory = (kind = HostDirectory) in
      if \<not> exists \<and> \<not> create then (Inl NotFound, s)
      else if is_directory \<and> writable then (Inl PermissionDenied, s)
      else case (if is_directory then map_sum id (\<lambda>es. Some (directory_listing es)) (ho_read_dir H p h)
                 else Inr None) of
        Inl e \<Rightarrow> (Inl e, s)
      | Inr dirents \<Rightarrow> (case open_backing H p kind writable trunc h of
          Inl e \<Rightarrow> (Inl e, s)
        | Inr (reader, data) \<Rightarrow>
            let h' = (if create \<and> \<not> exists
                 then (case path_parent p of None \<Rightarrow> h | Some parent \<Rightarrow> snd (ho_create_dir_all H parent h))
                 else h) in
            install_file ((fresh_file path flags)
                \<lparr>of_host_path := p, of_reader := reader, of_writable := writable, of_dirents := dirents,
                 of_position := (if append then (case data of None \<Rightarrow> 0 | Some d \<Rightarrow> of_nat (length d)) else 0),
                 of_data := data, of_dirty := writable \<and> (create \<and> \<not> exists \<or> trunc)\<rparr>)
              (s\<lparr>vf_host := h'\<rparr>)))"

definition vfs_open :: "'h host_ops \<Rightarrow> rust_str \<Rightarrow> u32 \<Rightarrow> 'h vfs \<Rightarrow> (io_error_kind + int) \<times> 'h vfs" where
  "vfs_open H path flags s =
     (if memory_claims path then
        (if wants_write flags \<or> flags AND O_CREAT \<noteq> 0 \<or> flags AND O_TRUNC \<noteq> 0 then (Inl PermissionDenied, s)
         else case parse_and_validate_memory_uri (vf_guest_bytes s) path of
           Inl e \<Rightarrow> (Inl e, s)
         | Inr region \<Rightarrow> install_file ((fresh_file path flags)\<lparr>of_memory_region := Some region\<rparr>) s)
      else if path = ascii ''/dev/random'' \<or> path = ascii ''/dev/urandom'' then
        (if wants_write flags then (Inl PermissionDenied, s)
         else install_file ((fresh_file path flags)\<lparr>of_random_device := True\<rparr>) s)
      else if path = root_text then
        (if wants_write flags then (Inl PermissionDenied, s)
         else install_file ((fresh_file path flags)
             \<lparr>of_dirents := Some (pack_dirents (root_entries (vm_mounts s)))\<rparr>) s)
      else case vfs_resolve H path s of
        None \<Rightarrow> (Inl NotFound, s)
      | Some p \<Rightarrow> open_host H path flags p s)"

section \<open>Reads\<close>

text \<open>\<open>positional_read_into\<close>: repeat short reads until the buffer is full or the
  file ends.\<close>

function positional_read ::
  "'h host_ops \<Rightarrow> nat \<Rightarrow> u64 \<Rightarrow> nat \<Rightarrow> 'h \<Rightarrow> io_error_kind + byte list" where
  "positional_read H handle offset want h =
     (if want = 0 then Inr []
      else case ho_read_at H handle offset want h of
        Inl e \<Rightarrow> Inl e
      | Inr bs \<Rightarrow>
          (let chunk = take want bs in
           if chunk = [] then Inr []
           else map_sum id ((@) chunk)
             (positional_read H handle (offset + of_nat (length chunk)) (want - length chunk) h)))"
  by pat_completeness auto

termination by (relation "measure (\<lambda>(H, f, off, want, h). want)") auto

declare positional_read.simps [simp del]

text \<open>What a buffered file returns from an offset.\<close>

definition buffered_read :: "byte list \<Rightarrow> u64 \<Rightarrow> nat \<Rightarrow> byte list" where
  "buffered_read data offset n =
     (let start = min (unat offset) (length data); e = min (start + n) (length data) in
      take (e - start) (drop start data))"

definition advance :: "int \<Rightarrow> open_file \<Rightarrow> nat \<Rightarrow> 'h vfs \<Rightarrow> 'h vfs" where
  "advance fd f n s = set_file fd (f\<lparr>of_position := of_position f + of_nat n\<rparr>) s"

definition entropy_read :: "'h host_ops \<Rightarrow> nat \<Rightarrow> 'h vfs \<Rightarrow> (io_error_kind + byte list) \<times> 'h vfs" where
  "entropy_read H n s = (case ho_entropy H n (vf_host s) of
     (Inl _, h) \<Rightarrow> (Inl OtherKind, s\<lparr>vf_host := h\<rparr>)
   | (Inr bs, h) \<Rightarrow> (Inr bs, s\<lparr>vf_host := h\<rparr>))"

definition vfs_read :: "'h host_ops \<Rightarrow> int \<Rightarrow> nat \<Rightarrow> 'h vfs \<Rightarrow> (io_error_kind + byte list) \<times> 'h vfs" where
  "vfs_read H fd n s =
     (case vf_open_files s fd of
        None \<Rightarrow> (Inl NotFound, s)
      | Some f \<Rightarrow>
          if of_dirents f \<noteq> None then (Inl InvalidInput, s)
          else if of_random_device f then entropy_read H n s
          else (case of_memory_region f of
              Some region \<Rightarrow>
                (case read_memory_region (vf_guest_bytes s) region n (of_position f) of
                   Inl e \<Rightarrow> (Inl e, s)
                 | Inr bs \<Rightarrow> (Inr bs, advance fd f (length bs) s))
            | None \<Rightarrow> (case of_data f of
                  Some data \<Rightarrow>
                    (let bs = buffered_read data (of_position f) n in (Inr bs, advance fd f (length bs) s))
                | None \<Rightarrow> (case of_reader f of
                      Some (handle, len) \<Rightarrow>
                        (case positional_read H handle (of_position f)
                             (min (unat (saturating_sub len (of_position f))) n) (vf_host s) of
                           Inl e \<Rightarrow> (Inl e, s)
                         | Inr bs \<Rightarrow> (Inr bs, advance fd f (length bs) s))
                    | None \<Rightarrow> (Inr [], s)))))"

definition vfs_pread ::
  "'h host_ops \<Rightarrow> int \<Rightarrow> nat \<Rightarrow> u64 \<Rightarrow> 'h vfs \<Rightarrow> (io_error_kind + byte list) \<times> 'h vfs" where
  "vfs_pread H fd n offset s =
     (case vf_open_files s fd of
        None \<Rightarrow> (Inl NotFound, s)
      | Some f \<Rightarrow>
          if of_dirents f \<noteq> None then (Inl InvalidInput, s)
          else if of_random_device f then entropy_read H n s
          else (case of_memory_region f of
              Some region \<Rightarrow> (read_memory_region (vf_guest_bytes s) region n offset, s)
            | None \<Rightarrow> (case of_data f of
                  Some data \<Rightarrow> (Inr (buffered_read data offset n), s)
                | None \<Rightarrow> (case of_reader f of
                      Some (handle, len) \<Rightarrow>
                        (let start = min offset len in
                         (positional_read H handle start (min (unat (saturating_sub len start)) n) (vf_host s), s))
                    | None \<Rightarrow> (Inr [], s)))))"

section \<open>Writes\<close>

definition ISIZE_MAX :: nat where "ISIZE_MAX = 9223372036854775807"

definition vec_grow :: "nat \<Rightarrow> byte list \<Rightarrow> byte list option" where
  "vec_grow n bs = (if ISIZE_MAX < n then None else Some (vec_resize n bs))"

definition fill_gap :: "nat \<Rightarrow> byte list \<Rightarrow> byte list option" where
  "fill_gap pos buf = (if pos > length buf then vec_grow pos buf else Some buf)"

definition store_range :: "nat \<Rightarrow> nat \<Rightarrow> byte list \<Rightarrow> byte list \<Rightarrow> byte list option" where
  "store_range pos e bytes buf =
     (case (if e > length buf then vec_grow e buf else Some buf) of
        None \<Rightarrow> None
      | Some b \<Rightarrow> if pos + length bytes = e then Some (put_at pos bytes b) else None)"

definition buffer :: "open_file \<Rightarrow> byte list" where
  "buffer f = (case of_data f of None \<Rightarrow> [] | Some d \<Rightarrow> d)"

definition write_refused :: "int \<Rightarrow> 'h vfs \<Rightarrow> io_error_kind + open_file" where
  "write_refused fd s = (case vf_open_files s fd of
     None \<Rightarrow> Inl NotFound
   | Some f \<Rightarrow> if of_memory_region f \<noteq> None \<or> \<not> of_writable f then Inl PermissionDenied else Inr f)"

definition vfs_write :: "int \<Rightarrow> byte list \<Rightarrow> 'h vfs \<Rightarrow> ((io_error_kind + nat) \<times> 'h vfs) option" where
  "vfs_write fd bytes s =
     (case write_refused fd s of
        Inl e \<Rightarrow> Some (Inl e, s)
      | Inr f \<Rightarrow>
          let pos = unat (of_position f); e = (pos + length bytes) mod 18446744073709551616 in
          Option.bind (fill_gap pos (buffer f)) (\<lambda>b.
          Option.bind (store_range pos e bytes b) (\<lambda>d.
            Some (Inr (length bytes),
              set_file fd (f\<lparr>of_data := Some d, of_position := of_nat e, of_dirty := True\<rparr>) s))))"

definition vfs_pwrite :: "int \<Rightarrow> byte list \<Rightarrow> u64 \<Rightarrow> 'h vfs \<Rightarrow> ((io_error_kind + nat) \<times> 'h vfs) option" where
  "vfs_pwrite fd bytes offset s =
     (case write_refused fd s of
        Inl e \<Rightarrow> Some (Inl e, s)
      | Inr f \<Rightarrow>
          let pos = unat offset in
          Option.bind (fill_gap pos (buffer f)) (\<lambda>b.
            if 18446744073709551616 \<le> pos + length bytes
            then Some (Inl InvalidInput, set_file fd (f\<lparr>of_data := Some b\<rparr>) s)
            else Option.bind (store_range pos (pos + length bytes) bytes b) (\<lambda>d.
              Some (Inr (length bytes), set_file fd (f\<lparr>of_data := Some d, of_dirty := True\<rparr>) s))))"

definition vfs_ftruncate :: "int \<Rightarrow> u64 \<Rightarrow> 'h vfs \<Rightarrow> ((io_error_kind + unit) \<times> 'h vfs) option" where
  "vfs_ftruncate fd len s =
     (case write_refused fd s of
        Inl e \<Rightarrow> Some (Inl e, s)
      | Inr f \<Rightarrow> Option.bind (vec_grow (unat len) (buffer f)) (\<lambda>d.
          Some (Inr (), set_file fd (f\<lparr>of_data := Some d, of_dirty := True\<rparr>) s)))"

section \<open>Position, size and flags\<close>

definition backing_len :: "open_file \<Rightarrow> u64" where
  "backing_len f =
     (case of_memory_region f of Some region \<Rightarrow> mu_len region
      | None \<Rightarrow> (case of_data f of Some data \<Rightarrow> of_nat (length data)
      | None \<Rightarrow> (case of_reader f of Some (_, len) \<Rightarrow> len
      | None \<Rightarrow> (case of_dirents f of Some bin \<Rightarrow> of_nat (length bin)
      | None \<Rightarrow> 0))))"

definition seek_base :: "open_file \<Rightarrow> int \<Rightarrow> int option" where
  "seek_base f whence =
     (if whence = 0 then Some 0 else if whence = 1 then Some (sint (of_position f))
      else if whence = 2 then Some (sint (backing_len f)) else None)"

definition vfs_seek :: "int \<Rightarrow> int \<Rightarrow> int \<Rightarrow> 'h vfs \<Rightarrow> (io_error_kind + u64) \<times> 'h vfs" where
  "vfs_seek fd offset whence s =
     (case vf_open_files s fd of
        None \<Rightarrow> (Inl NotFound, s)
      | Some f \<Rightarrow> (case seek_base f whence of
          None \<Rightarrow> (Inl InvalidInput, s)
        | Some base \<Rightarrow>
            let target = base + offset in
            if target < 0 \<or> 9223372036854775807 < target then (Inl InvalidInput, s)
            else (Inr (word_of_int target), set_file fd (f\<lparr>of_position := word_of_int target\<rparr>) s)))"

definition file_size :: "int \<Rightarrow> 'h vfs \<Rightarrow> u64 option" where
  "file_size fd s = map_option backing_len (vf_open_files s fd)"

definition is_memory_file :: "int \<Rightarrow> 'h vfs \<Rightarrow> bool" where
  "is_memory_file fd s = (case vf_open_files s fd of None \<Rightarrow> False | Some f \<Rightarrow> of_memory_region f \<noteq> None)"

definition is_directory :: "int \<Rightarrow> 'h vfs \<Rightarrow> bool" where
  "is_directory fd s = (case vf_open_files s fd of None \<Rightarrow> False | Some f \<Rightarrow> of_dirents f \<noteq> None)"

definition is_random_device :: "int \<Rightarrow> 'h vfs \<Rightarrow> bool" where
  "is_random_device fd s = (case vf_open_files s fd of None \<Rightarrow> False | Some f \<Rightarrow> of_random_device f)"

definition open_path :: "int \<Rightarrow> 'h vfs \<Rightarrow> rust_str option" where
  "open_path fd s = map_option of_ps5_path (vf_open_files s fd)"

definition file_flags :: "int \<Rightarrow> 'h vfs \<Rightarrow> u32 option" where
  "file_flags fd s = map_option of_flags (vf_open_files s fd)"

definition set_status_flags :: "int \<Rightarrow> u32 \<Rightarrow> 'h vfs \<Rightarrow> (io_error_kind + unit) \<times> 'h vfs" where
  "set_status_flags fd flags s = (case vf_open_files s fd of
     None \<Rightarrow> (Inl NotFound, s)
   | Some f \<Rightarrow> (Inr (), set_file fd
       (f\<lparr>of_flags := (of_flags f AND O_ACCMODE) OR (flags AND NOT O_ACCMODE)\<rparr>) s))"

section \<open>Directories, flushing, closing\<close>

definition getdents :: "int \<Rightarrow> nat \<Rightarrow> 'h vfs \<Rightarrow> (io_error_kind + byte list \<times> nat) \<times> 'h vfs" where
  "getdents fd requested s =
     (if requested < DIRENT_BLOCK then (Inl InvalidInput, s)
      else case vf_open_files s fd of
        None \<Rightarrow> (Inl NotFound, s)
      | Some f \<Rightarrow> (case of_dirents f of
          None \<Rightarrow> (Inl InvalidInput, s)
        | Some dirents \<Rightarrow>
            let base = unat (of_position f) in
            if length dirents \<le> base then (Inr ([], base), s)
            else let n = min (length dirents - base) (requested div DIRENT_BLOCK * DIRENT_BLOCK) in
              (Inr (take n (drop base dirents), base), advance fd f n s)))"

definition flush_open_file ::
  "'h host_ops \<Rightarrow> open_file \<Rightarrow> 'h \<Rightarrow> (io_error_kind + bool) \<times> open_file \<times> 'h" where
  "flush_open_file H f h =
     (if \<not> of_dirty f \<or> \<not> of_writable f then (Inr False, f, h)
      else case of_data f of
        None \<Rightarrow> (Inr True, f\<lparr>of_dirty := False\<rparr>, h)
      | Some data \<Rightarrow> (case ho_write H (of_host_path f) data h of
          (Inl e, h1) \<Rightarrow> (Inl e, f, h1)
        | (Inr _, h1) \<Rightarrow> (case ho_persist H (of_host_path f) h1 of
            (Inl e, h2) \<Rightarrow> (Inl e, f, h2)
          | (Inr _, h2) \<Rightarrow> (Inr True, f\<lparr>of_dirty := False\<rparr>, h2))))"

definition vfs_sync :: "'h host_ops \<Rightarrow> int \<Rightarrow> 'h vfs \<Rightarrow> (io_error_kind + unit) \<times> 'h vfs" where
  "vfs_sync H fd s = (case vf_open_files s fd of
     None \<Rightarrow> (Inl NotFound, s)
   | Some f \<Rightarrow> (case flush_open_file H f (vf_host s) of
       (r, f', h) \<Rightarrow> (map_sum id (\<lambda>_. ()) r, (set_file fd f' s)\<lparr>vf_host := h\<rparr>)))"

definition below_mount :: "rust_str \<Rightarrow> open_file \<Rightarrow> bool" where
  "below_mount root f \<longleftrightarrow> of_ps5_path f = root \<or>
     (case strip_prefix root (of_ps5_path f) of None \<Rightarrow> False | Some rest \<Rightarrow> rest \<noteq> [] \<and> hd rest = SLASH)"

text \<open>\<open>order\<close> stands for the unspecified order in which the table is iterated.\<close>

fun flush_each :: "'h host_ops \<Rightarrow> rust_str \<Rightarrow> int list \<Rightarrow> nat \<times> io_error_kind option \<Rightarrow> 'h vfs
    \<Rightarrow> (nat \<times> io_error_kind option) \<times> 'h vfs" where
  "flush_each H root [] acc s = (acc, s)"
| "flush_each H root (fd # fds) acc s =
     (case vf_open_files s fd of
        None \<Rightarrow> flush_each H root fds acc s
      | Some f \<Rightarrow>
          if \<not> below_mount root f then flush_each H root fds acc s
          else (case flush_open_file H f (vf_host s) of
            (r, f', h) \<Rightarrow>
              flush_each H root fds
                (case r of
                   Inr True \<Rightarrow> (fst acc + 1, snd acc)
                 | Inr False \<Rightarrow> acc
                 | Inl e \<Rightarrow> (fst acc, if snd acc = None then Some e else snd acc))
                ((set_file fd f' s)\<lparr>vf_host := h\<rparr>)))"

definition sync_mount ::
  "'h host_ops \<Rightarrow> int list \<Rightarrow> rust_str \<Rightarrow> 'h vfs \<Rightarrow> (io_error_kind + nat) \<times> 'h vfs" where
  "sync_mount H order guest_root s =
     (let root = normalize_mount_root guest_root in
      if vfs_resolve H root s = None then (Inl NotFound, s)
      else case flush_each H root order (0, None) s of
        ((flushed, None), s') \<Rightarrow> (Inr flushed, s')
      | ((flushed, Some e), s') \<Rightarrow> (Inl e, s'))"

definition vfs_close :: "'h host_ops \<Rightarrow> int \<Rightarrow> 'h vfs \<Rightarrow> (io_error_kind + unit) \<times> 'h vfs" where
  "vfs_close H fd s =
     (case vf_open_files s fd of
        None \<Rightarrow> (Inl NotFound, s)
      | Some f \<Rightarrow>
          let s1 = s\<lparr>vf_open_files := (vf_open_files s)(fd := None)\<rparr> in
          if of_memory_region f \<noteq> None then (Inr (), s1)
          else if of_dirty f \<and> of_writable f then
            (Inr (), case of_data f of
               None \<Rightarrow> s1
             | Some data \<Rightarrow> s1\<lparr>vf_host := snd (ho_write H (of_host_path f) data (vf_host s1))\<rparr>)
          else (Inr (), s1))"

section \<open>Operations on paths\<close>

definition on_path ::
  "'h host_ops \<Rightarrow> (host_path \<Rightarrow> 'h \<Rightarrow> (io_error_kind + unit) \<times> 'h) \<Rightarrow> rust_str \<Rightarrow> 'h vfs
     \<Rightarrow> (io_error_kind + unit) \<times> 'h vfs" where
  "on_path H act path s = (case vfs_resolve H path s of
     None \<Rightarrow> (Inl NotFound, s)
   | Some p \<Rightarrow> (case act p (vf_host s) of (r, h) \<Rightarrow> (r, s\<lparr>vf_host := h\<rparr>)))"

definition vfs_metadata :: "'h host_ops \<Rightarrow> rust_str \<Rightarrow> 'h vfs \<Rightarrow> io_error_kind + host_kind" where
  "vfs_metadata H path s = (case vfs_resolve H path s of
     None \<Rightarrow> Inl NotFound | Some p \<Rightarrow> ho_metadata H p (vf_host s))"

definition vfs_create_dir_all :: "'h host_ops \<Rightarrow> rust_str \<Rightarrow> 'h vfs \<Rightarrow> (io_error_kind + unit) \<times> 'h vfs" where
  "vfs_create_dir_all H = on_path H (ho_create_dir_all H)"

text \<open>\<open>Path::exists\<close>: metadata could be read.\<close>

definition vfs_remove_dir_all :: "'h host_ops \<Rightarrow> rust_str \<Rightarrow> 'h vfs \<Rightarrow> (io_error_kind + unit) \<times> 'h vfs" where
  "vfs_remove_dir_all H = on_path H (\<lambda>p h.
     if (case ho_metadata H p h of Inl _ \<Rightarrow> False | Inr _ \<Rightarrow> True) then ho_remove_dir_all H p h else (Inr (), h))"

definition vfs_remove_file :: "'h host_ops \<Rightarrow> rust_str \<Rightarrow> 'h vfs \<Rightarrow> (io_error_kind + unit) \<times> 'h vfs" where
  "vfs_remove_file H = on_path H (ho_remove_file H)"

definition vfs_remove_dir :: "'h host_ops \<Rightarrow> rust_str \<Rightarrow> 'h vfs \<Rightarrow> (io_error_kind + unit) \<times> 'h vfs" where
  "vfs_remove_dir H = on_path H (ho_remove_dir H)"

definition vfs_rename ::
  "'h host_ops \<Rightarrow> rust_str \<Rightarrow> rust_str \<Rightarrow> 'h vfs \<Rightarrow> (io_error_kind + unit) \<times> 'h vfs" where
  "vfs_rename H source target s = (case vfs_resolve H source s of
     None \<Rightarrow> (Inl NotFound, s)
   | Some p \<Rightarrow> on_path H (ho_rename H p) target s)"

definition vfs_truncate :: "'h host_ops \<Rightarrow> rust_str \<Rightarrow> u64 \<Rightarrow> 'h vfs \<Rightarrow> (io_error_kind + unit) \<times> 'h vfs" where
  "vfs_truncate H path len = on_path H (\<lambda>p. ho_set_len H p len) path"

end
