(* ===== verification/Vfs_Typing.thy ===== *)
theory Vfs_Typing
  imports Vfs_Files
begin

text \<open>
  Every descriptor in the table is of exactly one kind, and every operation of the
  file layer keeps it so.
\<close>

section \<open>Kinds of descriptors\<close>

text \<open>An entropy device, a piece of guest memory, a lazily read host file, a
  directory, or a buffered file; only a buffered file can be written or dirty.\<close>

datatype file_kind = Entropy | GuestRange memory_uri | LazyFile nat u64 | Listing "byte list" | Buffered "byte list"

definition has_kind :: "open_file \<Rightarrow> file_kind \<Rightarrow> bool" where
  "has_kind f k \<longleftrightarrow>
     of_random_device f = (k = Entropy) \<and>
     of_memory_region f = (case k of GuestRange u \<Rightarrow> Some u | _ \<Rightarrow> None) \<and>
     of_reader f = (case k of LazyFile handle len \<Rightarrow> Some (handle, len) | _ \<Rightarrow> None) \<and>
     of_dirents f = (case k of Listing d \<Rightarrow> Some d | _ \<Rightarrow> None) \<and>
     of_data f = (case k of Buffered d \<Rightarrow> Some d | _ \<Rightarrow> None)"

definition kind_ok :: "open_file \<Rightarrow> file_kind \<Rightarrow> bool" where
  "kind_ok f k \<longleftrightarrow> has_kind f k \<and>
     (of_writable f \<longrightarrow> (\<exists>d. k = Buffered d)) \<and> (of_dirty f \<longrightarrow> of_writable f) \<and>
     (\<forall>u. k = GuestRange u \<longrightarrow> uri_ok u) \<and> (\<forall>d. k = Listing d \<longrightarrow> length d mod DIRENT_BLOCK = 0)"

lemma has_kind_unique: "has_kind f k \<Longrightarrow> has_kind f k' \<Longrightarrow> k = k'"
  by (cases k; cases k') (auto simp: has_kind_def)

definition table_ok :: "'h vfs \<Rightarrow> bool" where
  "table_ok s \<longleftrightarrow> 3 \<le> vf_next_fd s \<and> (\<forall>fd f. vf_open_files s fd = Some f \<longrightarrow>
     of_fd f = fd \<and> 3 \<le> fd \<and> fd < vf_next_fd s \<and> (\<exists>k. kind_ok f k))"

lemma table_okD:
  assumes "table_ok s" "vf_open_files s fd = Some f"
  obtains k where "of_fd f = fd" "3 \<le> fd" "fd < vf_next_fd s" "kind_ok f k"
  using assms unfolding table_ok_def by blast

lemma table_ok_cong:
  "vf_open_files s' = vf_open_files s \<Longrightarrow> vf_next_fd s' = vf_next_fd s \<Longrightarrow> table_ok s' = table_ok s"
  by (simp add: table_ok_def)

lemma set_file_simps [simp]:
  "vf_open_files (set_file fd f s) = (vf_open_files s)(fd \<mapsto> f)"
  "vf_next_fd (set_file fd f s) = vf_next_fd s"
  "vf_host (set_file fd f s) = vf_host s"
  "vm_mounts (set_file fd f s) = vm_mounts s"
  "vf_guest_bytes (set_file fd f s) = vf_guest_bytes s"
  by (simp_all add: set_file_def)

lemma set_file_ok:
  assumes "table_ok s" "vf_open_files s fd = Some f" "of_fd f' = of_fd f" "kind_ok f' k"
  shows "table_ok (set_file fd f' s)"
  using assms unfolding table_ok_def by (auto split: if_splits)

lemma update_ok:
  assumes "table_ok s" "vf_open_files s fd = Some f" "of_fd f' = of_fd f" "\<And>k. kind_ok f k \<Longrightarrow> kind_ok f' k"
  shows "table_ok (set_file fd f' s)"
proof -
  obtain k where "kind_ok f k" using table_okD [OF assms(1,2)] by blast
  then show ?thesis using set_file_ok [OF assms(1-3)] assms(4) by blast
qed

section \<open>Opening\<close>

lemma fresh_simps [simp]:
  "of_random_device (fresh_file p fl) = False" "of_memory_region (fresh_file p fl) = None"
  "of_reader (fresh_file p fl) = None" "of_writable (fresh_file p fl) = False"
  "of_dirents (fresh_file p fl) = None" "of_data (fresh_file p fl) = None" "of_dirty (fresh_file p fl) = False"
  by (simp_all add: fresh_file_def)

lemma install_ok:
  assumes "table_ok s" "vf_next_fd s < 2147483647" "kind_ok f k"
  shows "table_ok (snd (install_file f s))"
proof -
  have n: "i32_add (vf_next_fd s) 1 = vf_next_fd s + 1"
    using assms(1,2) by (intro i32_add_id) (simp add: table_ok_def i32_range_def)
  have "kind_ok (f\<lparr>of_fd := vf_next_fd s\<rparr>) k" using assms(3) by (simp add: kind_ok_def has_kind_def)
  then show ?thesis using assms(1) n unfolding table_ok_def install_file_def Let_def
    by (auto split: if_splits) (blast intro: less_imp_le)
qed

lemma listing_length: "length (pack_dirents es) mod DIRENT_BLOCK = 0"
  using pack_dirents_records [of es] by (auto simp: DIRENT_BLOCK_def)

lemma open_host_ok:
  assumes "table_ok s" "vf_next_fd s < 2147483647"
  shows "table_ok (snd (open_host H path flags p s))"
proof -
  let ?h = "vf_host s" and ?w = "wants_write flags"
  define kind where "kind = host_path_kind H p ?h"
  have inst: "table_ok (snd (install_file f (s\<lparr>vf_host := h'\<rparr>)))" if "kind_ok f k" for f k h'
    using install_ok [of "s\<lparr>vf_host := h'\<rparr>" f k] assms that table_ok_cong [of "s\<lparr>vf_host := h'\<rparr>" s] by simp
  have k: "kind_ok ((fresh_file path flags)
      \<lparr>of_host_path := p, of_reader := reader, of_writable := ?w, of_dirents := dirents,
       of_position := pos, of_data := data, of_dirty := ?w \<and> c\<rparr>)
      (case (dirents, reader, data) of (Some d, _) \<Rightarrow> Listing d | (None, Some (i, n), _) \<Rightarrow> LazyFile i n
        | (None, None, d) \<Rightarrow> Buffered (the d))"
    if d: "dirents = (if kind = HostDirectory then Some (directory_listing es) else None)"
      and b: "open_backing H p kind ?w t ?h = Inr (reader, data)" and nw: "\<not> (kind = HostDirectory \<and> ?w)"
    for dirents es reader data t pos c
    using d b nw listing_length
    by (auto simp: open_backing_def kind_ok_def has_kind_def directory_listing_def
        split: if_splits sum.splits option.splits)
  let ?d = "if kind = HostDirectory then map_sum id (\<lambda>es. Some (directory_listing es)) (ho_read_dir H p ?h) else Inr None"
  let ?b = "open_backing H p kind ?w (flags AND O_TRUNC \<noteq> 0) ?h"
  note unf = open_host_def Let_def kind_def [symmetric]
  show ?thesis
  proof (cases "(kind = HostMissing \<and> flags AND O_CREAT = 0) \<or> (kind = HostDirectory \<and> ?w)")
    case True
    then show ?thesis using assms(1) by (auto simp: unf)
  next
    case False
    note nf = False
    show ?thesis
    proof (cases ?d)
      case (Inl e)
      then show ?thesis using nf assms(1) by (auto simp: unf)
    next
      case (Inr dirents)
      note d = Inr
      show ?thesis
      proof (cases ?b)
        case (Inl e)
        then show ?thesis using nf assms(1) d by (auto simp: unf)
      next
        case (Inr rd)
        obtain reader data where rd: "rd = (reader, data)" by (cases rd)
        obtain es where "dirents = (if kind = HostDirectory then Some (directory_listing es) else None)"
          using d by (cases "ho_read_dir H p ?h") (auto split: if_splits)
        note kk = k [OF this Inr [unfolded rd]]
        have "\<exists>f h'. open_host H path flags p s = install_file f (s\<lparr>vf_host := h'\<rparr>) \<and> (\<exists>k. kind_ok f k)"
        proof -
          have n1: "\<not> (\<not> kind \<noteq> HostMissing \<and> \<not> flags AND O_CREAT \<noteq> 0)" using nf by auto
          have n2: "\<not> (kind = HostDirectory \<and> ?w)" using nf by auto
          show ?thesis unfolding unf d Inr rd sum.case prod.case if_not_P [OF n1] if_not_P [OF n2]
            by (intro exI conjI, rule refl, rule kk [OF n2])
        qed
        then show ?thesis using inst by force
      qed
    qed
  qed
qed

lemma uri_checked: "parse_and_validate_memory_uri g path = Inr u \<Longrightarrow> uri_ok u"
  using parse_ok by (auto simp: parse_and_validate_memory_uri_def split: sum.splits if_splits)

lemma open_ok:
  assumes "table_ok s" "vf_next_fd s < 2147483647"
  shows "table_ok (snd (vfs_open H path flags s))"
proof -
  have 1: "kind_ok ((fresh_file path flags)\<lparr>of_memory_region := Some u\<rparr>) (GuestRange u)" if "uri_ok u" for u
    using that by (simp add: kind_ok_def has_kind_def)
  have 2: "kind_ok ((fresh_file path flags)\<lparr>of_random_device := True\<rparr>) Entropy"
    by (simp add: kind_ok_def has_kind_def)
  have 3: "kind_ok ((fresh_file path flags)\<lparr>of_dirents := Some (pack_dirents es)\<rparr>) (Listing (pack_dirents es))" for es
    using listing_length by (simp add: kind_ok_def has_kind_def)
  show ?thesis unfolding vfs_open_def
    using install_ok [OF assms 1] install_ok [OF assms 2] install_ok [OF assms 3] open_host_ok [OF assms] assms(1)
      uri_checked [of "vf_guest_bytes s" path]
    by (auto split: if_splits sum.splits option.splits)
qed

section \<open>Operations on an open descriptor\<close>

lemma kind_ok_position [simp]: "kind_ok (f\<lparr>of_position := p\<rparr>) k = kind_ok f k"
  by (simp add: kind_ok_def has_kind_def)

lemma kind_ok_flags [simp]: "kind_ok (f\<lparr>of_flags := fl\<rparr>) k = kind_ok f k"
  by (simp add: kind_ok_def has_kind_def)

lemma kind_ok_flushed: "kind_ok f k \<Longrightarrow> kind_ok (f\<lparr>of_dirty := False\<rparr>) k"
  by (simp add: kind_ok_def has_kind_def)

lemma writable_buffered: "kind_ok f k \<Longrightarrow> of_writable f \<Longrightarrow> k = Buffered (buffer f) \<and> of_data f = Some (buffer f)"
  by (auto simp: kind_ok_def has_kind_def buffer_def)

lemma kind_ok_data: "kind_ok f k \<Longrightarrow> of_writable f \<Longrightarrow> kind_ok (f\<lparr>of_data := Some d\<rparr>) (Buffered d)"
  by (auto simp: kind_ok_def has_kind_def)

lemma kind_ok_dirty: "kind_ok f k \<Longrightarrow> of_writable f \<Longrightarrow> kind_ok (f\<lparr>of_dirty := True\<rparr>) k"
  by (auto simp: kind_ok_def has_kind_def)

lemma advance_ok: "table_ok s \<Longrightarrow> vf_open_files s fd = Some f \<Longrightarrow> table_ok (advance fd f n s)"
  unfolding advance_def by (rule update_ok) auto

lemma host_ok [simp]: "table_ok (s\<lparr>vf_host := h\<rparr>) = table_ok s"
  by (rule table_ok_cong) simp_all

lemma entropy_ok: "table_ok s \<Longrightarrow> table_ok (snd (entropy_read H n s))"
  by (auto simp: entropy_read_def split: prod.splits sum.splits)

lemma read_ok: "table_ok s \<Longrightarrow> table_ok (snd (vfs_read H fd n s))"
  by (auto simp: vfs_read_def Let_def entropy_ok advance_ok split: option.splits sum.splits prod.splits)

lemma pread_ok: "table_ok s \<Longrightarrow> table_ok (snd (vfs_pread H fd n off s))"
  by (auto simp: vfs_pread_def Let_def entropy_ok split: option.splits prod.splits)

lemma refused_writable:
  "write_refused fd s = Inr f \<Longrightarrow> vf_open_files s fd = Some f \<and> of_writable f"
  by (auto simp: write_refused_def split: option.splits if_splits)

lemma set_data_ok:
  assumes "table_ok s" "write_refused fd s = Inr f"
  shows "table_ok (set_file fd (f\<lparr>of_data := Some d, of_position := p, of_dirty := True\<rparr>) s)"
    "table_ok (set_file fd (f\<lparr>of_data := Some d, of_dirty := True\<rparr>) s)"
    "table_ok (set_file fd (f\<lparr>of_data := Some d\<rparr>) s)"
proof -
  note r = refused_writable [OF assms(2)]
  obtain k where k: "kind_ok f k" using table_okD [OF assms(1)] r by metis
  have d: "kind_ok (f\<lparr>of_data := Some d\<rparr>) (Buffered d)" by (rule kind_ok_data [OF k]) (use r in simp)
  have dd: "kind_ok (f\<lparr>of_data := Some d, of_dirty := True\<rparr>) (Buffered d)"
    using kind_ok_dirty [OF d] r by simp
  then have dp: "kind_ok (f\<lparr>of_data := Some d, of_position := p, of_dirty := True\<rparr>) (Buffered d)"
    by (simp add: kind_ok_def has_kind_def)
  show "table_ok (set_file fd (f\<lparr>of_data := Some d, of_position := p, of_dirty := True\<rparr>) s)"
    using set_file_ok [OF assms(1) _ _ dp] r by simp
  show "table_ok (set_file fd (f\<lparr>of_data := Some d, of_dirty := True\<rparr>) s)"
    using set_file_ok [OF assms(1) _ _ dd] r by simp
  show "table_ok (set_file fd (f\<lparr>of_data := Some d\<rparr>) s)"
    using set_file_ok [OF assms(1) _ _ d] r by simp
qed

lemma write_ok: "table_ok s \<Longrightarrow> vfs_write fd bs s = Some (r, s') \<Longrightarrow> table_ok s'"
  by (auto simp: vfs_write_def Let_def set_data_ok split: sum.splits bind_splits)

lemma pwrite_ok: "table_ok s \<Longrightarrow> vfs_pwrite fd bs off s = Some (r, s') \<Longrightarrow> table_ok s'"
  by (auto simp: vfs_pwrite_def Let_def set_data_ok split: sum.splits bind_splits if_splits)

lemma ftruncate_ok: "table_ok s \<Longrightarrow> vfs_ftruncate fd len s = Some (r, s') \<Longrightarrow> table_ok s'"
  by (auto simp: vfs_ftruncate_def set_data_ok split: sum.splits bind_splits)

lemma seek_ok: "table_ok s \<Longrightarrow> table_ok (snd (vfs_seek fd off whence s))"
  by (auto simp: vfs_seek_def Let_def split: option.splits intro: update_ok)

lemma set_flags_ok: "table_ok s \<Longrightarrow> table_ok (snd (set_status_flags fd fl s))"
  by (auto simp: set_status_flags_def split: option.splits intro: update_ok)

lemma getdents_ok: "table_ok s \<Longrightarrow> table_ok (snd (getdents fd n s))"
  by (auto simp: getdents_def Let_def advance_ok split: option.splits)

lemma flushed_file:
  assumes "flush_open_file H f h = (r, f', h')"
  shows "of_fd f' = of_fd f \<and> (kind_ok f k \<longrightarrow> kind_ok f' k)"
  using assms kind_ok_flushed [of f k] by (auto simp: flush_open_file_def split: if_splits option.splits prod.splits sum.splits)

lemma flush_table_ok:
  assumes "table_ok s" "vf_open_files s fd = Some f" "flush_open_file H f h = (r, f', h')"
  shows "table_ok (set_file fd f' s)"
  using flushed_file [OF assms(3)] by (intro update_ok [OF assms(1,2)]) auto

lemma sync_ok: "table_ok s \<Longrightarrow> table_ok (snd (vfs_sync H fd s))"
  by (auto simp: vfs_sync_def flush_table_ok split: option.splits prod.splits)

lemma flush_each_ok: "table_ok s \<Longrightarrow> table_ok (snd (flush_each H root fds acc s))"
proof (induction H root fds acc s rule: flush_each.induct)
  case (2 H root fd fds acc s)
  show ?case
  proof (cases "vf_open_files s fd")
    case (Some f)
    obtain r f' h where fl: "flush_open_file H f (vf_host s) = (r, f', h)" by (metis prod_cases3)
    have "table_ok (set_file fd f' s)" by (rule flush_table_ok [OF "2.prems" Some fl])
    then show ?thesis using "2.IH"(2) [OF Some] "2.IH"(3) [OF Some _ fl [symmetric] refl] "2.prems" Some fl
      by (cases "below_mount root f") simp_all
  qed (use 2 in simp)
qed simp

lemma sync_mount_ok: "table_ok s \<Longrightarrow> table_ok (snd (sync_mount H order root s))"
  using flush_each_ok [of s H "normalize_mount_root root" order "(0, None)"]
  by (auto simp: sync_mount_def Let_def split: prod.splits option.splits)

lemma close_ok: "table_ok s \<Longrightarrow> table_ok (snd (vfs_close H fd s))"
  unfolding table_ok_def by (auto simp: vfs_close_def Let_def split: option.splits if_splits)

lemma on_path_ok: "table_ok s \<Longrightarrow> table_ok (snd (on_path H act path s))"
  by (auto simp: on_path_def split: option.splits prod.splits)

section \<open>Reachable tables\<close>

text \<open>The calls of the guest, in any order, with changes of the mounts, of the
  bound address space and of the host in between.  Descriptors are handed out in
  increasing order until the counter would wrap; the model stops there.\<close>

inductive vfs_step :: "'h host_ops \<Rightarrow> 'h vfs \<Rightarrow> 'h vfs \<Rightarrow> bool" for H where
  step_open: "vfs_step H s (snd (vfs_open H path flags s))" if "vf_next_fd s < 2147483647"
| step_read: "vfs_step H s (snd (vfs_read H fd n s))"
| step_pread: "vfs_step H s (snd (vfs_pread H fd n off s))"
| step_write: "vfs_step H s s'" if "vfs_write fd bs s = Some (r, s')"
| step_pwrite: "vfs_step H s s'" if "vfs_pwrite fd bs off s = Some (r, s')"
| step_ftruncate: "vfs_step H s s'" if "vfs_ftruncate fd len s = Some (u, s')"
| step_seek: "vfs_step H s (snd (vfs_seek fd i whence s))"
| step_flags: "vfs_step H s (snd (set_status_flags fd flags s))"
| step_getdents: "vfs_step H s (snd (getdents fd n s))"
| step_sync: "vfs_step H s (snd (vfs_sync H fd s))"
| step_sync_mount: "vfs_step H s (snd (sync_mount H order root s))"
| step_close: "vfs_step H s (snd (vfs_close H fd s))"
| step_path: "vfs_step H s (snd (on_path H act path s))"
| step_mounts: "vfs_step H s (s\<lparr>vm_mounts := ms, vm_savedata_root := p, vm_savedata_slots := slots\<rparr>)"
| step_guest: "vfs_step H s (s\<lparr>vf_guest_bytes := g\<rparr>)"
| step_host: "vfs_step H s (s\<lparr>vf_host := h\<rparr>)"

inductive vfs_reachable :: "'h host_ops \<Rightarrow> 'h vfs \<Rightarrow> bool" for H where
  reach_vfs_new: "vfs_reachable H (vfs_new H h tmp)"
| reach_vfs_step: "vfs_reachable H s \<Longrightarrow> vfs_step H s s' \<Longrightarrow> vfs_reachable H s'"

lemma vfs_new_simps [simp]:
  "vf_open_files (vfs_new H h tmp) = Map.empty" "vf_next_fd (vfs_new H h tmp) = 3"
  "vf_host (vfs_new H h tmp) = h" "vf_guest_bytes (vfs_new H h tmp) = None"
  "vm_mounts (vfs_new H h tmp) = vm_mounts (vfs_mounts_new H h tmp)"
  by (simp_all add: vfs_new_def vfs_mounts.defs vfs.defs)

lemma step_table_ok: "vfs_step H s s' \<Longrightarrow> table_ok s \<Longrightarrow> table_ok s'"
proof (induction rule: vfs_step.induct)
  case (step_mounts s ms p slots)
  then show ?case by (simp add: table_ok_def)
next
  case (step_guest s g)
  then show ?case by (simp add: table_ok_def)
qed (auto intro: open_ok read_ok pread_ok write_ok pwrite_ok ftruncate_ok seek_ok set_flags_ok getdents_ok
    sync_ok sync_mount_ok close_ok on_path_ok)

lemma reachable_table_ok: "vfs_reachable H s \<Longrightarrow> table_ok s"
  by (induction rule: vfs_reachable.induct) (auto simp: table_ok_def [of "vfs_new _ _ _"] intro: step_table_ok)

section \<open>Where guest ranges come from\<close>

text \<open>No call but an open gives a descriptor a guest range or another one.\<close>

definition keeps_ranges :: "'h vfs \<Rightarrow> 'h vfs \<Rightarrow> bool" where
  "keeps_ranges s s' \<longleftrightarrow> (\<forall>fd f' u. vf_open_files s' fd = Some f' \<and> of_memory_region f' = Some u \<longrightarrow>
     (\<exists>f. vf_open_files s fd = Some f \<and> of_memory_region f = Some u))"

lemma keeps_same: "vf_open_files s' = vf_open_files s \<Longrightarrow> keeps_ranges s s'"
  by (simp add: keeps_ranges_def)

lemma keeps_trans: "keeps_ranges s s1 \<Longrightarrow> keeps_ranges s1 s2 \<Longrightarrow> keeps_ranges s s2"
  unfolding keeps_ranges_def by metis

lemma keeps_set_file:
  "vf_open_files s fd = Some f \<Longrightarrow> of_memory_region f' = of_memory_region f \<Longrightarrow> keeps_ranges s (set_file fd f' s)"
  by (auto simp: keeps_ranges_def)

lemma keeps_new_file:
  "vf_open_files s0 = vf_open_files s \<Longrightarrow> of_memory_region f = None \<Longrightarrow>
   keeps_ranges s (snd (install_file f s0))"
  by (auto simp: keeps_ranges_def install_file_def Let_def)

lemma keeps_advance: "vf_open_files s fd = Some f \<Longrightarrow> keeps_ranges s (advance fd f n s)"
  unfolding advance_def by (rule keeps_set_file) simp_all

lemma keeps_entropy: "keeps_ranges s (snd (entropy_read H n s))"
  by (auto simp: entropy_read_def intro!: keeps_same split: prod.splits sum.splits)

lemma keeps_reads:
  "keeps_ranges s (snd (vfs_read H fd n s))" "keeps_ranges s (snd (vfs_pread H fd n off s))"
  "keeps_ranges s (snd (getdents fd n s))"
  by (auto simp: vfs_read_def vfs_pread_def getdents_def Let_def keeps_entropy keeps_advance keeps_same
      split: option.splits sum.splits prod.splits)

lemma keeps_writes:
  "vfs_write fd bs s = Some (r, s') \<Longrightarrow> keeps_ranges s s'"
  "vfs_pwrite fd bs off s = Some (r, s') \<Longrightarrow> keeps_ranges s s'"
  "vfs_ftruncate fd len s = Some (u, s') \<Longrightarrow> keeps_ranges s s'"
  by (auto simp: vfs_write_def vfs_pwrite_def vfs_ftruncate_def Let_def keeps_same
      dest!: refused_writable intro: keeps_set_file split: sum.splits bind_splits if_splits)

lemma keeps_position:
  "keeps_ranges s (snd (vfs_seek fd off whence s))" "keeps_ranges s (snd (set_status_flags fd fl s))"
  by (auto simp: vfs_seek_def set_status_flags_def Let_def keeps_same intro: keeps_set_file split: option.splits)

lemma flushed_range: "flush_open_file H f h = (r, f', h') \<Longrightarrow> of_memory_region f' = of_memory_region f"
  by (auto simp: flush_open_file_def split: if_splits option.splits prod.splits sum.splits)

lemma keeps_host: "keeps_ranges s (s'\<lparr>vf_host := h\<rparr>) = keeps_ranges s s'"
  by (simp add: keeps_ranges_def)

lemma keeps_sync: "keeps_ranges s (snd (vfs_sync H fd s))"
  by (auto simp: vfs_sync_def keeps_same keeps_host intro: keeps_set_file flushed_range split: option.splits prod.splits)

lemma keeps_flush_each: "keeps_ranges s (snd (flush_each H root fds acc s))"
proof (induction H root fds acc s rule: flush_each.induct)
  case (2 H root fd fds acc s)
  show ?case
  proof (cases "vf_open_files s fd")
    case (Some f)
    obtain r f' h where fl: "flush_open_file H f (vf_host s) = (r, f', h)" by (metis prod_cases3)
    have k: "keeps_ranges s ((set_file fd f' s)\<lparr>vf_host := h\<rparr>)"
      unfolding keeps_host by (rule keeps_set_file [OF Some flushed_range [OF fl]])
    show ?thesis using "2.IH"(2) [OF Some] keeps_trans [OF k] "2.IH"(3) [OF Some _ fl [symmetric] refl] Some fl
      by (cases "below_mount root f") simp_all
  qed (use 2 in simp)
qed (simp add: keeps_same)

lemma keeps_sync_mount: "keeps_ranges s (snd (sync_mount H order root s))"
  using keeps_flush_each [of s H "normalize_mount_root root" order "(0, None)"]
  by (auto simp: sync_mount_def Let_def keeps_same split: prod.splits option.splits)

lemma keeps_close: "keeps_ranges s (snd (vfs_close H fd s))"
  by (auto simp: keeps_ranges_def vfs_close_def Let_def split: option.splits if_splits)

lemma keeps_path: "keeps_ranges s (snd (on_path H act path s))"
  by (auto simp: on_path_def keeps_same split: option.splits prod.splits)

lemma keeps_open_host: "keeps_ranges s (snd (open_host H path flags p s))"
  by (auto simp: open_host_def Let_def keeps_same intro!: keeps_new_file split: sum.splits prod.splits if_splits)

lemma keeps_open:
  assumes "\<not> memory_claims path"
  shows "keeps_ranges s (snd (vfs_open H path flags s))"
  using assms
  by (auto simp: vfs_open_def keeps_same keeps_open_host intro!: keeps_new_file split: option.splits)

lemma open_range:
  assumes "memory_claims path" "vf_open_files (snd (vfs_open H path flags s)) fd = Some f" "of_memory_region f = Some u"
  shows "(\<exists>f. vf_open_files s fd = Some f \<and> of_memory_region f = Some u) \<or>
    memory_parse path = Inr u \<and> (\<exists>src. vf_guest_bytes s = Some (Some src) \<and>
      gs_range_readable src (mu_addr u) (mu_len u))"
  using assms
  by (auto simp: vfs_open_def parse_and_validate_memory_uri_def guest_byte_source_def install_file_def Let_def
      split: if_splits sum.splits option.splits)

text \<open>A guest range new to the table: an open of its name that the bound address
  space has confirmed.\<close>

definition range_opened :: "'h host_ops \<Rightarrow> 'h vfs \<Rightarrow> 'h vfs \<Rightarrow> memory_uri \<Rightarrow> bool" where
  "range_opened H s s' u \<longleftrightarrow> (\<exists>path flags src. s' = snd (vfs_open H path flags s) \<and>
     memory_parse path = Inr u \<and> vf_guest_bytes s = Some (Some src) \<and>
     gs_range_readable src (mu_addr u) (mu_len u))"

lemma step_keeps:
  "vfs_step H s s' \<Longrightarrow>
   keeps_ranges s s' \<or> (\<exists>path flags. s' = snd (vfs_open H path flags s) \<and> memory_claims path)"
proof (induction rule: vfs_step.induct)
  case (step_open s path flags)
  then show ?case using keeps_open by blast
next
  case (step_mounts s ms p slots)
  then show ?case by (simp add: keeps_same)
next
  case (step_guest s g)
  then show ?case by (simp add: keeps_same)
next
  case (step_host s h)
  then show ?case by (simp add: keeps_same)
qed (simp_all add: keeps_reads keeps_writes keeps_position keeps_sync keeps_sync_mount keeps_close keeps_path)

lemma step_ranges:
  assumes "vfs_step H s s'" "vf_open_files s' fd = Some f'" "of_memory_region f' = Some u"
  shows "(\<exists>f. vf_open_files s fd = Some f \<and> of_memory_region f = Some u) \<or> range_opened H s s' u"
proof (cases "keeps_ranges s s'")
  case True
  then show ?thesis using assms(2,3) unfolding keeps_ranges_def by blast
next
  case False
  then obtain path flags where p: "s' = snd (vfs_open H path flags s)" "memory_claims path"
    using step_keeps [OF assms(1)] by blast
  show ?thesis using open_range [OF p(2)] assms(2,3) unfolding p(1) range_opened_def by blast
qed

section \<open>Properties\<close>

text \<open>C33: In every reachable state each open descriptor has exactly one kind
  (entropy device, guest range, lazily read file, directory listing or buffered
  file): only buffered files are ever writable or dirty, a guest range is
  structurally valid, a listing is whole blocks, and the descriptor was handed out
  by this table.  And whatever call comes next, a descriptor has a guest range
  after it only if it had that range before, or if the call opened a name that
  parses to the range while the bound address space answered that the whole range
  is readable.\<close>

theorem descriptors_typed:
  assumes "vfs_reachable H s" and "vf_open_files s fd = Some f"
  shows "(\<exists>!k. has_kind f k \<and> kind_ok f k) \<and> of_fd f = fd \<and> 3 \<le> fd \<and> fd < vf_next_fd s \<and>
    (\<forall>s' fd' f' u. vfs_step H s s' \<and> vf_open_files s' fd' = Some f' \<and> of_memory_region f' = Some u \<longrightarrow>
       (\<exists>f. vf_open_files s fd' = Some f \<and> of_memory_region f = Some u) \<or> range_opened H s s' u)"
proof -
  obtain k where "of_fd f = fd" "3 \<le> fd" "fd < vf_next_fd s" "kind_ok f k"
    using table_okD [OF reachable_table_ok [OF assms(1)] assms(2)] by blast
  then have "\<exists>!k. has_kind f k \<and> kind_ok f k"
    using has_kind_unique by (intro ex1I [of _ k]) (auto simp: kind_ok_def)
  then show ?thesis using \<open>of_fd f = fd\<close> \<open>3 \<le> fd\<close> \<open>fd < vf_next_fd s\<close> step_ranges by blast
qed

definition demo_random :: "unit vfs" where
  "demo_random = snd (vfs_open (plain_host []) (ascii ''/dev/urandom'') 0 (vfs_new (plain_host []) () []))"

lemma demo_random_facts:
  "vfs_reachable (plain_host []) demo_random"
  "\<exists>f. vf_open_files demo_random 3 = Some f \<and> of_random_device f"
proof -
  have "vfs_step (plain_host []) (vfs_new (plain_host []) () []) demo_random"
    unfolding demo_random_def by (rule step_open) simp
  then show "vfs_reachable (plain_host []) demo_random" by (rule reach_vfs_step [OF reach_vfs_new])
  have p: "\<not> memory_claims (ascii ''/dev/urandom'')" by code_simp
  have w: "\<not> wants_write 0" by (simp add: wants_write_def)
  show "\<exists>f. vf_open_files demo_random 3 = Some f \<and> of_random_device f"
    by (simp add: demo_random_def vfs_open_def p w install_file_def)
qed

definition demo_source :: byte_source where
  "demo_source = \<lparr>gs_read = (\<lambda>a n. Some (replicate n 7)), gs_range_readable = (\<lambda>a n. True)\<rparr>"

definition demo_bound :: "unit vfs" where
  "demo_bound = demo_random\<lparr>vf_guest_bytes := Some (Some demo_source)\<rparr>"

definition demo_ranged :: "unit vfs" where
  "demo_ranged = snd (vfs_open (plain_host []) (memory_uri_text demo_uri) 0 demo_bound)"

lemma demo_bound_facts:
  "vfs_reachable (plain_host []) demo_bound" "vf_next_fd demo_bound = 4" "vf_open_files demo_bound 4 = None"
  "vf_open_files demo_bound = vf_open_files demo_random"
proof -
  show "vfs_reachable (plain_host []) demo_bound"
    unfolding demo_bound_def by (rule reach_vfs_step [OF demo_random_facts(1) step_guest])
  have p: "\<not> memory_claims (ascii ''/dev/urandom'')" by code_simp
  have w: "\<not> wants_write 0" by (simp add: wants_write_def)
  show "vf_next_fd demo_bound = 4" "vf_open_files demo_bound 4 = None"
    "vf_open_files demo_bound = vf_open_files demo_random"
    by (simp_all add: demo_bound_def demo_random_def vfs_open_def p w install_file_def i32_add_def)
qed

lemma demo_ranged_facts:
  "vfs_step (plain_host []) demo_bound demo_ranged"
  "\<exists>f. vf_open_files demo_ranged 4 = Some f \<and> of_memory_region f = Some demo_uri"
proof -
  show "vfs_step (plain_host []) demo_bound demo_ranged"
    unfolding demo_ranged_def by (rule step_open) (simp add: demo_bound_facts(2))
  have c: "memory_claims (memory_uri_text demo_uri)"
    by (simp add: memory_uri_text_def memory_claims_text)
  have "parse_and_validate_memory_uri (vf_guest_bytes demo_bound) (memory_uri_text demo_uri) = Inr demo_uri"
    using demo_uri_parses
    by (simp add: parse_and_validate_memory_uri_def guest_byte_source_def demo_source_def demo_bound_def)
  then show "\<exists>f. vf_open_files demo_ranged 4 = Some f \<and> of_memory_region f = Some demo_uri"
    by (simp add: demo_ranged_def vfs_open_def c wants_write_def install_file_def demo_bound_facts(2))
qed

theorem descriptors_typed_witness:
  "(\<exists>f. vf_open_files demo_bound 3 = Some f \<and> has_kind f Entropy \<and> \<not> of_writable f) \<and>
   range_opened (plain_host []) demo_bound demo_ranged demo_uri"
proof -
  obtain f where f: "vf_open_files demo_bound 3 = Some f" "of_random_device f"
    using demo_random_facts(2) demo_bound_facts(4) by auto
  note t = descriptors_typed [OF demo_bound_facts(1) f(1)]
  then obtain k where k: "has_kind f k" "kind_ok f k" by blast
  then have "k = Entropy" using f(2) by (simp add: has_kind_def)
  moreover have "range_opened (plain_host []) demo_bound demo_ranged demo_uri"
    using t demo_ranged_facts demo_bound_facts(3) by fastforce
  ultimately show ?thesis using f(1) k by (auto simp: kind_ok_def)
qed

end
