(* ===== verification/Vfs_Refinement.thy ===== *)
theory Vfs_Refinement
  imports Vfs_Typing
begin

text \<open>
  The abstract file a writable descriptor implements: a byte sequence with a
  position.  Any sequence of reads, writes, truncations and seeks on the
  descriptor returns what the abstract file returns, and closing it hands the
  sequence to the host.
\<close>

section \<open>The abstract file\<close>

type_synonym abstract_file = "byte list \<times> nat"

datatype file_op =
    OpRead nat | OpPread nat u64 | OpWrite "byte list" | OpPwrite "byte list" u64
  | OpTruncate u64 | OpSeek int int | OpSize

datatype file_result = RBytes "byte list" | RCount nat | RPos nat | RDone | RFail io_error_kind

text \<open>Writing at \<open>p\<close> replaces the bytes there; a gap before \<open>p\<close> is zero.\<close>

definition spec_store :: "nat \<Rightarrow> byte list \<Rightarrow> byte list \<Rightarrow> byte list" where
  "spec_store p bs d =
     take p d @ replicate (p - length d) 0 @ bs @ drop (p + length bs) d"

fun spec_op :: "file_op \<Rightarrow> abstract_file \<Rightarrow> file_result \<times> abstract_file" where
  "spec_op (OpRead n) (d, p) = (let bs = take n (drop p d) in (RBytes bs, (d, p + length bs)))"
| "spec_op (OpPread n off) (d, p) = (RBytes (take n (drop (unat off) d)), (d, p))"
| "spec_op (OpWrite bs) (d, p) = (RCount (length bs), (spec_store p bs d, p + length bs))"
| "spec_op (OpPwrite bs off) (d, p) = (RCount (length bs), (spec_store (unat off) bs d, p))"
| "spec_op (OpTruncate len) (d, p) =
     (RDone, (take (unat len) d @ replicate (unat len - length d) 0, p))"
| "spec_op (OpSeek off whence) (d, p) =
     (if whence \<notin> {0, 1, 2} then (RFail InvalidInput, (d, p))
      else let t = (if whence = 0 then 0 else if whence = 1 then int p else int (length d)) + off in
        if t < 0 \<or> int ISIZE_MAX < t then (RFail InvalidInput, (d, p)) else (RPos (nat t), (d, nat t)))"
| "spec_op OpSize (d, p) = (RPos (length d), (d, p))"

text \<open>No buffer grows beyond the size limit of a \<open>Vec\<close>.\<close>

fun op_fits :: "file_op \<Rightarrow> abstract_file \<Rightarrow> bool" where
  "op_fits (OpWrite bs) (d, p) = (p + length bs \<le> ISIZE_MAX)"
| "op_fits (OpPwrite bs off) (d, p) = (unat off + length bs \<le> ISIZE_MAX)"
| "op_fits (OpTruncate len) (d, p) = (unat len \<le> ISIZE_MAX)"
| "op_fits _ _ = True"

fun spec_run :: "file_op list \<Rightarrow> abstract_file \<Rightarrow> file_result list \<times> abstract_file" where
  "spec_run [] a = ([], a)"
| "spec_run (op # ops) a =
     (let (r, a1) = spec_op op a; (rs, a2) = spec_run ops a1 in (r # rs, a2))"

fun run_fits :: "file_op list \<Rightarrow> abstract_file \<Rightarrow> bool" where
  "run_fits [] a = True"
| "run_fits (op # ops) a = (op_fits op a \<and> run_fits ops (snd (spec_op op a)))"

section \<open>The same calls on a descriptor\<close>

definition file_answer :: "('x \<Rightarrow> file_result) \<Rightarrow> io_error_kind + 'x \<Rightarrow> file_result" where
  "file_answer f r = (case r of Inl e \<Rightarrow> RFail e | Inr x \<Rightarrow> f x)"

fun file_call :: "'h host_ops \<Rightarrow> int \<Rightarrow> file_op \<Rightarrow> 'h vfs \<Rightarrow> (file_result \<times> 'h vfs) option" where
  "file_call H fd (OpRead n) s = Some (apfst (file_answer RBytes) (vfs_read H fd n s))"
| "file_call H fd (OpPread n off) s = Some (apfst (file_answer RBytes) (vfs_pread H fd n off s))"
| "file_call H fd (OpWrite bs) s = map_option (apfst (file_answer RCount)) (vfs_write fd bs s)"
| "file_call H fd (OpPwrite bs off) s = map_option (apfst (file_answer RCount)) (vfs_pwrite fd bs off s)"
| "file_call H fd (OpTruncate len) s = map_option (apfst (file_answer (\<lambda>_. RDone))) (vfs_ftruncate fd len s)"
| "file_call H fd (OpSeek off whence) s = Some (apfst (file_answer (RPos \<circ> unat)) (vfs_seek fd off whence s))"
| "file_call H fd OpSize s = map_option (\<lambda>n. (RPos (unat n), s)) (file_size fd s)"

fun file_calls :: "'h host_ops \<Rightarrow> int \<Rightarrow> file_op list \<Rightarrow> 'h vfs \<Rightarrow> (file_result list \<times> 'h vfs) option" where
  "file_calls H fd [] s = Some ([], s)"
| "file_calls H fd (op # ops) s =
     Option.bind (file_call H fd op s) (\<lambda>(r, s1). map_option (apfst ((#) r)) (file_calls H fd ops s1))"

section \<open>Refinement\<close>

text \<open>The operations that change the bytes.\<close>

fun mutates :: "file_op \<Rightarrow> bool" where
  "mutates (OpWrite bs) = True"
| "mutates (OpPwrite bs off) = True"
| "mutates (OpTruncate len) = True"
| "mutates op = False"

text \<open>The descriptor holds the abstract file; everything else is as in \<open>s0\<close>.  The
  flag \<open>w\<close> says that it has been changed, and then it is marked dirty.\<close>

definition holds :: "'h vfs \<Rightarrow> int \<Rightarrow> open_file \<Rightarrow> abstract_file \<Rightarrow> bool \<Rightarrow> 'h vfs \<Rightarrow> bool" where
  "holds s0 fd f a w s \<longleftrightarrow>
     length (fst a) \<le> ISIZE_MAX \<and> snd a \<le> ISIZE_MAX \<and>
     (\<exists>dirty. (w \<longrightarrow> dirty) \<and> s = set_file fd (f\<lparr>of_data := Some (fst a), of_position := of_nat (snd a), of_dirty := dirty\<rparr>) s0)"

lemma isize_word: "n \<le> ISIZE_MAX \<Longrightarrow> unat (of_nat n :: u64) = n"
  by (simp add: ISIZE_MAX_def unat_of_nat take_bit_nat_def)

lemma isize_sint: "n \<le> ISIZE_MAX \<Longrightarrow> sint (of_nat n :: u64) = int n"
  by (simp add: ISIZE_MAX_def sint_uint uint_nat isize_word [unfolded ISIZE_MAX_def]
      signed_take_bit_int_eq_self)

lemma buffered_take: "buffered_read d off n = take n (drop (unat off) d)"
  by (cases "unat off \<le> length d") (auto simp: buffered_read_def Let_def min_def)

lemma put_at_store: "length b = max (length d) (p + length bs) \<Longrightarrow> p \<le> length b \<Longrightarrow>
    take p b = take p d @ replicate (p - length d) 0 \<Longrightarrow> drop (p + length bs) b = drop (p + length bs) d \<Longrightarrow>
    put_at p bs b = take p d @ replicate (p - length d) 0 @ bs @ drop (p + length bs) d"
  by (simp add: put_at_def)

lemma store_gap:
  assumes "p + length bs \<le> ISIZE_MAX"
  shows "Option.bind (fill_gap p d) (store_range p (p + length bs) bs) = Some (spec_store p bs d)"
proof -
  define b where "b = (if p > length d then vec_resize p d else d)"
  have gap: "fill_gap p d = Some b" using assms by (simp add: fill_gap_def vec_grow_def b_def)
  have b: "b = (if p > length d then d @ replicate (p - length d) 0 else d)"
    by (simp add: b_def vec_resize_def)
  define c where "c = (if p + length bs > length b then vec_resize (p + length bs) b else b)"
  have c: "c = (if p + length bs > length b then b @ replicate (p + length bs - length b) 0 else b)"
    by (simp add: c_def vec_resize_def)
  have "store_range p (p + length bs) bs b = Some (put_at p bs c)"
    using assms by (simp add: store_range_def vec_grow_def c_def)
  moreover have "put_at p bs c = spec_store p bs d"
  proof (cases "p > length d")
    case True
    then show ?thesis by (auto simp: put_at_def spec_store_def c b)
  next
    case False
    then show ?thesis by (auto simp: put_at_def spec_store_def c b)
  qed
  ultimately show ?thesis using gap by simp
qed

lemma spec_store_length: "length (spec_store p bs d) \<le> max (length d) (p + length bs)"
  by (auto simp: spec_store_def)

lemma holds_file:
  assumes "holds s0 fd f a w s"
  obtains dirty where "w \<longrightarrow> dirty" "vf_open_files s fd = Some (f\<lparr>of_data := Some (fst a), of_position := of_nat (snd a), of_dirty := dirty\<rparr>)"
    "unat (of_nat (snd a) :: u64) = snd a" "length (fst a) \<le> ISIZE_MAX" "snd a \<le> ISIZE_MAX"
    "\<And>g. set_file fd g s = set_file fd g s0"
proof -
  obtain dirty where d: "w \<longrightarrow> dirty" "length (fst a) \<le> ISIZE_MAX" "snd a \<le> ISIZE_MAX"
    "s = set_file fd (f\<lparr>of_data := Some (fst a), of_position := of_nat (snd a), of_dirty := dirty\<rparr>) s0"
    using assms unfolding holds_def by blast
  show thesis
    by (rule that [OF d(1)]) (use d isize_word [OF d(3)] in \<open>simp_all add: set_file_def\<close>)
qed

lemma holds_intro:
  "length d \<le> ISIZE_MAX \<Longrightarrow> p \<le> ISIZE_MAX \<Longrightarrow> (w \<longrightarrow> dirty) \<Longrightarrow>
   holds s0 fd f (d, p) w (set_file fd (f\<lparr>of_data := Some d, of_position := of_nat p, of_dirty := dirty\<rparr>) s0)"
  unfolding holds_def by auto

lemma file_order:
  "f\<lparr>of_data := a, of_dirty := c, of_position := b\<rparr> = f\<lparr>of_data := a, of_position := b, of_dirty := c\<rparr>"
  "f\<lparr>of_position := b, of_data := a, of_dirty := c\<rparr> = f\<lparr>of_data := a, of_position := b, of_dirty := c\<rparr>"
  by (cases f; simp)+

text \<open>A writable descriptor is a plain buffered file.\<close>

definition plain_file :: "open_file \<Rightarrow> bool" where
  "plain_file f \<longleftrightarrow> of_writable f \<and> \<not> of_random_device f \<and> of_memory_region f = None \<and>
     of_dirents f = None"

lemma writable_plain: "kind_ok f k \<Longrightarrow> of_writable f \<Longrightarrow> plain_file f"
  by (auto simp: kind_ok_def has_kind_def plain_file_def)

lemma call_refines:
  assumes f: "plain_file f" and h: "holds s0 fd f (d, p) w s" and fit: "op_fits op (d, p)"
  shows "\<exists>s'. file_call H fd op s = Some (fst (spec_op op (d, p)), s') \<and>
    holds s0 fd f (snd (spec_op op (d, p))) (w \<or> mutates op) s'"
proof -
  obtain dirty where w: "w \<longrightarrow> dirty" and fl: "vf_open_files s fd = Some (f\<lparr>of_data := Some d, of_position := of_nat p, of_dirty := dirty\<rparr>)"
    and p: "unat (of_nat p :: u64) = p" "length d \<le> ISIZE_MAX" "p \<le> ISIZE_MAX"
    and set: "\<And>g. set_file fd g s = set_file fd g s0"
    using holds_file [OF h] by auto
  note g = f [unfolded plain_file_def]
  have refused: "write_refused fd s = Inr (f\<lparr>of_data := Some d, of_position := of_nat p, of_dirty := dirty\<rparr>)"
    using g by (simp add: write_refused_def fl)
  show ?thesis
  proof (cases op)
    case (OpRead n)
    let ?bs = "take n (drop p d)"
    have "p + length ?bs \<le> ISIZE_MAX" using p(2,3) by (cases "p \<le> length d") auto
    then have "holds s0 fd f (d, p + length ?bs) w
        (set_file fd (f\<lparr>of_data := Some d, of_position := of_nat (p + length ?bs), of_dirty := dirty\<rparr>) s0)"
      by (rule holds_intro [OF p(2) _ w])
    then show ?thesis using g
      by (simp add: OpRead vfs_read_def fl buffered_take p(1) Let_def advance_def set file_answer_def file_order)
  next
    case (OpPread n off)
    then show ?thesis using g h by (simp add: vfs_pread_def fl buffered_take file_answer_def)
  next
    case (OpWrite bs)
    have b: "p + length bs \<le> ISIZE_MAX" using fit by (simp add: OpWrite)
    then have e: "(p + length bs) mod 18446744073709551616 = p + length bs" by (simp add: ISIZE_MAX_def)
    have "length (spec_store p bs d) \<le> ISIZE_MAX" using spec_store_length [of p bs d] p(2) b by simp
    then have "holds s0 fd f (spec_store p bs d, p + length bs) True
        (set_file fd (f\<lparr>of_data := Some (spec_store p bs d), of_position := of_nat (p + length bs), of_dirty := True\<rparr>) s0)"
      by (rule holds_intro [OF _ b]) simp
    then show ?thesis using store_gap [OF b, of d]
      by (auto simp: OpWrite vfs_write_def refused buffer_def p(1) Let_def e set file_answer_def bind_eq_Some_conv)
  next
    case (OpPwrite bs off)
    have b: "unat off + length bs \<le> ISIZE_MAX" using fit by (simp add: OpPwrite)
    then have e: "\<not> 18446744073709551616 \<le> unat off + length bs" by (simp add: ISIZE_MAX_def)
    have "length (spec_store (unat off) bs d) \<le> ISIZE_MAX"
      using spec_store_length [of "unat off" bs d] p(2) b by simp
    then have "holds s0 fd f (spec_store (unat off) bs d, p) True
        (set_file fd (f\<lparr>of_data := Some (spec_store (unat off) bs d), of_position := of_nat p, of_dirty := True\<rparr>) s0)"
      by (rule holds_intro [OF _ p(3)]) simp
    then show ?thesis using store_gap [OF b, of d]
      by (auto simp: OpPwrite vfs_pwrite_def refused buffer_def Let_def e set file_answer_def bind_eq_Some_conv
          file_order)
  next
    case (OpTruncate len)
    have b: "unat len \<le> ISIZE_MAX" using fit by (simp add: OpTruncate)
    have "length (take (unat len) d @ replicate (unat len - length d) 0) \<le> ISIZE_MAX" using b by simp
    then have "holds s0 fd f (take (unat len) d @ replicate (unat len - length d) 0, p) True
        (set_file fd (f\<lparr>of_data := Some (take (unat len) d @ replicate (unat len - length d) 0),
           of_position := of_nat p, of_dirty := True\<rparr>) s0)" by (rule holds_intro [OF _ p(3)]) simp
    then show ?thesis using b
      by (simp add: OpTruncate vfs_ftruncate_def refused buffer_def vec_grow_def vec_resize_def set file_answer_def
          file_order)
  next
    case (OpSeek off whence)
    let ?f = "f\<lparr>of_data := Some d, of_position := of_nat p, of_dirty := dirty\<rparr>"
    have base: "seek_base ?f whence = (if whence \<notin> {0, 1, 2} then None
        else Some (if whence = 0 then 0 else if whence = 1 then int p else int (length d)))"
      using g p isize_sint [OF p(3)] isize_sint [OF p(2)] by (auto simp: seek_base_def backing_len_def)
    show ?thesis
    proof (cases "whence \<notin> {0, 1, 2}")
      case True
      then show ?thesis using h base by (simp add: OpSeek vfs_seek_def fl file_answer_def)
    next
      case False
      define t where "t = (if whence = 0 then 0 else if whence = 1 then int p else int (length d)) + off"
      show ?thesis
      proof (cases "t < 0 \<or> int ISIZE_MAX < t")
        case True
        then show ?thesis using h base False
          by (simp add: OpSeek vfs_seek_def fl file_answer_def Let_def t_def [symmetric] ISIZE_MAX_def)
      next
        case t: False
        then have n: "word_of_int t = (of_nat (nat t) :: u64)" "nat t \<le> ISIZE_MAX"
          by (simp_all add: nat_le_iff)
        have "holds s0 fd f (d, nat t) w (set_file fd (?f\<lparr>of_position := of_nat (nat t)\<rparr>) s0)"
          using holds_intro [OF p(2) n(2) w, of s0 fd f] by (simp add: file_order)
        moreover have "unat (of_nat (nat t) :: u64) = nat t" by (rule isize_word [OF n(2)])
        moreover have "vfs_seek fd off whence s = (Inr (word_of_int t), set_file fd (?f\<lparr>of_position := word_of_int t\<rparr>) s0)"
          using base False t
          by (simp add: vfs_seek_def fl Let_def t_def [symmetric] set ISIZE_MAX_def)
        note this [unfolded n(1)]
        moreover have "spec_op (OpSeek off whence) (d, p) = (RPos (nat t), (d, nat t))"
          using False t by (simp add: Let_def t_def [symmetric])
        ultimately show ?thesis unfolding OpSeek
          by (simp add: file_answer_def del: spec_op.simps of_nat_nat)
      qed
    qed
  next
    case OpSize
    then show ?thesis using g h isize_word [OF p(2)] by (simp add: file_size_def fl backing_len_def)
  qed
qed

lemma calls_refine:
  "plain_file f \<Longrightarrow> holds s0 fd f a w s \<Longrightarrow> run_fits ops a \<Longrightarrow>
   \<exists>s'. file_calls H fd ops s = Some (fst (spec_run ops a), s') \<and> holds s0 fd f (snd (spec_run ops a)) (w \<or> (\<exists>op\<in>set ops. mutates op)) s'"
proof (induction ops arbitrary: a w s)
  case (Cons op ops)
  obtain d p where a: "a = (d, p)" by (cases a)
  obtain s1 where s1: "file_call H fd op s = Some (fst (spec_op op a), s1)" "holds s0 fd f (snd (spec_op op a)) (w \<or> mutates op) s1"
    using call_refines [of f s0 fd d p w s op H] Cons.prems a by auto
  obtain s2 where "file_calls H fd ops s1 = Some (fst (spec_run ops (snd (spec_op op a))), s2)"
    "holds s0 fd f (snd (spec_run ops (snd (spec_op op a)))) ((w \<or> mutates op) \<or> (\<exists>op\<in>set ops. mutates op)) s2"
    using Cons.IH [OF Cons.prems(1) s1(2)] Cons.prems(3) by auto
  then show ?case using s1(1) by (auto simp: split_beta)
qed simp

lemma holds_start:
  assumes "vf_open_files s fd = Some f" "of_data f = Some (buffer f)"
    and "length (buffer f) \<le> ISIZE_MAX" "unat (of_position f) \<le> ISIZE_MAX"
  shows "holds s fd f (buffer f, unat (of_position f)) False s"
proof -
  have "f\<lparr>of_data := Some (buffer f), of_position := of_nat (unat (of_position f)), of_dirty := of_dirty f\<rparr> = f"
    using assms(2) by (cases f) simp
  moreover have "set_file fd f s = s" using assms(1) by (simp add: set_file_def fun_upd_idem)
  ultimately show ?thesis using assms(3,4) unfolding holds_def by (metis fst_conv snd_conv)
qed

section \<open>Properties\<close>

text \<open>C34: A writable descriptor is a POSIX file: any sequence of reads, positional
  reads, writes, positional writes, truncations, seeks and size queries that stays
  below the size limit returns exactly what the abstract byte sequence with a
  position returns, ends with that sequence in its buffer, and leaves every other
  descriptor alone.\<close>

theorem descriptor_refines_file:
  assumes "vfs_reachable H s" and "vf_open_files s fd = Some f" and "of_writable f"
    and "length (buffer f) \<le> ISIZE_MAX" and "unat (of_position f) \<le> ISIZE_MAX"
    and "run_fits ops (buffer f, unat (of_position f))"
    and "spec_run ops (buffer f, unat (of_position f)) = (rs, d, p)"
  shows "\<exists>s' f'. file_calls H fd ops s = Some (rs, s') \<and> vf_open_files s' fd = Some f' \<and>
    buffer f' = d \<and> unat (of_position f') = p \<and>
    (\<forall>i. i \<noteq> fd \<longrightarrow> vf_open_files s' i = vf_open_files s i)"
proof -
  obtain k where k: "kind_ok f k" using table_okD [OF reachable_table_ok [OF assms(1)] assms(2)] by blast
  have plain: "plain_file f" by (rule writable_plain [OF k assms(3)])
  have data: "of_data f = Some (buffer f)" using writable_buffered [OF k assms(3)] by simp
  obtain s' w where s': "file_calls H fd ops s = Some (rs, s')" "holds s fd f (d, p) w s'"
    using calls_refine [OF plain holds_start [OF assms(2) data assms(4,5)] assms(6)] assms(7) by fastforce
  then show ?thesis using isize_word [of p] unfolding holds_def by (auto simp: buffer_def)
qed

text \<open>A host with one file in a directory, for demonstrations: the state is the
  contents of the file, if it exists.\<close>

definition one_file_host :: "byte list option host_ops" where
  "one_file_host =
     \<lparr>ho_metadata = (\<lambda>p h. if p = demo_root then Inr HostDirectory
        else (case h of None \<Rightarrow> Inl NotFound | Some d \<Rightarrow> Inr (HostFile (of_nat (length d))))),
      ho_symlink_metadata = (\<lambda>p h. if p = demo_root \<or> h \<noteq> None then LinkOther else LinkError NotFound),
      ho_canonicalize = (\<lambda>p h. if p = demo_root \<or> h \<noteq> None then CanonOk p else CanonError NotFound),
      ho_read_dir = (\<lambda>p h. Inl NotFound), ho_open = (\<lambda>p h. Inr 0),
      ho_read = (\<lambda>p h. case h of None \<Rightarrow> Inl NotFound | Some d \<Rightarrow> Inr d),
      ho_read_at = (\<lambda>f off n h. case h of None \<Rightarrow> Inl NotFound | Some d \<Rightarrow> Inr (take n (drop (unat off) d))),
      ho_write = (\<lambda>p d h. (Inr (), Some d)), ho_persist = (\<lambda>p h. (Inr (), h)),
      ho_set_len = (\<lambda>p n h. (Inr (), h)), ho_create_dir_all = (\<lambda>p h. (Inr (), h)),
      ho_remove_dir_all = (\<lambda>p h. (Inr (), h)), ho_remove_file = (\<lambda>p h. (Inr (), None)),
      ho_remove_dir = (\<lambda>p h. (Inr (), h)), ho_rename = (\<lambda>p q h. (Inr (), h)),
      ho_entropy = (\<lambda>n h. (Inr (replicate n 0), h))\<rparr>"

definition demo_vfs_start :: "byte list option vfs" where
  "demo_vfs_start = (vfs_new one_file_host None [])
     \<lparr>vm_mounts := [mount_point_new one_file_host None (ascii ''/app0'') demo_root]\<rparr>"

definition demo_created :: "byte list option vfs" where
  "demo_created = snd (vfs_open one_file_host (ascii ''/app0/log.txt'') 0x0602 demo_vfs_start)"

lemma demo_vfs_start_reachable: "vfs_reachable one_file_host demo_vfs_start"
proof -
  let ?s = "vfs_new one_file_host None []"
  have "demo_vfs_start = ?s\<lparr>vm_mounts := [mount_point_new one_file_host None (ascii ''/app0'') demo_root],
      vm_savedata_root := vm_savedata_root ?s, vm_savedata_slots := vm_savedata_slots ?s\<rparr>"
    by (simp add: demo_vfs_start_def)
  then show ?thesis using reach_vfs_step [OF reach_vfs_new step_mounts] by metis
qed

lemma demo_created_reachable: "vfs_reachable one_file_host demo_created"
  unfolding demo_created_def
  by (rule reach_vfs_step [OF demo_vfs_start_reachable step_open]) (simp add: demo_vfs_start_def)

lemma demo_created_file:
  "\<exists>f. vf_open_files demo_created 3 = Some f \<and> of_writable f \<and> buffer f = [] \<and> of_position f = 0 \<and>
    of_dirty f \<and> of_host_path f = demo_root @ [ascii ''log.txt'']"
proof -
  have r: "resolve_path one_file_host None (vm_mounts demo_vfs_start) (ascii ''/app0/log.txt'')
      = Some (demo_root @ [ascii ''log.txt''])" by code_simp
  have p: "\<not> memory_claims (ascii ''/app0/log.txt'')" "ascii ''/app0/log.txt'' \<noteq> ascii ''/dev/random''"
    "ascii ''/app0/log.txt'' \<noteq> ascii ''/dev/urandom''" "ascii ''/app0/log.txt'' \<noteq> root_text"
    "demo_root @ [ascii ''log.txt''] \<noteq> demo_root" by code_simp+
  have k: "host_path_kind one_file_host (demo_root @ [ascii ''log.txt'']) None = HostMissing"
    using p(5) by (simp add: host_path_kind_def one_file_host_def)
  have host: "vf_host demo_vfs_start = None" "vf_next_fd demo_vfs_start = 3" by (simp_all add: demo_vfs_start_def)
  show ?thesis
    by (simp add: demo_created_def vfs_open_def vfs_resolve_def host r p open_host_def k open_backing_def
        install_file_def wants_write_def Let_def buffer_def)
qed

definition demo_ops :: "file_op list" where
  "demo_ops = [OpWrite [1, 2, 3], OpSeek (- 1) 1, OpRead 9, OpPwrite [9] 5, OpSize]"

theorem descriptor_refines_file_witness:
  "\<exists>s'. file_calls one_file_host 3 demo_ops demo_created
   = Some ([RCount 3, RPos 2, RBytes [3], RCount 1, RPos 6], s')"
proof -
  obtain f where f: "vf_open_files demo_created 3 = Some f" "of_writable f" "buffer f = []" "of_position f = 0"
    using demo_created_file by blast
  have "spec_run demo_ops ([], 0)
      = ([RCount 3, RPos 2, RBytes [3], RCount 1, RPos 6], ([1, 2, 3, 0, 0, 9], 3))"
    by (simp add: demo_ops_def spec_store_def Let_def ISIZE_MAX_def) (simp add: numeral_2_eq_2)
  moreover have "run_fits demo_ops ([], 0)"
    by (simp add: demo_ops_def spec_store_def Let_def ISIZE_MAX_def)
  ultimately show ?thesis
    using descriptor_refines_file [OF demo_created_reachable f(1,2)] f by (simp add: ISIZE_MAX_def) blast
qed

section \<open>Persistence\<close>

text \<open>What the sources rely on of the host for a file: a successful write stores
  exactly the bytes, with their length, and a positional read returns a
  non-empty piece of what follows the offset unless the file ends there.\<close>

definition host_stores :: "'h host_ops \<Rightarrow> host_path \<Rightarrow> byte list \<Rightarrow> 'h \<Rightarrow> bool" where
  "host_stores H p d h \<longleftrightarrow>
     ho_metadata H p h = Inr (HostFile (of_nat (length d))) \<and>
     (\<exists>i. ho_open H p h = Inr i \<and> (\<forall>off n. 0 < n \<longrightarrow>
        (\<exists>k. (k = 0 \<longleftrightarrow> length d \<le> unat off) \<and> ho_read_at H i off n h = Inr (take (min k n) (drop (unat off) d)))))"

lemma positional_read_stored:
  assumes "\<forall>off n. 0 < n \<longrightarrow>
      (\<exists>k. (k = 0 \<longleftrightarrow> length d \<le> unat off) \<and> ho_read_at H i off n h = Inr (take (min k n) (drop (unat off) d)))"
    and "length d \<le> ISIZE_MAX"
  shows "positional_read H i off want h = Inr (take want (drop (unat off) d))"
proof (induction want arbitrary: off rule: less_induct)
  case (less want)
  show ?case
  proof (cases "want = 0")
    case True
    then show ?thesis by (simp add: positional_read.simps [of H i off 0])
  next
    case False
    then have "0 < want" by simp
    then obtain k where k: "k = 0 \<longleftrightarrow> length d \<le> unat off"
      "ho_read_at H i off want h = Inr (take (min k want) (drop (unat off) d))"
      using assms(1) [rule_format, OF \<open>0 < want\<close>, of off] by (elim exE conjE)
    let ?c = "take (min k want) (drop (unat off) d)"
    show ?thesis
    proof (cases "?c = []")
      case True
      then have "length d \<le> unat off" using k(1) False by auto
      then show ?thesis using k(2) by (simp add: positional_read.simps [of H i off want])
    next
      case c: False
      let ?n = "length ?c"
      have n: "0 < ?n" "?n \<le> want" using c by auto
      have u: "unat (off + of_nat ?n) = unat off + ?n"
      proof -
        have "?n \<le> length (drop (unat off) d)" by simp
        moreover have "unat off < length d" using c by auto
        ultimately have "unat off + ?n \<le> length d" by (simp only: length_drop)
        then have "unat off + unat (of_nat ?n :: u64) < 18446744073709551616"
          using assms(2) isize_word [of ?n] by (simp add: ISIZE_MAX_def)
        then show ?thesis using unat_add_no_wrap [of off "of_nat ?n"] isize_word [of ?n] assms(2)
            \<open>unat off + ?n \<le> length d\<close> by simp
      qed
      have "positional_read H i (off + of_nat ?n) (want - ?n) h = Inr (take (want - ?n) (drop (unat off + ?n) d))"
        using less [of "want - ?n" "off + of_nat ?n"] n u False by simp
      moreover have "take want ?c = ?c" by simp
      ultimately have "positional_read H i off want h = Inr (?c @ take (want - ?n) (drop (unat off + ?n) d))"
        using c False k(2) by (subst positional_read.simps) (simp only: if_False sum.case Let_def id_apply map_sum.simps)
      moreover have "?c @ take (want - ?n) (drop (unat off + ?n) d) = take want (drop (unat off) d)"
      proof -
        have "take m xs = take (length (take m xs)) xs" for m and xs :: "byte list" by (simp add: min_def)
        then have "?c = take ?n (drop (unat off) d)" .
        then have "?c @ take (want - ?n) (drop (unat off + ?n) d)
            = take ?n (drop (unat off) d) @ take (want - ?n) (drop ?n (drop (unat off) d))"
          by (simp add: add.commute)
        also have "\<dots> = take (?n + (want - ?n)) (drop (unat off) d)" by (rule take_add [symmetric])
        finally show ?thesis using n(2) by simp
      qed
      ultimately show ?thesis by simp
    qed
  qed
qed

text \<open>C35: What a guest has written to a descriptor survives closing it: after any
  sequence of calls on a writable descriptor that stays below the size limit and has
  at least one write, positional write or truncation in it, the close succeeds and
  a read-only open of a path that resolves to the same host file returns, read from
  the start, exactly the bytes the abstract file ends with (a host write of those
  bytes succeeding, and storing what it is given).\<close>

theorem written_file_persists:
  assumes "vfs_reachable H s" and "vf_open_files s fd = Some f" and "of_writable f"
    and "length (buffer f) \<le> ISIZE_MAX" and "unat (of_position f) \<le> ISIZE_MAX"
    and "run_fits ops (buffer f, unat (of_position f))"
    and "spec_run ops (buffer f, unat (of_position f)) = (rs, d, p)" and "\<exists>op\<in>set ops. mutates op"
    and "\<And>h. fst (ho_write H (of_host_path f) d h) = Inr () \<Longrightarrow>
      host_stores H (of_host_path f) d (snd (ho_write H (of_host_path f) d h))"
    and "ho_write H (of_host_path f) d (vf_host s) = (Inr (), h)"
    and "vfs_resolve H path (s\<lparr>vf_host := h\<rparr>) = Some (of_host_path f)"
    and "\<not> memory_claims path" and "path \<noteq> ascii ''/dev/random''" and "path \<noteq> ascii ''/dev/urandom''"
    and "path \<noteq> root_text" and "length d \<le> n"
  shows "\<exists>s1 s2 fd2 s3. file_calls H fd ops s = Some (rs, s1) \<and> vfs_close H fd s1 = (Inr (), s2) \<and>
    vfs_open H path 0 s2 = (Inr fd2, s3) \<and> fst (vfs_read H fd2 n s3) = Inr d"
proof -
  let ?p = "of_host_path f"
  obtain k where k: "kind_ok f k" using table_okD [OF reachable_table_ok [OF assms(1)] assms(2)] by blast
  have plain: "plain_file f" by (rule writable_plain [OF k assms(3)])
  have data: "of_data f = Some (buffer f)" using writable_buffered [OF k assms(3)] by simp
  obtain s1 where s1: "file_calls H fd ops s = Some (rs, s1)" "holds s fd f (d, p) True s1"
    using calls_refine [OF plain holds_start [OF assms(2) data assms(4,5)] assms(6), of H] assms(7,8) by auto
  then have ld: "length d \<le> ISIZE_MAX" and
    e1: "s1 = set_file fd (f\<lparr>of_data := Some d, of_position := of_nat p, of_dirty := True\<rparr>) s"
    unfolding holds_def by auto
  define s2 where "s2 = s1\<lparr>vf_open_files := (vf_open_files s1)(fd := None), vf_host := h\<rparr>"
  have close: "vfs_close H fd s1 = (Inr (), s2)"
    using plain assms(3,10) by (simp add: vfs_close_def e1 plain_file_def Let_def s2_def set_file_def)
  have host: "vf_host s2 = h" by (simp add: s2_def)
  have "host_stores H ?p d h" using assms(9) [of "vf_host s"] assms(10) by simp
  then obtain i where st: "ho_metadata H ?p h = Inr (HostFile (of_nat (length d)))" "ho_open H ?p h = Inr i"
    and rd: "\<forall>off n. 0 < n \<longrightarrow> (\<exists>k. (k = 0 \<longleftrightarrow> length d \<le> unat off) \<and>
        ho_read_at H i off n h = Inr (take (min k n) (drop (unat off) d)))"
    by (auto simp: host_stores_def)
  have res: "vfs_resolve H path s2 = Some ?p"
    using assms(11) by (simp add: vfs_resolve_def s2_def e1 set_file_def)
  obtain s3 where s3: "vfs_open H path 0 s2 = (Inr (vf_next_fd s2), s3)" "vf_host s3 = h"
    "\<exists>g. vf_open_files s3 (vf_next_fd s2) = Some g \<and> of_dirents g = None \<and>
      \<not> of_random_device g \<and> of_memory_region g = None \<and> of_data g = None \<and>
      of_reader g = Some (i, of_nat (length d)) \<and> of_position g = 0"
    using res assms(12-15) st host
    by (simp add: vfs_open_def open_host_def wants_write_def host_path_kind_def open_backing_def Let_def
        install_file_def fresh_file_def)
  have "positional_read H i 0 (length d) h = Inr d"
    using positional_read_stored [OF rd ld, of 0 "length d"] by simp
  then have "fst (vfs_read H (vf_next_fd s2) n s3) = Inr d"
    using s3 isize_word [OF ld] assms(16) by (auto simp: vfs_read_def saturating_sub_def min_absorb1)
  then show ?thesis using s1(1) close s3(1) by blast
qed

text \<open>A file written by an asynchronous demonstration.\<close>

definition demo_written :: "byte list option vfs" where
  "demo_written = snd (the (vfs_write 3 [1, 2, 3] demo_created))"

lemma demo_written_facts:
  "vfs_reachable one_file_host demo_written"
  "\<exists>f. vf_open_files demo_written 3 = Some f \<and> of_writable f \<and> buffer f = [1, 2, 3] \<and> of_dirty f \<and>
     of_host_path f = demo_root @ [ascii ''log.txt''] \<and> of_memory_region f = None \<and> of_data f = Some [1, 2, 3]"
  "vm_mounts demo_written = vm_mounts demo_vfs_start"
proof -
  obtain f where f: "vf_open_files demo_created 3 = Some f" "of_writable f" "buffer f = []" "of_position f = 0"
    "of_host_path f = demo_root @ [ascii ''log.txt'']" using demo_created_file by blast
  obtain k where k: "kind_ok f k"
    using table_okD [OF reachable_table_ok [OF demo_created_reachable] f(1)] by blast
  then have m: "of_memory_region f = None" using f(2) by (auto simp: kind_ok_def has_kind_def)
  have w: "vfs_write 3 [1, 2, 3] demo_created = Some (Inr 3,
      set_file 3 (f\<lparr>of_data := Some [1, 2, 3], of_position := 3, of_dirty := True\<rparr>) demo_created)"
    using f m by (simp add: vfs_write_def write_refused_def fill_gap_def store_range_def vec_grow_def
        vec_resize_def put_at_def ISIZE_MAX_def Let_def)
  show "vfs_reachable one_file_host demo_written"
    using reach_vfs_step [OF demo_created_reachable step_write [OF w]] w by (simp add: demo_written_def)
  show "\<exists>f. vf_open_files demo_written 3 = Some f \<and> of_writable f \<and> buffer f = [1, 2, 3] \<and> of_dirty f \<and>
     of_host_path f = demo_root @ [ascii ''log.txt''] \<and> of_memory_region f = None \<and> of_data f = Some [1, 2, 3]"
    using w f m by (simp add: demo_written_def buffer_def)
  have "vm_mounts demo_created = vm_mounts demo_vfs_start"
    by (auto simp: demo_created_def vfs_open_def open_host_def install_file_def Let_def
        split: option.splits sum.splits)
  then show "vm_mounts demo_written = vm_mounts demo_vfs_start" using w by (simp add: demo_written_def)
qed

lemma one_file_stores: "p \<noteq> demo_root \<Longrightarrow> host_stores one_file_host p d (Some d)"
  by (auto simp: host_stores_def one_file_host_def min_def intro!: exI [of _ "length d - _"])

lemma ho_write_one: "ho_write one_file_host p d h = (Inr (), Some d)"
  by (simp add: one_file_host_def)

text \<open>An existing file of four bytes, opened for reading and writing.\<close>

definition demo_full :: "byte list option vfs" where
  "demo_full = demo_vfs_start\<lparr>vf_host := Some [9, 9, 9, 9]\<rparr>"

definition demo_edit :: "byte list option vfs" where
  "demo_edit = snd (vfs_open one_file_host (ascii ''/app0/log.txt'') O_RDWR demo_full)"

lemma demo_edit_facts:
  "vfs_reachable one_file_host demo_edit"
  "\<exists>f. vf_open_files demo_edit 3 = Some f \<and> of_writable f \<and> \<not> of_dirty f \<and> buffer f = [9, 9, 9, 9] \<and>
    of_position f = 0 \<and> of_host_path f = demo_root @ [ascii ''log.txt'']"
  "vm_mounts demo_edit = vm_mounts demo_vfs_start" "vf_host demo_edit = Some [9, 9, 9, 9]"
proof -
  show "vfs_reachable one_file_host demo_edit"
    unfolding demo_edit_def demo_full_def
    by (rule reach_vfs_step [OF reach_vfs_step [OF demo_vfs_start_reachable step_host] step_open])
      (simp add: demo_vfs_start_def)
  have r: "resolve_path one_file_host (Some [9, 9, 9, 9]) (vm_mounts demo_vfs_start) (ascii ''/app0/log.txt'')
      = Some (demo_root @ [ascii ''log.txt''])" by code_simp
  have p: "\<not> memory_claims (ascii ''/app0/log.txt'')" "ascii ''/app0/log.txt'' \<noteq> ascii ''/dev/random''"
    "ascii ''/app0/log.txt'' \<noteq> ascii ''/dev/urandom''" "ascii ''/app0/log.txt'' \<noteq> root_text"
    "demo_root @ [ascii ''log.txt''] \<noteq> demo_root" by code_simp+
  have k: "host_path_kind one_file_host (demo_root @ [ascii ''log.txt'']) (Some [9, 9, 9, 9]) = HostFile 4"
    using p(5) by (simp add: host_path_kind_def one_file_host_def)
  have d: "ho_read one_file_host q (Some x) = Inr x" for q x by (simp add: one_file_host_def)
  have host: "vf_host demo_full = Some [9, 9, 9, 9]" "vf_next_fd demo_full = 3"
    "vm_mounts demo_full = vm_mounts demo_vfs_start" by (simp_all add: demo_full_def demo_vfs_start_def)
  show "\<exists>f. vf_open_files demo_edit 3 = Some f \<and> of_writable f \<and> \<not> of_dirty f \<and> buffer f = [9, 9, 9, 9] \<and>
      of_position f = 0 \<and> of_host_path f = demo_root @ [ascii ''log.txt'']"
    "vm_mounts demo_edit = vm_mounts demo_vfs_start" "vf_host demo_edit = Some [9, 9, 9, 9]"
    by (simp_all add: demo_edit_def vfs_open_def vfs_resolve_def host r p open_host_def k open_backing_def d
        install_file_def wants_write_def Let_def buffer_def)
qed

definition demo_edits :: "file_op list" where
  "demo_edits = [OpSeek 1 0, OpWrite [1, 2], OpRead 9]"

theorem written_file_persists_witness:
  "\<exists>s1 s2 fd2 s3. file_calls one_file_host 3 demo_edits demo_edit = Some ([RPos 1, RCount 2, RBytes [9]], s1) \<and>
     vfs_close one_file_host 3 s1 = (Inr (), s2) \<and>
     vfs_open one_file_host (ascii ''/app0/log.txt'') 0 s2 = (Inr fd2, s3) \<and>
     fst (vfs_read one_file_host fd2 16 s3) = Inr [9, 1, 2, 9]"
proof -
  let ?p = "demo_root @ [ascii ''log.txt'']" and ?path = "ascii ''/app0/log.txt''"
  obtain f where f: "vf_open_files demo_edit 3 = Some f" "of_writable f" "buffer f = [9, 9, 9, 9]"
    "of_position f = 0" "of_host_path f = ?p" using demo_edit_facts(2) by blast
  have t: "\<not> memory_claims ?path" "?path \<noteq> ascii ''/dev/random''" "?path \<noteq> ascii ''/dev/urandom''"
    "?path \<noteq> root_text" "?p \<noteq> demo_root" by code_simp+
  have sp: "spec_run demo_edits (buffer f, unat (of_position f)) = ([RPos 1, RCount 2, RBytes [9]], [9, 1, 2, 9], 4)"
    and fit: "run_fits demo_edits (buffer f, unat (of_position f))"
    and mut: "\<exists>op\<in>set demo_edits. mutates op"
    by (simp_all add: f demo_edits_def spec_store_def Let_def ISIZE_MAX_def numeral_3_eq_3)
  have "resolve_path one_file_host (Some [9, 1, 2, 9]) (vm_mounts demo_vfs_start) ?path = Some ?p" by code_simp
  then have res: "vfs_resolve one_file_host ?path (demo_edit\<lparr>vf_host := Some [9, 1, 2, 9]\<rparr>) = Some (of_host_path f)"
    using f(5) demo_edit_facts(3) by (simp add: vfs_resolve_def)
  show ?thesis
    by (rule written_file_persists [OF demo_edit_facts(1) f(1,2) _ _ fit sp mut _ ho_write_one res t(1-4)])
      (use f one_file_stores [OF t(5)] in \<open>simp_all add: ISIZE_MAX_def ho_write_one\<close>)
qed

end
