(* ===== verification/Aio_Engine.thy ===== *)
theory Aio_Engine
  imports Host_Io
begin

text \<open>
  The asynchronous file I/O engine of \<open>crates/raeen-kernel/src/aio.rs\<close>: the
  submissions with their slots, the work queue, the two host workers, and the
  guest-facing operations \<open>submit\<close>, \<open>poll\<close>, \<open>wait\<close>, \<open>cancel\<close>,
  \<open>drain_completions\<close> and \<open>delete\<close>.  Every critical section of the engine lock
  is one function on the locked state; \<open>aio_step\<close> interleaves them.  The
  descriptor table the workers read and write through is a parameter.
\<close>

section \<open>State\<close>

abbreviation AIO_STATE_SUBMITTED :: u32 where "AIO_STATE_SUBMITTED \<equiv> 1"
abbreviation AIO_STATE_PROCESSING :: u32 where "AIO_STATE_PROCESSING \<equiv> 2"
abbreviation AIO_STATE_COMPLETED :: u32 where "AIO_STATE_COMPLETED \<equiv> 3"
abbreviation AIO_STATE_ABORTED :: u32 where "AIO_STATE_ABORTED \<equiv> 4"
abbreviation WORKER_COUNT :: nat where "WORKER_COUNT \<equiv> 2"
abbreviation MAX_REQUEST_BYTES :: u64 where "MAX_REQUEST_BYTES \<equiv> 0x10000000"
abbreviation RETIRED_CAP :: nat where "RETIRED_CAP \<equiv> 1024"
abbreviation I32_MAX :: int where "I32_MAX \<equiv> 2147483647"

definition sce_return :: "u32 \<Rightarrow> int" where "sce_return code = sint code"

definition RETURN_ECANCELED :: int where "RETURN_ECANCELED = sce_return 0x80020055"
definition RETURN_EBADF :: int where "RETURN_EBADF = sce_return 0x80020009"
definition RETURN_EINVAL :: int where "RETURN_EINVAL = sce_return 0x80020016"
definition RETURN_EIO :: int where "RETURN_EIO = sce_return 0x80020005"

datatype aio_op =
    AioRead (op_fd: int) (op_offset: u64) (op_nbyte: u64)
  | AioWrite (op_fd: int) (op_offset: u64) (op_data: "byte list")

record aio_request =
  rq_op :: aio_op
  rq_guest_buf :: u64
  rq_guest_result :: u64

record aio_completion =
  cp_index :: nat
  cp_return_value :: int
  cp_state :: u32
  cp_guest_buf :: u64
  cp_guest_result :: u64
  cp_data :: "byte list option"

datatype aio_wait_error = AioTimedOut u32 | AioUnknown

type_synonym aio_outcome = "int \<times> u32 \<times> byte list option"

record aio_slot =
  so_op :: "aio_op option"
  so_guest_buf :: u64
  so_guest_result :: u64
  so_outcome :: "aio_outcome option"
  so_drained :: bool

record aio_submission =
  sb_state :: u32
  sb_slots :: "aio_slot list"
  sb_pending :: nat
  sb_cancelled :: bool

type_synonym work_item = "int \<times> nat"

record aio_inner =
  ai_submissions :: "int \<rightharpoonup> aio_submission"
  ai_retired :: "int \<rightharpoonup> u32"
  ai_retired_order :: "int list"
  ai_queue :: "work_item list"
  ai_next_id :: int
  ai_workers_spawned :: bool
  ai_shutdown :: bool

definition aio_new :: aio_inner where
  "aio_new = \<lparr>ai_submissions = Map.empty, ai_retired = Map.empty, ai_retired_order = [],
     ai_queue = [], ai_next_id = 1, ai_workers_spawned = False, ai_shutdown = False\<rparr>"

section \<open>Guest-facing operations\<close>

definition new_slot :: "aio_request \<Rightarrow> aio_slot" where
  "new_slot r = \<lparr>so_op = Some (rq_op r), so_guest_buf = rq_guest_buf r,
     so_guest_result = rq_guest_result r, so_outcome = None, so_drained = False\<rparr>"

definition aio_submit :: "aio_request list \<Rightarrow> aio_inner \<Rightarrow> int \<times> aio_inner" where
  "aio_submit requests s =
     (let sid = ai_next_id s; pending = length requests in
      (sid, s\<lparr>ai_next_id := (if sid = I32_MAX then 1 else sid + 1),
         ai_submissions := (ai_submissions s)(sid \<mapsto>
           \<lparr>sb_state = (if pending = 0 then AIO_STATE_COMPLETED else AIO_STATE_SUBMITTED),
            sb_slots = map new_slot requests, sb_pending = pending, sb_cancelled = False\<rparr>),
         ai_queue := ai_queue s @ map (Pair sid) [0..<pending],
         ai_workers_spawned := ai_workers_spawned s \<or> 0 < pending\<rparr>))"

definition aio_poll :: "int \<Rightarrow> aio_inner \<Rightarrow> u32 option" where
  "aio_poll sid s = (case ai_submissions s sid of
       Some sb \<Rightarrow> Some (sb_state sb) | None \<Rightarrow> ai_retired s sid)"

definition aio_terminal :: "u32 \<Rightarrow> bool" where
  "aio_terminal st \<longleftrightarrow> st = AIO_STATE_COMPLETED \<or> st = AIO_STATE_ABORTED"

text \<open>\<open>wait\<close>: one look at the table; a turn of the park is what the other threads
  did and whether the timeout elapsed.  \<open>None\<close>: still parked after the turns.\<close>

definition aio_wait_look :: "int \<Rightarrow> aio_inner \<Rightarrow> (aio_wait_error + u32) option" where
  "aio_wait_look sid s = (case ai_submissions s sid of
       None \<Rightarrow> Some (case ai_retired s sid of Some st \<Rightarrow> Inr st | None \<Rightarrow> Inl AioUnknown)
     | Some sb \<Rightarrow> if aio_terminal (sb_state sb) then Some (Inr (sb_state sb)) else None)"

definition aio_wait_timeout :: "int \<Rightarrow> aio_inner \<Rightarrow> aio_wait_error + u32" where
  "aio_wait_timeout sid s =
     (let st = (case ai_submissions s sid of Some sb \<Rightarrow> sb_state sb | None \<Rightarrow> AIO_STATE_ABORTED)
      in if aio_terminal st then Inr st else Inl (AioTimedOut st))"

record aio_turn =
  tn_others :: "aio_inner \<Rightarrow> aio_inner"
  tn_timed_out :: bool

fun aio_wait :: "int \<Rightarrow> aio_turn list \<Rightarrow> aio_inner \<Rightarrow> ((aio_wait_error + u32) \<times> aio_inner) option" where
  "aio_wait sid ts s =
     (case aio_wait_look sid s of
        Some r \<Rightarrow> Some (r, s)
      | None \<Rightarrow> (case ts of
          [] \<Rightarrow> None
        | t # ts' \<Rightarrow>
            let s1 = tn_others t s in
            if tn_timed_out t then Some (aio_wait_timeout sid s1, s1) else aio_wait sid ts' s1))"

definition cancel_slot :: "aio_slot \<Rightarrow> aio_slot" where
  "cancel_slot sl = (case so_op sl of
       None \<Rightarrow> sl
     | Some op \<Rightarrow> sl\<lparr>so_op := None, so_outcome := Some (RETURN_ECANCELED, AIO_STATE_ABORTED, None)\<rparr>)"

definition not_started :: "aio_slot list \<Rightarrow> nat" where
  "not_started sls = length (filter (\<lambda>sl. so_op sl \<noteq> None) sls)"

definition cancel_submission :: "aio_submission \<Rightarrow> aio_submission" where
  "cancel_submission sb =
     (let aborted = not_started (sb_slots sb); pending = sb_pending sb - aborted in
      sb\<lparr>sb_slots := map cancel_slot (sb_slots sb), sb_pending := pending,
         sb_cancelled := sb_cancelled sb \<or> 0 < aborted,
         sb_state := (if pending = 0 then AIO_STATE_ABORTED else sb_state sb)\<rparr>)"

definition aio_cancel :: "int \<Rightarrow> aio_inner \<Rightarrow> u32 option \<times> aio_inner" where
  "aio_cancel sid s = (case ai_submissions s sid of
       None \<Rightarrow> (ai_retired s sid, s)
     | Some sb \<Rightarrow>
         if aio_terminal (sb_state sb) then (Some (sb_state sb), s)
         else let sb' = cancel_submission sb in
           (Some (sb_state sb'), s\<lparr>ai_submissions := (ai_submissions s)(sid \<mapsto> sb')\<rparr>))"

definition completion_of :: "nat \<Rightarrow> aio_slot \<Rightarrow> aio_completion option" where
  "completion_of i sl =
     (if so_drained sl then None
      else map_option (\<lambda>(return_value, state, data).
        \<lparr>cp_index = i, cp_return_value = return_value, cp_state = state,
         cp_guest_buf = so_guest_buf sl, cp_guest_result = so_guest_result sl, cp_data = data\<rparr>)
        (so_outcome sl))"

definition drained_slot :: "aio_slot \<Rightarrow> aio_slot" where
  "drained_slot sl =
     (if so_drained sl \<or> so_outcome sl = None then sl
      else sl\<lparr>so_outcome := None, so_drained := True\<rparr>)"

definition slot_completions :: "aio_slot list \<Rightarrow> aio_completion list" where
  "slot_completions sls = List.map_filter (\<lambda>i. completion_of i (sls ! i)) [0..<length sls]"

definition drain_completions :: "int \<Rightarrow> aio_inner \<Rightarrow> aio_completion list \<times> aio_inner" where
  "drain_completions sid s = (case ai_submissions s sid of
       None \<Rightarrow> ([], s)
     | Some sb \<Rightarrow> (slot_completions (sb_slots sb),
         s\<lparr>ai_submissions := (ai_submissions s)(sid \<mapsto>
           sb\<lparr>sb_slots := map drained_slot (sb_slots sb)\<rparr>)\<rparr>))"

text \<open>The last critical section of \<open>delete\<close>.\<close>

definition aio_remove :: "int \<Rightarrow> aio_inner \<Rightarrow> u32 option \<times> aio_inner" where
  "aio_remove sid s = (case ai_submissions s sid of
       None \<Rightarrow> (None, s)
     | Some sb \<Rightarrow>
         let final_state = (if 0 < sb_pending sb then AIO_STATE_ABORTED else sb_state sb);
             retired = (ai_retired s)(sid \<mapsto> final_state);
             order = ai_retired_order s @ [sid];
             full = RETIRED_CAP < length order in
         (Some final_state, s\<lparr>ai_submissions := (ai_submissions s)(sid := None),
            ai_retired := (if full then retired(hd order := None) else retired),
            ai_retired_order := (if full then tl order else order)\<rparr>))"

text \<open>\<open>delete\<close> takes the lock three times; \<open>others1\<close> and \<open>others2\<close> are what the
  other threads do in between.\<close>

definition aio_delete ::
  "(aio_inner \<Rightarrow> aio_inner) \<Rightarrow> (aio_inner \<Rightarrow> aio_inner) \<Rightarrow> int \<Rightarrow> aio_inner
     \<Rightarrow> (u32 \<times> aio_completion list) option \<times> aio_inner" where
  "aio_delete others1 others2 sid s =
     (case aio_cancel sid s of
        (None, s1) \<Rightarrow> (None, s1)
      | (Some _, s1) \<Rightarrow>
          let (completions, s2) = drain_completions sid (others1 s1);
              (final_state, s3) = aio_remove sid (others2 s2) in
          (map_option (\<lambda>st. (st, completions)) final_state, s3))"

section \<open>Workers\<close>

text \<open>The positional reads and writes of the descriptor table; a call that panics is
  \<open>None\<close>.\<close>

record 'fs vfs_ops =
  vf_pread :: "int \<Rightarrow> nat \<Rightarrow> u64 \<Rightarrow> 'fs \<Rightarrow> (io_error_kind + byte list) \<times> 'fs"
  vf_pwrite :: "int \<Rightarrow> byte list \<Rightarrow> u64 \<Rightarrow> 'fs \<Rightarrow> ((io_error_kind + nat) \<times> 'fs) option"

fun aio_io_error :: "io_error_kind \<Rightarrow> int" where
  "aio_io_error NotFound = RETURN_EBADF"
| "aio_io_error PermissionDenied = RETURN_EBADF"
| "aio_io_error InvalidInput = RETURN_EINVAL"
| "aio_io_error OtherKind = RETURN_EIO"

fun aio_perform :: "'fs vfs_ops \<Rightarrow> aio_op \<Rightarrow> 'fs \<Rightarrow> (aio_outcome \<times> 'fs) option" where
  "aio_perform V (AioRead fd off nbyte) fs =
     (if MAX_REQUEST_BYTES < nbyte then Some ((RETURN_EINVAL, AIO_STATE_ABORTED, None), fs)
      else (case vf_pread V fd (unat nbyte) off fs of
          (Inr data, fs') \<Rightarrow> Some ((int (length data), AIO_STATE_COMPLETED, Some data), fs')
        | (Inl e, fs') \<Rightarrow> Some ((aio_io_error e, AIO_STATE_ABORTED, None), fs')))"
| "aio_perform V (AioWrite fd off data) fs =
     (case vf_pwrite V fd data off fs of
        None \<Rightarrow> None
      | Some (Inr written, fs') \<Rightarrow> Some ((int written, AIO_STATE_COMPLETED, None), fs')
      | Some (Inl e, fs') \<Rightarrow> Some ((aio_io_error e, AIO_STATE_ABORTED, None), fs'))"

type_synonym aio_job = "int \<times> nat \<times> aio_op"

text \<open>The pop loop of \<open>worker_loop\<close>: items of deleted submissions and of cancelled
  requests are dropped.\<close>

fun take_work :: "work_item list \<Rightarrow> (int \<rightharpoonup> aio_submission)
    \<Rightarrow> aio_job option \<times> work_item list \<times> (int \<rightharpoonup> aio_submission)" where
  "take_work [] subs = (None, [], subs)"
| "take_work ((sid, ix) # q) subs =
     (case subs sid of
        None \<Rightarrow> take_work q subs
      | Some sb \<Rightarrow>
          (case so_op (sb_slots sb ! ix) of
             None \<Rightarrow> take_work q subs
           | Some op \<Rightarrow> (Some (sid, ix, op), q,
               subs(sid \<mapsto> sb\<lparr>sb_state := AIO_STATE_PROCESSING,
                 sb_slots := (sb_slots sb)[ix := (sb_slots sb ! ix)\<lparr>so_op := None\<rparr>]\<rparr>))))"

definition worker_take :: "aio_inner \<Rightarrow> aio_job option \<times> aio_inner" where
  "worker_take s =
     (if ai_shutdown s then (None, s)
      else let (job, q, subs) = take_work (ai_queue s) (ai_submissions s) in
        (job, s\<lparr>ai_queue := q, ai_submissions := subs\<rparr>))"

definition finish_submission :: "nat \<Rightarrow> aio_outcome \<Rightarrow> aio_submission \<Rightarrow> aio_submission" where
  "finish_submission ix out sb =
     (let pending = sb_pending sb - 1 in
      sb\<lparr>sb_slots := (sb_slots sb)[ix := (sb_slots sb ! ix)\<lparr>so_outcome := Some out\<rparr>],
         sb_pending := pending,
         sb_state := (if pending = 0
           then (if sb_cancelled sb then AIO_STATE_ABORTED else AIO_STATE_COMPLETED)
           else sb_state sb)\<rparr>)"

definition worker_finish :: "int \<Rightarrow> nat \<Rightarrow> aio_outcome \<Rightarrow> aio_inner \<Rightarrow> aio_inner" where
  "worker_finish sid ix out s = (case ai_submissions s sid of
       None \<Rightarrow> s
     | Some sb \<Rightarrow> s\<lparr>ai_submissions := (ai_submissions s)(sid \<mapsto> finish_submission ix out sb)\<rparr>)"

text \<open>One whole turn of a worker that nobody interrupts.\<close>

definition worker_cycle :: "'fs vfs_ops \<Rightarrow> aio_inner \<times> 'fs \<Rightarrow> (aio_inner \<times> 'fs) option" where
  "worker_cycle V c =
     (case worker_take (fst c) of
        (None, s) \<Rightarrow> Some (s, snd c)
      | (Some (sid, ix, op), s) \<Rightarrow>
          map_option (\<lambda>(out, fs). (worker_finish sid ix out s, fs)) (aio_perform V op (snd c)))"

fun worker_cycles :: "'fs vfs_ops \<Rightarrow> nat \<Rightarrow> aio_inner \<times> 'fs \<Rightarrow> (aio_inner \<times> 'fs) option" where
  "worker_cycles V 0 c = Some c"
| "worker_cycles V (Suc n) c = Option.bind (worker_cycle V c) (worker_cycles V n)"

section \<open>The engine as a transition system\<close>

text \<open>The two workers hold the jobs they run; the histories record what was
  submitted under each identifier and every completion handed out so far.  A worker
  whose file operation panics keeps its job for ever.\<close>

record 'fs aio_sys =
  sy_inner :: aio_inner
  sy_running :: "aio_job list"
  sy_fs :: 'fs
  sy_ops :: "work_item \<rightharpoonup> aio_op"
  sy_delivered :: "(int \<times> aio_completion) list"

definition aio_start :: "'fs \<Rightarrow> 'fs aio_sys" where
  "aio_start fs = \<lparr>sy_inner = aio_new, sy_running = [], sy_fs = fs, sy_ops = Map.empty,
     sy_delivered = []\<rparr>"

text \<open>Identifiers are handed out in increasing order until they would wrap; the
  model stops there.\<close>

definition note_ops :: "int \<Rightarrow> aio_request list \<Rightarrow> (work_item \<rightharpoonup> aio_op) \<Rightarrow> (work_item \<rightharpoonup> aio_op)" where
  "note_ops sid rqs ops = (\<lambda>k. if fst k = sid \<and> snd k < length rqs
     then Some (rq_op (rqs ! snd k)) else ops k)"

inductive aio_step :: "'fs vfs_ops \<Rightarrow> 'fs aio_sys \<Rightarrow> 'fs aio_sys \<Rightarrow> bool" for V where
  step_submit: "aio_step V S (S\<lparr>sy_inner := s', sy_ops := note_ops sid rqs (sy_ops S)\<rparr>)"
    if "ai_next_id (sy_inner S) < I32_MAX" "aio_submit rqs (sy_inner S) = (sid, s')"
| step_take: "aio_step V S (S\<lparr>sy_inner := s', sy_running := job # sy_running S\<rparr>)"
    if "length (sy_running S) < WORKER_COUNT" "worker_take (sy_inner S) = (Some job, s')"
| step_drop: "aio_step V S (S\<lparr>sy_inner := s'\<rparr>)"
    if "worker_take (sy_inner S) = (None, s')"
| step_finish: "aio_step V S (S\<lparr>sy_inner := worker_finish sid ix out (sy_inner S),
      sy_running := remove1 (sid, ix, op) (sy_running S), sy_fs := fs'\<rparr>)"
    if "(sid, ix, op) \<in> set (sy_running S)" "aio_perform V op (sy_fs S) = Some (out, fs')"
| step_cancel: "aio_step V S (S\<lparr>sy_inner := s'\<rparr>)"
    if "aio_cancel sid (sy_inner S) = (r, s')"
| step_drain: "aio_step V S (S\<lparr>sy_inner := s', sy_delivered := sy_delivered S @ map (Pair sid) cs\<rparr>)"
    if "drain_completions sid (sy_inner S) = (cs, s')"
| step_remove: "aio_step V S (S\<lparr>sy_inner := s'\<rparr>)"
    if "aio_remove sid (sy_inner S) = (r, s')"
| step_other_io: "aio_step V S (S\<lparr>sy_fs := fs'\<rparr>)"

inductive aio_reachable :: "'fs vfs_ops \<Rightarrow> 'fs aio_sys \<Rightarrow> bool" for V where
  reach_start: "aio_reachable V (aio_start fs)"
| reach_step: "aio_reachable V S \<Longrightarrow> aio_step V S S' \<Longrightarrow> aio_reachable V S'"

section \<open>The invariant\<close>

text \<open>A slot is waiting (it still owns its operation), running, finished or
  drained; a slot without outcome is unfinished.\<close>

definition unfinished :: "aio_slot \<Rightarrow> bool" where
  "unfinished sl \<longleftrightarrow> so_outcome sl = None \<and> \<not> so_drained sl"

definition aio_cancelled :: aio_outcome where
  "aio_cancelled = (RETURN_ECANCELED, AIO_STATE_ABORTED, None)"

definition outcome_ok :: "'fs vfs_ops \<Rightarrow> aio_op option \<Rightarrow> aio_outcome \<Rightarrow> bool" where
  "outcome_ok V opk out \<longleftrightarrow>
     (\<exists>op. opk = Some op \<and> (out = aio_cancelled \<or> (\<exists>fs fs'. aio_perform V op fs = Some (out, fs'))))"

definition slot_ok :: "'fs vfs_ops \<Rightarrow> bool \<Rightarrow> bool \<Rightarrow> aio_op option \<Rightarrow> bool \<Rightarrow> aio_slot \<Rightarrow> bool" where
  "slot_ok V queued running opk delivered sl \<longleftrightarrow>
     (so_op sl \<noteq> None \<longrightarrow> unfinished sl \<and> queued \<and> \<not> running \<and> so_op sl = opk) \<and>
     (so_op sl = None \<longrightarrow> (unfinished sl \<longleftrightarrow> running)) \<and>
     (\<forall>out. so_outcome sl = Some out \<longrightarrow> \<not> so_drained sl \<and> outcome_ok V opk out) \<and>
     (so_drained sl \<longleftrightarrow> delivered) \<and> opk \<noteq> None"

definition sub_ok :: "'fs vfs_ops \<Rightarrow> (nat \<Rightarrow> bool) \<Rightarrow> (nat \<Rightarrow> bool) \<Rightarrow> (nat \<Rightarrow> aio_op option)
    \<Rightarrow> (nat \<Rightarrow> bool) \<Rightarrow> aio_submission \<Rightarrow> bool" where
  "sub_ok V queued running opk delivered sb \<longleftrightarrow>
     sb_pending sb = length (filter unfinished (sb_slots sb)) \<and>
     (aio_terminal (sb_state sb) \<longleftrightarrow> sb_pending sb = 0) \<and>
     (\<forall>ix < length (sb_slots sb).
        slot_ok V (queued ix) (running ix) (opk ix) (delivered ix) (sb_slots sb ! ix)) \<and>
     (\<forall>ix. queued ix \<or> running ix \<longrightarrow> ix < length (sb_slots sb))"

lemma sub_ok_slot:
  "sub_ok V q r o' d sb \<Longrightarrow> ix < length (sb_slots sb) \<Longrightarrow>
     slot_ok V (q ix) (r ix) (o' ix) (d ix) (sb_slots sb ! ix)"
  by (simp add: sub_ok_def)

lemma terminal_states [simp]:
  "aio_terminal AIO_STATE_COMPLETED" "aio_terminal AIO_STATE_ABORTED"
  "\<not> aio_terminal AIO_STATE_PROCESSING" "\<not> aio_terminal AIO_STATE_SUBMITTED"
  by (simp_all add: aio_terminal_def)

lemma filter_update:
  assumes "i < length xs" "P (xs ! i)"
  shows "length (filter P (xs[i := y])) = length (filter P xs) - (if P y then 0 else 1) \<and>
    0 < length (filter P xs)"
proof -
  have xs: "xs = take i xs @ xs ! i # drop (Suc i) xs" by (rule id_take_nth_drop [OF assms(1)])
  have "length (filter P xs) = length (filter P (take i xs)) + (1 + length (filter P (drop (Suc i) xs)))"
    by (subst xs) (simp add: assms(2) del: append_take_drop_id)
  moreover have "length (filter P (xs[i := y])) = length (filter P (take i xs))
      + ((if P y then 1 else 0) + length (filter P (drop (Suc i) xs)))"
    using assms(1) by (simp add: upd_conv_take_nth_drop)
  ultimately show "length (filter P (xs[i := y])) = length (filter P xs) - (if P y then 0 else 1) \<and>
    0 < length (filter P xs)" by auto
qed

section \<open>What the critical sections do to one submission\<close>

lemma sub_ok_new:
  assumes "\<And>ix. queued ix \<longleftrightarrow> ix < length rqs" "\<And>ix. \<not> running ix" "\<And>ix. \<not> delivered ix"
    and "\<And>ix. ix < length rqs \<Longrightarrow> opk ix = Some (rq_op (rqs ! ix))"
  shows "sub_ok V queued running opk delivered
    \<lparr>sb_state = (if length rqs = 0 then AIO_STATE_COMPLETED else AIO_STATE_SUBMITTED),
     sb_slots = map new_slot rqs, sb_pending = length rqs, sb_cancelled = False\<rparr>"
proof -
  have "filter unfinished (map new_slot rqs) = map new_slot rqs"
    by (auto simp: filter_id_conv unfinished_def new_slot_def)
  then show ?thesis using assms
    by (auto simp: sub_ok_def slot_ok_def new_slot_def unfinished_def)
qed

lemma sub_ok_take:
  assumes ok: "sub_ok V queued running opk delivered sb" and op: "so_op (sb_slots sb ! ix) = Some op"
    and ix: "ix < length (sb_slots sb)"
    and q: "\<And>j. queued' j \<Longrightarrow> queued j"
      "\<And>j. j \<noteq> ix \<Longrightarrow> queued j \<Longrightarrow> so_op (sb_slots sb ! j) \<noteq> None \<Longrightarrow> queued' j"
  shows "sub_ok V queued' (running(ix := True)) opk delivered
    (sb\<lparr>sb_state := AIO_STATE_PROCESSING,
        sb_slots := (sb_slots sb)[ix := (sb_slots sb ! ix)\<lparr>so_op := None\<rparr>]\<rparr>)"
proof -
  let ?sl = "sb_slots sb ! ix"
  note so = sub_ok_slot [OF ok ix]
  then have u: "unfinished ?sl" using op by (simp add: slot_ok_def)
  have count: "length (filter unfinished ((sb_slots sb)[ix := ?sl\<lparr>so_op := None\<rparr>]))
      = length (filter unfinished (sb_slots sb))" "0 < length (filter unfinished (sb_slots sb))"
    using filter_update [of ix "sb_slots sb" unfinished "?sl\<lparr>so_op := None\<rparr>"] ix u
    by (auto simp: unfinished_def)
  have slots: "slot_ok V (queued' j) ((running(ix := True)) j) (opk j) (delivered j)
      ((sb_slots sb)[ix := ?sl\<lparr>so_op := None\<rparr>] ! j)" if "j < length (sb_slots sb)" for j
    using sub_ok_slot [OF ok that] so u that ix q [of j]
    by (cases "j = ix") (auto simp: slot_ok_def unfinished_def)
  have "j < length (sb_slots sb)" if "queued' j \<or> (running(ix := True)) j" for j
    using that ok q(1) ix by (auto simp: sub_ok_def split: if_splits)
  then show ?thesis using ok count slots by (simp add: sub_ok_def)
qed

lemma sub_ok_finish:
  assumes ok: "sub_ok V queued running opk delivered sb" and r: "running ix"
    and out: "outcome_ok V (opk ix) out"
  shows "sub_ok V queued (running(ix := False)) opk delivered (finish_submission ix out sb)"
proof -
  have ix: "ix < length (sb_slots sb)" using ok r by (simp add: sub_ok_def)
  let ?sl = "sb_slots sb ! ix" and ?new = "(sb_slots sb ! ix)\<lparr>so_outcome := Some out\<rparr>"
  note so = sub_ok_slot [OF ok ix]
  have u: "unfinished ?sl" "so_op ?sl = None" using so r by (auto simp: slot_ok_def)
  have count: "length (filter unfinished ((sb_slots sb)[ix := ?new])) = sb_pending sb - 1"
    "0 < sb_pending sb"
    using filter_update [of ix "sb_slots sb" unfinished ?new] ix u ok
    by (auto simp: unfinished_def sub_ok_def)
  have slots: "slot_ok V (queued j) ((running(ix := False)) j) (opk j) (delivered j)
      ((sb_slots sb)[ix := ?new] ! j)" if "j < length (sb_slots sb)" for j
    using sub_ok_slot [OF ok that] so u that ix out
    by (cases "j = ix") (auto simp: slot_ok_def unfinished_def)
  have range: "j < length (sb_slots sb)" if "queued j \<or> (running(ix := False)) j" for j
    using that ok by (auto simp: sub_ok_def split: if_splits)
  have "aio_terminal (sb_state sb) \<longleftrightarrow> False" using ok count(2) by (simp add: sub_ok_def)
  then show ?thesis using ok count slots range by (simp add: sub_ok_def finish_submission_def Let_def)
qed

lemma cancel_counts:
  assumes "\<forall>sl\<in>set sls. so_op sl \<noteq> None \<longrightarrow> unfinished sl"
  shows "length (filter unfinished (map cancel_slot sls)) + not_started sls
    = length (filter unfinished sls)"
  using assms
  by (induction sls) (auto simp: not_started_def cancel_slot_def unfinished_def split: option.splits)

lemma sub_ok_cancel:
  assumes ok: "sub_ok V queued running opk delivered sb" and t: "\<not> aio_terminal (sb_state sb)"
  shows "sub_ok V queued running opk delivered (cancel_submission sb)"
proof -
  let ?sls = "sb_slots sb"
  have slot: "slot_ok V (queued j) (running j) (opk j) (delivered j) (?sls ! j)"
    if "j < length ?sls" for j by (rule sub_ok_slot [OF ok that])
  have "\<forall>sl\<in>set ?sls. so_op sl \<noteq> None \<longrightarrow> unfinished sl"
    using slot by (auto simp: in_set_conv_nth slot_ok_def)
  then have count: "length (filter unfinished (map cancel_slot ?sls)) = sb_pending sb - not_started ?sls"
    using cancel_counts [of ?sls] ok by (simp add: sub_ok_def)
  have "slot_ok V (queued j) (running j) (opk j) (delivered j) (map cancel_slot ?sls ! j)"
    if j: "j < length ?sls" for j
    using slot [OF j] j
    by (auto simp: slot_ok_def cancel_slot_def unfinished_def outcome_ok_def aio_cancelled_def
        split: option.splits)
  then show ?thesis using ok count t by (simp add: sub_ok_def cancel_submission_def Let_def)
qed

lemma drained_unfinished [simp]: "unfinished (drained_slot sl) = unfinished sl"
  by (auto simp: unfinished_def drained_slot_def)

lemma sub_ok_drain:
  assumes ok: "sub_ok V queued running opk delivered sb"
  shows "sub_ok V queued running opk
    (\<lambda>j. delivered j \<or> j < length (sb_slots sb) \<and> completion_of j (sb_slots sb ! j) \<noteq> None)
    (sb\<lparr>sb_slots := map drained_slot (sb_slots sb)\<rparr>)"
proof -
  let ?sls = "sb_slots sb"
  have "slot_ok V (queued j) (running j) (opk j) (delivered j \<or> completion_of j (?sls ! j) \<noteq> None)
      (drained_slot (?sls ! j))" if "j < length ?sls" for j
    using sub_ok_slot [OF ok that]
    by (auto simp: slot_ok_def drained_slot_def completion_of_def unfinished_def)
  moreover have "length (filter unfinished (map drained_slot ?sls)) = length (filter unfinished ?sls)"
    by (simp add: filter_map comp_def)
  ultimately show ?thesis using ok by (simp add: sub_ok_def)
qed


section \<open>Every step keeps the invariant\<close>

fun job_key :: "aio_job \<Rightarrow> work_item" where
  "job_key (sid, ix, op) = (sid, ix)"

fun completion_key :: "int \<times> aio_completion \<Rightarrow> work_item" where
  "completion_key (sid, c) = (sid, cp_index c)"

definition completion_outcome :: "aio_completion \<Rightarrow> aio_outcome" where
  "completion_outcome c = (cp_return_value c, cp_state c, cp_data c)"

definition run_keys :: "'fs aio_sys \<Rightarrow> work_item set" where
  "run_keys S = job_key ` set (sy_running S)"

definition done_keys :: "'fs aio_sys \<Rightarrow> work_item set" where
  "done_keys S = completion_key ` set (sy_delivered S)"

lemma keys_simps [simp]:
  "run_keys (S\<lparr>sy_inner := x\<rparr>) = run_keys S" "done_keys (S\<lparr>sy_inner := x\<rparr>) = done_keys S"
  "run_keys (S\<lparr>sy_fs := f\<rparr>) = run_keys S" "done_keys (S\<lparr>sy_fs := f\<rparr>) = done_keys S"
  "run_keys (S\<lparr>sy_ops := p\<rparr>) = run_keys S" "done_keys (S\<lparr>sy_ops := p\<rparr>) = done_keys S"
  "run_keys (S\<lparr>sy_delivered := d\<rparr>) = run_keys S" "done_keys (S\<lparr>sy_running := r\<rparr>) = done_keys S"
  by (simp_all add: run_keys_def done_keys_def)

lemma worker_finish_simps [simp]:
  "ai_queue (worker_finish sid ix out s) = ai_queue s"
  "ai_next_id (worker_finish sid ix out s) = ai_next_id s"
  by (simp_all add: worker_finish_def split: option.split)

text \<open>The identifiers that occur anywhere.\<close>

definition used_ids :: "'fs aio_sys \<Rightarrow> int set" where
  "used_ids S = dom (ai_submissions (sy_inner S)) \<union> fst ` set (ai_queue (sy_inner S))
     \<union> fst ` run_keys S \<union> fst ` dom (sy_ops S) \<union> fst ` done_keys S"

definition submissions_ok :: "'fs vfs_ops \<Rightarrow> 'fs aio_sys \<Rightarrow> bool" where
  "submissions_ok V S \<longleftrightarrow> (\<forall>i sb. ai_submissions (sy_inner S) i = Some sb \<longrightarrow>
     sub_ok V (\<lambda>x. (i, x) \<in> set (ai_queue (sy_inner S))) (\<lambda>x. (i, x) \<in> run_keys S)
       (\<lambda>x. sy_ops S (i, x)) (\<lambda>x. (i, x) \<in> done_keys S) sb)"

definition aio_inv :: "'fs vfs_ops \<Rightarrow> 'fs aio_sys \<Rightarrow> bool" where
  "aio_inv V S \<longleftrightarrow> submissions_ok V S \<and>
     1 \<le> ai_next_id (sy_inner S) \<and> used_ids S \<subseteq> {1..<ai_next_id (sy_inner S)} \<and>
     distinct (map job_key (sy_running S)) \<and>
     (\<forall>(i, x, op)\<in>set (sy_running S). sy_ops S (i, x) = Some op) \<and>
     distinct (map completion_key (sy_delivered S)) \<and>
     (\<forall>(i, c)\<in>set (sy_delivered S). outcome_ok V (sy_ops S (i, cp_index c)) (completion_outcome c))"

lemma sub_ok_cong:
  assumes "sub_ok V q r o' d sb" "\<And>x. q' x = q x" "\<And>x. r' x = r x" "\<And>x. o'' x = o' x" "\<And>x. d' x = d x"
  shows "sub_ok V q' r' o'' d' sb"
  using assms by (simp add: sub_ok_def)

lemma start_inv: "aio_inv V (aio_start fs)"
  by (simp add: aio_inv_def submissions_ok_def aio_start_def aio_new_def used_ids_def run_keys_def
      done_keys_def)

lemma submit_inv:
  assumes inv: "aio_inv V S" and sub: "aio_submit rqs (sy_inner S) = (sid, s')"
    and lim: "ai_next_id (sy_inner S) < I32_MAX"
  shows "aio_inv V (S\<lparr>sy_inner := s', sy_ops := note_ops sid rqs (sy_ops S)\<rparr>)" (is "aio_inv V ?T")
proof -
  let ?s = "sy_inner S"
  have sid: "sid = ai_next_id ?s" and nx: "ai_next_id s' = sid + 1"
    and q: "ai_queue s' = ai_queue ?s @ map (Pair sid) [0..<length rqs]"
    and subs: "ai_submissions s' = (ai_submissions ?s)(sid \<mapsto>
      \<lparr>sb_state = (if length rqs = 0 then AIO_STATE_COMPLETED else AIO_STATE_SUBMITTED),
       sb_slots = map new_slot rqs, sb_pending = length rqs, sb_cancelled = False\<rparr>)"
    using sub lim by (auto simp: aio_submit_def Let_def)
  have used: "used_ids S \<subseteq> {1..<sid}" and one: "1 \<le> sid" using inv sid by (simp_all add: aio_inv_def)
  have fresh: "sid \<notin> used_ids S" using used by auto
  have unused: "ai_submissions ?s sid = None" "(sid, x) \<notin> set (ai_queue ?s)"
    "(sid, x) \<notin> run_keys S" "(sid, x) \<notin> done_keys S" for x
    using fresh by (force simp: used_ids_def)+
  have keys: "run_keys ?T = run_keys S" "done_keys ?T = done_keys S"
    by (simp_all add: run_keys_def done_keys_def)
  have ops: "note_ops sid rqs (sy_ops S) (i, x) = sy_ops S (i, x)" if "i \<noteq> sid" for i x
    using that by (simp add: note_ops_def)
  have new: "note_ops sid rqs (sy_ops S) (sid, x) = Some (rq_op (rqs ! x))" if "x < length rqs" for x
    using that by (simp add: note_ops_def)
  have "submissions_ok V ?T"
    unfolding submissions_ok_def
  proof (intro allI impI)
    fix i sb assume i: "ai_submissions (sy_inner ?T) i = Some sb"
    show "sub_ok V (\<lambda>x. (i, x) \<in> set (ai_queue (sy_inner ?T))) (\<lambda>x. (i, x) \<in> run_keys ?T)
        (\<lambda>x. sy_ops ?T (i, x)) (\<lambda>x. (i, x) \<in> done_keys ?T) sb"
    proof (cases "i = sid")
      case True
      then have sb: "sb = \<lparr>sb_state = (if length rqs = 0 then AIO_STATE_COMPLETED else AIO_STATE_SUBMITTED),
          sb_slots = map new_slot rqs, sb_pending = length rqs, sb_cancelled = False\<rparr>"
        using i subs by simp
      show ?thesis
        unfolding sb using unused True new by (intro sub_ok_new) (auto simp: q keys)
    next
      case False
      then have "ai_submissions ?s i = Some sb" using i subs by simp
      then have "sub_ok V (\<lambda>x. (i, x) \<in> set (ai_queue ?s)) (\<lambda>x. (i, x) \<in> run_keys S)
          (\<lambda>x. sy_ops S (i, x)) (\<lambda>x. (i, x) \<in> done_keys S) sb"
        using inv by (simp add: aio_inv_def submissions_ok_def)
      then show ?thesis by (rule sub_ok_cong) (use False in \<open>auto simp: q keys ops\<close>)
    qed
  qed
  moreover have "fst ` dom (note_ops sid rqs (sy_ops S)) \<subseteq> insert sid (fst ` dom (sy_ops S))"
    by (force simp: note_ops_def dom_def split: if_splits)
  then have "used_ids ?T \<subseteq> insert sid (used_ids S)"
    unfolding used_ids_def keys by (auto simp: q subs split: if_splits)
  then have "used_ids ?T \<subseteq> {1..<sid + 1}" using used one by fastforce
  moreover have "sy_ops ?T (i, x) = Some op" if "(i, x, op) \<in> set (sy_running S)" for i x op
  proof -
    have "(i, x) \<in> run_keys S" using that by (force simp: run_keys_def)
    then have "i \<noteq> sid" using unused(3) by blast
    then show ?thesis using ops inv that by (auto simp: aio_inv_def)
  qed
  moreover have "outcome_ok V (sy_ops ?T (i, cp_index c)) (completion_outcome c)"
    if "(i, c) \<in> set (sy_delivered S)" for i c
  proof -
    have "(i, cp_index c) \<in> done_keys S" using that by (force simp: done_keys_def)
    then have "i \<noteq> sid" using unused(4) by blast
    then show ?thesis using ops inv that by (auto simp: aio_inv_def)
  qed
  ultimately show ?thesis using inv one nx by (auto simp: aio_inv_def)
qed

text \<open>Changes of one submission.\<close>

lemma update_submissions_ok:
  assumes inv: "submissions_ok V S" and sb: "ai_submissions (sy_inner S) sid = Some sb"
    and T: "ai_submissions (sy_inner T) = (ai_submissions (sy_inner S))(sid \<mapsto> sb')"
    and q: "\<And>i x. i \<noteq> sid \<Longrightarrow> (i, x) \<in> set (ai_queue (sy_inner T)) \<longleftrightarrow> (i, x) \<in> set (ai_queue (sy_inner S))"
    and r: "\<And>i x. i \<noteq> sid \<Longrightarrow> (i, x) \<in> run_keys T \<longleftrightarrow> (i, x) \<in> run_keys S"
    and d: "\<And>i x. i \<noteq> sid \<Longrightarrow> (i, x) \<in> done_keys T \<longleftrightarrow> (i, x) \<in> done_keys S"
    and o': "sy_ops T = sy_ops S"
    and new: "sub_ok V (\<lambda>x. (sid, x) \<in> set (ai_queue (sy_inner T))) (\<lambda>x. (sid, x) \<in> run_keys T)
       (\<lambda>x. sy_ops T (sid, x)) (\<lambda>x. (sid, x) \<in> done_keys T) sb'"
  shows "submissions_ok V T"
  unfolding submissions_ok_def
proof (intro allI impI)
  fix i sb1 assume i: "ai_submissions (sy_inner T) i = Some sb1"
  show "sub_ok V (\<lambda>x. (i, x) \<in> set (ai_queue (sy_inner T))) (\<lambda>x. (i, x) \<in> run_keys T)
      (\<lambda>x. sy_ops T (i, x)) (\<lambda>x. (i, x) \<in> done_keys T) sb1"
  proof (cases "i = sid")
    case True
    then show ?thesis using i T new by simp
  next
    case False
    then have "ai_submissions (sy_inner S) i = Some sb1" using i T by simp
    then have "sub_ok V (\<lambda>x. (i, x) \<in> set (ai_queue (sy_inner S))) (\<lambda>x. (i, x) \<in> run_keys S)
        (\<lambda>x. sy_ops S (i, x)) (\<lambda>x. (i, x) \<in> done_keys S) sb1"
      using inv by (simp add: submissions_ok_def)
    then show ?thesis by (rule sub_ok_cong) (use False q r d o' in auto)
  qed
qed


text \<open>Work items nobody waits for may go.\<close>

definition dead_item :: "(int \<rightharpoonup> aio_submission) \<Rightarrow> work_item \<Rightarrow> bool" where
  "dead_item subs k \<longleftrightarrow> (case subs (fst k) of None \<Rightarrow> True | Some sb \<Rightarrow> so_op (sb_slots sb ! snd k) = None)"

lemma take_work_split:
  "take_work q subs = (job, q', subs') \<Longrightarrow> \<exists>pre. (\<forall>k\<in>set pre. dead_item subs k) \<and>
     (case job of None \<Rightarrow> q = pre \<and> q' = [] \<and> subs' = subs
      | Some (sid, ix, op) \<Rightarrow> q = pre @ (sid, ix) # q' \<and>
          (\<exists>sb. subs sid = Some sb \<and> so_op (sb_slots sb ! ix) = Some op \<and>
             subs' = subs(sid \<mapsto> sb\<lparr>sb_state := AIO_STATE_PROCESSING,
               sb_slots := (sb_slots sb)[ix := (sb_slots sb ! ix)\<lparr>so_op := None\<rparr>]\<rparr>)))"
proof (induction q subs rule: take_work.induct)
  case (2 sid ix q subs)
  show ?case
  proof (cases "dead_item subs (sid, ix)")
    case True
    then have "take_work q subs = (job, q', subs')"
      using 2(3) by (auto simp: dead_item_def split: option.splits)
    moreover have "\<exists>pre. (\<forall>k\<in>set pre. dead_item subs k) \<and>
     (case job of None \<Rightarrow> q = pre \<and> q' = [] \<and> subs' = subs
      | Some (sid, ix, op) \<Rightarrow> q = pre @ (sid, ix) # q' \<and>
          (\<exists>sb. subs sid = Some sb \<and> so_op (sb_slots sb ! ix) = Some op \<and>
             subs' = subs(sid \<mapsto> sb\<lparr>sb_state := AIO_STATE_PROCESSING,
               sb_slots := (sb_slots sb)[ix := (sb_slots sb ! ix)\<lparr>so_op := None\<rparr>]\<rparr>)))"
      using 2(1,2) True calculation by (cases "subs sid") (auto simp: dead_item_def)
    then obtain pre where "(\<forall>k\<in>set pre. dead_item subs k) \<and>
     (case job of None \<Rightarrow> q = pre \<and> q' = [] \<and> subs' = subs
      | Some (sid, ix, op) \<Rightarrow> q = pre @ (sid, ix) # q' \<and>
          (\<exists>sb. subs sid = Some sb \<and> so_op (sb_slots sb ! ix) = Some op \<and>
             subs' = subs(sid \<mapsto> sb\<lparr>sb_state := AIO_STATE_PROCESSING,
               sb_slots := (sb_slots sb)[ix := (sb_slots sb ! ix)\<lparr>so_op := None\<rparr>]\<rparr>)))" by blast
    then show ?thesis using True by (intro exI [of _ "(sid, ix) # pre"]) (auto split: option.splits)
  next
    case False
    then show ?thesis
      using 2(3) by (intro exI [of _ "[]"]) (auto simp: dead_item_def split: option.splits)
  qed
qed simp

lemma sub_ok_queue:
  assumes "sub_ok V q r o' d sb" "\<And>x. q' x \<Longrightarrow> q x"
    and "\<And>x. q x \<Longrightarrow> x < length (sb_slots sb) \<Longrightarrow> so_op (sb_slots sb ! x) \<noteq> None \<Longrightarrow> q' x"
  shows "sub_ok V q' r o' d sb"
  using assms unfolding sub_ok_def slot_ok_def by meson

lemma drop_items_ok:
  assumes ok: "submissions_ok V S" and q: "ai_queue (sy_inner S) = pre @ q'"
    and dead: "\<forall>k\<in>set pre. dead_item (ai_submissions (sy_inner S)) k"
  shows "submissions_ok V (S\<lparr>sy_inner := (sy_inner S)\<lparr>ai_queue := q'\<rparr>\<rparr>)" (is "submissions_ok V ?T")
  unfolding submissions_ok_def
proof (intro allI impI)
  have keys: "run_keys ?T = run_keys S" "done_keys ?T = done_keys S"
    by (simp_all add: run_keys_def done_keys_def)
  fix i sb assume "ai_submissions (sy_inner ?T) i = Some sb"
  then have i: "ai_submissions (sy_inner S) i = Some sb" by simp
  then have "sub_ok V (\<lambda>x. (i, x) \<in> set (ai_queue (sy_inner S))) (\<lambda>x. (i, x) \<in> run_keys ?T)
      (\<lambda>x. sy_ops S (i, x)) (\<lambda>x. (i, x) \<in> done_keys ?T) sb"
    using ok by (simp add: submissions_ok_def keys)
  then show "sub_ok V (\<lambda>x. (i, x) \<in> set (ai_queue (sy_inner ?T))) (\<lambda>x. (i, x) \<in> run_keys ?T)
      (\<lambda>x. sy_ops ?T (i, x)) (\<lambda>x. (i, x) \<in> done_keys ?T) sb"
    by (auto elim!: sub_ok_queue simp: q) (use dead i in \<open>force simp: dead_item_def\<close>)
qed

lemma drop_inv:
  assumes inv: "aio_inv V S" and t: "worker_take (sy_inner S) = (None, s')"
  shows "aio_inv V (S\<lparr>sy_inner := s'\<rparr>)"
proof (cases "ai_shutdown (sy_inner S)")
  case True
  then show ?thesis using inv t by (auto simp: worker_take_def)
next
  case False
  let ?s = "sy_inner S"
  have tw: "take_work (ai_queue ?s) (ai_submissions ?s) = (None, ai_queue s', ai_submissions s')"
    and s': "s' = ?s\<lparr>ai_queue := ai_queue s', ai_submissions := ai_submissions s'\<rparr>"
    using t False by (auto simp: worker_take_def split: prod.splits)
  note sp = take_work_split [OF tw]
  then have dead: "\<forall>k\<in>set (ai_queue ?s). dead_item (ai_submissions ?s) k"
    and e: "ai_queue s' = []" "ai_submissions s' = ai_submissions ?s" by auto
  have eq: "s' = ?s\<lparr>ai_queue := []\<rparr>" using s' e by simp
  have "submissions_ok V (S\<lparr>sy_inner := ?s\<lparr>ai_queue := []\<rparr>\<rparr>)"
    by (rule drop_items_ok [OF _ _ dead]) (use inv in \<open>simp_all add: aio_inv_def\<close>)
  then show ?thesis
    using inv unfolding eq by (auto simp: aio_inv_def used_ids_def run_keys_def done_keys_def)
qed

lemma take_inv:
  assumes inv: "aio_inv V S" and t: "worker_take (sy_inner S) = (Some job, s')"
  shows "aio_inv V (S\<lparr>sy_inner := s', sy_running := job # sy_running S\<rparr>)" (is "aio_inv V ?T")
proof -
  let ?s = "sy_inner S"
  obtain sid ix op where job: "job = (sid, ix, op)" by (cases job) auto
  have tw: "take_work (ai_queue ?s) (ai_submissions ?s) = (Some job, ai_queue s', ai_submissions s')"
    and s': "s' = ?s\<lparr>ai_queue := ai_queue s', ai_submissions := ai_submissions s'\<rparr>"
    using t by (auto simp: worker_take_def split: prod.splits if_splits)
  obtain pre sb where pre: "\<forall>k\<in>set pre. dead_item (ai_submissions ?s) k"
    and q: "ai_queue ?s = pre @ (sid, ix) # ai_queue s'" and sb: "ai_submissions ?s sid = Some sb"
    and op: "so_op (sb_slots sb ! ix) = Some op"
    and subs: "ai_submissions s' = (ai_submissions ?s)(sid \<mapsto> sb\<lparr>sb_state := AIO_STATE_PROCESSING,
        sb_slots := (sb_slots sb)[ix := (sb_slots sb ! ix)\<lparr>so_op := None\<rparr>]\<rparr>)"
    using take_work_split [OF tw] job by auto
  have ok: "submissions_ok V S" using inv by (simp add: aio_inv_def)
  let ?U = "S\<lparr>sy_inner := ?s\<lparr>ai_queue := (sid, ix) # ai_queue s'\<rparr>\<rparr>"
  have okU: "submissions_ok V ?U" by (rule drop_items_ok [OF ok q pre])
  have keys: "run_keys ?U = run_keys S" "done_keys ?U = done_keys S" "done_keys ?T = done_keys S"
    "run_keys ?T = insert (sid, ix) (run_keys S)"
    by (simp_all add: run_keys_def done_keys_def job)
  have sok: "sub_ok V (\<lambda>x. (sid, x) \<in> set ((sid, ix) # ai_queue s')) (\<lambda>x. (sid, x) \<in> run_keys S)
      (\<lambda>x. sy_ops S (sid, x)) (\<lambda>x. (sid, x) \<in> done_keys S) sb"
    using okU [unfolded submissions_ok_def, rule_format, of sid sb] sb by (simp add: keys)
  then have ix: "ix < length (sb_slots sb)" by (auto simp: sub_ok_def)
  note slot = sub_ok_slot [OF sok ix]
  have opk: "sy_ops S (sid, ix) = Some op" and nr: "(sid, ix) \<notin> run_keys S"
    using slot op by (auto simp: slot_ok_def)
  have "sub_ok V (\<lambda>x. (sid, x) \<in> set (ai_queue s')) ((\<lambda>x. (sid, x) \<in> run_keys S)(ix := True))
      (\<lambda>x. sy_ops S (sid, x)) (\<lambda>x. (sid, x) \<in> done_keys S)
      (sb\<lparr>sb_state := AIO_STATE_PROCESSING,
        sb_slots := (sb_slots sb)[ix := (sb_slots sb ! ix)\<lparr>so_op := None\<rparr>]\<rparr>)"
    by (rule sub_ok_take [OF sok op ix]) auto
  then have new: "sub_ok V (\<lambda>x. (sid, x) \<in> set (ai_queue (sy_inner ?T))) (\<lambda>x. (sid, x) \<in> run_keys ?T)
      (\<lambda>x. sy_ops ?T (sid, x)) (\<lambda>x. (sid, x) \<in> done_keys ?T)
      (sb\<lparr>sb_state := AIO_STATE_PROCESSING,
        sb_slots := (sb_slots sb)[ix := (sb_slots sb ! ix)\<lparr>so_op := None\<rparr>]\<rparr>)"
    by (rule sub_ok_cong) (auto simp: keys)
  have "submissions_ok V ?T"
    by (rule update_submissions_ok [OF okU _ _ _ _ _ _ new]) (auto simp: sb subs keys)
  moreover have "used_ids ?T \<subseteq> used_ids S"
    using sb q by (auto simp: used_ids_def keys subs image_iff split: if_splits)
  moreover have "distinct (map job_key (sy_running ?T))"
    using inv nr by (simp add: aio_inv_def job run_keys_def)
  moreover have "ai_next_id s' = ai_next_id ?s" by (subst s') simp
  ultimately show ?thesis using inv opk by (auto simp: aio_inv_def job)
qed


lemma finish_inv:
  assumes inv: "aio_inv V S" and job: "(sid, ix, op) \<in> set (sy_running S)"
    and out: "outcome_ok V (Some op) out"
  shows "aio_inv V (S\<lparr>sy_inner := worker_finish sid ix out (sy_inner S),
    sy_running := remove1 (sid, ix, op) (sy_running S), sy_fs := fs'\<rparr>)" (is "aio_inv V ?T")
proof -
  let ?s = "sy_inner S"
  have dist: "distinct (map job_key (sy_running S))" and ok: "submissions_ok V S"
    using inv by (auto simp: aio_inv_def)
  have opk: "sy_ops S (sid, ix) = Some op" using inv job by (auto simp: aio_inv_def)
  have rk: "run_keys ?T = run_keys S - {(sid, ix)}"
  proof -
    have "inj_on job_key (set (sy_running S))" and d: "distinct (sy_running S)"
      using dist by (simp_all add: distinct_map)
    then have "job_key ` (set (sy_running S) - {(sid, ix, op)}) = job_key ` set (sy_running S) - {(sid, ix)}"
      using job inj_on_image_set_diff [of job_key "set (sy_running S)" "set (sy_running S)" "{(sid, ix, op)}"]
      by simp
    then show ?thesis using d by (simp add: run_keys_def)
  qed
  then have rk': "run_keys (S\<lparr>sy_inner := x, sy_running := remove1 (sid, ix, op) (sy_running S)\<rparr>)
      = run_keys S - {(sid, ix)}" for x by (simp add: run_keys_def)
  have dk: "done_keys ?T = done_keys S" by (simp add: done_keys_def)
  have run: "(sid, ix) \<in> run_keys S" using job by (force simp: run_keys_def)
  have q: "ai_queue (sy_inner ?T) = ai_queue ?s" "ai_next_id (sy_inner ?T) = ai_next_id ?s"
    by (simp_all add: worker_finish_def split: option.split)
  have "submissions_ok V ?T"
  proof (cases "ai_submissions ?s sid")
    case None
    show ?thesis
      unfolding submissions_ok_def
    proof (intro allI impI)
      fix i sb assume "ai_submissions (sy_inner ?T) i = Some sb"
      then have i: "ai_submissions ?s i = Some sb" using None by (simp add: worker_finish_def)
      then have "i \<noteq> sid" using None by auto
      with ok [unfolded submissions_ok_def, rule_format, OF i]
      show "sub_ok V (\<lambda>x. (i, x) \<in> set (ai_queue (sy_inner ?T))) (\<lambda>x. (i, x) \<in> run_keys ?T)
        (\<lambda>x. sy_ops ?T (i, x)) (\<lambda>x. (i, x) \<in> done_keys ?T) sb"
        by (elim sub_ok_cong) (auto simp: rk')
    qed
  next
    case (Some sb)
    have "sub_ok V (\<lambda>x. (sid, x) \<in> set (ai_queue ?s)) ((\<lambda>x. (sid, x) \<in> run_keys S)(ix := False))
        (\<lambda>x. sy_ops S (sid, x)) (\<lambda>x. (sid, x) \<in> done_keys S) (finish_submission ix out sb)"
      by (rule sub_ok_finish [OF ok [unfolded submissions_ok_def, rule_format, OF Some]])
        (use run out opk in simp_all)
    then have new: "sub_ok V (\<lambda>x. (sid, x) \<in> set (ai_queue (sy_inner ?T))) (\<lambda>x. (sid, x) \<in> run_keys ?T)
        (\<lambda>x. sy_ops ?T (sid, x)) (\<lambda>x. (sid, x) \<in> done_keys ?T) (finish_submission ix out sb)"
      by (rule sub_ok_cong) (auto simp: rk')
    show ?thesis
      by (rule update_submissions_ok [OF ok Some _ _ _ _ _ new]) (auto simp: rk' worker_finish_def Some)
  qed
  moreover have "dom (ai_submissions (sy_inner ?T)) = dom (ai_submissions ?s)"
    by (auto simp: worker_finish_def split: option.splits)
  then have "used_ids ?T \<subseteq> used_ids S" unfolding used_ids_def rk dk q by auto
  moreover have "distinct (map job_key (sy_running ?T))"
    using dist by (auto simp: distinct_map intro: inj_on_subset)
  moreover have "set (sy_running ?T) \<subseteq> set (sy_running S)" by (simp add: set_remove1_subset)
  ultimately show ?thesis using inv q(2) by (auto simp: aio_inv_def)
qed

lemma cancel_inv:
  assumes inv: "aio_inv V S" and c: "aio_cancel sid (sy_inner S) = (r, s')"
  shows "aio_inv V (S\<lparr>sy_inner := s'\<rparr>)" (is "aio_inv V ?T")
proof (cases "s' = sy_inner S")
  case True
  then show ?thesis using inv by simp
next
  case False
  then obtain sb where sb: "ai_submissions (sy_inner S) sid = Some sb" and t: "\<not> aio_terminal (sb_state sb)"
    and s': "s' = (sy_inner S)\<lparr>ai_submissions := (ai_submissions (sy_inner S))(sid \<mapsto> cancel_submission sb)\<rparr>"
    using c by (auto simp: aio_cancel_def Let_def split: option.splits if_splits)
  have ok: "submissions_ok V S" using inv by (simp add: aio_inv_def)
  have keys: "run_keys ?T = run_keys S" "done_keys ?T = done_keys S"
    by (simp_all add: run_keys_def done_keys_def)
  have "sub_ok V (\<lambda>x. (sid, x) \<in> set (ai_queue (sy_inner S))) (\<lambda>x. (sid, x) \<in> run_keys S)
      (\<lambda>x. sy_ops S (sid, x)) (\<lambda>x. (sid, x) \<in> done_keys S) (cancel_submission sb)"
    by (rule sub_ok_cancel [OF ok [unfolded submissions_ok_def, rule_format, OF sb] t])
  then have "submissions_ok V ?T"
    by (intro update_submissions_ok [OF ok sb]) (auto simp: s' keys)
  moreover have "used_ids ?T = used_ids S"
    using sb by (auto simp: used_ids_def keys s')
  ultimately show ?thesis using inv by (simp add: aio_inv_def s')
qed

lemma completion_of_Some:
  assumes "completion_of i sl = Some c"
  shows "so_outcome sl = Some (completion_outcome c) \<and> \<not> so_drained sl \<and> cp_index c = i \<and>
    cp_guest_buf c = so_guest_buf sl \<and> cp_guest_result c = so_guest_result sl"
proof -
  obtain a b d where "so_outcome sl = Some (a, b, d)" "\<not> so_drained sl"
    "c = \<lparr>cp_index = i, cp_return_value = a, cp_state = b, cp_guest_buf = so_guest_buf sl,
       cp_guest_result = so_guest_result sl, cp_data = d\<rparr>"
    using assms by (auto simp: completion_of_def split: if_splits)
  then show ?thesis by (simp add: completion_outcome_def)
qed

lemma completions_props:
  assumes ok: "sub_ok V q r o' d sb"
  shows "distinct (map cp_index (slot_completions (sb_slots sb)))"
    and "c \<in> set (slot_completions (sb_slots sb)) \<longleftrightarrow>
      cp_index c < length (sb_slots sb) \<and> completion_of (cp_index c) (sb_slots sb ! cp_index c) = Some c"
    and "c \<in> set (slot_completions (sb_slots sb)) \<Longrightarrow>
      outcome_ok V (o' (cp_index c)) (completion_outcome c) \<and> \<not> d (cp_index c)"
proof -
  let ?sls = "sb_slots sb"
  have idx: "completion_of i sl = Some c \<Longrightarrow> cp_index c = i" for i sl c
    by (auto simp: completion_of_def split: if_splits)
  have "map cp_index (List.map_filter (\<lambda>i. completion_of i (?sls ! i)) is)
      = filter (\<lambda>i. completion_of i (?sls ! i) \<noteq> None) is" for "is"
    using idx by (induction "is") (auto simp: List.map_filter_simps split: option.splits)
  then have "map cp_index (slot_completions ?sls)
      = filter (\<lambda>i. completion_of i (?sls ! i) \<noteq> None) [0..<length ?sls]"
    by (simp add: slot_completions_def)
  then show "distinct (map cp_index (slot_completions ?sls))" by simp
  show mem: "c \<in> set (slot_completions ?sls) \<longleftrightarrow>
      cp_index c < length ?sls \<and> completion_of (cp_index c) (?sls ! cp_index c) = Some c" for c
  proof -
    have "c \<in> set (List.map_filter f is) \<longleftrightarrow> (\<exists>i\<in>set is. f i = Some c)"
      for f :: "nat \<Rightarrow> aio_completion option" and "is"
      by (induction "is") (auto simp: List.map_filter_simps split: option.splits)
    then have "c \<in> set (slot_completions ?sls) \<longleftrightarrow>
        (\<exists>i<length ?sls. completion_of i (?sls ! i) = Some c)"
      by (simp add: slot_completions_def Bex_def)
    then show ?thesis using idx by blast
  qed
  assume "c \<in> set (slot_completions ?sls)"
  then have c: "cp_index c < length ?sls" "completion_of (cp_index c) (?sls ! cp_index c) = Some c"
    using mem by auto
  then show "outcome_ok V (o' (cp_index c)) (completion_outcome c) \<and> \<not> d (cp_index c)"
    using sub_ok_slot [OF ok c(1)] completion_of_Some [OF c(2)] unfolding slot_ok_def by metis
qed


lemma drain_inv:
  assumes inv: "aio_inv V S" and c: "drain_completions sid (sy_inner S) = (cs, s')"
  shows "aio_inv V (S\<lparr>sy_inner := s', sy_delivered := sy_delivered S @ map (Pair sid) cs\<rparr>)"
    (is "aio_inv V ?T")
proof (cases "ai_submissions (sy_inner S) sid")
  case None
  then show ?thesis using inv c by (auto simp: drain_completions_def)
next
  case (Some sb)
  let ?sb = "sb\<lparr>sb_slots := map drained_slot (sb_slots sb)\<rparr>"
  have cs: "cs = slot_completions (sb_slots sb)"
    and s': "s' = (sy_inner S)\<lparr>ai_submissions := (ai_submissions (sy_inner S))(sid \<mapsto> ?sb)\<rparr>"
    using c Some by (auto simp: drain_completions_def)
  have ok: "submissions_ok V S" using inv by (simp add: aio_inv_def)
  have sok: "sub_ok V (\<lambda>x. (sid, x) \<in> set (ai_queue (sy_inner S))) (\<lambda>x. (sid, x) \<in> run_keys S)
      (\<lambda>x. sy_ops S (sid, x)) (\<lambda>x. (sid, x) \<in> done_keys S) sb"
    by (rule ok [unfolded submissions_ok_def, rule_format, OF Some])
  note cp = completions_props [OF sok]
  have dk: "done_keys (S\<lparr>sy_inner := x, sy_delivered := sy_delivered S @ map (Pair sid) cs\<rparr>)
      = done_keys S \<union> Pair sid ` cp_index ` set cs" for x
    by (simp add: done_keys_def image_Un image_image)
  have idx: "x \<in> cp_index ` set cs \<longleftrightarrow> x < length (sb_slots sb) \<and> completion_of x (sb_slots sb ! x) \<noteq> None"
    for x
    using cp(2) completion_of_Some unfolding cs by (force simp: image_iff)
  have mem: "(sid, x) \<in> Pair sid ` cp_index ` set cs \<longleftrightarrow>
      x < length (sb_slots sb) \<and> completion_of x (sb_slots sb ! x) \<noteq> None" for x
    using idx [of x] by (auto simp: image_image)
  have "sub_ok V (\<lambda>x. (sid, x) \<in> set (ai_queue (sy_inner ?T))) (\<lambda>x. (sid, x) \<in> run_keys ?T)
      (\<lambda>x. sy_ops ?T (sid, x)) (\<lambda>x. (sid, x) \<in> done_keys ?T) ?sb"
    by (rule sub_ok_cong [OF sub_ok_drain [OF sok]]) (simp_all add: s' dk mem run_keys_def)
  then have "submissions_ok V ?T"
    by (intro update_submissions_ok [OF ok Some]) (auto simp: s' dk run_keys_def)
  moreover have "used_ids ?T = used_ids S"
    using Some by (auto simp: used_ids_def s' dk run_keys_def)
  moreover have "distinct (map completion_key (sy_delivered ?T))"
  proof -
    have "completion_key ` set (sy_delivered S) \<inter> Pair sid ` cp_index ` set cs = {}"
      using cp(3) unfolding cs done_keys_def [symmetric] by auto
    moreover have "distinct (map (Pair sid \<circ> cp_index) cs)"
      using cp(1) by (simp add: cs distinct_map comp_inj_on inj_on_def)
    moreover have "map completion_key (map (Pair sid) cs) = map (Pair sid \<circ> cp_index) cs" by simp
    ultimately show ?thesis
      using inv by (simp add: aio_inv_def image_image del: map_map)
  qed
  moreover have "outcome_ok V (sy_ops S (sid, cp_index c)) (completion_outcome c)" if "c \<in> set cs" for c
    using cp(3) that unfolding cs by blast
  ultimately show ?thesis using inv by (auto simp: aio_inv_def s')
qed

lemma remove_inv:
  assumes inv: "aio_inv V S" and c: "aio_remove sid (sy_inner S) = (r, s')"
  shows "aio_inv V (S\<lparr>sy_inner := s'\<rparr>)"
proof (cases "ai_submissions (sy_inner S) sid")
  case None
  then show ?thesis using inv c by (auto simp: aio_remove_def)
next
  case (Some sb)
  have s': "ai_submissions s' = (ai_submissions (sy_inner S))(sid := None)"
    "ai_queue s' = ai_queue (sy_inner S)" "ai_next_id s' = ai_next_id (sy_inner S)"
    using c Some by (auto simp: aio_remove_def Let_def split: if_splits)
  have "submissions_ok V (S\<lparr>sy_inner := s'\<rparr>)"
    using inv by (auto simp: aio_inv_def submissions_ok_def s' split: if_splits)
  moreover have "used_ids (S\<lparr>sy_inner := s'\<rparr>) \<subseteq> used_ids S"
    by (auto simp: used_ids_def s' split: if_splits)
  ultimately show ?thesis using inv by (auto simp: aio_inv_def s')
qed

lemma step_inv: "aio_step V S T \<Longrightarrow> aio_inv V S \<Longrightarrow> aio_inv V T"
proof (induction rule: aio_step.induct)
  case (step_finish sid ix op S out fs')
  have "\<exists>fs fs'. aio_perform V op fs = Some (out, fs')" using step_finish.hyps(2) by blast
  then have "outcome_ok V (Some op) out" unfolding outcome_ok_def by blast
  then show ?case by (rule finish_inv [OF step_finish.prems step_finish.hyps(1)])
next
  case (step_other_io S fs')
  then show ?case by (simp add: aio_inv_def submissions_ok_def used_ids_def)
qed (auto intro: submit_inv take_inv drop_inv cancel_inv drain_inv remove_inv)

lemma reachable_inv: "aio_reachable V S \<Longrightarrow> aio_inv V S"
  by (induction rule: aio_reachable.induct) (auto intro: start_inv step_inv)


section \<open>The workers empty the queue\<close>

lemma cycle_step:
  assumes r: "aio_reachable V S" and idle: "sy_running S = []" and up: "\<not> ai_shutdown (sy_inner S)"
    and cyc: "worker_cycle V (sy_inner S, sy_fs S) = Some c"
  shows "\<exists>T. aio_reachable V T \<and> sy_running T = [] \<and> \<not> ai_shutdown (sy_inner T) \<and>
    c = (sy_inner T, sy_fs T) \<and>
    length (ai_queue (sy_inner T)) \<le> length (ai_queue (sy_inner S)) - 1"
proof -
  let ?s = "sy_inner S"
  obtain job q subs where tw: "take_work (ai_queue ?s) (ai_submissions ?s) = (job, q, subs)"
    by (cases "take_work (ai_queue ?s) (ai_submissions ?s)") auto
  let ?s1 = "?s\<lparr>ai_queue := q, ai_submissions := subs\<rparr>"
  have wt: "worker_take ?s = (job, ?s1)" using up tw by (simp add: worker_take_def)
  note sp = take_work_split [OF tw]
  show ?thesis
  proof (cases job)
    case None
    let ?T = "S\<lparr>sy_inner := ?s1\<rparr>"
    have "aio_step V S ?T" by (rule step_drop) (use wt None in simp)
    then have "aio_reachable V ?T" by (rule reach_step [OF r])
    moreover have "q = []" using sp None by auto
    ultimately show ?thesis
      using wt None idle up cyc by (intro exI [of _ ?T]) (simp add: worker_cycle_def)
  next
    case (Some j)
    obtain sid ix op where j: "j = (sid, ix, op)" by (cases j) auto
    let ?M = "S\<lparr>sy_inner := ?s1, sy_running := j # sy_running S\<rparr>"
    obtain out fs' where p: "aio_perform V op (sy_fs S) = Some (out, fs')"
      using cyc wt Some j by (auto simp: worker_cycle_def)
    let ?T = "?M\<lparr>sy_inner := worker_finish sid ix out ?s1,
      sy_running := remove1 (sid, ix, op) (sy_running ?M), sy_fs := fs'\<rparr>"
    have "aio_step V S ?M" by (rule step_take) (use wt Some idle in simp_all)
    then have "aio_reachable V ?M" by (rule reach_step [OF r])
    moreover have "aio_step V ?M (?M\<lparr>sy_inner := worker_finish sid ix out (sy_inner ?M),
        sy_running := remove1 (sid, ix, op) (sy_running ?M), sy_fs := fs'\<rparr>)"
      by (rule step_finish) (use j p in simp_all)
    ultimately have "aio_reachable V ?T" using reach_step [of V ?M] by simp
    moreover have "length q \<le> length (ai_queue ?s) - 1" using sp Some j by auto
    moreover have "ai_shutdown (worker_finish sid ix out ?s1) = ai_shutdown ?s"
      by (simp add: worker_finish_def split: option.split)
    ultimately show ?thesis
      using wt Some j p idle up cyc by (intro exI [of _ ?T]) (simp add: worker_cycle_def)
  qed
qed

lemma cycles_empty_queue:
  assumes "aio_reachable V S" and "sy_running S = []" and "\<not> ai_shutdown (sy_inner S)"
    and "length (ai_queue (sy_inner S)) \<le> n" and "worker_cycles V n (sy_inner S, sy_fs S) = Some c"
  shows "\<exists>T. aio_reachable V T \<and> sy_running T = [] \<and> ai_queue (sy_inner T) = [] \<and>
    c = (sy_inner T, sy_fs T)"
  using assms
proof (induction n arbitrary: S)
  case (Suc n)
  obtain c1 where c1: "worker_cycle V (sy_inner S, sy_fs S) = Some c1" "worker_cycles V n c1 = Some c"
    using Suc.prems(5) by (auto simp: bind_eq_Some_conv)
  obtain T where T: "aio_reachable V T" "sy_running T = []" "\<not> ai_shutdown (sy_inner T)"
    "c1 = (sy_inner T, sy_fs T)"
    "length (ai_queue (sy_inner T)) \<le> length (ai_queue (sy_inner S)) - 1"
    using cycle_step [OF Suc.prems(1-3) c1(1)] by blast
  have "length (ai_queue (sy_inner T)) \<le> n" using T(5) Suc.prems(4) by simp
  with Suc.IH [OF T(1-3)] c1(2) show ?case by (simp add: T(4))
qed auto

lemma idle_all_terminal:
  assumes "aio_inv V S" and "sy_running S = []" and "ai_queue (sy_inner S) = []"
    and sb: "ai_submissions (sy_inner S) sid = Some sb"
  shows "aio_terminal (sb_state sb)"
proof -
  have ok: "sub_ok V (\<lambda>x. False) (\<lambda>x. False) (\<lambda>x. sy_ops S (sid, x))
      (\<lambda>x. (sid, x) \<in> done_keys S) sb"
    using assms by (simp add: aio_inv_def submissions_ok_def run_keys_def)
  have "\<not> unfinished sl" if "sl \<in> set (sb_slots sb)" for sl
    using that sub_ok_slot [OF ok] by (auto simp: in_set_conv_nth slot_ok_def)
  then show ?thesis using ok by (simp add: sub_ok_def filter_empty_conv)
qed

section \<open>A run\<close>

text \<open>One read of four bytes from a descriptor table whose files hold only ones:
  submitted, run by a worker, and drained.\<close>

definition demo_vfs :: "unit vfs_ops" where
  "demo_vfs = \<lparr>vf_pread = (\<lambda>fd n off fs. (Inr (replicate n 1), fs)),
     vf_pwrite = (\<lambda>fd bs off fs. Some (Inr (length bs), fs))\<rparr>"

definition demo_request :: aio_request where
  "demo_request = \<lparr>rq_op = AioRead 3 0 4, rq_guest_buf = 0x100, rq_guest_result = 0x200\<rparr>"

definition demo_submitted :: "unit aio_sys" where
  "demo_submitted = (aio_start ())\<lparr>sy_inner := snd (aio_submit [demo_request] aio_new),
     sy_ops := note_ops 1 [demo_request] Map.empty\<rparr>"

definition demo_taken :: "unit aio_sys" where
  "demo_taken = demo_submitted\<lparr>sy_inner := snd (worker_take (sy_inner demo_submitted)),
     sy_running := [(1, 0, AioRead 3 0 4)]\<rparr>"

definition demo_finished :: "unit aio_sys" where
  "demo_finished = demo_taken\<lparr>
     sy_inner := worker_finish 1 0 (4, AIO_STATE_COMPLETED, Some [1, 1, 1, 1]) (sy_inner demo_taken),
     sy_running := [], sy_fs := ()\<rparr>"

definition demo_drained :: "unit aio_sys" where
  "demo_drained = demo_finished\<lparr>
     sy_inner := snd (drain_completions 1 (sy_inner demo_finished)),
     sy_delivered := map (Pair 1) (fst (drain_completions 1 (sy_inner demo_finished)))\<rparr>"

lemma demo_read: "aio_perform demo_vfs (AioRead 3 0 4) fs = Some ((4, AIO_STATE_COMPLETED, Some [1, 1, 1, 1]), fs)"
proof -
  have "replicate 4 (1 :: byte) = [1, 1, 1, 1]" by (simp add: numeral_eq_Suc)
  then show ?thesis by (simp add: demo_vfs_def)
qed

lemma demo_submitted_reachable: "aio_reachable demo_vfs demo_submitted"
proof -
  have "aio_step demo_vfs (aio_start ()) demo_submitted"
    using step_submit [of "aio_start ()" "[demo_request]" 1 "snd (aio_submit [demo_request] aio_new)" demo_vfs]
    by (simp add: demo_submitted_def aio_start_def aio_submit_def aio_new_def)
  then show ?thesis by (rule reach_step [OF reach_start])
qed

lemma demo_inner:
  "worker_take (sy_inner demo_submitted) = (Some (1, 0, AioRead 3 0 4), sy_inner demo_taken)"
  "sy_running demo_submitted = []" "sy_delivered demo_finished = []"
  by (simp_all add: demo_taken_def demo_finished_def demo_submitted_def demo_request_def worker_take_def
      aio_start_def aio_submit_def aio_new_def new_slot_def)

lemma demo_finished_reachable: "aio_reachable demo_vfs demo_finished"
proof -
  have "aio_step demo_vfs demo_submitted demo_taken"
  proof -
    have "demo_taken = demo_submitted\<lparr>sy_inner := sy_inner demo_taken,
        sy_running := (1, 0, AioRead 3 0 4) # sy_running demo_submitted\<rparr>"
      using demo_inner(2) by (simp add: demo_taken_def)
    then show ?thesis
      using step_take [OF _ demo_inner(1), of demo_vfs] demo_inner(2) by simp
  qed
  then have "aio_reachable demo_vfs demo_taken" by (rule reach_step [OF demo_submitted_reachable])
  moreover have "aio_step demo_vfs demo_taken demo_finished"
    using step_finish [of 1 0 "AioRead 3 0 4" demo_taken demo_vfs _ "()"] demo_read
    by (simp add: demo_finished_def demo_taken_def)
  ultimately show ?thesis by (rule reach_step)
qed

lemma demo_drained_reachable: "aio_reachable demo_vfs demo_drained"
proof -
  have "aio_step demo_vfs demo_finished demo_drained"
    using step_drain [of 1 demo_finished "fst (drain_completions 1 (sy_inner demo_finished))"
        "snd (drain_completions 1 (sy_inner demo_finished))" demo_vfs] demo_inner(3)
    by (simp add: demo_drained_def)
  with demo_finished_reachable show ?thesis by (rule reach_step)
qed

section \<open>Properties\<close>

text \<open>C27: In every state the engine can reach, under any interleaving of guest
  calls and workers, a submission's counter is exactly the number of its
  requests that have no outcome yet, so it never underflows, and the submission
  reports a terminal state exactly when that number is zero.\<close>

theorem aio_counts_exact:
  assumes "aio_reachable V S" and "ai_submissions (sy_inner S) sid = Some sb"
  shows "sb_pending sb = length (filter unfinished (sb_slots sb)) \<and>
    (aio_terminal (sb_state sb) \<longleftrightarrow> (\<forall>sl\<in>set (sb_slots sb). \<not> unfinished sl)) \<and>
    aio_poll sid (sy_inner S) = Some (sb_state sb)"
proof -
  have "sub_ok V (\<lambda>x. (sid, x) \<in> set (ai_queue (sy_inner S))) (\<lambda>x. (sid, x) \<in> run_keys S)
      (\<lambda>x. sy_ops S (sid, x)) (\<lambda>x. (sid, x) \<in> done_keys S) sb"
    using reachable_inv [OF assms(1)] assms(2) by (simp add: aio_inv_def submissions_ok_def)
  then show ?thesis using assms(2) by (auto simp: sub_ok_def filter_empty_conv aio_poll_def)
qed

theorem aio_counts_exact_witness:
  "\<exists>sb. ai_submissions (sy_inner demo_submitted) 1 = Some sb \<and> sb_pending sb = 1 \<and>
     \<not> aio_terminal (sb_state sb)"
proof -
  obtain sb where sb: "ai_submissions (sy_inner demo_submitted) 1 = Some sb" "sb_pending sb = 1"
    by (simp add: demo_submitted_def aio_submit_def aio_new_def)
  then show ?thesis
    using aio_counts_exact [OF demo_submitted_reachable sb(1)]
    by (auto simp: demo_submitted_def aio_submit_def aio_new_def)
qed

text \<open>C28: In every reachable state, no completion was handed out twice, and every
  completion handed out carries either the cancellation result or a result of
  performing the very operation that was submitted under its identifier and
  index.\<close>

theorem aio_delivery_once:
  assumes "aio_reachable V S"
  shows "distinct (map completion_key (sy_delivered S)) \<and>
    (\<forall>(sid, c)\<in>set (sy_delivered S). \<exists>op. sy_ops S (sid, cp_index c) = Some op \<and>
       (completion_outcome c = aio_cancelled \<or>
        (\<exists>fs fs'. aio_perform V op fs = Some (completion_outcome c, fs'))))"
  using reachable_inv [OF assms] unfolding aio_inv_def outcome_ok_def by blast

theorem aio_delivery_once_witness:
  "\<exists>c. (1, c) \<in> set (sy_delivered demo_drained) \<and> cp_data c = Some [1, 1, 1, 1] \<and>
     (\<exists>op. sy_ops demo_drained (1, cp_index c) = Some op)"
proof -
  obtain c where c: "(1, c) \<in> set (sy_delivered demo_drained)" "cp_data c = Some [1, 1, 1, 1]"
    by (simp add: demo_drained_def demo_finished_def demo_taken_def demo_submitted_def demo_request_def
        worker_take_def aio_start_def aio_submit_def aio_new_def new_slot_def worker_finish_def
        finish_submission_def drain_completions_def slot_completions_def completion_of_def
        List.map_filter_simps Let_def)
  then show ?thesis using aio_delivery_once [OF demo_drained_reachable] by blast
qed

text \<open>C29: No request is forgotten: from any reachable state without a running
  job, as many undisturbed turns of a worker as there are items in the queue, none
  of which panics, bring every submission to a terminal state.\<close>

theorem aio_workers_finish:
  assumes "aio_reachable V S" and "sy_running S = []" and "\<not> ai_shutdown (sy_inner S)"
    and "length (ai_queue (sy_inner S)) \<le> n"
    and "worker_cycles V n (sy_inner S, sy_fs S) = Some (s', fs')"
  shows "ai_queue s' = [] \<and>
    (\<forall>sid sb. ai_submissions s' sid = Some sb \<longrightarrow> aio_terminal (sb_state sb) \<and> sb_pending sb = 0)"
proof -
  obtain T where T: "aio_reachable V T" "sy_running T = []" "ai_queue (sy_inner T) = []" "s' = sy_inner T"
    using cycles_empty_queue [OF assms] by auto
  have inv: "aio_inv V T" by (rule reachable_inv [OF T(1)])
  have "aio_terminal (sb_state sb) \<and> sb_pending sb = 0"
    if sb: "ai_submissions (sy_inner T) sid = Some sb" for sid sb
  proof -
    have "aio_terminal (sb_state sb)" by (rule idle_all_terminal [OF inv T(2,3) sb])
    then show ?thesis using inv sb by (auto simp: aio_inv_def submissions_ok_def sub_ok_def)
  qed
  then show ?thesis using T by simp
qed

theorem aio_workers_finish_witness:
  "\<exists>s. worker_cycles demo_vfs 1 (sy_inner demo_submitted, ()) = Some (s, ()) \<and>
     ai_queue s = [] \<and> (\<exists>sb. ai_submissions s 1 = Some sb \<and> sb_state sb = AIO_STATE_COMPLETED)"
proof -
  obtain s where s: "worker_cycle demo_vfs (sy_inner demo_submitted, ()) = Some (s, ())"
    "\<exists>sb. ai_submissions s 1 = Some sb \<and> sb_state sb = AIO_STATE_COMPLETED"
    using demo_inner(1) demo_read [of "()"]
    by (auto simp: worker_cycle_def worker_finish_def finish_submission_def demo_taken_def
        demo_submitted_def demo_request_def worker_take_def aio_start_def aio_submit_def aio_new_def
        new_slot_def)
  have "length (ai_queue (sy_inner demo_submitted)) \<le> 1" "\<not> ai_shutdown (sy_inner demo_submitted)"
    by (simp_all add: demo_submitted_def aio_submit_def aio_new_def)
  moreover have "worker_cycles demo_vfs 1 (sy_inner demo_submitted, ()) = Some (s, ())" using s(1) by simp
  ultimately show ?thesis
    using aio_workers_finish [OF demo_submitted_reachable demo_inner(2), of 1 s "()"] s(2) by auto
qed

text \<open>\<open>wait\<close> tells the truth: a state it returns is the submission's terminal
  state in the table at that moment, the final state of a deleted one, or, when
  the submission vanished as the timeout elapsed, \<open>ABORTED\<close>; an unknown
  submission is one that is neither live nor retired; and a timeout is reported
  only when the timeout of some turn elapsed, with a state that is not
  terminal.\<close>

theorem aio_wait_sound:
  assumes "aio_wait sid ts s = Some (r, s')"
  shows "(case r of
      Inr st \<Rightarrow> aio_poll sid s' = Some st \<and>
          (aio_terminal st \<or> ai_submissions s' sid = None) \<or>
        st = AIO_STATE_ABORTED \<and> ai_submissions s' sid = None
    | Inl AioUnknown \<Rightarrow> aio_poll sid s' = None
    | Inl (AioTimedOut st) \<Rightarrow> aio_poll sid s' = Some st \<and> \<not> aio_terminal st \<and>
        (\<exists>t\<in>set ts. tn_timed_out t))"
  using assms
proof (induction ts arbitrary: s)
  case Nil
  then show ?case
    by (auto simp: aio_wait_look_def aio_poll_def split: option.splits if_splits)
next
  case (Cons t ts)
  show ?case
  proof (cases "aio_wait_look sid s")
    case None
    show ?thesis
    proof (cases "tn_timed_out t")
      case True
      then show ?thesis using Cons.prems None
        by (auto simp: aio_wait_timeout_def aio_poll_def Let_def split: option.splits if_splits)
    next
      case False
      then have "aio_wait sid ts (tn_others t s) = Some (r, s')" using Cons.prems None by (simp add: Let_def)
      then show ?thesis using Cons.IH by (fastforce split: sum.splits aio_wait_error.splits)
    qed
  next
    case (Some a)
    then show ?thesis using Cons.prems
      by (auto simp: aio_wait_look_def aio_poll_def split: option.splits if_splits)
  qed
qed

theorem aio_wait_sound_witness:
  "aio_wait 1 [\<lparr>tn_others = (\<lambda>s. s), tn_timed_out = True\<rparr>] (sy_inner demo_submitted)
     = Some (Inl (AioTimedOut AIO_STATE_SUBMITTED), sy_inner demo_submitted) \<and>
   \<not> aio_terminal AIO_STATE_SUBMITTED"
proof -
  have "aio_wait 1 [\<lparr>tn_others = (\<lambda>s. s), tn_timed_out = True\<rparr>] (sy_inner demo_submitted)
     = Some (Inl (AioTimedOut AIO_STATE_SUBMITTED), sy_inner demo_submitted)"
    by (simp add: demo_submitted_def aio_submit_def aio_new_def aio_wait_look_def aio_wait_timeout_def)
  then show ?thesis using aio_wait_sound by fastforce
qed

text \<open>\<open>delete\<close> is not one critical section: a request that finishes between its
  drain and its removal is reported \<open>COMPLETED\<close> without being handed out, so the
  bytes it has read reach nobody.\<close>

lemma delete_loses_late_completion:
  "fst (aio_delete (\<lambda>s. s)
     (worker_finish 1 0 (4, AIO_STATE_COMPLETED, Some [1, 1, 1, 1])) 1 (sy_inner demo_taken))
   = Some (AIO_STATE_COMPLETED, [])"
  by (simp add: demo_taken_def demo_submitted_def demo_request_def worker_take_def aio_start_def
      aio_submit_def aio_new_def new_slot_def aio_delete_def aio_cancel_def cancel_submission_def
      not_started_def cancel_slot_def drain_completions_def slot_completions_def completion_of_def
      drained_slot_def worker_finish_def finish_submission_def aio_remove_def List.map_filter_simps Let_def)

end
