(* ===== verification/Vfs_Streams.thy ===== *)
theory Vfs_Streams
  imports Vfs_Refinement Aio_Engine
begin

text \<open>
  Three uses of the descriptor table that span components: pseudo-files over
  guest memory never serve a byte outside their declared range; a directory read
  in pieces is its listing; and the asynchronous I/O engine on top of the table
  reads back what it has written.
\<close>

section \<open>Guest ranges\<close>

lemma read_region_bytes:
  assumes "uri_ok u" and "\<And>a n bs. gs_read src a n = Some bs \<Longrightarrow> length bs = n"
    and "read_memory_region (Some (Some src)) u n off = Inr bs"
  shows "\<exists>start. start + length bs \<le> unat (mu_len u) \<and>
    (bs = [] \<or> gs_read src (mu_addr u + of_nat start) (length bs) = Some bs)"
proof (cases "bs = []")
  case False
  let ?start = "min off (mu_len u)"
  let ?want = "min (unat (mu_len u - ?start)) n"
  have r: "?want \<noteq> 0" "gs_read src (mu_addr u + ?start) ?want = Some bs"
    using assms(3) False by (auto simp: read_memory_region_def guest_byte_source_def Let_def split: if_splits option.splits)
  then have len: "length bs = ?want" using assms(2) by blast
  have "unat (mu_len u - ?start) = unat (mu_len u) - unat ?start" by (rule unat_sub_le) simp
  moreover have "unat ?start \<le> unat (mu_len u)" by (simp add: word_le_nat_alt [symmetric])
  ultimately have "unat ?start + length bs \<le> unat (mu_len u)" unfolding len by linarith
  moreover have "gs_read src (mu_addr u + of_nat (unat ?start)) (length bs) = Some bs" using r len by simp
  ultimately show ?thesis by blast
qed (intro exI [of _ 0], simp)

section \<open>Directories in pieces\<close>

fun getdents_run :: "int \<Rightarrow> nat list \<Rightarrow> 'h vfs \<Rightarrow> byte list list" where
  "getdents_run fd [] s = []"
| "getdents_run fd (n # ns) s =
     (case getdents fd n s of
        (Inl _, _) \<Rightarrow> []
      | (Inr (payload, _), s') \<Rightarrow> payload # getdents_run fd ns s')"

lemma blocks_split:
  assumes "record_tiles 0 ers" "512 * (i + m) \<le> sum_list (map snd ers)"
  shows "\<exists>a b c. ers = a @ b @ c \<and> sum_list (map snd a) = 512 * i \<and> sum_list (map snd b) = 512 * m"
proof -
  obtain ab c where ab: "ers = ab @ c" "sum_list (map snd ab) = 512 * (i + m)"
    using record_tiles_split [OF assms(1), of "i + m"] assms(2) by auto
  have "record_tiles 0 ab" using assms(1) ab(1) by (simp add: record_tiles_append)
  then obtain a b where a: "ab = a @ b" "sum_list (map snd a) = 512 * i"
    using record_tiles_split [of 0 ab i] ab(2) by auto
  then show ?thesis using ab by (intro exI [of _ a] exI [of _ b] exI [of _ c]) auto
qed

lemma piece_records:
  assumes t: "record_tiles 0 ers" and m: "512 * (i + m) \<le> length (records ers)"
  shows "walk_dirents (take (512 * m) (drop (512 * i) (records ers))) @ walk_dirents (drop (512 * (i + m)) (records ers))
    = walk_dirents (drop (512 * i) (records ers))"
proof -
  have ok: "\<forall>er\<in>set ers. record_ok er" by (rule record_tiles_ok [OF t])
  obtain a b c where e: "ers = a @ b @ c" "sum_list (map snd a) = 512 * i" "sum_list (map snd b) = 512 * m"
    using blocks_split [OF t] m length_records [OF ok] by metis
  have oks: "\<forall>er\<in>set a. record_ok er" "\<forall>er\<in>set b. record_ok er" "\<forall>er\<in>set c. record_ok er" using ok e(1) by auto
  have l: "length (records a) = 512 * i" "length (records b) = 512 * m"
    using length_records [OF oks(1)] length_records [OF oks(2)] e by auto
  have "drop (512 * i) (records ers) = records b @ records c" using l(1) e(1) by simp
  moreover have "drop (512 * (i + m)) (records ers) = records c"
    using l e(1) by (simp add: add_mult_distrib2)
  moreover have "take (512 * m) (records b @ records c) = records b" using l(2) by simp
  ultimately show ?thesis
    using walk_records [OF oks(2), of "records c"] walk_records [OF oks(2), of "[]"] by simp
qed

lemma getdents_step:
  assumes fl: "vf_open_files s fd = Some f" and bin: "of_dirents f = Some bin"
    and p: "unat (of_position f) = 512 * i" "512 * i \<le> length bin" and len: "length bin = 512 * tot"
    and small: "length bin \<le> ISIZE_MAX" and n: "512 \<le> n"
  defines "m \<equiv> min (tot - i) (n div 512)"
  shows "\<exists>s' f'. getdents fd n s = (Inr (take (512 * m) (drop (512 * i) bin), 512 * i), s') \<and>
    vf_open_files s' fd = Some f' \<and> of_dirents f' = Some bin \<and> unat (of_position f') = 512 * (i + m)"
proof (cases "length bin \<le> 512 * i")
  case True
  then have "m = 0" using len by (simp add: m_def)
  then show ?thesis using assms True by (simp add: getdents_def DIRENT_BLOCK_def)
next
  case False
  have k: "min (length bin - 512 * i) (n div 512 * 512) = 512 * m"
    using len by (simp add: m_def min_mult_distrib_left diff_mult_distrib2 mult.commute)
  have im: "512 * (i + m) \<le> length bin" using len p(2) by (simp add: m_def)
  have "unat (of_nat (512 * m) :: u64) = 512 * m" by (rule isize_word) (use im small in simp)
  then have "unat (of_position f + of_nat (512 * m)) = 512 * (i + m)"
    using im small p(1) by (subst unat_add_no_wrap) (simp_all add: ISIZE_MAX_def)
  then show ?thesis using False assms(1-3) n k
    by (simp add: getdents_def DIRENT_BLOCK_def Let_def advance_def)
qed

lemma getdents_run_walk:
  assumes "vf_open_files s fd = Some f" "of_dirents f = Some (records ers)" "record_tiles 0 ers"
    "unat (of_position f) = 512 * i" "512 * i \<le> length (records ers)" "length (records ers) = 512 * tot"
    "length (records ers) \<le> ISIZE_MAX" "\<forall>n\<in>set ns. 512 \<le> n"
  shows "\<exists>rest. concat (map walk_dirents (getdents_run fd ns s)) @ rest = walk_dirents (drop (512 * i) (records ers)) \<and>
    (tot \<le> i + sum_list (map (\<lambda>n. n div 512) ns) \<longrightarrow> rest = [])"
  using assms
proof (induction ns arbitrary: s f i)
  case Nil
  then show ?case by (cases "tot \<le> i") auto
next
  case (Cons n ns)
  let ?m = "min (tot - i) (n div 512)"
  have n: "512 \<le> n" using Cons.prems(8) by simp
  obtain s' f' where s': "getdents fd n s = (Inr (take (512 * ?m) (drop (512 * i) (records ers)), 512 * i), s')"
    "vf_open_files s' fd = Some f'" "of_dirents f' = Some (records ers)" "unat (of_position f') = 512 * (i + ?m)"
    using getdents_step [OF Cons.prems(1,2,4,5,6,7) n] by blast
  have im: "512 * (i + ?m) \<le> length (records ers)" using Cons.prems(5,6) by simp
  obtain rest where rest: "concat (map walk_dirents (getdents_run fd ns s')) @ rest
      = walk_dirents (drop (512 * (i + ?m)) (records ers))"
    "tot \<le> i + ?m + sum_list (map (\<lambda>n. n div 512) ns) \<Longrightarrow> rest = []"
    using Cons.IH [OF s'(2,3) Cons.prems(3) s'(4) im Cons.prems(6,7)] Cons.prems(8) by auto
  have "concat (map walk_dirents (getdents_run fd (n # ns) s)) @ rest
      = walk_dirents (take (512 * ?m) (drop (512 * i) (records ers))) @ walk_dirents (drop (512 * (i + ?m)) (records ers))"
    using rest(1) by (simp add: s'(1))
  also have "\<dots> = walk_dirents (drop (512 * i) (records ers))" by (rule piece_records [OF Cons.prems(3) im])
  finally show ?case using rest(2) by auto
qed

section \<open>The engine on the table\<close>

definition kernel_files :: "'h host_ops \<Rightarrow> 'h vfs vfs_ops" where
  "kernel_files H = \<lparr>vf_pread = vfs_pread H, vf_pwrite = vfs_pwrite\<rparr>"

lemma store_read_back: "take (length bs) (drop p (spec_store p bs d)) = bs"
  by (simp add: spec_store_def)

section \<open>Properties\<close>

text \<open>C36: A descriptor on a \<open>memory:\<close> pseudo-file serves only bytes of the guest
  range its name declared: whatever is read from it, sequentially or at an offset,
  was copied out of that range by the bound address space; and every write,
  positional write and truncation of it is refused as a permission error and
  changes nothing.\<close>

theorem guest_range_confined:
  assumes "vfs_reachable H s" and "vf_open_files s fd = Some f" and "of_memory_region f = Some u"
    and "vf_guest_bytes s = Some (Some src)" and "\<forall>a k bs. gs_read src a k = Some bs \<longrightarrow> length bs = k"
  shows "(\<forall>bs. fst (vfs_read H fd n s) = Inr bs \<or> fst (vfs_pread H fd n off s) = Inr bs \<longrightarrow>
      (\<exists>start. start + length bs \<le> unat (mu_len u) \<and>
        unat (mu_addr u) + unat (mu_len u) < 18446744073709551616 \<and>
        (bs = [] \<or> gs_read src (mu_addr u + of_nat start) (length bs) = Some bs))) \<and>
    vfs_write fd data s = Some (Inl PermissionDenied, s) \<and>
    vfs_pwrite fd data off s = Some (Inl PermissionDenied, s) \<and>
    vfs_ftruncate fd len s = Some (Inl PermissionDenied, s)"
proof -
  obtain k where "kind_ok f k" using table_okD [OF reachable_table_ok [OF assms(1)] assms(2)] by blast
  then have u: "uri_ok u" "of_dirents f = None" "\<not> of_random_device f"
    using assms(3) by (auto simp: kind_ok_def has_kind_def split: file_kind.splits)
  have "\<exists>start. start + length bs \<le> unat (mu_len u) \<and>
      unat (mu_addr u) + unat (mu_len u) < 18446744073709551616 \<and>
      (bs = [] \<or> gs_read src (mu_addr u + of_nat start) (length bs) = Some bs)"
    if r: "fst (vfs_read H fd n s) = Inr bs \<or> fst (vfs_pread H fd n off s) = Inr bs" for bs
  proof -
    obtain at where at: "read_memory_region (Some (Some src)) u n at = Inr bs"
      using r assms(2,3,4) u by (auto simp: vfs_read_def vfs_pread_def split: sum.splits)
    show ?thesis using read_region_bytes [OF u(1) assms(5) [rule_format] at] u(1) by (auto simp: uri_ok_def)
  qed
  then show ?thesis
    using assms(2,3) by (simp add: vfs_write_def vfs_pwrite_def vfs_ftruncate_def write_refused_def)
qed

text \<open>C37: A guest that reads a directory with any sequence of buffers of at least one
  block sees, record by record over all the payloads, a prefix of the entries in
  order, and all of them once the buffers have room for the whole listing.\<close>

theorem directory_read_in_pieces:
  assumes "vf_open_files s fd = Some f" and "of_dirents f = Some (pack_dirents es)" and "of_position f = 0"
    and "length (pack_dirents es) \<le> ISIZE_MAX" and "\<forall>n\<in>set ns. DIRENT_BLOCK \<le> n"
  shows "\<exists>rest. concat (map walk_dirents (getdents_run fd ns s)) @ rest = map listed es \<and>
    (length (pack_dirents es) \<le> DIRENT_BLOCK * sum_list (map (\<lambda>n. n div DIRENT_BLOCK) ns) \<longrightarrow> rest = [])"
proof -
  obtain ers where ers: "pack_dirents es = records ers" "record_tiles 0 ers" "length (records ers) mod 512 = 0"
    using pack_dirents_records [of es] by metis
  then obtain tot where tot: "length (records ers) = 512 * tot" by (auto simp: mod_eq_0_iff_dvd)
  obtain rest where "concat (map walk_dirents (getdents_run fd ns s)) @ rest = walk_dirents (records ers)"
    "tot \<le> sum_list (map (\<lambda>n. n div 512) ns) \<Longrightarrow> rest = []"
    using getdents_run_walk [of s fd f ers 0 tot ns] assms ers tot by (auto simp: DIRENT_BLOCK_def)
  then show ?thesis using walk_pack [of es] ers(1) tot by (auto simp: DIRENT_BLOCK_def)
qed

text \<open>On top of the descriptor table an asynchronous write that completes is
  visible to the next asynchronous read of the same range: performing the read
  completes with exactly the bytes written.\<close>

theorem aio_write_read_back:
  assumes "vfs_reachable H s" and "vf_open_files s fd = Some f"
    and "aio_perform (kernel_files H) (AioWrite fd off bs) s = Some (out, s')"
    and "fst (snd out) = AIO_STATE_COMPLETED" and "unat off + length bs \<le> ISIZE_MAX"
    and "unat n = length bs" and "n \<le> MAX_REQUEST_BYTES"
  shows "aio_perform (kernel_files H) (AioRead fd off n) s' =
    Some ((int (length bs), AIO_STATE_COMPLETED, Some bs), s')"
proof -
  obtain r where w: "vfs_pwrite fd bs off s = Some (Inr r, s')"
    using assms(3,4) by (auto simp: kernel_files_def split: option.splits prod.splits sum.splits)
  then have f: "of_writable f" using assms(2)
    by (auto simp: vfs_pwrite_def write_refused_def split: if_splits)
  obtain k where k: "kind_ok f k" using table_okD [OF reachable_table_ok [OF assms(1)] assms(2)] by blast
  note p = writable_plain [OF k f, unfolded plain_file_def]
  let ?d = "spec_store (unat off) bs (buffer f)"
  have "\<not> 18446744073709551616 \<le> unat off + length bs" using assms(5) by (simp add: ISIZE_MAX_def)
  then have s': "s' = set_file fd (f\<lparr>of_data := Some ?d, of_dirty := True\<rparr>) s"
    using w store_gap [OF assms(5), of "buffer f"] assms(2) p
    by (auto simp: vfs_pwrite_def write_refused_def Let_def bind_eq_Some_conv)
  have "vfs_pread H fd (length bs) off s' = (Inr bs, s')"
    using p by (simp add: vfs_pread_def s' buffered_take store_read_back)
  then show ?thesis using assms(6,7) by (simp add: kernel_files_def not_less)
qed


section \<open>Witnesses\<close>

definition demo_menu :: "unit vfs" where
  "demo_menu = snd (vfs_open (plain_host []) (memory_uri_text demo_uri) 0
     ((vfs_new (plain_host []) () [])\<lparr>vf_guest_bytes := Some (Some demo_source)\<rparr>))"

lemma demo_menu_facts:
  "vfs_reachable (plain_host []) demo_menu" "vf_guest_bytes demo_menu = Some (Some demo_source)"
  "\<exists>f. vf_open_files demo_menu 3 = Some f \<and> of_memory_region f = Some demo_uri \<and> of_position f = 0 \<and>
     of_dirents f = None \<and> \<not> of_random_device f"
proof -
  let ?s = "(vfs_new (plain_host []) () [])\<lparr>vf_guest_bytes := Some (Some demo_source)\<rparr>"
  have "vfs_step (plain_host []) ?s demo_menu" unfolding demo_menu_def by (rule step_open) simp
  then show "vfs_reachable (plain_host []) demo_menu"
    by (rule reach_vfs_step [OF reach_vfs_step [OF reach_vfs_new step_guest]])
  have c: "memory_claims (memory_uri_text demo_uri)"
    by (simp add: memory_uri_text_def memory_claims_text)
  have "parse_and_validate_memory_uri (Some (Some demo_source)) (memory_uri_text demo_uri) = Inr demo_uri"
    using demo_uri_parses
    by (simp add: parse_and_validate_memory_uri_def guest_byte_source_def demo_source_def)
  then show "vf_guest_bytes demo_menu = Some (Some demo_source)"
    "\<exists>f. vf_open_files demo_menu 3 = Some f \<and> of_memory_region f = Some demo_uri \<and> of_position f = 0 \<and>
     of_dirents f = None \<and> \<not> of_random_device f"
    by (simp_all add: demo_menu_def vfs_open_def c wants_write_def install_file_def fresh_file_def)
qed


theorem guest_range_confined_witness:
  "fst (vfs_read (plain_host []) 3 4 demo_menu) = Inr (replicate 4 7) \<and>
   (\<exists>start. start + 4 \<le> unat (mu_len demo_uri) \<and>
     gs_read demo_source (mu_addr demo_uri + of_nat start) 4 = Some (replicate 4 7)) \<and>
   vfs_pwrite 3 [1] 0 demo_menu = Some (Inl PermissionDenied, demo_menu)"
proof -
  obtain f where f: "vf_open_files demo_menu 3 = Some f" "of_memory_region f = Some demo_uri" "of_position f = 0"
    "of_dirents f = None" "\<not> of_random_device f" using demo_menu_facts(3) by blast
  have r: "fst (vfs_read (plain_host []) 3 4 demo_menu) = Inr (replicate 4 7)"
    using f demo_menu_facts(2)
    by (simp add: vfs_read_def read_memory_region_def demo_uri_def guest_byte_source_def demo_source_def
        Let_def)
  have l: "\<forall>a k bs. gs_read demo_source a k = Some bs \<longrightarrow> length bs = k"
    by (auto simp: demo_source_def)
  note t = guest_range_confined [OF demo_menu_facts(1) f(1,2) demo_menu_facts(2) l, where n = 4 and off = 0
      and data = "[1]"]
  from t [THEN conjunct1, rule_format, OF disjI1 [OF r]] t r show ?thesis by auto
qed

text \<open>The mount points as a directory: one of them, after the dot entries.\<close>

definition demo_listing :: "byte list option vfs" where
  "demo_listing = snd (vfs_open one_file_host root_text 0 demo_vfs_start)"

lemma demo_listing_file:
  "\<exists>f. vf_open_files demo_listing 3 = Some f \<and> of_position f = 0 \<and>
     of_dirents f = Some (pack_dirents (root_entries (vm_mounts demo_vfs_start)))"
proof -
  have p: "\<not> memory_claims root_text" "root_text \<noteq> ascii ''/dev/random''" "root_text \<noteq> ascii ''/dev/urandom''"
    by code_simp+
  show ?thesis
    by (simp add: demo_listing_def vfs_open_def p wants_write_def install_file_def fresh_file_def demo_vfs_start_def)
qed

theorem directory_read_in_pieces_witness:
  "map snd (concat (map walk_dirents (getdents_run 3 [512, 600] demo_listing)))
     = [ascii ''.'', ascii ''..'', ascii ''app0'']"
proof -
  obtain f where f: "vf_open_files demo_listing 3 = Some f" "of_position f = 0"
    "of_dirents f = Some (pack_dirents (root_entries (vm_mounts demo_vfs_start)))" using demo_listing_file by blast
  have l: "length (pack_dirents (root_entries (vm_mounts demo_vfs_start))) = 512" by code_simp
  have e: "map listed (root_entries (vm_mounts demo_vfs_start))
      = [(True, ascii ''.''), (True, ascii ''..''), (True, ascii ''app0'')]" by code_simp
  show ?thesis
    using directory_read_in_pieces [OF f(1,3,2), of "[512, 600]"] l e
    by (simp add: ISIZE_MAX_def DIRENT_BLOCK_def)
qed

theorem aio_write_read_back_witness:
  "\<exists>out s'. aio_perform (kernel_files one_file_host) (AioWrite 3 2 [5, 6]) demo_created = Some (out, s') \<and>
     aio_perform (kernel_files one_file_host) (AioRead 3 2 2) s' = Some ((2, AIO_STATE_COMPLETED, Some [5, 6]), s')"
proof -
  obtain f where f: "vf_open_files demo_created 3 = Some f" "of_writable f" "buffer f = []"
    using demo_created_file by blast
  obtain k where "kind_ok f k"
    using table_okD [OF reachable_table_ok [OF demo_created_reachable] f(1)] by blast
  then have p: "of_memory_region f = None" using f(2) by (auto simp: kind_ok_def has_kind_def)
  have "\<exists>s'. vfs_pwrite 3 [5, 6] 2 demo_created = Some (Inr 2, s')"
    using f p by (simp add: vfs_pwrite_def write_refused_def fill_gap_def store_range_def vec_grow_def
        vec_resize_def put_at_def ISIZE_MAX_def Let_def)
  then obtain s' where w: "aio_perform (kernel_files one_file_host) (AioWrite 3 2 [5, 6]) demo_created
      = Some ((2, AIO_STATE_COMPLETED, None), s')"
    by (auto simp: kernel_files_def)
  then show ?thesis
    using aio_write_read_back [OF demo_created_reachable f(1) w, of 2]
    by (simp add: ISIZE_MAX_def)
qed

end
