(* ===== verification/Kernel_Aio.thy ===== *)
theory Kernel_Aio
  imports Vfs_Streams Wait_Slices
begin

text \<open>
  The guest-facing calls of asynchronous file I/O
  (\<open>crates/raeen-hle/src/kernel_aio.rs\<close>): decoding and validating requests in guest
  memory, submission, waiting, polling, cancellation and deletion, and the delivery
  of completions into guest buffers.  The workers never touch guest memory; a
  completion is copied when a guest thread drains it.  Every access to the engine
  is one critical section, before which the other threads do what they like.
\<close>

section \<open>State and environment\<close>

record 'm aio_guest =
  ag_mem :: 'm
  ag_engine :: aio_inner
  ag_locks :: nat

text \<open>\<open>ae_validate start len write\<close> is \<open>validate_range\<close>; \<open>ae_others k\<close> is what the
  other threads do before the \<open>k\<close>-th acquisition of the engine lock.\<close>

record 'm aio_env = "'m mem_ops" +
  ae_validate :: "u64 \<Rightarrow> u64 \<Rightarrow> bool \<Rightarrow> 'm \<Rightarrow> bool"
  ae_others :: "nat \<Rightarrow> 'm \<times> aio_inner \<Rightarrow> 'm \<times> aio_inner"

definition locked ::
  "'m aio_env \<Rightarrow> (aio_inner \<Rightarrow> 'r \<times> aio_inner) \<Rightarrow> 'm aio_guest \<Rightarrow> 'r \<times> 'm aio_guest" where
  "locked E f s =
     (let (m, i) = ae_others E (ag_locks s) (ag_mem s, ag_engine s); (r, i') = f i in
      (r, \<lparr>ag_mem = m, ag_engine = i', ag_locks = Suc (ag_locks s)\<rparr>))"

definition stored :: "'m aio_env \<Rightarrow> u64 \<Rightarrow> byte list \<Rightarrow> 'm aio_guest \<Rightarrow> bool \<times> 'm aio_guest" where
  "stored E a bs s = (let (ok, m) = gm_write E a bs (ag_mem s) in (ok, s\<lparr>ag_mem := m\<rparr>))"

abbreviation RW_REQUEST_SIZE :: nat where "RW_REQUEST_SIZE \<equiv> 40"
abbreviation MAX_AIO_BATCH :: int where "MAX_AIO_BATCH \<equiv> 128"
abbreviation MAX_HLE_BULK_BYTES :: int where "MAX_HLE_BULK_BYTES \<equiv> 0x10000000"

section \<open>Requests\<close>

record rw_request =
  rw_offset :: int
  rw_nbyte :: int
  rw_buf :: u64
  rw_result :: u64
  rw_fd :: int

definition i64_at :: "nat \<Rightarrow> byte list \<Rightarrow> int" where
  "i64_at i bs = sint (le_word (take 8 (drop i bs)) :: u64)"

definition u64_at :: "nat \<Rightarrow> byte list \<Rightarrow> u64" where
  "u64_at i bs = le_word (take 8 (drop i bs))"

definition i32_at :: "nat \<Rightarrow> byte list \<Rightarrow> int" where
  "i32_at i bs = sint (le_word (take 4 (drop i bs)) :: u32)"

definition read_rw_request :: "'m aio_env \<Rightarrow> u64 \<Rightarrow> 'm \<Rightarrow> rw_request option" where
  "read_rw_request E a m = map_option
     (\<lambda>bs. \<lparr>rw_offset = i64_at 0 bs, rw_nbyte = i64_at 8 bs, rw_buf = u64_at 16 bs,
            rw_result = u64_at 24 bs, rw_fd = i32_at 32 bs\<rparr>)
     (gm_read E a RW_REQUEST_SIZE m)"

definition result_bytes :: "int \<Rightarrow> u32 \<Rightarrow> byte list" where
  "result_bytes return_value state =
     u64_bytes (word_of_int return_value) @ u32_bytes state @ replicate 4 0"

definition write_result :: "'m aio_env \<Rightarrow> u64 \<Rightarrow> int \<Rightarrow> u32 \<Rightarrow> 'm \<Rightarrow> bool \<times> 'm" where
  "write_result E a return_value state m = gm_write E a (result_bytes return_value state) m"

definition build_request ::
  "'m aio_env \<Rightarrow> u64 \<Rightarrow> bool \<Rightarrow> 'm \<Rightarrow> (u64 + aio_request) \<times> 'm" where
  "build_request E a is_read m =
     (case read_rw_request E a m of
        None \<Rightarrow> (Inl SCE_EFAULT, m)
      | Some rq \<Rightarrow>
          if rw_offset rq < 0 \<or> rw_nbyte rq < 0 \<or> MAX_HLE_BULK_BYTES < rw_nbyte rq then (Inl SCE_EINVAL, m)
          else let nbyte = word_of_int (rw_nbyte rq) :: u64; offset = word_of_int (rw_offset rq) :: u64 in
            if 0 < nbyte \<and> (checked_add (rw_buf rq) nbyte = None \<or>
                \<not> ae_validate E (rw_buf rq) nbyte is_read m) then (Inl SCE_EFAULT, m)
            else (case (if is_read then Some (AioRead (rw_fd rq) offset nbyte)
                        else map_option (AioWrite (rw_fd rq) offset) (gm_read E (rw_buf rq) (unat nbyte) m)) of
                None \<Rightarrow> (Inl SCE_EFAULT, m)
              | Some op \<Rightarrow>
                  let accepted = \<lparr>rq_op = op, rq_guest_buf = rw_buf rq, rq_guest_result = rw_result rq\<rparr>
                  in if rw_result rq = 0 then (Inr accepted, m)
                     else (case write_result E (rw_result rq) 0 AIO_STATE_SUBMITTED m of
                         (True, m') \<Rightarrow> (Inr accepted, m')
                       | (False, m') \<Rightarrow> (Inl SCE_EFAULT, m'))))"

text \<open>The loop of a submission: the first request that is refused ends it.\<close>

fun build_requests ::
  "'m aio_env \<Rightarrow> bool \<Rightarrow> u64 list \<Rightarrow> 'm \<Rightarrow> (u64 + aio_request list) \<times> 'm" where
  "build_requests E is_read [] m = (Inr [], m)"
| "build_requests E is_read (a # as) m =
     (case build_request E a is_read m of
        (Inl e, m1) \<Rightarrow> (Inl e, m1)
      | (Inr rq, m1) \<Rightarrow> apfst (map_sum id ((#) rq)) (build_requests E is_read as m1))"

definition request_addresses :: "u64 \<Rightarrow> int \<Rightarrow> u64 list" where
  "request_addresses req n = map (\<lambda>i. req + of_nat i * of_nat RW_REQUEST_SIZE) [0..<nat n]"

section \<open>Delivery\<close>

definition deliver_completion :: "'m aio_env \<Rightarrow> aio_completion \<Rightarrow> 'm \<Rightarrow> 'm" where
  "deliver_completion E c m =
     (let m1 = (case cp_data c of
            Some data \<Rightarrow> if data \<noteq> [] then snd (gm_write E (cp_guest_buf c) data m) else m
          | None \<Rightarrow> m)
      in if cp_guest_result c \<noteq> 0
         then snd (write_result E (cp_guest_result c) (cp_return_value c) (cp_state c) m1) else m1)"

definition deliver_completions :: "'m aio_env \<Rightarrow> aio_completion list \<Rightarrow> 'm \<Rightarrow> 'm" where
  "deliver_completions E cs m = fold (deliver_completion E) cs m"

definition drain_and_deliver :: "'m aio_env \<Rightarrow> int \<Rightarrow> 'm aio_guest \<Rightarrow> 'm aio_guest" where
  "drain_and_deliver E sid s =
     (let (cs, s1) = locked E (drain_completions sid) s in
      s1\<lparr>ag_mem := deliver_completions E cs (ag_mem s1)\<rparr>)"

section \<open>Submission\<close>

text \<open>\<open>delete\<close> takes the lock three times.\<close>

definition delete_request ::
  "'m aio_env \<Rightarrow> int \<Rightarrow> 'm aio_guest \<Rightarrow> (u32 \<times> aio_completion list) option \<times> 'm aio_guest" where
  "delete_request E sid s =
     locked E (aio_delete (\<lambda>i. snd (ae_others E (ag_locks s + 1) (ag_mem s, i)))
                          (\<lambda>i. snd (ae_others E (ag_locks s + 2) (ag_mem s, i))) sid) s"

definition bad_batch :: "int \<Rightarrow> bool" where
  "bad_batch n \<longleftrightarrow> n \<le> 0 \<or> MAX_AIO_BATCH < n"

definition submit_commands :: "'m aio_env \<Rightarrow> bool \<Rightarrow> u64 list \<Rightarrow> 'm aio_guest \<Rightarrow> u64 \<times> 'm aio_guest" where
  "submit_commands E is_read args s =
     (let req = arg args 0; n = as_i32 (arg args 1); id_out = arg args 3 in
      if req = 0 \<or> id_out = 0 then (SCE_EFAULT, s)
      else if bad_batch n then (SCE_EINVAL, s)
      else (case build_requests E is_read (request_addresses req n) (ag_mem s) of
          (Inl e, m) \<Rightarrow> (e, s\<lparr>ag_mem := m\<rparr>)
        | (Inr rqs, m) \<Rightarrow>
            let (sid, s1) = locked E (aio_submit rqs) (s\<lparr>ag_mem := m\<rparr>) in
            (case stored E id_out (u32_bytes (word_of_int sid)) s1 of
               (True, s2) \<Rightarrow> (SCE_OK, s2)
             | (False, s2) \<Rightarrow> (SCE_EFAULT, snd (delete_request E sid s2)))))"

fun submit_each :: "'m aio_env \<Rightarrow> bool \<Rightarrow> u64 list \<Rightarrow> u64 \<Rightarrow> 'm aio_guest \<Rightarrow> u64 \<times> 'm aio_guest" where
  "submit_each E is_read [] ids_out s = (SCE_OK, s)"
| "submit_each E is_read (a # as) ids_out s =
     (case build_request E a is_read (ag_mem s) of
        (Inl e, m) \<Rightarrow> (e, s\<lparr>ag_mem := m\<rparr>)
      | (Inr rq, m) \<Rightarrow>
          let (sid, s1) = locked E (aio_submit [rq]) (s\<lparr>ag_mem := m\<rparr>) in
          (case stored E ids_out (u32_bytes (word_of_int sid)) s1 of
             (True, s2) \<Rightarrow> submit_each E is_read as (ids_out + 4) s2
           | (False, s2) \<Rightarrow> (SCE_EFAULT, snd (delete_request E sid s2))))"

definition submit_commands_multiple ::
  "'m aio_env \<Rightarrow> bool \<Rightarrow> u64 list \<Rightarrow> 'm aio_guest \<Rightarrow> u64 \<times> 'm aio_guest" where
  "submit_commands_multiple E is_read args s =
     (let req = arg args 0; n = as_i32 (arg args 1); ids_out = arg args 3 in
      if req = 0 \<or> ids_out = 0 then (SCE_EFAULT, s)
      else if bad_batch n then (SCE_EINVAL, s)
      else submit_each E is_read (request_addresses req n) ids_out s)"

definition hle_submit_read_commands :: "'m aio_env \<Rightarrow> u64 list \<Rightarrow> 'm aio_guest \<Rightarrow> u64 \<times> 'm aio_guest" where
  "hle_submit_read_commands E = submit_commands E True"

definition hle_submit_write_commands :: "'m aio_env \<Rightarrow> u64 list \<Rightarrow> 'm aio_guest \<Rightarrow> u64 \<times> 'm aio_guest" where
  "hle_submit_write_commands E = submit_commands E False"

definition hle_submit_read_commands_multiple ::
  "'m aio_env \<Rightarrow> u64 list \<Rightarrow> 'm aio_guest \<Rightarrow> u64 \<times> 'm aio_guest" where
  "hle_submit_read_commands_multiple E = submit_commands_multiple E True"

definition hle_submit_write_commands_multiple ::
  "'m aio_env \<Rightarrow> u64 list \<Rightarrow> 'm aio_guest \<Rightarrow> u64 \<times> 'm aio_guest" where
  "hle_submit_write_commands_multiple E = submit_commands_multiple E False"


section \<open>Waiting\<close>

text \<open>One round of \<open>wait_terminal\<close>: the time is checked, then the engine waits for at
  most a slice, whose wake-ups are the turns of \<open>aio_wait\<close>.\<close>

record 'm wait_round = "'m aio_guest slice" +
  wr_turns :: "aio_turn list"

definition wait_round_turn ::
  "int \<Rightarrow> nat option \<Rightarrow> 'm wait_round \<Rightarrow> 'm aio_guest \<Rightarrow> (u64 + u32, 'm aio_guest) turn_result" where
  "wait_round_turn sid deadline t s =
     (if guest_deadline_reached deadline (sl_now t) then Returned (Inl SCE_ETIMEDOUT) s
      else (case aio_wait sid (wr_turns t) (ag_engine (sl_others t s)) of
          None \<Rightarrow> Still_parked
        | Some (r, i) \<Rightarrow>
            let s1 = (sl_others t s)\<lparr>ag_engine := i\<rparr> in
            (case r of
               Inr st \<Rightarrow> Returned (Inr st) s1
             | Inl AioUnknown \<Rightarrow> Returned (Inl SCE_ESRCH) s1
             | Inl (AioTimedOut _) \<Rightarrow>
                 if sl_terminating t then Returned (Inl SCE_ETIMEDOUT) s1 else Slice_over s1)))"

definition aio_deadline :: "u32 option \<Rightarrow> nat \<Rightarrow> nat option" where
  "aio_deadline usec now = (case usec of
     None \<Rightarrow> None | Some us \<Rightarrow> if 0 < us then Some (now + unat us * 1000) else None)"

text \<open>The time the wait begins, with the rounds that follow.\<close>

type_synonym 'm waiting = "nat \<times> 'm wait_round list"

definition wait_terminal ::
  "int \<Rightarrow> u32 option \<Rightarrow> 'm waiting \<Rightarrow> 'm aio_guest \<Rightarrow> ((u64 + u32) \<times> 'm aio_guest) option" where
  "wait_terminal sid usec w s = run_slices (wait_round_turn sid (aio_deadline usec (fst w))) (snd w) s"

text \<open>\<open>NULL\<close> waits for ever; the outer \<open>None\<close> is an unreadable pointer.\<close>

definition read_usec :: "'m aio_env \<Rightarrow> u64 \<Rightarrow> 'm \<Rightarrow> u32 option option" where
  "read_usec E usec_ptr m =
     (if usec_ptr = 0 then Some None
      else map_option (\<lambda>bs. Some (le_word bs)) (gm_read E usec_ptr 4 m))"

definition write_s32 :: "'m aio_env \<Rightarrow> u64 \<Rightarrow> int \<Rightarrow> 'm aio_guest \<Rightarrow> bool \<times> 'm aio_guest" where
  "write_s32 E a value s = stored E a (u32_bytes (word_of_int value)) s"

definition poll_now :: "'m aio_env \<Rightarrow> int \<Rightarrow> 'm aio_guest \<Rightarrow> u32 option \<times> 'm aio_guest" where
  "poll_now E sid s = locked E (\<lambda>i. (aio_poll sid i, i)) s"

definition state_or_processing :: "u32 option \<Rightarrow> u32" where
  "state_or_processing r = (case r of None \<Rightarrow> AIO_STATE_PROCESSING | Some st \<Rightarrow> st)"

definition hle_wait_request ::
  "'m aio_env \<Rightarrow> 'm waiting \<Rightarrow> u64 list \<Rightarrow> 'm aio_guest \<Rightarrow> (u64 \<times> 'm aio_guest) option" where
  "hle_wait_request E w args s =
     (let sid = as_i32 (arg args 0); state_out = arg args 1; usec_ptr = arg args 2 in
      if state_out = 0 then Some (SCE_EFAULT, s)
      else (case read_usec E usec_ptr (ag_mem s) of
          None \<Rightarrow> Some (SCE_EFAULT, s)
        | Some usec \<Rightarrow> (case wait_terminal sid usec w s of
            None \<Rightarrow> None
          | Some (Inr st, s1) \<Rightarrow>
              let (ok, s2) = write_s32 E state_out (uint st) (drain_and_deliver E sid s1) in
              Some (if ok then SCE_OK else SCE_EFAULT, s2)
          | Some (Inl e, s1) \<Rightarrow>
              if e = SCE_ETIMEDOUT then
                (let (st, s2) = poll_now E sid (drain_and_deliver E sid s1);
                     (ok, s3) = write_s32 E state_out (uint (state_or_processing st)) s2 in
                 Some (SCE_ETIMEDOUT, s3))
              else Some (e, s1))))"

fun read_ids :: "'m aio_env \<Rightarrow> u64 \<Rightarrow> nat \<Rightarrow> 'm \<Rightarrow> int list option" where
  "read_ids E a 0 m = Some []"
| "read_ids E a (Suc n) m = (case gm_read E a 4 m of
     None \<Rightarrow> None
   | Some bs \<Rightarrow> map_option ((#) (i32_at 0 bs)) (read_ids E (a + 4) n m))"

text \<open>The waits of \<open>sceKernelAioWaitRequests\<close>: each identifier has its own deadline.
  The flags are \<open>timed_out\<close> and \<open>any_terminal\<close>.\<close>

fun wait_each ::
  "u32 option \<Rightarrow> bool \<Rightarrow> int list \<Rightarrow> 'm waiting list \<Rightarrow> bool \<times> bool \<Rightarrow> 'm aio_guest
     \<Rightarrow> ((u64 + bool) \<times> 'm aio_guest) option" where
  "wait_each usec wait_any [] ws (timed_out, any) s = Some (Inr timed_out, s)"
| "wait_each usec wait_any (sid # ids) ws (timed_out, any) s =
     (if timed_out \<or> wait_any \<and> any then Some (Inr timed_out, s)
      else (case ws of
          [] \<Rightarrow> None
        | w # ws' \<Rightarrow> (case wait_terminal sid usec w s of
            None \<Rightarrow> None
          | Some (Inr _, s1) \<Rightarrow> wait_each usec wait_any ids ws' (timed_out, True) s1
          | Some (Inl e, s1) \<Rightarrow>
              if e = SCE_ETIMEDOUT then wait_each usec wait_any ids ws' (True, any) s1
              else Some (Inl e, s1))))"

fun report_each :: "'m aio_env \<Rightarrow> int list \<Rightarrow> u64 \<Rightarrow> 'm aio_guest \<Rightarrow> bool \<times> 'm aio_guest" where
  "report_each E [] states_ptr s = (True, s)"
| "report_each E (sid # ids) states_ptr s =
     (let (st, s1) = poll_now E sid (drain_and_deliver E sid s) in
      (case write_s32 E states_ptr (uint (state_or_processing st)) s1 of
         (True, s2) \<Rightarrow> report_each E ids (states_ptr + 4) s2
       | (False, s2) \<Rightarrow> (False, s2)))"

definition hle_wait_requests ::
  "'m aio_env \<Rightarrow> 'm waiting list \<Rightarrow> u64 list \<Rightarrow> 'm aio_guest \<Rightarrow> (u64 \<times> 'm aio_guest) option" where
  "hle_wait_requests E ws args s =
     (let ids_ptr = arg args 0; num = as_i32 (arg args 1); states_ptr = arg args 2;
          mode = arg args 3; usec_ptr = arg args 4 in
      if ids_ptr = 0 \<or> states_ptr = 0 then Some (SCE_EFAULT, s)
      else if bad_batch num then Some (SCE_EINVAL, s)
      else (case read_usec E usec_ptr (ag_mem s) of
          None \<Rightarrow> Some (SCE_EFAULT, s)
        | Some usec \<Rightarrow> (case read_ids E ids_ptr (nat num) (ag_mem s) of
            None \<Rightarrow> Some (SCE_EFAULT, s)
          | Some ids \<Rightarrow> (case wait_each usec (mode AND 2 \<noteq> 0) ids ws (False, False) s of
              None \<Rightarrow> None
            | Some (Inl e, s1) \<Rightarrow> Some (e, s1)
            | Some (Inr timed_out, s1) \<Rightarrow>
                let (ok, s2) = report_each E ids states_ptr s1 in
                Some (if \<not> ok then SCE_EFAULT else if timed_out then SCE_ETIMEDOUT else SCE_OK, s2)))))"

section \<open>Polling, cancelling, deleting\<close>

definition poll_one :: "'m aio_env \<Rightarrow> int \<Rightarrow> 'm aio_guest \<Rightarrow> (u64 + int) \<times> 'm aio_guest" where
  "poll_one E sid s =
     (case poll_now E sid s of
        (None, s1) \<Rightarrow> (Inl SCE_ESRCH, s1)
      | (Some st, s1) \<Rightarrow> (Inr (uint st), drain_and_deliver E sid s1))"

definition cancel_one :: "'m aio_env \<Rightarrow> int \<Rightarrow> 'm aio_guest \<Rightarrow> (u64 + int) \<times> 'm aio_guest" where
  "cancel_one E sid s =
     (if sid = 0 then (Inr (uint AIO_STATE_PROCESSING), s)
      else (case locked E (aio_cancel sid) s of
          (None, s1) \<Rightarrow> (Inl SCE_ESRCH, s1)
        | (Some st, s1) \<Rightarrow> (Inr (uint st), drain_and_deliver E sid s1)))"

definition delete_one :: "'m aio_env \<Rightarrow> int \<Rightarrow> 'm aio_guest \<Rightarrow> (u64 + int) \<times> 'm aio_guest" where
  "delete_one E sid s =
     (case delete_request E sid s of
        (None, s1) \<Rightarrow> (Inl SCE_ESRCH, s1)
      | (Some (st, cs), s1) \<Rightarrow> (Inr 0, s1\<lparr>ag_mem := deliver_completions E cs (ag_mem s1)\<rparr>))"

text \<open>The two shapes of these calls: one identifier with an output word, and an
  array of identifiers with an array of outputs.\<close>

type_synonym 'm id_call = "'m aio_env \<Rightarrow> int \<Rightarrow> 'm aio_guest \<Rightarrow> (u64 + int) \<times> 'm aio_guest"

definition single_call :: "'m id_call \<Rightarrow> 'm aio_env \<Rightarrow> u64 list \<Rightarrow> 'm aio_guest \<Rightarrow> u64 \<times> 'm aio_guest" where
  "single_call one E args s =
     (let sid = as_i32 (arg args 0); out = arg args 1 in
      if out = 0 then (SCE_EFAULT, s)
      else (case one E sid s of
          (Inl e, s1) \<Rightarrow> (e, s1)
        | (Inr v, s1) \<Rightarrow> (case write_s32 E out v s1 of
            (True, s2) \<Rightarrow> (SCE_OK, s2) | (False, s2) \<Rightarrow> (SCE_EFAULT, s2))))"

fun each_id :: "'m id_call \<Rightarrow> 'm aio_env \<Rightarrow> nat \<Rightarrow> u64 \<Rightarrow> u64 \<Rightarrow> 'm aio_guest \<Rightarrow> u64 \<times> 'm aio_guest" where
  "each_id one E 0 ids_ptr out_ptr s = (SCE_OK, s)"
| "each_id one E (Suc n) ids_ptr out_ptr s =
     (case gm_read E ids_ptr 4 (ag_mem s) of
        None \<Rightarrow> (SCE_EFAULT, s)
      | Some bs \<Rightarrow> (case one E (i32_at 0 bs) s of
          (Inl e, s1) \<Rightarrow> (e, s1)
        | (Inr v, s1) \<Rightarrow> (case write_s32 E out_ptr v s1 of
            (True, s2) \<Rightarrow> each_id one E n (ids_ptr + 4) (out_ptr + 4) s2
          | (False, s2) \<Rightarrow> (SCE_EFAULT, s2))))"

definition plural_call :: "'m id_call \<Rightarrow> 'm aio_env \<Rightarrow> u64 list \<Rightarrow> 'm aio_guest \<Rightarrow> u64 \<times> 'm aio_guest" where
  "plural_call one E args s =
     (let ids_ptr = arg args 0; num = as_i32 (arg args 1); out_ptr = arg args 2 in
      if ids_ptr = 0 \<or> out_ptr = 0 then (SCE_EFAULT, s)
      else if bad_batch num then (SCE_EINVAL, s)
      else each_id one E (nat num) ids_ptr out_ptr s)"

definition hle_poll_request :: "'m aio_env \<Rightarrow> u64 list \<Rightarrow> 'm aio_guest \<Rightarrow> u64 \<times> 'm aio_guest" where
  "hle_poll_request = single_call poll_one"

definition hle_poll_requests :: "'m aio_env \<Rightarrow> u64 list \<Rightarrow> 'm aio_guest \<Rightarrow> u64 \<times> 'm aio_guest" where
  "hle_poll_requests = plural_call poll_one"

definition hle_cancel_request :: "'m aio_env \<Rightarrow> u64 list \<Rightarrow> 'm aio_guest \<Rightarrow> u64 \<times> 'm aio_guest" where
  "hle_cancel_request = single_call cancel_one"

definition hle_cancel_requests :: "'m aio_env \<Rightarrow> u64 list \<Rightarrow> 'm aio_guest \<Rightarrow> u64 \<times> 'm aio_guest" where
  "hle_cancel_requests = plural_call cancel_one"

definition hle_delete_request :: "'m aio_env \<Rightarrow> u64 list \<Rightarrow> 'm aio_guest \<Rightarrow> u64 \<times> 'm aio_guest" where
  "hle_delete_request = single_call delete_one"

definition hle_delete_requests :: "'m aio_env \<Rightarrow> u64 list \<Rightarrow> 'm aio_guest \<Rightarrow> u64 \<times> 'm aio_guest" where
  "hle_delete_requests = plural_call delete_one"


section \<open>One request\<close>

lemma locked_quiet:
  assumes "\<And>k x. ae_others E k x = x"
  shows "locked E f s = (fst (f (ag_engine s)), s\<lparr>ag_engine := snd (f (ag_engine s)), ag_locks := Suc (ag_locks s)\<rparr>)"
  using assms by (cases s) (simp add: locked_def split_beta)

lemma stored_engine [simp]: "ag_engine (snd (stored E a bs s)) = ag_engine s"
  by (simp add: stored_def split_beta)

text \<open>A submission of one request on an empty queue, and what one turn of a worker
  makes of it.\<close>

definition one_submission :: "u32 \<Rightarrow> aio_slot \<Rightarrow> nat \<Rightarrow> aio_submission" where
  "one_submission st sl pending = \<lparr>sb_state = st, sb_slots = [sl], sb_pending = pending, sb_cancelled = False\<rparr>"

lemma submit_one:
  assumes "aio_submit [rq] i = (sid, i')"
  shows "sid = ai_next_id i" "ai_submissions i' sid = Some (one_submission AIO_STATE_SUBMITTED (new_slot rq) 1)"
    "ai_queue i' = ai_queue i @ [(sid, 0)]" "ai_shutdown i' = ai_shutdown i"
  using assms by (auto simp: aio_submit_def one_submission_def Let_def)

lemma cycle_one:
  assumes "ai_submissions i sid = Some (one_submission AIO_STATE_SUBMITTED (new_slot rq) 1)"
    and "ai_queue i = [(sid, 0)]" and "\<not> ai_shutdown i"
    and "aio_perform V (rq_op rq) fs = Some (out, fs')"
  obtains i' where "worker_cycle V (i, fs) = Some (i', fs')"
    "ai_submissions i' sid = Some (one_submission AIO_STATE_COMPLETED
       ((new_slot rq)\<lparr>so_op := None, so_outcome := Some out\<rparr>) 0)"
  using assms
  by (simp add: worker_cycle_def worker_take_def one_submission_def new_slot_def Let_def
      worker_finish_def finish_submission_def)

lemma drain_one:
  assumes "ai_submissions i sid = Some (one_submission AIO_STATE_COMPLETED
       ((new_slot rq)\<lparr>so_op := None, so_outcome := Some (rv, st, data)\<rparr>) 0)"
  shows "fst (drain_completions sid i) = [\<lparr>cp_index = 0, cp_return_value = rv, cp_state = st,
    cp_guest_buf = rq_guest_buf rq, cp_guest_result = rq_guest_result rq, cp_data = data\<rparr>]"
  using assms
  by (simp add: drain_completions_def one_submission_def slot_completions_def completion_of_def new_slot_def
      List.map_filter_simps)

text \<open>Memory that can be written whatever it holds.\<close>

definition writable_span :: "'m aio_env \<Rightarrow> ('m \<Rightarrow> bool) \<Rightarrow> u64 \<Rightarrow> nat \<Rightarrow> bool" where
  "writable_span E ok a n \<longleftrightarrow> (\<forall>m bs. ok m \<longrightarrow> length bs \<le> n \<longrightarrow> fst (gm_write E a bs m))"

lemma writable_write:
  assumes "guest_memory E ok" "writable_span E ok a n" "ok m" "length bs \<le> n"
  obtains m' where "gm_write E a bs m = (True, m')" "ok m'" "gm_read E a (length bs) m' = Some bs"
    "\<And>b k. disjoint_spans a (length bs) b k \<Longrightarrow> gm_read E b k m' = gm_read E b k m"
proof -
  obtain m' where m': "gm_write E a bs m = (True, m')"
    using assms(2-4) unfolding writable_span_def by (metis prod.collapse)
  then show ?thesis
    using that guest_memory.write_ok [OF assms(1,3)] guest_memory.read_back [OF assms(1,3)]
      guest_memory.read_other [OF assms(1,3)] by blast
qed

lemma build_read_request:
  assumes "read_rw_request E req m =
      Some \<lparr>rw_offset = sint off, rw_nbyte = sint n, rw_buf = buf, rw_result = res, rw_fd = fd\<rparr>"
    and "0 \<le> sint off" "0 \<le> sint n" "sint n \<le> MAX_HLE_BULK_BYTES"
    and "checked_add buf n \<noteq> None" "ae_validate E buf n True m"
    and "res \<noteq> 0" "write_result E res 0 AIO_STATE_SUBMITTED m = (True, m')"
  shows "build_request E req True m =
    (Inr \<lparr>rq_op = AioRead fd off n, rq_guest_buf = buf, rq_guest_result = res\<rparr>, m')"
  using assms by (simp add: build_request_def Let_def)

lemma build_write_request:
  assumes "read_rw_request E req m =
      Some \<lparr>rw_offset = sint off, rw_nbyte = sint n, rw_buf = buf, rw_result = res, rw_fd = fd\<rparr>"
    and "0 \<le> sint off" "0 \<le> sint n" "sint n \<le> MAX_HLE_BULK_BYTES"
    and "checked_add buf n \<noteq> None" "ae_validate E buf n False m"
    and "gm_read E buf (unat n) m = Some data"
    and "res \<noteq> 0" "write_result E res 0 AIO_STATE_SUBMITTED m = (True, m')"
  shows "build_request E req False m =
    (Inr \<lparr>rq_op = AioWrite fd off data, rq_guest_buf = buf, rq_guest_result = res\<rparr>, m')"
  using assms by (simp add: build_request_def Let_def)

lemma submit_commands_one:
  assumes quiet: "\<And>k x. ae_others E k x = x"
    and "req \<noteq> 0" "id_out \<noteq> 0" "build_request E req is_read (ag_mem s) = (Inr rq, m)"
    and "gm_write E id_out (u32_bytes (word_of_int (ai_next_id (ag_engine s)))) m = (True, m')"
  shows "submit_commands E is_read [req, 1, prio, id_out] s = (SCE_OK,
    s\<lparr>ag_mem := m', ag_engine := snd (aio_submit [rq] (ag_engine s)), ag_locks := Suc (ag_locks s)\<rparr>)"
proof -
  have c: "as_i32 1 = 1" "request_addresses req 1 = [req]" "\<not> bad_batch 1"
    by (simp_all add: as_i32_def request_addresses_def bad_batch_def)
  have f: "fst (aio_submit [rq] i) = ai_next_id i" for i by (simp add: aio_submit_def Let_def)
  show ?thesis using assms(2-5) c f
    by (cases s) (simp add: submit_commands_def locked_quiet [OF quiet] stored_def)
qed


lemma poll_request_one:
  assumes quiet: "\<And>k x. ae_others E k x = x"
    and "i32_range sid" "out \<noteq> 0"
    and "ai_submissions (ag_engine s) sid = Some (one_submission AIO_STATE_COMPLETED
       ((new_slot rq)\<lparr>so_op := None, so_outcome := Some (rv, st, data)\<rparr>) 0)"
    and "deliver_completion E \<lparr>cp_index = 0, cp_return_value = rv, cp_state = st,
       cp_guest_buf = rq_guest_buf rq, cp_guest_result = rq_guest_result rq, cp_data = data\<rparr> (ag_mem s) = m"
    and "gm_write E out (u32_bytes AIO_STATE_COMPLETED) m = (True, m')"
  shows "\<exists>s'. hle_poll_request E [i32_to_u64 sid, out] s = (SCE_OK, s') \<and> ag_mem s' = m'"
proof -
  have "aio_poll sid (ag_engine s) = Some AIO_STATE_COMPLETED"
    using assms(4) by (simp add: aio_poll_def one_submission_def)
  then show ?thesis using assms(2,3,5,6) drain_one [OF assms(4)]
    by (simp add: hle_poll_request_def single_call_def poll_one_def poll_now_def locked_quiet [OF quiet]
        drain_and_deliver_def deliver_completions_def write_s32_def stored_def)
qed


lemma small_request:
  assumes "0 \<le> sint (n :: u64)" "sint n \<le> MAX_HLE_BULK_BYTES"
  shows "\<not> MAX_REQUEST_BYTES < n"
proof -
  have "uint n = take_bit 64 (sint n)" by (simp add: uint_sint [of n])
  also have "\<dots> = sint n" using assms by (simp add: take_bit_int_eq_self)
  finally show ?thesis using assms(2) by (simp add: word_less_def)
qed

section \<open>Properties\<close>

text \<open>C38: An asynchronous read works end to end: the call submits the request decoded
  from guest memory and stores its identifier; one turn of a worker performs it on
  the descriptor table; and the next poll reports \<open>COMPLETED\<close> with the guest's buffer
  holding exactly what a synchronous positional read returns, and the guest's
  result structure its length.\<close>

theorem aio_read_end_to_end:
  assumes mem: "guest_memory E ok" "ok (ag_mem s)" and quiet: "\<And>k x. ae_others E k x = x"
    and eng: "ai_queue (ag_engine s) = []" "\<not> ai_shutdown (ag_engine s)" "i32_range (ai_next_id (ag_engine s))"
    and rq: "read_rw_request E req (ag_mem s) =
      Some \<lparr>rw_offset = sint off, rw_nbyte = sint n, rw_buf = buf, rw_result = res, rw_fd = fd\<rparr>"
    and num: "0 \<le> sint off" "0 \<le> sint n" "sint n \<le> MAX_HLE_BULK_BYTES"
    and range: "checked_add buf n \<noteq> None" "ae_validate E buf n True (ag_mem s)"
    and ptrs: "req \<noteq> 0" "id_out \<noteq> 0" "res \<noteq> 0" "out \<noteq> 0"
    and spans: "writable_span E ok buf (unat n)" "writable_span E ok res 16" "writable_span E ok id_out 4"
      "writable_span E ok out 4"
    and apart: "disjoint_spans res 16 buf (unat n)" "disjoint_spans out 4 buf (unat n)" "disjoint_spans out 4 res 16"
    and pread: "vfs_pread H fd (unat n) off fs = (Inr data, fs')" "length data \<le> unat n"
  shows "\<exists>sid s1 i s2.
    hle_submit_read_commands E [req, 1, prio, id_out] s = (SCE_OK, s1) \<and>
    gm_read E id_out 4 (ag_mem s1) = Some (u32_bytes (word_of_int sid)) \<and>
    worker_cycle (kernel_files H) (ag_engine s1, fs) = Some (i, fs') \<and>
    hle_poll_request E [i32_to_u64 sid, out] (s1\<lparr>ag_engine := i\<rparr>) = (SCE_OK, s2) \<and>
    gm_read E out 4 (ag_mem s2) = Some (u32_bytes AIO_STATE_COMPLETED) \<and>
    gm_read E res 16 (ag_mem s2) = Some (result_bytes (int (length data)) AIO_STATE_COMPLETED) \<and>
    (data \<noteq> [] \<longrightarrow> gm_read E buf (length data) (ag_mem s2) = Some data)"
proof -
  note wr = writable_write [OF mem(1)]
  have rlen: "length (result_bytes v st) = 16" for v st by (simp add: result_bytes_def)
  let ?sid = "ai_next_id (ag_engine s)"
  let ?rq = "\<lparr>rq_op = AioRead fd off n, rq_guest_buf = buf, rq_guest_result = res\<rparr>"
  obtain m1 where m1: "write_result E res 0 AIO_STATE_SUBMITTED (ag_mem s) = (True, m1)" "ok m1"
    using wr [OF spans(2) mem(2), of "result_bytes 0 AIO_STATE_SUBMITTED"] rlen
    by (metis write_result_def order_refl)
  have b: "build_request E req True (ag_mem s) = (Inr ?rq, m1)"
    by (rule build_read_request [OF rq num range ptrs(3) m1(1)])
  obtain m2 where m2: "gm_write E id_out (u32_bytes (word_of_int ?sid)) m1 = (True, m2)" "ok m2"
    "gm_read E id_out 4 m2 = Some (u32_bytes (word_of_int ?sid))"
    using wr [OF spans(3) m1(2), of "u32_bytes (word_of_int ?sid)"] by (metis length_le_bytes order_refl)
  define i1 where "i1 = snd (aio_submit [?rq] (ag_engine s))"
  define s1 where "s1 = s\<lparr>ag_mem := m2, ag_engine := i1, ag_locks := Suc (ag_locks s)\<rparr>"
  have s1: "hle_submit_read_commands E [req, 1, prio, id_out] s = (SCE_OK, s1)"
    using submit_commands_one [OF quiet ptrs(1,2) b m2(1), of prio]
    by (simp add: hle_submit_read_commands_def s1_def i1_def)
  have i1: "aio_submit [?rq] (ag_engine s) = (?sid, i1)" by (simp add: i1_def aio_submit_def Let_def)
  note sub = submit_one [OF i1]
  have perf: "aio_perform (kernel_files H) (rq_op ?rq) fs = Some ((int (length data), AIO_STATE_COMPLETED, Some data), fs')"
    using small_request [OF num(2,3)] pread(1) by (simp add: kernel_files_def)
  obtain i2 where i2: "worker_cycle (kernel_files H) (i1, fs) = Some (i2, fs')"
    "ai_submissions i2 ?sid = Some (one_submission AIO_STATE_COMPLETED ((new_slot ?rq)\<lparr>so_op := None,
       so_outcome := Some (int (length data), AIO_STATE_COMPLETED, Some data)\<rparr>) 0)"
    using cycle_one [OF sub(2) _ _ perf] sub(3,4) eng(1,2) by auto
  obtain mb where mb: "gm_write E buf data m2 = (True, mb)" "ok mb" "gm_read E buf (length data) mb = Some data"
    using wr [OF spans(1) m2(2) pread(2)] by metis
  obtain m3 where m3: "(if data \<noteq> [] then snd (gm_write E buf data m2) else m2) = m3" "ok m3"
    "data \<noteq> [] \<Longrightarrow> gm_read E buf (length data) m3 = Some data"
    using mb m2(2) by (cases "data = []") auto
  obtain m4 where m4: "write_result E res (int (length data)) AIO_STATE_COMPLETED m3 = (True, m4)" "ok m4"
    "gm_read E res 16 m4 = Some (result_bytes (int (length data)) AIO_STATE_COMPLETED)"
    "\<And>b k. disjoint_spans res 16 b k \<Longrightarrow> gm_read E b k m4 = gm_read E b k m3"
    using wr [OF spans(2) m3(2), of "result_bytes (int (length data)) AIO_STATE_COMPLETED"] rlen
    unfolding write_result_def by (metis order_refl)
  obtain m5 where m5: "gm_write E out (u32_bytes AIO_STATE_COMPLETED) m4 = (True, m5)"
    "gm_read E out 4 m5 = Some (u32_bytes AIO_STATE_COMPLETED)"
    "\<And>b k. disjoint_spans out 4 b k \<Longrightarrow> gm_read E b k m5 = gm_read E b k m4"
    using wr [OF spans(4) m4(2), of "u32_bytes AIO_STATE_COMPLETED"] by (metis length_le_bytes order_refl)
  have d: "deliver_completion E \<lparr>cp_index = 0, cp_return_value = int (length data), cp_state = AIO_STATE_COMPLETED,
      cp_guest_buf = rq_guest_buf ?rq, cp_guest_result = rq_guest_result ?rq, cp_data = Some data\<rparr> m2 = m4"
    using m3(1) m4(1) ptrs(3) by (cases "data = []") (auto simp: deliver_completion_def)
  have eng2: "ai_submissions (ag_engine (s1\<lparr>ag_engine := i2\<rparr>)) ?sid = Some (one_submission AIO_STATE_COMPLETED
       ((new_slot ?rq)\<lparr>so_op := None, so_outcome := Some (int (length data), AIO_STATE_COMPLETED, Some data)\<rparr>) 0)"
    using i2(2) by simp
  have mem1: "ag_mem s1 = m2" "ag_engine s1 = i1" by (simp_all add: s1_def)
  then have "ag_mem (s1\<lparr>ag_engine := i2\<rparr>) = m2" by simp
  note d' = d [folded this]
  obtain s2 where s2: "hle_poll_request E [i32_to_u64 ?sid, out] (s1\<lparr>ag_engine := i2\<rparr>) = (SCE_OK, s2)"
    "ag_mem s2 = m5"
    using poll_request_one [OF quiet eng(3) ptrs(4) eng2 d' m5(1)] by blast
  have k: "disjoint_spans res 16 buf (length data)" "disjoint_spans out 4 buf (length data)"
    using apart pread(2) by (auto simp: disjoint_spans_def)
  have "data \<noteq> [] \<longrightarrow> gm_read E buf (length data) m5 = Some data"
    using m3(3) m4(4) [OF k(1)] m5(3) [OF k(2)] by simp
  moreover have "gm_read E res 16 m5 = gm_read E res 16 m4" using m5(3) [OF apart(3)] .
  ultimately show ?thesis using s1 m2(3) i2(1) s2 m4(3) m5(2)
    by (intro exI [of _ ?sid] exI [of _ s1] exI [of _ i2] exI [of _ s2]) (simp add: mem1)
qed


text \<open>A flat memory of one page in which every range is valid, and a request in it.\<close>

definition flat_env :: "byte list aio_env" where
  "flat_env = \<lparr>gm_read = tm_read, gm_write = tm_write, ae_validate = (\<lambda>a n w m. True), ae_others = (\<lambda>k x. x)\<rparr>"

definition demo_raw :: "byte list" where
  "demo_raw = u64_bytes 1 @ u64_bytes 2 @ u64_bytes 0x500 @ u64_bytes 0x300 @ u32_bytes 3 @ replicate 4 0"

definition demo_page :: "byte list" where
  "demo_page = replicate 256 0 @ demo_raw @ replicate 3800 0"

definition demo_caller :: "byte list aio_guest" where
  "demo_caller = \<lparr>ag_mem = demo_page, ag_engine = aio_new, ag_locks = 0\<rparr>"

lemma length_tm_write: "tm_write a bs m = (b, m') \<Longrightarrow> length m' = length m"
  by (auto simp: tm_write_def Let_def split: if_splits)

lemma flat_memory: "guest_memory flat_env (\<lambda>m. length m = 4096)"
proof -
  have t: "gm_read flat_env = gm_read test_memory" "gm_write flat_env = gm_write test_memory"
    by (simp_all add: flat_env_def test_memory_def)
  show ?thesis
    using tm.read_length tm.write_refused tm.read_back tm.read_other length_tm_write
    unfolding guest_memory_def t by (auto simp: test_memory_def)
qed

lemma flat_writable: "unat a + n \<le> 4096 \<Longrightarrow> writable_span flat_env (\<lambda>m. length m = 4096) a n"
  by (auto simp: writable_span_def flat_env_def tm_write_def Let_def)

lemma demo_request_read:
  "read_rw_request flat_env 0x100 demo_page =
     Some \<lparr>rw_offset = sint (1 :: u64), rw_nbyte = sint (2 :: u64), rw_buf = 0x500, rw_result = 0x300, rw_fd = 3\<rparr>"
proof -
  have l: "length demo_raw = 40" by (simp add: demo_raw_def)
  then have "gm_read flat_env 0x100 40 demo_page = Some demo_raw"
    by (simp add: flat_env_def tm_read_def demo_page_def)
  moreover have "i64_at 0 demo_raw = 1" "i64_at 8 demo_raw = 2" "u64_at 16 demo_raw = 0x500"
    "u64_at 24 demo_raw = 0x300" "i32_at 32 demo_raw = 3"
    by (simp_all add: i64_at_def u64_at_def i32_at_def demo_raw_def)
  ultimately show ?thesis by (simp add: read_rw_request_def)
qed

theorem aio_read_end_to_end_witness:
  "\<exists>sid s1 i s2.
    hle_submit_read_commands flat_env [0x100, 1, 0, 0x800] demo_caller = (SCE_OK, s1) \<and>
    worker_cycle (kernel_files one_file_host) (ag_engine s1, demo_written) = Some (i, demo_written) \<and>
    hle_poll_request flat_env [i32_to_u64 sid, 0x900] (s1\<lparr>ag_engine := i\<rparr>) = (SCE_OK, s2) \<and>
    gm_read flat_env 0x500 2 (ag_mem s2) = Some [2, 3]"
proof -
  obtain f where f: "vf_open_files demo_written 3 = Some f" "of_data f = Some [1, 2, 3]" "of_memory_region f = None"
    "of_writable f" using demo_written_facts(2) by blast
  obtain k where "kind_ok f k"
    using table_okD [OF reachable_table_ok [OF demo_written_facts(1)] f(1)] by blast
  then have "plain_file f" using writable_plain f(4) by blast
  then have r: "vfs_pread one_file_host 3 2 1 demo_written = (Inr [2, 3], demo_written)"
    using f by (simp add: vfs_pread_def plain_file_def buffered_take)
  let ?ok = "\<lambda>m :: byte list. length m = 4096"
  have "length demo_page = 4096" by (simp add: demo_page_def demo_raw_def)
  then have "\<exists>sid s1 i s2.
    hle_submit_read_commands flat_env [0x100, 1, 0, 0x800] demo_caller = (SCE_OK, s1) \<and>
    gm_read flat_env 0x800 4 (ag_mem s1) = Some (u32_bytes (word_of_int sid)) \<and>
    worker_cycle (kernel_files one_file_host) (ag_engine s1, demo_written) = Some (i, demo_written) \<and>
    hle_poll_request flat_env [i32_to_u64 sid, 0x900] (s1\<lparr>ag_engine := i\<rparr>) = (SCE_OK, s2) \<and>
    gm_read flat_env 0x900 4 (ag_mem s2) = Some (u32_bytes AIO_STATE_COMPLETED) \<and>
    gm_read flat_env 0x300 16 (ag_mem s2) = Some (result_bytes (int (length [2, 3 :: byte])) AIO_STATE_COMPLETED) \<and>
    ([2, 3 :: byte] \<noteq> [] \<longrightarrow> gm_read flat_env 0x500 (length [2, 3 :: byte]) (ag_mem s2) = Some [2, 3])"
    using demo_request_read r flat_writable
    by (intro aio_read_end_to_end [OF flat_memory, where n = 2 and off = 1 and fd = 3])
      (simp_all add: demo_caller_def aio_new_def i32_range_def checked_add_def disjoint_spans_def flat_env_def)
  then show ?thesis by (auto simp: numeral_2_eq_2)
qed


section \<open>What a terminal answer promises\<close>

text \<open>No request of \<open>sid\<close> is still unfinished.\<close>

definition finished_sub :: "int \<Rightarrow> aio_inner \<Rightarrow> bool" where
  "finished_sub sid i \<longleftrightarrow> (\<forall>sb. ai_submissions i sid = Some sb \<longrightarrow> (\<forall>sl\<in>set (sb_slots sb). \<not> unfinished sl))"

lemma take_keeps_finished:
  assumes "worker_take i = (job, i')" "finished_sub sid i" shows "finished_sub sid i'"
proof (cases "ai_shutdown i")
  case False
  obtain q' subs' where t: "take_work (ai_queue i) (ai_submissions i) = (job, q', subs')"
    using assms(1) False by (cases "take_work (ai_queue i) (ai_submissions i)") (auto simp: worker_take_def)
  have i': "i' = i\<lparr>ai_queue := q', ai_submissions := subs'\<rparr>" using assms(1) False t by (simp add: worker_take_def)
  show ?thesis
  proof (cases job)
    case None
    then have "subs' = ai_submissions i" using take_work_split [OF t] by auto
    then show ?thesis using assms(2) i' by (simp add: finished_sub_def)
  next
    case (Some j)
    then obtain sid' ix op sb where sb: "ai_submissions i sid' = Some sb"
      "subs' = (ai_submissions i)(sid' \<mapsto> sb\<lparr>sb_state := AIO_STATE_PROCESSING,
          sb_slots := (sb_slots sb)[ix := (sb_slots sb ! ix)\<lparr>so_op := None\<rparr>]\<rparr>)"
      "so_op (sb_slots sb ! ix) = Some op"
      using take_work_split [OF t] by (cases j) auto
    show ?thesis
    proof (cases "sid = sid'")
      case True
      have f: "\<forall>sl\<in>set (sb_slots sb). \<not> unfinished sl" using assms(2) sb(1) True by (simp add: finished_sub_def)
      have "\<not> unfinished sl" if "sl \<in> set ((sb_slots sb)[ix := (sb_slots sb ! ix)\<lparr>so_op := None\<rparr>])" for sl
      proof (cases "ix < length (sb_slots sb)")
        case True
        then show ?thesis using f that set_update_subset_insert [of "sb_slots sb" ix] nth_mem [OF True]
          by (fastforce simp: unfinished_def)
      next
        case False
        then have "(sb_slots sb)[ix := (sb_slots sb ! ix)\<lparr>so_op := None\<rparr>] = sb_slots sb"
          by (simp add: list_update_beyond)
        then have "sl \<in> set (sb_slots sb)" using that by (simp only:)
        then show ?thesis using f by blast
      qed
      then show ?thesis using True i' sb(2) by (simp add: finished_sub_def)
    qed (use assms(2) i' sb(2) in \<open>simp add: finished_sub_def\<close>)
  qed
qed (use assms in \<open>simp add: worker_take_def\<close>)

lemma finish_keeps_finished:
  assumes "finished_sub sid i" shows "finished_sub sid (worker_finish sid' ix out i)"
proof (cases "ai_submissions i sid'")
  case (Some sb)
  have "\<not> unfinished sl" if "sl \<in> set ((sb_slots sb)[ix := (sb_slots sb ! ix)\<lparr>so_outcome := Some out\<rparr>])"
    "\<forall>sl\<in>set (sb_slots sb). \<not> unfinished sl" for sl
    using that set_update_subset_insert [of "sb_slots sb" ix] by (fastforce simp: unfinished_def)
  then show ?thesis using Some assms
    by (auto simp: worker_finish_def finished_sub_def finish_submission_def Let_def)
qed (use assms in \<open>simp add: worker_finish_def\<close>)

lemma cancel_slot_finished: "\<not> unfinished sl \<Longrightarrow> \<not> unfinished (cancel_slot sl)"
  by (auto simp: cancel_slot_def unfinished_def split: option.split)

lemma cancel_keeps_finished:
  "finished_sub sid i \<Longrightarrow> aio_cancel sid' i = (r, i') \<Longrightarrow> finished_sub sid i'"
  by (auto simp: aio_cancel_def finished_sub_def cancel_submission_def Let_def cancel_slot_finished
      split: option.splits if_splits)

lemma step_keeps_finished:
  assumes "aio_step V S S'" "finished_sub sid (sy_inner S)" "sid < ai_next_id (sy_inner S)"
  shows "finished_sub sid (sy_inner S') \<and> sid < ai_next_id (sy_inner S')"
  using assms
proof (induction rule: aio_step.induct)
  case (step_submit S rqs sid' s')
  then show ?case by (auto simp: aio_submit_def finished_sub_def Let_def)
next
  case (step_take S job s')
  then show ?case using take_keeps_finished [of "sy_inner S" "Some job" s' sid]
    by (auto simp: worker_take_def Let_def split: if_splits prod.splits)
next
  case (step_drop S s')
  then show ?case using take_keeps_finished [of "sy_inner S" None s' sid]
    by (auto simp: worker_take_def Let_def split: if_splits prod.splits)
next
  case (step_finish sid' ix op S out fs')
  then show ?case using finish_keeps_finished by simp
next
  case (step_cancel sid' S r s')
  then show ?case using cancel_keeps_finished [of sid "sy_inner S" sid' r s']
    by (auto simp: aio_cancel_def Let_def split: option.splits if_splits)
next
  case (step_drain sid' S cs s')
  then show ?case by (auto simp: drain_completions_def finished_sub_def split: option.splits if_splits)
next
  case (step_remove sid' S r s')
  then show ?case by (auto simp: aio_remove_def finished_sub_def Let_def split: option.splits if_splits)
next
  case (step_other_io S fs')
  then show ?case by simp
qed

lemma steps_keep_finished:
  assumes "(aio_step V)\<^sup>*\<^sup>* S S'" "finished_sub sid (sy_inner S)" "sid < ai_next_id (sy_inner S)"
  shows "finished_sub sid (sy_inner S')"
proof -
  have "finished_sub sid (sy_inner S') \<and> sid < ai_next_id (sy_inner S')"
    using assms by (induction rule: rtranclp_induct) (use step_keeps_finished in blast)+
  then show ?thesis by simp
qed


lemma drain_drains:
  assumes "finished_sub sid i" "ai_submissions (snd (drain_completions sid i)) sid = Some sb" "sl \<in> set (sb_slots sb)"
  shows "so_drained sl"
proof -
  obtain sb0 where sb0: "ai_submissions i sid = Some sb0" "sb_slots sb = map drained_slot (sb_slots sb0)"
    using assms(2) by (auto simp: drain_completions_def split: option.splits)
  then obtain sl0 where "sl0 \<in> set (sb_slots sb0)" "sl = drained_slot sl0" using assms(3) by auto
  then show ?thesis using assms(1) sb0(1) by (auto simp: finished_sub_def unfinished_def drained_slot_def)
qed

lemma deliver_completions_ok:
  assumes "guest_memory E ok"
  shows "ok m \<Longrightarrow> ok (deliver_completions E cs m)"
proof -
  note w = guest_memory.write_keeps_ok [OF assms]
  have d: "ok (deliver_completion E c m)" if "ok m" for c m
    using that w by (auto simp: deliver_completion_def write_result_def Let_def split: option.splits)
  show "ok m \<Longrightarrow> ok (deliver_completions E cs m)"
    unfolding deliver_completions_def by (induction cs arbitrary: m) (simp_all add: d)
qed

lemma u32_bytes_inj: "u32_bytes x = u32_bytes y \<Longrightarrow> x = y"
  using u32_bytes_inverse by metis

text \<open>What a successful poll did: the state it found is the state it stored.\<close>

lemma poll_request_stored:
  assumes mem: "guest_memory E ok" "ok m2" and sid: "i32_range sid"
    and first: "ae_others E (ag_locks s) (ag_mem s, ag_engine s) = (m1, i1)"
    and second: "ae_others E (Suc (ag_locks s)) (m1, i1) = (m2, i2)"
    and call: "hle_poll_request E [i32_to_u64 sid, out] s = (SCE_OK, s')"
  obtains st where "aio_poll sid i1 = Some st" "gm_read E out 4 (ag_mem s') = Some (u32_bytes st)"
    "ag_engine s' = snd (drain_completions sid i2)"
proof -
  define s1 where "s1 = \<lparr>ag_mem = m1, ag_engine = i1, ag_locks = Suc (ag_locks s)\<rparr>"
  have now: "poll_now E sid s = (aio_poll sid i1, s1)"
    using first by (simp add: poll_now_def locked_def s1_def)
  obtain st where st: "aio_poll sid i1 = Some st"
    using call sid now
    by (cases "aio_poll sid i1") (auto simp: hle_poll_request_def single_call_def poll_one_def split: if_splits)
  define s2 where "s2 = drain_and_deliver E sid s1"
  have s2: "ag_engine s2 = snd (drain_completions sid i2)"
    "ag_mem s2 = deliver_completions E (fst (drain_completions sid i2)) m2"
    using second by (simp_all add: s2_def s1_def drain_and_deliver_def locked_def split_beta)
  have "ok (ag_mem s2)" unfolding s2(2) by (rule deliver_completions_ok [OF mem])
  moreover obtain m3 where w: "gm_write E out (u32_bytes st) (ag_mem s2) = (True, m3)" "s' = s2\<lparr>ag_mem := m3\<rparr>"
    using call sid now st
    by (auto simp: hle_poll_request_def single_call_def poll_one_def s2_def [symmetric] write_s32_def stored_def
        split: if_splits prod.splits bool.splits)
  ultimately have "gm_read E out 4 m3 = Some (u32_bytes st)"
    using guest_memory.read_back [OF mem(1)] by fastforce
  then show ?thesis using that [OF st] w(2) s2(1) by simp
qed

text \<open>C39: When a poll reports a terminal state, nothing of that submission is left
  behind: if the word the call stores for the guest is \<open>COMPLETED\<close> or \<open>ABORTED\<close>, that
  was the state of the submission when the call looked, and whatever the workers and
  the other guest threads do between the look and the drain, every request of the
  submission has been handed to a guest thread by the time the call returns, or the
  submission is gone.\<close>

theorem aio_poll_terminal_delivered:
  assumes "guest_memory E ok" and "ok m2" and "aio_reachable V S" and "(aio_step V)\<^sup>*\<^sup>* S S'"
    and "sid < ai_next_id (sy_inner S)" and "i32_range sid"
    and "ae_others E (ag_locks s) (ag_mem s, ag_engine s) = (m1, sy_inner S)"
    and "ae_others E (Suc (ag_locks s)) (m1, sy_inner S) = (m2, sy_inner S')"
    and "hle_poll_request E [i32_to_u64 sid, out] s = (SCE_OK, s')"
    and "gm_read E out 4 (ag_mem s') = Some (u32_bytes st)" and "aio_terminal st"
  shows "aio_poll sid (sy_inner S) = Some st \<and>
    (\<forall>sb sl. ai_submissions (ag_engine s') sid = Some sb \<and> sl \<in> set (sb_slots sb) \<longrightarrow> so_drained sl)"
proof -
  obtain st' where p: "aio_poll sid (sy_inner S) = Some st'" "gm_read E out 4 (ag_mem s') = Some (u32_bytes st')"
    "ag_engine s' = snd (drain_completions sid (sy_inner S'))"
    by (rule poll_request_stored [OF assms(1,2,6-9)])
  have poll: "aio_poll sid (sy_inner S) = Some st" using p(1,2) assms(10) u32_bytes_inj [of st' st] by simp
  have fin: "finished_sub sid (sy_inner S)"
    unfolding finished_sub_def
  proof (intro allI impI)
    fix sb assume sb: "ai_submissions (sy_inner S) sid = Some sb"
    then show "\<forall>sl\<in>set (sb_slots sb). \<not> unfinished sl"
      using reachable_inv [OF assms(3)] poll assms(11)
      by (auto simp: aio_inv_def submissions_ok_def sub_ok_def aio_poll_def filter_empty_conv)
  qed
  have "finished_sub sid (sy_inner S')" by (rule steps_keep_finished [OF assms(4) fin assms(5)])
  then show ?thesis using poll drain_drains p(3) by simp
qed


lemma demo_finished_engine:
  "ai_submissions (sy_inner demo_finished) 1 = Some (one_submission AIO_STATE_COMPLETED
     ((new_slot demo_request)\<lparr>so_op := None, so_outcome := Some (4, AIO_STATE_COMPLETED, Some [1, 1, 1, 1])\<rparr>) 0)"
  "ai_next_id (sy_inner demo_finished) = 2"
  by (simp_all add: demo_finished_def demo_taken_def demo_submitted_def worker_take_def aio_start_def
      aio_submit_def aio_new_def one_submission_def worker_finish_def finish_submission_def new_slot_def
      demo_request_def Let_def)

theorem aio_poll_terminal_delivered_witness:
  "\<exists>s' sb. hle_poll_request flat_env [i32_to_u64 1, 0x900]
      \<lparr>ag_mem = demo_page, ag_engine = sy_inner demo_finished, ag_locks = 0\<rparr> = (SCE_OK, s') \<and>
    gm_read flat_env 0x900 4 (ag_mem s') = Some (u32_bytes AIO_STATE_COMPLETED) \<and>
    ai_submissions (ag_engine s') 1 = Some sb \<and> sb_slots sb \<noteq> [] \<and> (\<forall>sl\<in>set (sb_slots sb). so_drained sl)"
proof -
  let ?s = "\<lparr>ag_mem = demo_page, ag_engine = sy_inner demo_finished, ag_locks = 0\<rparr>"
  have quiet: "\<And>k x. ae_others flat_env k x = x" by (simp add: flat_env_def)
  note eng = demo_finished_engine(1)
  have poll: "aio_poll 1 (sy_inner demo_finished) = Some AIO_STATE_COMPLETED"
    using eng by (simp add: aio_poll_def one_submission_def)
  define m where "m = deliver_completion flat_env \<lparr>cp_index = 0, cp_return_value = 4, cp_state = AIO_STATE_COMPLETED,
      cp_guest_buf = rq_guest_buf demo_request, cp_guest_result = rq_guest_result demo_request,
      cp_data = Some [1, 1, 1, 1]\<rparr> demo_page"
  have l: "length demo_page = 4096" by (simp add: demo_page_def demo_raw_def)
  then have "length m = 4096"
    by (simp add: m_def deliver_completion_def write_result_def flat_env_def demo_request_def tm_write_def
        result_bytes_def Let_def)
  then obtain m' where w: "gm_write flat_env 0x900 (u32_bytes AIO_STATE_COMPLETED) m = (True, m')"
    by (simp add: flat_env_def tm_write_def Let_def)
  obtain s' where s': "hle_poll_request flat_env [i32_to_u64 1, 0x900] ?s = (SCE_OK, s')"
    using poll_request_one [OF quiet, where sid = 1 and out = "0x900" and s = ?s and rq = demo_request and rv = 4
      and st = AIO_STATE_COMPLETED and data = "Some [1, 1, 1, 1]" and m = m and m' = m']
      eng w m_def by (auto simp: i32_range_def)
  have sid: "i32_range 1" by (simp add: i32_range_def)
  obtain st where st: "aio_poll 1 (sy_inner demo_finished) = Some st"
    "gm_read flat_env 0x900 4 (ag_mem s') = Some (u32_bytes st)"
    "ag_engine s' = snd (drain_completions 1 (sy_inner demo_finished))"
    by (rule poll_request_stored [OF flat_memory l sid _ _ s', where ?m1.0 = demo_page and ?i1.0 = "sy_inner demo_finished"
          and ?i2.0 = "sy_inner demo_finished"]) (simp_all add: quiet)
  then obtain sb where sb: "ai_submissions (ag_engine s') 1 = Some sb" "sb_slots sb \<noteq> []"
    using eng by (simp add: drain_completions_def one_submission_def)
  have c: "gm_read flat_env 0x900 4 (ag_mem s') = Some (u32_bytes AIO_STATE_COMPLETED)" using st(1,2) poll by simp
  have "\<forall>sl\<in>set (sb_slots sb). so_drained sl"
    using aio_poll_terminal_delivered [OF flat_memory l demo_finished_reachable rtranclp.rtrancl_refl _ sid _ _ s' c]
      demo_finished_engine(2) quiet sb(1) by simp
  then show ?thesis using s' sb c by blast
qed

text \<open>The report of \<open>sceKernelAioWaitRequests\<close> drains before it polls: a request
  that finishes in between is reported \<open>COMPLETED\<close> although its buffer has not been
  filled.\<close>

definition late_env :: "byte list aio_env" where
  "late_env = flat_env\<lparr>ae_others := \<lambda>k (m, i). if k = 1
     then (m, worker_finish 1 0 (4, AIO_STATE_COMPLETED, Some [1, 1, 1, 1]) i) else (m, i)\<rparr>"

lemma wait_requests_reports_undelivered:
  "case report_each late_env [1] 0x900 \<lparr>ag_mem = demo_page, ag_engine = sy_inner demo_taken, ag_locks = 0\<rparr> of
     (ok, s') \<Rightarrow> ok \<and> gm_read late_env 0x900 4 (ag_mem s') = Some (u32_bytes AIO_STATE_COMPLETED) \<and>
       gm_read late_env (rq_guest_buf demo_request) 4 (ag_mem s') = gm_read late_env (rq_guest_buf demo_request) 4 demo_page"
proof -
  have d: "fst (drain_completions 1 (sy_inner demo_taken)) = []"
    "aio_poll 1 (worker_finish 1 0 (4, AIO_STATE_COMPLETED, Some [1, 1, 1, 1]) (snd (drain_completions 1 (sy_inner demo_taken))))
     = Some AIO_STATE_COMPLETED"
    by (simp_all add: demo_taken_def demo_submitted_def worker_take_def aio_start_def aio_submit_def aio_new_def
        drain_completions_def slot_completions_def completion_of_def new_slot_def List.map_filter_simps
        drained_slot_def worker_finish_def finish_submission_def aio_poll_def Let_def)
  have "length demo_page = 4096" by (simp add: demo_page_def demo_raw_def)
  moreover have "take 4 (drop 256 (take 2304 demo_page)) = take 4 (drop 256 demo_page)"
    by (simp add: drop_take)
  ultimately show ?thesis using d
    by (simp add: drain_and_deliver_def locked_def late_env_def flat_env_def poll_now_def deliver_completions_def
        split_beta state_or_processing_def write_s32_def stored_def tm_write_def tm_read_def demo_request_def Let_def)
qed


section \<open>What reaches the engine\<close>

text \<open>The bounds of an accepted request, which the workers and the descriptor table
  rely on.\<close>

fun op_bounded :: "bool \<Rightarrow> aio_op \<Rightarrow> bool" where
  "op_bounded is_read (AioRead fd off n) \<longleftrightarrow>
     is_read \<and> unat off < 9223372036854775808 \<and> n \<le> MAX_REQUEST_BYTES"
| "op_bounded is_read (AioWrite fd off data) \<longleftrightarrow>
     \<not> is_read \<and> unat off < 9223372036854775808 \<and> length data \<le> 268435456"

lemma nonneg_word:
  assumes "0 \<le> x" "x < 9223372036854775808"
  shows "unat (word_of_int x :: u64) = nat x"
proof -
  have "uint (word_of_int x :: u64) = x" using assms by (simp add: unsigned_of_int take_bit_int_eq_self)
  then show ?thesis by (metis nat_uint_eq)
qed

lemma build_request_bounded:
  assumes "guest_memory E ok" "ok m" "build_request E a is_read m = (Inr rq, m')"
  shows "op_bounded is_read (rq_op rq) \<and> ok m'"
proof -
  obtain r where r: "read_rw_request E a m = Some r" "0 \<le> rw_offset r" "0 \<le> rw_nbyte r" "rw_nbyte r \<le> MAX_HLE_BULK_BYTES"
    using assms(3) by (auto simp: build_request_def not_less split: option.splits if_splits)
  have "rw_offset r < 9223372036854775808"
    using r(1) sint_lt [of "le_word (take 8 (drop 0 _)) :: u64"] by (auto simp: read_rw_request_def i64_at_def)
  then have o': "unat (word_of_int (rw_offset r) :: u64) < 9223372036854775808"
    using r(2) nonneg_word by simp
  have n: "unat (word_of_int (rw_nbyte r) :: u64) \<le> 268435456" using r(3,4) nonneg_word by simp
  then have n': "(word_of_int (rw_nbyte r) :: u64) \<le> MAX_REQUEST_BYTES" by (simp add: word_le_nat_alt)
  have l: "length bs \<le> 268435456" if "gm_read E b (unat (word_of_int (rw_nbyte r) :: u64)) m = Some bs" for b bs
    using guest_memory.read_length [OF assms(1,2) that] n by simp
  show ?thesis
    using assms(3) r o' n' l guest_memory.write_ok [OF assms(1,2)] assms(2)
    by (auto simp: build_request_def Let_def write_result_def split: if_splits option.splits prod.splits bool.splits)
qed

lemma build_requests_bounded:
  assumes "guest_memory E ok"
  shows "ok m \<Longrightarrow> build_requests E is_read as m = (Inr rqs, m') \<Longrightarrow>
    length rqs = length as \<and> (\<forall>rq\<in>set rqs. op_bounded is_read (rq_op rq))"
proof (induction as arbitrary: m rqs)
  case (Cons a as)
  obtain rq m1 where b: "build_request E a is_read m = (Inr rq, m1)"
    using Cons.prems(2) by (auto split: sum.splits prod.splits)
  obtain rest where rest: "build_requests E is_read as m1 = (Inr rest, m')" "rqs = rq # rest"
    using Cons.prems(2) b
    by (cases "build_requests E is_read as m1"; cases "fst (build_requests E is_read as m1)") auto
  then show ?case using Cons.IH [OF _ rest(1)] build_request_bounded [OF assms Cons.prems(1) b] by auto
qed simp

lemma build_request_error: "build_request E a is_read m = (Inl e, m') \<Longrightarrow> e \<noteq> SCE_OK"
  by (auto simp: build_request_def Let_def split: option.splits if_splits prod.splits bool.splits)

lemma build_requests_error: "build_requests E is_read as m = (Inl e, m') \<Longrightarrow> e \<noteq> SCE_OK"
proof (induction as arbitrary: m)
  case (Cons a as)
  obtain r m1 where r: "build_request E a is_read m = (r, m1)" by (cases "build_request E a is_read m")
  obtain rs m2 where rs: "build_requests E is_read as m1 = (rs, m2)" by (cases "build_requests E is_read as m1")
  show ?case
  proof (cases r)
    case (Inl x)
    then show ?thesis using Cons.prems r build_request_error [of E a is_read m x m1] by auto
  next
    case (Inr rq)
    then have "rs = Inl e" "m2 = m'" using Cons.prems r rs by (cases rs; auto)+
    then show ?thesis using Cons.IH [of m1] rs by simp
  qed
qed simp

lemma build_requests_ok:
  assumes "guest_memory E ok"
  shows "ok m \<Longrightarrow> build_requests E is_read as m = (Inr rqs, m') \<Longrightarrow> ok m'"
proof (induction as arbitrary: m rqs)
  case (Cons a as)
  obtain rq m1 where b: "build_request E a is_read m = (Inr rq, m1)"
    using Cons.prems(2) by (auto split: sum.splits prod.splits)
  obtain rest where rest: "build_requests E is_read as m1 = (Inr rest, m')" "rqs = rq # rest"
    using Cons.prems(2) b
    by (cases "build_requests E is_read as m1"; cases "fst (build_requests E is_read as m1)") auto
  show ?case by (rule Cons.IH [OF _ rest(1)]) (use build_request_bounded [OF assms Cons.prems(1) b] in blast)
qed simp

lemma delete_request_others:
  assumes quiet: "\<And>k x. ae_others E k x = x" and "sid' \<noteq> sid"
  shows "ai_submissions (ag_engine (snd (delete_request E sid s))) sid' = ai_submissions (ag_engine s) sid'"
proof -
  have c: "ai_submissions (snd (aio_cancel sid i)) sid' = ai_submissions i sid'" for i
    using assms(2) by (auto simp: aio_cancel_def Let_def split: option.splits)
  have d: "ai_submissions (snd (drain_completions sid i)) sid' = ai_submissions i sid'" for i
    using assms(2) by (auto simp: drain_completions_def split: option.splits)
  have m: "ai_submissions (snd (aio_remove sid i)) sid' = ai_submissions i sid'" for i
    using assms(2) by (auto simp: aio_remove_def Let_def split: option.splits)
  have "ai_submissions (snd (aio_delete (\<lambda>i. i) (\<lambda>i. i) sid i)) sid' = ai_submissions i sid'" for i
    using c [of i] d m by (auto simp: aio_delete_def split_beta split: prod.splits option.splits)
  then show ?thesis by (simp add: delete_request_def locked_quiet [OF quiet] quiet)
qed

lemma delete_request_own:
  assumes quiet: "\<And>k x. ae_others E k x = x"
  shows "ai_submissions (ag_engine (snd (delete_request E sid s))) sid = None"
proof -
  have m: "ai_submissions (snd (aio_remove sid i)) sid = None" for i
    by (auto simp: aio_remove_def Let_def split: option.splits)
  have c: "fst (aio_cancel sid i) = None \<Longrightarrow> ai_submissions (snd (aio_cancel sid i)) sid = None" for i
    by (auto simp: aio_cancel_def Let_def split: option.splits if_splits)
  have "ai_submissions (snd (aio_delete (\<lambda>i. i) (\<lambda>i. i) sid i)) sid = None" for i
    using c [of i] m by (auto simp: aio_delete_def split_beta split: prod.splits option.splits)
  then show ?thesis by (simp add: delete_request_def locked_quiet [OF quiet] quiet)
qed

text \<open>C40: A batch is submitted as a whole or not at all (other threads not
  interfering): on success the engine holds exactly one new submission, of the
  requests decoded from guest memory, as many as the guest asked for (1 to 128),
  each within the limits the workers and the descriptor table rely on, and its
  identifier is stored; on any other answer the engine has exactly the submissions
  it had before, and unless it was only the identifier that could not be stored,
  nothing in the engine has changed.\<close>

theorem aio_submit_whole_batch:
  assumes "guest_memory E ok" and "ok (ag_mem s)" and quiet: "\<And>k x. ae_others E k x = x"
    and fresh: "ai_submissions (ag_engine s) (ai_next_id (ag_engine s)) = None"
    and "submit_commands E is_read args s = (r, s')"
  shows "let built = build_requests E is_read (request_addresses (arg args 0) (as_i32 (arg args 1))) (ag_mem s) in
    if r = SCE_OK
    then \<exists>rqs. fst built = Inr rqs \<and>
      length rqs = nat (as_i32 (arg args 1)) \<and> 1 \<le> length rqs \<and> length rqs \<le> 128 \<and>
      (\<forall>rq\<in>set rqs. op_bounded is_read (rq_op rq)) \<and> ag_engine s' = snd (aio_submit rqs (ag_engine s)) \<and>
      gm_read E (arg args 3) 4 (ag_mem s') = Some (u32_bytes (word_of_int (ai_next_id (ag_engine s))))
    else ai_submissions (ag_engine s') = ai_submissions (ag_engine s) \<and>
      (ag_engine s' = ag_engine s \<or> r = SCE_EFAULT \<and> (\<exists>rqs. fst built = Inr rqs) \<and>
         \<not> fst (gm_write E (arg args 3) (u32_bytes (word_of_int (ai_next_id (ag_engine s)))) (snd built)))"
proof -
  let ?n = "as_i32 (arg args 1)"
  consider "arg args 0 = 0 \<or> arg args 3 = 0 \<or> bad_batch ?n"
    | e m where "\<not> bad_batch ?n" "arg args 0 \<noteq> 0" "arg args 3 \<noteq> 0"
        "build_requests E is_read (request_addresses (arg args 0) ?n) (ag_mem s) = (Inl e, m)"
    | rqs m where "\<not> bad_batch ?n" "arg args 0 \<noteq> 0" "arg args 3 \<noteq> 0"
        "build_requests E is_read (request_addresses (arg args 0) ?n) (ag_mem s) = (Inr rqs, m)"
    by (metis obj_sumE surj_pair)
  then show ?thesis
  proof cases
    case 1
    then show ?thesis using assms(5) by (auto simp: submit_commands_def Let_def split: if_splits)
  next
    case 2
    then show ?thesis using assms(5) build_requests_error [OF 2(4)] by (auto simp: submit_commands_def Let_def split: if_splits)
  next
    case 3
    let ?sid = "ai_next_id (ag_engine s)" and ?i = "snd (aio_submit rqs (ag_engine s))"
    have f: "fst (aio_submit rqs (ag_engine s)) = ?sid" by (simp add: aio_submit_def Let_def)
    have sub: "ai_submissions ?i sid = ai_submissions (ag_engine s) sid" if "sid \<noteq> ?sid" for sid
      using that by (simp add: aio_submit_def Let_def)
    have b: "length rqs = nat ?n" "\<forall>rq\<in>set rqs. op_bounded is_read (rq_op rq)"
      using build_requests_bounded [OF assms(1,2) 3(4)] by (auto simp: request_addresses_def)
    have okm: "ok m" using build_requests_ok [OF assms(1,2) 3(4)] .
    obtain st m' where w: "gm_write E (arg args 3) (u32_bytes (word_of_int ?sid)) m = (st, m')"
      by (cases "gm_write E (arg args 3) (u32_bytes (word_of_int ?sid)) m")
    define s1 where "s1 = s\<lparr>ag_engine := ?i, ag_locks := Suc (ag_locks s), ag_mem := m'\<rparr>"
    have e: "submit_commands E is_read args s =
        (if st then (SCE_OK, s1) else (SCE_EFAULT, snd (delete_request E ?sid s1)))"
      using 3 w by (cases st) (simp_all add: submit_commands_def Let_def locked_quiet [OF quiet] f stored_def s1_def)
    show ?thesis
    proof (cases st)
      case True
      have "gm_read E (arg args 3) 4 m' = Some (u32_bytes (word_of_int ?sid))"
        using guest_memory.read_back [OF assms(1) okm, of "arg args 3" "u32_bytes (word_of_int ?sid)" m'] w True
        by simp
      moreover have "r = SCE_OK" "ag_engine s' = ?i" "ag_mem s' = m'"
        using assms(5) e True by (auto simp: s1_def)
      ultimately show ?thesis using b 3(1,4) by (auto simp: bad_batch_def Let_def)
    next
      case False
      have r: "r = SCE_EFAULT" "s' = snd (delete_request E ?sid s1)" using assms(5) e False by auto
      have "ai_submissions (ag_engine s') sid = ai_submissions (ag_engine s) sid" for sid
      proof (cases "sid = ?sid")
        case True
        then show ?thesis using delete_request_own [OF quiet, of ?sid s1] fresh by (simp add: r(2))
      next
        case other: False
        then show ?thesis using delete_request_others [OF quiet other, of s1] sub [OF other] by (simp add: r(2) s1_def)
      qed
      then have "ai_submissions (ag_engine s') = ai_submissions (ag_engine s)" by (rule ext)
      then show ?thesis using r(1) 3(4) w False by simp
    qed
  qed
qed


theorem aio_submit_whole_batch_witness:
  "\<exists>s' rqs. submit_commands flat_env True [0x100, 1, 0, 0x800] demo_caller = (SCE_OK, s') \<and>
    length rqs = 1 \<and> op_bounded True (rq_op (hd rqs)) \<and> ag_engine s' = snd (aio_submit rqs aio_new) \<and>
    ai_submissions (ag_engine (snd (submit_commands flat_env True [0x100, 1, 0, 0x1000] demo_caller))) = Map.empty"
proof -
  have quiet: "\<And>k x. ae_others flat_env k x = x" by (simp add: flat_env_def)
  have l: "length demo_page = 4096" by (simp add: demo_page_def demo_raw_def)
  obtain m1 where m1: "write_result flat_env 0x300 0 AIO_STATE_SUBMITTED demo_page = (True, m1)" "length m1 = 4096"
    using l by (simp add: write_result_def flat_env_def tm_write_def result_bytes_def Let_def)
  have v: "checked_add 0x500 2 \<noteq> None" "ae_validate flat_env 0x500 2 True demo_page"
    by (simp_all add: checked_add_def flat_env_def)
  have b: "build_request flat_env 0x100 True demo_page =
      (Inr \<lparr>rq_op = AioRead 3 1 2, rq_guest_buf = 0x500, rq_guest_result = 0x300\<rparr>, m1)"
    by (rule build_read_request [OF demo_request_read _ _ _ v _ m1(1)]) simp_all
  obtain m2 where "gm_write flat_env 0x800 (u32_bytes (word_of_int 1)) m1 = (True, m2)"
    using m1(2) by (simp add: flat_env_def tm_write_def Let_def)
  then obtain s' where s': "submit_commands flat_env True [0x100, 1, 0, 0x800] demo_caller = (SCE_OK, s')"
    using submit_commands_one [OF quiet, of "0x100" "0x800" True demo_caller] b
    by (simp add: demo_caller_def aio_new_def)
  have "as_i32 1 = 1" by (simp add: as_i32_def)
  then obtain rqs where rqs: "length rqs = 1" "\<forall>rq\<in>set rqs. op_bounded True (rq_op rq)"
    "ag_engine s' = snd (aio_submit rqs aio_new)"
    using aio_submit_whole_batch [OF flat_memory _ quiet _ s'] l
    by (auto simp: demo_caller_def aio_new_def Let_def)
  obtain r2 s2 where s2: "submit_commands flat_env True [0x100, 1, 0, 0x1000] demo_caller = (r2, s2)" by force
  note bad = aio_submit_whole_batch [OF flat_memory _ quiet _ s2, unfolded Let_def]
  have bw: "gm_write flat_env 0x1000 (u32_bytes (word_of_int 1)) m1 = (False, m1)"
    using m1(2) by (simp add: flat_env_def tm_write_def Let_def)
  have "as_i32 1 = 1" "request_addresses 0x100 1 = [0x100]" "\<not> bad_batch 1"
    by (simp_all add: as_i32_def request_addresses_def bad_batch_def)
  then have "r2 = SCE_EFAULT"
    using s2 b bw by (simp add: submit_commands_def locked_quiet [OF quiet] stored_def demo_caller_def aio_new_def
        aio_submit_def Let_def)
  then have none: "ai_submissions (ag_engine s2) = Map.empty"
    using bad l by (simp add: demo_caller_def aio_new_def)
  have "hd rqs \<in> set rqs" using rqs(1) by (cases rqs) auto
  then have "op_bounded True (rq_op (hd rqs))" using rqs(2) by blast
  then show ?thesis
    unfolding s2 snd_conv by (intro exI [of _ s'] exI [of _ rqs] conjI s' rqs(1,3) none)
qed

end
