(* ===== verification/Spec2Isabelle.thy ===== *)
theory Spec2Isabelle
  imports Vma_Map Kernel_Semaphore Event_Flag Posix_Sem Pthread_Rwlock Pthread_Cond Kernel_Equeue Libc_Mspace Rtc_Calendar Texture_Mips Arena_Access Kernel_Aio
begin

text \<open>
  A verification development for Raeen, a console emulator written in Rust
  (sources under \<open>src/crates/\<close>).

  \<^bold>\<open>The program.\<close>  A guest title runs natively in the address space of the
  emulator.  Its calls to system libraries are caught and answered by the
  high-level emulation (\<open>raeen-hle\<close>), whose functions take the argument words of the
  call and return a result word.  They work on the emulated kernel
  (\<open>raeen-kernel\<close>: synchronisation objects, files, asynchronous I/O) and on the guest
  memory (\<open>raeen-runtime\<close>: the arena and its address-space map).  GPU work of the
  title is translated for the host (\<open>raeen-gpu\<close>, \<open>kyty-graphics\<close>); from it the
  development takes the texture layouts.

  \<^bold>\<open>Conventions.\<close>  A guest word is \<open>64 word\<close>, with the wrap-around of a release
  build; a Rust \<open>usize\<close> that indexes a buffer is a \<open>nat\<close>; signed counters are \<open>int\<close> with
  the wrap written out.  Guest memory is an abstract state read and written through a
  record of operations.  A handler is a function from the argument words and the
  state to the result word and the new state.  A Rust panic, an arithmetic failure
  that aborts, and a loop that does not return are the value \<open>None\<close>; every theorem that
  a routine succeeds says that the value is \<open>Some\<close>.  Errors are the code's own error
  words or an \<open>io_error_kind\<close>.  Text is a list of bytes.  Host objects that are shared
  by reference (\<open>Arc\<close>) live in a heap indexed by natural numbers.  Time is a natural
  number of nanoseconds.  A lock of the host delimits one atomic step; what other
  threads do between the steps of a call is an arbitrary state function handed to
  the call, or a step of an inductive relation.  Blocking calls look at their object
  once per slice; they take the list of slices (turns) that pass, and answer \<open>None\<close> when
  the list ends before they return, so that no claim about a wait depends on a bound.

  \<^bold>\<open>Foundations.\<close>
  \<^item> \<open>Raeen_Prelude\<close>: machine types, checked, saturating and wrapping arithmetic, the
    argument vector of a call, the collections of rewrite rules.
  \<^item> \<open>Ordered_Map\<close>: Rust's \<open>BTreeMap\<close> as a sorted association list, its laws as a locale.
  \<^item> \<open>Pow2_Align\<close>, \<open>Rust_Text\<close>: alignment to powers of two; UTF-8 and decimal text.
  \<^item> \<open>Guest_Memory\<close> (\<open>raeen-hle/src/lib.rs\<close>): the interface of guest memory and of the
    guest allocator as the locales \<open>guest_memory\<close>, \<open>byte_memory\<close> and \<open>guest_host\<close>,
    interpreted on the repository's own flat backend.
  \<^item> \<open>Wait_Slices\<close> (\<open>raeen-core/src/subsystems.rs\<close>): the loop of every blocking wait,
    proved once in the locale \<open>sliced_wait\<close>: an answer other than the timeout comes from
    a slice that saw the object ready, a timeout only at the deadline.

  \<^bold>\<open>Kernel objects.\<close>
  \<^item> \<open>Counting_Semaphore\<close>: the contract of a counting semaphore and its conservation law;
    interpreted by \<open>Kernel_Semaphore\<close> (\<open>kernel_semaphore.rs\<close>) and \<open>Posix_Sem\<close>
    (\<open>posix_sem.rs\<close>, with the thread's \<open>errno\<close> of \<open>Guest_Errno\<close>).
  \<^item> \<open>Event_Flag\<close> (\<open>kernel_eventflag.rs\<close>): the bounded handle table, and the refinement
    of the bit words by sets of conditions.
  \<^item> \<open>Guest_Waiters\<close> (\<open>raeen-kernel/src/lib.rs\<close>): waiters, FIFO wait queues and the table of
    address waits; the locale \<open>wait_queue\<close> is what mutexes and condition variables use.
  \<^item> \<open>Pthread_Mutex\<close>, \<open>Pthread_Rwlock\<close> (\<open>pthread_sync.rs\<close>) and \<open>Pthread_Cond\<close>
    (\<open>pthread_cond.rs\<close>): the objects, every call on them, and step relations of threads
    over one object.  Mutual exclusion, hand-off in order, absence of lost wake-ups and
    the exact outcome of timed waits are invariants by rule induction.
  \<^item> \<open>Kernel_Equeue\<close> (\<open>kernel_equeue.rs\<close>): queues, registrations, triggers and delivery.

  \<^bold>\<open>Memory.\<close>
  \<^item> \<open>Vma_Map\<close> (\<open>vmm.rs\<close>): the map of areas; mapping refines the override of a function
    from addresses to attributes, the search returns the least fitting address.
  \<^item> \<open>Host_Intervals\<close>, \<open>Guest_Arena\<close>, \<open>Arena_Heap\<close>, \<open>Arena_Access\<close> (\<open>arena.rs\<close>): the records
    of host protections; allocation, release, reallocation and unmapping of guest
    memory over the map; demand commit and the checked reads and writes.
  \<^item> \<open>Libc_Mspace\<close> (\<open>libsce_libc_internal.rs\<close>): the heaps a title creates over its
    own memory; live blocks stay inside their heap and apart from each other, over the
    histories in which no first-fit test wraps and no heap is created over a live one
    (the program prevents neither; two lemmas show what then happens).

  \<^bold>\<open>Files.\<close>
  \<^item> \<open>Host_Io\<close>: the host file system as a record of operations, a parameter of every
    definition that touches files; text and path helpers of the Rust library.
  \<^item> \<open>Vfs_Path\<close>, \<open>Vfs_Mounts\<close> (\<open>filesystem/mod.rs\<close>): path normalization, the mount table
    with the save-data slots over every history of the operations on it (two ghosts
    record the save root at each claim and a reset of the root over a mounted slot 0),
    and the confinement of guest paths.
  \<^item> \<open>Memory_Uri\<close> (\<open>filesystem/memory_scheme.rs\<close>): pseudo-files over guest memory; the
    parser accepts exactly the spellings of the valid ranges.
  \<^item> \<open>Vfs_Dirents\<close>: the packing of directory records into blocks.
  \<^item> \<open>Vfs_Files\<close>: the descriptor table, one definition per operation; \<open>Vfs_Typing\<close> proves
    the typing invariant of the table over all operations and where guest ranges come
    from, \<open>Vfs_Refinement\<close> that a writable descriptor is a byte sequence with a position
    which survives its close, \<open>Vfs_Streams\<close> what holds of
    guest ranges, of directories read in pieces and of asynchronous I/O on the table.
  \<^item> \<open>Aio_Engine\<close> (\<open>aio.rs\<close>): submissions, work queue, workers, polling, waiting,
    cancellation and delivery, with their interleavings as a step relation.
  \<^item> \<open>Kernel_Aio\<close> (\<open>kernel_aio.rs\<close>): the guest's calls on the engine: decoding requests,
    submission, polling, waiting, cancellation, deletion and the delivery of completions
    into guest buffers, with the other threads acting before every acquisition of the
    engine's lock.  A read goes end to end, a terminal answer promises delivery, a batch
    is submitted as a whole.

  \<^bold>\<open>Time and textures.\<close>
  \<^item> \<open>Rtc_Calendar\<close> (\<open>libsce_rtc.rs\<close>): ticks and dates, validated against counting the
    days one by one, tick arithmetic and the RFC 3339 text.
  \<^item> \<open>Byte_Blits\<close>, \<open>Gfx10_Swizzle\<close>, \<open>Texture_Tiling\<close>, \<open>Texture_Mips\<close>
    (\<open>raeen-gpu/src/texture/tiling.rs\<close>): element copies that may panic, the swizzle
    equations, the detilers and tilers as inverse copies (locale \<open>tiled_surface\<close>), and
    the placement of mip levels.

  \<^bold>\<open>Lemma groups.\<close>  In every component theory the definitions come first, in the order of
  the source; then the invariant and its preservation by each operation; then the
  properties, each followed by a witness: a concrete state at which its hypotheses hold.
  Some lemmas record behaviour that is likely not intended, for instance
  \<open>flag_zero_timeout_ignores_bits\<close>, \<open>delete_loses_late_completion\<close>, \<open>unmount_leaves_mount\<close>,
  \<open>set_root_redirects_slot_zero\<close>, \<open>memalign_wrap_granted\<close>, \<open>create_over_live\<close> and
  \<open>wait_requests_reports_undelivered\<close>.

  \<^bold>\<open>Bounds.\<close>  Loops that end by a decreasing measure are total functions
  (\<open>range_probe\<close>, \<open>positional_read\<close>, \<open>canonically_contained\<close>, the hexadecimal printer).
  Loops over the address space that could wrap are partial functions whose termination
  is a theorem (\<open>range_is_free_exact\<close>, \<open>range_all_exact\<close>, the commit of pages).  A buffer
  longer than \<open>ISIZE_MAX\<close> bytes is a panic, as in Rust.  Handles and descriptors are
  64-bit or 32-bit counters; results that need them fresh assume that the counter has
  not wrapped.

  \<^bold>\<open>Not modelled.\<close>  Shader translation and the command processor: their correctness is
  agreement of the console's and the host's instruction sets, neither of which is in
  the repository.  The Vulkan back end, the user interface, audio, input and the
  upscaler: calls of host drivers and floating-point filters.  Native execution
  (trampolines, trap handling, thread-local storage, fibers): machine code.  Package
  and firmware containers, module discovery, configuration, trophies and logging:
  host I/O and records.  The remaining libc and libkernel entry points are fixed answers, formatting,
  or host calls.  In the modelled files, logging, counters for diagnosis, flags that
  suppress repeated notices and reports of long contention are left out; of the arena,
  the mapping of fixed addresses, direct memory and the decommit at its end.
\<close>

end
